(* ===== verification/Cinderx_Prelude.thy ===== *)
theory Cinderx_Prelude
  imports Main "HOL-Library.Multiset" "HOL-Library.Word"
begin

text \<open>
  Shared vocabulary of the development: the error values that stand for a pending Python
  exception (or for undefined behaviour of the C code), the result type of fallible
  functions, the limits of \<open>Py_ssize_t\<close> and \<open>size_t\<close> on a 64-bit build, arrays of C cells as
  lists with a block copy, and the generic list lemmas the components share.
\<close>

unbundle bit_operations_syntax

named_theorems cell_simps \<open>reading, writing and copying array cells\<close>
named_theorems cmp_rules \<open>how the comparison callbacks behave\<close>

section \<open>Errors and results\<close>

text \<open>
  The exceptions the C code sets before it returns \<open>NULL\<close> or \<open>-1\<close>. \<open>Propagated\<close> is an
  exception that a callback (a comparison, a hash, an iterator) had already set.
  \<open>NullDereference\<close>, \<open>InvalidMemory\<close> and \<open>AssertionFailure\<close> are not exceptions: they mark a call whose
  C code dereferences a null pointer, accesses memory outside an array or an array that was freed, or fails an
  assert, on this branch.
\<close>

datatype py_error =
    IndexError string
  | TypeError string
  | StaticTypeError string
  | ValueError string
  | KeyError
  | MemoryError
  | OverflowError string
  | SystemError
  | RuntimeError string
  | Propagated
  | NullDereference
  | InvalidMemory
  | AssertionFailure

type_synonym 'a res = "py_error + 'a"

section \<open>Machine integers\<close>

type_synonym size_t = "64 word"

abbreviation PY_SSIZE_T_MAX :: int where
  "PY_SSIZE_T_MAX \<equiv> 9223372036854775807"

text \<open>\<open>sizeof(PyObject*)\<close> on the 64-bit platforms the JIT supports.\<close>

abbreviation ptr_size :: nat where
  "ptr_size \<equiv> 8"

lemma uint_of_int_size_t [simp]:
  "0 \<le> i \<Longrightarrow> i < 2 ^ 64 \<Longrightarrow> uint (of_int i :: size_t) = i"
  by (simp add: take_bit_int_eq_self uint_word_of_int)

lemma sint_of_int_size_t [simp]: "0 \<le> i \<Longrightarrow> i < 2 ^ 63 \<Longrightarrow> sint (of_int i :: size_t) = i"
  by (simp add: sint_sbintrunc' signed_take_bit_int_eq_self)

text \<open>\<open>w & ~(size_t)3\<close>: rounding down to a multiple of four.\<close>

lemma uint_and_not_3: "uint (w AND NOT 3 :: size_t) = (uint w div 4) * 4"
proof -
  have m: "(3 :: size_t) = mask 2" by (simp add: mask_eq_exp_minus_1)
  have e: "w AND NOT (mask 2) = push_bit 2 (drop_bit 2 w)"
    by (rule bit_eqI) (simp add: bit_simps del: mask_numeral, metis le_add_diff_inverse add_2_eq_Suc not_less)
  have lt: "uint w div 4 * 4 < 2 ^ 64"
    using uint_bounded[of w] by simp
  have "uint (push_bit 2 (drop_bit 2 w)) = take_bit 64 (uint w div 4 * 4)"
    by (simp add: push_bit_eq_mult drop_bit_eq_div uint_word_ariths uint_div take_bit_eq_mod)
  also have "\<dots> = uint w div 4 * 4"
    by (rule take_bit_int_eq_self) (use lt uint_ge_0 [of w] in \<open>simp_all add: pos_imp_zdiv_nonneg_iff\<close>)
  finally show ?thesis unfolding m e .
qed

section \<open>Arrays of cells\<close>

text \<open>
  \<open>memcpy(&dst[i], &src[j], n)\<close> on arrays represented as lists, and \<open>memmove\<close> when \<open>src\<close> and
  \<open>dst\<close> are the same array.
\<close>

definition blit :: "'a list \<Rightarrow> nat \<Rightarrow> 'a list \<Rightarrow> nat \<Rightarrow> nat \<Rightarrow> 'a list" where
  "blit dst i src j n = take i dst @ take n (drop j src) @ drop (i + n) dst"

lemma length_blit [simp]:
  "i + n \<le> length dst \<Longrightarrow> j + n \<le> length src \<Longrightarrow> length (blit dst i src j n) = length dst"
  by (simp add: blit_def)

lemma blit_0 [simp]: "blit dst i src j 0 = dst"
  by (simp add: blit_def)

text \<open>The block copy on an array cut at the places the copy touches.\<close>

lemma blit_append [cell_simps]:
  assumes "length pre = i" "length old = n" "length spre = j" "length new = n"
  shows "blit (pre @ old @ post) i (spre @ new @ spost) j n = pre @ new @ post"
  using assms by (simp add: blit_def)

lemma take_drop_nth: "i < length xs \<Longrightarrow> take (Suc 0) (drop i xs) = [xs ! i]"
  by (simp add: take_Suc hd_drop_conv_nth)

lemma blit_Suc_0: "i < length dst \<Longrightarrow> j < length src \<Longrightarrow> blit dst i src j (Suc 0) = dst[i := src ! j]"
  by (simp add: blit_def take_drop_nth upd_conv_take_nth_drop)

lemma list_update_append_here [cell_simps]:
  "length pre = i \<Longrightarrow> (pre @ x # post)[i := y] = pre @ y # post"
  by (simp add: list_update_append)

lemma nth_append_here [cell_simps]: "length pre = i \<Longrightarrow> (pre @ x # post) ! i = x"
  by (simp add: nth_append)

end
