(* ===== verification/List_Object.thy ===== *)
theory List_Object
  imports Cinderx_Prelude
begin

text \<open>
  The list object behind \<open>CheckedList\<close>: the operations \<open>checked_list.c\<close> takes over from
  \<open>listobject.c\<close>, on a model of \<open>PyListObject\<close>.

  \<open>ob_item\<close> is \<open>None\<close> for a null pointer, or the block of cells it points to; a cell is \<open>None\<close> while
  it holds heap trash. \<open>ob_size\<close> and \<open>allocated\<close> are the \<open>Py_ssize_t\<close> fields. \<open>mem n\<close> answers whether
  the allocator grants a block of \<open>n\<close> bytes. Reference counts, and the finalizers that dropping a
  reference may run, are not modelled. Operations that call back into Python (comparisons and
  iterators) thread a state that contains the list itself, because the callback may change it;
  their loops are partial functions, since a callback can keep them running.
\<close>

section \<open>Definitions\<close>

record 'o PyListObject =
  ob_item :: "'o option list option"
  ob_size :: int
  allocated :: int

definition cells :: "'o PyListObject \<Rightarrow> 'o option list" where
  "cells self = (case ob_item self of None \<Rightarrow> [] | Some xs \<Rightarrow> xs)"

text \<open>\<open>self->ob_item[i]\<close> for reading and for writing.\<close>

definition get_item :: "'o PyListObject \<Rightarrow> int \<Rightarrow> 'o" where
  "get_item self i = the (cells self ! nat i)"

definition set_item :: "'o PyListObject \<Rightarrow> int \<Rightarrow> 'o \<Rightarrow> 'o PyListObject" where
  "set_item self i v = self\<lparr>ob_item := Some ((cells self)[nat i := Some v])\<rparr>"

text \<open>The contents of the list.\<close>

definition items :: "'o PyListObject \<Rightarrow> 'o list" where
  "items self = map the (take (nat (ob_size self)) (cells self))"

definition empty_list :: "'o PyListObject" where
  "empty_list = \<lparr>ob_item = None, ob_size = 0, allocated = 0\<rparr>"

text \<open>\<open>realloc\<close>: the common prefix survives, new cells are trash.\<close>

definition realloc_cells :: "'o option list \<Rightarrow> nat \<Rightarrow> 'o option list" where
  "realloc_cells xs n = take n xs @ replicate (n - length xs) None"

text \<open>\<open>PyMem_New(PyObject*, size)\<close>\<close>

definition pymem_new :: "(nat \<Rightarrow> bool) \<Rightarrow> int \<Rightarrow> 'o option list option" where
  "pymem_new mem sz =
     (if sz \<le> PY_SSIZE_T_MAX div int ptr_size \<and> mem (nat sz * ptr_size)
      then Some (replicate (nat sz) None) else None)"

subsection \<open>Allocation\<close>

definition list_resize ::
  "(nat \<Rightarrow> bool) \<Rightarrow> 'o PyListObject \<Rightarrow> int \<Rightarrow> unit res \<times> 'o PyListObject" where
  "list_resize mem self newsize =
     (if allocated self \<ge> newsize \<and> newsize \<ge> allocated self div 2
      then (Inr (), self\<lparr>ob_size := newsize\<rparr>)
      else
        (let new_allocated = ((of_int newsize :: size_t) + of_int (newsize div 8) + 6) AND NOT 3;
             new_allocated =
               (if newsize - ob_size self > sint (new_allocated - of_int newsize)
                then (of_int newsize + 3) AND NOT 3 else new_allocated);
             new_allocated = (if newsize = 0 then 0 else new_allocated);
             num_allocated_bytes = unat (new_allocated * of_nat ptr_size)
         in if mem num_allocated_bytes
            then (Inr (), self\<lparr>ob_item := Some (realloc_cells (cells self) (num_allocated_bytes div ptr_size)),
                    ob_size := newsize, allocated := sint new_allocated\<rparr>)
            else (Inl MemoryError, self)))"

definition list_preallocate_exact ::
  "(nat \<Rightarrow> bool) \<Rightarrow> 'o PyListObject \<Rightarrow> int \<Rightarrow> unit res \<times> 'o PyListObject" where
  "list_preallocate_exact mem self sz =
     (case pymem_new mem sz of
        None \<Rightarrow> (Inl MemoryError, self)
      | Some xs \<Rightarrow> (Inr (), self\<lparr>ob_item := Some xs, allocated := sz\<rparr>))"

definition list_new_prealloc :: "(nat \<Rightarrow> bool) \<Rightarrow> int \<Rightarrow> 'o PyListObject res" where
  "list_new_prealloc mem sz =
     (case pymem_new mem sz of
        None \<Rightarrow> Inl MemoryError
      | Some xs \<Rightarrow> Inr (empty_list\<lparr>ob_item := Some xs, allocated := sz\<rparr>))"

text \<open>The single unsigned comparison of \<open>valid_index\<close>.\<close>

definition valid_index :: "int \<Rightarrow> int \<Rightarrow> bool" where
  "valid_index i limit \<longleftrightarrow> (of_int i :: size_t) < of_int limit"

text \<open>\<open>for (i = n; --i >= where;) items[i + 1] = items[i];\<close>\<close>

fun shift_up :: "'o option list \<Rightarrow> nat \<Rightarrow> nat \<Rightarrow> 'o option list" where
  "shift_up xs 0 w = xs"
| "shift_up xs (Suc i) w = (if w \<le> i then shift_up (xs[Suc i := xs ! i]) i w else xs)"

definition ins1 ::
  "(nat \<Rightarrow> bool) \<Rightarrow> 'o PyListObject \<Rightarrow> int \<Rightarrow> 'o option \<Rightarrow> unit res \<times> 'o PyListObject" where
  "ins1 mem self w v =
     (let n = ob_size self in
      case v of
        None \<Rightarrow> (Inl SystemError, self)
      | Some v \<Rightarrow>
          (case list_resize mem self (n + 1) of
             (Inl e, self) \<Rightarrow> (Inl e, self)
           | (Inr _, self) \<Rightarrow>
               (let w = (if w < 0 then (if w + n < 0 then 0 else w + n) else w);
                    w = (if w > n then n else w)
                in (Inr (), self\<lparr>ob_item := Some ((shift_up (cells self) (nat n) (nat w))[nat w := Some v])\<rparr>))))"

definition app1 :: "(nat \<Rightarrow> bool) \<Rightarrow> 'o PyListObject \<Rightarrow> 'o \<Rightarrow> unit res \<times> 'o PyListObject" where
  "app1 mem self v =
     (let n = ob_size self in
      case list_resize mem self (n + 1) of
        (Inl e, self) \<Rightarrow> (Inl e, self)
      | (Inr _, self) \<Rightarrow> (Inr (), set_item self n v))"

definition list_length :: "'o PyListObject \<Rightarrow> int" where
  "list_length a = ob_size a"

definition list_item :: "'o PyListObject \<Rightarrow> int \<Rightarrow> 'o res" where
  "list_item a i =
     (if \<not> valid_index i (ob_size a) then Inl (IndexError ''list index out of range'')
      else Inr (get_item a i))"

subsection \<open>Slices, concatenation and repetition\<close>

text \<open>\<open>dest[i] = src[i]\<close> for \<open>n\<close> cells: the copy loops of \<open>list_slice\<close> and its relatives.\<close>

definition list_slice :: "(nat \<Rightarrow> bool) \<Rightarrow> 'o PyListObject \<Rightarrow> int \<Rightarrow> int \<Rightarrow> 'o PyListObject res" where
  "list_slice mem a ilow ihigh =
     (let len = ihigh - ilow in
      if len \<le> 0 then Inr empty_list
      else case list_new_prealloc mem len of
          Inl e \<Rightarrow> Inl e
        | Inr np \<Rightarrow> Inr (np\<lparr>ob_item := Some (blit (cells np) 0 (cells a) (nat ilow) (nat len)), ob_size := len\<rparr>))"

text \<open>\<open>bb\<close> is the list to append, or \<open>None\<close> when the operand is not a list.\<close>

definition list_concat ::
  "(nat \<Rightarrow> bool) \<Rightarrow> 'o PyListObject \<Rightarrow> 'o PyListObject option \<Rightarrow> 'o PyListObject res" where
  "list_concat mem a bb =
     (case bb of
        None \<Rightarrow> Inl (TypeError ''can only concatenate list to list'')
      | Some b \<Rightarrow>
          (let sz = ob_size a + ob_size b in
           if sz = 0 then Inr empty_list
           else case list_new_prealloc mem sz of
               Inl e \<Rightarrow> Inl e
             | Inr np \<Rightarrow>
                 (let dest = blit (cells np) 0 (cells a) 0 (nat (ob_size a));
                      dest = blit dest (nat (ob_size a)) (cells b) 0 (nat (ob_size b))
                  in Inr (np\<lparr>ob_item := Some dest, ob_size := sz\<rparr>))))"

text \<open>\<open>n\<close> copies of the first \<open>size\<close> cells of \<open>src\<close>, written from \<open>p\<close> on.\<close>

fun copy_blocks :: "nat \<Rightarrow> 'o option list \<Rightarrow> nat \<Rightarrow> 'o option list \<Rightarrow> nat \<Rightarrow> 'o option list" where
  "copy_blocks 0 src sz dest p = dest"
| "copy_blocks (Suc n) src sz dest p = copy_blocks n src sz (blit dest p src 0 sz) (p + sz)"

definition list_repeat :: "(nat \<Rightarrow> bool) \<Rightarrow> 'o PyListObject \<Rightarrow> int \<Rightarrow> 'o PyListObject res" where
  "list_repeat mem a n =
     (let n = (if n < 0 then 0 else n) in
      if n > 0 \<and> ob_size a > PY_SSIZE_T_MAX div n then Inl MemoryError
      else
        (let sz = ob_size a * n in
         if sz = 0 then Inr empty_list
         else case list_new_prealloc mem sz of
             Inl e \<Rightarrow> Inl e
           | Inr np \<Rightarrow>
               (let dest =
                  (if ob_size a = 1 then replicate (nat n) (cells a ! 0)
                   else copy_blocks (nat n) (cells a) (nat (ob_size a)) (cells np) 0)
                in Inr (np\<lparr>ob_item := Some dest, ob_size := sz\<rparr>))))"

definition list_clear_items :: "'o PyListObject \<Rightarrow> 'o PyListObject" where
  "list_clear_items a =
     (case ob_item a of
        None \<Rightarrow> a
      | Some _ \<Rightarrow> a\<lparr>ob_size := 0, ob_item := None, allocated := 0\<rparr>)"

definition list_inplace_repeat ::
  "(nat \<Rightarrow> bool) \<Rightarrow> 'o PyListObject \<Rightarrow> int \<Rightarrow> unit res \<times> 'o PyListObject" where
  "list_inplace_repeat mem self n =
     (let sz = ob_size self in
      if sz = 0 \<or> n = 1 then (Inr (), self)
      else if n < 1 then (Inr (), list_clear_items self)
      else if sz > PY_SSIZE_T_MAX div n then (Inl MemoryError, self)
      else case list_resize mem self (sz * n) of
          (Inl e, self) \<Rightarrow> (Inl e, self)
        | (Inr _, self) \<Rightarrow>
            (Inr (), self\<lparr>ob_item := Some (copy_blocks (nat (n - 1)) (cells self) (nat sz) (cells self) (nat sz))\<rparr>))"

subsection \<open>Replacing a slice\<close>

text \<open>\<open>list_ass_slice\<close> behind its look at \<open>v\<close>; \<open>vs\<close> are the replacement items (none for a null \<open>v\<close>).\<close>

definition clamp_slice :: "int \<Rightarrow> int \<Rightarrow> int \<Rightarrow> int \<times> int" where
  "clamp_slice sz ilow ihigh =
     (let ilow = (if ilow < 0 then 0 else if ilow > sz then sz else ilow);
          ihigh = (if ihigh < ilow then ilow else if ihigh > sz then sz else ihigh)
      in (ilow, ihigh))"

text \<open>
  Deleting \<open>-d\<close> or inserting \<open>d\<close> cells behind \<open>ihigh\<close>: the tail moves before the list shrinks, and
  moves back (with the recycled cells) when the resize fails.
\<close>

definition slice_make_room ::
  "(nat \<Rightarrow> bool) \<Rightarrow> 'o PyListObject \<Rightarrow> int \<Rightarrow> int \<Rightarrow> int \<Rightarrow> unit res \<times> 'o PyListObject" where
  "slice_make_room mem a ilow ihigh d =
     (let sz = ob_size a;
          norig = ihigh - ilow;
          recycle = take (nat norig) (drop (nat ilow) (cells a));
          tail = nat (sz - ihigh)
      in if d < 0 then
           (let moved = a\<lparr>ob_item := Some (blit (cells a) (nat (ihigh + d)) (cells a) (nat ihigh) tail)\<rparr>
            in case list_resize mem moved (sz + d) of
                 (Inl e, a) \<Rightarrow>
                   (let item = blit (cells a) (nat ihigh) (cells a) (nat (ihigh + d)) tail;
                        item = blit item (nat ilow) recycle 0 (nat norig)
                    in (Inl e, a\<lparr>ob_item := Some item\<rparr>))
               | (Inr _, a) \<Rightarrow> (Inr (), a))
         else if d > 0 then
           (case list_resize mem a (sz + d) of
              (Inl e, a) \<Rightarrow> (Inl e, a)
            | (Inr _, a) \<Rightarrow>
                (Inr (), a\<lparr>ob_item := Some (blit (cells a) (nat (ihigh + d)) (cells a) (nat ihigh) tail)\<rparr>))
         else (Inr (), a))"

definition list_ass_slice_items ::
  "(nat \<Rightarrow> bool) \<Rightarrow> 'o PyListObject \<Rightarrow> int \<Rightarrow> int \<Rightarrow> 'o list \<Rightarrow> unit res \<times> 'o PyListObject" where
  "list_ass_slice_items mem a ilow ihigh vs =
     (let (ilow, ihigh) = clamp_slice (ob_size a) ilow ihigh;
          n = int (length vs);
          norig = ihigh - ilow;
          d = n - norig;
          s = nat norig * ptr_size
      in if ob_size a + d = 0 then (Inr (), list_clear_items a)
         else if s > 8 * ptr_size \<and> \<not> mem s then (Inl MemoryError, a)
         else case slice_make_room mem a ilow ihigh d of
             (Inl e, a) \<Rightarrow> (Inl e, a)
           | (Inr _, a) \<Rightarrow> (Inr (), a\<lparr>ob_item := Some (blit (cells a) (nat ilow) (map Some vs) 0 (nat n))\<rparr>))"

text \<open>
  What can be assigned to a slice: the list itself, or an object of which \<open>PySequence_Fast\<close> makes
  a sequence of items or an exception.
\<close>

datatype 'o slice_value = SelfList | Sequence "'o list res"

definition list_ass_slice ::
  "(nat \<Rightarrow> bool) \<Rightarrow> 'o PyListObject \<Rightarrow> int \<Rightarrow> int \<Rightarrow> 'o slice_value option \<Rightarrow> unit res \<times> 'o PyListObject" where
  "list_ass_slice mem a ilow ihigh v =
     (case v of
        None \<Rightarrow> list_ass_slice_items mem a ilow ihigh []
      | Some SelfList \<Rightarrow>
          (case list_slice mem a 0 (ob_size a) of
             Inl e \<Rightarrow> (Inl e, a)
           | Inr b \<Rightarrow> list_ass_slice_items mem a ilow ihigh (items b))
      | Some (Sequence (Inl e)) \<Rightarrow> (Inl e, a)
      | Some (Sequence (Inr vs)) \<Rightarrow> list_ass_slice_items mem a ilow ihigh vs)"

definition list_ass_item ::
  "(nat \<Rightarrow> bool) \<Rightarrow> 'o PyListObject \<Rightarrow> int \<Rightarrow> 'o option \<Rightarrow> unit res \<times> 'o PyListObject" where
  "list_ass_item mem a i v =
     (if \<not> valid_index i (ob_size a) then (Inl (IndexError ''list assignment index out of range''), a)
      else case v of
          None \<Rightarrow> list_ass_slice mem a i (i + 1) None
        | Some v \<Rightarrow> (Inr (), set_item a i v))"

definition list_pop_impl :: "(nat \<Rightarrow> bool) \<Rightarrow> 'o PyListObject \<Rightarrow> int \<Rightarrow> 'o res \<times> 'o PyListObject" where
  "list_pop_impl mem self index =
     (if ob_size self = 0 then (Inl (IndexError ''pop from empty list''), self)
      else
        (let index = (if index < 0 then index + ob_size self else index) in
         if \<not> valid_index index (ob_size self) then (Inl (IndexError ''pop index out of range''), self)
         else
           (let v = get_item self index in
            if index = ob_size self - 1 then
              (case list_resize mem self (ob_size self - 1) of
                 (Inl e, self) \<Rightarrow> (Inl e, self)
               | (Inr _, self) \<Rightarrow> (Inr v, self))
            else
              (case list_ass_slice mem self index (index + 1) None of
                 (Inl e, self) \<Rightarrow> (Inl e, self)
               | (Inr _, self) \<Rightarrow> (Inr v, self)))))"

end
