(* ===== verification/List_Object_Correct.thy ===== *)
theory List_Object_Correct
  imports List_Object
begin

text \<open>
  The list operations refine operations on HOL lists: \<open>list_holds self xs\<close> says that the object is
  well formed and its contents are \<open>xs\<close>. Every operation either leaves the object as it was and
  reports \<open>MemoryError\<close> (or the error its guard names), or leaves an object that holds the
  specified list. The last section shows where the C code stops being safe: the size computation
  of \<open>list_resize\<close> can wrap around.
\<close>

section \<open>What a list object holds\<close>

definition list_holds :: "'o PyListObject \<Rightarrow> 'o list \<Rightarrow> bool" where
  "list_holds self xs \<longleftrightarrow>
     (\<exists>spare. cells self = map Some xs @ spare) \<and> ob_size self = int (length xs) \<and>
     allocated self = int (length (cells self)) \<and> allocated self * int ptr_size \<le> PY_SSIZE_T_MAX"

definition list_wf :: "'o PyListObject \<Rightarrow> bool" where
  "list_wf self \<longleftrightarrow>
     0 \<le> ob_size self \<and> ob_size self \<le> allocated self \<and> allocated self = int (length (cells self)) \<and>
     allocated self * int ptr_size \<le> PY_SSIZE_T_MAX \<and> None \<notin> set (take (nat (ob_size self)) (cells self))"

text \<open>\<open>PyMem_Malloc\<close> and \<open>PyMem_Realloc\<close> refuse requests beyond \<open>PY_SSIZE_T_MAX\<close> bytes.\<close>

definition mem_sane :: "(nat \<Rightarrow> bool) \<Rightarrow> bool" where
  "mem_sane mem \<longleftrightarrow> (\<forall>n. mem n \<longrightarrow> int n \<le> PY_SSIZE_T_MAX)"

lemma list_holds_items: "list_holds self xs \<Longrightarrow> items self = xs"
  by (auto simp: list_holds_def items_def comp_def)

lemma map_Some_the: "None \<notin> set xs \<Longrightarrow> map Some (map the xs) = xs"
  by (induction xs) auto

lemma list_wf_iff: "list_wf self \<longleftrightarrow> list_holds self (items self)"
proof
  assume wf: "list_wf self"
  let ?n = "nat (ob_size self)"
  have "map Some (items self) = take ?n (cells self)"
    using wf map_Some_the by (auto simp: list_wf_def items_def simp del: map_map)
  then have "cells self = map Some (items self) @ drop ?n (cells self)" by simp
  moreover have "ob_size self = int (length (items self))"
    using wf by (auto simp: list_wf_def items_def min_def)
  ultimately show "list_holds self (items self)"
    using wf unfolding list_holds_def list_wf_def by blast
next
  assume "list_holds self (items self)"
  then show "list_wf self" by (auto simp: list_holds_def list_wf_def)
qed

lemma list_holds_wf: "list_holds self xs \<Longrightarrow> list_wf self"
  using list_holds_items by (auto simp: list_wf_iff)

lemma list_holds_length:
  "list_holds self xs \<Longrightarrow> ob_size self = int (length xs) \<and> int (length xs) < 2 ^ 60 \<and> length xs \<le> length (cells self)"
  by (auto simp: list_holds_def)

lemma list_holds_empty [simp]: "list_holds empty_list []"
  by (simp add: list_holds_def empty_list_def cells_def)

lemma cells_simps [simp]:
  "cells (self\<lparr>ob_size := n\<rparr>) = cells self" "cells (self\<lparr>allocated := n\<rparr>) = cells self"
  "cells (self\<lparr>ob_item := Some xs\<rparr>) = xs" "cells (self\<lparr>ob_item := None\<rparr>) = []"
  by (simp_all add: cells_def)

lemma valid_index_iff:
  "- (2 ^ 63) \<le> i \<Longrightarrow> i < 2 ^ 63 \<Longrightarrow> 0 \<le> n \<Longrightarrow> n < 2 ^ 63 \<Longrightarrow> valid_index i n \<longleftrightarrow> 0 \<le> i \<and> i < n"
proof (cases "0 \<le> i")
  case True
  moreover assume "i < 2 ^ 63" "0 \<le> n" "n < 2 ^ 63"
  ultimately show ?thesis by (simp add: valid_index_def word_less_def)
next
  case False
  moreover assume "- (2 ^ 63) \<le> i" "0 \<le> n" "n < 2 ^ 63"
  moreover from calculation have "uint (of_int i :: size_t) = i + 2 ^ 64"
    using mod_pos_pos_trivial [of "i + 2 ^ 64" "2 ^ 64"] by (simp add: uint_word_of_int take_bit_eq_mod)
  ultimately show ?thesis by (simp add: valid_index_def word_less_def)
qed

section \<open>Resizing\<close>

text \<open>The number of cells \<open>list_resize\<close> asks for, in unbounded arithmetic.\<close>

definition grown :: "int \<Rightarrow> int \<Rightarrow> int" where
  "grown newsize old =
     (let g = (newsize + newsize div 8 + 6) div 4 * 4;
          g = (if newsize - old > g - newsize then (newsize + 3) div 4 * 4 else g)
      in if newsize = 0 then 0 else g)"

lemma grown_bounds: "0 \<le> n \<Longrightarrow> n \<le> grown n old \<and> grown n old \<le> n + n div 8 + 6"
  by (auto simp: grown_def Let_def)

lemma round_to_4: "0 \<le> i \<Longrightarrow> i < 2 ^ 64 \<Longrightarrow> (of_int i AND NOT 3 :: size_t) = of_int (i div 4 * 4)"
proof (rule word_uint_eqI)
  assume i: "0 \<le> i" "i < 2 ^ 64"
  then have "uint (of_int (i div 4 * 4) :: size_t) = i div 4 * 4" by (intro uint_of_int_size_t) auto
  with i show "uint (of_int i AND NOT 3 :: size_t) = uint (of_int (i div 4 * 4) :: size_t)"
    by (simp only: uint_and_not_3 uint_of_int_size_t)
qed

lemma list_resize_eq:
  assumes n: "0 \<le> newsize" "newsize \<le> 2 ^ 60"
  shows "list_resize mem self newsize =
    (let g = grown newsize (ob_size self) in
     if allocated self \<ge> newsize \<and> newsize \<ge> allocated self div 2 then (Inr (), self\<lparr>ob_size := newsize\<rparr>)
     else if mem (nat g * ptr_size)
     then (Inr (), self\<lparr>ob_item := Some (realloc_cells (cells self) (nat g)), ob_size := newsize, allocated := g\<rparr>)
     else (Inl MemoryError, self))"
proof -
  define g1 where "g1 = (newsize + newsize div 8 + 6) div 4 * 4"
  define g where "g = grown newsize (ob_size self)"
  have g1: "newsize \<le> g1" "g1 < 2 ^ 61" using n by (auto simp: g1_def)
  have r1: "((of_int newsize :: size_t) + of_int (newsize div 8) + 6) AND NOT 3 = of_int g1"
    unfolding g1_def using n by (subst round_to_4 [symmetric]) auto
  have r2: "((of_int newsize :: size_t) + 3) AND NOT 3 = of_int ((newsize + 3) div 4 * 4)"
    using n by (subst round_to_4 [symmetric]) auto
  have d: "sint (of_int g1 - of_int newsize :: size_t) = g1 - newsize"
    using sint_of_int_size_t [of "g1 - newsize"] g1 n by simp
  have g: "0 \<le> g" "g < 2 ^ 61" using grown_bounds [OF n(1), of "ob_size self"] n by (auto simp: g_def)
  have "(if newsize = 0 then 0 else if newsize - ob_size self > sint (of_int g1 - of_int newsize :: size_t)
      then (of_int newsize + 3) AND NOT 3 else of_int g1) = (of_int g :: size_t)"
    unfolding d r2 by (simp add: g_def grown_def Let_def g1_def)
  moreover have "unat (of_int g * of_nat ptr_size :: size_t) = nat g * ptr_size"
  proof -
    have "of_int g * of_nat ptr_size = (of_int (g * 8) :: size_t)" by simp
    moreover have "uint (of_int (g * 8) :: size_t) = g * 8" using g by (intro uint_of_int_size_t) auto
    ultimately show ?thesis using g by (simp add: unat_eq_nat_uint nat_mult_distrib)
  qed
  ultimately show ?thesis
    using g unfolding list_resize_def Let_def r1 by (simp add: g_def [symmetric])
qed


text \<open>What a successful resize to \<open>n\<close> entries leaves: room, and the old cells as far as they fit.\<close>

definition resized :: "'o PyListObject \<Rightarrow> nat \<Rightarrow> 'o PyListObject \<Rightarrow> bool" where
  "resized self n self' \<longleftrightarrow>
     ob_size self' = int n \<and> n \<le> length (cells self') \<and>
     allocated self' = int (length (cells self')) \<and> allocated self' * int ptr_size \<le> PY_SSIZE_T_MAX \<and>
     (\<forall>k \<le> n. k \<le> length (cells self) \<longrightarrow> take k (cells self') = take k (cells self))"

lemma take_realloc_cells: "k \<le> n \<Longrightarrow> k \<le> length xs \<Longrightarrow> take k (realloc_cells xs n) = take k xs"
  by (simp add: realloc_cells_def min_def)

lemma list_resize_spec:
  assumes self: "allocated self = int (length (cells self))" "allocated self * int ptr_size \<le> PY_SSIZE_T_MAX"
    and mem: "mem_sane mem" and n: "n \<le> 2 ^ 60"
    and r: "list_resize mem self (int n) = (r, self')"
  shows "case r of Inl e \<Rightarrow> e = MemoryError \<and> self' = self | Inr _ \<Rightarrow> resized self n self'"
proof -
  define g where "g = grown (int n) (ob_size self)"
  have g: "int n \<le> g" using grown_bounds [of "int n" "ob_size self"] by (simp add: g_def)
  have eq: "list_resize mem self (int n) =
     (if allocated self \<ge> int n \<and> int n \<ge> allocated self div 2 then (Inr (), self\<lparr>ob_size := int n\<rparr>)
     else if mem (nat g * ptr_size)
     then (Inr (), self\<lparr>ob_item := Some (realloc_cells (cells self) (nat g)), ob_size := int n, allocated := g\<rparr>)
     else (Inl MemoryError, self))"
    using n by (subst list_resize_eq) (simp_all add: g_def Let_def)
  have len: "length (realloc_cells (cells self) (nat g)) = nat g"
    by (simp add: realloc_cells_def)
  have "g * int ptr_size \<le> PY_SSIZE_T_MAX" if "mem (nat g * ptr_size)"
    using mem that g by (force simp: mem_sane_def)
  with r eq self g len show ?thesis
    by (auto simp: resized_def take_realloc_cells split: if_splits)
qed

lemma list_holds_alloc:
  "list_holds self xs \<Longrightarrow> allocated self = int (length (cells self)) \<and> allocated self * int ptr_size \<le> PY_SSIZE_T_MAX"
  by (simp add: list_holds_def)

text \<open>A resized list that is filled up to its size holds what was written.\<close>

lemma list_holdsI:
  assumes "resized self n self'" "length zs = n" "cells self'' = map Some zs @ drop n (cells self')"
    "ob_size self'' = ob_size self'" "allocated self'' = allocated self'"
  shows "list_holds self'' zs"
  using assms by (auto simp: list_holds_def resized_def)

lemma resized_prefix:
  assumes "list_holds self xs" "resized self n self'" "length xs \<le> n"
  shows "cells self' = map Some xs @ drop (length xs) (cells self')"
proof -
  have "take (length xs) (cells self') = map Some xs"
    using assms by (auto simp: list_holds_def resized_def)
  then show ?thesis by (metis append_take_drop_id)
qed

lemma resized_shrunk:
  assumes "list_holds self xs" "resized self n self'" "n \<le> length xs"
  shows "list_holds self' (take n xs)"
proof -
  have "take n (cells self') = map Some (take n xs)"
    using assms by (auto simp: list_holds_def resized_def take_map)
  then have "cells self' = map Some (take n xs) @ drop n (cells self')" by (metis append_take_drop_id)
  with assms(2,3) show ?thesis by (intro list_holdsI [OF assms(2)]) auto
qed

section \<open>Insertion\<close>

lemma app1_spec:
  assumes "list_holds self xs" "mem_sane mem" "app1 mem self v = (r, self')"
  shows "case r of Inl e \<Rightarrow> e = MemoryError \<and> self' = self | Inr _ \<Rightarrow> list_holds self' (xs @ [v])"
proof -
  let ?n = "length xs"
  note len = list_holds_length [OF assms(1)]
  obtain q s1 where q: "list_resize mem self (int (Suc ?n)) = (q, s1)" by force
  note sp = list_resize_spec [of self mem "Suc ?n" q s1, OF _ _ assms(2) _ q]
  have eq: "app1 mem self v = (case q of Inl e \<Rightarrow> (Inl e, s1) | Inr _ \<Rightarrow> (Inr (), set_item s1 (int ?n) v))"
    using q len by (simp add: app1_def Let_def add.commute split: sum.split)
  show ?thesis
  proof (cases q)
    case (Inl e)
    then show ?thesis using sp eq assms(3) len list_holds_alloc [OF assms(1)] by auto
  next
    case (Inr u)
    then have rz: "resized self (Suc ?n) s1" using sp len list_holds_alloc [OF assms(1)] by simp
    have "cells s1 = map Some xs @ cells s1 ! ?n # drop (Suc ?n) (cells s1)"
      using resized_prefix [OF assms(1) rz] rz by (simp add: resized_def Cons_nth_drop_Suc)
    then have "cells (set_item s1 (int ?n) v) = map Some (xs @ [v]) @ drop (Suc ?n) (cells s1)"
      by (simp add: set_item_def) (metis length_map list_update_append_here)
    then have "list_holds (set_item s1 (int ?n) v) (xs @ [v])"
      by (intro list_holdsI [OF rz]) (simp_all add: set_item_def)
    with Inr eq assms(3) show ?thesis by auto
  qed
qed


lemma shift_up_update:
  "length pre = w \<Longrightarrow> n = w + length ys \<Longrightarrow>
     (shift_up (pre @ ys @ z # post) n w)[w := v] = pre @ v # ys @ post"
proof (induction ys arbitrary: n z post rule: rev_induct)
  case Nil
  then show ?case by (cases w) (simp_all add: list_update_append)
next
  case (snoc y ys)
  have "shift_up (pre @ (ys @ [y]) @ z # post) n w = shift_up (pre @ ys @ y # (y # post)) (n - 1) w"
    using snoc.prems by (cases n) (simp_all add: nth_append list_update_append)
  then show ?case using snoc.IH [of "n - 1" y "y # post"] snoc.prems by simp
qed

text \<open>Where \<open>insert\<close> puts the new item.\<close>

definition insert_pos :: "int \<Rightarrow> nat \<Rightarrow> nat" where
  "insert_pos w n = nat (if w < 0 then max 0 (w + int n) else min w (int n))"

lemma insert_pos_le: "insert_pos w n \<le> n"
  by (auto simp: insert_pos_def)

lemma ins1_spec:
  assumes "list_holds self xs" "mem_sane mem" "ins1 mem self w (Some v) = (r, self')"
  shows "case r of Inl e \<Rightarrow> e = MemoryError \<and> self' = self
    | Inr _ \<Rightarrow> list_holds self' (take (insert_pos w (length xs)) xs @ v # drop (insert_pos w (length xs)) xs)"
proof -
  let ?n = "length xs" and ?w = "insert_pos w (length xs)"
  note len = list_holds_length [OF assms(1)]
  obtain q s1 where q: "list_resize mem self (int (Suc ?n)) = (q, s1)" by force
  note sp = list_resize_spec [of self mem "Suc ?n" q s1, OF _ _ assms(2) _ q]
  have eq: "ins1 mem self w (Some v) = (case q of Inl e \<Rightarrow> (Inl e, s1)
      | Inr _ \<Rightarrow> (Inr (), s1\<lparr>ob_item := Some ((shift_up (cells s1) ?n ?w)[?w := Some v])\<rparr>))"
    using q len by (auto simp: ins1_def insert_pos_def Let_def add.commute max_def min_def split: sum.split)
  show ?thesis
  proof (cases q)
    case (Inl e)
    then show ?thesis using sp eq assms(3) len list_holds_alloc [OF assms(1)] by auto
  next
    case (Inr u)
    then have rz: "resized self (Suc ?n) s1" using sp len list_holds_alloc [OF assms(1)] by simp
    let ?a = "map Some (take ?w xs)" and ?b = "map Some (drop ?w xs)"
    have "cells s1 = map Some xs @ cells s1 ! ?n # drop (Suc ?n) (cells s1)"
      using resized_prefix [OF assms(1) rz] rz by (simp add: resized_def Cons_nth_drop_Suc)
    then have "cells s1 = ?a @ ?b @ cells s1 ! ?n # drop (Suc ?n) (cells s1)"
      by (metis append.assoc append_take_drop_id map_append)
    then have "(shift_up (cells s1) ?n ?w)[?w := Some v] = ?a @ Some v # ?b @ drop (Suc ?n) (cells s1)"
      using shift_up_update [of ?a ?w ?n ?b "cells s1 ! ?n" "drop (Suc ?n) (cells s1)" "Some v"] insert_pos_le [of w ?n]
      by simp
    then have "list_holds (s1\<lparr>ob_item := Some ((shift_up (cells s1) ?n ?w)[?w := Some v])\<rparr>) (take ?w xs @ v # drop ?w xs)"
      by (intro list_holdsI [OF rz]) (simp_all add: insert_pos_le)
    with Inr eq assms(3) show ?thesis by auto
  qed
qed

section \<open>Replacing a slice\<close>

lemma list_clear_holds: "list_holds self xs \<Longrightarrow> list_holds (list_clear_items self) []"
  by (auto simp: list_clear_items_def list_holds_def cells_def split: option.splits)

lemma clamp_slice_bounds:
  "0 \<le> sz \<Longrightarrow> clamp_slice sz ilow ihigh = (lo, hi) \<Longrightarrow> 0 \<le> lo \<and> lo \<le> hi \<and> hi \<le> sz"
  by (auto simp: clamp_slice_def Let_def split: if_splits)

lemma blit_here: "length pre = i \<Longrightarrow> length old = n \<Longrightarrow> take n (drop j src) = new \<Longrightarrow>
    blit (pre @ old @ post) i src j n = pre @ new @ post"
  by (simp add: blit_def)

text \<open>The memory moves of a shrinking assignment and their undoing when the resize fails.\<close>

lemma shrink_move:
  "blit (P @ Q1 @ Q2 @ T @ S) (length P + length Q1) (P @ Q1 @ Q2 @ T @ S) (length P + length Q1 + length Q2) (length T)
    = P @ Q1 @ T @ drop (length T) (Q2 @ T) @ S"
  by (simp add: blit_def)

lemma shrink_undo:
  "length W = length Q2 \<Longrightarrow>
   blit (blit (P @ Q1 @ T @ W @ S) (length P + length Q1 + length Q2) (P @ Q1 @ T @ W @ S) (length P + length Q1) (length T))
     (length P) (Q1 @ Q2) 0 (length Q1 + length Q2) = P @ Q1 @ Q2 @ T @ S"
  by (simp add: blit_def)

lemma grow_move:
  "length P + length Q + length T + d \<le> length P + length Q + length T + length S \<Longrightarrow>
   \<exists>D S'. length D = d \<and> length S' = length S - d \<and>
     blit (P @ Q @ T @ S) (length P + length Q + d) (P @ Q @ T @ S) (length P + length Q) (length T) = P @ Q @ D @ T @ S'"
  by (rule exI [of _ "take d (T @ S)"], rule exI [of _ "drop d S"]) (auto simp: blit_def min_def)

lemma slice_make_room_spec:
  assumes c: "cells a = P @ Q @ T @ S" and sz: "ob_size a = int (length P + length Q + length T)"
    and al: "allocated a = int (length (cells a))" "allocated a * int ptr_size \<le> PY_SSIZE_T_MAX"
    and mem: "mem_sane mem" and n: "length P + n + length T \<le> 2 ^ 60" and ne: "ob_item a \<noteq> None \<or> length Q \<le> n"
    and lo: "ilow = int (length P)" "ihigh = int (length P + length Q)" "d = int n - int (length Q)"
    and r: "slice_make_room mem a ilow ihigh d = (r, a')"
  shows "case r of Inl e \<Rightarrow> e = MemoryError \<and> a' = a
    | Inr _ \<Rightarrow> \<exists>X S'. length X = n \<and> cells a' = P @ X @ T @ S' \<and> ob_size a' = int (length P + n + length T) \<and>
        allocated a' = int (length (cells a')) \<and> allocated a' * int ptr_size \<le> PY_SSIZE_T_MAX"
proof -
  let ?p = "length P" and ?t = "length T"
  have tail: "nat (ob_size a - ihigh) = ?t" and hi: "nat ihigh = ?p + length Q" and sz': "ob_size a + d = int (?p + n + ?t)"
    using sz lo by auto
  consider "n < length Q" | "n > length Q" | "n = length Q" by linarith
  then show ?thesis
  proof cases
    case 1
    define Q1 where "Q1 = take n Q" define Q2 where "Q2 = drop n Q"
    have Q: "Q = Q1 @ Q2" "length Q1 = n" using 1 by (auto simp: Q1_def Q2_def)
    define W where "W = drop ?t (Q2 @ T)"
    define m where "m = a\<lparr>ob_item := Some (P @ Q1 @ T @ W @ S)\<rparr>"
    have W: "length W = length Q2" by (simp add: W_def)
    have hid: "nat (ihigh + d) = ?p + length Q1" using lo Q 1 by auto
    have m: "a\<lparr>ob_item := Some (blit (cells a) (nat (ihigh + d)) (cells a) (nat ihigh) ?t)\<rparr> = m"
      using shrink_move [of P Q1 Q2 T S] c Q hi hid by (simp add: m_def W_def add.assoc)
    obtain q a1 where q: "list_resize mem m (int (?p + n + ?t)) = (q, a1)" by force
    have "allocated m = int (length (cells m))" "allocated m * int ptr_size \<le> PY_SSIZE_T_MAX"
      using al c Q W by (simp_all add: m_def)
    note sp = list_resize_spec [OF this mem n q]
    have step: "slice_make_room mem a ilow ihigh d = (case q of
        Inl e \<Rightarrow> (Inl e, a1\<lparr>ob_item := Some (blit (blit (cells a1) (nat ihigh) (cells a1) (nat (ihigh + d)) ?t)
            (nat ilow) (take (nat (ihigh - ilow)) (drop (nat ilow) (cells a))) 0 (nat (ihigh - ilow)))\<rparr>)
      | Inr _ \<Rightarrow> (Inr (), a1))"
      using 1 lo q unfolding slice_make_room_def Let_def tail m sz' by (auto split: sum.split)
    show ?thesis
    proof (cases q)
      case (Inl e)
      then have "e = MemoryError" "a1 = m" using sp by auto
      moreover have "take (nat (ihigh - ilow)) (drop (nat ilow) (cells a)) = Q1 @ Q2" "nat (ihigh - ilow) = length Q1 + length Q2"
        using c lo Q by simp_all
      moreover have "ob_item a = Some (cells a)" using ne 1 by (auto simp: cells_def)
      ultimately show ?thesis
        using Inl step r shrink_undo [OF W, of P Q1 T S] hi hid Q c lo by (auto simp: m_def add.assoc)
    next
      case (Inr u)
      then have rz: "resized m (?p + n + ?t) a1" using sp by simp
      then have "take (?p + n + ?t) (cells a1) = P @ Q1 @ T"
        using Q W by (simp add: resized_def m_def)
      then have "cells a1 = P @ Q1 @ T @ drop (?p + n + ?t) (cells a1)" by (metis append.assoc append_take_drop_id)
      with Inr step r rz Q(2) show ?thesis by (auto simp: resized_def)
    qed
  next
    case 2
    obtain q a1 where q: "list_resize mem a (int (?p + n + ?t)) = (q, a1)" by force
    note sp = list_resize_spec [OF al mem n q]
    have step: "slice_make_room mem a ilow ihigh d = (case q of Inl e \<Rightarrow> (Inl e, a1)
      | Inr _ \<Rightarrow> (Inr (), a1\<lparr>ob_item := Some (blit (cells a1) (nat (ihigh + d)) (cells a1) (nat ihigh) ?t)\<rparr>))"
      using 2 lo q unfolding slice_make_room_def Let_def tail sz' by (auto split: sum.split)
    show ?thesis
    proof (cases q)
      case (Inl e)
      with step sp r show ?thesis by auto
    next
      case (Inr u)
      then have rz: "resized a (?p + n + ?t) a1" using sp by simp
      define S1 where "S1 = drop (?p + length Q + ?t) (cells a1)"
      have "take (?p + length Q + ?t) (cells a1) = P @ Q @ T"
        using rz 2 c by (simp add: resized_def)
      then have c1: "cells a1 = P @ Q @ T @ S1" unfolding S1_def by (metis append.assoc append_take_drop_id)
      have hid: "nat (ihigh + d) = ?p + length Q + (n - length Q)" using lo 2 by auto
      obtain D S' where D: "length D = n - length Q" "length S' = length S1 - (n - length Q)"
        "blit (P @ Q @ T @ S1) (?p + length Q + (n - length Q)) (P @ Q @ T @ S1) (?p + length Q) ?t = P @ Q @ D @ T @ S'"
        using grow_move [of P Q T "n - length Q" S1] rz c1 2 by (auto simp: resized_def)
      then have "cells a' = P @ (Q @ D) @ T @ S'" "ob_size a' = ob_size a1" "allocated a' = allocated a1" "r = Inr ()"
        using Inr step r c1 hi hid by auto
      moreover have "length (Q @ D) = n" "length (cells a') = length (cells a1)"
        using D(1,2) 2 c1 calculation(1) rz by (auto simp: resized_def)
      ultimately show ?thesis using rz by (simp add: resized_def) (metis append.assoc length_append)
    qed
  next
    case 3
    with r lo c sz al show ?thesis by (auto simp: slice_make_room_def Let_def) (rule exI [of _ Q], simp)
  qed
qed


lemma list_ass_slice_items_spec:
  assumes self: "list_holds self xs" and mem: "mem_sane mem" and vs: "length xs + length vs \<le> 2 ^ 60"
    and clamp: "clamp_slice (int (length xs)) ilow ihigh = (int lo, int hi)"
    and r: "list_ass_slice_items mem self ilow ihigh vs = (r, self')"
  shows "case r of Inl e \<Rightarrow> e = MemoryError \<and> self' = self
    | Inr _ \<Rightarrow> list_holds self' (take lo xs @ vs @ drop hi xs)"
proof -
  note len = list_holds_length [OF self] and al = list_holds_alloc [OF self]
  have lohi: "lo \<le> hi" "hi \<le> length xs" using clamp_slice_bounds [OF _ clamp] by auto
  define P where "P = map Some (take lo xs)"
  define Q where "Q = map Some (take (hi - lo) (drop lo xs))"
  define T where "T = map Some (drop hi xs)"
  have L: "length P = lo" "length Q = hi - lo" "length T = length xs - hi"
    using lohi by (auto simp: P_def Q_def T_def)
  have "P @ Q @ T = map Some xs"
    unfolding P_def Q_def T_def map_append [symmetric] using lohi
    by (metis append_take_drop_id drop_drop le_add_diff_inverse2)
  then obtain S where c: "cells self = P @ Q @ T @ S" using self unfolding list_holds_def by (metis append.assoc)
  let ?d = "int (length vs) - (int hi - int lo)"
  show ?thesis
  proof (cases "ob_size self + ?d = 0")
    case True
    then have "length vs = 0" "lo = 0" "hi = length xs" using len lohi by linarith+
    with True r clamp len list_clear_holds [OF self] show ?thesis
      by (auto simp: list_ass_slice_items_def)
  next
    case False
    obtain q a1 where q: "slice_make_room mem self (int lo) (int hi) ?d = (q, a1)" by force
    have sp: "case q of Inl e \<Rightarrow> e = MemoryError \<and> a1 = self
      | Inr _ \<Rightarrow> \<exists>X S'. length X = length vs \<and> cells a1 = P @ X @ T @ S' \<and>
          ob_size a1 = int (length P + length vs + length T) \<and>
          allocated a1 = int (length (cells a1)) \<and> allocated a1 * int ptr_size \<le> PY_SSIZE_T_MAX"
    proof (rule slice_make_room_spec [OF c _ _ _ mem _ _ _ _ _ q])
      show "ob_item self \<noteq> None \<or> length Q \<le> length vs" using c by (auto simp: cells_def split: option.splits)
    qed (use len al L lohi vs in auto)
    have step: "list_ass_slice_items mem self ilow ihigh vs =
      (if (hi - lo) * ptr_size > 8 * ptr_size \<and> \<not> mem ((hi - lo) * ptr_size) then (Inl MemoryError, self)
       else case q of Inl e \<Rightarrow> (Inl e, a1)
        | Inr _ \<Rightarrow> (Inr (), a1\<lparr>ob_item := Some (blit (cells a1) lo (map Some vs) 0 (length vs))\<rparr>))"
      using False clamp len q by (auto simp: list_ass_slice_items_def Let_def nat_diff_distrib split: sum.split)
    show ?thesis
    proof (cases q)
      case (Inl e)
      with sp step r show ?thesis by (auto split: if_splits)
    next
      case (Inr u)
      then obtain X S' where X: "length X = length vs" "cells a1 = P @ X @ T @ S'"
        "ob_size a1 = int (length P + length vs + length T)" "allocated a1 = int (length (cells a1))"
        "allocated a1 * int ptr_size \<le> PY_SSIZE_T_MAX" using sp by auto
      have "blit (cells a1) lo (map Some vs) 0 (length vs) = P @ map Some vs @ T @ S'"
        using blit_here [of P lo X "length vs" 0 "map Some vs" "map Some vs" "T @ S'"] X L by simp
      then have "list_holds (a1\<lparr>ob_item := Some (blit (cells a1) lo (map Some vs) 0 (length vs))\<rparr>) (take lo xs @ vs @ drop hi xs)"
        using X L lohi by (auto simp: list_holds_def P_def T_def)
      with Inr step r show ?thesis by (auto split: if_splits)
    qed
  qed
qed


section \<open>Copies\<close>

lemma pymem_new_spec:
  assumes "0 \<le> n" "pymem_new mem n = Some xs"
  shows "xs = replicate (nat n) None \<and> n * int ptr_size \<le> PY_SSIZE_T_MAX"
  using assms by (auto simp: pymem_new_def split: if_splits)

lemma list_new_prealloc_spec:
  assumes "0 \<le> n" "list_new_prealloc mem n = r"
  shows "case r of Inl e \<Rightarrow> e = MemoryError
    | Inr np \<Rightarrow> cells np = replicate (nat n) None \<and> allocated np = n \<and> n * int ptr_size \<le> PY_SSIZE_T_MAX"
  using assms(2)
  by (auto simp: list_new_prealloc_def dest!: pymem_new_spec [OF assms(1)] split: option.splits)

text \<open>A fresh block that is filled completely.\<close>

lemma filled_holds:
  assumes "n * int ptr_size \<le> PY_SSIZE_T_MAX" "n = int (length zs)"
  shows "list_holds (np\<lparr>ob_item := Some (map Some zs), ob_size := n, allocated := n\<rparr>) zs"
  using assms by (simp add: list_holds_def)

lemma list_holds_cells_take:
  "list_holds a xs \<Longrightarrow> i + n \<le> length xs \<Longrightarrow> take n (drop i (cells a)) = map Some (take n (drop i xs))"
  by (auto simp: list_holds_def drop_map take_map)

lemma list_slice_spec:
  assumes a: "list_holds a xs" and i: "lo \<le> hi" "hi \<le> length xs"
  shows "case list_slice mem a (int lo) (int hi) of Inl e \<Rightarrow> e = MemoryError
    | Inr np \<Rightarrow> list_holds np (take (hi - lo) (drop lo xs))"
proof (cases "lo = hi")
  case False
  then have pos: "0 < int hi - int lo" using i by simp
  show ?thesis
  proof (cases "list_new_prealloc mem (int hi - int lo) :: 'a PyListObject res")
    case (Inr np)
    have np: "cells np = replicate (hi - lo) None" "allocated np = int hi - int lo"
      "(int hi - int lo) * int ptr_size \<le> PY_SSIZE_T_MAX"
      using list_new_prealloc_spec [OF _ Inr] pos by (auto simp: nat_diff_distrib)
    have "blit (cells np) 0 (cells a) lo (hi - lo) = map Some (take (hi - lo) (drop lo xs))"
      using list_holds_cells_take [OF a, of lo "hi - lo"] i np(1) by (simp add: blit_def)
    with Inr pos np i show ?thesis
      by (simp add: list_slice_def Let_def list_holds_def nat_diff_distrib of_nat_diff)
  next
    case (Inl e)
    with list_new_prealloc_spec [OF _ Inl] pos show ?thesis
      by (auto simp: list_slice_def Let_def)
  qed
qed (simp add: list_slice_def)

lemma list_concat_spec:
  assumes a: "list_holds a xs" and b: "list_holds b ys"
  shows "case list_concat mem a (Some b) of Inl e \<Rightarrow> e = MemoryError | Inr np \<Rightarrow> list_holds np (xs @ ys)"
proof (cases "xs @ ys = []")
  case True
  with list_holds_length [OF a] list_holds_length [OF b] show ?thesis by (simp add: list_concat_def)
next
  case False
  let ?n = "int (length xs + length ys)"
  have sz: "ob_size a = int (length xs)" "ob_size b = int (length ys)" "ob_size a + ob_size b \<noteq> 0"
    using list_holds_length [OF a] list_holds_length [OF b] False by (cases xs; auto)+
  show ?thesis
  proof (cases "list_new_prealloc mem ?n :: 'a PyListObject res")
    case (Inr np)
    have np: "cells np = replicate (length xs + length ys) None" "allocated np = ?n" "?n * int ptr_size \<le> PY_SSIZE_T_MAX"
      using list_new_prealloc_spec [OF _ Inr] by (auto simp: nat_add_distrib)
    have "blit (blit (cells np) 0 (cells a) 0 (length xs)) (length xs) (cells b) 0 (length ys) = map Some (xs @ ys)"
      using list_holds_cells_take [OF a, of 0 "length xs"] list_holds_cells_take [OF b, of 0 "length ys"] np(1)
      by (simp add: blit_def)
    with Inr np sz show ?thesis by (simp add: list_concat_def Let_def list_holds_def)
  next
    case (Inl e)
    with list_new_prealloc_spec [OF _ Inl] sz show ?thesis by (auto simp: list_concat_def Let_def)
  qed
qed

lemma copy_blocks_eq:
  assumes "length xs \<le> length src" "take (length xs) src = xs"
  shows "length mid = n * length xs \<Longrightarrow>
    copy_blocks n src (length xs) (pre @ mid @ post) (length pre) = pre @ concat (replicate n xs) @ post"
proof (induction n arbitrary: pre mid)
  case (Suc n)
  define m1 where "m1 = take (length xs) mid" define m2 where "m2 = drop (length xs) mid"
  have m: "mid = m1 @ m2" "length m1 = length xs" "length m2 = n * length xs" using Suc.prems by (auto simp: m1_def m2_def)
  have "blit (pre @ mid @ post) (length pre) src 0 (length xs) = (pre @ xs) @ m2 @ post"
    using assms m by (simp add: blit_def)
  with Suc.IH [OF m(3), of "pre @ xs"] show ?case by simp
qed simp


lemma length_concat_replicate [simp]: "length (concat (replicate n xs)) = n * length xs"
  by (induction n) simp_all

lemma list_holds_take: "list_holds a xs \<Longrightarrow> take (length xs) (cells a) = map Some xs"
  using list_holds_cells_take [of a xs 0 "length xs"] by simp

lemma list_repeat_spec:
  assumes a: "list_holds a xs"
  shows "case list_repeat mem a n of Inl e \<Rightarrow> e = MemoryError
    | Inr np \<Rightarrow> list_holds np (concat (replicate (nat n) xs))"
proof -
  have sz: "ob_size a = int (length xs)" using list_holds_length [OF a] by simp
  show ?thesis
  proof (cases "n \<le> 0 \<or> xs = [] \<or> ob_size a > PY_SSIZE_T_MAX div n")
    case True
    then show ?thesis using sz by (auto simp: list_repeat_def Let_def)
  next
    case False
    then obtain k where k: "n = int k" "0 < k" and ne: "xs \<noteq> []" and fits: "\<not> ob_size a > PY_SSIZE_T_MAX div n"
      using nonneg_int_cases [of n] by auto
    let ?n = "int (length xs) * n"
    have nz: "?n \<noteq> 0" "0 \<le> ?n" using k ne by auto
    show ?thesis
    proof (cases "list_new_prealloc mem ?n :: 'a PyListObject res")
      case (Inr np)
      have np: "cells np = replicate (k * length xs) None" "allocated np = ?n" "?n * int ptr_size \<le> PY_SSIZE_T_MAX"
        using list_new_prealloc_spec [OF nz(2) Inr] k by (auto simp: nat_mult_distrib mult.commute)
      have "copy_blocks k (cells a) (length xs) (cells np) 0 = map Some (concat (replicate k xs))"
        using copy_blocks_eq [of "map Some xs" "cells a" "cells np" k "[]" "[]"] list_holds_take [OF a] list_holds_length [OF a] np(1)
        by (simp add: map_concat)
      moreover have "replicate k (cells a ! 0) = map Some (concat (replicate k xs))" if one: "length xs = 1"
      proof -
        obtain x where "xs = [x]" using one by (cases xs) auto
        then show ?thesis using a by (induction k) (auto simp: list_holds_def)
      qed
      ultimately show ?thesis using Inr np sz k fits nz
        by (auto simp: list_repeat_def Let_def list_holds_def mult.commute)
    next
      case (Inl e)
      with list_new_prealloc_spec [OF nz(2) Inl] sz k fits nz show ?thesis
        by (auto simp: list_repeat_def Let_def)
    qed
  qed
qed

lemma list_inplace_repeat_spec:
  assumes a: "list_holds a xs" and mem: "mem_sane mem" and fits: "int (length xs) * n \<le> 2 ^ 60"
    and r: "list_inplace_repeat mem a n = (r, a')"
  shows "case r of Inl e \<Rightarrow> e = MemoryError \<and> a' = a | Inr _ \<Rightarrow> list_holds a' (concat (replicate (nat n) xs))"
proof -
  have sz: "ob_size a = int (length xs)" using list_holds_length [OF a] by simp
  show ?thesis
  proof (cases "xs = [] \<or> n \<le> 1 \<or> ob_size a > PY_SSIZE_T_MAX div n")
    case True
    then show ?thesis using sz r a list_clear_holds [OF a] by (auto simp: list_inplace_repeat_def Let_def split: if_splits)
  next
    case False
    define k where "k = nat (n - 1)"
    have k: "n = int (Suc k)" "0 < k" and ne: "xs \<noteq> []" using False by (auto simp: k_def)
    let ?m = "Suc k * length xs"
    obtain q a1 where q: "list_resize mem a (int ?m) = (q, a1)" by force
    have "int ?m \<le> 2 ^ 60" using fits k(1) by (simp only: of_nat_mult mult.commute)
    then have "?m \<le> 2 ^ 60" by (metis of_nat_le_iff of_nat_numeral of_nat_power)
    note sp = list_resize_spec [OF conjunct1 [OF list_holds_alloc [OF a]] conjunct2 [OF list_holds_alloc [OF a]] mem this q]
    have e: "ob_size a * n = int ?m" and nk: "nat (n - 1) = k" using sz k(1) by (simp_all only: of_nat_mult mult.commute)
    have step: "list_inplace_repeat mem a n = (case q of Inl e \<Rightarrow> (Inl e, a1)
        | Inr _ \<Rightarrow> (Inr (), a1\<lparr>ob_item := Some (copy_blocks k (cells a1) (length xs) (cells a1) (length xs))\<rparr>))"
      using q k(2) ne False sz unfolding list_inplace_repeat_def Let_def e nk by (auto split: sum.split)
    show ?thesis
    proof (cases q)
      case (Inl e)
      with sp step r show ?thesis by auto
    next
      case (Inr u)
      then have rz: "resized a ?m a1" using sp by simp
      have c1: "cells a1 = map Some xs @ drop (length xs) (cells a1)"
        by (rule resized_prefix [OF a rz]) simp
      define mid where "mid = take (k * length xs) (drop (length xs) (cells a1))"
      have mid: "length mid = k * length xs" "cells a1 = map Some xs @ mid @ drop ?m (cells a1)"
        using rz c1 by (auto simp: mid_def resized_def) (metis append.assoc append_take_drop_id drop_drop add.commute)
      have "copy_blocks k (cells a1) (length xs) (cells a1) (length xs)
          = map Some (concat (replicate (Suc k) xs)) @ drop ?m (cells a1)"
        using copy_blocks_eq [of "map Some xs" "cells a1" mid k "map Some xs" "drop ?m (cells a1)"] mid c1 rz
        by (simp add: map_concat resized_def) (metis append_eq_conv_conj length_map)
      then have "list_holds (a1\<lparr>ob_item := Some (copy_blocks k (cells a1) (length xs) (cells a1) (length xs))\<rparr>)
          (concat (replicate (Suc k) xs))"
        by (intro list_holdsI [OF rz]) simp_all
      moreover have "nat n = Suc k" using k by simp
      ultimately show ?thesis using Inr step r by auto
    qed
  qed
qed


section \<open>Items\<close>

lemma get_item_holds: "list_holds a xs \<Longrightarrow> i < length xs \<Longrightarrow> get_item a (int i) = xs ! i"
  by (auto simp: list_holds_def get_item_def nth_append)

lemma set_item_holds: "list_holds a xs \<Longrightarrow> i < length xs \<Longrightarrow> list_holds (set_item a (int i) v) (xs[i := v])"
  by (auto simp: list_holds_def set_item_def list_update_append map_update)

lemma list_item_spec:
  assumes "list_holds a xs" "- (2 ^ 63) \<le> i" "i < 2 ^ 63"
  shows "list_item a i = (if 0 \<le> i \<and> i < int (length xs) then Inr (xs ! nat i)
    else Inl (IndexError ''list index out of range''))"
proof -
  have "valid_index i (ob_size a) \<longleftrightarrow> 0 \<le> i \<and> i < int (length xs)"
    using assms list_holds_length [OF assms(1)] by (auto simp: valid_index_iff)
  then show ?thesis using get_item_holds [OF assms(1), of "nat i"] by (auto simp: list_item_def)
qed

lemma clamp_slice_inside:
  "lo \<le> hi \<Longrightarrow> hi \<le> n \<Longrightarrow> clamp_slice (int n) (int lo) (int hi) = (int lo, int hi)"
  by (auto simp: clamp_slice_def Let_def)

lemma list_pop_impl_spec:
  assumes a: "list_holds a xs" and mem: "mem_sane mem" and i: "- (2 ^ 63) \<le> i" "i < 2 ^ 63"
    and r: "list_pop_impl mem a i = (r, a')"
  defines "j \<equiv> (if i < 0 then i + int (length xs) else i)"
  shows "case r of
      Inl e \<Rightarrow> a' = a \<and> e \<in> {MemoryError, IndexError ''pop from empty list'', IndexError ''pop index out of range''} \<and>
        (0 \<le> j \<and> j < int (length xs) \<longrightarrow> e = MemoryError)
    | Inr v \<Rightarrow> 0 \<le> j \<and> j < int (length xs) \<and> v = xs ! nat j \<and>
        list_holds a' (take (nat j) xs @ drop (Suc (nat j)) xs)"
proof -
  have sz: "ob_size a = int (length xs)" "int (length xs) < 2 ^ 60" using list_holds_length [OF a] by auto
  have jeq: "(if i < 0 then i + ob_size a else i) = j" using sz by (simp add: j_def)
  have vi: "valid_index j (ob_size a) \<longleftrightarrow> 0 \<le> j \<and> j < int (length xs)"
    using i sz by (subst valid_index_iff) (auto simp: j_def)
  show ?thesis
  proof (cases "0 \<le> j \<and> j < int (length xs)")
    case False
    with r vi show ?thesis
      unfolding list_pop_impl_def Let_def jeq by (auto split: if_splits)
  next
    case True
    define k where "k = nat j"
    have j: "j = int k" and k: "k < length xs" using True by (auto simp: k_def)
    have v: "get_item a j = xs ! k" using get_item_holds [OF a k] j by simp
    show ?thesis
    proof (cases "Suc k = length xs")
      case last: True
      obtain q a1 where q: "list_resize mem a (int k) = (q, a1)" by force
      have sp: "case q of Inl e \<Rightarrow> e = MemoryError \<and> a1 = a | Inr _ \<Rightarrow> resized a k a1"
        by (rule list_resize_spec [OF _ _ mem _ q]) (use list_holds_alloc [OF a] sz last in auto)
      have m1: "ob_size a - 1 = int k" using sz last by simp
      have "list_pop_impl mem a i = (case q of Inl e \<Rightarrow> (Inl e, a1) | Inr _ \<Rightarrow> (Inr (xs ! k), a1))"
        using sz vi True v j q m1 unfolding list_pop_impl_def Let_def jeq m1 by (auto split: sum.split)
      with r sp show ?thesis using resized_shrunk [OF a, of k a1] last j k by (auto split: sum.splits)
    next
      case False
      obtain q a1 where q: "list_ass_slice_items mem a (int k) (int (Suc k)) [] = (q, a1)" by force
      have sp: "case q of Inl e \<Rightarrow> e = MemoryError \<and> a1 = a | Inr _ \<Rightarrow> list_holds a1 (take k xs @ [] @ drop (Suc k) xs)"
        by (rule list_ass_slice_items_spec [OF a mem _ _ q]) (use clamp_slice_inside [of k "Suc k"] k sz in auto)
      have "list_pop_impl mem a i = (case q of Inl e \<Rightarrow> (Inl e, a1) | Inr _ \<Rightarrow> (Inr (xs ! k), a1))"
        using sz vi True False v j q unfolding list_pop_impl_def Let_def jeq
        by (auto simp: list_ass_slice_def add.commute split: sum.split)
      with r sp show ?thesis using j k by (auto split: sum.splits)
    qed
  qed
qed

section \<open>An unchecked multiplication\<close>

text \<open>
  \<open>list_resize\<close> multiplies the number of cells by the size of a pointer without a check. For a
  request of \<open>2 ^ 61\<close> entries the product wraps to zero bytes, and the resize succeeds with no
  cells at all behind the new size.
\<close>

lemma list_resize_wraps:
  assumes "allocated self < 2 ^ 61" "ob_size self \<le> 2 ^ 60" "mem 0"
  shows "fst (list_resize mem self (2 ^ 61)) = Inr ()"
    "ob_size (snd (list_resize mem self (2 ^ 61))) = 2 ^ 61"
    "cells (snd (list_resize mem self (2 ^ 61))) = []"
proof -
  have "((of_int (2 ^ 61) :: size_t) + of_int (2 ^ 61 div 8) + 6) AND NOT 3 = of_int (2 ^ 61 + 2 ^ 58 + 4)"
    by simp
  moreover have "sint (of_int (2 ^ 61 + 2 ^ 58 + 4) - of_int (2 ^ 61) :: size_t) = 2 ^ 58 + 4"
    by simp
  moreover have "((of_int (2 ^ 61) :: size_t) + 3) AND NOT 3 = of_int (2 ^ 61)" by simp
  moreover have "unat (of_int (2 ^ 61) * of_nat ptr_size :: size_t) = 0" by simp
  ultimately have "list_resize mem self (2 ^ 61) =
      (Inr (), self\<lparr>ob_item := Some (realloc_cells (cells self) 0), ob_size := 2 ^ 61, allocated := 2 ^ 61\<rparr>)"
    using assms unfolding list_resize_def Let_def by simp
  then show "fst (list_resize mem self (2 ^ 61)) = Inr ()"
    "ob_size (snd (list_resize mem self (2 ^ 61))) = 2 ^ 61"
    "cells (snd (list_resize mem self (2 ^ 61))) = []"
    by (simp_all add: realloc_cells_def)
qed

end
