(* ===== verification/List_Methods.thy ===== *)
theory List_Methods
  imports List_Object_Correct
begin

text \<open>
  The methods of \<open>checked_list.c\<close> that call back into the interpreter (membership, \<open>index\<close>,
  \<open>count\<close>, \<open>remove\<close>, rich comparison, \<open>repr\<close>, extending by an iterator), subscripting with integers and
  slices, and the two list iterators.

  A callback gets the state \<open>(self, s)\<close>, the list and everything else, and may change both; the
  loops read the size of the list again in every iteration, as the C code does. They are
  partial functions: the value \<open>None\<close> stands for a call that does not return.
\<close>

section \<open>Definitions\<close>

type_synonym ('o, 's) lstate = "'o PyListObject \<times> 's"
type_synonym ('o, 's) leq = "'o \<Rightarrow> 'o \<Rightarrow> ('o, 's) lstate \<Rightarrow> bool option \<times> ('o, 's) lstate"

subsection \<open>Searching\<close>

text \<open>The result of the loop is \<open>cmp\<close>: \<open>None\<close> for \<open>-1\<close>.\<close>

partial_function (option) list_contains_loop ::
  "('o, 's) leq \<Rightarrow> 'o \<Rightarrow> int \<Rightarrow> ('o, 's) lstate \<Rightarrow> (bool option \<times> ('o, 's) lstate) option" where
  "list_contains_loop eq el i st =
     (if i < ob_size (fst st) then
        (case eq (get_item (fst st) i) el st of
           (cmp, st) \<Rightarrow>
             if cmp = Some False then list_contains_loop eq el (i + 1) st else Some (cmp, st))
      else Some (Some False, st))"

definition list_contains ::
  "('o, 's) leq \<Rightarrow> 'o \<Rightarrow> ('o, 's) lstate \<Rightarrow> (bool option \<times> ('o, 's) lstate) option" where
  "list_contains eq el st = list_contains_loop eq el 0 st"

partial_function (option) list_index_loop ::
  "('o, 's) leq \<Rightarrow> 'o \<Rightarrow> int \<Rightarrow> int \<Rightarrow> ('o, 's) lstate \<Rightarrow> (int res \<times> ('o, 's) lstate) option" where
  "list_index_loop eq v i stop st =
     (if i < stop \<and> i < ob_size (fst st) then
        (case eq (get_item (fst st) i) v st of
           (cmp, st) \<Rightarrow>
             if cmp = Some True then Some (Inr i, st)
             else if cmp = None then Some (Inl Propagated, st)
             else list_index_loop eq v (i + 1) stop st)
      else Some (Inl (ValueError ''value is not in list''), st))"

definition list_index_impl ::
  "('o, 's) leq \<Rightarrow> 'o \<Rightarrow> int \<Rightarrow> int \<Rightarrow> ('o, 's) lstate \<Rightarrow> (int res \<times> ('o, 's) lstate) option" where
  "list_index_impl eq v start stop st =
     (let n = ob_size (fst st);
          start = (if start < 0 then (if start + n < 0 then 0 else start + n) else start);
          stop = (if stop < 0 then (if stop + n < 0 then 0 else stop + n) else stop)
      in list_index_loop eq v start stop st)"

partial_function (option) list_count_loop ::
  "('o, 's) leq \<Rightarrow> 'o \<Rightarrow> int \<Rightarrow> int \<Rightarrow> ('o, 's) lstate \<Rightarrow> (int res \<times> ('o, 's) lstate) option" where
  "list_count_loop eq v i cnt st =
     (if i < ob_size (fst st) then
        (let obj = get_item (fst st) i in
         if obj = v then list_count_loop eq v (i + 1) (cnt + 1) st
         else case eq obj v st of
             (cmp, st) \<Rightarrow>
               if cmp = Some True then list_count_loop eq v (i + 1) (cnt + 1) st
               else if cmp = None then Some (Inl Propagated, st)
               else list_count_loop eq v (i + 1) cnt st)
      else Some (Inr cnt, st))"

definition list_count ::
  "('o, 's) leq \<Rightarrow> 'o \<Rightarrow> ('o, 's) lstate \<Rightarrow> (int res \<times> ('o, 's) lstate) option" where
  "list_count eq v st = list_count_loop eq v 0 0 st"

partial_function (option) list_remove_loop ::
  "(nat \<Rightarrow> bool) \<Rightarrow> ('o, 's) leq \<Rightarrow> 'o \<Rightarrow> int \<Rightarrow> ('o, 's) lstate \<Rightarrow> (unit res \<times> ('o, 's) lstate) option" where
  "list_remove_loop mem eq v i st =
     (if i < ob_size (fst st) then
        (case eq (get_item (fst st) i) v st of
           (cmp, st) \<Rightarrow>
             if cmp = Some True then
               (case list_ass_slice mem (fst st) i (i + 1) None of
                  (r, self) \<Rightarrow> Some (r, (self, snd st)))
             else if cmp = None then Some (Inl Propagated, st)
             else list_remove_loop mem eq v (i + 1) st)
      else Some (Inl (ValueError ''list.remove(x): x not in list''), st))"

definition list_remove ::
  "(nat \<Rightarrow> bool) \<Rightarrow> ('o, 's) leq \<Rightarrow> 'o \<Rightarrow> ('o, 's) lstate \<Rightarrow> (unit res \<times> ('o, 's) lstate) option" where
  "list_remove mem eq v st = list_remove_loop mem eq v 0 st"

subsection \<open>Rich comparison\<close>

datatype cmp_op = Py_LT | Py_LE | Py_EQ | Py_NE | Py_GT | Py_GE

fun cmp_sizes :: "cmp_op \<Rightarrow> int \<Rightarrow> int \<Rightarrow> bool" where
  "cmp_sizes Py_LT a b \<longleftrightarrow> a < b"
| "cmp_sizes Py_LE a b \<longleftrightarrow> a \<le> b"
| "cmp_sizes Py_EQ a b \<longleftrightarrow> a = b"
| "cmp_sizes Py_NE a b \<longleftrightarrow> a \<noteq> b"
| "cmp_sizes Py_GT a b \<longleftrightarrow> a > b"
| "cmp_sizes Py_GE a b \<longleftrightarrow> a \<ge> b"

datatype 'r cmp_result = CmpNotImplemented | CmpBool bool | CmpObject 'r

text \<open>
  The state holds both operands, read through \<open>vl\<close> and \<open>wl\<close>. The loop returns the index at which it
  stops.
\<close>

partial_function (option) richcompare_loop ::
  "('o \<Rightarrow> 'o \<Rightarrow> 'h \<Rightarrow> bool option \<times> 'h) \<Rightarrow> ('h \<Rightarrow> 'o PyListObject) \<Rightarrow> ('h \<Rightarrow> 'o PyListObject) \<Rightarrow> int \<Rightarrow> 'h \<Rightarrow>
     (int option \<times> 'h) option" where
  "richcompare_loop eq vl wl i h =
     (if i < ob_size (vl h) \<and> i < ob_size (wl h) then
        (let vitem = get_item (vl h) i; witem = get_item (wl h) i in
         if vitem = witem then richcompare_loop eq vl wl (i + 1) h
         else case eq vitem witem h of
             (k, h) \<Rightarrow>
               if k = None then Some (None, h)
               else if k = Some False then Some (Some i, h)
               else richcompare_loop eq vl wl (i + 1) h)
      else Some (Some i, h))"

definition list_richcompare ::
  "('o \<Rightarrow> 'o \<Rightarrow> 'h \<Rightarrow> bool option \<times> 'h) \<Rightarrow> (cmp_op \<Rightarrow> 'o \<Rightarrow> 'o \<Rightarrow> 'h \<Rightarrow> 'r option \<times> 'h) \<Rightarrow>
     ('h \<Rightarrow> 'o PyListObject option) \<Rightarrow> ('h \<Rightarrow> 'o PyListObject option) \<Rightarrow> cmp_op \<Rightarrow> 'h \<Rightarrow>
     ('r cmp_result res \<times> 'h) option" where
  "list_richcompare eq rich v w op h =
     (if v h = None \<or> w h = None then Some (Inr CmpNotImplemented, h)
      else
        (let vl = the \<circ> v; wl = the \<circ> w in
         if ob_size (vl h) \<noteq> ob_size (wl h) \<and> (op = Py_EQ \<or> op = Py_NE)
         then Some (Inr (CmpBool (op = Py_NE)), h)
         else case richcompare_loop eq vl wl 0 h of
             None \<Rightarrow> None
           | Some (None, h) \<Rightarrow> Some (Inl Propagated, h)
           | Some (Some i, h) \<Rightarrow>
               if i \<ge> ob_size (vl h) \<or> i \<ge> ob_size (wl h)
               then Some (Inr (CmpBool (cmp_sizes op (ob_size (vl h)) (ob_size (wl h)))), h)
               else if op = Py_EQ then Some (Inr (CmpBool False), h)
               else if op = Py_NE then Some (Inr (CmpBool True), h)
               else case rich op (get_item (vl h) i) (get_item (wl h) i) h of
                   (None, h) \<Rightarrow> Some (Inl Propagated, h)
                 | (Some r, h) \<Rightarrow> Some (Inr (CmpObject r), h)))"

subsection \<open>Representation\<close>

text \<open>
  \<open>list_repr\<close>: \<open>enter\<close> is the answer of \<open>Py_ReprEnter\<close>, \<open>repr\<close> that of \<open>PyObject_Repr\<close>, and \<open>write\<close> says
  whether the writer accepts the text to be appended.
\<close>

partial_function (option) list_repr_loop ::
  "(string \<Rightarrow> bool) \<Rightarrow> ('o \<Rightarrow> ('o, 's) lstate \<Rightarrow> string option \<times> ('o, 's) lstate) \<Rightarrow> int \<Rightarrow> string \<Rightarrow>
     ('o, 's) lstate \<Rightarrow> (string res \<times> ('o, 's) lstate) option" where
  "list_repr_loop write repr i acc st =
     (if i < ob_size (fst st) then
        (if i > 0 \<and> \<not> write '', '' then Some (Inl MemoryError, st)
         else
           (let acc = (if i > 0 then acc @ '', '' else acc) in
            case repr (get_item (fst st) i) st of
              (s, st) \<Rightarrow>
                if s = None then Some (Inl Propagated, st)
                else if \<not> write (the s) then Some (Inl MemoryError, st)
                else list_repr_loop write repr (i + 1) (acc @ the s) st))
      else if write '']'' then Some (Inr (acc @ '']''), st) else Some (Inl MemoryError, st))"

definition list_repr ::
  "(string \<Rightarrow> bool) \<Rightarrow> ('o \<Rightarrow> ('o, 's) lstate \<Rightarrow> string option \<times> ('o, 's) lstate) \<Rightarrow> int \<Rightarrow>
     ('o, 's) lstate \<Rightarrow> (string res \<times> ('o, 's) lstate) option" where
  "list_repr write repr enter st =
     (if ob_size (fst st) = 0 then Some (Inr ''[]'', st)
      else if enter > 0 then Some (Inr ''[...]'', st)
      else if enter < 0 then Some (Inl Propagated, st)
      else if \<not> write ''['' then Some (Inl MemoryError, st)
      else list_repr_loop write repr 0 ''['' st)"

subsection \<open>Extending\<close>

text \<open>What a call of \<open>iternext\<close> does: an item, the end (also by \<open>StopIteration\<close>), or an exception.\<close>

datatype 'o iter_step = Yield 'o | Exhausted | IterError

text \<open>
  An iterable: a list or tuple, of which \<open>PySequence_Fast\<close> makes a sequence of items, or an object
  with an iterator and a length hint (\<open>None\<close> where getting them raises).
\<close>

datatype ('o, 's) iterable =
    FastSequence "'o list res"
  | Iterator "int option" "('o, 's) lstate \<Rightarrow> 'o iter_step \<times> ('o, 's) lstate"

text \<open>The loop that runs the iterator to exhaustion; \<open>check\<close> is the item check of \<open>chklist_extend\<close>.\<close>

partial_function (option) extend_loop ::
  "(nat \<Rightarrow> bool) \<Rightarrow> ('o \<Rightarrow> bool) \<Rightarrow> (('o, 's) lstate \<Rightarrow> 'o iter_step \<times> ('o, 's) lstate) \<Rightarrow>
     ('o, 's) lstate \<Rightarrow> (unit res \<times> ('o, 's) lstate) option" where
  "extend_loop mem check iternext st =
     (case iternext st of
        (step, (self, s)) \<Rightarrow>
          (case step of
             Exhausted \<Rightarrow> Some (Inr (), (self, s))
           | IterError \<Rightarrow> Some (Inl Propagated, (self, s))
           | Yield item \<Rightarrow>
               if \<not> check item then Some (Inl (TypeError ''bad value''), (self, s))
               else if ob_size self < allocated self
               then extend_loop mem check iternext
                      ((set_item self (ob_size self) item)\<lparr>ob_size := ob_size self + 1\<rparr>, s)
               else
                 (case app1 mem self item of
                    (r, self) \<Rightarrow>
                      if r = Inr () then extend_loop mem check iternext (self, s)
                      else Some (r, (self, s)))))"

text \<open>Cut back the list if the initial guess was too large.\<close>

definition extend_cut ::
  "(nat \<Rightarrow> bool) \<Rightarrow> unit res \<times> ('o, 's) lstate \<Rightarrow> unit res \<times> ('o, 's) lstate" where
  "extend_cut mem r =
     (case r of
        (Inl e, st) \<Rightarrow> (Inl e, st)
      | (Inr _, (self, s)) \<Rightarrow>
          if ob_size self < allocated self
          then (case list_resize mem self (ob_size self) of (r, self) \<Rightarrow> (r, (self, s)))
          else (Inr (), (self, s)))"

text \<open>Appending the items of a sequence behind the \<open>m\<close> items that are there.\<close>

definition append_items :: "'o PyListObject \<Rightarrow> int \<Rightarrow> 'o list \<Rightarrow> 'o PyListObject" where
  "append_items self m vs =
     self\<lparr>ob_item := Some (blit (cells self) (nat m) (map Some vs) 0 (length vs))\<rparr>"

definition list_extend ::
  "(nat \<Rightarrow> bool) \<Rightarrow> ('o, 's) iterable \<Rightarrow> ('o, 's) lstate \<Rightarrow> (unit res \<times> ('o, 's) lstate) option" where
  "list_extend mem iterable st =
     (let (self, s) = st; m = ob_size self in
      case iterable of
        FastSequence (Inl e) \<Rightarrow> Some (Inl e, st)
      | FastSequence (Inr vs) \<Rightarrow>
          (let n = int (length vs) in
           if n = 0 then Some (Inr (), st)
           else if ob_item self = None then
             (case list_preallocate_exact mem self n of
                (Inl e, self) \<Rightarrow> Some (Inl e, (self, s))
              | (Inr _, self) \<Rightarrow> Some (Inr (), (append_items (self\<lparr>ob_size := n\<rparr>) m vs, s)))
           else
             (case list_resize mem self (m + n) of
                (Inl e, self) \<Rightarrow> Some (Inl e, (self, s))
              | (Inr _, self) \<Rightarrow> Some (Inr (), (append_items self m vs, s))))
      | Iterator None iternext \<Rightarrow> Some (Inl Propagated, st)
      | Iterator (Some n) iternext \<Rightarrow>
          (let (r, self) =
             (if m > PY_SSIZE_T_MAX - n then (Inr (), self)
              else if ob_item self = None then
                (if n \<noteq> 0 then list_preallocate_exact mem self n else (Inr (), self))
              else
                (case list_resize mem self (m + n) of
                   (Inl e, self) \<Rightarrow> (Inl e, self)
                 | (Inr _, self) \<Rightarrow> (Inr (), self\<lparr>ob_size := m\<rparr>)))
           in case r of
                Inl e \<Rightarrow> Some (Inl e, (self, s))
              | Inr _ \<Rightarrow> map_option (extend_cut mem) (extend_loop mem (\<lambda>_. True) iternext (self, s))))"

definition list_inplace_concat ::
  "(nat \<Rightarrow> bool) \<Rightarrow> ('o, 's) iterable \<Rightarrow> ('o, 's) lstate \<Rightarrow> (unit res \<times> ('o, 's) lstate) option" where
  "list_inplace_concat mem other st = list_extend mem other st"

subsection \<open>Subscripts\<close>

text \<open>
  A subscript: an object with \<open>__index__\<close> (its value, or the exception), a slice (its three fields
  as \<open>PySlice_Unpack\<close> delivers them), or something else.
\<close>

datatype subscript = IndexKey "int res" | SliceKey "(int \<times> int \<times> int) res" | OtherKey

text \<open>\<open>PySlice_AdjustIndices\<close>\<close>

definition adjust_index :: "int \<Rightarrow> int \<Rightarrow> int \<Rightarrow> int" where
  "adjust_index len i step =
     (if i < 0 then (let i = i + len in if i < 0 then (if step < 0 then -1 else 0) else i)
      else if i \<ge> len then (if step < 0 then len - 1 else len)
      else i)"

definition slice_adjust :: "int \<Rightarrow> int \<Rightarrow> int \<Rightarrow> int \<Rightarrow> int \<times> int \<times> int" where
  "slice_adjust len start stop step =
     (let start = adjust_index len start step;
          stop = adjust_index len stop step
      in (start, stop,
          if step < 0 then (if stop < start then (start - stop - 1) div (- step) + 1 else 0)
          else (if start < stop then (stop - start - 1) div step + 1 else 0)))"

text \<open>The cell a slice loop looks at in iteration \<open>i\<close>: \<open>cur\<close> is a \<open>size_t\<close> that starts at \<open>start\<close>.\<close>

definition slice_cursor :: "int \<Rightarrow> int \<Rightarrow> nat \<Rightarrow> nat" where
  "slice_cursor start step i = unat (of_int start + of_nat i * of_int step :: size_t)"

datatype 'o subscript_result = ItemResult 'o | ListResult "'o PyListObject"

definition list_subscript ::
  "(nat \<Rightarrow> bool) \<Rightarrow> 'o PyListObject \<Rightarrow> subscript \<Rightarrow> 'o subscript_result res" where
  "list_subscript mem self item =
     (case item of
        IndexKey (Inl e) \<Rightarrow> Inl e
      | IndexKey (Inr i) \<Rightarrow>
          (let i = (if i < 0 then i + ob_size self else i) in
           case list_item self i of Inl e \<Rightarrow> Inl e | Inr v \<Rightarrow> Inr (ItemResult v))
      | SliceKey (Inl e) \<Rightarrow> Inl e
      | SliceKey (Inr (start, stop, step)) \<Rightarrow>
          (let (start, stop, slicelength) = slice_adjust (ob_size self) start stop step in
           if slicelength \<le> 0 then Inr (ListResult empty_list)
           else if step = 1 then
             (case list_slice mem self start stop of Inl e \<Rightarrow> Inl e | Inr l \<Rightarrow> Inr (ListResult l))
           else
             (case list_new_prealloc mem slicelength of
                Inl e \<Rightarrow> Inl e
              | Inr np \<Rightarrow>
                  Inr (ListResult (np\<lparr>ob_item := Some (map (\<lambda>i. cells self ! slice_cursor start step i) [0..<nat slicelength]),
                                      ob_size := slicelength\<rparr>))))
      | OtherKey \<Rightarrow> Inl (TypeError ''list indices must be integers or slices''))"

text \<open>
  Deleting an extended slice: the \<open>step - 1\<close> entries behind every deleted one move down. \<open>cur\<close>
  stays below twice \<open>PY_SSIZE_T_MAX\<close>, so its arithmetic does not wrap.
\<close>

function del_slice_loop :: "'o option list \<Rightarrow> nat \<Rightarrow> nat \<Rightarrow> nat \<Rightarrow> nat \<Rightarrow> nat \<Rightarrow> 'o option list" where
  "del_slice_loop xs sz cur stop step i =
     (if cur < stop \<and> 0 < step then
        (let lim = (if cur + step \<ge> sz then sz - cur - 1 else step - 1)
         in del_slice_loop (blit xs (cur - i) xs (cur + 1) lim) sz (cur + step) stop step (Suc i))
      else xs)"
  by pat_completeness auto
termination
  by (relation "measure (\<lambda>(xs, sz, cur, stop, step, i). stop - cur)") auto

declare del_slice_loop.simps [simp del]

definition list_del_slice ::
  "(nat \<Rightarrow> bool) \<Rightarrow> 'o PyListObject \<Rightarrow> int \<Rightarrow> int \<Rightarrow> int \<Rightarrow> int \<Rightarrow> unit res \<times> 'o PyListObject" where
  "list_del_slice mem self start stop step slicelength =
     (if slicelength \<le> 0 then (Inr (), self)
      else
        (let (start, stop, step) =
               (if step < 0
                then (start + 1 + step * (slicelength - 1) - 1, start + 1, - step)
                else (start, stop, step))
         in if \<not> mem (nat slicelength * ptr_size) then (Inl MemoryError, self)
            else
              (let sz = nat (ob_size self);
                   xs = del_slice_loop (cells self) sz (nat start) (nat stop) (nat step) 0;
                   cur = nat (start + slicelength * step);
                   xs = (if cur < sz then blit xs (cur - nat slicelength) xs cur (sz - cur) else xs);
                   self = self\<lparr>ob_item := Some xs, ob_size := ob_size self - slicelength\<rparr>
               in list_resize mem self (ob_size self))))"

fun set_slice_loop :: "'o option list \<Rightarrow> int \<Rightarrow> int \<Rightarrow> nat \<Rightarrow> 'o list \<Rightarrow> 'o option list" where
  "set_slice_loop xs start step i [] = xs"
| "set_slice_loop xs start step i (v # vs) =
     set_slice_loop (xs[slice_cursor start step i := Some v]) start step (Suc i) vs"

definition list_set_slice ::
  "(nat \<Rightarrow> bool) \<Rightarrow> 'o PyListObject \<Rightarrow> int \<Rightarrow> int \<Rightarrow> int \<Rightarrow> 'o slice_value \<Rightarrow> unit res \<times> 'o PyListObject" where
  "list_set_slice mem self start step slicelength v =
     (case (case v of
              SelfList \<Rightarrow> (case list_slice mem self 0 (ob_size self) of Inl e \<Rightarrow> Inl e | Inr l \<Rightarrow> Inr (items l))
            | Sequence r \<Rightarrow> r) of
        Inl e \<Rightarrow> (Inl e, self)
      | Inr vs \<Rightarrow>
          if int (length vs) \<noteq> slicelength
          then (Inl (ValueError ''attempt to assign sequence to extended slice of different size''), self)
          else if slicelength = 0 then (Inr (), self)
          else if \<not> mem (nat slicelength * ptr_size) then (Inl MemoryError, self)
          else (Inr (), self\<lparr>ob_item := Some (set_slice_loop (cells self) start step 0 vs)\<rparr>))"

text \<open>The value assigned: an object for an index, a list or iterable for a slice, \<open>None\<close> for \<open>del\<close>.\<close>

record 'o assigned =
  as_item :: 'o
  as_slice :: "'o slice_value"

definition list_ass_subscript ::
  "(nat \<Rightarrow> bool) \<Rightarrow> 'o PyListObject \<Rightarrow> subscript \<Rightarrow> 'o assigned option \<Rightarrow> unit res \<times> 'o PyListObject" where
  "list_ass_subscript mem self item v =
     (case item of
        IndexKey (Inl e) \<Rightarrow> (Inl e, self)
      | IndexKey (Inr i) \<Rightarrow>
          list_ass_item mem self (if i < 0 then i + ob_size self else i) (map_option as_item v)
      | SliceKey (Inl e) \<Rightarrow> (Inl e, self)
      | SliceKey (Inr (start, stop, step)) \<Rightarrow>
          (let (start, stop, slicelength) = slice_adjust (ob_size self) start stop step in
           if step = 1 then list_ass_slice mem self start stop (map_option as_slice v)
           else
             (let stop = (if step < 0 \<and> start < stop \<or> step > 0 \<and> start > stop then start else stop) in
              case v of
                None \<Rightarrow> list_del_slice mem self start stop step slicelength
              | Some v \<Rightarrow> list_set_slice mem self start step slicelength (as_slice v)))
      | OtherKey \<Rightarrow> (Inl (TypeError ''list indices must be integers or slices''), self))"

subsection \<open>Iterators\<close>

text \<open>
  An iterator refers to its list until it is exhausted; the list is passed to every call in its
  current state.
\<close>

record listiterobject =
  it_index :: int
  it_alive :: bool

definition list_iter :: "listiterobject" where
  "list_iter = \<lparr>it_index = 0, it_alive = True\<rparr>"

definition listiter_next :: "'o PyListObject \<Rightarrow> listiterobject \<Rightarrow> 'o option \<times> listiterobject" where
  "listiter_next seq it =
     (if \<not> it_alive it then (None, it)
      else if it_index it < ob_size seq
      then (Some (get_item seq (it_index it)), it\<lparr>it_index := it_index it + 1\<rparr>)
      else (None, it\<lparr>it_alive := False\<rparr>))"

definition listiter_len :: "'o PyListObject \<Rightarrow> listiterobject \<Rightarrow> int" where
  "listiter_len seq it =
     (if it_alive it \<and> ob_size seq - it_index it \<ge> 0 then ob_size seq - it_index it else 0)"

definition listiter_setstate :: "'o PyListObject \<Rightarrow> int \<Rightarrow> listiterobject \<Rightarrow> listiterobject" where
  "listiter_setstate seq index it =
     (if it_alive it
      then it\<lparr>it_index := (if index < 0 then 0 else if index > ob_size seq then ob_size seq else index)\<rparr>
      else it)"

definition list_reversed_impl :: "'o PyListObject \<Rightarrow> listiterobject" where
  "list_reversed_impl self = \<lparr>it_index = ob_size self - 1, it_alive = True\<rparr>"

definition listreviter_next :: "'o PyListObject \<Rightarrow> listiterobject \<Rightarrow> 'o option \<times> listiterobject" where
  "listreviter_next seq it =
     (if \<not> it_alive it then (None, it)
      else if it_index it \<ge> 0 \<and> it_index it < ob_size seq
      then (Some (get_item seq (it_index it)), it\<lparr>it_index := it_index it - 1\<rparr>)
      else (None, it\<lparr>it_index := -1, it_alive := False\<rparr>))"

definition listreviter_len :: "'o PyListObject \<Rightarrow> listiterobject \<Rightarrow> int" where
  "listreviter_len seq it =
     (let len = it_index it + 1 in if \<not> it_alive it \<or> ob_size seq < len then 0 else len)"

definition listreviter_setstate :: "'o PyListObject \<Rightarrow> int \<Rightarrow> listiterobject \<Rightarrow> listiterobject" where
  "listreviter_setstate seq index it =
     (if it_alive it
      then it\<lparr>it_index := (if index < -1 then -1 else if index > ob_size seq - 1 then ob_size seq - 1 else index)\<rparr>
      else it)"

text \<open>\<open>__reduce__\<close>: the constructor to call, with the list and the index, or with an empty list.\<close>

datatype iter_reduced = ReduceIter int | ReduceReversed int | ReduceEmpty

definition listiter_reduce_general :: "listiterobject \<Rightarrow> bool \<Rightarrow> iter_reduced" where
  "listiter_reduce_general it forward =
     (if it_alive it then (if forward then ReduceIter (it_index it) else ReduceReversed (it_index it))
      else ReduceEmpty)"

end
