(* ===== verification/Typed_Methods.thy ===== *)
theory Typed_Methods
  imports Cinderx_Prelude
begin

text \<open>
  Signatures of typed builtin methods (\<open>typed_method_def.c\<close>, \<open>typed_method_def.h\<close> and the type codes
  of \<open>type_code.h\<close>): checking an argument against a type parameter, converting Python integers to
  machine integers and back, and the dictionary that describes a signature.

  Objects and types are the interpreter's: \<open>obj_env\<close> collects what the C code asks of them, the
  identity of \<open>None\<close>, \<open>PyObject_TypeCheck\<close>, the value of an integer object (\<open>PyLong_Check\<close>), \<open>PyUnicode_Check\<close>
  and \<open>tp_name\<close>.
\<close>

section \<open>Definitions\<close>

record ('o, 'ty) obj_env =
  py_none :: 'o
  type_check :: "'o \<Rightarrow> 'ty \<Rightarrow> bool"
  long_object :: "'o \<Rightarrow> int option"
  unicode_object :: "'o \<Rightarrow> bool"
  tp_name :: "'ty \<Rightarrow> string"

subsection \<open>Type codes and signature elements\<close>

abbreviation (input) TYPED_INT_SIGNED :: nat where "TYPED_INT_SIGNED \<equiv> 1"
abbreviation (input) TYPED_INT8 :: nat where "TYPED_INT8 \<equiv> 1"
abbreviation (input) TYPED_INT16 :: nat where "TYPED_INT16 \<equiv> 3"
abbreviation (input) TYPED_INT32 :: nat where "TYPED_INT32 \<equiv> 5"
abbreviation (input) TYPED_INT64 :: nat where "TYPED_INT64 \<equiv> 7"
abbreviation (input) TYPED_UINT8 :: nat where "TYPED_UINT8 \<equiv> 0"
abbreviation (input) TYPED_UINT16 :: nat where "TYPED_UINT16 \<equiv> 2"
abbreviation (input) TYPED_UINT32 :: nat where "TYPED_UINT32 \<equiv> 4"
abbreviation (input) TYPED_UINT64 :: nat where "TYPED_UINT64 \<equiv> 6"
abbreviation (input) TYPED_OBJECT :: nat where "TYPED_OBJECT \<equiv> 8"
abbreviation (input) TYPED_VOID :: nat where "TYPED_VOID \<equiv> 13"
abbreviation (input) TYPED_STRING :: nat where "TYPED_STRING \<equiv> 14"
abbreviation (input) TYPED_ERROR :: nat where "TYPED_ERROR \<equiv> 15"

text \<open>
  An \<open>se_argtype\<close>: bit 0 marks an optional argument, bit 1 a type parameter, and the bits above
  are the type code or the index of the type parameter.
\<close>

abbreviation (input) SIG_OPTIONAL :: nat where "SIG_OPTIONAL \<equiv> 1"
abbreviation (input) SIG_TYPE_PARAM :: nat where "SIG_TYPE_PARAM \<equiv> 2"

definition has_flag :: "nat \<Rightarrow> nat \<Rightarrow> bool" where
  "has_flag x f \<longleftrightarrow> x AND f \<noteq> 0"

definition sig_of :: "nat \<Rightarrow> nat" where
  "sig_of code = push_bit 2 code"

definition sig_type_param_idx :: "nat \<Rightarrow> nat" where
  "sig_type_param_idx i = push_bit 2 i OR SIG_TYPE_PARAM"

definition sig_type_mask :: "nat \<Rightarrow> nat" where
  "sig_type_mask x = drop_bit 2 x"

text \<open>\<open>argtype & ~Ci_Py_SIG_OPTIONAL\<close>\<close>

definition sig_required :: "nat \<Rightarrow> nat" where
  "sig_required x = push_bit 1 (drop_bit 1 x)"

record 'o SigElement =
  se_argtype :: nat
  se_default_value :: "'o option"
  se_name :: "string option"

definition Ci_Py_Sig_T0 :: "'o SigElement" where
  "Ci_Py_Sig_T0 = \<lparr>se_argtype = sig_type_param_idx 0, se_default_value = None, se_name = None\<rparr>"

definition Ci_Py_Sig_T1 :: "'o SigElement" where
  "Ci_Py_Sig_T1 = \<lparr>se_argtype = sig_type_param_idx 1, se_default_value = None, se_name = None\<rparr>"

definition Ci_Py_Sig_T0_Opt :: "'o SigElement" where
  "Ci_Py_Sig_T0_Opt =
     \<lparr>se_argtype = sig_type_param_idx 0 OR SIG_OPTIONAL, se_default_value = None, se_name = None\<rparr>"

definition Ci_Py_Sig_T1_Opt :: "'o SigElement" where
  "Ci_Py_Sig_T1_Opt =
     \<lparr>se_argtype = sig_type_param_idx 1 OR SIG_OPTIONAL, se_default_value = None, se_name = None\<rparr>"

record 'ty generic_param =
  gtp_type :: 'ty
  gtp_optional :: bool

subsection \<open>Checking one argument\<close>

text \<open>\<open>params\<close> is \<open>gti_inst\<close> of the type of the object whose method is called.\<close>

definition check_param_type :: "('o, 'ty) obj_env \<Rightarrow> 'ty generic_param list \<Rightarrow> 'o \<Rightarrow> nat \<Rightarrow> bool" where
  "check_param_type env params arg index =
     (let param = params ! index
      in arg = py_none env \<and> gtp_optional param \<or> type_check env arg (gtp_type param))"

text \<open>The decimal digits \<open>%d\<close> prints for a small argument position.\<close>

fun decimal :: "nat \<Rightarrow> string" where
  "decimal n = (if n < 10 then [char_of (48 + n)] else decimal (n div 10) @ [char_of (48 + n mod 10)])"

definition arg_error_str ::
  "('o, 'ty) obj_env \<Rightarrow> 'ty generic_param list \<Rightarrow> string \<Rightarrow> nat \<Rightarrow> 'o SigElement \<Rightarrow> py_error" where
  "arg_error_str env params func_name arg elem =
     (let argtype = se_argtype elem;
          prefix = func_name @ ''() argument '' @ decimal arg
      in if has_flag argtype SIG_TYPE_PARAM
         then StaticTypeError (prefix @ '' expected '' @ tp_name env (gtp_type (params ! sig_type_mask argtype)))
         else if sig_type_mask argtype = sig_of TYPED_OBJECT then StaticTypeError (prefix @ '' is missing'')
         else StaticTypeError (prefix @ '' expected '' @
                (if sig_type_mask argtype = sig_of TYPED_STRING then ''str''
                 else if sig_type_mask argtype = sig_of TYPED_INT64 then ''int'' else ''?'')))"

definition check_one_arg ::
  "('o, 'ty) obj_env \<Rightarrow> 'ty generic_param list \<Rightarrow> 'o \<Rightarrow> string \<Rightarrow> nat \<Rightarrow> 'o SigElement \<Rightarrow> unit res" where
  "check_one_arg env params arg name pos elem =
     (if arg = py_none env \<and> has_flag (se_argtype elem) SIG_OPTIONAL then Inr ()
      else if \<not> type_check env arg (gtp_type (params ! sig_type_mask (se_argtype elem)))
      then Inl (arg_error_str env params name (pos + 1) elem)
      else Inr ())"

subsection \<open>Machine integers\<close>

text \<open>\<open>PyLong_AsSsize_t\<close> and \<open>PyLong_AsSize_t\<close>: \<open>None\<close> when they raise \<open>OverflowError\<close>.\<close>

definition long_as_ssize_t :: "int \<Rightarrow> size_t option" where
  "long_as_ssize_t v = (if - (2 ^ 63) \<le> v \<and> v < 2 ^ 63 then Some (of_int v) else None)"

definition long_as_size_t :: "int \<Rightarrow> size_t option" where
  "long_as_size_t v = (if 0 \<le> v \<and> v < 2 ^ 64 then Some (of_int v) else None)"

definition overflow_masks :: "size_t list" where
  "overflow_masks = [0xFFFFFFFFFFFFFF00, 0xFFFFFFFFFFFF0000, 0xFFFFFFFF00000000, 0x0]"

definition soverflow_masks :: "size_t list" where
  "soverflow_masks = [0xFFFFFFFFFFFFFF80, 0xFFFFFFFFFFFF8000, 0xFFFFFFFF80000000, 0x8000000000000000]"

definition overflow_check :: "int \<Rightarrow> nat \<Rightarrow> size_t option" where
  "overflow_check arg type =
     (if has_flag type TYPED_INT_SIGNED then
        (case long_as_ssize_t arg of
           None \<Rightarrow> None
         | Some ival \<Rightarrow>
             (let m = soverflow_masks ! drop_bit 1 type in
              if ival AND m \<noteq> 0 \<and> ival AND m \<noteq> m then None else Some ival))
      else
        (case long_as_size_t arg of
           None \<Rightarrow> None
         | Some ival \<Rightarrow>
             (let m = overflow_masks ! drop_bit 1 type in
              if ival AND m \<noteq> 0 then None else Some ival)))"

text \<open>A converted argument: a pointer to an object (or null), or a machine integer.\<close>

datatype 'o cvalue = Pointer "'o option" | Machine size_t

text \<open>
  The result and the error flag. The switch has no case for the remaining type codes, which
  leave a null pointer and no error.
\<close>

definition convert_arg ::
  "('o, 'ty) obj_env \<Rightarrow> 'ty generic_param list \<Rightarrow> 'o SigElement \<Rightarrow> nat \<Rightarrow> 'o list \<Rightarrow> 'o cvalue \<times> bool" where
  "convert_arg env params elem i args =
     (let arg = (if i < length args then Some (args ! i) else se_default_value elem);
          argtype = se_argtype elem;
          code = sig_required argtype
      in if has_flag argtype SIG_OPTIONAL \<and> (arg = None \<or> arg = Some (py_none env)) then (Pointer arg, False)
         else case arg of
           None \<Rightarrow> (Pointer None, True)
         | Some a \<Rightarrow>
             if has_flag argtype SIG_TYPE_PARAM
             then (Pointer arg, \<not> check_param_type env params a (sig_type_mask argtype))
             else if code = sig_of TYPED_OBJECT then (Pointer arg, False)
             else if code = sig_of TYPED_STRING then (Pointer arg, \<not> unicode_object env a)
             else if code \<in> sig_of ` {TYPED_UINT8, TYPED_UINT16, TYPED_UINT32, TYPED_INT8, TYPED_INT16, TYPED_INT32}
             then (case long_object env a of
                     None \<Rightarrow> (Pointer None, True)
                   | Some v \<Rightarrow>
                       (case overflow_check v (sig_type_mask argtype) of
                          Some res \<Rightarrow> (Machine res, False)
                        | None \<Rightarrow> (Pointer None, True)))
             else if code = sig_of TYPED_INT64
             then (case long_object env a of
                     None \<Rightarrow> (Pointer None, True)
                   | Some v \<Rightarrow>
                       (case long_as_ssize_t v of Some val \<Rightarrow> (Machine val, False) | None \<Rightarrow> (Machine (- 1), True)))
             else if code = sig_of TYPED_UINT64
             then (case long_object env a of
                     None \<Rightarrow> (Pointer None, True)
                   | Some v \<Rightarrow>
                       (case long_as_size_t v of Some val \<Rightarrow> (Machine val, False) | None \<Rightarrow> (Machine (- 1), True)))
             else (Pointer None, False))"

text \<open>
  The value a typed method hands back, a \<open>void*\<close>, boxed: \<open>None\<close>, an integer object, the pointer
  itself, or null for an error. An integer result is cut to its width first.
\<close>

datatype boxed = BoxedNone | BoxedLong int | BoxedPointer size_t | BoxedError

definition convert_ret :: "size_t \<Rightarrow> nat \<Rightarrow> boxed" where
  "convert_ret value ret_type =
     (if ret_type = sig_of TYPED_VOID then BoxedNone
      else if ret_type = sig_of TYPED_INT8 then BoxedLong (sint (ucast value :: 8 word))
      else if ret_type = sig_of TYPED_INT16 then BoxedLong (sint (ucast value :: 16 word))
      else if ret_type = sig_of TYPED_INT32 then BoxedLong (sint (ucast value :: 32 word))
      else if ret_type = sig_of TYPED_INT64 then BoxedLong (sint value)
      else if ret_type = sig_of TYPED_UINT8 then BoxedLong (uint (ucast value :: 8 word))
      else if ret_type = sig_of TYPED_UINT16 then BoxedLong (uint (ucast value :: 16 word))
      else if ret_type = sig_of TYPED_UINT32 then BoxedLong (uint (ucast value :: 32 word))
      else if ret_type = sig_of TYPED_UINT64 then BoxedLong (uint value)
      else if ret_type = sig_of TYPED_ERROR then (if value \<noteq> 0 then BoxedError else BoxedNone)
      else BoxedPointer value)"

subsection \<open>Describing a signature\<close>

text \<open>The entries of the dictionaries that describe arguments and the return value.\<close>

datatype 'o info_value = InfoTrue | InfoIndex nat | InfoName string | InfoDefault 'o

definition sig_type_name :: "nat \<Rightarrow> string res" where
  "sig_type_name code =
     (if code = sig_of TYPED_ERROR \<or> code = sig_of TYPED_VOID then Inr ''NoneType''
      else if code = sig_of TYPED_OBJECT then Inr ''object''
      else if code = sig_of TYPED_STRING then Inr ''str''
      else if code = sig_of TYPED_INT8 then Inr ''__static__.int8''
      else if code = sig_of TYPED_INT16 then Inr ''__static__.int16''
      else if code = sig_of TYPED_INT32 then Inr ''__static__.int32''
      else if code = sig_of TYPED_INT64 then Inr ''__static__.int64''
      else if code = sig_of TYPED_UINT8 then Inr ''__static__.uint8''
      else if code = sig_of TYPED_UINT16 then Inr ''__static__.uint16''
      else if code = sig_of TYPED_UINT32 then Inr ''__static__.uint32''
      else if code = sig_of TYPED_UINT64 then Inr ''__static__.uint64''
      else Inl (RuntimeError ''unknown type''))"

definition populate_type_info ::
  "(string \<rightharpoonup> 'o info_value) \<Rightarrow> nat \<Rightarrow> (string \<rightharpoonup> 'o info_value) res" where
  "populate_type_info arg_info argtype =
     (let arg_info = (if has_flag argtype SIG_OPTIONAL then arg_info(''optional'' \<mapsto> InfoTrue) else arg_info) in
      if has_flag argtype SIG_TYPE_PARAM
      then Inr (arg_info(''type_param'' \<mapsto> InfoIndex (sig_type_mask argtype)))
      else case sig_type_name (sig_required argtype) of
          Inl e \<Rightarrow> Inl e
        | Inr name \<Rightarrow> Inr (arg_info(''type'' \<mapsto> InfoName name)))"

text \<open>One iteration of the loop over the arguments; the name of an argument is stored under \<open>type\<close>.\<close>

definition describe_arg :: "'o SigElement \<Rightarrow> (string \<rightharpoonup> 'o info_value) res" where
  "describe_arg sig =
     (case populate_type_info Map.empty (se_argtype sig) of
        Inl e \<Rightarrow> Inl e
      | Inr arg_info \<Rightarrow>
          (let arg_info = (case se_name sig of None \<Rightarrow> arg_info | Some name \<Rightarrow> arg_info(''type'' \<mapsto> InfoName name));
               arg_info = (case se_default_value sig of None \<Rightarrow> arg_info | Some v \<Rightarrow> arg_info(''default'' \<mapsto> InfoDefault v))
           in Inr arg_info))"

fun describe_args :: "'o SigElement list \<Rightarrow> (string \<rightharpoonup> 'o info_value) list res" where
  "describe_args [] = Inr []"
| "describe_args (sig # sigs) =
     (case describe_arg sig of
        Inl e \<Rightarrow> Inl e
      | Inr arg_info \<Rightarrow> (case describe_args sigs of Inl e \<Rightarrow> Inl e | Inr args \<Rightarrow> Inr (arg_info # args)))"

record 'o TypedMethodDef =
  tmd_sig :: "'o SigElement list"
  tmd_ret :: nat

text \<open>\<open>None\<close> for a method without the flag \<open>Ci_METH_TYPED\<close>, otherwise the entries \<open>args\<close> and \<open>return\<close>.\<close>

definition GetTypedSignature ::
  "'o TypedMethodDef option \<Rightarrow> ((string \<rightharpoonup> 'o info_value) list \<times> (string \<rightharpoonup> 'o info_value)) option res" where
  "GetTypedSignature method =
     (case method of
        None \<Rightarrow> Inr None
      | Some def \<Rightarrow>
          (case describe_args (tmd_sig def) of
             Inl e \<Rightarrow> Inl e
           | Inr args \<Rightarrow>
               (case populate_type_info Map.empty (tmd_ret def) of
                  Inl e \<Rightarrow> Inl e
                | Inr ret_info \<Rightarrow> Inr (Some (args, ret_info)))))"

section \<open>Machine integers and their bounds\<close>

lemma uint_and_not_mask: "uint (w AND NOT (mask k) :: size_t) = push_bit k (drop_bit k (uint w))"
  by (rule bit_eqI) (auto simp: bit_simps bit_uint_iff dest: bit_imp_le_length)

lemma and_not_mask_eq_0_iff: "(w AND NOT (mask k) :: size_t) = 0 \<longleftrightarrow> uint w < 2 ^ k"
proof -
  have "(w AND NOT (mask k) :: size_t) = 0 \<longleftrightarrow> drop_bit k (uint w) = 0"
    using uint_and_not_mask [of w k]
    by (metis push_bit_of_0 uint_0_iff push_bit_eq_mult mult_eq_0_iff power_not_zero zero_neq_numeral)
  also have "\<dots> \<longleftrightarrow> uint w < 2 ^ k"
    using uint_ge_0 [of w] by (auto simp: drop_bit_eq_div zdiv_eq_0_iff)
  finally show ?thesis .
qed

lemma and_not_mask_eq_self_iff: "(w AND NOT (mask k) :: size_t) = NOT (mask k) \<longleftrightarrow> uint (NOT w) < 2 ^ k"
proof -
  have "w AND NOT (mask k) = NOT (mask k) \<longleftrightarrow> NOT w AND NOT (mask k) = 0"
    by (auto simp: bit_eq_iff bit_simps)
  then show ?thesis by (simp only: and_not_mask_eq_0_iff)
qed

lemma uint_of_negative: "- (2 ^ 63) \<le> i \<Longrightarrow> i < 0 \<Longrightarrow> uint (of_int i :: size_t) = 2 ^ 64 + i"
proof -
  assume i: "- (2 ^ 63) \<le> i" "i < 0"
  have "i mod 2 ^ 64 = (2 ^ 64 + i) mod 2 ^ 64" by simp
  also have "\<dots> = 2 ^ 64 + i" by (rule mod_pos_pos_trivial) (use i in simp_all)
  finally show ?thesis by (simp add: unsigned_of_int take_bit_eq_mod)
qed

lemma uint_NOT_of_int:
  "- (2 ^ 63) \<le> i \<Longrightarrow> i < 2 ^ 63 \<Longrightarrow> uint (NOT (of_int i) :: size_t) = (if i < 0 then - i - 1 else 2 ^ 64 - i - 1)"
proof -
  assume i: "- (2 ^ 63) \<le> i" "i < 2 ^ 63"
  have n: "(NOT (of_int i) :: size_t) = of_int (- i - 1)"
    by (simp add: not_eq_complement)
  show ?thesis
  proof (cases "i < 0")
    case True
    then have "uint (of_int (- i - 1) :: size_t) = - i - 1" using i by (intro uint_of_int_size_t) simp_all
    with True n show ?thesis by (simp only: if_True)
  next
    case False
    then have "uint (of_int (- i - 1) :: size_t) = 2 ^ 64 + (- i - 1)" using i by (intro uint_of_negative) simp_all
    with False n show ?thesis by simp
  qed
qed

text \<open>The bit masks accept exactly the values that fit into \<open>k + 1\<close> signed or \<open>k\<close> unsigned bits.\<close>

lemma signed_mask_test:
  assumes "- (2 ^ 63) \<le> i" "i < 2 ^ 63" "k \<le> 63"
  shows "((of_int i AND NOT (mask k) :: size_t) = 0 \<or> (of_int i AND NOT (mask k) :: size_t) = NOT (mask k)) \<longleftrightarrow>
    - (2 ^ k) \<le> i \<and> i < 2 ^ k"
proof -
  have k: "(2 :: int) ^ k \<le> 2 ^ 63" using assms(3) by (intro power_increasing) simp_all
  show ?thesis
    unfolding and_not_mask_eq_0_iff and_not_mask_eq_self_iff uint_NOT_of_int [OF assms(1,2)]
    using k assms(1,2) uint_of_negative [of i] by (cases "i < 0") auto
qed

lemma unsigned_mask_test:
  "0 \<le> i \<Longrightarrow> i < 2 ^ 64 \<Longrightarrow> (of_int i AND NOT (mask k) :: size_t) = 0 \<longleftrightarrow> i < 2 ^ k"
  by (simp add: and_not_mask_eq_0_iff)

lemma mask_numerals:
  "soverflow_masks = map (\<lambda>k. NOT (mask k)) [7, 15, 31, 63]"
  "overflow_masks = map (\<lambda>k. NOT (mask k)) [8, 16, 32, 64]"
  by (simp_all add: soverflow_masks_def overflow_masks_def mask_eq_exp_minus_1)

text \<open>The width in bits of the integer types by their index.\<close>

definition int_width :: "nat \<Rightarrow> nat" where
  "int_width n = 8 * 2 ^ n"

lemma int_width_cases: "n < 4 \<Longrightarrow> n = 0 \<or> n = 1 \<or> n = 2 \<or> n = (3 :: nat)"
  by linarith

lemma overflow_check_signed:
  assumes "n < 4"
  shows "overflow_check v (2 * n + 1) =
    (if - (2 ^ (int_width n - 1)) \<le> v \<and> v < 2 ^ (int_width n - 1) then Some (of_int v) else None)"
proof -
  have m: "soverflow_masks ! n = NOT (mask (int_width n - 1))"
    using int_width_cases [OF assms] by (auto simp: mask_numerals int_width_def)
  have w: "int_width n - 1 \<le> 63" using int_width_cases [OF assms] by (auto simp: int_width_def)
  then have k: "(2 :: int) ^ (int_width n - 1) \<le> 2 ^ 63" by (intro power_increasing) simp_all
  have code: "has_flag (2 * n + 1) TYPED_INT_SIGNED" "drop_bit 1 (2 * n + 1) = n"
    by (simp_all add: has_flag_def and_one_eq drop_bit_eq_div)
  show ?thesis
  proof (cases "- (2 ^ 63) \<le> v \<and> v < 2 ^ 63")
    case True
    with signed_mask_test [of v "int_width n - 1"] w show ?thesis
      by (simp only: overflow_check_def code m long_as_ssize_t_def Let_def if_True if_False simp_thms option.case) auto
  next
    case False
    then have "\<not> (- (2 ^ (int_width n - 1)) \<le> v \<and> v < 2 ^ (int_width n - 1))" using k by linarith
    with False show ?thesis
      by (simp only: overflow_check_def code long_as_ssize_t_def if_True if_False simp_thms option.case)
  qed
qed

lemma overflow_check_unsigned:
  assumes "n < 4"
  shows "overflow_check v (2 * n) = (if 0 \<le> v \<and> v < 2 ^ int_width n then Some (of_int v) else None)"
proof -
  have m: "overflow_masks ! n = NOT (mask (int_width n))"
    using int_width_cases [OF assms] by (auto simp: mask_numerals int_width_def)
  have w: "int_width n \<le> 64" using int_width_cases [OF assms] by (auto simp: int_width_def)
  then have k: "(2 :: int) ^ int_width n \<le> 2 ^ 64" by (intro power_increasing) simp_all
  have code: "\<not> has_flag (2 * n) TYPED_INT_SIGNED" "drop_bit 1 (2 * n) = n"
    by (simp_all add: has_flag_def and_one_eq drop_bit_eq_div)
  show ?thesis
  proof (cases "0 \<le> v \<and> v < 2 ^ 64")
    case True
    with unsigned_mask_test [of v "int_width n"] show ?thesis
      by (simp only: overflow_check_def code m long_as_size_t_def Let_def if_True if_False simp_thms option.case) auto
  next
    case False
    then have "\<not> (0 \<le> v \<and> v < 2 ^ int_width n)" using k by linarith
    with False show ?thesis
      by (simp only: overflow_check_def code long_as_size_t_def if_True if_False simp_thms option.case)
  qed
qed

section \<open>Conversions\<close>

text \<open>The integers of the type with a given code.\<close>

definition int_in_range :: "nat \<Rightarrow> int \<Rightarrow> bool" where
  "int_in_range code v \<longleftrightarrow>
     (let k = int_width (code div 2)
      in if odd code then - (2 ^ (k - 1)) \<le> v \<and> v < 2 ^ (k - 1) else 0 \<le> v \<and> v < 2 ^ k)"

lemma overflow_check_eq:
  assumes "code < 8"
  shows "overflow_check v code = (if int_in_range code v then Some (of_int v) else None)"
proof (cases "odd code")
  case True
  then have "code = 2 * (code div 2) + 1" by presburger
  moreover have "code div 2 < 4" using assms by linarith
  ultimately show ?thesis
    using overflow_check_signed [of "code div 2" v] True by (simp add: int_in_range_def Let_def)
next
  case False
  then have "code = 2 * (code div 2)" by presburger
  moreover have "code div 2 < 4" using assms by linarith
  ultimately show ?thesis
    using overflow_check_unsigned [of "code div 2" v] False by (simp add: int_in_range_def Let_def)
qed

lemma wide_conversions:
  "long_as_ssize_t v = (if int_in_range TYPED_INT64 v then Some (of_int v) else None)"
  "long_as_size_t v = (if int_in_range TYPED_UINT64 v then Some (of_int v) else None)"
  by (simp_all add: long_as_ssize_t_def long_as_size_t_def int_in_range_def int_width_def)

lemma has_flag_bit: "has_flag x SIG_OPTIONAL \<longleftrightarrow> bit x 0" "has_flag x SIG_TYPE_PARAM \<longleftrightarrow> bit x 1"
proof -
  show "has_flag x SIG_OPTIONAL \<longleftrightarrow> bit x 0" by (simp add: has_flag_def and_one_eq bit_0 odd_iff_mod_2_eq_one)
  have "(x AND push_bit 1 1 \<noteq> 0) \<longleftrightarrow> bit x 1"
    by (auto simp: bit_eq_iff [of _ "0 :: nat"] bit_simps)
  then show "has_flag x SIG_TYPE_PARAM \<longleftrightarrow> bit x 1"
    by (simp add: has_flag_def)
qed

lemma sig_of_simps:
  "\<not> has_flag (sig_of c) SIG_OPTIONAL" "\<not> has_flag (sig_of c) SIG_TYPE_PARAM" "sig_type_mask (sig_of c) = c"
  "sig_required (sig_of c) = sig_of c" "sig_of c = sig_of d \<longleftrightarrow> c = d"
proof -
  show "\<not> has_flag (sig_of c) SIG_OPTIONAL" "\<not> has_flag (sig_of c) SIG_TYPE_PARAM"
    by (simp_all only: has_flag_bit sig_of_def bit_push_bit_iff) simp_all
  show "sig_type_mask (sig_of c) = c" "sig_required (sig_of c) = sig_of c" "sig_of c = sig_of d \<longleftrightarrow> c = d"
    by (simp_all add: sig_of_def sig_type_mask_def sig_required_def push_bit_eq_mult drop_bit_eq_div)
qed

lemma code_cases:
  "code < 8 \<Longrightarrow> code \<in> {TYPED_UINT8, TYPED_UINT16, TYPED_UINT32, TYPED_INT8, TYPED_INT16, TYPED_INT32} \<or>
     code = TYPED_INT64 \<or> code = TYPED_UINT64"
  by auto

lemma convert_arg_integer:
  assumes code: "code < 8" and elem: "se_argtype elem = sig_of code"
    and arg: "i < length args" "long_object env (args ! i) = Some v"
  shows "convert_arg env params elem i args =
    (if int_in_range code v then (Machine (of_int v), False)
     else if code = TYPED_INT64 \<or> code = TYPED_UINT64 then (Machine (- 1), True) else (Pointer None, True))"
proof -
  have neq: "code \<noteq> TYPED_OBJECT" "code \<noteq> TYPED_STRING" using code by simp_all
  have image: "sig_of code \<in> sig_of ` S \<longleftrightarrow> code \<in> S" for S by (auto simp: sig_of_simps)
  show ?thesis
    using code_cases [OF code] arg neq
    unfolding convert_arg_def elem Let_def sig_of_simps image overflow_check_eq [OF code] wide_conversions
    by (auto simp: sig_of_simps simp del: One_nat_def)
qed

lemma sint_narrow:
  assumes "- (2 ^ (LENGTH('a) - 1)) \<le> v" "v < 2 ^ (LENGTH('a) - 1)" "LENGTH('a) \<le> 64"
  shows "sint (ucast (of_int v :: size_t) :: 'a :: len word) = v"
proof -
  have "(ucast (of_int v :: size_t) :: 'a word) = of_int v"
    using assms(3) by (intro bit_word_eqI) (simp add: bit_simps)
  then show ?thesis
    using assms(1,2) by (simp add: signed_of_int signed_take_bit_int_eq_self)
qed

lemma uint_narrow:
  assumes "0 \<le> v" "v < 2 ^ LENGTH('a)" "LENGTH('a) \<le> 64"
  shows "uint (ucast (of_int v :: size_t) :: 'a :: len word) = v"
proof -
  have "(ucast (of_int v :: size_t) :: 'a word) = of_int v"
    using assms(3) by (intro bit_word_eqI) (simp add: bit_simps)
  then show ?thesis
    using assms(1,2) by (simp add: unsigned_of_int take_bit_int_eq_self)
qed

lemma convert_ret_integer:
  assumes "code < 8" "int_in_range code v"
  shows "convert_ret (of_int v) (sig_of code) = BoxedLong v"
proof -
  have "code \<in> {0, 1, 2, 3, 4, 5, 6, 7}" using assms(1) by auto
  with assms(2) show ?thesis
    by (auto simp: convert_ret_def sig_of_simps int_in_range_def int_width_def
        sint_narrow uint_narrow signed_of_int signed_take_bit_take_bit signed_take_bit_int_eq_self unsigned_of_int take_bit_int_eq_self)
qed

section \<open>Argument checks\<close>

text \<open>What \<open>gti_inst[i]\<close> admits: the type parameter, or \<open>None\<close> for an optional one.\<close>

definition admits :: "('o, 'ty) obj_env \<Rightarrow> 'ty generic_param \<Rightarrow> 'o \<Rightarrow> bool" where
  "admits env p v \<longleftrightarrow> type_check env v (gtp_type p) \<or> (v = py_none env \<and> gtp_optional p)"

lemma check_param_type_iff: "check_param_type env params v i \<longleftrightarrow> admits env (params ! i) v"
  by (auto simp: check_param_type_def admits_def Let_def)

lemma sig_type_param_simps:
  "\<not> has_flag (sig_type_param_idx i) SIG_OPTIONAL" "has_flag (sig_type_param_idx i) SIG_TYPE_PARAM"
  "sig_type_mask (sig_type_param_idx i) = i"
proof -
  show "\<not> has_flag (sig_type_param_idx i) SIG_OPTIONAL" "has_flag (sig_type_param_idx i) SIG_TYPE_PARAM"
    by (simp_all only: has_flag_bit sig_type_param_idx_def bit_or_iff bit_push_bit_iff) (simp_all add: bit_0 bit_Suc)
  show "sig_type_mask (sig_type_param_idx i) = i"
    by (simp add: sig_type_mask_def sig_type_param_idx_def drop_bit_or) (simp add: drop_bit_eq_div push_bit_eq_mult)
qed

text \<open>The check of a required type parameter looks at the type alone.\<close>

lemma check_one_arg_param:
  assumes "se_argtype elem = sig_type_param_idx i"
  shows "check_one_arg env params arg name pos elem =
    (if type_check env arg (gtp_type (params ! i)) then Inr ()
     else Inl (StaticTypeError (name @ ''() argument '' @ decimal (pos + 1) @ '' expected '' @ tp_name env (gtp_type (params ! i)))))"
  unfolding check_one_arg_def arg_error_str_def assms Let_def
  by (simp add: sig_type_param_simps del: One_nat_def decimal.simps)

lemma check_one_arg_admits:
  "se_argtype elem = sig_type_param_idx i \<Longrightarrow> check_one_arg env params arg name pos elem = Inr () \<Longrightarrow>
     admits env (params ! i) arg"
  by (simp add: check_one_arg_param admits_def split: if_splits)

text \<open>The switch compares a type code with the codes shifted into position, so it selects no case.\<close>

lemma arg_error_str_unknown:
  assumes "se_argtype elem = sig_of code" "code < 16"
  shows "arg_error_str env params name arg elem = StaticTypeError (name @ ''() argument '' @ decimal arg @ '' expected ?'')"
proof -
  have "code \<noteq> sig_of TYPED_OBJECT" "code \<noteq> sig_of TYPED_STRING" "code \<noteq> sig_of TYPED_INT64"
    using assms(2) by (simp_all add: sig_of_def push_bit_eq_mult)
  then show ?thesis
    unfolding arg_error_str_def assms(1) Let_def
    by (simp add: sig_of_simps del: decimal.simps)
qed

text \<open>The description of an argument names its type, unless the argument has a name.\<close>

lemma describe_arg_name:
  assumes "describe_arg sig = Inr info" "se_name sig = Some name"
  shows "info ''type'' = Some (InfoName name)" "info ''name'' = None"
  using assms
  by (auto simp: describe_arg_def populate_type_info_def Let_def split: sum.splits option.splits if_splits)

end
