(* ===== verification/Generic_Types.thy ===== *)
theory Generic_Types
  imports Typed_Methods
begin

text \<open>
  Instantiating generic types (\<open>generic_type.c\<close>): recognising \<open>Optional[T]\<close>, validating the arguments,
  naming the new type, and the cache that makes equal instantiations the same type.
\<close>

section \<open>Definitions\<close>

text \<open>
  A generic argument: a type, the object \<open>None\<close>, or another object. Of the latter the code reads
  the attribute \<open>__args__\<close> (\<open>None\<close> when it is missing or not a tuple), whether it is a \<open>types.UnionType\<close>,
  and the attribute \<open>__origin__\<close> (\<open>None\<close> when missing): the name of its type and its attribute \<open>_name\<close>
  (\<open>None\<close> when missing or not a string).
\<close>

datatype 'ty type_arg =
    TypeArg 'ty
  | NoneArg
  | AliasArg "'ty type_arg list option" bool "(string \<times> string option) option"

fun is_type :: "'ty type_arg \<Rightarrow> bool" where
  "is_type (TypeArg _) \<longleftrightarrow> True"
| "is_type _ \<longleftrightarrow> False"

fun arg_type :: "'ty type_arg \<Rightarrow> 'ty option" where
  "arg_type (TypeArg t) = Some t"
| "arg_type _ = None"

text \<open>The parameter \<open>none_type\<close> is the type of \<open>None\<close>.\<close>

definition is_none_arg :: "'ty \<Rightarrow> 'ty type_arg \<Rightarrow> bool" where
  "is_none_arg none_type a \<longleftrightarrow> a = TypeArg none_type \<or> a = NoneArg"

definition is_union :: "bool \<Rightarrow> (string \<times> string option) option \<Rightarrow> bool" where
  "is_union union_type origin =
     (if union_type then True
      else case origin of
          None \<Rightarrow> False
        | Some (origin_type_name, name) \<Rightarrow> origin_type_name = ''_SpecialForm'' \<and> name = Some ''Union'')"

fun get_optional_type :: "'ty \<Rightarrow> 'ty type_arg \<Rightarrow> 'ty option" where
  "get_optional_type none_type (AliasArg (Some [one, two]) union_type origin) =
     (if is_union union_type origin then
        (if is_type one \<and> is_none_arg none_type two then arg_type one
         else if is_type two \<and> is_none_arg none_type one then arg_type two
         else None)
      else None)"
| "get_optional_type none_type _ = None"

text \<open>A generic type definition.\<close>

record generic_def =
  gtd_name :: string
  gtd_size :: nat

fun validate_args :: "'ty \<Rightarrow> 'ty type_arg list \<Rightarrow> unit res" where
  "validate_args none_type [] = Inr ()"
| "validate_args none_type (a # as) =
     (if \<not> is_type a \<and> get_optional_type none_type a = None
      then Inl (TypeError ''expected type or Optional[T] for generic argument'')
      else validate_args none_type as)"

definition gtd_validate_type :: "'ty \<Rightarrow> generic_def \<Rightarrow> 'ty type_arg list \<Rightarrow> unit res" where
  "gtd_validate_type none_type def args =
     (if length args \<noteq> gtd_size def
      then Inl (TypeError (gtd_name def @ '' expected '' @ decimal (gtd_size def) @ '' generic arguments, got '' @ decimal (length args)))
      else validate_args none_type args)"

subsection \<open>The name of an instance\<close>

text \<open>\<open>strchr(s, c)\<close>: the string from the first \<open>c\<close> on.\<close>

definition strchr :: "string \<Rightarrow> char \<Rightarrow> string option" where
  "strchr s c = (let t = dropWhile (\<lambda>d. d \<noteq> c) s in if t = [] then None else Some t)"

definition base_name :: "string \<Rightarrow> string" where
  "base_name orig_name = (case strchr orig_name (CHR ''.'') of None \<Rightarrow> orig_name | Some dot \<Rightarrow> tl dot)"

text \<open>The size of the buffer \<open>buf\<close>.\<close>

definition gti_name_len :: "('ty \<Rightarrow> string) \<Rightarrow> string \<Rightarrow> 'ty generic_param list \<Rightarrow> nat" where
  "gti_name_len name_of orig_name params =
     length orig_name +
     (\<Sum>p\<leftarrow>params. length (name_of (gtp_type p)) + (if gtp_optional p then length ''Optional[]'' else 0) + 2)"

definition gti_param_name :: "('ty \<Rightarrow> string) \<Rightarrow> 'ty generic_param \<Rightarrow> string" where
  "gti_param_name name_of p =
     (if gtp_optional p then ''Optional['' else '''') @ name_of (gtp_type p) @ (if gtp_optional p then '']'' else '''')"

fun gti_cat_params :: "('ty \<Rightarrow> string) \<Rightarrow> nat \<Rightarrow> string \<Rightarrow> 'ty generic_param list \<Rightarrow> string" where
  "gti_cat_params name_of i buf [] = buf"
| "gti_cat_params name_of i buf (p # ps) =
     gti_cat_params name_of (Suc i) (buf @ (if i \<noteq> 0 then '', '' else '''') @ gti_param_name name_of p) ps"

definition gti_calc_name :: "('ty \<Rightarrow> string) \<Rightarrow> generic_def \<Rightarrow> 'ty generic_param list \<Rightarrow> string res" where
  "gti_calc_name name_of def params =
     (let orig_name = base_name (gtd_name def) in
      case strchr orig_name (CHR ''['') of
        None \<Rightarrow> Inl AssertionFailure
      | Some start \<Rightarrow>
          (let buf = take (length orig_name - length start + 1) orig_name
           in Inr (gti_cat_params name_of 0 buf params @ '']'')))"

text \<open>The module of a type: its qualified name up to the last dot.\<close>

definition type_module_name :: "generic_def \<Rightarrow> string" where
  "type_module_name def =
     (if CHR ''.'' \<in> set (gtd_name def)
      then rev (tl (dropWhile (\<lambda>d. d \<noteq> CHR ''.'') (rev (gtd_name def)))) else ''builtins'')"

subsection \<open>Instances and their cache\<close>

record 'ty generic_inst =
  inst_id :: nat
  gti_gtd :: generic_def
  gti_inst :: "'ty generic_param list"
  gti_name :: string
  inst_module :: string

text \<open>
  Which of the calls that can fail succeed while a type is made: \<open>gtd_make_heap_type\<close>, the allocation
  of the type reference, \<open>PyType_Ready\<close>, and making the vtable.
\<close>

record inst_calls =
  heap_type_ok :: bool
  gtr_ok :: bool
  ready_ok :: bool
  vtable_ok :: bool

definition make_param :: "'ty \<Rightarrow> 'ty type_arg \<Rightarrow> 'ty generic_param" where
  "make_param none_type a =
     (case get_optional_type none_type a of
        None \<Rightarrow> \<lparr>gtp_type = the (arg_type a), gtp_optional = False\<rparr>
      | Some t \<Rightarrow> \<lparr>gtp_type = t, gtp_optional = True\<rparr>)"

text \<open>\<open>next\<close> is the identity the new type object gets.\<close>

definition gtd_new_inst ::
  "('ty \<Rightarrow> string) \<Rightarrow> 'ty \<Rightarrow> inst_calls \<Rightarrow> generic_def \<Rightarrow> 'ty type_arg list \<Rightarrow> nat \<Rightarrow> 'ty generic_inst res" where
  "gtd_new_inst name_of none_type calls def args next =
     (if \<not> heap_type_ok calls then Inl NullDereference
      else if \<not> gtr_ok calls then Inl Propagated
      else
        (let params = map (make_param none_type) args in
         case gti_calc_name name_of def params of
           Inl e \<Rightarrow> Inl e
         | Inr name \<Rightarrow>
             if \<not> ready_ok calls \<or> \<not> vtable_ok calls then Inl Propagated
             else Inr \<lparr>inst_id = next, gti_gtd = def, gti_inst = params, gti_name = name, inst_module = ''''\<rparr>))"

text \<open>
  The interpreter-wide cache, keyed by the tuple of the type and its arguments, and the supply of
  identities. A key compares equal exactly to itself. \<open>getitem\<close> is \<open>PyObject_GetItem\<close> on a type that
  is no generic type definition, and \<open>store_ok\<close> whether \<open>PyDict_SetItem\<close> on the cache succeeds.
\<close>

datatype subscripted = GenericDef generic_def | OrdinaryType nat | NotAType

datatype ('ty, 'o) inst_value = GenericInst "'ty generic_inst" | ItemOf 'o

type_synonym 'ty inst_key = "subscripted \<times> 'ty type_arg list"

record ('ty, 'o) inst_state =
  inst_cache :: "'ty inst_key \<rightharpoonup> ('ty, 'o) inst_value"
  next_id :: nat

record ('ty, 'o) inst_env =
  type_name :: "'ty \<Rightarrow> string"
  none_class :: 'ty
  inst_calls_ok :: inst_calls
  getitem :: "nat \<Rightarrow> 'ty type_arg list \<Rightarrow> 'o res"
  store_ok :: bool

text \<open>Making the instance that the cache lacks.\<close>

definition make_inst ::
  "('ty, 'o) inst_env \<Rightarrow> subscripted \<Rightarrow> 'ty type_arg list \<Rightarrow> nat \<Rightarrow> ('ty, 'o) inst_value res" where
  "make_inst env type args next =
     (case type of
        NotAType \<Rightarrow> Inl (TypeError ''expected type'')
      | GenericDef def \<Rightarrow>
          (case gtd_validate_type (none_class env) def args of
             Inl e \<Rightarrow> Inl e
           | Inr _ \<Rightarrow>
               (case gtd_new_inst (type_name env) (none_class env) (inst_calls_ok env) def args next of
                  Inl e \<Rightarrow> Inl e | Inr inst \<Rightarrow> Inr (GenericInst inst)))
      | OrdinaryType t \<Rightarrow> (case getitem env t args of Inl e \<Rightarrow> Inl e | Inr x \<Rightarrow> Inr (ItemOf x)))"

definition get_generic_inst ::
  "('ty, 'o) inst_env \<Rightarrow> subscripted \<Rightarrow> 'ty type_arg list \<Rightarrow> ('ty, 'o) inst_state \<Rightarrow>
     ('ty, 'o) inst_value res \<times> ('ty, 'o) inst_state" where
  "get_generic_inst env type args st =
     (let key = (type, args) in
      case inst_cache st key of
        Some inst \<Rightarrow> (Inr inst, st)
      | None \<Rightarrow>
          (case make_inst env type args (next_id st) of
             Inl e \<Rightarrow> (Inl e, st)
           | Inr res \<Rightarrow>
               (let st = st\<lparr>next_id := next_id st + 1\<rparr> in
                if store_ok env then (Inr res, st\<lparr>inst_cache := (inst_cache st)(key \<mapsto> res)\<rparr>)
                else (Inl Propagated, st))))"

text \<open>
  \<open>__class_getitem__\<close>: the argument tuple holds one object, a tuple of generic arguments or a single
  one. The module is set on the type object that the cache holds.
\<close>

datatype 'ty getitem_arg = TupleArg "'ty type_arg list" | SingleArg "'ty type_arg"

fun getitem_args :: "'ty getitem_arg \<Rightarrow> 'ty type_arg list" where
  "getitem_args (TupleArg as) = as"
| "getitem_args (SingleArg a) = [a]"

fun with_module :: "string \<Rightarrow> ('ty, 'o) inst_value \<Rightarrow> ('ty, 'o) inst_value" where
  "with_module m (GenericInst inst) = GenericInst (inst\<lparr>inst_module := m\<rparr>)"
| "with_module m (ItemOf x) = ItemOf x"

definition set_module ::
  "string \<Rightarrow> 'ty inst_key \<Rightarrow> ('ty, 'o) inst_value \<Rightarrow> ('ty, 'o) inst_state \<Rightarrow>
     ('ty, 'o) inst_value \<times> ('ty, 'o) inst_state" where
  "set_module m key inst st =
     (with_module m inst, st\<lparr>inst_cache := (inst_cache st)(key \<mapsto> with_module m inst)\<rparr>)"

definition gtd_get_item ::
  "('ty, 'o) inst_env \<Rightarrow> generic_def \<Rightarrow> 'ty getitem_arg list \<Rightarrow> ('ty, 'o) inst_state \<Rightarrow>
     ('ty, 'o) inst_value res \<times> ('ty, 'o) inst_state" where
  "gtd_get_item env def args st =
     (case args of
        [a] \<Rightarrow>
          (case get_generic_inst env (GenericDef def) (getitem_args a) st of
             (Inl e, st) \<Rightarrow> (Inl e, st)
           | (Inr res, st) \<Rightarrow>
               (case set_module (type_module_name def) (GenericDef def, getitem_args a) res st of
                  (res, st) \<Rightarrow> (Inr res, st)))
      | _ \<Rightarrow> (Inl (TypeError ''expected exactly one argument''), st))"

text \<open>\<open>CheckedList[...]\<close> and \<open>CheckedDict[...]\<close>: the module becomes \<open>__static__\<close>.\<close>

definition chklist_cls_getitem ::
  "('ty, 'o) inst_env \<Rightarrow> generic_def \<Rightarrow> 'ty getitem_arg list \<Rightarrow> ('ty, 'o) inst_state \<Rightarrow>
     ('ty, 'o) inst_value res \<times> ('ty, 'o) inst_state" where
  "chklist_cls_getitem env def args st =
     (case gtd_get_item env def args st of
        (Inl e, st) \<Rightarrow> (Inl e, st)
      | (Inr item, st) \<Rightarrow>
          (case set_module ''__static__'' (GenericDef def, getitem_args (hd args)) item st of
             (item, st) \<Rightarrow> (Inr item, st)))"

section \<open>Names fit their buffer\<close>

lemma strchr_parts: "strchr s c = Some t \<Longrightarrow> \<exists>pre. s = pre @ t \<and> t \<noteq> []"
  by (auto simp: strchr_def Let_def split: if_splits) (metis takeWhile_dropWhile_id)

lemma length_gti_param_name:
  "length (gti_param_name name_of p) = length (name_of (gtp_type p)) + (if gtp_optional p then length ''Optional[]'' else 0)"
  by (simp add: gti_param_name_def)

lemma length_gti_cat_params:
  "length (gti_cat_params name_of i buf ps) =
     length buf + (\<Sum>p\<leftarrow>ps. length (gti_param_name name_of p) + 2) - (if i = 0 \<and> ps \<noteq> [] then 2 else 0)"
  by (induction ps arbitrary: i buf) (auto simp: neq_Nil_conv)

text \<open>The name and its terminating null fit into the buffer.\<close>

lemma gti_calc_name_fits:
  assumes "params \<noteq> []" "gti_calc_name name_of def params = Inr name"
  shows "length name + 1 \<le> gti_name_len name_of (base_name (gtd_name def)) params"
proof -
  define orig where "orig = base_name (gtd_name def)"
  obtain start where s: "strchr orig (CHR ''['') = Some start"
    and name: "name = gti_cat_params name_of 0 (take (length orig - length start + 1) orig) params @ '']''"
    using assms(2) by (auto simp: gti_calc_name_def orig_def Let_def split: option.splits)
  obtain pre where pre: "orig = pre @ start" "start \<noteq> []" using strchr_parts [OF s] by blast
  then have "length (take (length orig - length start + 1) orig) \<le> length orig" by simp
  moreover have "2 \<le> (\<Sum>p\<leftarrow>params. length (gti_param_name name_of p) + 2)"
    using assms(1) by (cases params) auto
  ultimately show ?thesis
    using assms(1) unfolding gti_name_len_def orig_def [symmetric] name
    by (simp add: length_gti_cat_params length_gti_param_name)
qed

section \<open>Instances\<close>

lemma validate_args_iff:
  "validate_args none_type args = Inr () \<longleftrightarrow> (\<forall>a\<in>set args. is_type a \<or> get_optional_type none_type a \<noteq> None)"
  by (induction args) auto

text \<open>What an instance says of its arguments: each is a type, or \<open>Optional[T]\<close>.\<close>

definition param_of :: "'ty \<Rightarrow> 'ty type_arg \<Rightarrow> 'ty generic_param \<Rightarrow> bool" where
  "param_of none_type a p \<longleftrightarrow>
     (if gtp_optional p then get_optional_type none_type a = Some (gtp_type p) else a = TypeArg (gtp_type p))"

lemma get_optional_type_of_type [simp]: "get_optional_type none_type (TypeArg t) = None"
  by simp

lemma make_param_of:
  "is_type a \<or> get_optional_type none_type a \<noteq> None \<Longrightarrow> param_of none_type a (make_param none_type a)"
  by (cases a) (auto simp: make_param_def param_of_def split: option.splits)

text \<open>The invariant of the cache: identities are fresh and distinct, and instances match their keys.\<close>

definition inst_matches :: "('ty, 'o) inst_env \<Rightarrow> 'ty inst_key \<Rightarrow> ('ty, 'o) inst_value \<Rightarrow> bool" where
  "inst_matches env key v \<longleftrightarrow>
     (case fst key of
        GenericDef def \<Rightarrow>
          (\<exists>inst. v = GenericInst inst \<and> gti_gtd inst = def \<and> length (gti_inst inst) = gtd_size def \<and>
             list_all2 (param_of (none_class env)) (snd key) (gti_inst inst))
      | OrdinaryType _ \<Rightarrow> \<exists>x. v = ItemOf x
      | NotAType \<Rightarrow> False)"

definition cache_inv :: "('ty, 'o) inst_env \<Rightarrow> ('ty, 'o) inst_state \<Rightarrow> bool" where
  "cache_inv env st \<longleftrightarrow>
     (\<forall>key v. inst_cache st key = Some v \<longrightarrow> inst_matches env key v) \<and>
     (\<forall>key inst. inst_cache st key = Some (GenericInst inst) \<longrightarrow> inst_id inst < next_id st) \<and>
     (\<forall>key key' inst inst'. inst_cache st key = Some (GenericInst inst) \<longrightarrow> inst_cache st key' = Some (GenericInst inst') \<longrightarrow>
        inst_id inst = inst_id inst' \<longrightarrow> key = key')"

lemma cache_invI:
  assumes "\<And>key v. inst_cache st key = Some v \<Longrightarrow> inst_matches env key v"
    and "\<And>key inst. inst_cache st key = Some (GenericInst inst) \<Longrightarrow> inst_id inst < next_id st"
    and "\<And>key key' inst inst'. inst_cache st key = Some (GenericInst inst) \<Longrightarrow>
      inst_cache st key' = Some (GenericInst inst') \<Longrightarrow> inst_id inst = inst_id inst' \<Longrightarrow> key = key'"
  shows "cache_inv env st"
  unfolding cache_inv_def using assms by blast

lemma cache_invD:
  assumes "cache_inv env st"
  shows "inst_cache st key = Some v \<Longrightarrow> inst_matches env key v"
    and "inst_cache st key = Some (GenericInst inst) \<Longrightarrow> inst_id inst < next_id st"
    and "inst_cache st key = Some (GenericInst inst) \<Longrightarrow> inst_cache st key' = Some (GenericInst inst') \<Longrightarrow>
      inst_id inst = inst_id inst' \<Longrightarrow> key = key'"
  using assms unfolding cache_inv_def by blast+

lemma list_all2_make_param:
  "validate_args nt args = Inr () \<Longrightarrow> list_all2 (param_of nt) args (map (make_param nt) args)"
  by (simp add: validate_args_iff make_param_of list_all2_map2 list.rel_refl_strong)

lemma make_inst_matches:
  assumes "make_inst env type args n = Inr v"
  shows "inst_matches env (type, args) v" and "v = GenericInst inst \<Longrightarrow> inst_id inst = n"
  using assms list_all2_make_param [of "none_class env" args]
  by (auto simp: make_inst_def inst_matches_def gtd_new_inst_def gtd_validate_type_def Let_def
      split: subscripted.splits sum.splits if_splits)

lemma get_generic_inst_cases:
  assumes "get_generic_inst env type args st = (r, st')"
  obtains (hit) v where "inst_cache st (type, args) = Some v" "r = Inr v" "st' = st"
    | (fail) e where "inst_cache st (type, args) = None" "r = Inl e" "inst_cache st' = inst_cache st" "next_id st \<le> next_id st'"
    | (made) v where "inst_cache st (type, args) = None" "make_inst env type args (next_id st) = Inr v" "r = Inr v"
        "inst_cache st' = (inst_cache st)((type, args) \<mapsto> v)" "next_id st' = next_id st + 1"
  using assms unfolding get_generic_inst_def Let_def
  by (cases "inst_cache st (type, args)"; cases "make_inst env type args (next_id st)"; cases "store_ok env") (auto dest: sym)

lemma cache_inv_new:
  assumes inv: "cache_inv env st" and key: "inst_cache st key = None"
    and v: "inst_matches env key v" "\<And>inst. v = GenericInst inst \<Longrightarrow> inst_id inst = next_id st"
    and st': "inst_cache st' = (inst_cache st)(key \<mapsto> v)" "next_id st' = next_id st + 1"
  shows "cache_inv env st'"
proof (rule cache_invI)
  fix k w assume "inst_cache st' k = Some w"
  with v(1) cache_invD(1) [OF inv, of k w] show "inst_matches env k w" by (simp add: st' split: if_splits)
next
  fix k inst assume "inst_cache st' k = Some (GenericInst inst)"
  with v(2) [of inst] cache_invD(2) [OF inv, of k inst] show "inst_id inst < next_id st'" by (simp add: st' split: if_splits)
next
  fix k k' inst inst'
  assume a: "inst_cache st' k = Some (GenericInst inst)" "inst_cache st' k' = Some (GenericInst inst')" "inst_id inst = inst_id inst'"
  have entry: "if l = key then inst_id i = next_id st else inst_cache st l = Some (GenericInst i) \<and> inst_id i < next_id st"
    if "inst_cache st' l = Some (GenericInst i)" for l i
    using that v(2) [of i] cache_invD(2) [OF inv, of l i] by (auto simp: st' split: if_splits)
  show "k = k'"
  proof (cases "k = key \<or> k' = key")
    case True
    then show ?thesis using entry [OF a(1)] entry [OF a(2)] a(3) by (auto split: if_splits)
  next
    case False
    then show ?thesis using entry [OF a(1)] entry [OF a(2)] by (intro cache_invD(3) [OF inv _ _ a(3)]) simp_all
  qed
qed

lemma get_generic_inst_inv:
  assumes inv: "cache_inv env st" and r: "get_generic_inst env type args st = (r, st')"
  shows "cache_inv env st'"
  using r
proof (cases rule: get_generic_inst_cases)
  case fail
  show ?thesis
    by (rule cache_invI) (use cache_invD [OF inv] fail(3,4) order.strict_trans2 in \<open>metis\<close>)+
next
  case made
  show ?thesis
    by (rule cache_inv_new [OF inv made(1) _ _ made(4,5)]) (use make_inst_matches [OF made(2)] in blast)+
qed (use inv in simp)

lemma get_generic_inst_result:
  assumes inv: "cache_inv env st" and r: "get_generic_inst env type args st = (Inr v, st')"
  shows "inst_matches env (type, args) v \<and> inst_cache st' (type, args) = Some v"
  using r
proof (cases rule: get_generic_inst_cases)
  case hit
  then show ?thesis using cache_invD(1) [OF inv] by simp
next
  case made
  then show ?thesis using make_inst_matches(1) [OF made(2)] by simp
qed simp

text \<open>Asking again for a cached instance gives the same type object.\<close>

lemma get_generic_inst_again:
  assumes "get_generic_inst env type args st = (Inr v, st')"
  shows "get_generic_inst env' type args st' = (Inr v, st')"
  using assms by (cases rule: get_generic_inst_cases) (simp_all add: get_generic_inst_def)

lemma with_module_id: "with_module m v = GenericInst inst' \<Longrightarrow> \<exists>inst. v = GenericInst inst \<and> inst_id inst = inst_id inst'"
  by (cases v) auto

lemma with_module_matches: "inst_matches env key v \<Longrightarrow> inst_matches env key (with_module m v)"
  by (cases v) (auto simp: inst_matches_def split: subscripted.splits)

lemma set_module_inv:
  assumes inv: "cache_inv env st" and v: "inst_cache st key = Some v"
    and r: "set_module m key v st = (v', st')"
  shows "cache_inv env st'"
proof (rule cache_invI)
  have st': "inst_cache st' = (inst_cache st)(key \<mapsto> with_module m v)" "next_id st' = next_id st"
    using r by (auto simp: set_module_def)
  have old: "\<exists>i. inst_cache st k = Some (GenericInst i) \<and> inst_id i = inst_id inst"
    if "inst_cache st' k = Some (GenericInst inst)" for k inst
    using that v with_module_id [of m v inst] by (auto simp: st' split: if_splits)
  show "inst_matches env k w" if "inst_cache st' k = Some w" for k w
    using that with_module_matches [OF cache_invD(1) [OF inv v], of m] cache_invD(1) [OF inv, of k w]
    by (cases "k = key") (auto simp: st')
  show "inst_id inst < next_id st'" if "inst_cache st' k = Some (GenericInst inst)" for k inst
    using old [OF that] cache_invD(2) [OF inv, of k] by (auto simp: st')
  show "k = k'" if "inst_cache st' k = Some (GenericInst inst)" "inst_cache st' k' = Some (GenericInst inst')"
    "inst_id inst = inst_id inst'" for k k' inst inst'
    using old [OF that(1)] old [OF that(2)] that(3) cache_invD(3) [OF inv, of k _ k'] by auto
qed

end
