(* ===== verification/Checked_List.thy ===== *)
theory Checked_List
  imports List_Methods Generic_Types
begin

text \<open>
  \<open>CheckedList[T]\<close> itself: the part of \<open>checked_list.c\<close> that is not a copy of \<open>listobject.c\<close>. The free
  list of list objects, the operations that check the type of what they store, and the argument
  handling of the methods. \<open>params\<close> is \<open>gti_inst\<close> of the list's type (one parameter, at index 0).
\<close>

section \<open>Definitions\<close>

subsection \<open>The free list\<close>

abbreviation (input) ChkList_MAXFREELIST :: nat where
  "ChkList_MAXFREELIST \<equiv> 80"

record list_state =
  free_list :: "nat list"
  numfree :: nat

text \<open>
  The list objects by address, with their type (\<open>None\<close> for a plain \<open>list\<close>), and the state of the free
  list. Objects on the free list and objects given back to the allocator are not \<open>live\<close>.
  \<open>interp_id\<close> is the identity of the running interpreter; only interpreter 0 has a state.
\<close>

record ('o, 'ty) list_mem =
  live :: "nat \<rightharpoonup> 'ty generic_param list option \<times> 'o PyListObject"
  the_list_state :: list_state
  interp_id :: nat

definition get_list_state :: "('o, 'ty) list_mem \<Rightarrow> list_state option" where
  "get_list_state m = (if interp_id m = 0 then Some (the_list_state m) else None)"

definition checked_list_clear_caches :: "('o, 'ty) list_mem \<Rightarrow> ('o, 'ty) list_mem" where
  "checked_list_clear_caches m =
     (case get_list_state m of
        None \<Rightarrow> m
      | Some state \<Rightarrow> m\<lparr>the_list_state := state\<lparr>numfree := 0\<rparr>\<rparr>)"

text \<open>The items are released first; \<open>state\<close> is read without a test for null.\<close>

definition list_dealloc :: "nat \<Rightarrow> ('o, 'ty) list_mem \<Rightarrow> unit res \<times> ('o, 'ty) list_mem" where
  "list_dealloc a m =
     (case get_list_state m of
        None \<Rightarrow> (Inl NullDereference, m)
      | Some state \<Rightarrow>
          (let m = m\<lparr>live := (live m)(a := None)\<rparr> in
           if numfree state < ChkList_MAXFREELIST
           then (Inr (), m\<lparr>the_list_state :=
                   state\<lparr>free_list := (free_list state)[numfree state := a], numfree := numfree state + 1\<rparr>\<rparr>)
           else (Inr (), m)))"

definition chklist_dealloc :: "nat \<Rightarrow> ('o, 'ty) list_mem \<Rightarrow> unit res \<times> ('o, 'ty) list_mem" where
  "chklist_dealloc a m =
     (let m = m\<lparr>live := (live m)(a := map_option (\<lambda>(t, l). (None, l)) (live m a))\<rparr> in list_dealloc a m)"

text \<open>\<open>new\<close> is the object \<open>PyObject_GC_New\<close> returns, if it succeeds.\<close>

definition chklist_alloc ::
  "nat option \<Rightarrow> 'ty generic_param list \<Rightarrow> ('o, 'ty) list_mem \<Rightarrow> nat res \<times> ('o, 'ty) list_mem" where
  "chklist_alloc new type m =
     (case get_list_state m of
        None \<Rightarrow> (Inl NullDereference, m)
      | Some state \<Rightarrow>
          if numfree state \<noteq> 0 then
            (let op = free_list state ! (numfree state - 1);
                 m = m\<lparr>the_list_state := state\<lparr>numfree := numfree state - 1\<rparr>\<rparr>
             in (Inr op, m\<lparr>live := (live m)(op \<mapsto> (Some type, empty_list))\<rparr>))
          else
            (case new of
               None \<Rightarrow> (Inl MemoryError, m)
             | Some op \<Rightarrow> (Inr op, m\<lparr>live := (live m)(op \<mapsto> (Some type, empty_list))\<rparr>)))"

definition checked_list_new ::
  "(nat \<Rightarrow> bool) \<Rightarrow> nat option \<Rightarrow> 'ty generic_param list \<Rightarrow> int \<Rightarrow> ('o, 'ty) list_mem \<Rightarrow> nat res \<times> ('o, 'ty) list_mem" where
  "checked_list_new mem new type sz m =
     (case chklist_alloc new type m of
        (Inl e, m) \<Rightarrow> (Inl e, m)
      | (Inr op, m) \<Rightarrow>
          if sz = 0 then (Inr op, m)
          else
            (case pymem_new mem sz of
               None \<Rightarrow> (case chklist_dealloc op m of (Inl e, m) \<Rightarrow> (Inl e, m) | (Inr _, m) \<Rightarrow> (Inl MemoryError, m))
             | Some xs \<Rightarrow>
                 (Inr op, m\<lparr>live := (live m)(op \<mapsto> (Some type, \<lparr>ob_item = Some xs, ob_size = sz, allocated = sz\<rparr>))\<rparr>)))"

text \<open>\<open>self\<close> is the list at an address, with its type.\<close>

definition chklist_slice ::
  "(nat \<Rightarrow> bool) \<Rightarrow> nat option \<Rightarrow> 'ty generic_param list \<Rightarrow> 'o PyListObject \<Rightarrow> int \<Rightarrow> int \<Rightarrow> ('o, 'ty) list_mem \<Rightarrow>
     nat res \<times> ('o, 'ty) list_mem" where
  "chklist_slice mem new type self ilow ihigh m =
     (let len = ihigh - ilow in
      case checked_list_new mem new type len m of
        (Inl e, m) \<Rightarrow> (Inl e, m)
      | (Inr op, m) \<Rightarrow>
          (let np = snd (the (live m op));
               np = (if len > 0
                     then np\<lparr>ob_item := Some (blit (cells np) 0 (cells self) (nat ilow) (nat len))\<rparr> else np)
           in (Inr op, m\<lparr>live := (live m)(op \<mapsto> (Some type, np))\<rparr>)))"

definition chklist_copy ::
  "(nat \<Rightarrow> bool) \<Rightarrow> nat option \<Rightarrow> 'ty generic_param list \<Rightarrow> 'o PyListObject \<Rightarrow> ('o, 'ty) list_mem \<Rightarrow>
     nat res \<times> ('o, 'ty) list_mem" where
  "chklist_copy mem new type self m = chklist_slice mem new type self 0 (ob_size self) m"

subsection \<open>Checked operations\<close>

text \<open>\<open>PyArg_CheckPositional\<close>\<close>

definition check_positional :: "string \<Rightarrow> nat \<Rightarrow> nat \<Rightarrow> nat \<Rightarrow> unit res" where
  "check_positional name nargs lo hi =
     (if nargs < lo \<or> nargs > hi then Inl (TypeError (name @ '' got a wrong number of arguments'')) else Inr ())"

definition chklist_append :: "(nat \<Rightarrow> bool) \<Rightarrow> 'o PyListObject \<Rightarrow> 'o \<Rightarrow> unit res \<times> 'o PyListObject" where
  "chklist_append mem self v =
     (let n = ob_size self in
      if n = PY_SSIZE_T_MAX then (Inl (OverflowError ''cannot add more objects to list''), self)
      else case list_resize mem self (n + 1) of
          (Inl e, self) \<Rightarrow> (Inl e, self)
        | (Inr _, self) \<Rightarrow> (Inr (), set_item self n v))"

definition chklist_append_wrapper ::
  "(nat \<Rightarrow> bool) \<Rightarrow> ('o, 'ty) obj_env \<Rightarrow> 'ty generic_param list \<Rightarrow> 'o PyListObject \<Rightarrow> 'o \<Rightarrow> unit res \<times> 'o PyListObject" where
  "chklist_append_wrapper mem env params self v =
     (case check_one_arg env params v ''append'' 0 Ci_Py_Sig_T0 of
        Inl e \<Rightarrow> (Inl e, self)
      | Inr _ \<Rightarrow> chklist_append mem self v)"

text \<open>\<open>index_of\<close> is \<open>PyNumber_Index\<close> followed by \<open>PyLong_AsSsize_t\<close>.\<close>

definition list_insert_wrapper ::
  "(nat \<Rightarrow> bool) \<Rightarrow> ('o, 'ty) obj_env \<Rightarrow> 'ty generic_param list \<Rightarrow> ('o \<Rightarrow> int res) \<Rightarrow> 'o PyListObject \<Rightarrow> 'o list \<Rightarrow>
     unit res \<times> 'o PyListObject" where
  "list_insert_wrapper mem env params index_of self args =
     (case check_positional ''insert'' (length args) 2 2 of
        Inl e \<Rightarrow> (Inl e, self)
      | Inr _ \<Rightarrow>
          (case index_of (args ! 0) of
             Inl e \<Rightarrow> (Inl e, self)
           | Inr index \<Rightarrow>
               (case check_one_arg env params (args ! 1) ''insert'' 1 Ci_Py_Sig_T0 of
                  Inl e \<Rightarrow> (Inl e, self)
                | Inr _ \<Rightarrow> ins1 mem self index (Some (args ! 1)))))"

definition chklist_checkitem :: "('o, 'ty) obj_env \<Rightarrow> 'ty generic_param list \<Rightarrow> 'o \<Rightarrow> bool" where
  "chklist_checkitem env params v = check_param_type env params v 0"

text \<open>
  \<open>same_type\<close> is \<open>iterable_is_same_type\<close>: then the items are not checked. The loop over an iterator is
  that of \<open>list_extend\<close>, with the check of every item.
\<close>

definition chklist_extend ::
  "(nat \<Rightarrow> bool) \<Rightarrow> ('o, 'ty) obj_env \<Rightarrow> 'ty generic_param list \<Rightarrow> bool \<Rightarrow> ('o, 's) iterable \<Rightarrow> ('o, 's) lstate \<Rightarrow>
     (unit res \<times> ('o, 's) lstate) option" where
  "chklist_extend mem env params same_type iterable st =
     (let (self, s) = st; m = ob_size self in
      case iterable of
        FastSequence (Inl e) \<Rightarrow> Some (Inl e, st)
      | FastSequence (Inr vs) \<Rightarrow>
          (let n = int (length vs) in
           if n = 0 then Some (Inr (), st)
           else if \<not> same_type \<and> \<not> list_all (chklist_checkitem env params) vs
           then Some (Inl (TypeError ''bad value''), st)
           else
             (case list_resize mem self (m + n) of
                (Inl e, self) \<Rightarrow> Some (Inl e, (self, s))
              | (Inr _, self) \<Rightarrow> Some (Inr (), (append_items self m vs, s))))
      | Iterator None iternext \<Rightarrow> Some (Inl Propagated, st)
      | Iterator (Some n) iternext \<Rightarrow>
          (let (r, self) =
             (if m > PY_SSIZE_T_MAX - n then (Inr (), self)
              else
                (case list_resize mem self (m + n) of
                   (Inl e, self) \<Rightarrow> (Inl e, self)
                 | (Inr _, self) \<Rightarrow> (Inr (), self\<lparr>ob_size := m\<rparr>)))
           in case r of
                Inl e \<Rightarrow> Some (Inl e, (self, s))
              | Inr _ \<Rightarrow> map_option (extend_cut mem) (extend_loop mem (chklist_checkitem env params) iternext (self, s))))"

definition chklist_extend_wrapper ::
  "(nat \<Rightarrow> bool) \<Rightarrow> ('o, 'ty) obj_env \<Rightarrow> 'ty generic_param list \<Rightarrow> bool \<Rightarrow> ('o, 's) iterable \<Rightarrow> ('o, 's) lstate \<Rightarrow>
     (unit res \<times> ('o, 's) lstate) option" where
  "chklist_extend_wrapper mem env params same_type iterable st = chklist_extend mem env params same_type iterable st"

text \<open>\<open>PyLong_AsLong\<close> raises when the value does not fit.\<close>

definition chklist_pop ::
  "(nat \<Rightarrow> bool) \<Rightarrow> ('o, 'ty) obj_env \<Rightarrow> 'o PyListObject \<Rightarrow> 'o list \<Rightarrow> 'o res \<times> 'o PyListObject" where
  "chklist_pop mem env self args =
     (case check_positional ''pop'' (length args) 0 1 of
        Inl e \<Rightarrow> (Inl e, self)
      | Inr _ \<Rightarrow>
          (case args of
             [] \<Rightarrow> list_pop_impl mem self (-1)
           | a # _ \<Rightarrow>
               (case long_object env a of
                  Some i \<Rightarrow>
                    if - (2 ^ 63) \<le> i \<and> i < 2 ^ 63 then list_pop_impl mem self i
                    else (Inl (OverflowError ''Python int too large to convert to C long''), self)
                | None \<Rightarrow>
                    if a = py_none env then list_pop_impl mem self (-1)
                    else (Inl (TypeError ''pop: expected int or None''), self))))"

text \<open>
  \<open>same_type\<close> tells whether the value has the type of the list; a null \<open>value\<close>, which \<open>del\<close> passes, is
  dereferenced by both checks.
\<close>

definition chklist_ass_subscript ::
  "(nat \<Rightarrow> bool) \<Rightarrow> ('o, 'ty) obj_env \<Rightarrow> 'ty generic_param list \<Rightarrow> 'o PyListObject \<Rightarrow> subscript \<Rightarrow>
     ('o assigned \<times> bool) option \<Rightarrow> unit res \<times> 'o PyListObject" where
  "chklist_ass_subscript mem env params self item v =
     (case v of
        None \<Rightarrow> (Inl NullDereference, self)
      | Some (v, same_type) \<Rightarrow>
          (case item of
             SliceKey _ \<Rightarrow>
               if \<not> same_type then (Inl (TypeError ''Incompatible slice type''), self)
               else list_ass_subscript mem self item (Some v)
           | _ \<Rightarrow>
               if \<not> chklist_checkitem env params (as_item v) then (Inl (TypeError ''bad value''), self)
               else list_ass_subscript mem self item (Some v)))"

definition checked_list_get_item :: "'o PyListObject \<Rightarrow> int \<Rightarrow> 'o res" where
  "checked_list_get_item op i = list_item op i"

text \<open>
  \<open>CheckedList[T](iterable)\<close>. \<open>size_call\<close> is \<open>None\<close> when the iterable has no length, otherwise the call of
  \<open>PyObject_Size\<close>: the length, \<open>Inr None\<close> when it raises \<open>TypeError\<close>, or another exception.
\<close>

type_synonym ('o, 's) len_call = "('o, 's) lstate \<Rightarrow> (unit + int option) \<times> ('o, 's) lstate"

definition chklist_init ::
  "(nat \<Rightarrow> bool) \<Rightarrow> ('o, 'ty) obj_env \<Rightarrow> 'ty generic_param list \<Rightarrow> bool \<Rightarrow>
     (('o, 's) iterable \<times> bool \<times> ('o, 's) len_call option) list \<Rightarrow> ('o, 's) lstate \<Rightarrow>
     (unit res \<times> ('o, 's) lstate) option" where
  "chklist_init mem env params has_kwds args st =
     (if has_kwds then Some (Inl (TypeError ''chklist() takes no keyword arguments''), st)
      else case check_positional ''chklist'' (length args) 0 1 of
          Inl e \<Rightarrow> Some (Inl e, st)
        | Inr _ \<Rightarrow>
            (let st = (list_clear_items (fst st), snd st) in
             case args of
               [] \<Rightarrow> Some (Inr (), st)
             | (iterable, same_type, size_call) # _ \<Rightarrow>
                 (let (r, st) =
                    (case size_call of
                       None \<Rightarrow> (Inr (), st)
                     | Some call \<Rightarrow>
                         (case call st of
                            (Inl _, st) \<Rightarrow> (Inl Propagated, st)
                          | (Inr None, st) \<Rightarrow> (Inr (), st)
                          | (Inr (Some iter_len), (self, s)) \<Rightarrow>
                              if iter_len > 0 \<and> ob_item self = None
                              then (case list_preallocate_exact mem self iter_len of (r, self) \<Rightarrow> (r, (self, s)))
                              else (Inr (), (self, s))))
                  in case r of
                       Inl e \<Rightarrow> Some (Inl e, st)
                     | Inr _ \<Rightarrow> chklist_extend mem env params same_type iterable st)))"

definition list_or_checked_list_append ::
  "(nat \<Rightarrow> bool) \<Rightarrow> 'o PyListObject \<Rightarrow> 'o \<Rightarrow> unit res \<times> 'o PyListObject" where
  "list_or_checked_list_append mem self v =
     (let n = ob_size self in
      case list_resize mem self (n + 1) of
        (Inl e, self) \<Rightarrow> (Inl e, self)
      | (Inr _, self) \<Rightarrow> (Inr (), set_item self n v))"

subsection \<open>Argument handling of inherited methods\<close>

text \<open>\<open>slice_index\<close> is \<open>PyEval_SliceIndexNotNone\<close>.\<close>

definition list_index ::
  "('o, 's) leq \<Rightarrow> ('o \<Rightarrow> int res) \<Rightarrow> 'o list \<Rightarrow> ('o, 's) lstate \<Rightarrow> (int res \<times> ('o, 's) lstate) option" where
  "list_index eq slice_index args st =
     (case check_positional ''index'' (length args) 1 3 of
        Inl e \<Rightarrow> Some (Inl e, st)
      | Inr _ \<Rightarrow>
          if length args < 2 then list_index_impl eq (args ! 0) 0 PY_SSIZE_T_MAX st
          else case slice_index (args ! 1) of
              Inl e \<Rightarrow> Some (Inl e, st)
            | Inr start \<Rightarrow>
                if length args < 3 then list_index_impl eq (args ! 0) start PY_SSIZE_T_MAX st
                else case slice_index (args ! 2) of
                    Inl e \<Rightarrow> Some (Inl e, st)
                  | Inr stop \<Rightarrow> list_index_impl eq (args ! 0) start stop st)"

end
