(* ===== verification/Sort_Spec.thy ===== *)
theory Sort_Spec
  imports Cinderx_Prelude
begin

text \<open>
  What \<open>list.sort\<close> promises, independent of how it is computed: the order a sort can rely on
  (\<open>strict_weak_order\<close>, the laws of a consistent \<open><\<close>), the reference stable merge of two runs,
  and the relation \<open>stable_sorted\<close> between a list and its stably sorted rearrangement, with
  the facts that make it a specification: it fixes the result, merging sorted halves
  establishes it, and sorting the reversed list and reversing back establishes it for the
  converse order.
\<close>

section \<open>The reference merge and the sorted rearrangement\<close>

fun smerge :: "('a \<Rightarrow> 'a \<Rightarrow> bool) \<Rightarrow> 'a list \<Rightarrow> 'a list \<Rightarrow> 'a list" where
  "smerge lt [] ys = ys"
| "smerge lt xs [] = xs"
| "smerge lt (x # xs) (y # ys) =
     (if lt y x then y # smerge lt (x # xs) ys else x # smerge lt xs (y # ys))"

definition sorted_by :: "('a \<Rightarrow> 'a \<Rightarrow> bool) \<Rightarrow> 'a list \<Rightarrow> bool" where
  "sorted_by lt xs = sorted_wrt (\<lambda>x y. \<not> lt y x) xs"

definition tied :: "('a \<Rightarrow> 'a \<Rightarrow> bool) \<Rightarrow> 'a \<Rightarrow> 'a \<Rightarrow> bool" where
  "tied lt x y = (\<not> lt x y \<and> \<not> lt y x)"

definition stable_sorted :: "('a \<Rightarrow> 'a \<Rightarrow> bool) \<Rightarrow> 'a list \<Rightarrow> 'a list \<Rightarrow> bool" where
  "stable_sorted lt xs ys \<longleftrightarrow>
     sorted_by lt ys \<and> mset ys = mset xs \<and> (\<forall>z. filter (tied lt z) ys = filter (tied lt z) xs)"

lemma smerge_Nil2 [simp]: "smerge lt xs [] = xs"
  by (cases xs) simp_all

lemma mset_smerge [simp]: "mset (smerge lt xs ys) = mset xs + mset ys"
  by (induction lt xs ys rule: smerge.induct) simp_all

lemma set_smerge [simp]: "set (smerge lt xs ys) = set xs \<union> set ys"
  by (metis mset_smerge set_mset_mset set_mset_union)

lemma length_smerge [simp]: "length (smerge lt xs ys) = length xs + length ys"
  by (metis mset_smerge size_mset size_union)

lemma sorted_by_Nil [simp]: "sorted_by lt []"
  by (simp add: sorted_by_def)

lemma sorted_by_Cons [simp]: "sorted_by lt (x # xs) \<longleftrightarrow> (\<forall>y\<in>set xs. \<not> lt y x) \<and> sorted_by lt xs"
  by (simp add: sorted_by_def)

lemma sorted_by_append:
  "sorted_by lt (xs @ ys) \<longleftrightarrow>
     sorted_by lt xs \<and> sorted_by lt ys \<and> (\<forall>x\<in>set xs. \<forall>y\<in>set ys. \<not> lt y x)"
  by (simp add: sorted_by_def sorted_wrt_append)

text \<open>Elements of the left run that do not exceed the head of the right run come out first.\<close>

lemma smerge_take_left:
  "\<forall>x\<in>set as. \<not> lt y x \<Longrightarrow> smerge lt (as @ xs) (y # ys) = as @ smerge lt xs (y # ys)"
  by (induction as) simp_all

lemma smerge_take_right:
  "\<forall>y\<in>set bs. lt y x \<Longrightarrow> smerge lt (x # xs) (bs @ ys) = bs @ smerge lt (x # xs) ys"
  by (induction bs) simp_all

lemma smerge_left_le:
  "\<forall>x\<in>set xs. \<forall>y\<in>set ys. \<not> lt y x \<Longrightarrow> smerge lt xs ys = xs @ ys"
  by (induction lt xs ys rule: smerge.induct) auto

lemma smerge_right_first:
  "\<forall>x\<in>set xs. \<forall>y\<in>set ys. lt y x \<Longrightarrow> smerge lt xs ys = ys @ xs"
  by (induction lt xs ys rule: smerge.induct) auto

lemma smerge_append_left:
  "\<forall>x\<in>set zs. \<forall>y\<in>set ys. lt y x \<Longrightarrow> smerge lt (xs @ zs) ys = smerge lt xs ys @ zs"
proof (induction lt xs ys rule: smerge.induct)
  case (1 lt ys)
  then show ?case by (simp add: smerge_right_first)
qed simp_all

lemma smerge_append_right:
  "\<forall>x\<in>set xs. \<forall>y\<in>set zs. \<not> lt y x \<Longrightarrow> smerge lt xs (ys @ zs) = smerge lt xs ys @ zs"
proof (induction lt xs ys rule: smerge.induct)
  case (2 lt x xs)
  then have "smerge lt (x # xs) zs = (x # xs) @ zs" by (intro smerge_left_le) simp
  then show ?case by simp
qed simp_all

lemma tied_converse: "tied (\<lambda>x y. lt y x) = tied lt"
  by (auto simp: tied_def fun_eq_iff)

lemma stable_sorted_rev:
  assumes "stable_sorted lt (rev xs) ys"
  shows "stable_sorted (\<lambda>x y. lt y x) xs (rev ys)"
proof -
  have "filter (tied lt z) (rev ys) = filter (tied lt z) xs" for z
    using assms rev_filter [of "tied lt z" ys] rev_filter [of "tied lt z" "rev xs"]
    by (simp add: stable_sorted_def)
  with assms show ?thesis
    by (simp add: stable_sorted_def sorted_by_def sorted_wrt_rev tied_converse [of lt])
qed

lemma stable_sorted_mset: "stable_sorted lt xs ys \<Longrightarrow> mset ys = mset xs"
  by (simp add: stable_sorted_def)

lemma stable_sorted_length: "stable_sorted lt xs ys \<Longrightarrow> length ys = length xs"
  by (metis mset_eq_length stable_sorted_mset)

lemma stable_sorted_sorted: "stable_sorted lt xs ys \<Longrightarrow> sorted_by lt ys"
  by (simp add: stable_sorted_def)

lemma stable_sorted_refl: "sorted_by lt xs \<Longrightarrow> stable_sorted lt xs xs"
  by (simp add: stable_sorted_def)

section \<open>Consistent orders\<close>

text \<open>
  The laws of \<open><\<close> under which sorting has a well-defined result: the comparison is a strict
  weak order (equivalently, \<open>\<not> y < x\<close> is a total preorder).
\<close>

locale strict_weak_order =
  fixes lt :: "'a \<Rightarrow> 'a \<Rightarrow> bool"
  assumes asym: "lt x y \<Longrightarrow> \<not> lt y x"
    and ntrans: "lt x z \<Longrightarrow> lt x y \<or> lt y z"
begin

lemma irrefl [simp]: "\<not> lt x x"
  using asym by blast

lemma trans: "lt x y \<Longrightarrow> lt y z \<Longrightarrow> lt x z"
  using asym ntrans by blast

lemma le_lt_trans: "\<not> lt y x \<Longrightarrow> lt y z \<Longrightarrow> lt x z"
  using ntrans by blast

lemma lt_le_trans: "lt x y \<Longrightarrow> \<not> lt z y \<Longrightarrow> lt x z"
  using ntrans by blast

lemma le_trans: "\<not> lt y x \<Longrightarrow> \<not> lt z y \<Longrightarrow> \<not> lt z x"
  using ntrans by blast

lemma pullback_order: "strict_weak_order (\<lambda>x y. lt (f x) (f y))"
  by unfold_locales (use asym ntrans in blast)+

lemma sorted_smerge: "sorted_by lt xs \<Longrightarrow> sorted_by lt ys \<Longrightarrow> sorted_by lt (smerge lt xs ys)"
proof (induction "length xs + length ys" arbitrary: xs ys rule: less_induct)
  case less
  show ?case
  proof (cases xs; cases ys)
    fix x xs' y ys'
    assume eq: "xs = x # xs'" "ys = y # ys'"
    then show ?thesis
      using less.hyps [of xs ys'] less.hyps [of xs' ys] less.prems
      by (auto dest: asym lt_le_trans le_trans)
  qed (use less.prems in auto)
qed

lemma filter_tied_smerge:
  "sorted_by lt xs \<Longrightarrow> sorted_by lt ys \<Longrightarrow>
     filter (tied lt z) (smerge lt xs ys) = filter (tied lt z) xs @ filter (tied lt z) ys"
proof (induction "length xs + length ys" arbitrary: xs ys rule: less_induct)
  case less
  show ?case
  proof (cases xs; cases ys)
    fix x xs' y ys'
    assume eq: "xs = x # xs'" "ys = y # ys'"
    show ?thesis
    proof (cases "lt y x")
      case True
      then have "\<forall>u\<in>set xs. lt y u"
        using less.prems eq by (auto intro: lt_le_trans)
      then have "filter (tied lt z) xs = []" if "tied lt z y"
        using that by (auto simp: tied_def filter_empty_conv dest: le_lt_trans)
      then show ?thesis
        using True less.hyps [of xs ys'] less.prems eq by auto
    next
      case False
      then show ?thesis using less.hyps [of xs' ys] less.prems eq by auto
    qed
  qed auto
qed

lemma stable_sorted_smerge:
  assumes "stable_sorted lt xs xs'" "stable_sorted lt ys ys'"
  shows "stable_sorted lt (xs @ ys) (smerge lt xs' ys')"
  using assms sorted_smerge filter_tied_smerge by (simp add: stable_sorted_def)

lemma smerge_snoc_left:
  assumes "sorted_by lt (ys @ [y])" "lt y x"
  shows "smerge lt (xs @ [x]) (ys @ [y]) = smerge lt xs (ys @ [y]) @ [x]"
  using assms by (intro smerge_append_left) (auto simp: sorted_by_append intro: le_lt_trans)

lemma smerge_snoc_right:
  assumes "sorted_by lt (xs @ [x])" "\<not> lt y x"
  shows "smerge lt (xs @ [x]) (ys @ [y]) = smerge lt (xs @ [x]) ys @ [y]"
  using assms by (intro smerge_append_right) (auto simp: sorted_by_append dest: le_trans)

text \<open>Entries that are already in place before two sorted runs are merged.\<close>

lemma sorted_le_last: "sorted_by lt xs \<Longrightarrow> x \<in> set xs \<Longrightarrow> \<not> lt (last xs) x"
  by (cases xs rule: rev_cases) (auto simp: sorted_by_append)

lemma sorted_hd_le: "sorted_by lt xs \<Longrightarrow> x \<in> set xs \<Longrightarrow> \<not> lt x (hd xs)"
  by (cases xs) auto

lemma smerge_all_left:
  assumes "sorted_by lt B" "\<forall>x\<in>set A. \<not> lt (hd B) x"
  shows "smerge lt A B = A @ B"
  using assms sorted_hd_le le_trans by (intro smerge_left_le) blast

lemma smerge_trim:
  assumes A: "sorted_by lt A" and B: "B \<noteq> []"
    and k: "\<forall>x\<in>set (take k A). \<not> lt (hd B) x" and j: "\<forall>y\<in>set (drop j B). \<not> lt y (last A)"
  shows "smerge lt A B = take k A @ smerge lt (drop k A) (take j B) @ drop j B"
proof -
  obtain b B' where eq: "B = b # B'" using B by (cases B) auto
  have "smerge lt A B = take k A @ smerge lt (drop k A) B"
    using smerge_take_left [of "take k A" lt b "drop k A" B'] k eq by simp
  moreover have "\<not> lt y x" if "x \<in> set (drop k A)" "y \<in> set (drop j B)" for x y
    using that j sorted_le_last [OF A] le_trans by (meson in_set_dropD)
  then have "smerge lt (drop k A) (take j B @ drop j B) = smerge lt (drop k A) (take j B) @ drop j B"
    by (intro smerge_append_right) blast
  ultimately show ?thesis by simp
qed

text \<open>The specification determines the result.\<close>

lemma sorted_tied_unique:
  assumes "sorted_by lt ys" "sorted_by lt zs" "mset ys = mset zs"
    and "\<And>z. filter (tied lt z) ys = filter (tied lt z) zs"
  shows "ys = zs"
  using assms
proof (induction ys arbitrary: zs)
  case Nil
  then show ?case by simp
next
  case (Cons y ys)
  obtain z zs' where zs: "zs = z # zs'"
    using Cons.prems(3) by (cases zs) auto
  have "set (y # ys) = set (z # zs')"
    using Cons.prems(3) zs by (metis set_mset_mset)
  with Cons.prems(1,2) zs have "tied lt y z"
    by (auto simp: tied_def)
  moreover have "tied lt y y" by (simp add: tied_def)
  ultimately have "y = z"
    using Cons.prems(4) [of y] zs by simp
  moreover have "filter (tied lt u) ys = filter (tied lt u) zs'" for u
    using Cons.prems(4) [of u] zs \<open>y = z\<close> by (simp split: if_splits)
  ultimately show ?case
    using Cons.IH [of zs'] Cons.prems zs by simp
qed

lemma stable_sorted_unique:
  "stable_sorted lt xs ys \<Longrightarrow> stable_sorted lt xs zs \<Longrightarrow> ys = zs"
  by (auto simp: stable_sorted_def intro: sorted_tied_unique)

end

end
