(* ===== verification/Sort_Search.thy ===== *)
theory Sort_Search
  imports Sort_Spec
begin

text \<open>
  The searching half of the adaptive merge sort of \<open>checked_list.c\<close>: reversing a slice,
  counting a natural run, binary insertion and the two galloping searches.

  A slot is one entry of a \<open>sortslice\<close>: a key together with its value (\<open>keys[i]\<close> and
  \<open>values[i]\<close>, which the C code always moves in step), so an array of slots stands for the
  pair of arrays a \<open>sortslice\<close> points into. A comparison \<open>islt\<close> reads the keys of two slots and
  is one call of \<open>ISLT\<close>: \<open>None\<close> is the result \<open>-1\<close> (the comparison raised), \<open>Some True\<close> is \<open>1\<close> and
  \<open>Some False\<close> is \<open>0\<close>. It may change a state \<open>'s\<close> (whatever Python code run by the comparison
  can change), so nothing here supposes that comparing is consistent or free of effects.
  A read-only pointer into an array is the array from that position on.
\<close>

type_synonym ('a, 's) islt = "'a \<Rightarrow> 'a \<Rightarrow> 's \<Rightarrow> bool option \<times> 's"
type_synonym 's probe = "nat \<Rightarrow> 's \<Rightarrow> bool option \<times> 's"

section \<open>Definitions\<close>

subsection \<open>Reversing a slice\<close>

text \<open>The loop of \<open>reverse_slice\<close> after \<open>--hi\<close>: \<open>hi\<close> is the last index of the slice.\<close>

function reverse_slice_loop :: "'a list \<Rightarrow> nat \<Rightarrow> nat \<Rightarrow> 'a list" where
  "reverse_slice_loop a lo hi =
     (if lo < hi then reverse_slice_loop (a[lo := a ! hi, hi := a ! lo]) (Suc lo) (hi - 1) else a)"
  by pat_completeness auto
termination
  by (relation "measure (\<lambda>(a, lo, hi). hi - lo)") auto

definition reverse_slice :: "'a list \<Rightarrow> nat \<Rightarrow> nat \<Rightarrow> 'a list" where
  "reverse_slice a lo hi = reverse_slice_loop a lo (hi - 1)"

subsection \<open>Binary search and galloping\<close>

text \<open>
  The binary search shared by \<open>binarysort\<close>, \<open>gallop_left\<close> and \<open>gallop_right\<close>: the probe answers
  whether the search continues to the right of the midpoint.
\<close>

function bisect_loop :: "'s probe \<Rightarrow> nat \<Rightarrow> nat \<Rightarrow> 's \<Rightarrow> nat option \<times> 's" where
  "bisect_loop probe lo hi s =
     (if lo < hi then
        (let m = lo + (hi - lo) div 2 in
         case probe m s of
           (None, s') \<Rightarrow> (None, s')
         | (Some True, s') \<Rightarrow> bisect_loop probe (m + 1) hi s'
         | (Some False, s') \<Rightarrow> bisect_loop probe lo m s')
      else (Some hi, s))"
  by pat_completeness auto
termination
  by (relation "measure (\<lambda>(probe, lo, hi, s). hi - lo)") auto

text \<open>
  The exponential phase: \<open>ofs\<close> runs through 1, 3, 7, ... while the probe asks to go on,
  \<open>lastofs\<close> is the last offset that did.
\<close>

function gallop_loop :: "'s probe \<Rightarrow> nat \<Rightarrow> nat \<Rightarrow> nat \<Rightarrow> 's \<Rightarrow> (nat \<times> nat) option \<times> 's" where
  "gallop_loop probe maxofs lastofs ofs s =
     (if ofs < maxofs then
        (case probe ofs s of
           (None, s') \<Rightarrow> (None, s')
         | (Some True, s') \<Rightarrow> gallop_loop probe maxofs ofs (2 * ofs + 1) s'
         | (Some False, s') \<Rightarrow> (Some (lastofs, ofs), s'))
      else (Some (lastofs, ofs), s))"
  by pat_completeness auto
termination
  by (relation "measure (\<lambda>(probe, maxofs, lastofs, ofs, s). maxofs - ofs)") auto

text \<open>A comparison whose answer sends the search the other way.\<close>

definition neg :: "bool option \<times> 's \<Rightarrow> bool option \<times> 's" where
  "neg r = (map_option Not (fst r), snd r)"

definition gallop_left ::
  "('a, 's) islt \<Rightarrow> 'a \<Rightarrow> 'a list \<Rightarrow> nat \<Rightarrow> nat \<Rightarrow> 's \<Rightarrow> nat option \<times> 's" where
  "gallop_left islt key a n hint s =
     (case islt (a ! hint) key s of
        (None, s1) \<Rightarrow> (None, s1)
      | (Some True, s1) \<Rightarrow>
          (let maxofs = n - hint in
           case gallop_loop (\<lambda>ofs. islt (a ! (hint + ofs)) key) maxofs 0 1 s1 of
             (None, s2) \<Rightarrow> (None, s2)
           | (Some (lastofs, ofs), s2) \<Rightarrow>
               (let ofs = (if ofs > maxofs then maxofs else ofs)
                in bisect_loop (\<lambda>m. islt (a ! m) key) (lastofs + hint + 1) (ofs + hint) s2))
      | (Some False, s1) \<Rightarrow>
          (let maxofs = hint + 1 in
           case gallop_loop (\<lambda>ofs s. neg (islt (a ! (hint - ofs)) key s)) maxofs 0 1 s1 of
             (None, s2) \<Rightarrow> (None, s2)
           | (Some (lastofs, ofs), s2) \<Rightarrow>
               (let ofs = (if ofs > maxofs then maxofs else ofs);
                    k = lastofs;
                    lastofs = int hint - int ofs;
                    ofs = hint - k
                in bisect_loop (\<lambda>m. islt (a ! m) key) (nat (lastofs + 1)) ofs s2)))"

definition gallop_right ::
  "('a, 's) islt \<Rightarrow> 'a \<Rightarrow> 'a list \<Rightarrow> nat \<Rightarrow> nat \<Rightarrow> 's \<Rightarrow> nat option \<times> 's" where
  "gallop_right islt key a n hint s =
     (case islt key (a ! hint) s of
        (None, s1) \<Rightarrow> (None, s1)
      | (Some True, s1) \<Rightarrow>
          (let maxofs = hint + 1 in
           case gallop_loop (\<lambda>ofs. islt key (a ! (hint - ofs))) maxofs 0 1 s1 of
             (None, s2) \<Rightarrow> (None, s2)
           | (Some (lastofs, ofs), s2) \<Rightarrow>
               (let ofs = (if ofs > maxofs then maxofs else ofs);
                    k = lastofs;
                    lastofs = int hint - int ofs;
                    ofs = hint - k
                in bisect_loop (\<lambda>m s. neg (islt key (a ! m) s)) (nat (lastofs + 1)) ofs s2))
      | (Some False, s1) \<Rightarrow>
          (let maxofs = n - hint in
           case gallop_loop (\<lambda>ofs s. neg (islt key (a ! (hint + ofs)) s)) maxofs 0 1 s1 of
             (None, s2) \<Rightarrow> (None, s2)
           | (Some (lastofs, ofs), s2) \<Rightarrow>
               (let ofs = (if ofs > maxofs then maxofs else ofs)
                in bisect_loop (\<lambda>m s. neg (islt key (a ! m) s))
                     (lastofs + hint + 1) (ofs + hint) s2)))"

subsection \<open>Natural runs and binary insertion\<close>

text \<open>
  The two loops of \<open>count_run\<close>: the run goes on while the comparison of an entry with its
  predecessor answers \<open>descending\<close>. The index is absolute; \<open>n\<close> is its distance from \<open>lo\<close>.
\<close>

function count_run_loop ::
  "('a, 's) islt \<Rightarrow> bool \<Rightarrow> 'a list \<Rightarrow> nat \<Rightarrow> nat \<Rightarrow> nat \<Rightarrow> 's \<Rightarrow> nat option \<times> 's" where
  "count_run_loop islt descending a lo hi n s =
     (if lo < hi then
        (case islt (a ! lo) (a ! (lo - 1)) s of
           (None, s') \<Rightarrow> (None, s')
         | (Some k, s') \<Rightarrow>
             if k = descending then count_run_loop islt descending a (Suc lo) hi (Suc n) s'
             else (Some n, s'))
      else (Some n, s))"
  by pat_completeness auto
termination
  by (relation "measure (\<lambda>(islt, d, a, lo, hi, n, s). hi - lo)") auto

definition count_run ::
  "('a, 's) islt \<Rightarrow> 'a list \<Rightarrow> nat \<Rightarrow> nat \<Rightarrow> 's \<Rightarrow> (nat \<times> bool) option \<times> 's" where
  "count_run islt a lo hi s =
     (if Suc lo = hi then (Some (1, False), s)
      else case islt (a ! Suc lo) (a ! lo) s of
          (None, s1) \<Rightarrow> (None, s1)
        | (Some descending, s1) \<Rightarrow>
            (case count_run_loop islt descending a (lo + 2) hi 2 s1 of
               (None, s2) \<Rightarrow> (None, s2)
             | (Some n, s2) \<Rightarrow> (Some (n, descending), s2)))"

text \<open>\<open>for (p = start; p > l; --p) *p = *(p - 1)\<close>\<close>

fun slide :: "'a list \<Rightarrow> nat \<Rightarrow> nat \<Rightarrow> 'a list" where
  "slide a p l = (if p > l then slide (a[p := a ! (p - 1)]) (p - 1) l else a)"

declare slide.simps [simp del]

text \<open>
  The loop over \<open>start\<close>. The flag of the result is \<open>False\<close> where the C function returns \<open>-1\<close>;
  the array is returned in either case.
\<close>

function binarysort_loop ::
  "('a, 's) islt \<Rightarrow> nat \<Rightarrow> nat \<Rightarrow> nat \<Rightarrow> 'a list \<Rightarrow> 's \<Rightarrow> bool \<times> 'a list \<times> 's" where
  "binarysort_loop islt lo hi start a s =
     (if start < hi then
        (let pivot = a ! start in
         case bisect_loop (\<lambda>p s. neg (islt pivot (a ! p) s)) lo start s of
           (None, s') \<Rightarrow> (False, a, s')
         | (Some l, s') \<Rightarrow>
             binarysort_loop islt lo hi (Suc start) ((slide a start l)[l := pivot]) s')
      else (True, a, s))"
  by pat_completeness auto
termination
  by (relation "measure (\<lambda>(islt, lo, hi, start, a, s). hi - start)") auto

definition binarysort ::
  "('a, 's) islt \<Rightarrow> nat \<Rightarrow> nat \<Rightarrow> nat \<Rightarrow> 'a list \<Rightarrow> 's \<Rightarrow> bool \<times> 'a list \<times> 's" where
  "binarysort islt lo hi start a s =
     binarysort_loop islt lo hi (if lo = start then Suc start else start) a s"

subsection \<open>The minimum run length\<close>

fun minrun_loop :: "nat \<Rightarrow> nat \<Rightarrow> nat" where
  "minrun_loop n r = (if 64 \<le> n then minrun_loop (n div 2) (r OR (n AND 1)) else n + r)"

definition merge_compute_minrun :: "nat \<Rightarrow> nat" where
  "merge_compute_minrun n = minrun_loop n 0"

declare reverse_slice_loop.simps [simp del] bisect_loop.simps [simp del]
  gallop_loop.simps [simp del] count_run_loop.simps [simp del]
  binarysort_loop.simps [simp del] minrun_loop.simps [simp del]

section \<open>Comparisons that answer an order\<close>

text \<open>
  \<open>decides P K lt islt\<close>: on slots of \<open>K\<close> and in states with \<open>P\<close>, comparing succeeds, answers
  \<open>lt\<close> and keeps \<open>P\<close>; \<open>answers\<close> says the same of a probe.
\<close>

definition decides ::
  "('s \<Rightarrow> bool) \<Rightarrow> 'a set \<Rightarrow> ('a \<Rightarrow> 'a \<Rightarrow> bool) \<Rightarrow> ('a, 's) islt \<Rightarrow> bool" where
  "decides P K lt islt \<longleftrightarrow>
     (\<forall>x\<in>K. \<forall>y\<in>K. \<forall>s. P s \<longrightarrow> fst (islt x y s) = Some (lt x y) \<and> P (snd (islt x y s)))"

definition answers :: "('s \<Rightarrow> bool) \<Rightarrow> nat set \<Rightarrow> (nat \<Rightarrow> bool) \<Rightarrow> 's probe \<Rightarrow> bool" where
  "answers P N Q probe \<longleftrightarrow>
     (\<forall>i\<in>N. \<forall>s. P s \<longrightarrow> fst (probe i s) = Some (Q i) \<and> P (snd (probe i s)))"

lemma decidesE:
  assumes "decides P K lt islt" "x \<in> K" "y \<in> K" "P s"
  obtains s' where "islt x y s = (Some (lt x y), s')" "P s'"
  using assms by (cases "islt x y s") (force simp: decides_def)

lemma decidesD:
  "decides P K lt islt \<Longrightarrow> islt x y s = (r, s') \<Longrightarrow> x \<in> K \<Longrightarrow> y \<in> K \<Longrightarrow> P s \<Longrightarrow> r = Some (lt x y) \<and> P s'"
  by (force simp: decides_def)

lemma answersE:
  assumes "answers P N Q probe" "i \<in> N" "P s"
  obtains s' where "probe i s = (Some (Q i), s')" "P s'"
  using assms by (cases "probe i s") (force simp: answers_def)

lemma answers_subset: "answers P N Q probe \<Longrightarrow> M \<subseteq> N \<Longrightarrow> answers P M Q probe"
  by (auto simp: answers_def)

lemma answers_neg: "answers P N Q probe \<Longrightarrow> answers P N (\<lambda>i. \<not> Q i) (\<lambda>i s. neg (probe i s))"
  by (simp add: answers_def neg_def)

lemma answers_shift:
  "answers P N Q probe \<Longrightarrow> f ` M \<subseteq> N \<Longrightarrow> answers P M (\<lambda>i. Q (f i)) (\<lambda>i. probe (f i))"
  by (auto simp: answers_def)

lemma neg_simps [simp]:
  "neg (None, s) = (None, s)" "neg (Some b, s) = (Some (\<not> b), s)" "neg (neg r) = r"
  by (simp_all add: neg_def map_option.compositionality comp_def option.map_ident)

section \<open>Searching\<close>

lemma bisect_loop_done [simp]: "hi \<le> lo \<Longrightarrow> bisect_loop probe lo hi s = (Some hi, s)"
  by (simp add: bisect_loop.simps [of probe lo hi s])

lemma bisect_bounds:
  "bisect_loop probe lo hi s = (Some r, s') \<Longrightarrow> lo \<le> hi \<Longrightarrow> lo \<le> r \<and> r \<le> hi"
proof (induction "hi - lo" arbitrary: lo hi s rule: less_induct)
  case less
  show ?case
  proof (cases "lo < hi")
    case True
    define m where "m = lo + (hi - lo) div 2"
    have m: "lo \<le> m" "m < hi" using True by (auto simp: m_def)
    with less.hyps [of hi "m + 1"] less.hyps [of m lo] less.prems True show ?thesis
      by (fastforce simp: bisect_loop.simps [of probe lo hi s] Let_def simp flip: m_def
          split: prod.splits option.splits bool.splits)
  qed (use less.prems in simp)
qed

text \<open>A downward closed predicate: true up to some index, false from there on.\<close>

definition cut_at :: "(nat \<Rightarrow> bool) \<Rightarrow> nat \<Rightarrow> nat \<Rightarrow> nat \<Rightarrow> bool" where
  "cut_at Q lo hi r \<longleftrightarrow> lo \<le> r \<and> r \<le> hi \<and>
     (\<forall>i. lo \<le> i \<and> i < r \<longrightarrow> Q i) \<and> (\<forall>i. r \<le> i \<and> i < hi \<longrightarrow> \<not> Q i)"

lemma cut_at_left: "cut_at Q (Suc m) hi r \<Longrightarrow> lo \<le> m \<Longrightarrow> (\<forall>i. lo \<le> i \<and> i \<le> m \<longrightarrow> Q i) \<Longrightarrow> cut_at Q lo hi r"
  by (auto simp: cut_at_def) (metis not_less_eq_eq)

lemma cut_at_right: "cut_at Q lo m r \<Longrightarrow> m \<le> hi \<Longrightarrow> (\<forall>i. m \<le> i \<and> i < hi \<longrightarrow> \<not> Q i) \<Longrightarrow> cut_at Q lo hi r"
  by (auto simp: cut_at_def) (meson not_le)

lemma bisect_correct:
  assumes "answers P {lo..<hi} Q probe" "P s" "lo \<le> hi"
    and "\<And>i j. lo \<le> i \<Longrightarrow> i \<le> j \<Longrightarrow> j < hi \<Longrightarrow> Q j \<Longrightarrow> Q i"
  shows "\<exists>r s'. bisect_loop probe lo hi s = (Some r, s') \<and> P s' \<and> cut_at Q lo hi r"
  using assms
proof (induction "hi - lo" arbitrary: lo hi s rule: less_induct)
  case less
  show ?case
  proof (cases "lo < hi")
    case True
    define m where "m = lo + (hi - lo) div 2"
    have m: "lo \<le> m" "m < hi" using True by (auto simp: m_def)
    obtain s1 where s1: "probe m s = (Some (Q m), s1)" "P s1"
      using less.prems m by (auto elim: answersE)
    have step: "bisect_loop probe lo hi s =
        (if Q m then bisect_loop probe (Suc m) hi s1 else bisect_loop probe lo m s1)"
      using True s1 by (simp add: bisect_loop.simps [of probe lo hi s] Let_def flip: m_def)
    have "answers P {Suc m..<hi} Q probe" "answers P {lo..<m} Q probe"
      using less.prems(1) m by (auto elim: answers_subset)
    moreover have "hi - Suc m < hi - lo" "m - lo < hi - lo" using m by auto
    ultimately obtain r1 t1 r2 t2
      where "bisect_loop probe (Suc m) hi s1 = (Some r1, t1)" "P t1" "cut_at Q (Suc m) hi r1"
        and "bisect_loop probe lo m s1 = (Some r2, t2)" "P t2" "cut_at Q lo m r2"
      using less.hyps [of hi "Suc m" s1] less.hyps [of m lo s1] less.prems(4) s1 m by force
    moreover have "Q m \<Longrightarrow> cut_at Q lo hi r1" "\<not> Q m \<Longrightarrow> cut_at Q lo hi r2"
      using calculation m less.prems(4)
      by (blast intro: cut_at_left less_imp_le, blast intro: cut_at_right less_imp_le)
    ultimately show ?thesis unfolding step by (cases "Q m") auto
  qed (use less.prems in \<open>auto simp: cut_at_def\<close>)
qed

lemma gallop_loop_bounds:
  "gallop_loop probe maxofs lastofs ofs s = (Some (l, r), s') \<Longrightarrow> lastofs < ofs \<Longrightarrow> lastofs < maxofs \<Longrightarrow>
     l < r \<and> l < maxofs"
proof (induction "maxofs - ofs" arbitrary: lastofs ofs s rule: less_induct)
  case less
  have "ofs < maxofs \<Longrightarrow> maxofs - Suc (2 * ofs) < maxofs - ofs" by simp
  with less.hyps [of "Suc (2 * ofs)" ofs] less.prems show ?case
    by (force simp: gallop_loop.simps [of probe maxofs lastofs ofs s]
        split: if_splits prod.splits option.splits bool.splits)
qed

lemma gallop_loop_correct:
  assumes "answers P {..<maxofs} Q probe" "P s" "lastofs < ofs" "Q lastofs"
  shows "\<exists>l r s'. gallop_loop probe maxofs lastofs ofs s = (Some (l, r), s') \<and> P s' \<and>
           Q l \<and> (r < maxofs \<longrightarrow> \<not> Q r)"
  using assms
proof (induction "maxofs - ofs" arbitrary: lastofs ofs s rule: less_induct)
  case less
  show ?case
  proof (cases "ofs < maxofs")
    case True
    then obtain s1 where s1: "probe ofs s = (Some (Q ofs), s1)" "P s1"
      using less.prems by (auto elim: answersE)
    with True less.prems less.hyps [of "2 * ofs + 1" s1 ofs] show ?thesis
      by (cases "Q ofs") (auto simp: gallop_loop.simps [of probe maxofs lastofs ofs s])
  qed (use less.prems in \<open>simp add: gallop_loop.simps [of probe maxofs lastofs ofs s]\<close>)
qed

text \<open>
  \<open>gallop_left\<close> and \<open>gallop_right\<close> are one search, run with opposite ideas of which side an
  equal element belongs to.
\<close>

definition gallop :: "'s probe \<Rightarrow> nat \<Rightarrow> nat \<Rightarrow> 's \<Rightarrow> nat option \<times> 's" where
  "gallop probe n hint s =
     (case probe hint s of
        (None, s1) \<Rightarrow> (None, s1)
      | (Some True, s1) \<Rightarrow>
          (case gallop_loop (\<lambda>ofs. probe (hint + ofs)) (n - hint) 0 1 s1 of
             (None, s2) \<Rightarrow> (None, s2)
           | (Some (l, r), s2) \<Rightarrow> bisect_loop probe (l + hint + 1) (min r (n - hint) + hint) s2)
      | (Some False, s1) \<Rightarrow>
          (case gallop_loop (\<lambda>ofs s. neg (probe (hint - ofs) s)) (hint + 1) 0 1 s1 of
             (None, s2) \<Rightarrow> (None, s2)
           | (Some (l, r), s2) \<Rightarrow> bisect_loop probe (hint + 1 - r) (hint - l) s2))"

lemma min_if: "(if n < r then n else r) = min r (n :: nat)"
  by simp

lemma nat_hint_diff: "nat (int hint - int (min r (hint + 1)) + 1) = hint + 1 - r"
  by simp

lemma gallop_left_eq: "gallop_left islt key a n hint = gallop (\<lambda>i. islt (a ! i) key) n hint"
  by (rule ext)
    (simp only: gallop_left_def gallop_def Let_def min_if nat_hint_diff)

lemma gallop_right_eq:
  "gallop_right islt key a n hint = gallop (\<lambda>i s. neg (islt key (a ! i) s)) n hint"
proof
  fix s
  obtain r s1 where "islt key (a ! hint) s = (r, s1)" by force
  then show "gallop_right islt key a n hint s = gallop (\<lambda>i s. neg (islt key (a ! i) s)) n hint s"
    by (cases r; cases "the r")
      (simp_all only: gallop_right_def gallop_def Let_def min_if nat_hint_diff neg_simps
        prod.case option.case bool.case option.sel simp_thms)
qed

lemma gallop_bounds:
  assumes "gallop probe n hint s = (Some k, s')" "hint < n"
  shows "k \<le> n"
  using assms
  by (auto simp: gallop_def split: prod.splits option.splits bool.splits
      dest!: gallop_loop_bounds bisect_bounds)

lemma bisect_correct_within:
  assumes "answers P {..<n} Q probe" "P s" "lo \<le> hi" "hi \<le> n"
    and down: "\<And>i j. i \<le> j \<Longrightarrow> j < n \<Longrightarrow> Q j \<Longrightarrow> Q i"
  obtains r s' where "bisect_loop probe lo hi s = (Some r, s')" "P s'" "cut_at Q lo hi r"
proof -
  have "answers P {lo..<hi} Q probe"
    using assms(1,4) by (auto elim: answers_subset)
  moreover have "Q i" if "i \<le> j" "j < hi" "Q j" for i j
    using down that assms(4) by (meson order.strict_trans2)
  ultimately show thesis
    using bisect_correct [of P lo hi Q probe s] assms(2,3) that by blast
qed

lemma gallop_correct:
  assumes ans: "answers P {..<n} Q probe" and "P s" and hint: "hint < n"
    and down: "\<And>i j. i \<le> j \<Longrightarrow> j < n \<Longrightarrow> Q j \<Longrightarrow> Q i"
  shows "\<exists>k s'. gallop probe n hint s = (Some k, s') \<and> P s' \<and> cut_at Q 0 n k"
proof -
  obtain s1 where s1: "probe hint s = (Some (Q hint), s1)" "P s1"
    using assms by (auto elim: answersE)
  show ?thesis
  proof (cases "Q hint")
    case True
    have "answers P {..<n - hint} (\<lambda>i. Q (hint + i)) (\<lambda>i. probe (hint + i))"
      by (rule answers_shift [OF ans]) auto
    then obtain l r s2 where g: "gallop_loop (\<lambda>i. probe (hint + i)) (n - hint) 0 1 s1 = (Some (l, r), s2)"
      and s2: "P s2" and Q: "Q (hint + l)" "r < n - hint \<Longrightarrow> \<not> Q (hint + r)"
      using gallop_loop_correct [of P "n - hint" "\<lambda>i. Q (hint + i)" "\<lambda>i. probe (hint + i)" s1 0 1] s1 True
      by auto
    have lr: "l < r" "l < n - hint"
      using gallop_loop_bounds [OF g] hint by auto
    let ?lo = "Suc (l + hint)" and ?hi = "min r (n - hint) + hint"
    have hi: "?lo \<le> ?hi" "?hi \<le> n" using lr hint by auto
    obtain k s' where k: "bisect_loop probe ?lo ?hi s2 = (Some k, s')" "P s'" "cut_at Q ?lo ?hi k"
      by (rule bisect_correct_within [OF ans s2 hi down])
    have "\<not> Q i" if "?hi \<le> i" "i < n" for i
    proof -
      have "r < n - hint" "hint + r \<le> i" using that by (auto simp: min_def split: if_splits)
      with Q(2) down that show ?thesis by blast
    qed
    then have "cut_at Q ?lo n k" using hi k(3) by (blast intro: cut_at_right)
    moreover have "\<forall>i. 0 \<le> i \<and> i \<le> l + hint \<longrightarrow> Q i"
      using Q(1) down [of _ "l + hint"] lr by (simp add: add.commute less_diff_conv)
    ultimately have "cut_at Q 0 n k"
      using cut_at_left [of Q "l + hint" n k 0] by blast
    with k s1 True g show ?thesis by (simp add: gallop_def)
  next
    case False
    have "answers P {..<hint + 1} (\<lambda>i. Q (hint - i)) (\<lambda>i. probe (hint - i))"
      by (rule answers_shift [OF ans]) (use hint in auto)
    then have "answers P {..<hint + 1} (\<lambda>i. \<not> Q (hint - i)) (\<lambda>i s. neg (probe (hint - i) s))"
      by (rule answers_neg)
    then obtain l r s2 where g: "gallop_loop (\<lambda>i s. neg (probe (hint - i) s)) (hint + 1) 0 1 s1 = (Some (l, r), s2)"
      and s2: "P s2" and Q: "\<not> Q (hint - l)" "r < hint + 1 \<Longrightarrow> Q (hint - r)"
      using gallop_loop_correct [of P "hint + 1" "\<lambda>i. \<not> Q (hint - i)" "\<lambda>i s. neg (probe (hint - i) s)" s1 0 1]
        s1 False by auto
    have lr: "l < r" "l < hint + 1"
      using gallop_loop_bounds [OF g] hint by auto
    let ?lo = "hint + 1 - r" and ?hi = "hint - l"
    have hi: "?lo \<le> ?hi" "?hi \<le> n" using lr hint by auto
    obtain k s' where k: "bisect_loop probe ?lo ?hi s2 = (Some k, s')" "P s'" "cut_at Q ?lo ?hi k"
      by (rule bisect_correct_within [OF ans s2 hi down])
    have "\<not> Q i" if "?hi \<le> i" "i < n" for i
      using down [of "hint - l" i] Q(1) that by blast
    then have "cut_at Q ?lo n k"
      using hint k(3) by (intro cut_at_right [OF k(3)]) auto
    moreover have "Q i" if "i < ?lo" for i
      using down [of i "hint - r"] Q(2) that hint by simp
    ultimately have "cut_at Q 0 n k"
      by (auto simp: cut_at_def) (meson not_le)
    with k s1 False g show ?thesis by (simp add: gallop_def)
  qed
qed

text \<open>The galloping searches, on a sorted run and an order the comparison decides.\<close>

lemma decides_answers:
  assumes "decides P K lt islt" "set (take n a) \<subseteq> K" "key \<in> K" "n \<le> length a"
  shows "answers P {..<n} (\<lambda>i. lt (a ! i) key) (\<lambda>i. islt (a ! i) key)"
    and "answers P {..<n} (\<lambda>i. \<not> lt key (a ! i)) (\<lambda>i s. neg (islt key (a ! i) s))"
proof -
  have "a ! i \<in> K" if "i < n" for i
    using assms(2,4) that by (force simp: in_set_conv_nth)
  with assms show "answers P {..<n} (\<lambda>i. lt (a ! i) key) (\<lambda>i. islt (a ! i) key)"
    and "answers P {..<n} (\<lambda>i. \<not> lt key (a ! i)) (\<lambda>i s. neg (islt key (a ! i) s))"
    by (auto simp: answers_def decides_def neg_def)
qed

lemma cut_at_sets:
  assumes "cut_at Q 0 n k" "n \<le> length a" and "\<And>i. i < n \<Longrightarrow> Q i = R (a ! i)"
  shows "(\<forall>x\<in>set (take k a). R x) \<and> (\<forall>x\<in>set (drop k (take n a)). \<not> R x)"
  using assms by (auto simp: cut_at_def in_set_conv_nth)

lemma sorted_by_nth:
  "sorted_by lt (take n a) \<Longrightarrow> i < j \<Longrightarrow> j < n \<Longrightarrow> n \<le> length a \<Longrightarrow> \<not> lt (a ! j) (a ! i)"
  by (auto simp: sorted_by_def sorted_wrt_iff_nth_less)

lemma gallop_left_correct:
  assumes lt: "strict_weak_order lt" and d: "decides P K lt islt" and s: "P s"
    and k: "key \<in> K" and a: "set (take n a) \<subseteq> K" "sorted_by lt (take n a)" "n \<le> length a"
    and hint: "hint < n"
  obtains k s' where "gallop_left islt key a n hint s = (Some k, s')" "P s'" "k \<le> n"
    "\<forall>x\<in>set (take k a). lt x key" "\<forall>x\<in>set (drop k (take n a)). \<not> lt x key"
proof -
  have down: "lt (a ! i) key" if "i \<le> j" "j < n" "lt (a ! j) key" for i j
    using strict_weak_order.le_lt_trans [OF lt sorted_by_nth [OF a(2) _ that(2) a(3)] that(3)] that
    by (cases "i = j") auto
  have ex: "\<exists>k s'. gallop_left islt key a n hint s = (Some k, s') \<and> P s' \<and>
      cut_at (\<lambda>i. lt (a ! i) key) 0 n k"
    unfolding gallop_left_eq
    by (rule gallop_correct [OF decides_answers(1) [OF d a(1) k a(3)] s hint]) (rule down)
  obtain k s' where g: "gallop_left islt key a n hint s = (Some k, s')" "P s'"
    and c: "cut_at (\<lambda>i. lt (a ! i) key) 0 n k"
    using ex by blast
  have "k \<le> n" using c by (simp add: cut_at_def)
  with g cut_at_sets [OF c a(3), of "\<lambda>x. lt x key"] show thesis
    by (intro that [of k s']) simp_all
qed

lemma gallop_right_correct:
  assumes lt: "strict_weak_order lt" and d: "decides P K lt islt" and s: "P s"
    and k: "key \<in> K" and a: "set (take n a) \<subseteq> K" "sorted_by lt (take n a)" "n \<le> length a"
    and hint: "hint < n"
  obtains k s' where "gallop_right islt key a n hint s = (Some k, s')" "P s'" "k \<le> n"
    "\<forall>x\<in>set (take k a). \<not> lt key x" "\<forall>x\<in>set (drop k (take n a)). lt key x"
proof -
  have down: "\<not> lt key (a ! i)" if "i \<le> j" "j < n" "\<not> lt key (a ! j)" for i j
    using strict_weak_order.le_trans [OF lt sorted_by_nth [OF a(2) _ that(2) a(3)] that(3)] that
    by (cases "i = j") auto
  have ex: "\<exists>k s'. gallop_right islt key a n hint s = (Some k, s') \<and> P s' \<and>
      cut_at (\<lambda>i. \<not> lt key (a ! i)) 0 n k"
    unfolding gallop_right_eq
    by (rule gallop_correct [OF decides_answers(2) [OF d a(1) k a(3)] s hint]) (rule down)
  obtain k s' where g: "gallop_right islt key a n hint s = (Some k, s')" "P s'"
    and c: "cut_at (\<lambda>i. \<not> lt key (a ! i)) 0 n k"
    using ex by blast
  have "k \<le> n" using c by (simp add: cut_at_def)
  with g cut_at_sets [OF c a(3), of "\<lambda>x. \<not> lt key x"] show thesis
    by (intro that [of k s']) simp_all
qed

lemma gallop_left_bounds:
  "gallop_left islt key a n hint s = (Some k, s') \<Longrightarrow> hint < n \<Longrightarrow> k \<le> n"
  by (simp add: gallop_left_eq gallop_bounds)

lemma gallop_right_bounds:
  "gallop_right islt key a n hint s = (Some k, s') \<Longrightarrow> hint < n \<Longrightarrow> k \<le> n"
  by (simp add: gallop_right_eq gallop_bounds)

section \<open>Reversing\<close>

lemma reverse_slice_loop_done [simp]: "hi \<le> lo \<Longrightarrow> reverse_slice_loop a lo hi = a"
  by (simp add: reverse_slice_loop.simps)

lemma reverse_slice_loop_eq:
  "length pre = lo \<Longrightarrow> reverse_slice_loop (pre @ xs @ post) lo (lo + length xs - 1) = pre @ rev xs @ post"
proof (induction "length xs" arbitrary: xs pre lo post rule: less_induct)
  case less
  show ?case
  proof (cases xs)
    case Nil
    then show ?thesis by simp
  next
    case (Cons x xs')
    note xs = this
    show ?thesis
    proof (cases xs' rule: rev_cases)
      case Nil
      with xs show ?thesis by simp
    next
      case (snoc ys y)
      have "reverse_slice_loop ((pre @ [y]) @ ys @ (x # post)) (Suc lo) (Suc lo + length ys - 1)
          = (pre @ [y]) @ rev ys @ (x # post)"
        by (rule less.hyps) (use less.prems xs snoc in simp_all)
      moreover have "(pre @ xs @ post)[lo := (pre @ xs @ post) ! (lo + length xs - 1),
          lo + length xs - 1 := (pre @ xs @ post) ! lo] = (pre @ [y]) @ ys @ (x # post)"
        using less.prems xs snoc by (simp add: nth_append list_update_append)
      moreover have "lo < lo + length xs - 1" "lo + length xs - 1 - 1 = Suc lo + length ys - 1"
        using xs snoc by simp_all
      ultimately show ?thesis
        unfolding reverse_slice_loop.simps [of "pre @ xs @ post" lo "lo + length xs - 1"]
        by (simp only: if_True) (simp add: xs snoc)
    qed
  qed
qed

lemma reverse_slice_append [cell_simps]:
  "length pre = lo \<Longrightarrow> hi = lo + length xs \<Longrightarrow> reverse_slice (pre @ xs @ post) lo hi = pre @ rev xs @ post"
  using reverse_slice_loop_eq by (simp add: reverse_slice_def)

section \<open>Runs\<close>

lemma count_run_loop_bounds:
  "count_run_loop islt d a lo hi n s = (Some r, s') \<Longrightarrow> lo \<le> hi \<Longrightarrow> n \<le> r \<and> r \<le> n + (hi - lo)"
proof (induction "hi - lo" arbitrary: lo n s rule: less_induct)
  case less
  have "Suc n \<le> r \<and> r \<le> Suc n + (hi - Suc lo)"
    if "count_run_loop islt d a (Suc lo) hi (Suc n) s1 = (Some r, s')" "lo < hi" for s1
    using less.hyps [OF _ that(1)] that(2) by simp
  with less.prems show ?case
    by (force simp: count_run_loop.simps [of islt d a lo hi n s]
        split: if_splits prod.splits option.splits)
qed

lemma count_run_bounds:
  assumes "count_run islt a lo hi s = (Some (n, d), s')" "lo < hi"
  shows "1 \<le> n \<and> lo + n \<le> hi"
  using assms
  by (auto simp: count_run_def split: if_splits prod.splits option.splits dest!: count_run_loop_bounds)

lemma count_run_loop_correct:
  assumes "decides P K lt islt" "P s" "set a \<subseteq> K" "0 < lo" "lo \<le> hi" "hi \<le> length a"
  shows "\<exists>r s'. count_run_loop islt d a lo hi n s = (Some (n + r), s') \<and> P s' \<and> lo + r \<le> hi \<and>
    (\<forall>i. lo \<le> i \<and> i < lo + r \<longrightarrow> lt (a ! i) (a ! (i - 1)) = d)"
  using assms
proof (induction "hi - lo" arbitrary: lo n s rule: less_induct)
  case less
  show ?case
  proof (cases "lo < hi")
    case True
    then have "a ! lo \<in> K" "a ! (lo - 1) \<in> K" 
      using less.prems by (simp_all add: subset_code(1))
    then obtain s1 where s1: "islt (a ! lo) (a ! (lo - 1)) s = (Some (lt (a ! lo) (a ! (lo - 1))), s1)" "P s1"
      using decidesE [OF less.prems(1) _ _ less.prems(2)] by blast
    show ?thesis
    proof (cases "lt (a ! lo) (a ! (lo - 1)) = d")
      case d: True
      obtain r s2 where r: "count_run_loop islt d a (Suc lo) hi (Suc n) s1 = (Some (Suc n + r), s2)" "P s2"
        "Suc lo + r \<le> hi" "\<forall>i. Suc lo \<le> i \<and> i < Suc lo + r \<longrightarrow> lt (a ! i) (a ! (i - 1)) = d"
        using less.hyps [of "Suc lo" s1 "Suc n"] less.prems s1 True by force
      have "lt (a ! i) (a ! (i - 1)) = d" if "lo \<le> i" "i < lo + Suc r" for i
        using r(4) d that by (cases "i = lo") auto
      with r(1-3) True s1 d show ?thesis
        by (intro exI [of _ "Suc r"] exI [of _ s2])
          (simp add: count_run_loop.simps [of islt d a lo hi n s])
    next
      case False
      then show ?thesis using True s1
        by (intro exI [of _ 0] exI [of _ s1]) (auto simp: count_run_loop.simps [of islt d a lo hi n s])
    qed
  qed (use less.prems in \<open>auto intro!: exI [of _ 0] simp: count_run_loop.simps\<close>)
qed

lemma count_run_correct:
  assumes "decides P K lt islt" "P s" "set a \<subseteq> K" "lo < hi" "hi \<le> length a"
  obtains n d s' where "count_run islt a lo hi s = (Some (n, d), s')" "P s'" "1 \<le> n" "lo + n \<le> hi"
    "\<And>i. lo < i \<Longrightarrow> i < lo + n \<Longrightarrow> lt (a ! i) (a ! (i - 1)) = d"
proof (cases "Suc lo = hi")
  case True
  show thesis
    by (rule that [of 1 False s]) (use True assms(2) in \<open>simp_all add: count_run_def\<close>)
next
  case False
  then have "a ! Suc lo \<in> K" "a ! lo \<in> K" and lo: "lo + 2 \<le> hi"
    using assms by (simp_all add: subset_code(1))
  then obtain s1 where s1: "islt (a ! Suc lo) (a ! lo) s = (Some (lt (a ! Suc lo) (a ! lo)), s1)" "P s1"
    using decidesE [OF assms(1) _ _ assms(2)] by blast
  define d where "d = lt (a ! Suc lo) (a ! lo)"
  obtain r s2 where r: "count_run_loop islt d a (lo + 2) hi 2 s1 = (Some (2 + r), s2)" "P s2" "lo + 2 + r \<le> hi"
    "\<forall>i. lo + 2 \<le> i \<and> i < lo + 2 + r \<longrightarrow> lt (a ! i) (a ! (i - 1)) = d"
    using count_run_loop_correct [OF assms(1) s1(2) assms(3) _ lo assms(5), of d 2] by auto
  have "lt (a ! i) (a ! (i - 1)) = d" if "lo < i" "i < lo + (2 + r)" for i
    using r(4) that by (cases "i = Suc lo") (auto simp: d_def)
  with r s1 False show thesis
    by (intro that [of "2 + r" d s2]) (auto simp: count_run_def d_def)
qed

text \<open>A run is sorted, or strictly descending and then sorted stably by reversing it.\<close>

lemma neighbours_sorted:
  assumes "transp R" "lo + n \<le> length a" "\<And>i. lo < i \<Longrightarrow> i < lo + n \<Longrightarrow> R (a ! (i - 1)) (a ! i)"
  shows "sorted_wrt R (take n (drop lo a))"
proof -
  have "R (a ! (lo + i)) (a ! Suc (lo + i))" if "Suc i < n" for i
    using assms(3) [of "Suc (lo + i)"] that by simp
  with assms(1,2) show ?thesis
    by (simp add: sorted_wrt_iff_nth_Suc_transp)
qed

lemma sorted_wrt_unrelated_short:
  "sorted_wrt R ys \<Longrightarrow> (\<forall>x\<in>set ys. \<forall>y\<in>set ys. \<not> R x y) \<Longrightarrow> length ys \<le> 1"
  by (cases ys rule: remdups_adj.cases) auto

lemma stable_sorted_rev_descending:
  assumes lt: "strict_weak_order lt" and xs: "sorted_wrt (\<lambda>x y. lt y x) xs"
  shows "stable_sorted lt xs (rev xs)"
proof -
  have "sorted_by lt (rev xs)"
    using xs strict_weak_order.asym [OF lt]
    by (auto simp: sorted_by_def sorted_wrt_rev elim: sorted_wrt_mono_rel [rotated])
  moreover have "filter (tied lt z) (rev xs) = filter (tied lt z) xs" for z
  proof -
    have "sorted_wrt (\<lambda>x y. lt y x) (filter (tied lt z) xs)"
      using xs by (rule sorted_wrt_filter)
    moreover have "\<not> lt y x" if "tied lt z x" "tied lt z y" for x y
      using that strict_weak_order.ntrans [OF lt, of y x z] by (auto simp: tied_def)
    ultimately have "length (filter (tied lt z) xs) \<le> 1"
      by (intro sorted_wrt_unrelated_short) auto
    then show ?thesis
      by (cases "filter (tied lt z) xs") (simp_all flip: rev_filter)
  qed
  ultimately show ?thesis by (simp add: stable_sorted_def)
qed

section \<open>Binary insertion\<close>

lemma slide_update:
  "length pre = l \<Longrightarrow> p = l + length xs \<Longrightarrow>
     (slide (pre @ xs @ y # post) p l)[l := v] = pre @ v # xs @ post"
proof (induction xs arbitrary: p y post rule: rev_induct)
  case Nil
  then show ?case by (simp add: slide.simps cell_simps)
next
  case (snoc x xs)
  have "slide (pre @ (xs @ [x]) @ y # post) p l = slide (pre @ xs @ x # (x # post)) (p - 1) l"
    using snoc.prems
    by (subst slide.simps) (simp add: nth_append list_update_append)
  then show ?case using snoc.IH [of "p - 1" x "x # post"] snoc.prems by simp
qed

text \<open>Inserting behind the elements that do not exceed it is a stable merge with a single element.\<close>

lemma smerge_insert:
  assumes "\<forall>x\<in>set as. \<not> lt v x" "\<forall>x\<in>set bs. lt v x"
  shows "smerge lt (as @ bs) [v] = as @ v # bs"
proof (cases bs)
  case Nil
  then show ?thesis using assms by (simp add: smerge_left_le)
qed (use assms in \<open>simp add: smerge_take_left\<close>)

lemma binarysort_loop_step:
  assumes "start < hi" "bisect_loop (\<lambda>p s. neg (islt (a ! start) (a ! p) s)) lo start s = (r, s1)"
  shows "binarysort_loop islt lo hi start a s =
    (case r of None \<Rightarrow> (False, a, s1)
     | Some l \<Rightarrow> binarysort_loop islt lo hi (Suc start) ((slide a start l)[l := a ! start]) s1)"
  using assms by (simp add: binarysort_loop.simps [of islt lo hi start a s] Let_def split: option.split)

lemma slide_insert:
  assumes "length pre = lo" "start = lo + length xs" "lo \<le> l" "l \<le> start"
  shows "(slide (pre @ xs @ (y # ys) @ post) start l)[l := y]
    = pre @ (take (l - lo) xs @ y # drop (l - lo) xs) @ ys @ post"
proof -
  have eq: "pre @ xs @ (y # ys) @ post = (pre @ take (l - lo) xs) @ drop (l - lo) xs @ y # ys @ post"
    by (metis append_assoc append_Cons append_take_drop_id)
  show ?thesis
    unfolding eq using slide_update [of "pre @ take (l - lo) xs" l start "drop (l - lo) xs" y "ys @ post" y] assms
    by simp
qed

lemma binarysort_loop_mset:
  assumes "binarysort_loop islt lo hi start (pre @ xs @ ys @ post) s = (ok, a', s')"
    and "length pre = lo" "start = lo + length xs" "hi = start + length ys"
  shows "\<exists>zs. a' = pre @ zs @ post \<and> mset zs = mset (xs @ ys)"
  using assms
proof (induction ys arbitrary: xs start s)
  case Nil
  then show ?case by (auto simp: binarysort_loop.simps)
next
  case (Cons y ys)
  let ?a = "pre @ xs @ (y # ys) @ post"
  obtain r s1 where b: "bisect_loop (\<lambda>p s. neg (islt (?a ! start) (?a ! p) s)) lo start s = (r, s1)"
    by force
  have y: "?a ! start = y" and start: "start < hi" using Cons.prems by (simp_all add: nth_append)
  note step = binarysort_loop_step [of start hi islt ?a lo s r s1, OF start b]
  show ?case
  proof (cases r)
    case None
    with Cons.prems(1) step show ?thesis by (intro exI [of _ "xs @ y # ys"]) simp
  next
    case (Some l)
    have l: "lo \<le> l" "l \<le> start" using bisect_bounds b Some Cons.prems by force+
    let ?xs = "take (l - lo) xs @ y # drop (l - lo) xs"
    have "binarysort_loop islt lo hi (Suc start) (pre @ ?xs @ ys @ post) s1 = (ok, a', s')"
      using Cons.prems(1) step Some slide_insert [OF Cons.prems(2,3) l] y by (simp del: append.simps append_assoc)
    moreover have "mset (?xs @ ys) = mset (xs @ y # ys)"
      using append_take_drop_id [of "l - lo" xs] by (metis (no_types, lifting) mset_append
        mset.simps(2) union_mset_add_mset_right add_mset_add_single append_assoc append_Cons)
    moreover have "\<exists>zs. a' = pre @ zs @ post \<and> mset zs = mset (?xs @ ys)"
      using calculation(1) by (rule Cons.IH) (use Cons.prems(2-4) l in simp_all)
    ultimately show ?thesis by metis
  qed
qed

lemma insertion_point:
  assumes lt: "strict_weak_order lt" and d: "decides P K lt islt" and s: "P s"
    and K: "y \<in> K" "set xs \<subseteq> K" and xs: "sorted_by lt xs" and lo: "length pre = lo"
  obtains l s' where
    "bisect_loop (\<lambda>p s. neg (islt y ((pre @ xs @ post) ! p) s)) lo (lo + length xs) s = (Some l, s')"
    "P s'" "lo \<le> l" "l \<le> lo + length xs"
    "\<forall>x\<in>set (take (l - lo) xs). \<not> lt y x" "\<forall>x\<in>set (drop (l - lo) xs). lt y x"
proof -
  let ?Q = "\<lambda>p. \<not> lt y ((pre @ xs @ post) ! p)"
  have nth: "(pre @ xs @ post) ! p = xs ! (p - lo)" if "lo \<le> p" "p < lo + length xs" for p
    using that lo by (simp add: nth_append less_diff_conv2)
  have K': "(pre @ xs @ post) ! p \<in> K" if "lo \<le> p" "p < lo + length xs" for p
    using nth [OF that] that K(2) by (simp add: subset_code(1) less_diff_conv2)
  have "answers P {lo..<lo + length xs} ?Q (\<lambda>p s. neg (islt y ((pre @ xs @ post) ! p) s))"
    using d K(1) K' by (simp add: answers_def decides_def neg_def)
  moreover have "?Q i" if "lo \<le> i" "i \<le> j" "j < lo + length xs" "?Q j" for i j
    using that nth sorted_wrt_nth_less [OF xs [unfolded sorted_by_def], of "i - lo" "j - lo"]
      strict_weak_order.le_trans [OF lt, of "xs ! (j - lo)" "xs ! (i - lo)" y]
    by (cases "i = j") (auto simp: diff_less_mono less_diff_conv2)
  ultimately have "\<exists>l s'. bisect_loop (\<lambda>p s. neg (islt y ((pre @ xs @ post) ! p) s)) lo
      (lo + length xs) s = (Some l, s') \<and> P s' \<and> cut_at ?Q lo (lo + length xs) l"
    using s by (intro bisect_correct) simp_all
  then obtain l s' where b: "bisect_loop (\<lambda>p s. neg (islt y ((pre @ xs @ post) ! p) s)) lo
      (lo + length xs) s = (Some l, s')" "P s'" "cut_at ?Q lo (lo + length xs) l"
    by blast
  then have l: "lo \<le> l" "l \<le> lo + length xs" by (simp_all add: cut_at_def)
  have "\<not> lt y (xs ! i)" if "i < l - lo" for i
  proof -
    have "lo \<le> lo + i" "lo + i < l" using that by auto
    with b(3) l nth [of "lo + i"] show ?thesis by (auto simp: cut_at_def dest!: spec [of _ "lo + i"])
  qed
  moreover have "lt y (xs ! i)" if "l - lo \<le> i" "i < length xs" for i
    using b(3) l that nth [of "lo + i"] by (auto simp: cut_at_def dest!: spec [of _ "lo + i"])
  ultimately have "\<forall>x\<in>set (take (l - lo) xs). \<not> lt y x" "\<forall>x\<in>set (drop (l - lo) xs). lt y x"
    using l by (auto simp: in_set_conv_nth)
  with b(1,2) l show thesis by (rule that)
qed

lemma binarysort_loop_correct:
  assumes "strict_weak_order lt" "decides P K lt islt" "P s" "set (xs @ ys) \<subseteq> K"
    and "length pre = lo" "start = lo + length xs" "hi = start + length ys"
    and "stable_sorted lt us xs"
  shows "\<exists>zs s'. binarysort_loop islt lo hi start (pre @ xs @ ys @ post) s = (True, pre @ zs @ post, s') \<and>
    P s' \<and> stable_sorted lt (us @ ys) zs"
  using assms
proof (induction ys arbitrary: xs us start s)
  case Nil
  then show ?case by (auto simp: binarysort_loop.simps)
next
  case (Cons y ys)
  let ?a = "pre @ xs @ (y # ys) @ post"
  have y: "?a ! start = y" and start: "start < hi" using Cons.prems by (simp_all add: nth_append)
  have "sorted_by lt xs" using Cons.prems(8) by (simp add: stable_sorted_def)
  with Cons.prems obtain l s1 where
    b: "bisect_loop (\<lambda>p s. neg (islt y (?a ! p) s)) lo start s = (Some l, s1)" "P s1"
    and l: "lo \<le> l" "l \<le> start"
    and cut: "\<forall>x\<in>set (take (l - lo) xs). \<not> lt y x" "\<forall>x\<in>set (drop (l - lo) xs). lt y x"
    using insertion_point [OF Cons.prems(1-3), of y xs pre lo "(y # ys) @ post"] by auto
  let ?xs = "take (l - lo) xs @ y # drop (l - lo) xs"
  have step: "binarysort_loop islt lo hi start ?a s =
      binarysort_loop islt lo hi (Suc start) (pre @ ?xs @ ys @ post) s1"
    using binarysort_loop_step [OF start, of islt ?a lo s] b y slide_insert [OF Cons.prems(5,6) l]
    by (simp del: append.simps append_assoc)
  have "stable_sorted lt (us @ [y]) ?xs"
    using strict_weak_order.stable_sorted_smerge [OF Cons.prems(1,8) stable_sorted_refl [of lt "[y]"]]
      smerge_insert [of _ lt y, OF cut] by simp
  moreover have "set (?xs @ ys) \<subseteq> K"
    using Cons.prems(4) set_take_subset [of "l - lo" xs] set_drop_subset [of "l - lo" xs] by auto
  ultimately show ?case
    unfolding step using Cons.IH [OF Cons.prems(1,2) b(2), of ?xs "Suc start" "us @ [y]"] Cons.prems(5-7) l
    by auto
qed

end
