(* ===== verification/Sort_Merge.thy ===== *)
theory Sort_Merge
  imports Sort_Search
begin

text \<open>
  Merging two adjacent runs in place: \<open>merge_init\<close>, the temporary storage of a
  \<open>MergeState\<close>, \<open>merge_lo\<close>, \<open>merge_hi\<close> and \<open>merge_at\<close> of \<open>checked_list.c\<close>.

  Pointers into the array being sorted are indices; they are integers because
  \<open>merge_hi\<close> steps one slot before the run it copies from. The temporary storage holds
  exactly the run copied into it. The asserts at the head of the copy loops are kept as
  an outcome of their own (\<open>AssertionFailed\<close>), so that their validity is a theorem.
  \<open>mem\<close> answers whether the allocator grants a block of the given number of bytes.
\<close>

section \<open>Definitions\<close>

abbreviation MIN_GALLOP :: nat where
  "MIN_GALLOP \<equiv> 7"

abbreviation MERGESTATE_TEMP_SIZE :: nat where
  "MERGESTATE_TEMP_SIZE \<equiv> 256"

abbreviation MAX_MERGE_PENDING :: nat where
  "MAX_MERGE_PENDING \<equiv> 85"

text \<open>Where \<open>ms->a.keys\<close> points: at \<open>temparray\<close>, at a heap block, or nowhere.\<close>

datatype temp_ptr = TempArray | HeapBlock | NoBlock

record 'a MergeState =
  arr :: "'a list"
  min_gallop :: nat
  a_keys :: temp_ptr
  a_values :: bool
  alloced :: nat
  pending :: "(nat \<times> nat) list"

datatype sort_result = SortOk | SortError | AssertionFailed

definition merge_init :: "'a list \<Rightarrow> nat \<Rightarrow> bool \<Rightarrow> 'a MergeState" where
  "merge_init a list_size has_keyfunc =
     \<lparr>arr = a, min_gallop = MIN_GALLOP, a_keys = TempArray, a_values = has_keyfunc,
      alloced =
        (if has_keyfunc then
           (let al = (list_size + 1) div 2
            in if MERGESTATE_TEMP_SIZE div 2 < al then MERGESTATE_TEMP_SIZE div 2 else al)
         else MERGESTATE_TEMP_SIZE),
      pending = []\<rparr>"

definition merge_freemem :: "'a MergeState \<Rightarrow> 'a MergeState" where
  "merge_freemem ms = (if a_keys ms \<noteq> TempArray then ms\<lparr>a_keys := NoBlock\<rparr> else ms)"

definition merge_getmem :: "(nat \<Rightarrow> bool) \<Rightarrow> nat \<Rightarrow> 'a MergeState \<Rightarrow> bool \<times> 'a MergeState" where
  "merge_getmem mem need ms =
     (if need \<le> alloced ms then (True, ms)
      else
        (let multiplier = (if a_values ms then 2 else 1);
             ms = merge_freemem ms
         in if need > nat PY_SSIZE_T_MAX div ptr_size div multiplier then (False, ms)
            else if mem (multiplier * need * ptr_size)
            then (True, ms\<lparr>a_keys := HeapBlock, alloced := need\<rparr>)
            else (False, ms\<lparr>a_keys := NoBlock\<rparr>)))"

text \<open>The local variables of \<open>merge_lo\<close> and \<open>merge_hi\<close>, and the array they work on.\<close>

record 'a cursors =
  c_arr :: "'a list"
  c_dest :: int
  c_ssa :: int
  c_ssb :: int
  c_na :: nat
  c_nb :: nat
  c_min_gallop :: nat

text \<open>How a copy loop is left: by a \<open>goto\<close> to one of its labels, or by a failed assert.\<close>

datatype merge_exit = Succeed | Fail | CopyRest | AssertFail

subsection \<open>Merging from the left\<close>

text \<open>\<open>sortslice_copy_incr(&dest, &ssa); --na\<close> and \<open>sortslice_copy_incr(&dest, &ssb); --nb\<close>\<close>

definition lo_take_a :: "'a list \<Rightarrow> 'a cursors \<Rightarrow> 'a cursors" where
  "lo_take_a tmp c = c\<lparr>c_arr := (c_arr c)[nat (c_dest c) := tmp ! nat (c_ssa c)],
     c_dest := c_dest c + 1, c_ssa := c_ssa c + 1, c_na := c_na c - 1\<rparr>"

definition lo_take_b :: "'a cursors \<Rightarrow> 'a cursors" where
  "lo_take_b c = c\<lparr>c_arr := (c_arr c)[nat (c_dest c) := c_arr c ! nat (c_ssb c)],
     c_dest := c_dest c + 1, c_ssb := c_ssb c + 1, c_nb := c_nb c - 1\<rparr>"

text \<open>The block copies of galloping mode, with the three \<open>sortslice_advance\<close> and \<open>-=\<close> after them.\<close>

definition lo_move_a :: "'a list \<Rightarrow> nat \<Rightarrow> 'a cursors \<Rightarrow> 'a cursors" where
  "lo_move_a tmp k c = c\<lparr>c_arr := blit (c_arr c) (nat (c_dest c)) tmp (nat (c_ssa c)) k,
     c_dest := c_dest c + int k, c_ssa := c_ssa c + int k, c_na := c_na c - k\<rparr>"

definition lo_move_b :: "nat \<Rightarrow> 'a cursors \<Rightarrow> 'a cursors" where
  "lo_move_b k c = c\<lparr>c_arr := blit (c_arr c) (nat (c_dest c)) (c_arr c) (nat (c_ssb c)) k,
     c_dest := c_dest c + int k, c_ssb := c_ssb c + int k, c_nb := c_nb c - k\<rparr>"

text \<open>The inner loop that moves one entry at a time; \<open>None\<close> is its \<open>break\<close>.\<close>

function merge_lo_linear ::
  "('a, 's) islt \<Rightarrow> 'a list \<Rightarrow> nat \<Rightarrow> nat \<Rightarrow> nat \<Rightarrow> 'a cursors \<Rightarrow> 's \<Rightarrow>
     merge_exit option \<times> 'a cursors \<times> 's" where
  "merge_lo_linear islt tmp mg acount bcount c s =
     (if \<not> (1 < c_na c \<and> 0 < c_nb c) then (Some AssertFail, c, s)
      else case islt (c_arr c ! nat (c_ssb c)) (tmp ! nat (c_ssa c)) s of
          (None, s') \<Rightarrow> (Some Fail, c, s')
        | (Some k, s') \<Rightarrow>
            if k then
              (let c' = lo_take_b c; bcount' = bcount + 1
               in if c_nb c' = 0 then (Some Succeed, c', s')
                  else if bcount' \<ge> mg then (None, c', s')
                  else merge_lo_linear islt tmp mg 0 bcount' c' s')
            else
              (let c' = lo_take_a tmp c; acount' = acount + 1
               in if c_na c' = 1 then (Some CopyRest, c', s')
                  else if acount' \<ge> mg then (None, c', s')
                  else merge_lo_linear islt tmp mg acount' 0 c' s'))"
  by pat_completeness auto
termination
  by (relation "measure (\<lambda>(islt, tmp, mg, ac, bc, c, s). c_na c + c_nb c)")
    (auto simp: lo_take_a_def lo_take_b_def)

text \<open>
  One round of the galloping \<open>do ... while\<close>, in two halves: entries of \<open>A\<close> and one of \<open>B\<close>, then
  entries of \<open>B\<close> and one of \<open>A\<close>. The first component is \<open>Inl\<close> of the exit, or \<open>Inr\<close> of the loop
  condition.
\<close>

definition merge_lo_gallop_b ::
  "('a, 's) islt \<Rightarrow> 'a list \<Rightarrow> nat \<Rightarrow> 'a cursors \<Rightarrow> 's \<Rightarrow> (merge_exit + bool) \<times> 'a cursors \<times> 's" where
  "merge_lo_gallop_b islt tmp acount c s =
     (case gallop_left islt (tmp ! nat (c_ssa c)) (drop (nat (c_ssb c)) (c_arr c)) (c_nb c) 0 s of
        (None, s') \<Rightarrow> (Inl Fail, c, s')
      | (Some bcount, s') \<Rightarrow>
          (let c1 = (if bcount \<noteq> 0 then lo_move_b bcount c else c) in
           if bcount \<noteq> 0 \<and> c_nb c1 = 0 then (Inl Succeed, c1, s')
           else
             (let c2 = lo_take_a tmp c1 in
              if c_na c2 = 1 then (Inl CopyRest, c2, s')
              else (Inr (acount \<ge> MIN_GALLOP \<or> bcount \<ge> MIN_GALLOP), c2, s'))))"

definition merge_lo_gallop_round ::
  "('a, 's) islt \<Rightarrow> 'a list \<Rightarrow> nat \<Rightarrow> 'a cursors \<Rightarrow> 's \<Rightarrow> (merge_exit + bool) \<times> 'a cursors \<times> 's" where
  "merge_lo_gallop_round islt tmp mg c s =
     (if \<not> (1 < c_na c \<and> 0 < c_nb c) then (Inl AssertFail, c, s)
      else
        (let c0 = c\<lparr>c_min_gallop := mg\<rparr> in
         case gallop_right islt (c_arr c0 ! nat (c_ssb c0)) (drop (nat (c_ssa c0)) tmp) (c_na c0) 0 s of
           (None, s1) \<Rightarrow> (Inl Fail, c0, s1)
         | (Some acount, s1) \<Rightarrow>
             (let c1 = (if acount \<noteq> 0 then lo_move_a tmp acount c0 else c0) in
              if acount \<noteq> 0 \<and> c_na c1 = 1 then (Inl CopyRest, c1, s1)
              else if acount \<noteq> 0 \<and> c_na c1 = 0 then (Inl Succeed, c1, s1)
              else
                (let c2 = lo_take_b c1 in
                 if c_nb c2 = 0 then (Inl Succeed, c2, s1)
                 else merge_lo_gallop_b islt tmp acount c2 s1))))"

lemma merge_lo_gallop_round_shrinks:
  "merge_lo_gallop_round islt tmp mg c s = (Inr b, c', s') \<Longrightarrow> c_na c' + c_nb c' < c_na c + c_nb c"
  by (auto simp: merge_lo_gallop_round_def merge_lo_gallop_b_def Let_def
      lo_take_a_def lo_take_b_def lo_move_a_def lo_move_b_def
      split: if_splits prod.splits option.splits)

function merge_lo_gallop ::
  "('a, 's) islt \<Rightarrow> 'a list \<Rightarrow> nat \<Rightarrow> 'a cursors \<Rightarrow> 's \<Rightarrow>
     merge_exit option \<times> nat \<times> 'a cursors \<times> 's" where
  "merge_lo_gallop islt tmp mg c s =
     (let mg' = mg - (if mg > 1 then 1 else 0) in
      case merge_lo_gallop_round islt tmp mg' c s of
        (Inl e, c', s') \<Rightarrow> (Some e, mg', c', s')
      | (Inr b, c', s') \<Rightarrow>
          if b then merge_lo_gallop islt tmp mg' c' s' else (None, mg', c', s'))"
  by pat_completeness auto
termination
  by (relation "measure (\<lambda>(islt, tmp, mg, c, s). c_na c + c_nb c)")
    (auto dest!: merge_lo_gallop_round_shrinks [OF sym])

declare merge_lo_linear.simps [simp del] merge_lo_gallop.simps [simp del]

lemma merge_lo_linear_shrinks:
  "merge_lo_linear islt tmp mg ac bc c s = (None, c', s') \<Longrightarrow> c_na c' + c_nb c' < c_na c + c_nb c"
proof (induction "c_na c + c_nb c" arbitrary: ac bc c s rule: less_induct)
  case less
  have "c_na (lo_take_a tmp c) + c_nb (lo_take_a tmp c) < c_na c + c_nb c" if "1 < c_na c"
    using that by (simp add: lo_take_a_def)
  moreover have "c_na (lo_take_b c) + c_nb (lo_take_b c) < c_na c + c_nb c" if "0 < c_nb c"
    using that by (simp add: lo_take_b_def)
  ultimately show ?case
    using less.prems less.hyps [of "lo_take_a tmp c"] less.hyps [of "lo_take_b c"]
    by (subst (asm) merge_lo_linear.simps)
      (fastforce simp: Let_def split: if_splits prod.splits option.splits)
qed

lemma merge_lo_gallop_shrinks:
  "merge_lo_gallop islt tmp mg c s = (None, mg', c', s') \<Longrightarrow> c_na c' + c_nb c' < c_na c + c_nb c"
proof (induction "c_na c + c_nb c" arbitrary: mg c s rule: less_induct)
  case less
  let ?mg = "mg - (if mg > 1 then 1 else 0)"
  obtain r c1 s1 where r: "merge_lo_gallop_round islt tmp ?mg c s = (r, c1, s1)" by (metis prod_cases3)
  with less.prems less.hyps [of c1 ?mg s1] show ?case
    by (subst (asm) merge_lo_gallop.simps)
      (auto simp: Let_def dest!: merge_lo_gallop_round_shrinks split: sum.splits if_splits)
qed

text \<open>The outer \<open>for (;;)\<close>: one-at-a-time mode and galloping mode in turn.\<close>

function merge_lo_loop ::
  "('a, 's) islt \<Rightarrow> 'a list \<Rightarrow> nat \<Rightarrow> 'a cursors \<Rightarrow> 's \<Rightarrow> merge_exit \<times> 'a cursors \<times> 's" where
  "merge_lo_loop islt tmp mg c s =
     (case merge_lo_linear islt tmp mg 0 0 c s of
        (Some e, c', s') \<Rightarrow> (e, c', s')
      | (None, c', s') \<Rightarrow>
          (case merge_lo_gallop islt tmp (mg + 1) c' s' of
             (Some e, mg', c'', s'') \<Rightarrow> (e, c'', s'')
           | (None, mg', c'', s'') \<Rightarrow>
               merge_lo_loop islt tmp (mg' + 1) (c''\<lparr>c_min_gallop := mg' + 1\<rparr>) s''))"
  by pat_completeness auto
termination
  by (relation "measure (\<lambda>(islt, tmp, mg, c, s). c_na c + c_nb c)")
    (auto dest!: merge_lo_linear_shrinks [OF sym] merge_lo_gallop_shrinks [OF sym])

text \<open>The code behind the labels \<open>Succeed\<close>, \<open>Fail\<close> and \<open>CopyB\<close>.\<close>

fun merge_lo_finish :: "'a list \<Rightarrow> merge_exit \<Rightarrow> 'a cursors \<Rightarrow> sort_result \<times> 'a list" where
  "merge_lo_finish tmp CopyRest c =
     (let a = blit (c_arr c) (nat (c_dest c)) (c_arr c) (nat (c_ssb c)) (c_nb c)
      in (SortOk, a[nat (c_dest c) + c_nb c := tmp ! nat (c_ssa c)]))"
| "merge_lo_finish tmp AssertFail c = (AssertionFailed, c_arr c)"
| "merge_lo_finish tmp e c =
     (if e = Succeed then SortOk else SortError,
      if c_na c \<noteq> 0 then blit (c_arr c) (nat (c_dest c)) tmp (nat (c_ssa c)) (c_na c) else c_arr c)"

definition merge_lo ::
  "(nat \<Rightarrow> bool) \<Rightarrow> ('a, 's) islt \<Rightarrow> nat \<Rightarrow> nat \<Rightarrow> nat \<Rightarrow> nat \<Rightarrow> 'a MergeState \<Rightarrow> 's \<Rightarrow>
     sort_result \<times> 'a MergeState \<times> 's" where
  "merge_lo mem islt ssa na ssb nb ms s =
     (case merge_getmem mem na ms of
        (False, ms) \<Rightarrow> (SortError, ms, s)
      | (True, ms) \<Rightarrow>
          (let tmp = take na (drop ssa (arr ms));
               c = lo_take_b \<lparr>c_arr = arr ms, c_dest = int ssa, c_ssa = 0, c_ssb = int ssb,
                     c_na = na, c_nb = nb, c_min_gallop = min_gallop ms\<rparr>;
               (e, c, s) =
                 (if c_nb c = 0 then (Succeed, c, s)
                  else if c_na c = 1 then (CopyRest, c, s)
                  else merge_lo_loop islt tmp (min_gallop ms) c s);
               (r, a) = merge_lo_finish tmp e c
           in (r, ms\<lparr>arr := a, min_gallop := c_min_gallop c\<rparr>, s)))"

subsection \<open>Merging from the right\<close>

text \<open>\<open>sortslice_copy_decr(&dest, &ssa); --na\<close> and \<open>sortslice_copy_decr(&dest, &ssb); --nb\<close>\<close>

definition hi_take_a :: "'a cursors \<Rightarrow> 'a cursors" where
  "hi_take_a c = c\<lparr>c_arr := (c_arr c)[nat (c_dest c) := c_arr c ! nat (c_ssa c)],
     c_dest := c_dest c - 1, c_ssa := c_ssa c - 1, c_na := c_na c - 1\<rparr>"

definition hi_take_b :: "'a list \<Rightarrow> 'a cursors \<Rightarrow> 'a cursors" where
  "hi_take_b tmp c = c\<lparr>c_arr := (c_arr c)[nat (c_dest c) := tmp ! nat (c_ssb c)],
     c_dest := c_dest c - 1, c_ssb := c_ssb c - 1, c_nb := c_nb c - 1\<rparr>"

definition hi_move_a :: "nat \<Rightarrow> 'a cursors \<Rightarrow> 'a cursors" where
  "hi_move_a k c =
     (let dest = c_dest c - int k; ssa = c_ssa c - int k
      in c\<lparr>c_arr := blit (c_arr c) (nat (dest + 1)) (c_arr c) (nat (ssa + 1)) k,
           c_dest := dest, c_ssa := ssa, c_na := c_na c - k\<rparr>)"

definition hi_move_b :: "'a list \<Rightarrow> nat \<Rightarrow> 'a cursors \<Rightarrow> 'a cursors" where
  "hi_move_b tmp k c =
     (let dest = c_dest c - int k; ssb = c_ssb c - int k
      in c\<lparr>c_arr := blit (c_arr c) (nat (dest + 1)) tmp (nat (ssb + 1)) k,
           c_dest := dest, c_ssb := ssb, c_nb := c_nb c - k\<rparr>)"

function merge_hi_linear ::
  "('a, 's) islt \<Rightarrow> 'a list \<Rightarrow> nat \<Rightarrow> nat \<Rightarrow> nat \<Rightarrow> 'a cursors \<Rightarrow> 's \<Rightarrow>
     merge_exit option \<times> 'a cursors \<times> 's" where
  "merge_hi_linear islt tmp mg acount bcount c s =
     (if \<not> (0 < c_na c \<and> 1 < c_nb c) then (Some AssertFail, c, s)
      else case islt (tmp ! nat (c_ssb c)) (c_arr c ! nat (c_ssa c)) s of
          (None, s') \<Rightarrow> (Some Fail, c, s')
        | (Some k, s') \<Rightarrow>
            if k then
              (let c' = hi_take_a c; acount' = acount + 1
               in if c_na c' = 0 then (Some Succeed, c', s')
                  else if acount' \<ge> mg then (None, c', s')
                  else merge_hi_linear islt tmp mg acount' 0 c' s')
            else
              (let c' = hi_take_b tmp c; bcount' = bcount + 1
               in if c_nb c' = 1 then (Some CopyRest, c', s')
                  else if bcount' \<ge> mg then (None, c', s')
                  else merge_hi_linear islt tmp mg 0 bcount' c' s'))"
  by pat_completeness auto
termination
  by (relation "measure (\<lambda>(islt, tmp, mg, ac, bc, c, s). c_na c + c_nb c)")
    (auto simp: hi_take_a_def hi_take_b_def)

definition merge_hi_gallop_b ::
  "('a, 's) islt \<Rightarrow> 'a list \<Rightarrow> nat \<Rightarrow> 'a cursors \<Rightarrow> 's \<Rightarrow> (merge_exit + bool) \<times> 'a cursors \<times> 's" where
  "merge_hi_gallop_b islt tmp acount c s =
     (case gallop_left islt (c_arr c ! nat (c_ssa c)) tmp (c_nb c) (c_nb c - 1) s of
        (None, s') \<Rightarrow> (Inl Fail, c, s')
      | (Some k, s') \<Rightarrow>
          (let bcount = c_nb c - k;
               c1 = (if bcount \<noteq> 0 then hi_move_b tmp bcount c else c) in
           if bcount \<noteq> 0 \<and> c_nb c1 = 1 then (Inl CopyRest, c1, s')
           else if bcount \<noteq> 0 \<and> c_nb c1 = 0 then (Inl Succeed, c1, s')
           else
             (let c2 = hi_take_a c1 in
              if c_na c2 = 0 then (Inl Succeed, c2, s')
              else (Inr (acount \<ge> MIN_GALLOP \<or> bcount \<ge> MIN_GALLOP), c2, s'))))"

definition merge_hi_gallop_round ::
  "('a, 's) islt \<Rightarrow> nat \<Rightarrow> 'a list \<Rightarrow> nat \<Rightarrow> 'a cursors \<Rightarrow> 's \<Rightarrow>
     (merge_exit + bool) \<times> 'a cursors \<times> 's" where
  "merge_hi_gallop_round islt basea tmp mg c s =
     (if \<not> (0 < c_na c \<and> 1 < c_nb c) then (Inl AssertFail, c, s)
      else
        (let c0 = c\<lparr>c_min_gallop := mg\<rparr> in
         case gallop_right islt (tmp ! nat (c_ssb c0)) (drop basea (c_arr c0)) (c_na c0) (c_na c0 - 1) s of
           (None, s1) \<Rightarrow> (Inl Fail, c0, s1)
         | (Some k, s1) \<Rightarrow>
             (let acount = c_na c0 - k;
                  c1 = (if acount \<noteq> 0 then hi_move_a acount c0 else c0) in
              if acount \<noteq> 0 \<and> c_na c1 = 0 then (Inl Succeed, c1, s1)
              else
                (let c2 = hi_take_b tmp c1 in
                 if c_nb c2 = 1 then (Inl CopyRest, c2, s1)
                 else merge_hi_gallop_b islt tmp acount c2 s1))))"

lemma merge_hi_gallop_round_shrinks:
  "merge_hi_gallop_round islt basea tmp mg c s = (Inr b, c', s') \<Longrightarrow>
     c_na c' + c_nb c' < c_na c + c_nb c"
  by (auto simp: merge_hi_gallop_round_def merge_hi_gallop_b_def Let_def
      hi_take_a_def hi_take_b_def hi_move_a_def hi_move_b_def
      split: if_splits prod.splits option.splits)

function merge_hi_gallop ::
  "('a, 's) islt \<Rightarrow> nat \<Rightarrow> 'a list \<Rightarrow> nat \<Rightarrow> 'a cursors \<Rightarrow> 's \<Rightarrow>
     merge_exit option \<times> nat \<times> 'a cursors \<times> 's" where
  "merge_hi_gallop islt basea tmp mg c s =
     (let mg' = mg - (if mg > 1 then 1 else 0) in
      case merge_hi_gallop_round islt basea tmp mg' c s of
        (Inl e, c', s') \<Rightarrow> (Some e, mg', c', s')
      | (Inr b, c', s') \<Rightarrow>
          if b then merge_hi_gallop islt basea tmp mg' c' s' else (None, mg', c', s'))"
  by pat_completeness auto
termination
  by (relation "measure (\<lambda>(islt, basea, tmp, mg, c, s). c_na c + c_nb c)")
    (auto dest!: merge_hi_gallop_round_shrinks [OF sym])

declare merge_hi_linear.simps [simp del] merge_hi_gallop.simps [simp del]

lemma merge_hi_linear_shrinks:
  "merge_hi_linear islt tmp mg ac bc c s = (None, c', s') \<Longrightarrow> c_na c' + c_nb c' < c_na c + c_nb c"
proof (induction "c_na c + c_nb c" arbitrary: ac bc c s rule: less_induct)
  case less
  have "c_na (hi_take_a c) + c_nb (hi_take_a c) < c_na c + c_nb c" if "0 < c_na c"
    using that by (simp add: hi_take_a_def)
  moreover have "c_na (hi_take_b tmp c) + c_nb (hi_take_b tmp c) < c_na c + c_nb c" if "1 < c_nb c"
    using that by (simp add: hi_take_b_def)
  ultimately show ?case
    using less.prems less.hyps [of "hi_take_a c"] less.hyps [of "hi_take_b tmp c"]
    by (subst (asm) merge_hi_linear.simps)
      (fastforce simp: Let_def split: if_splits prod.splits option.splits)
qed

lemma merge_hi_gallop_shrinks:
  "merge_hi_gallop islt basea tmp mg c s = (None, mg', c', s') \<Longrightarrow> c_na c' + c_nb c' < c_na c + c_nb c"
proof (induction "c_na c + c_nb c" arbitrary: mg c s rule: less_induct)
  case less
  let ?mg = "mg - (if mg > 1 then 1 else 0)"
  obtain r c1 s1 where r: "merge_hi_gallop_round islt basea tmp ?mg c s = (r, c1, s1)"
    by (metis prod_cases3)
  with less.prems less.hyps [of c1 ?mg s1] show ?case
    by (subst (asm) merge_hi_gallop.simps)
      (auto simp: Let_def dest!: merge_hi_gallop_round_shrinks split: sum.splits if_splits)
qed

function merge_hi_loop ::
  "('a, 's) islt \<Rightarrow> nat \<Rightarrow> 'a list \<Rightarrow> nat \<Rightarrow> 'a cursors \<Rightarrow> 's \<Rightarrow> merge_exit \<times> 'a cursors \<times> 's" where
  "merge_hi_loop islt basea tmp mg c s =
     (case merge_hi_linear islt tmp mg 0 0 c s of
        (Some e, c', s') \<Rightarrow> (e, c', s')
      | (None, c', s') \<Rightarrow>
          (case merge_hi_gallop islt basea tmp (mg + 1) c' s' of
             (Some e, mg', c'', s'') \<Rightarrow> (e, c'', s'')
           | (None, mg', c'', s'') \<Rightarrow>
               merge_hi_loop islt basea tmp (mg' + 1) (c''\<lparr>c_min_gallop := mg' + 1\<rparr>) s''))"
  by pat_completeness auto
termination
  by (relation "measure (\<lambda>(islt, basea, tmp, mg, c, s). c_na c + c_nb c)")
    (auto dest!: merge_hi_linear_shrinks [OF sym] merge_hi_gallop_shrinks [OF sym])

declare merge_lo_loop.simps [simp del] merge_hi_loop.simps [simp del]

fun merge_hi_finish :: "'a list \<Rightarrow> merge_exit \<Rightarrow> 'a cursors \<Rightarrow> sort_result \<times> 'a list" where
  "merge_hi_finish tmp CopyRest c =
     (let a = blit (c_arr c) (nat (c_dest c + 1 - int (c_na c)))
                   (c_arr c) (nat (c_ssa c + 1 - int (c_na c))) (c_na c)
      in (SortOk, a[nat (c_dest c - int (c_na c)) := tmp ! nat (c_ssb c)]))"
| "merge_hi_finish tmp AssertFail c = (AssertionFailed, c_arr c)"
| "merge_hi_finish tmp e c =
     (if e = Succeed then SortOk else SortError,
      if c_nb c \<noteq> 0 then blit (c_arr c) (nat (c_dest c - (int (c_nb c) - 1))) tmp 0 (c_nb c)
      else c_arr c)"

definition merge_hi ::
  "(nat \<Rightarrow> bool) \<Rightarrow> ('a, 's) islt \<Rightarrow> nat \<Rightarrow> nat \<Rightarrow> nat \<Rightarrow> nat \<Rightarrow> 'a MergeState \<Rightarrow> 's \<Rightarrow>
     sort_result \<times> 'a MergeState \<times> 's" where
  "merge_hi mem islt ssa na ssb nb ms s =
     (case merge_getmem mem nb ms of
        (False, ms) \<Rightarrow> (SortError, ms, s)
      | (True, ms) \<Rightarrow>
          (let tmp = take nb (drop ssb (arr ms));
               c = hi_take_a \<lparr>c_arr = arr ms, c_dest = int ssb + int nb - 1, c_ssa = int ssa + int na - 1,
                     c_ssb = int nb - 1, c_na = na, c_nb = nb, c_min_gallop = min_gallop ms\<rparr>;
               (e, c, s) =
                 (if c_na c = 0 then (Succeed, c, s)
                  else if c_nb c = 1 then (CopyRest, c, s)
                  else merge_hi_loop islt ssa tmp (min_gallop ms) c s);
               (r, a) = merge_hi_finish tmp e c
           in (r, ms\<lparr>arr := a, min_gallop := c_min_gallop c\<rparr>, s)))"

subsection \<open>Merging two runs of the stack\<close>

text \<open>
  \<open>merge_at\<close>: merge the runs at stack indices \<open>i\<close> and \<open>i + 1\<close>. The stack entry of the second run
  goes away; when \<open>i\<close> is the third-last run, the last run slides over.
\<close>

definition merge_at_stack :: "nat \<Rightarrow> (nat \<times> nat) list \<Rightarrow> (nat \<times> nat) list" where
  "merge_at_stack i p =
     (let p = p[i := (fst (p ! i), snd (p ! i) + snd (p ! (i + 1)))];
          p = (if i + 3 = length p then p[i + 1 := p ! (i + 2)] else p)
      in butlast p)"

definition merge_at_runs ::
  "(nat \<Rightarrow> bool) \<Rightarrow> ('a, 's) islt \<Rightarrow> nat \<Rightarrow> nat \<Rightarrow> nat \<Rightarrow> nat \<Rightarrow> 'a MergeState \<Rightarrow> 's \<Rightarrow>
     sort_result \<times> 'a MergeState \<times> 's" where
  "merge_at_runs mem islt ssa na ssb nb ms s =
     (case gallop_right islt (arr ms ! ssb) (drop ssa (arr ms)) na 0 s of
        (None, s1) \<Rightarrow> (SortError, ms, s1)
      | (Some k, s1) \<Rightarrow>
          (let ssa = ssa + k; na = na - k in
           if na = 0 then (SortOk, ms, s1)
           else case gallop_left islt (arr ms ! (ssa + na - 1)) (drop ssb (arr ms)) nb (nb - 1) s1 of
               (None, s2) \<Rightarrow> (SortError, ms, s2)
             | (Some nb, s2) \<Rightarrow>
                 if nb = 0 then (SortOk, ms, s2)
                 else if na \<le> nb then merge_lo mem islt ssa na ssb nb ms s2
                 else merge_hi mem islt ssa na ssb nb ms s2))"

definition merge_at ::
  "(nat \<Rightarrow> bool) \<Rightarrow> ('a, 's) islt \<Rightarrow> nat \<Rightarrow> 'a MergeState \<Rightarrow> 's \<Rightarrow>
     sort_result \<times> 'a MergeState \<times> 's" where
  "merge_at mem islt i ms s =
     (if \<not> (i + 2 = length (pending ms) \<or> i + 3 = length (pending ms)) then (AssertionFailed, ms, s)
      else
        (let (ssa, na) = pending ms ! i;
             (ssb, nb) = pending ms ! (i + 1)
         in if \<not> (0 < na \<and> 0 < nb \<and> ssa + na = ssb) then (AssertionFailed, ms, s)
            else merge_at_runs mem islt ssa na ssb nb
                   (ms\<lparr>pending := merge_at_stack i (pending ms)\<rparr>) s))"

lemma merge_lo_pending:
  "merge_lo mem islt ssa na ssb nb ms s = (r, ms', s') \<Longrightarrow> pending ms' = pending ms"
  by (auto simp: merge_lo_def merge_getmem_def merge_freemem_def Let_def
      split: prod.splits bool.splits if_splits)

lemma merge_hi_pending:
  "merge_hi mem islt ssa na ssb nb ms s = (r, ms', s') \<Longrightarrow> pending ms' = pending ms"
  by (auto simp: merge_hi_def merge_getmem_def merge_freemem_def Let_def
      split: prod.splits bool.splits if_splits)

lemma merge_at_shrinks:
  "merge_at mem islt i ms s = (SortOk, ms', s') \<Longrightarrow> length (pending ms') < length (pending ms)"
  by (auto simp: merge_at_def merge_at_runs_def merge_at_stack_def Let_def
      dest!: merge_lo_pending merge_hi_pending split: prod.splits option.splits if_splits)

subsection \<open>The stack of pending runs\<close>

text \<open>\<open>merge_collapse\<close>: merge until the invariants of the stack are re-established.\<close>

function merge_collapse ::
  "(nat \<Rightarrow> bool) \<Rightarrow> ('a, 's) islt \<Rightarrow> 'a MergeState \<Rightarrow> 's \<Rightarrow> sort_result \<times> 'a MergeState \<times> 's" where
  "merge_collapse mem islt ms s =
     (if length (pending ms) > 1 then
        (let p = pending ms; n = length p - 2 in
         if n > 0 \<and> snd (p ! (n - 1)) \<le> snd (p ! n) + snd (p ! (n + 1)) \<or>
            n > 1 \<and> snd (p ! (n - 2)) \<le> snd (p ! (n - 1)) + snd (p ! n)
         then
           (let n = (if snd (p ! (n - 1)) < snd (p ! (n + 1)) then n - 1 else n) in
            case merge_at mem islt n ms s of
              (SortOk, ms, s) \<Rightarrow> merge_collapse mem islt ms s
            | (r, ms, s) \<Rightarrow> (r, ms, s))
         else if snd (p ! n) \<le> snd (p ! (n + 1)) then
           (case merge_at mem islt n ms s of
              (SortOk, ms, s) \<Rightarrow> merge_collapse mem islt ms s
            | (r, ms, s) \<Rightarrow> (r, ms, s))
         else (SortOk, ms, s))
      else (SortOk, ms, s))"
  by pat_completeness auto
termination
  by (relation "measure (\<lambda>(mem, islt, ms, s). length (pending ms))")
    (auto dest!: merge_at_shrinks [OF sym])

function merge_force_collapse ::
  "(nat \<Rightarrow> bool) \<Rightarrow> ('a, 's) islt \<Rightarrow> 'a MergeState \<Rightarrow> 's \<Rightarrow> sort_result \<times> 'a MergeState \<times> 's" where
  "merge_force_collapse mem islt ms s =
     (if length (pending ms) > 1 then
        (let p = pending ms; n = length p - 2;
             n = (if n > 0 \<and> snd (p ! (n - 1)) < snd (p ! (n + 1)) then n - 1 else n)
         in case merge_at mem islt n ms s of
              (SortOk, ms, s) \<Rightarrow> merge_force_collapse mem islt ms s
            | (r, ms, s) \<Rightarrow> (r, ms, s))
      else (SortOk, ms, s))"
  by pat_completeness auto
termination
  by (relation "measure (\<lambda>(mem, islt, ms, s). length (pending ms))")
    (auto dest!: merge_at_shrinks [OF sym])

declare merge_collapse.simps [simp del] merge_force_collapse.simps [simp del]

subsection \<open>Marching over the array\<close>

text \<open>
  One iteration of the loop of \<open>list_sort_impl\<close> up to the push: identify the next run, reverse it
  when it descends, extend it to \<open>min(minrun, nremaining)\<close> entries when it is short.
\<close>

definition next_run ::
  "('a, 's) islt \<Rightarrow> nat \<Rightarrow> nat \<Rightarrow> nat \<Rightarrow> 'a list \<Rightarrow> 's \<Rightarrow> nat option \<times> 'a list \<times> 's" where
  "next_run islt minrun lo nremaining a s =
     (case count_run islt a lo (lo + nremaining) s of
        (None, s) \<Rightarrow> (None, a, s)
      | (Some (n, descending), s) \<Rightarrow>
          (let a = (if descending then reverse_slice a lo (lo + n) else a) in
           if n < minrun then
             (let force = (if nremaining \<le> minrun then nremaining else minrun) in
              case binarysort islt lo (lo + force) (lo + n) a s of
                (False, a, s) \<Rightarrow> (None, a, s)
              | (True, a, s) \<Rightarrow> (Some force, a, s))
           else (Some n, a, s)))"

definition push_run :: "nat \<Rightarrow> nat \<Rightarrow> 'a MergeState \<Rightarrow> 'a MergeState option" where
  "push_run lo n ms =
     (if length (pending ms) < MAX_MERGE_PENDING then Some (ms\<lparr>pending := pending ms @ [(lo, n)]\<rparr>) else None)"

lemma next_run_bounds:
  assumes "next_run islt minrun lo nremaining a s = (Some n, a', s')" "0 < nremaining"
  shows "0 < n \<and> n \<le> nremaining"
proof -
  obtain r s1 where c: "count_run islt a lo (lo + nremaining) s = (r, s1)" by force
  show ?thesis
  proof (cases r)
    case (Some q)
    obtain k d where "q = (k, d)" by force
    with assms c Some count_run_bounds [of islt a lo "lo + nremaining" s k d s1] show ?thesis
      by (auto simp: next_run_def Let_def split: if_splits prod.splits bool.splits)
  qed (use assms c in \<open>simp add: next_run_def\<close>)
qed

function sort_runs ::
  "(nat \<Rightarrow> bool) \<Rightarrow> ('a, 's) islt \<Rightarrow> nat \<Rightarrow> nat \<Rightarrow> nat \<Rightarrow> 'a MergeState \<Rightarrow> 's \<Rightarrow>
     sort_result \<times> 'a MergeState \<times> 's" where
  "sort_runs mem islt minrun lo nremaining ms s =
     (case next_run islt minrun lo nremaining (arr ms) s of
        (None, a, s) \<Rightarrow> (SortError, ms\<lparr>arr := a\<rparr>, s)
      | (Some n, a, s) \<Rightarrow>
          (case push_run lo n (ms\<lparr>arr := a\<rparr>) of
             None \<Rightarrow> (AssertionFailed, ms\<lparr>arr := a\<rparr>, s)
           | Some ms \<Rightarrow>
               (case merge_collapse mem islt ms s of
                  (SortOk, ms, s) \<Rightarrow>
                    if nremaining - n \<noteq> 0 then sort_runs mem islt minrun (lo + n) (nremaining - n) ms s
                    else (SortOk, ms, s)
                | (r, ms, s) \<Rightarrow> (r, ms, s))))"
  by pat_completeness auto
termination
  by (relation "measure (\<lambda>(mem, islt, minrun, lo, nremaining, ms, s). nremaining)")
    (auto dest!: next_run_bounds [OF sym])

declare sort_runs.simps [simp del]

text \<open>
  The sort proper, on an array of slots: from \<open>merge_init\<close> to the asserts behind
  \<open>merge_force_collapse\<close>.
\<close>

definition sort_slots ::
  "(nat \<Rightarrow> bool) \<Rightarrow> ('a, 's) islt \<Rightarrow> bool \<Rightarrow> 'a list \<Rightarrow> 's \<Rightarrow> sort_result \<times> 'a MergeState \<times> 's" where
  "sort_slots mem islt has_keyfunc a s =
     (let ms = merge_init a (length a) has_keyfunc in
      if length a < 2 then (SortOk, ms, s)
      else
        case sort_runs mem islt (merge_compute_minrun (length a)) 0 (length a) ms s of
          (SortOk, ms, s) \<Rightarrow>
            (case merge_force_collapse mem islt ms s of
               (SortOk, ms, s) \<Rightarrow>
                 if pending ms = [(0, length a)] then (SortOk, ms, s) else (AssertionFailed, ms, s)
             | (r, ms, s) \<Rightarrow> (r, ms, s))
        | (r, ms, s) \<Rightarrow> (r, ms, s))"

end
