(* ===== verification/Sort_Merge_Lo.thy ===== *)
theory Sort_Merge_Lo
  imports Sort_Merge
begin

text \<open>
  The correctness of \<open>merge_lo\<close>. The copy loops are described by what their cursors represent
  (\<open>lo_rep\<close>) and by an invariant that answers for every comparison (\<open>lo_inv\<close>): the array stays a
  rearrangement of its slots even when comparing is inconsistent or raises, the asserts never
  fail, and for a comparison that decides a consistent order the outcome is the reference
  merge of the two runs. \<open>merge_spec\<close> is the contract both merges satisfy.
\<close>

section \<open>Merging from the left\<close>

text \<open>
  The cursors of \<open>merge_lo\<close> represent a merge in progress: \<open>out\<close> is done, \<open>A\<close> is what is left
  in the temporary storage, \<open>B\<close> what is left in place, and between \<open>out\<close> and \<open>B\<close> there is a
  gap exactly as long as \<open>A\<close>.
\<close>

definition lo_rep :: "'a list \<Rightarrow> 'a list \<Rightarrow> 'a list \<Rightarrow> 'a list \<Rightarrow> 'a list \<Rightarrow> 'a list \<Rightarrow> 'a cursors \<Rightarrow> bool" where
  "lo_rep pre post tmp out A B c \<longleftrightarrow>
     (\<exists>gap used. c_arr c = pre @ out @ gap @ B @ post \<and> tmp = used @ A \<and> length gap = length A \<and>
       c_dest c = int (length (pre @ out)) \<and> c_ssb c = int (length (pre @ out @ gap)) \<and>
       c_ssa c = int (length used) \<and> c_na c = length A \<and> c_nb c = length B)"

lemma lo_repE:
  assumes "lo_rep pre post tmp out A B c"
  obtains gap used where "c_arr c = pre @ out @ gap @ B @ post" "tmp = used @ A" "length gap = length A"
    "nat (c_dest c) = length (pre @ out)" "nat (c_ssb c) = length (pre @ out @ gap)"
    "nat (c_ssa c) = length used" "c_na c = length A" "c_nb c = length B"
  using assms unfolding lo_rep_def by (metis nat_int)

lemma lo_rep_min_gallop [simp]:
  "lo_rep pre post tmp out A B (c\<lparr>c_min_gallop := m\<rparr>) = lo_rep pre post tmp out A B c"
  by (simp add: lo_rep_def)

lemma lo_rep_counts: "lo_rep pre post tmp out A B c \<Longrightarrow> c_na c = length A \<and> c_nb c = length B"
  by (auto elim: lo_repE)

lemma lo_rep_rest:
  assumes "lo_rep pre post tmp out A B c"
  shows "drop (nat (c_ssb c)) (c_arr c) = B @ post" "drop (nat (c_ssa c)) tmp = A"
  using assms by (auto elim!: lo_repE)

lemma lo_rep_key_b: "lo_rep pre post tmp out A (b # B) c \<Longrightarrow> c_arr c ! nat (c_ssb c) = b"
  by (auto elim!: lo_repE simp: nth_append)

lemma lo_rep_key_a: "lo_rep pre post tmp out (a # A) B c \<Longrightarrow> tmp ! nat (c_ssa c) = a"
  by (auto elim!: lo_repE)

lemma blit_cells:
  assumes "d = pre @ old @ post" "length pre = i" "length old = n" "take n (drop j src) = new"
  shows "blit d i src j n = pre @ new @ post"
  using assms by (simp add: blit_def)

lemma lo_rep_move_a:
  assumes "lo_rep pre post tmp out A B c" "k \<le> length A"
  shows "lo_rep pre post tmp (out @ take k A) (drop k A) B (lo_move_a tmp k c)"
proof -
  obtain gap used where g: "c_arr c = pre @ out @ gap @ B @ post" "tmp = used @ A" "length gap = length A"
    "c_dest c = int (length (pre @ out))" "c_ssb c = int (length (pre @ out @ gap))"
    "c_ssa c = int (length used)" "c_na c = length A" "c_nb c = length B"
    using assms(1) unfolding lo_rep_def by blast
  have "c_arr c = (pre @ out) @ take k gap @ (drop k gap @ B @ post)"
    unfolding g(1) by (metis append_assoc append_take_drop_id)
  then have "blit (c_arr c) (nat (c_dest c)) tmp (nat (c_ssa c)) k = (pre @ out) @ take k A @ (drop k gap @ B @ post)"
    by (rule blit_cells) (use g assms(2) in simp_all)
  with g assms(2) show ?thesis
    unfolding lo_rep_def lo_move_a_def
    by (intro exI [of _ "drop k gap"] exI [of _ "used @ take k A"]) (simp add: min_def)
qed

lemma lo_rep_move_b:
  assumes "lo_rep pre post tmp out A B c" "k \<le> length B"
  shows "lo_rep pre post tmp (out @ take k B) A (drop k B) (lo_move_b k c)"
proof -
  obtain gap used where g: "c_arr c = pre @ out @ gap @ B @ post" "tmp = used @ A" "length gap = length A"
    "c_dest c = int (length (pre @ out))" "c_ssb c = int (length (pre @ out @ gap))"
    "c_ssa c = int (length used)" "c_na c = length A" "c_nb c = length B"
    using assms(1) unfolding lo_rep_def by blast
  let ?gap = "drop k (gap @ take k B)"
  have "c_arr c = (pre @ out) @ take k (gap @ take k B) @ (?gap @ drop k B @ post)"
    unfolding g(1) by (metis append_assoc append_take_drop_id)
  then have "blit (c_arr c) (nat (c_dest c)) (c_arr c) (nat (c_ssb c)) k
      = (pre @ out) @ take k B @ (?gap @ drop k B @ post)"
    by (rule blit_cells) (use g assms(2) in simp_all)
  moreover have "length ?gap = length A" using g(3) assms(2) by simp
  ultimately show ?thesis
    unfolding lo_rep_def lo_move_b_def using g assms(2)
    by (rule_tac exI [of _ ?gap], rule_tac exI [of _ used]) (simp add: min_def del: drop_append)
qed

text \<open>Taking a single entry is the block move of length one.\<close>

lemma lo_take_a_eq: "lo_rep pre post tmp out (a # A) B c \<Longrightarrow> lo_take_a tmp c = lo_move_a tmp 1 c"
  by (auto simp: lo_take_a_def lo_move_a_def blit_Suc_0 elim!: lo_repE)

lemma lo_take_b_eq: "lo_rep pre post tmp out A (b # B) c \<Longrightarrow> lo_take_b c = lo_move_b 1 c"
  by (auto simp: lo_take_b_def lo_move_b_def blit_Suc_0 elim!: lo_repE)

lemma lo_rep_take_a:
  assumes "lo_rep pre post tmp out (a # A) B c"
  shows "lo_rep pre post tmp (out @ [a]) A B (lo_take_a tmp c)"
  using lo_rep_move_a [OF assms, of 1] by (simp add: lo_take_a_eq [OF assms])

lemma lo_rep_take_b:
  assumes "lo_rep pre post tmp out A (b # B) c"
  shows "lo_rep pre post tmp (out @ [b]) A B (lo_take_b c)"
  using lo_rep_move_b [OF assms, of 1] by (simp add: lo_take_b_eq [OF assms])


section \<open>What a merge keeps true\<close>

text \<open>
  One invariant serves both questions about a merge. Whatever the comparison does, no slot
  is lost or duplicated (\<open>M\<close> is the multiset of all slots). When the comparison decides a
  consistent order (\<open>good\<close>), what is done followed by the reference merge of what is left
  is the reference merge of the two runs (\<open>R\<close>), and the last slot of \<open>A\<close> exceeds all of \<open>B\<close>.
\<close>

definition cmp_ok ::
  "bool \<Rightarrow> ('s \<Rightarrow> bool) \<Rightarrow> 'a set \<Rightarrow> ('a \<Rightarrow> 'a \<Rightarrow> bool) \<Rightarrow> ('a, 's) islt \<Rightarrow> bool" where
  "cmp_ok good P K lt islt \<longleftrightarrow> (good \<longrightarrow> strict_weak_order lt \<and> decides P K lt islt)"

definition runs_ok ::
  "('s \<Rightarrow> bool) \<Rightarrow> 'a set \<Rightarrow> ('a \<Rightarrow> 'a \<Rightarrow> bool) \<Rightarrow> 'a list \<Rightarrow> 'a list \<Rightarrow> 's \<Rightarrow> bool" where
  "runs_ok P K lt A B s \<longleftrightarrow> P s \<and> set A \<subseteq> K \<and> set B \<subseteq> K \<and> sorted_by lt A \<and> sorted_by lt B"

definition lo_inv ::
  "bool \<Rightarrow> ('s \<Rightarrow> bool) \<Rightarrow> 'a set \<Rightarrow> ('a \<Rightarrow> 'a \<Rightarrow> bool) \<Rightarrow> 'a multiset \<Rightarrow> 'a list \<Rightarrow>
     'a list \<Rightarrow> 'a list \<Rightarrow> 'a list \<Rightarrow> 's \<Rightarrow> bool" where
  "lo_inv good P K lt M R out A B s \<longleftrightarrow>
     mset out + mset A + mset B = M \<and>
     (good \<longrightarrow> runs_ok P K lt A B s \<and> A \<noteq> [] \<and> (\<forall>b\<in>set B. lt b (last A)) \<and> out @ smerge lt A B = R)"

lemma runs_ok_drop: "runs_ok P K lt A B s \<Longrightarrow> P s' \<Longrightarrow> runs_ok P K lt (drop i A) (drop j B) s'"
  using set_drop_subset [of i A] set_drop_subset [of j B]
  by (auto simp: runs_ok_def sorted_by_def sorted_wrt_drop)

lemma lo_inv_take_b:
  assumes ok: "cmp_ok good P K lt islt" and inv: "lo_inv good P K lt M R out (a # A) (b # B) s"
    and cmp: "islt b a s = (Some True, s')"
  shows "lo_inv good P K lt M R (out @ [b]) (a # A) B s'"
proof -
  have "runs_ok P K lt (a # A) B s' \<and> lt b a" if good
  proof -
    have "decides P K lt islt" "runs_ok P K lt (a # A) (b # B) s"
      using ok inv that by (auto simp: cmp_ok_def lo_inv_def)
    with cmp show ?thesis
      using runs_ok_drop [of P K lt "a # A" "b # B" s s' 0 1] by (force simp: decides_def runs_ok_def)
  qed
  with inv show ?thesis by (auto simp: lo_inv_def)
qed

lemma lo_inv_take_a:
  assumes ok: "cmp_ok good P K lt islt" and inv: "lo_inv good P K lt M R out (a # A) (b # B) s"
    and cmp: "islt b a s = (Some False, s')" and "A \<noteq> []"
  shows "lo_inv good P K lt M R (out @ [a]) A (b # B) s'"
proof -
  have "runs_ok P K lt A (b # B) s' \<and> \<not> lt b a" if good
  proof -
    have "decides P K lt islt" "runs_ok P K lt (a # A) (b # B) s"
      using ok inv that by (auto simp: cmp_ok_def lo_inv_def)
    with cmp show ?thesis
      using runs_ok_drop [of P K lt "a # A" "b # B" s s' 1 0] by (force simp: decides_def runs_ok_def)
  qed
  with inv \<open>A \<noteq> []\<close> show ?thesis by (auto simp: lo_inv_def)
qed

text \<open>
  Galloping through \<open>A\<close>: the block found by \<open>gallop_right\<close> may go out. For a consistent order it
  never is all of \<open>A\<close>, and the head of \<open>B\<close> goes out next.
\<close>

lemma lo_inv_gallop_a:
  assumes ok: "cmp_ok good P K lt islt" and inv: "lo_inv good P K lt M R out A (b # B) s" and "A \<noteq> []"
    and g: "gallop_right islt b A (length A) 0 s = (r, s')"
  shows "(r = None \<longrightarrow> \<not> good) \<and>
    (\<forall>k. r = Some k \<longrightarrow> k \<le> length A \<and>
      (drop k A \<noteq> [] \<longrightarrow> lo_inv good P K lt M R (out @ take k A) (drop k A) (b # B) s' \<and>
         lo_inv good P K lt M R (out @ take k A @ [b]) (drop k A) B s') \<and>
      (drop k A = [] \<longrightarrow> \<not> good))"
proof (cases good)
  case True
  note good = this
  have lt: "strict_weak_order lt" and d: "decides P K lt islt" and r: "runs_ok P K lt A (b # B) s"
    and last: "\<forall>x\<in>set (b # B). lt x (last A)" and R: "out @ smerge lt A (b # B) = R"
    and M: "mset out + mset A + mset (b # B) = M"
    using ok inv True by (auto simp: cmp_ok_def lo_inv_def)
  from r have A: "P s" "b \<in> K" "set (take (length A) A) \<subseteq> K" "sorted_by lt (take (length A) A)"
    by (auto simp: runs_ok_def)
  obtain k s1 where k: "gallop_right islt b A (length A) 0 s = (Some k, s1)" "P s1" "k \<le> length A"
    "\<forall>x\<in>set (take k A). \<not> lt b x" "\<forall>x\<in>set (drop k (take (length A) A)). lt b x"
    by (rule gallop_right_correct [OF lt d A order.refl]) (use \<open>A \<noteq> []\<close> in auto)
  have "drop k A \<noteq> []"
  proof
    assume "drop k A = []"
    then have "take k A = A" using k(3) by simp
    with k(4) last \<open>A \<noteq> []\<close> show False by simp
  qed
  moreover have R': "out @ take k A @ smerge lt (drop k A) (b # B) = R"
    using R smerge_take_left [of "take k A" lt b "drop k A" B, OF k(4)] by simp
  moreover have "smerge lt (drop k A) (b # B) = b # smerge lt (drop k A) B"
    using k(5) \<open>drop k A \<noteq> []\<close> by (cases "drop k A") auto
  moreover have "last (drop k A) = last A" using \<open>drop k A \<noteq> []\<close> by (simp add: last_drop)
  moreover have "mset out + mset (take k A) + mset (drop k A) = mset out + mset A"
    by (metis append_take_drop_id mset_append union_assoc)
  ultimately show ?thesis
    using g k(1-3) M last runs_ok_drop [OF r k(2), of k 0] runs_ok_drop [OF r k(2), of k 1]
    by (auto simp: lo_inv_def ac_simps)
next
  case False
  moreover have "mset out + mset (take k A) + mset (drop k A) = mset out + mset A" for k
    by (metis append_take_drop_id mset_append union_assoc)
  ultimately show ?thesis
    using g inv gallop_right_bounds [of islt b A "length A" 0 s _ s'] \<open>A \<noteq> []\<close>
    by (auto simp: lo_inv_def ac_simps)
qed

lemma lo_inv_gallop_b:
  assumes ok: "cmp_ok good P K lt islt" and inv: "lo_inv good P K lt M R out (a # A) B s" and "B \<noteq> []"
    and g: "gallop_left islt a (B @ post) (length B) 0 s = (r, s')"
  shows "(r = None \<longrightarrow> \<not> good) \<and>
    (\<forall>k. r = Some k \<longrightarrow> k \<le> length B \<and>
      lo_inv good P K lt M R (out @ take k B) (a # A) (drop k B) s' \<and>
      (drop k B \<noteq> [] \<longrightarrow> A \<noteq> [] \<longrightarrow> lo_inv good P K lt M R (out @ take k B @ [a]) A (drop k B) s'))"
proof (cases good)
  case True
  note good = this
  have lt: "strict_weak_order lt" and d: "decides P K lt islt" and r: "runs_ok P K lt (a # A) B s"
    and last: "\<forall>x\<in>set B. lt x (last (a # A))" and R: "out @ smerge lt (a # A) B = R"
    and M: "mset out + mset (a # A) + mset B = M"
    using ok inv True by (auto simp: cmp_ok_def lo_inv_def)
  from r have B: "P s" "a \<in> K" "set (take (length B) (B @ post)) \<subseteq> K" "sorted_by lt (take (length B) (B @ post))"
    "length B \<le> length (B @ post)"
    by (auto simp: runs_ok_def)
  obtain k s1 where k: "gallop_left islt a (B @ post) (length B) 0 s = (Some k, s1)" "P s1" "k \<le> length B"
    "\<forall>x\<in>set (take k (B @ post)). lt x a" "\<forall>x\<in>set (drop k (take (length B) (B @ post))). \<not> lt x a"
    by (rule gallop_left_correct [OF lt d B]) (use \<open>B \<noteq> []\<close> in auto)
  then have cut: "\<forall>x\<in>set (take k B). lt x a" "\<forall>x\<in>set (drop k B). \<not> lt x a" by simp_all
  have R': "out @ take k B @ smerge lt (a # A) (drop k B) = R"
    using R smerge_take_right [of "take k B" lt a A "drop k B", OF cut(1)] by simp
  moreover have "smerge lt (a # A) (drop k B) = a # smerge lt A (drop k B)" if "drop k B \<noteq> []"
    using cut(2) that by (cases "drop k B") auto
  moreover have "mset out + mset (take k B) + mset (drop k B) = mset out + mset B"
    by (metis append_take_drop_id mset_append union_assoc)
  moreover have "\<forall>x\<in>set (drop k B). lt x (last (a # A))" using last by (meson in_set_dropD)
  ultimately show ?thesis
    using g k(1-3) M runs_ok_drop [OF r k(2), of 0 k] runs_ok_drop [OF r k(2), of 1 k]
    by (auto simp: lo_inv_def ac_simps)
next
  case False
  moreover have "mset out + mset (take k B) + mset (drop k B) = mset out + mset B" for k
    by (metis append_take_drop_id mset_append union_assoc)
  ultimately show ?thesis
    using g inv gallop_left_bounds [of islt a "B @ post" "length B" 0 s _ s'] \<open>B \<noteq> []\<close>
    by (auto simp: lo_inv_def ac_simps)
qed

text \<open>How the copy loops can be left.\<close>

fun lo_exit :: "bool \<Rightarrow> merge_exit \<Rightarrow> 'a list \<Rightarrow> 'a list \<Rightarrow> bool" where
  "lo_exit good Succeed A B = (B = [] \<or> A = [] \<and> \<not> good)"
| "lo_exit good Fail A B = (\<not> good)"
| "lo_exit good CopyRest A B = (length A = 1 \<and> B \<noteq> [])"
| "lo_exit good AssertFail A B = False"

text \<open>
  \<open>lo_state\<close>: the cursors represent a merge with the invariant. The invariant is only needed as
  far as multisets go once a comparison has failed.
\<close>

definition lo_state where
  "lo_state good P K lt M R pre post tmp out A B c s \<longleftrightarrow>
     lo_rep pre post tmp out A B c \<and> lo_inv good P K lt M R out A B s"

definition lo_done where
  "lo_done good P K lt M R pre post tmp e c s \<longleftrightarrow>
     (\<exists>out A B. lo_rep pre post tmp out A B c \<and> lo_exit good e A B \<and>
        mset out + mset A + mset B = M \<and>
        (good \<longrightarrow> lo_inv good P K lt M R out A B s))"

definition lo_go where
  "lo_go good P K lt M R pre post tmp c s \<longleftrightarrow>
     (\<exists>out A B. lo_state good P K lt M R pre post tmp out A B c s \<and> 1 < length A \<and> B \<noteq> [])"

lemma lo_goI:
  "lo_state good P K lt M R pre post tmp out A B c s \<Longrightarrow> 1 < length A \<Longrightarrow> B \<noteq> [] \<Longrightarrow>
     lo_go good P K lt M R pre post tmp c s"
  unfolding lo_go_def by blast

lemma lo_state_counts:
  "lo_state good P K lt M R pre post tmp out A B c s \<Longrightarrow> c_na c = length A"
  "lo_state good P K lt M R pre post tmp out A B c s \<Longrightarrow> c_nb c = length B"
  unfolding lo_state_def using lo_rep_counts by blast+

lemma lo_doneI:
  "lo_state good P K lt M R pre post tmp out A B c s \<Longrightarrow> lo_exit good e A B \<Longrightarrow>
     lo_done good P K lt M R pre post tmp e c s"
  unfolding lo_state_def lo_done_def by (auto simp: lo_inv_def)

lemma lo_done_FailI:
  "lo_state good P K lt M R pre post tmp out A B c s \<Longrightarrow> \<not> good \<Longrightarrow>
     lo_done good P K lt M R pre post tmp Fail c s'"
  unfolding lo_state_def lo_done_def by (auto simp: lo_inv_def)

lemma merge_lo_linear_inv:
  assumes ok: "cmp_ok good P K lt islt"
    and "lo_state good P K lt M R pre post tmp out A B c s" "1 < length A" "B \<noteq> []"
    and "merge_lo_linear islt tmp mg ac bc c s = (r, c', s')"
  shows "case r of Some e \<Rightarrow> lo_done good P K lt M R pre post tmp e c' s'
    | None \<Rightarrow> lo_go good P K lt M R pre post tmp c' s'"
  using assms(2-5)
proof (induction "length A + length B" arbitrary: out A B ac bc c s rule: less_induct)
  case less
  obtain a A' b B' where AB: "A = a # A'" "B = b # B'"
    using less.prems by (cases A; cases B) auto
  with less.prems have A': "A' \<noteq> []" by auto
  have rep: "lo_rep pre post tmp out A B c" and inv: "lo_inv good P K lt M R out A B s"
    using less.prems(1) by (auto simp: lo_state_def)
  have n: "c_na c = length A" "c_nb c = length B" using lo_rep_counts [OF rep] by auto
  obtain k s1 where k: "islt b a s = (k, s1)" by force
  have step: "merge_lo_linear islt tmp mg ac bc c s =
    (case k of None \<Rightarrow> (Some Fail, c, s1)
     | Some k \<Rightarrow>
            if k then
              (let c' = lo_take_b c; bcount' = bc + 1
               in if c_nb c' = 0 then (Some Succeed, c', s1)
                  else if bcount' \<ge> mg then (None, c', s1)
                  else merge_lo_linear islt tmp mg 0 bcount' c' s1)
            else
              (let c' = lo_take_a tmp c; acount' = ac + 1
               in if c_na c' = 1 then (Some CopyRest, c', s1)
                  else if acount' \<ge> mg then (None, c', s1)
                  else merge_lo_linear islt tmp mg acount' 0 c' s1))"
    using less.prems n k AB lo_rep_key_a [of pre post tmp out a A' B c] lo_rep_key_b [of pre post tmp out A b B' c] rep
    by (subst merge_lo_linear.simps) (simp split: option.split)
  consider "k = None" | "k = Some True" | "k = Some False" by (cases k) auto
  then show ?case
  proof cases
    case 1
    then have "\<not> good"
      using ok inv k AB by (force simp: cmp_ok_def lo_inv_def runs_ok_def decides_def)
    with 1 step less.prems show ?thesis by (auto intro: lo_done_FailI)
  next
    case 2
    have st: "lo_state good P K lt M R pre post tmp (out @ [b]) A B' (lo_take_b c) s1"
      using lo_rep_take_b [of pre post tmp out A b B' c] lo_inv_take_b [OF ok, of M R out a A' b B' s s1] rep inv AB k 2
      by (simp add: lo_state_def)
    then have "c_nb (lo_take_b c) = length B'" by (rule lo_state_counts)
    then have r: "(if B' = [] then (Some Succeed, lo_take_b c, s1)
        else if bc + 1 \<ge> mg then (None, lo_take_b c, s1)
        else merge_lo_linear islt tmp mg 0 (bc + 1) (lo_take_b c) s1) = (r, c', s')"
      using less.prems(4) step 2 by (simp add: Let_def split: if_splits)
    show ?thesis
    proof (cases "B' = []")
      case True
      with r lo_doneI [OF st, of Succeed] show ?thesis by auto
    next
      case False
      with r lo_goI [OF st] less.prems(2) less.hyps [OF _ st less.prems(2) False, of 0 "bc + 1"] AB show ?thesis
        by (cases "bc + 1 \<ge> mg") auto
    qed
  next
    case 3
    have st: "lo_state good P K lt M R pre post tmp (out @ [a]) A' B (lo_take_a tmp c) s1"
      using lo_rep_take_a [of pre post tmp out a A' B c] lo_inv_take_a [OF ok, of M R out a A' b B' s s1] rep inv AB k 3 A'
      by (simp add: lo_state_def)
    then have "c_na (lo_take_a tmp c) = length A'" by (rule lo_state_counts)
    then have r: "(if length A' = 1 then (Some CopyRest, lo_take_a tmp c, s1)
        else if ac + 1 \<ge> mg then (None, lo_take_a tmp c, s1)
        else merge_lo_linear islt tmp mg (ac + 1) 0 (lo_take_a tmp c) s1) = (r, c', s')"
      using less.prems(4) step 3 by (simp add: Let_def split: if_splits)
    show ?thesis
    proof (cases "length A' = 1")
      case True
      with r lo_doneI [OF st, of CopyRest] less.prems(3) show ?thesis by auto
    next
      case False
      with A' have A1: "1 < length A'" by (cases A') auto
      from r lo_goI [OF st] False less.prems(3) A1 less.hyps [OF _ st A1 less.prems(3), of "ac + 1" 0] AB show ?thesis
        by (cases "ac + 1 \<ge> mg") auto
    qed
  qed
qed


lemma merge_lo_gallop_b_inv:
  assumes ok: "cmp_ok good P K lt islt"
    and st: "lo_state good P K lt M R pre post tmp out A B c s" and A: "1 < length A" and B: "B \<noteq> []"
    and round: "merge_lo_gallop_b islt tmp ac c s = (r, c', s')"
  shows "case r of Inl e \<Rightarrow> lo_done good P K lt M R pre post tmp e c' s'
    | Inr _ \<Rightarrow> lo_go good P K lt M R pre post tmp c' s'"
proof -
  obtain a A' where Aeq: "A = a # A'" and A': "A' \<noteq> []" using A by (cases A) auto
  have rep: "lo_rep pre post tmp out A B c" and inv: "lo_inv good P K lt M R out A B s"
    using st by (auto simp: lo_state_def)
  have reads: "tmp ! nat (c_ssa c) = a" "drop (nat (c_ssb c)) (c_arr c) = B @ post" "c_nb c = length B"
    using lo_rep_key_a [OF rep [unfolded Aeq]] lo_rep_rest(1) [OF rep] lo_rep_counts [OF rep] by simp_all
  obtain rb s1 where g: "gallop_left islt a (B @ post) (length B) 0 s = (rb, s1)" by force
  note spec = lo_inv_gallop_b [OF ok inv [unfolded Aeq] B g]
  show ?thesis
  proof (cases rb)
    case None
    then show ?thesis using round g reads spec st by (auto simp: merge_lo_gallop_b_def intro: lo_done_FailI)
  next
    case (Some k)
    define c1 where "c1 = (if k \<noteq> 0 then lo_move_b k c else c)"
    have k: "k \<le> length B" and inv1: "lo_inv good P K lt M R (out @ take k B) A (drop k B) s1"
      and inv2: "drop k B \<noteq> [] \<Longrightarrow> lo_inv good P K lt M R (out @ take k B @ [a]) A' (drop k B) s1"
      using spec Some A' Aeq by auto
    have rep1: "lo_rep pre post tmp (out @ take k B) A (drop k B) c1"
      using lo_rep_move_b [OF rep k] rep by (auto simp: c1_def)
    have rep2: "lo_rep pre post tmp (out @ take k B @ [a]) A' (drop k B) (lo_take_a tmp c1)"
      using lo_rep_take_a [OF rep1 [unfolded Aeq]] by simp
    have r: "(if k \<noteq> 0 \<and> drop k B = [] then (Inl Succeed, c1, s1)
        else if length A' = 1 then (Inl CopyRest, lo_take_a tmp c1, s1)
        else (Inr (ac \<ge> MIN_GALLOP \<or> k \<ge> MIN_GALLOP), lo_take_a tmp c1, s1)) = (r, c', s')"
      using round g reads Some lo_rep_counts [OF rep1] lo_rep_counts [OF rep2]
      by (simp add: merge_lo_gallop_b_def Let_def c1_def split: if_splits)
    show ?thesis
    proof (cases "k \<noteq> 0 \<and> drop k B = []")
      case True
      with r rep1 inv1 show ?thesis by (auto simp: lo_state_def intro!: lo_doneI [where A = A and B = "[]"])
    next
      case False
      then have ne: "drop k B \<noteq> []" using B by (cases "k = 0") auto
      with inv2 rep2 have st2: "lo_state good P K lt M R pre post tmp (out @ take k B @ [a]) A' (drop k B) (lo_take_a tmp c1) s1"
        by (simp add: lo_state_def)
      show ?thesis
      proof (cases "length A' = 1")
        case True
        with r False ne lo_doneI [OF st2, of CopyRest] show ?thesis by auto
      next
        case notone: False
        with A' have "1 < length A'" by (cases A') auto
        with r False notone ne lo_goI [OF st2] show ?thesis by auto
      qed
    qed
  qed
qed

lemma merge_lo_gallop_round_inv:
  assumes ok: "cmp_ok good P K lt islt"
    and st: "lo_state good P K lt M R pre post tmp out A B c s" and A: "1 < length A" and B: "B \<noteq> []"
    and round: "merge_lo_gallop_round islt tmp mg c s = (r, c', s')"
  shows "case r of Inl e \<Rightarrow> lo_done good P K lt M R pre post tmp e c' s'
    | Inr _ \<Rightarrow> lo_go good P K lt M R pre post tmp c' s'"
proof -
  obtain b B' where Beq: "B = b # B'" using B by (cases B) auto
  have A0: "A \<noteq> []" using A by auto
  define c0 where "c0 = c\<lparr>c_min_gallop := mg\<rparr>"
  have st0: "lo_state good P K lt M R pre post tmp out A B c0 s"
    using st by (simp add: lo_state_def c0_def)
  have rep: "lo_rep pre post tmp out A B c0" and inv: "lo_inv good P K lt M R out A B s"
    using st0 by (auto simp: lo_state_def)
  have reads: "c_arr c0 ! nat (c_ssb c0) = b" "drop (nat (c_ssa c0)) tmp = A" "c_na c0 = length A"
    "c_na c = length A" "c_nb c = length B"
    using lo_rep_key_b [OF rep [unfolded Beq]] lo_rep_rest(2) [OF rep] lo_rep_counts [OF rep] lo_state_counts [OF st]
    by simp_all
  obtain ra s1 where g: "gallop_right islt b A (length A) 0 s = (ra, s1)" by force
  note spec = lo_inv_gallop_a [OF ok inv [unfolded Beq] A0 g]
  show ?thesis
  proof (cases ra)
    case None
    then show ?thesis using round g reads spec st0 A B
      by (auto simp: merge_lo_gallop_round_def Let_def c0_def [symmetric] intro: lo_done_FailI)
  next
    case (Some k)
    define c1 where "c1 = (if k \<noteq> 0 then lo_move_a tmp k c0 else c0)"
    have k: "k \<le> length A" and spec': "drop k A = [] \<Longrightarrow> \<not> good"
      "drop k A \<noteq> [] \<Longrightarrow> lo_inv good P K lt M R (out @ take k A) (drop k A) B s1"
      "drop k A \<noteq> [] \<Longrightarrow> lo_inv good P K lt M R (out @ take k A @ [b]) (drop k A) B' s1"
      using spec Some Beq by auto
    have rep1: "lo_rep pre post tmp (out @ take k A) (drop k A) B c1"
      using lo_rep_move_a [OF rep k] rep by (auto simp: c1_def)
    have rep2: "lo_rep pre post tmp (out @ take k A @ [b]) (drop k A) B' (lo_take_b c1)"
      using lo_rep_take_b [OF rep1 [unfolded Beq]] by simp
    have r: "(if k \<noteq> 0 \<and> length (drop k A) = 1 then (Inl CopyRest, c1, s1)
        else if k \<noteq> 0 \<and> drop k A = [] then (Inl Succeed, c1, s1)
        else if B' = [] then (Inl Succeed, lo_take_b c1, s1)
        else merge_lo_gallop_b islt tmp k (lo_take_b c1) s1) = (r, c', s')"
      using round g reads Some A B lo_rep_counts [OF rep1] lo_rep_counts [OF rep2]
      by (auto simp: merge_lo_gallop_round_def Let_def c0_def [symmetric] c1_def split: if_splits)
    show ?thesis
    proof (cases "drop k A = []")
      case True
      then have "lo_done good P K lt M R pre post tmp Succeed c1 s1"
        using rep1 spec'(1) inv unfolding lo_done_def
        by (intro exI [of _ "out @ take k A"] exI [of _ "drop k A"] exI [of _ B]) (simp add: lo_inv_def)
      with r True A show ?thesis by (cases "k = 0") auto
    next
      case False
      then have st1: "lo_state good P K lt M R pre post tmp (out @ take k A) (drop k A) B c1 s1"
        and st2: "lo_state good P K lt M R pre post tmp (out @ take k A @ [b]) (drop k A) B' (lo_take_b c1) s1"
        using rep1 rep2 spec' by (auto simp: lo_state_def)
      show ?thesis
      proof (cases "k \<noteq> 0 \<and> length (drop k A) = 1")
        case True
        with r st1 B show ?thesis by (auto intro!: lo_doneI)
      next
        case notone: False
        then have "1 < length (drop k A)" using False A by (cases "k = 0") auto
        with r st2 False notone merge_lo_gallop_b_inv [OF ok st2] show ?thesis
          by (cases "B' = []") (auto intro!: lo_doneI)
      qed
    qed
  qed
qed

lemma lo_go_min_gallop [simp]:
  "lo_go good P K lt M R pre post tmp (c\<lparr>c_min_gallop := m\<rparr>) s = lo_go good P K lt M R pre post tmp c s"
  by (simp add: lo_go_def lo_state_def)

lemma merge_lo_gallop_inv:
  assumes "cmp_ok good P K lt islt" "lo_go good P K lt M R pre post tmp c s"
    and "merge_lo_gallop islt tmp mg c s = (r, mg', c', s')"
  shows "case r of Some e \<Rightarrow> lo_done good P K lt M R pre post tmp e c' s'
    | None \<Rightarrow> lo_go good P K lt M R pre post tmp c' s'"
  using assms(2,3)
proof (induction "c_na c + c_nb c" arbitrary: mg c s rule: less_induct)
  case less
  let ?mg = "mg - (if mg > 1 then 1 else 0)"
  obtain q c1 s1 where round: "merge_lo_gallop_round islt tmp ?mg c s = (q, c1, s1)"
    by (metis prod_cases3)
  obtain out A B where "lo_state good P K lt M R pre post tmp out A B c s" "1 < length A" "B \<noteq> []"
    using less.prems(1) unfolding lo_go_def by blast
  note inv = merge_lo_gallop_round_inv [OF assms(1) this round]
  show ?case
  proof (cases q)
    case (Inl e)
    with inv round less.prems(2) show ?thesis
      by (auto simp: merge_lo_gallop.simps [of islt tmp mg c s] Let_def)
  next
    case (Inr b)
    with round have "c_na c1 + c_nb c1 < c_na c + c_nb c"
      by (simp add: merge_lo_gallop_round_shrinks)
    with Inr inv round less.prems(2) less.hyps [of c1 s1 ?mg] show ?thesis
      by (auto simp: merge_lo_gallop.simps [of islt tmp mg c s] Let_def split: if_splits)
  qed
qed

lemma merge_lo_loop_inv:
  assumes ok: "cmp_ok good P K lt islt" and "lo_go good P K lt M R pre post tmp c s"
    and "merge_lo_loop islt tmp mg c s = (e, c', s')"
  shows "lo_done good P K lt M R pre post tmp e c' s'"
  using assms(2,3)
proof (induction "c_na c + c_nb c" arbitrary: mg c s rule: less_induct)
  case less
  obtain r c1 s1 where lin: "merge_lo_linear islt tmp mg 0 0 c s = (r, c1, s1)"
    by (metis prod_cases3)
  obtain q m c2 s2 where gal: "merge_lo_gallop islt tmp (mg + 1) c1 s1 = (q, m, c2, s2)"
    by (metis prod_cases4)
  obtain out A B where "lo_state good P K lt M R pre post tmp out A B c s" "1 < length A" "B \<noteq> []"
    using less.prems(1) unfolding lo_go_def by blast
  note inv1 = merge_lo_linear_inv [OF ok this lin]
  show ?case
  proof (cases r)
    case (Some e')
    with inv1 lin less.prems(2) show ?thesis by (simp add: merge_lo_loop.simps [of islt tmp mg c s])
  next
    case None
    with inv1 have "lo_go good P K lt M R pre post tmp c1 s1" by simp
    note inv2 = merge_lo_gallop_inv [OF ok this gal]
    show ?thesis
    proof (cases q)
      case (Some e')
      with None inv2 lin gal less.prems(2) show ?thesis
        by (simp add: merge_lo_loop.simps [of islt tmp mg c s])
    next
      case q: None
      with None lin gal have "c_na c2 + c_nb c2 < c_na c + c_nb c"
        using merge_lo_linear_shrinks merge_lo_gallop_shrinks by (metis order.strict_trans)
      with None q inv2 lin gal less.prems(2) less.hyps [of "c2\<lparr>c_min_gallop := m + 1\<rparr>" s2 "m + 1"]
      show ?thesis by (simp add: merge_lo_loop.simps [of islt tmp mg c s])
    qed
  qed
qed

text \<open>Behind the labels the gap is closed with what is left.\<close>

lemma merge_lo_finish_correct:
  assumes "lo_done good P K lt M R pre post tmp e c s"
  shows "\<exists>res seg. merge_lo_finish tmp e c = (res, pre @ seg @ post) \<and> mset seg = M \<and>
    res \<noteq> AssertionFailed \<and> (good \<longrightarrow> res = SortOk \<and> seg = R \<and> P s)"
proof -
  obtain out A B where d: "lo_rep pre post tmp out A B c" "lo_exit good e A B"
    "mset out + mset A + mset B = M" "good \<longrightarrow> lo_inv good P K lt M R out A B s"
    using assms unfolding lo_done_def by blast
  obtain gap used where g: "c_arr c = pre @ out @ gap @ B @ post" "tmp = used @ A" "length gap = length A"
    "nat (c_dest c) = length (pre @ out)" "nat (c_ssb c) = length (pre @ out @ gap)"
    "nat (c_ssa c) = length used" "c_na c = length A" "c_nb c = length B"
    using lo_repE [OF d(1)] by metis
  show ?thesis
  proof (cases "e = CopyRest")
    case True
    obtain a where A: "A = [a]" using d(2) True by (cases A) auto
    with g(3) obtain x where gap: "gap = [x]" by (cases gap) auto
    obtain y where "blit (c_arr c) (nat (c_dest c)) (c_arr c) (nat (c_ssb c)) (c_nb c)
        = (pre @ out @ B) @ y # post"
    proof (cases B rule: rev_cases)
      case Nil
      then show thesis using g gap that [of x] by simp
    next
      case (snoc B' b)
      show thesis
        by (rule that [of b], subst blit_cells [of _ "pre @ out" "x # B'" "b # post" _ _ _ _ B])
          (use g gap snoc A in simp_all)
    qed
    then have "merge_lo_finish tmp e c = (SortOk, pre @ (out @ B @ [a]) @ post)"
      using True g A by (simp add: Let_def nth_append list_update_append)
    moreover have "good \<longrightarrow> out @ B @ [a] = R \<and> P s"
      using d(4) A smerge_right_first [of "[a]" B lt] by (auto simp: lo_inv_def runs_ok_def)
    moreover have "mset (out @ B @ [a]) = M" using d(3) A by (simp add: ac_simps)
    ultimately show ?thesis by blast
  next
    case False
    have "blit (c_arr c) (nat (c_dest c)) tmp (nat (c_ssa c)) (c_na c) = (pre @ out) @ A @ B @ post"
      by (rule blit_cells [of _ _ gap]) (use g in simp_all)
    then have "merge_lo_finish tmp e c = (if e = Succeed then SortOk else SortError, pre @ (out @ A @ B) @ post)"
      using False d(2) g by (cases e) auto
    moreover have "good \<longrightarrow> e = Succeed \<and> out @ A @ B = R \<and> P s"
      using d(2,4) False by (cases e) (auto simp: lo_inv_def runs_ok_def)
    moreover have "mset (out @ A @ B) = M" using d(3) by (simp add: ac_simps)
    ultimately show ?thesis
      by (intro exI [of _ "if e = Succeed then SortOk else SortError"] exI [of _ "out @ A @ B"]) simp
  qed
qed

text \<open>The temporary storage is not part of the array, and merging keeps the stack of runs.\<close>

lemma merge_getmem_keeps:
  "merge_getmem mem n ms = (b, ms') \<Longrightarrow>
     arr ms' = arr ms \<and> pending ms' = pending ms \<and> min_gallop ms' = min_gallop ms"
  by (auto simp: merge_getmem_def merge_freemem_def Let_def split: if_splits)

definition merge_spec where
  "merge_spec good P lt pre A B post granted ms res ms' s' \<longleftrightarrow>
     pending ms' = pending ms \<and> res \<noteq> AssertionFailed \<and>
     (\<exists>seg. arr ms' = pre @ seg @ post \<and> mset seg = mset (A @ B) \<and>
       (good \<and> granted \<longrightarrow> res = SortOk \<and> seg = smerge lt A B \<and> P s'))"

lemma merge_lo_correct:
  assumes ok: "cmp_ok good P K lt islt"
    and runs: "good \<longrightarrow> runs_ok P K lt A B s \<and> (\<forall>b\<in>set B. lt b (last A)) \<and> (\<forall>a\<in>set A. lt (hd B) a)"
    and a: "arr ms = pre @ A @ B @ post" "A \<noteq> []" "B \<noteq> []"
    and n: "ssa = length pre" "na = length A" "ssb = length pre + length A" "nb = length B"
    and m: "merge_lo mem islt ssa na ssb nb ms s = (res, ms', s')"
  shows "merge_spec good P lt pre A B post (fst (merge_getmem mem na ms)) ms res ms' s'"
proof -
  obtain g ms1 where gm: "merge_getmem mem na ms = (g, ms1)" by force
  note keep = merge_getmem_keeps [OF gm]
  show ?thesis
  proof (cases g)
    case False
    with gm m keep a show ?thesis by (auto simp: merge_lo_def merge_spec_def)
  next
    case True
    obtain b B' where B: "B = b # B'" using a(3) by (cases B) auto
    define c where "c = lo_take_b \<lparr>c_arr = arr ms, c_dest = int ssa, c_ssa = 0, c_ssb = int ssb,
                     c_na = na, c_nb = nb, c_min_gallop = min_gallop ms\<rparr>"
    let ?M = "mset (A @ B)" and ?R = "smerge lt A B"
    have "lo_rep pre post A [] A B \<lparr>c_arr = arr ms, c_dest = int ssa, c_ssa = 0, c_ssb = int ssb,
                     c_na = na, c_nb = nb, c_min_gallop = min_gallop ms\<rparr>"
      unfolding lo_rep_def using a n by (intro exI [of _ A] exI [of _ "[]"]) simp
    then have rep: "lo_rep pre post A [b] A B' c"
      using lo_rep_take_b [of pre post A "[]" A b B'] by (simp add: c_def B)
    have "smerge lt A B = b # smerge lt A B'" if good
      using runs that a(2) B by (cases A) auto
    then have st: "lo_state good P K lt ?M ?R pre post A [b] A B' c s"
      using rep runs a B runs_ok_drop [of P K lt A B s s 0 1] by (auto simp: lo_state_def lo_inv_def runs_ok_def)
    obtain e c' s1 where e: "(if c_nb c = 0 then (Succeed, c, s) else if c_na c = 1 then (CopyRest, c, s)
        else merge_lo_loop islt A (min_gallop ms) c s) = (e, c', s1)" by (metis prod_cases3)
    have don: "lo_done good P K lt ?M ?R pre post A e c' s1"
    proof (cases "B' = [] \<or> length A = 1")
      case True
      then have "lo_exit good e A B'" "c' = c" "s1 = s"
        using e lo_state_counts [OF st] by (auto split: if_splits)
      then show ?thesis using lo_doneI [OF st] by blast
    next
      case False
      then have "lo_go good P K lt ?M ?R pre post A c s"
        using lo_goI [OF st] a(2) by (cases A) auto
      then show ?thesis
        by (rule merge_lo_loop_inv [OF ok, of _ _ _ _ _ _ _ "min_gallop ms"])
          (use e False lo_state_counts [OF st] in simp)
    qed
    obtain res' seg where fin: "merge_lo_finish A e c' = (res', pre @ seg @ post)" "mset seg = ?M"
      "res' \<noteq> AssertionFailed" "good \<longrightarrow> res' = SortOk \<and> seg = ?R \<and> P s1"
      using merge_lo_finish_correct [OF don] by metis
    have tmp: "take na (drop ssa (arr ms1)) = A" using a n keep by simp
    have c1: "lo_take_b \<lparr>c_arr = arr ms1, c_dest = int ssa, c_ssa = 0, c_ssb = int ssb,
        c_na = na, c_nb = nb, c_min_gallop = min_gallop ms1\<rparr> = c" using keep by (simp add: c_def)
    have "merge_lo mem islt ssa na ssb nb ms s
        = (res', ms1\<lparr>arr := pre @ seg @ post, min_gallop := c_min_gallop c'\<rparr>, s1)"
      using e [folded keep [THEN conjunct2, THEN conjunct2]] fin(1) True
      by (simp only: merge_lo_def gm Let_def tmp c1 prod.case bool.case if_True simp_thms)
    with m fin keep gm show ?thesis by (auto simp: merge_spec_def)
  qed
qed

end
