(* ===== verification/Sort_Merge_Hi.thy ===== *)
theory Sort_Merge_Hi
  imports Sort_Merge_Lo
begin

text \<open>
  The correctness of \<open>merge_hi\<close>, the mirror image of \<open>merge_lo\<close>: the same contract \<open>merge_spec\<close>, by
  the same kind of representation and invariant.
\<close>

section \<open>Representation\<close>

text \<open>
  The mirror image of \<open>merge_lo\<close>: the run \<open>B\<close> is in the temporary storage, the merge fills the
  array from the right, and the gap as long as \<open>B\<close> lies between \<open>A\<close> and \<open>out\<close>.
\<close>

definition hi_rep :: "'a list \<Rightarrow> 'a list \<Rightarrow> 'a list \<Rightarrow> 'a list \<Rightarrow> 'a list \<Rightarrow> 'a list \<Rightarrow> 'a cursors \<Rightarrow> bool" where
  "hi_rep pre post tmp out A B c \<longleftrightarrow>
     (\<exists>gap used. c_arr c = pre @ A @ gap @ out @ post \<and> tmp = B @ used \<and> length gap = length B \<and>
       c_dest c = int (length (pre @ A @ gap)) - 1 \<and> c_ssa c = int (length (pre @ A)) - 1 \<and>
       c_ssb c = int (length B) - 1 \<and> c_na c = length A \<and> c_nb c = length B)"

lemma hi_repE:
  assumes "hi_rep pre post tmp out A B c"
  obtains gap used where "c_arr c = pre @ A @ gap @ out @ post" "tmp = B @ used" "length gap = length B"
    "c_dest c = int (length (pre @ A @ gap)) - 1" "c_ssa c = int (length (pre @ A)) - 1"
    "c_ssb c = int (length B) - 1" "c_na c = length A" "c_nb c = length B"
  using assms unfolding hi_rep_def by blast

lemma hi_rep_min_gallop [simp]:
  "hi_rep pre post tmp out A B (c\<lparr>c_min_gallop := m\<rparr>) = hi_rep pre post tmp out A B c"
  by (simp add: hi_rep_def)

lemma hi_rep_counts: "hi_rep pre post tmp out A B c \<Longrightarrow> c_na c = length A \<and> c_nb c = length B"
  by (auto elim: hi_repE)

lemma hi_rep_rest:
  assumes "hi_rep pre post tmp out A B c"
  shows "\<exists>r. drop (length pre) (c_arr c) = A @ r" "\<exists>r. tmp = B @ r"
  using assms by (auto elim!: hi_repE)

lemma hi_rep_key_a: "hi_rep pre post tmp out (A @ [a]) B c \<Longrightarrow> c_arr c ! nat (c_ssa c) = a"
  by (auto elim!: hi_repE simp: nth_append)

lemma hi_rep_key_b: "hi_rep pre post tmp out A (B @ [b]) c \<Longrightarrow> tmp ! nat (c_ssb c) = b"
  by (auto elim!: hi_repE simp: nth_append)

lemma hi_rep_move_a:
  assumes "hi_rep pre post tmp out (A1 @ A2) B c"
  shows "hi_rep pre post tmp (A2 @ out) A1 B (hi_move_a (length A2) c)"
proof -
  obtain gap used where g: "c_arr c = pre @ (A1 @ A2) @ gap @ out @ post" "tmp = B @ used"
    "length gap = length B" "c_dest c = int (length (pre @ (A1 @ A2) @ gap)) - 1"
    "c_ssa c = int (length (pre @ A1 @ A2)) - 1"
    "c_ssb c = int (length B) - 1" "c_na c = length (A1 @ A2)" "c_nb c = length B"
    using assms by (rule hi_repE)
  let ?k = "length A2" and ?n = "length B"
  have "c_arr c = (pre @ A1 @ take ?n (A2 @ gap)) @ drop ?n (A2 @ gap) @ out @ post"
    unfolding g(1) by (metis append_assoc append_take_drop_id)
  then have "blit (c_arr c) (nat (c_dest c - int ?k + 1)) (c_arr c) (nat (c_ssa c - int ?k + 1)) ?k
      = (pre @ A1 @ take ?n (A2 @ gap)) @ A2 @ out @ post"
    by (rule blit_cells) (use g in simp_all)
  moreover have "length (take ?n (A2 @ gap)) = ?n" using g(3) by simp
  ultimately show ?thesis
    unfolding hi_rep_def hi_move_a_def using g
    by (rule_tac exI [of _ "take ?n (A2 @ gap)"], rule_tac exI [of _ used]) (simp add: Let_def del: take_append)
qed

lemma hi_rep_move_b:
  assumes "hi_rep pre post tmp out A (B1 @ B2) c"
  shows "hi_rep pre post tmp (B2 @ out) A B1 (hi_move_b tmp (length B2) c)"
proof -
  obtain gap used where g: "c_arr c = pre @ A @ gap @ out @ post" "tmp = (B1 @ B2) @ used"
    "length gap = length (B1 @ B2)" "c_dest c = int (length (pre @ A @ gap)) - 1"
    "c_ssa c = int (length (pre @ A)) - 1"
    "c_ssb c = int (length (B1 @ B2)) - 1" "c_na c = length A" "c_nb c = length (B1 @ B2)"
    using assms by (rule hi_repE)
  let ?k = "length B2" and ?n = "length B1"
  have "c_arr c = (pre @ A @ take ?n gap) @ drop ?n gap @ out @ post"
    unfolding g(1) by (metis append_assoc append_take_drop_id)
  then have "blit (c_arr c) (nat (c_dest c - int ?k + 1)) tmp (nat (c_ssb c - int ?k + 1)) ?k
      = (pre @ A @ take ?n gap) @ B2 @ out @ post"
    by (rule blit_cells) (use g in simp_all)
  with g show ?thesis
    unfolding hi_rep_def hi_move_b_def
    by (intro exI [of _ "take ?n gap"] exI [of _ "B2 @ used"]) (simp add: Let_def)
qed

lemma hi_take_a_eq: "hi_rep pre post tmp out (A @ [a]) B c \<Longrightarrow> B \<noteq> [] \<Longrightarrow> hi_take_a c = hi_move_a 1 c"
  by (auto simp: hi_take_a_def hi_move_a_def Let_def blit_Suc_0 elim!: hi_repE)

lemma hi_take_b_eq: "hi_rep pre post tmp out A (B @ [b]) c \<Longrightarrow> hi_take_b tmp c = hi_move_b tmp 1 c"
  by (auto simp: hi_take_b_def hi_move_b_def Let_def blit_Suc_0 elim!: hi_repE)

lemma hi_rep_take_a:
  assumes "hi_rep pre post tmp out (A @ [a]) B c" "B \<noteq> []"
  shows "hi_rep pre post tmp (a # out) A B (hi_take_a c)"
  using hi_rep_move_a [OF assms(1)] by (simp add: hi_take_a_eq [OF assms])

lemma hi_rep_take_b:
  assumes "hi_rep pre post tmp out A (B @ [b]) c"
  shows "hi_rep pre post tmp (b # out) A B (hi_take_b tmp c)"
  using hi_rep_move_b [OF assms] by (simp add: hi_take_b_eq [OF assms])

section \<open>Invariant\<close>

definition hi_inv ::
  "bool \<Rightarrow> ('s \<Rightarrow> bool) \<Rightarrow> 'a set \<Rightarrow> ('a \<Rightarrow> 'a \<Rightarrow> bool) \<Rightarrow> 'a multiset \<Rightarrow> 'a list \<Rightarrow>
     'a list \<Rightarrow> 'a list \<Rightarrow> 'a list \<Rightarrow> 's \<Rightarrow> bool" where
  "hi_inv good P K lt M R out A B s \<longleftrightarrow>
     mset A + mset B + mset out = M \<and>
     (good \<longrightarrow> runs_ok P K lt A B s \<and> B \<noteq> [] \<and> (\<forall>a\<in>set A. lt (hd B) a) \<and> smerge lt A B @ out = R)"

lemma runs_ok_take: "runs_ok P K lt (A @ A') (B @ B') s \<Longrightarrow> P s' \<Longrightarrow> runs_ok P K lt A B s'"
  by (auto simp: runs_ok_def sorted_by_append)

lemma hi_inv_take_a:
  assumes ok: "cmp_ok good P K lt islt" and inv: "hi_inv good P K lt M R out (A @ [a]) (B @ [b]) s"
    and cmp: "islt b a s = (Some True, s')"
  shows "hi_inv good P K lt M R (a # out) A (B @ [b]) s'"
proof -
  have "runs_ok P K lt A (B @ [b]) s' \<and> smerge lt (A @ [a]) (B @ [b]) = smerge lt A (B @ [b]) @ [a]" if good
  proof -
    have d: "decides P K lt islt" and "runs_ok P K lt (A @ [a]) (B @ [b]) s" and lt: "strict_weak_order lt"
      using ok inv that by (auto simp: cmp_ok_def hi_inv_def)
    with cmp have "P s'" "lt b a" "sorted_by lt (B @ [b])" and r: "runs_ok P K lt (A @ [a]) ((B @ [b]) @ []) s"
      using decidesD [OF d cmp] by (auto simp: runs_ok_def)
    then show ?thesis
      using strict_weak_order.smerge_snoc_left [OF lt] runs_ok_take [OF r] by blast
  qed
  with inv show ?thesis by (auto simp: hi_inv_def ac_simps)
qed

lemma hi_inv_take_b:
  assumes ok: "cmp_ok good P K lt islt" and inv: "hi_inv good P K lt M R out (A @ [a]) (B @ [b]) s"
    and cmp: "islt b a s = (Some False, s')" and "B \<noteq> []"
  shows "hi_inv good P K lt M R (b # out) (A @ [a]) B s'"
proof -
  have "runs_ok P K lt (A @ [a]) B s' \<and> smerge lt (A @ [a]) (B @ [b]) = smerge lt (A @ [a]) B @ [b]" if good
  proof -
    have d: "decides P K lt islt" and "runs_ok P K lt (A @ [a]) (B @ [b]) s" and lt: "strict_weak_order lt"
      using ok inv that by (auto simp: cmp_ok_def hi_inv_def)
    with cmp have "P s'" "\<not> lt b a" "sorted_by lt (A @ [a])" and r: "runs_ok P K lt ((A @ [a]) @ []) (B @ [b]) s"
      using decidesD [OF d cmp] by (auto simp: runs_ok_def)
    then show ?thesis
      using strict_weak_order.smerge_snoc_right [OF lt] runs_ok_take [OF r] by blast
  qed
  with inv \<open>B \<noteq> []\<close> show ?thesis by (auto simp: hi_inv_def ac_simps)
qed

lemma mset_take_drop: "mset (take k xs) + mset (drop k xs) = mset xs"
  by (metis append_take_drop_id mset_append)

text \<open>
  Galloping through \<open>A\<close> from the right: the block behind the point found by \<open>gallop_right\<close> goes out,
  and then the last entry of \<open>B\<close>.
\<close>

lemma hi_inv_gallop_a:
  assumes ok: "cmp_ok good P K lt islt" and inv: "hi_inv good P K lt M R out A (B @ [b]) s"
    and "A \<noteq> []" "B \<noteq> []"
    and g: "gallop_right islt b (A @ rest) (length A) (length A - 1) s = (r, s')"
  shows "(r = None \<longrightarrow> \<not> good) \<and>
    (\<forall>k. r = Some k \<longrightarrow> k \<le> length A \<and>
      hi_inv good P K lt M R (drop k A @ out) (take k A) (B @ [b]) s' \<and>
      (take k A \<noteq> [] \<longrightarrow> hi_inv good P K lt M R (b # drop k A @ out) (take k A) B s'))"
proof (cases good)
  case True
  note good = this
  have lt: "strict_weak_order lt" and d: "decides P K lt islt" and r: "runs_ok P K lt A (B @ [b]) s"
    and hd: "\<forall>x\<in>set A. lt (hd (B @ [b])) x" and R: "smerge lt A (B @ [b]) @ out = R"
    and M: "mset A + mset (B @ [b]) + mset out = M"
    using ok inv True by (auto simp: cmp_ok_def hi_inv_def)
  from r have A: "P s" "b \<in> K" "set (take (length A) (A @ rest)) \<subseteq> K"
    "sorted_by lt (take (length A) (A @ rest))" "length A \<le> length (A @ rest)"
    and B: "sorted_by lt (B @ [b])"
    by (auto simp: runs_ok_def)
  obtain k s1 where k: "gallop_right islt b (A @ rest) (length A) (length A - 1) s = (Some k, s1)" "P s1" "k \<le> length A"
    "\<forall>x\<in>set (take k (A @ rest)). \<not> lt b x" "\<forall>x\<in>set (drop k (take (length A) (A @ rest))). lt b x"
    by (rule gallop_right_correct [OF lt d A, of "length A - 1"]) (use \<open>A \<noteq> []\<close> in auto)
  then have cut: "\<forall>x\<in>set (take k A). \<not> lt b x" "\<forall>x\<in>set (drop k A). lt b x" by simp_all
  have "\<not> lt b y" if "y \<in> set (B @ [b])" for y
    using that B strict_weak_order.irrefl [OF lt] by (auto simp: sorted_by_append)
  then have "smerge lt (take k A @ drop k A) (B @ [b]) = smerge lt (take k A) (B @ [b]) @ drop k A"
    using cut(2) strict_weak_order.le_lt_trans [OF lt] by (intro smerge_append_left) blast
  moreover have "smerge lt (take k A) (B @ [b]) = smerge lt (take k A) B @ [b]"
    using cut(1) by (intro smerge_append_right) auto
  moreover have "runs_ok P K lt (take k A) (B @ [b]) s1" "runs_ok P K lt (take k A) B s1"
    using runs_ok_take [of P K lt "take k A" "drop k A" "B @ [b]" "[]" s s1]
      runs_ok_take [of P K lt "take k A" "drop k A" B "[b]" s s1] r k(2) by auto
  moreover have "\<forall>x\<in>set (take k A). lt (hd (B @ [b])) x" using hd by (meson in_set_takeD)
  ultimately show ?thesis
    using g k(1-3) M R \<open>B \<noteq> []\<close> mset_take_drop [of k A]
    by (auto simp: hi_inv_def ac_simps)
next
  case False
  then show ?thesis
    using g inv gallop_right_bounds [of islt b "A @ rest" "length A" "length A - 1" s _ s'] \<open>A \<noteq> []\<close>
      mset_take_drop [of _ A]
    by (auto simp: hi_inv_def ac_simps)
qed

lemma hi_inv_gallop_b:
  assumes ok: "cmp_ok good P K lt islt" and inv: "hi_inv good P K lt M R out (A @ [a]) B s" and "B \<noteq> []"
    and g: "gallop_left islt a (B @ rest) (length B) (length B - 1) s = (r, s')"
  shows "(r = None \<longrightarrow> \<not> good) \<and>
    (\<forall>k. r = Some k \<longrightarrow> k \<le> length B \<and>
      (take k B \<noteq> [] \<longrightarrow> hi_inv good P K lt M R (drop k B @ out) (A @ [a]) (take k B) s' \<and>
         hi_inv good P K lt M R (a # drop k B @ out) A (take k B) s') \<and>
      (take k B = [] \<longrightarrow> \<not> good))"
proof (cases good)
  case True
  note good = this
  have lt: "strict_weak_order lt" and d: "decides P K lt islt" and r: "runs_ok P K lt (A @ [a]) B s"
    and hd: "\<forall>x\<in>set (A @ [a]). lt (hd B) x" and R: "smerge lt (A @ [a]) B @ out = R"
    and M: "mset (A @ [a]) + mset B + mset out = M"
    using ok inv True by (auto simp: cmp_ok_def hi_inv_def)
  from r have B: "P s" "a \<in> K" "set (take (length B) (B @ rest)) \<subseteq> K"
    "sorted_by lt (take (length B) (B @ rest))" "length B \<le> length (B @ rest)"
    and A: "sorted_by lt (A @ [a])"
    by (auto simp: runs_ok_def)
  obtain k s1 where k: "gallop_left islt a (B @ rest) (length B) (length B - 1) s = (Some k, s1)" "P s1" "k \<le> length B"
    "\<forall>x\<in>set (take k (B @ rest)). lt x a" "\<forall>x\<in>set (drop k (take (length B) (B @ rest))). \<not> lt x a"
    by (rule gallop_left_correct [OF lt d B, of "length B - 1"]) (use \<open>B \<noteq> []\<close> in auto)
  then have cut: "\<forall>x\<in>set (take k B). lt x a" "\<forall>x\<in>set (drop k B). \<not> lt x a" by simp_all
  have ne: "take k B \<noteq> []"
  proof
    assume "take k B = []"
    then have "drop k B = B" by (metis append_Nil append_take_drop_id)
    with cut(2) hd \<open>B \<noteq> []\<close> show False by simp
  qed
  then have hd': "hd (take k B) = hd B" by (metis append_take_drop_id hd_append2)
  have "smerge lt (A @ [a]) (take k B @ drop k B) = smerge lt (A @ [a]) (take k B) @ drop k B"
    using cut(2) A strict_weak_order.le_trans [OF lt]
    by (intro smerge_append_right) (fastforce simp: sorted_by_append)
  moreover have "smerge lt (A @ [a]) (take k B) = smerge lt A (take k B) @ [a]"
    using cut(1) by (intro smerge_append_left) auto
  moreover have "runs_ok P K lt (A @ [a]) (take k B) s1" "runs_ok P K lt A (take k B) s1"
    using runs_ok_take [of P K lt "A @ [a]" "[]" "take k B" "drop k B" s s1]
      runs_ok_take [of P K lt A "[a]" "take k B" "drop k B" s s1] r k(2) by auto
  ultimately show ?thesis
    using g k(1-3) M R hd hd' ne mset_take_drop [of k B]
    by (auto simp: hi_inv_def ac_simps)
next
  case False
  then show ?thesis
    using g inv gallop_left_bounds [of islt a "B @ rest" "length B" "length B - 1" s _ s'] \<open>B \<noteq> []\<close>
      mset_take_drop [of _ B]
    by (auto simp: hi_inv_def ac_simps)
qed

section \<open>Loops\<close>

fun hi_exit :: "bool \<Rightarrow> merge_exit \<Rightarrow> 'a list \<Rightarrow> 'a list \<Rightarrow> bool" where
  "hi_exit good Succeed A B = (A = [] \<or> B = [] \<and> \<not> good)"
| "hi_exit good Fail A B = (\<not> good)"
| "hi_exit good CopyRest A B = (length B = 1 \<and> A \<noteq> [])"
| "hi_exit good AssertFail A B = False"

definition hi_state where
  "hi_state good P K lt M R pre post tmp out A B c s \<longleftrightarrow>
     hi_rep pre post tmp out A B c \<and> hi_inv good P K lt M R out A B s"

definition hi_done where
  "hi_done good P K lt M R pre post tmp e c s \<longleftrightarrow>
     (\<exists>out A B. hi_rep pre post tmp out A B c \<and> hi_exit good e A B \<and>
        mset A + mset B + mset out = M \<and>
        (good \<longrightarrow> hi_inv good P K lt M R out A B s))"

definition hi_go where
  "hi_go good P K lt M R pre post tmp c s \<longleftrightarrow>
     (\<exists>out A B. hi_state good P K lt M R pre post tmp out A B c s \<and> A \<noteq> [] \<and> 1 < length B)"

lemma hi_goI:
  "hi_state good P K lt M R pre post tmp out A B c s \<Longrightarrow> A \<noteq> [] \<Longrightarrow> 1 < length B \<Longrightarrow>
     hi_go good P K lt M R pre post tmp c s"
  unfolding hi_go_def by blast

lemma hi_state_counts:
  "hi_state good P K lt M R pre post tmp out A B c s \<Longrightarrow> c_na c = length A"
  "hi_state good P K lt M R pre post tmp out A B c s \<Longrightarrow> c_nb c = length B"
  unfolding hi_state_def using hi_rep_counts by blast+

lemma hi_doneI:
  "hi_state good P K lt M R pre post tmp out A B c s \<Longrightarrow> hi_exit good e A B \<Longrightarrow>
     hi_done good P K lt M R pre post tmp e c s"
  unfolding hi_state_def hi_done_def by (auto simp: hi_inv_def)

lemma hi_done_FailI:
  "hi_state good P K lt M R pre post tmp out A B c s \<Longrightarrow> \<not> good \<Longrightarrow>
     hi_done good P K lt M R pre post tmp Fail c s'"
  unfolding hi_state_def hi_done_def by (auto simp: hi_inv_def)

lemma hi_go_min_gallop [simp]:
  "hi_go good P K lt M R pre post tmp (c\<lparr>c_min_gallop := m\<rparr>) s = hi_go good P K lt M R pre post tmp c s"
  by (simp add: hi_go_def hi_state_def)

lemma merge_hi_linear_inv:
  assumes ok: "cmp_ok good P K lt islt"
    and "hi_state good P K lt M R pre post tmp out A B c s" "A \<noteq> []" "1 < length B"
    and "merge_hi_linear islt tmp mg ac bc c s = (r, c', s')"
  shows "case r of Some e \<Rightarrow> hi_done good P K lt M R pre post tmp e c' s'
    | None \<Rightarrow> hi_go good P K lt M R pre post tmp c' s'"
  using assms(2-5)
proof (induction "length A + length B" arbitrary: out A B ac bc c s rule: less_induct)
  case less
  obtain a A' b B' where AB: "A = A' @ [a]" "B = B' @ [b]"
    using less.prems by (cases A rule: rev_cases; cases B rule: rev_cases) auto
  with less.prems have B': "B' \<noteq> []" by auto
  have rep: "hi_rep pre post tmp out A B c" and inv: "hi_inv good P K lt M R out A B s"
    using less.prems(1) by (auto simp: hi_state_def)
  obtain k s1 where k: "islt b a s = (k, s1)" by force
  note step = merge_hi_linear.simps [of islt tmp mg ac bc c s, unfolded hi_rep_key_a [OF rep [unfolded AB(1)]]
      hi_rep_key_b [OF rep [unfolded AB(2)]] k less.prems(4)]
  note n = hi_state_counts [OF less.prems(1)]
  consider "k = None" | "k = Some True" | "k = Some False" by (cases k) auto
  then show ?case
  proof cases
    case 1
    then have "\<not> good"
      using ok inv k AB by (force simp: cmp_ok_def hi_inv_def runs_ok_def decides_def)
    with 1 step n less.prems show ?thesis by (auto intro: hi_done_FailI)
  next
    case 2
    have st: "hi_state good P K lt M R pre post tmp (a # out) A' B (hi_take_a c) s1"
      using hi_rep_take_a [of pre post tmp out A' a B c] hi_inv_take_a [OF ok, of M R out A' a B' b s s1] rep inv AB k 2
      by (simp add: hi_state_def)
    then have r: "(if A' = [] then (Some Succeed, hi_take_a c, s1)
        else if ac + 1 \<ge> mg then (None, hi_take_a c, s1)
        else merge_hi_linear islt tmp mg (ac + 1) 0 (hi_take_a c) s1) = (r, c', s')"
      using step 2 n less.prems(2,3) hi_state_counts [OF st] by (simp add: Let_def split: if_splits)
    show ?thesis
    proof (cases "A' = []")
      case True
      with r hi_doneI [OF st, of Succeed] show ?thesis by auto
    next
      case False
      with r hi_goI [OF st] less.prems(3) less.hyps [OF _ st False less.prems(3), of "ac + 1" 0] AB show ?thesis
        by (cases "ac + 1 \<ge> mg") auto
    qed
  next
    case 3
    have st: "hi_state good P K lt M R pre post tmp (b # out) A B' (hi_take_b tmp c) s1"
      using hi_rep_take_b [of pre post tmp out A B' b c] hi_inv_take_b [OF ok, of M R out A' a B' b s s1] rep inv AB k 3 B'
      by (simp add: hi_state_def)
    then have r: "(if length B' = 1 then (Some CopyRest, hi_take_b tmp c, s1)
        else if bc + 1 \<ge> mg then (None, hi_take_b tmp c, s1)
        else merge_hi_linear islt tmp mg 0 (bc + 1) (hi_take_b tmp c) s1) = (r, c', s')"
      using step 3 n less.prems(2,3) hi_state_counts [OF st] by (simp add: Let_def split: if_splits)
    show ?thesis
    proof (cases "length B' = 1")
      case True
      with r hi_doneI [OF st, of CopyRest] less.prems(2) show ?thesis by auto
    next
      case False
      with B' have B1: "1 < length B'" by (cases B') auto
      from r hi_goI [OF st] False less.prems(2) B1 less.hyps [OF _ st less.prems(2) B1, of 0 "bc + 1"] AB show ?thesis
        by (cases "bc + 1 \<ge> mg") auto
    qed
  qed
qed

lemma merge_hi_gallop_b_inv:
  assumes ok: "cmp_ok good P K lt islt"
    and st: "hi_state good P K lt M R pre post tmp out A B c s" and A: "A \<noteq> []" and B: "1 < length B"
    and round: "merge_hi_gallop_b islt tmp ac c s = (r, c', s')"
  shows "case r of Inl e \<Rightarrow> hi_done good P K lt M R pre post tmp e c' s'
    | Inr _ \<Rightarrow> hi_go good P K lt M R pre post tmp c' s'"
proof -
  obtain a A' where Aeq: "A = A' @ [a]" using A by (cases A rule: rev_cases) auto
  have B0: "B \<noteq> []" using B by auto
  have rep: "hi_rep pre post tmp out A B c" and inv: "hi_inv good P K lt M R out A B s"
    using st by (auto simp: hi_state_def)
  obtain rest where rest: "tmp = B @ rest" using hi_rep_rest(2) [OF rep] by blast
  have reads: "c_arr c ! nat (c_ssa c) = a" "c_nb c = length B"
    using hi_rep_key_a [OF rep [unfolded Aeq]] hi_rep_counts [OF rep] by simp_all
  obtain rb s1 where g: "gallop_left islt a (B @ rest) (length B) (length B - 1) s = (rb, s1)" by force
  note spec = hi_inv_gallop_b [OF ok inv [unfolded Aeq] B0 g]
  show ?thesis
  proof (cases rb)
    case None
    then show ?thesis using round g reads spec st rest by (auto simp: merge_hi_gallop_b_def intro: hi_done_FailI)
  next
    case (Some k)
    define c1 where "c1 = (if length B - k \<noteq> 0 then hi_move_b tmp (length B - k) c else c)"
    have k: "k \<le> length B" and inv0: "take k B = [] \<Longrightarrow> \<not> good"
      and inv1: "take k B \<noteq> [] \<Longrightarrow> hi_inv good P K lt M R (drop k B @ out) A (take k B) s1"
      and inv2: "take k B \<noteq> [] \<Longrightarrow> hi_inv good P K lt M R (a # drop k B @ out) A' (take k B) s1"
      using spec Some Aeq by auto
    have rep1: "hi_rep pre post tmp (drop k B @ out) A (take k B) c1"
      using hi_rep_move_b [of pre post tmp out A "take k B" "drop k B" c] rep k by (auto simp: c1_def)
    have n1: "c_nb c1 = k" using hi_rep_counts [OF rep1] k by simp
    have r: "(if k < length B \<and> k = 1 then (Inl CopyRest, c1, s1)
        else if k < length B \<and> k = 0 then (Inl Succeed, c1, s1)
        else if c_na (hi_take_a c1) = 0 then (Inl Succeed, hi_take_a c1, s1)
        else (Inr (ac \<ge> MIN_GALLOP \<or> length B - k \<ge> MIN_GALLOP), hi_take_a c1, s1)) = (r, c', s')"
      using round g reads Some n1 rest k
      by (auto simp: merge_hi_gallop_b_def Let_def c1_def split: if_splits)
    show ?thesis
    proof (cases "k = 0")
      case True
      then have "hi_done good P K lt M R pre post tmp Succeed c1 s1"
        using rep1 inv0 inv unfolding hi_done_def
        by (intro exI [of _ "drop k B @ out"] exI [of _ A] exI [of _ "take k B"]) (simp add: hi_inv_def ac_simps)
      with r True B0 show ?thesis by auto
    next
      case False
      with B0 have ne: "take k B \<noteq> []" by simp
      then have st1: "hi_state good P K lt M R pre post tmp (drop k B @ out) A (take k B) c1 s1"
        and st2: "hi_state good P K lt M R pre post tmp (a # drop k B @ out) A' (take k B) (hi_take_a c1) s1"
        using rep1 inv1 inv2 hi_rep_take_a [OF rep1 [unfolded Aeq] ne] by (simp_all add: hi_state_def)
      show ?thesis
      proof (cases "k = 1")
        case True
        with r A B k hi_doneI [OF st1, of CopyRest] show ?thesis by auto
      next
        case notone: False
        then have "1 < length (take k B)" using False B k by simp
        with r False notone hi_state_counts [OF st2] hi_goI [OF st2] hi_doneI [OF st2, of Succeed] show ?thesis
          by (cases "A' = []") auto
      qed
    qed
  qed
qed

lemma merge_hi_gallop_round_inv:
  assumes ok: "cmp_ok good P K lt islt"
    and st: "hi_state good P K lt M R pre post tmp out A B c s" and A: "A \<noteq> []" and B: "1 < length B"
    and round: "merge_hi_gallop_round islt (length pre) tmp mg c s = (r, c', s')"
  shows "case r of Inl e \<Rightarrow> hi_done good P K lt M R pre post tmp e c' s'
    | Inr _ \<Rightarrow> hi_go good P K lt M R pre post tmp c' s'"
proof -
  obtain b B' where Beq: "B = B' @ [b]" and B': "B' \<noteq> []" using B by (cases B rule: rev_cases) auto
  define c0 where "c0 = c\<lparr>c_min_gallop := mg\<rparr>"
  have st0: "hi_state good P K lt M R pre post tmp out A B c0 s"
    using st by (simp add: hi_state_def c0_def)
  have rep: "hi_rep pre post tmp out A B c0" and inv: "hi_inv good P K lt M R out A B s"
    using st0 by (auto simp: hi_state_def)
  obtain rest where rest: "drop (length pre) (c_arr c0) = A @ rest" using hi_rep_rest(1) [OF rep] by blast
  have reads: "tmp ! nat (c_ssb c0) = b" "c_na c0 = length A" "c_na c = length A" "c_nb c = length B"
    using hi_rep_key_b [OF rep [unfolded Beq]] hi_rep_counts [OF rep] hi_state_counts [OF st]
    by simp_all
  obtain ra s1 where g: "gallop_right islt b (A @ rest) (length A) (length A - 1) s = (ra, s1)" by force
  note spec = hi_inv_gallop_a [OF ok inv [unfolded Beq] A B' g]
  show ?thesis
  proof (cases ra)
    case None
    then show ?thesis using round g reads spec st0 A B rest
      by (auto simp: merge_hi_gallop_round_def Let_def c0_def [symmetric] intro: hi_done_FailI)
  next
    case (Some k)
    define c1 where "c1 = (if length A - k \<noteq> 0 then hi_move_a (length A - k) c0 else c0)"
    have k: "k \<le> length A"
      and inv1: "hi_inv good P K lt M R (drop k A @ out) (take k A) B s1"
      and inv2: "take k A \<noteq> [] \<Longrightarrow> hi_inv good P K lt M R (b # drop k A @ out) (take k A) B' s1"
      using spec Some Beq by auto
    have rep1: "hi_rep pre post tmp (drop k A @ out) (take k A) B c1"
      using hi_rep_move_a [of pre post tmp out "take k A" "drop k A" B c0] rep k by (auto simp: c1_def)
    have st1: "hi_state good P K lt M R pre post tmp (drop k A @ out) (take k A) B c1 s1"
      using rep1 inv1 by (simp add: hi_state_def)
    have rep2: "hi_rep pre post tmp (b # drop k A @ out) (take k A) B' (hi_take_b tmp c1)"
      using hi_rep_take_b [OF rep1 [unfolded Beq]] by simp
    have r: "(if k < length A \<and> k = 0 then (Inl Succeed, c1, s1)
        else if length B' = 1 then (Inl CopyRest, hi_take_b tmp c1, s1)
        else merge_hi_gallop_b islt tmp (length A - k) (hi_take_b tmp c1) s1) = (r, c', s')"
      using round g reads Some A B k rest hi_rep_counts [OF rep1] hi_rep_counts [OF rep2]
      by (auto simp: merge_hi_gallop_round_def Let_def c0_def [symmetric] c1_def split: if_splits)
    show ?thesis
    proof (cases "k = 0")
      case True
      with r A hi_doneI [OF st1, of Succeed] show ?thesis by auto
    next
      case False
      with A inv2 rep2 have st2: "hi_state good P K lt M R pre post tmp (b # drop k A @ out) (take k A) B' (hi_take_b tmp c1) s1"
        and ne: "take k A \<noteq> []"
        by (simp_all add: hi_state_def)
      show ?thesis
      proof (cases "length B' = 1")
        case True
        with r False ne hi_doneI [OF st2, of CopyRest] show ?thesis by auto
      next
        case notone: False
        then have "1 < length B'" using B' by (cases B') auto
        with r False notone ne merge_hi_gallop_b_inv [OF ok st2] show ?thesis by auto
      qed
    qed
  qed
qed

lemma merge_hi_gallop_inv:
  assumes "cmp_ok good P K lt islt" "hi_go good P K lt M R pre post tmp c s"
    and "merge_hi_gallop islt (length pre) tmp mg c s = (r, mg', c', s')"
  shows "case r of Some e \<Rightarrow> hi_done good P K lt M R pre post tmp e c' s'
    | None \<Rightarrow> hi_go good P K lt M R pre post tmp c' s'"
  using assms(2,3)
proof (induction "c_na c + c_nb c" arbitrary: mg c s rule: less_induct)
  case less
  let ?mg = "mg - (if mg > 1 then 1 else 0)"
  obtain q c1 s1 where round: "merge_hi_gallop_round islt (length pre) tmp ?mg c s = (q, c1, s1)"
    by (metis prod_cases3)
  obtain out A B where "hi_state good P K lt M R pre post tmp out A B c s" "A \<noteq> []" "1 < length B"
    using less.prems(1) unfolding hi_go_def by blast
  note inv = merge_hi_gallop_round_inv [OF assms(1) this round]
  show ?case
  proof (cases q)
    case (Inl e)
    with inv round less.prems(2) show ?thesis
      by (auto simp: merge_hi_gallop.simps [of islt _ tmp mg c s] Let_def)
  next
    case (Inr b)
    with round have "c_na c1 + c_nb c1 < c_na c + c_nb c"
      by (simp add: merge_hi_gallop_round_shrinks)
    with Inr inv round less.prems(2) less.hyps [of c1 s1 ?mg] show ?thesis
      by (auto simp: merge_hi_gallop.simps [of islt _ tmp mg c s] Let_def split: if_splits)
  qed
qed

lemma merge_hi_loop_inv:
  assumes ok: "cmp_ok good P K lt islt" and "hi_go good P K lt M R pre post tmp c s"
    and "merge_hi_loop islt (length pre) tmp mg c s = (e, c', s')"
  shows "hi_done good P K lt M R pre post tmp e c' s'"
  using assms(2,3)
proof (induction "c_na c + c_nb c" arbitrary: mg c s rule: less_induct)
  case less
  obtain r c1 s1 where lin: "merge_hi_linear islt tmp mg 0 0 c s = (r, c1, s1)"
    by (metis prod_cases3)
  obtain q m c2 s2 where gal: "merge_hi_gallop islt (length pre) tmp (mg + 1) c1 s1 = (q, m, c2, s2)"
    by (metis prod_cases4)
  obtain out A B where "hi_state good P K lt M R pre post tmp out A B c s" "A \<noteq> []" "1 < length B"
    using less.prems(1) unfolding hi_go_def by blast
  note inv1 = merge_hi_linear_inv [OF ok this lin]
  show ?case
  proof (cases r)
    case (Some e')
    with inv1 lin less.prems(2) show ?thesis by (simp add: merge_hi_loop.simps [of islt _ tmp mg c s])
  next
    case None
    with inv1 have "hi_go good P K lt M R pre post tmp c1 s1" by simp
    note inv2 = merge_hi_gallop_inv [OF ok this gal]
    show ?thesis
    proof (cases q)
      case (Some e')
      with None inv2 lin gal less.prems(2) show ?thesis
        by (simp add: merge_hi_loop.simps [of islt _ tmp mg c s])
    next
      case q: None
      with None lin gal have "c_na c2 + c_nb c2 < c_na c + c_nb c"
        using merge_hi_linear_shrinks merge_hi_gallop_shrinks by (metis order.strict_trans)
      with None q inv2 lin gal less.prems(2) less.hyps [of "c2\<lparr>c_min_gallop := m + 1\<rparr>" s2 "m + 1"]
      show ?thesis by (simp add: merge_hi_loop.simps [of islt _ tmp mg c s])
    qed
  qed
qed

section \<open>The merge\<close>

lemma merge_hi_finish_correct:
  assumes "hi_done good P K lt M R pre post tmp e c s"
  shows "\<exists>res seg. merge_hi_finish tmp e c = (res, pre @ seg @ post) \<and> mset seg = M \<and>
    res \<noteq> AssertionFailed \<and> (good \<longrightarrow> res = SortOk \<and> seg = R \<and> P s)"
proof -
  obtain out A B where d: "hi_rep pre post tmp out A B c" "hi_exit good e A B"
    "mset A + mset B + mset out = M" "good \<longrightarrow> hi_inv good P K lt M R out A B s"
    using assms unfolding hi_done_def by blast
  obtain gap used where g: "c_arr c = pre @ A @ gap @ out @ post" "tmp = B @ used" "length gap = length B"
    "c_dest c = int (length (pre @ A @ gap)) - 1" "c_ssa c = int (length (pre @ A)) - 1"
    "c_ssb c = int (length B) - 1" "c_na c = length A" "c_nb c = length B"
    using d(1) by (rule hi_repE)
  show ?thesis
  proof (cases "e = CopyRest")
    case True
    obtain b where B: "B = [b]" using d(2) True by (cases B) auto
    with g(3) obtain x where gap: "gap = [x]" by (cases gap) auto
    obtain a A' where A: "A = a # A'" using d(2) True by (cases A) auto
    have "blit (c_arr c) (nat (c_dest c + 1 - int (c_na c))) (c_arr c) (nat (c_ssa c + 1 - int (c_na c))) (c_na c)
        = (pre @ [a]) @ A @ out @ post"
      by (rule blit_cells [of _ _ "A' @ [x]"]) (use g gap A B in simp_all)
    then have "merge_hi_finish tmp e c = (SortOk, pre @ (b # A @ out) @ post)"
      using True g A B gap by (simp add: Let_def list_update_append nat_diff_distrib)
    moreover have "good \<longrightarrow> b # A @ out = R \<and> P s"
      using d(4) B smerge_right_first [of A "[b]" lt] by (auto simp: hi_inv_def runs_ok_def)
    moreover have "mset (b # A @ out) = M" using d(3) B by (simp add: ac_simps)
    ultimately show ?thesis by blast
  next
    case False
    have "blit (c_arr c) (nat (c_dest c - (int (c_nb c) - 1))) tmp 0 (c_nb c) = (pre @ A) @ B @ out @ post"
      by (rule blit_cells [of _ _ gap]) (use g in simp_all)
    then have "merge_hi_finish tmp e c = (if e = Succeed then SortOk else SortError, pre @ (A @ B @ out) @ post)"
      using False d(2) g by (cases e) auto
    moreover have "good \<longrightarrow> e = Succeed \<and> A @ B @ out = R \<and> P s"
      using d(2,4) False by (cases e) (auto simp: hi_inv_def runs_ok_def)
    moreover have "mset (A @ B @ out) = M" using d(3) by (simp add: ac_simps)
    ultimately show ?thesis
      by (intro exI [of _ "if e = Succeed then SortOk else SortError"] exI [of _ "A @ B @ out"]) simp
  qed
qed

lemma merge_hi_correct:
  assumes ok: "cmp_ok good P K lt islt"
    and runs: "good \<longrightarrow> runs_ok P K lt A B s \<and> (\<forall>b\<in>set B. lt b (last A)) \<and> (\<forall>a\<in>set A. lt (hd B) a)"
    and a: "arr ms = pre @ A @ B @ post" "A \<noteq> []" "B \<noteq> []"
    and n: "ssa = length pre" "na = length A" "ssb = length pre + length A" "nb = length B"
    and m: "merge_hi mem islt ssa na ssb nb ms s = (res, ms', s')"
  shows "merge_spec good P lt pre A B post (fst (merge_getmem mem nb ms)) ms res ms' s'"
proof -
  obtain g ms1 where gm: "merge_getmem mem nb ms = (g, ms1)" by force
  note keep = merge_getmem_keeps [OF gm]
  show ?thesis
  proof (cases g)
    case False
    with gm m keep a show ?thesis by (auto simp: merge_hi_def merge_spec_def)
  next
    case True
    obtain x A' where A: "A = A' @ [x]" using a(2) by (cases A rule: rev_cases) auto
    define c where "c = hi_take_a \<lparr>c_arr = arr ms, c_dest = int ssb + int nb - 1, c_ssa = int ssa + int na - 1,
                     c_ssb = int nb - 1, c_na = na, c_nb = nb, c_min_gallop = min_gallop ms\<rparr>"
    let ?M = "mset (A @ B)" and ?R = "smerge lt A B"
    have "hi_rep pre post B [] A B \<lparr>c_arr = arr ms, c_dest = int ssb + int nb - 1, c_ssa = int ssa + int na - 1,
                     c_ssb = int nb - 1, c_na = na, c_nb = nb, c_min_gallop = min_gallop ms\<rparr>"
      unfolding hi_rep_def using a n by (intro exI [of _ B] exI [of _ "[]"]) simp
    then have rep: "hi_rep pre post B [x] A' B c"
      using hi_rep_take_a [of pre post B "[]" A' x B] a(3) by (simp add: c_def A)
    have "smerge lt A B = smerge lt A' B @ [x]" if good
      using runs that A smerge_append_left [of "[x]" B lt A'] by auto
    then have st: "hi_state good P K lt ?M ?R pre post B [x] A' B c s"
      using rep runs a A runs_ok_take [of P K lt A' "[x]" B "[]" s s]
      by (auto simp: hi_state_def hi_inv_def runs_ok_def)
    obtain e c' s1 where e: "(if c_na c = 0 then (Succeed, c, s) else if c_nb c = 1 then (CopyRest, c, s)
        else merge_hi_loop islt ssa B (min_gallop ms) c s) = (e, c', s1)" by (metis prod_cases3)
    have don: "hi_done good P K lt ?M ?R pre post B e c' s1"
    proof (cases "A' = [] \<or> length B = 1")
      case True
      then have "hi_exit good e A' B" "c' = c" "s1 = s"
        using e hi_state_counts [OF st] by (auto split: if_splits)
      then show ?thesis using hi_doneI [OF st] by blast
    next
      case False
      then have "hi_go good P K lt ?M ?R pre post B c s"
        using hi_goI [OF st] a(3) by (cases B) auto
      then show ?thesis
        by (rule merge_hi_loop_inv [OF ok, of _ _ _ _ _ _ _ "min_gallop ms"])
          (use e False n(1) hi_state_counts [OF st] in simp)
    qed
    obtain res' seg where fin: "merge_hi_finish B e c' = (res', pre @ seg @ post)" "mset seg = ?M"
      "res' \<noteq> AssertionFailed" "good \<longrightarrow> res' = SortOk \<and> seg = ?R \<and> P s1"
      using merge_hi_finish_correct [OF don] by metis
    have tmp: "take nb (drop ssb (arr ms1)) = B" using a n keep by simp
    have c1: "hi_take_a \<lparr>c_arr = arr ms1, c_dest = int ssb + int nb - 1, c_ssa = int ssa + int na - 1,
        c_ssb = int nb - 1, c_na = na, c_nb = nb, c_min_gallop = min_gallop ms1\<rparr> = c" using keep by (simp add: c_def)
    have "merge_hi mem islt ssa na ssb nb ms s
        = (res', ms1\<lparr>arr := pre @ seg @ post, min_gallop := c_min_gallop c'\<rparr>, s1)"
      using e [folded keep [THEN conjunct2, THEN conjunct2]] fin(1) True
      by (simp only: merge_hi_def gm Let_def tmp c1 prod.case bool.case if_True simp_thms)
    with m fin keep gm show ?thesis by (auto simp: merge_spec_def)
  qed
qed

end
