(* ===== verification/Sort_Stack.thy ===== *)
theory Sort_Stack
  imports Sort_Merge_Hi
begin

text \<open>
  The correctness of the sort as a whole: \<open>merge_at\<close>, \<open>merge_collapse\<close>, \<open>merge_force_collapse\<close>, the
  march over the natural runs and \<open>sort_slots\<close>. The stack of pending runs represents the array
  (\<open>stack_rep\<close>); \<open>stack_inv\<close> is the invariant on the lengths of the pending runs that bounds their
  number by \<open>MAX_MERGE_PENDING\<close>; \<open>stack_ok\<close> relates every run to the part of the input it sorts.
\<close>

section \<open>Searching for the ends of a merge\<close>

lemma gallop_right_spec:
  assumes ok: "cmp_ok good P K lt islt" and g: "gallop_right islt key (A @ rest) (length A) hint s = (r, s')"
    and A: "good \<longrightarrow> P s \<and> key \<in> K \<and> set A \<subseteq> K \<and> sorted_by lt A" and hint: "hint < length A"
  shows "(r = None \<longrightarrow> \<not> good) \<and> (\<forall>k. r = Some k \<longrightarrow> k \<le> length A \<and>
     (good \<longrightarrow> P s' \<and> (\<forall>x\<in>set (take k A). \<not> lt key x) \<and> (\<forall>x\<in>set (drop k A). lt key x)))"
proof (cases good)
  case True
  then have lt: "strict_weak_order lt" "decides P K lt islt" "P s" "key \<in> K"
    "set (take (length A) (A @ rest)) \<subseteq> K" "sorted_by lt (take (length A) (A @ rest))" "length A \<le> length (A @ rest)"
    using ok A by (auto simp: cmp_ok_def)
  obtain k s1 where "gallop_right islt key (A @ rest) (length A) hint s = (Some k, s1)" "P s1" "k \<le> length A"
    "\<forall>x\<in>set (take k (A @ rest)). \<not> lt key x" "\<forall>x\<in>set (drop k (take (length A) (A @ rest))). lt key x"
    by (rule gallop_right_correct [OF lt hint])
  with g show ?thesis by auto
qed (use g gallop_right_bounds [of islt key "A @ rest" "length A" hint s _ s'] hint in auto)

lemma gallop_left_spec:
  assumes ok: "cmp_ok good P K lt islt" and g: "gallop_left islt key (B @ rest) (length B) hint s = (r, s')"
    and B: "good \<longrightarrow> P s \<and> key \<in> K \<and> set B \<subseteq> K \<and> sorted_by lt B" and hint: "hint < length B"
  shows "(r = None \<longrightarrow> \<not> good) \<and> (\<forall>k. r = Some k \<longrightarrow> k \<le> length B \<and>
     (good \<longrightarrow> P s' \<and> (\<forall>x\<in>set (take k B). lt x key) \<and> (\<forall>x\<in>set (drop k B). \<not> lt x key)))"
proof (cases good)
  case True
  then have lt: "strict_weak_order lt" "decides P K lt islt" "P s" "key \<in> K"
    "set (take (length B) (B @ rest)) \<subseteq> K" "sorted_by lt (take (length B) (B @ rest))" "length B \<le> length (B @ rest)"
    using ok B by (auto simp: cmp_ok_def)
  obtain k s1 where "gallop_left islt key (B @ rest) (length B) hint s = (Some k, s1)" "P s1" "k \<le> length B"
    "\<forall>x\<in>set (take k (B @ rest)). lt x key" "\<forall>x\<in>set (drop k (take (length B) (B @ rest))). \<not> lt x key"
    by (rule gallop_left_correct [OF lt hint])
  with g show ?thesis by auto
qed (use g gallop_left_bounds [of islt key "B @ rest" "length B" hint s _ s'] hint in auto)

section \<open>What the stack represents\<close>

text \<open>
  The array is the concatenation of the pending runs and of what has not been looked at yet;
  \<open>spans\<close> are the entries \<open>{base, len}\<close> of consecutive runs.
\<close>

fun spans :: "nat \<Rightarrow> 'a list list \<Rightarrow> (nat \<times> nat) list" where
  "spans k [] = []"
| "spans k (r # rs) = (k, length r) # spans (k + length r) rs"

definition stack_rep :: "'a list list \<Rightarrow> 'a list \<Rightarrow> 'a MergeState \<Rightarrow> bool" where
  "stack_rep runs rest ms \<longleftrightarrow> arr ms = concat runs @ rest \<and> pending ms = spans 0 runs \<and> [] \<notin> set runs"

lemma length_spans [simp]: "length (spans k runs) = length runs"
  by (induction runs arbitrary: k) simp_all

lemma spans_append [simp]: "spans k (xs @ ys) = spans k xs @ spans (k + length (concat xs)) ys"
  by (induction xs arbitrary: k) (simp_all add: add.assoc)

lemma snd_spans [simp]: "i < length runs \<Longrightarrow> snd (spans k runs ! i) = length (runs ! i)"
  by (induction runs arbitrary: k i) (auto simp: nth_Cons split: nat.split)

text \<open>What the allocator has to grant to merge \<open>n\<close> entries, and that it then is asked for no more.\<close>

definition grants :: "(nat \<Rightarrow> bool) \<Rightarrow> nat \<Rightarrow> bool" where
  "grants mem n \<longleftrightarrow> (\<forall>b \<le> ptr_size * n. mem b) \<and> ptr_size * n \<le> nat PY_SSIZE_T_MAX"

lemma merge_getmem_granted: "grants mem n \<Longrightarrow> 2 * need \<le> n \<Longrightarrow> fst (merge_getmem mem need ms)"
  by (auto simp: merge_getmem_def grants_def Let_def)

lemma merge_at_stack_spans:
  assumes "length R2 \<le> 1"
  shows "merge_at_stack (length R1) (spans 0 (R1 @ A # B # R2))
    = spans 0 R1 @ (length (concat R1), length A + length B) #
        spans (length (concat R1) + (length A + length B)) R2"
  using assms
  by (cases R2) (auto simp: merge_at_stack_def Let_def nth_append list_update_append butlast_append add.assoc)

lemma merge_trimmed_correct:
  assumes ok: "cmp_ok good P K lt islt" and a: "arr ms = pre @ A @ B @ post" and ne: "A \<noteq> []" "B \<noteq> []"
    and k: "k < length A" and j: "0 < j" "j \<le> length B"
    and good: "good \<longrightarrow> strict_weak_order lt \<and> set A \<subseteq> K \<and> set B \<subseteq> K \<and> sorted_by lt A \<and> sorted_by lt B"
    and cut: "good \<longrightarrow> P s \<and> (\<forall>x\<in>set (take k A). \<not> lt (hd B) x) \<and> (\<forall>x\<in>set (drop k A). lt (hd B) x) \<and>
      (\<forall>x\<in>set (take j B). lt x (last A)) \<and> (\<forall>x\<in>set (drop j B). \<not> lt x (last A))"
    and n: "ssa = length pre + k" "na = length A - k" "ssb = length pre + length A"
    and m: "(if na \<le> j then merge_lo mem islt ssa na ssb j ms s else merge_hi mem islt ssa na ssb j ms s) = (res, ms', s')"
  shows "merge_spec good P lt pre A B post (grants mem (length (arr ms))) ms res ms' s'"
proof -
  let ?A = "drop k A" and ?B = "take j B" and ?pre = "pre @ take k A" and ?post = "drop j B @ post"
  have ne': "?A \<noteq> []" "?B \<noteq> []" using k j ne by simp_all
  have a': "arr ms = ?pre @ ?A @ ?B @ ?post" using a by simp
  have n': "ssa = length ?pre" "na = length ?A" "ssb = length ?pre + length ?A" "j = length ?B"
    using n k j by simp_all
  have "hd ?B = hd B" using ne'(2) by (metis append_take_drop_id hd_append2)
  moreover have "last ?A = last A" using k by (simp add: last_drop)
  moreover have "good \<longrightarrow> runs_ok P K lt ?A ?B s"
    using good cut set_take_subset [of j B] set_drop_subset [of k A]
    by (auto simp: runs_ok_def sorted_by_def sorted_wrt_drop sorted_wrt_take)
  ultimately have runs: "good \<longrightarrow> runs_ok P K lt ?A ?B s \<and> (\<forall>b\<in>set ?B. lt b (last ?A)) \<and> (\<forall>a\<in>set ?A. lt (hd ?B) a)"
    using cut by auto
  have "merge_spec good P lt ?pre ?A ?B ?post (fst (merge_getmem mem (min na j) ms)) ms res ms' s'"
  proof (cases "na \<le> j")
    case True
    with m show ?thesis using merge_lo_correct [OF ok runs a' ne' n'] by simp
  next
    case False
    with m show ?thesis using merge_hi_correct [OF ok runs a' ne' n'] by simp
  qed
  moreover have "fst (merge_getmem mem (min na j) ms)" if "grants mem (length (arr ms))"
    using that by (rule merge_getmem_granted) (use n k j a in simp)
  moreover have "smerge lt A B = take k A @ smerge lt ?A ?B @ drop j B" if good
    using that good cut ne strict_weak_order.smerge_trim by blast
  moreover have "mset (take k A @ seg @ drop j B) = mset (A @ B)" if "mset seg = mset (?A @ ?B)" for seg
    using that mset_take_drop [of k A] mset_take_drop [of j B] by (simp add: ac_simps)
      (metis union_assoc union_commute)
  ultimately show ?thesis
    unfolding merge_spec_def by (elim conjE exE) (rule conjI, assumption, rule conjI, assumption,
      rule_tac x = "take k A @ seg @ drop j B" in exI, simp)
qed

lemma merge_at_runs_correct:
  assumes ok: "cmp_ok good P K lt islt" and a: "arr ms = pre @ A @ B @ post" and ne: "A \<noteq> []" "B \<noteq> []"
    and runs: "good \<longrightarrow> runs_ok P K lt A B s"
    and n: "ssa = length pre" "na = length A" "ssb = length pre + length A" "nb = length B"
    and m: "merge_at_runs mem islt ssa na ssb nb ms s = (res, ms', s')"
  shows "merge_spec good P lt pre A B post (grants mem (length (arr ms))) ms res ms' s'"
proof -
  obtain ra s1 where ga: "gallop_right islt (hd B) (A @ B @ post) (length A) 0 s = (ra, s1)" by force
  have key: "arr ms ! ssb = hd B" "drop ssa (arr ms) = A @ B @ post" "drop ssb (arr ms) = B @ post"
    using a ne n by (simp_all add: nth_append hd_conv_nth)
  have good: "good \<longrightarrow> strict_weak_order lt \<and> P s \<and> hd B \<in> K \<and> last A \<in> K \<and> set A \<subseteq> K \<and> set B \<subseteq> K \<and>
      sorted_by lt A \<and> sorted_by lt B"
    using runs ok ne by (auto simp: runs_ok_def cmp_ok_def)
  have R: "(ra = None \<longrightarrow> \<not> good) \<and> (\<forall>k. ra = Some k \<longrightarrow> k \<le> length A \<and>
     (good \<longrightarrow> P s1 \<and> (\<forall>x\<in>set (take k A). \<not> lt (hd B) x) \<and> (\<forall>x\<in>set (drop k A). lt (hd B) x)))"
    using gallop_right_spec [OF ok ga] good ne by simp
  show ?thesis
  proof (cases ra)
    case None
    with R m a ga key n show ?thesis by (auto simp: merge_at_runs_def merge_spec_def)
  next
    case (Some k)
    show ?thesis
    proof (cases "k = length A")
      case True
      with R Some good have "good \<longrightarrow> smerge lt A B = A @ B \<and> P s1"
        using strict_weak_order.smerge_all_left by auto
      with True Some m a ga key n show ?thesis by (auto simp: merge_at_runs_def merge_spec_def Let_def)
    next
      case False
      with R Some have k: "k < length A" by auto
      then have last: "arr ms ! (ssa + k + (na - k) - 1) = last A"
        using a ne n by (cases A rule: rev_cases) (simp_all add: nth_append)
      obtain rb s2 where gb: "gallop_left islt (last A) (B @ post) (length B) (length B - 1) s1 = (rb, s2)" by force
      have L: "(rb = None \<longrightarrow> \<not> good) \<and> (\<forall>j. rb = Some j \<longrightarrow> j \<le> length B \<and>
          (good \<longrightarrow> P s2 \<and> (\<forall>x\<in>set (take j B). lt x (last A)) \<and> (\<forall>x\<in>set (drop j B). \<not> lt x (last A))))"
        using gallop_left_spec [OF ok gb] good R Some ne by simp
      have step: "merge_at_runs mem islt ssa na ssb nb ms s =
        (case rb of None \<Rightarrow> (SortError, ms, s2)
         | Some j \<Rightarrow> if j = 0 then (SortOk, ms, s2)
             else if na - k \<le> j then merge_lo mem islt (ssa + k) (na - k) ssb j ms s2
             else merge_hi mem islt (ssa + k) (na - k) ssb j ms s2)"
        using ga Some key k gb n last by (simp add: merge_at_runs_def Let_def split: option.split)
      show ?thesis
      proof (cases "rb = None \<or> rb = Some 0")
        case True
        have "\<not> good"
        proof
          assume good
          moreover have "last A \<in> set (drop k A)" using k by (metis last_drop last_in_set drop_eq_Nil not_le)
          moreover have "hd B \<in> set B" using ne by simp
          ultimately show False using True R L Some by auto
        qed
        with True step m a show ?thesis by (auto simp: merge_spec_def)
      next
        case False
        then obtain j where j: "rb = Some j" "0 < j" by auto
        with L have jB: "j \<le> length B" by blast
        show ?thesis
          by (rule merge_trimmed_correct [OF ok a ne k j(2) jB, of _ "ssa + k" "na - k" ssb])
            (use good n R L Some j step m in simp_all)
      qed
    qed
  qed
qed


section \<open>Merging on the stack\<close>

text \<open>
  \<open>stack_ok\<close>: the array is a rearrangement of \<open>xs\<close>, and for a consistent order every pending run
  is the stably sorted rearrangement of the part of \<open>xs\<close> it stands for.
\<close>

definition stack_ok ::
  "bool \<Rightarrow> ('s \<Rightarrow> bool) \<Rightarrow> 'a set \<Rightarrow> ('a \<Rightarrow> 'a \<Rightarrow> bool) \<Rightarrow> 'a list \<Rightarrow> 'a list \<Rightarrow> 'a list list \<Rightarrow>
     'a MergeState \<Rightarrow> 's \<Rightarrow> bool" where
  "stack_ok good P K lt xs rest runs ms s \<longleftrightarrow>
     stack_rep runs rest ms \<and> mset (concat runs @ rest) = mset xs \<and>
     (good \<longrightarrow> P s \<and> set xs \<subseteq> K \<and>
        (\<exists>origs. xs = concat origs @ rest \<and> list_all2 (stable_sorted lt) origs runs))"

lemma stack_ok_length: "stack_ok good P K lt xs rest runs ms s \<Longrightarrow> length (arr ms) = length xs"
  by (metis mset_eq_length stack_ok_def stack_rep_def)

lemma stack_ok_pending: "stack_ok good P K lt xs rest runs ms s \<Longrightarrow> pending ms = spans 0 runs"
  by (simp add: stack_ok_def stack_rep_def)

lemma list_all2_two:
  assumes "list_all2 R os (R1 @ A # B # R2)"
  obtains O1 a b O2 where "os = O1 @ a # b # O2" "list_all2 R O1 R1" "R a A" "R b B" "list_all2 R O2 R2"
  using assms by (auto simp: list_all2_append2 list_all2_Cons2)

lemma stack_ok_runs:
  assumes "stack_ok good P K lt xs rest (R1 @ A # B # R2) ms s" good
  shows "runs_ok P K lt A B s"
proof -
  obtain os where os: "xs = concat os @ rest" "list_all2 (stable_sorted lt) os (R1 @ A # B # R2)" "P s" "set xs \<subseteq> K"
    using assms by (auto simp: stack_ok_def)
  then obtain O1 a b O2 where o: "os = O1 @ a # b # O2" "stable_sorted lt a A" "stable_sorted lt b B"
    by (auto elim: list_all2_two)
  then have "set A = set a" "set B = set b"
    by (metis set_mset_mset stable_sorted_mset)+
  with os o show ?thesis by (auto simp: runs_ok_def stable_sorted_def)
qed

lemma merge_at_step:
  assumes ok: "cmp_ok good P K lt islt" and mem: "good \<longrightarrow> grants mem (length xs)"
    and st: "stack_ok good P K lt xs rest (R1 @ A # B # R2) ms s" and R2: "length R2 \<le> 1"
    and m: "merge_at mem islt (length R1) ms s = (res, ms', s')"
  shows "res \<noteq> AssertionFailed \<and> (good \<longrightarrow> res = SortOk) \<and>
    (\<exists>seg. length seg = length A + length B \<and> stack_ok good P K lt xs rest (R1 @ seg # R2) ms' s')"
proof -
  have rep: "stack_rep (R1 @ A # B # R2) rest ms" using st by (simp add: stack_ok_def)
  let ?pre = "concat R1" and ?post = "concat R2 @ rest"
  define ms1 where "ms1 = ms\<lparr>pending := merge_at_stack (length R1) (pending ms)\<rparr>"
  have ne: "A \<noteq> []" "B \<noteq> []" and a: "arr ms1 = ?pre @ A @ B @ ?post"
    and p: "pending ms1 = spans 0 R1 @ (length ?pre, length A + length B) #
        spans (length ?pre + (length A + length B)) R2"
    using rep merge_at_stack_spans [OF R2, of R1 A B] by (auto simp: stack_rep_def ms1_def)
  have "length R1 + 2 = length (pending ms) \<or> length R1 + 3 = length (pending ms)"
    using rep R2 by (cases R2) (auto simp: stack_rep_def)
  moreover have "pending ms ! length R1 = (length ?pre, length A)"
    "pending ms ! (length R1 + 1) = (length ?pre + length A, length B)"
    using rep by (auto simp: stack_rep_def nth_append)
  ultimately have "merge_at_runs mem islt (length ?pre) (length A) (length ?pre + length A) (length B) ms1 s = (res, ms', s')"
    using m ne by (simp add: merge_at_def ms1_def)
  note merge_at_runs_correct [OF ok a ne _ refl refl refl refl this]
  then have spec: "merge_spec good P lt ?pre A B ?post (grants mem (length (arr ms1))) ms1 res ms' s'"
    using stack_ok_runs [OF st] by simp
  then obtain seg where seg: "arr ms' = ?pre @ seg @ ?post" "mset seg = mset (A @ B)"
    "good \<longrightarrow> res = SortOk \<and> seg = smerge lt A B \<and> P s'" and res: "res \<noteq> AssertionFailed"
    and p': "pending ms' = pending ms1"
    using mem stack_ok_length [OF st] by (auto simp: merge_spec_def ms1_def)
  have len: "length seg = length A + length B" using mset_eq_length [OF seg(2)] by simp
  have "\<exists>origs. xs = concat origs @ rest \<and> list_all2 (stable_sorted lt) origs (R1 @ seg # R2)" if g: good
  proof -
    obtain os where os: "xs = concat os @ rest" "list_all2 (stable_sorted lt) os (R1 @ A # B # R2)"
      using st g by (auto simp: stack_ok_def)
    from os(2) obtain O1 a b O2 where o: "os = O1 @ a # b # O2" "list_all2 (stable_sorted lt) O1 R1"
      "stable_sorted lt a A" "stable_sorted lt b B" "list_all2 (stable_sorted lt) O2 R2"
      by (rule list_all2_two)
    have "stable_sorted lt (a @ b) seg"
      using strict_weak_order.stable_sorted_smerge [OF _ o(3,4)] ok seg(3) g by (simp add: cmp_ok_def)
    with o os(1) show ?thesis
      by (intro exI [of _ "O1 @ (a @ b) # O2"]) (simp add: list_all2_appendI)
  qed
  moreover have "stack_rep (R1 @ seg # R2) rest ms'"
    using rep seg(1) len p p' ne by (auto simp: stack_rep_def)
  ultimately have "stack_ok good P K lt xs rest (R1 @ seg # R2) ms' s'"
    using st seg by (auto simp: stack_ok_def add.assoc)
  with res seg(3) len show ?thesis by blast
qed

section \<open>The invariant of the stack\<close>

text \<open>The lengths of the pending runs, the last run first: what \<open>merge_collapse\<close> establishes.\<close>

fun stack_inv :: "nat list \<Rightarrow> bool" where
  "stack_inv (z # y # x # r) \<longleftrightarrow> y + z < x \<and> z < y \<and> stack_inv (y # x # r)"
| "stack_inv [z, y] \<longleftrightarrow> z < y"
| "stack_inv r \<longleftrightarrow> True"

lemma stack_inv_tl: "stack_inv (z # r) \<Longrightarrow> stack_inv r"
  by (induction r rule: stack_inv.induct) auto

lemma stack_inv_drop: "stack_inv r \<Longrightarrow> stack_inv (drop k r)"
proof (induction k arbitrary: r)
  case (Suc k)
  then show ?case by (cases r) (auto dest: stack_inv_tl)
qed simp

abbreviation lens :: "'a list list \<Rightarrow> nat list" where
  "lens runs \<equiv> rev (map length runs)"

text \<open>The two outcomes of a stack operation.\<close>

definition stack_result where
  "stack_result good P K lt xs rest I res ms s \<longleftrightarrow>
     res \<noteq> AssertionFailed \<and> (good \<longrightarrow> res = SortOk) \<and>
     (\<exists>runs. runs \<noteq> [] \<and> stack_ok good P K lt xs rest runs ms s \<and> (res = SortOk \<longrightarrow> I runs))"

lemma two_runs:
  assumes "1 < length runs"
  obtains T B C where "runs = T @ [B, C]"
  using assms by (metis append.assoc append_Cons append_Nil length_0_conv length_append_singleton
      less_numeral_extra(1,3,4) less_one not_less_eq rev_exhaust zero_less_Suc Suc_lessD One_nat_def)

text \<open>Where \<open>merge_collapse\<close> merges next, in terms of the runs.\<close>

lemma merge_collapse_step:
  assumes p: "pending ms = spans 0 (T @ [B, C])"
  shows "merge_collapse mem islt ms s =
    (if T \<noteq> [] \<and> length (last T) \<le> length B + length C \<or>
        1 < length T \<and> length (last (butlast T)) \<le> length (last T) + length B \<or> length B \<le> length C
     then case merge_at mem islt
              (if T \<noteq> [] \<and> length (last T) < length C \<and>
                 (length (last T) \<le> length B + length C \<or>
                  1 < length T \<and> length (last (butlast T)) \<le> length (last T) + length B)
               then length T - 1 else length T) ms s of
            (SortOk, ms, s) \<Rightarrow> merge_collapse mem islt ms s
          | (r, ms, s) \<Rightarrow> (r, ms, s)
     else (SortOk, ms, s))"
proof -
  have len: "length (pending ms) = length T + 2" using p by simp
  have n: "snd (pending ms ! length T) = length B" "snd (pending ms ! Suc (length T)) = length C"
    unfolding p by (subst snd_spans; simp add: nth_append)+
  have n1: "snd (pending ms ! (length T - 1)) = length (last T)" if "T \<noteq> []"
    unfolding p using that by (subst snd_spans) (simp_all add: nth_append last_conv_nth)
  have n2: "snd (pending ms ! (length T - 2)) = length (last (butlast T))" if "1 < length T"
    unfolding p using that
    by (subst snd_spans) (simp, cases T rule: rev_cases, auto simp: nth_append last_conv_nth numeral_2_eq_2)
  show ?thesis
    using len n n1 n2
    by (subst merge_collapse.simps) (auto simp: Let_def)
qed

lemma merge_collapse_correct:
  assumes ok: "cmp_ok good P K lt islt" and mem: "good \<longrightarrow> grants mem (length xs)"
    and "stack_ok good P K lt xs rest runs ms s" "runs \<noteq> []" "stack_inv (drop 2 (lens runs))"
    and "merge_collapse mem islt ms s = (res, ms', s')"
  shows "stack_result good P K lt xs rest (\<lambda>runs. stack_inv (lens runs)) res ms' s'"
  using assms(3-6)
proof (induction "length runs" arbitrary: runs ms s rule: less_induct)
  case less
  show ?case
  proof (cases "1 < length runs")
    case False
    then have "stack_inv (lens runs)" using less.prems(2) by (cases runs) auto
    with False less.prems show ?thesis
      by (auto simp: merge_collapse.simps [of mem islt ms s] stack_ok_pending stack_result_def)
  next
    case True
    then obtain T B C where runs: "runs = T @ [B, C]" by (rule two_runs)
    note step = merge_collapse_step [of ms T B C, OF stack_ok_pending [OF less.prems(1), unfolded runs]]
    have IH: ?thesis if m: "merge_collapse mem islt ms s = (case merge_at mem islt (length R1) ms s of
        (SortOk, ms, s) \<Rightarrow> merge_collapse mem islt ms s | (r, ms, s) \<Rightarrow> (r, ms, s))"
      and r: "runs = R1 @ X # Y # R2" "length R2 \<le> 1" for R1 X Y R2
    proof -
      obtain q ms1 s1 where q: "merge_at mem islt (length R1) ms s = (q, ms1, s1)" by (metis prod_cases3)
      obtain seg where seg: "length seg = length X + length Y" "stack_ok good P K lt xs rest (R1 @ seg # R2) ms1 s1"
        and a: "q \<noteq> AssertionFailed" "good \<longrightarrow> q = SortOk"
        using merge_at_step [OF ok mem less.prems(1) [unfolded r(1)] r(2) q] by blast
      have "stack_inv (drop 2 (lens (R1 @ seg # R2)))"
        using less.prems(3) r by (cases R2) (auto dest: stack_inv_tl stack_inv_drop)
      with less.hyps [of "R1 @ seg # R2" ms1 s1] seg q m r less.prems(4) a show ?thesis
        by (cases q) (auto simp: stack_result_def)
    qed
    let ?near = "T \<noteq> [] \<and> length (last T) \<le> length B + length C"
    let ?far = "1 < length T \<and> length (last (butlast T)) \<le> length (last T) + length B"
    consider "(?near \<or> ?far) \<and> length (last T) < length C" | "(?near \<or> ?far) \<and> \<not> length (last T) < length C"
      | "\<not> ?near" "\<not> ?far" "length B \<le> length C" | "\<not> ?near" "\<not> ?far" "\<not> length B \<le> length C" by blast
    then show ?thesis
    proof cases
      case 1
      then have T: "T = butlast T @ [last T]" and "T \<noteq> []" by (cases T rule: rev_cases; auto)+
      then show ?thesis
        by (intro IH [of "butlast T" "last T" B "[C]"]) (use 1 step runs in auto)
    next
      case 2
      show ?thesis by (rule IH [of T B C "[]"]) (use 2 step runs in auto)
    next
      case 3
      show ?thesis by (rule IH [of T B C "[]"]) (use 3 step runs in auto)
    next
      case 4
      have "stack_inv (lens (T @ [B, C]))"
        using 4 less.prems(3) unfolding runs
        by (cases T rule: rev_cases; cases "butlast T" rule: rev_cases) auto
      with 4 step [of mem islt s] less.prems runs show ?thesis by (auto simp: stack_result_def)
    qed
  qed
qed

lemma merge_force_collapse_step:
  assumes p: "pending ms = spans 0 (T @ [B, C])"
  shows "merge_force_collapse mem islt ms s =
    (case merge_at mem islt (if T \<noteq> [] \<and> length (last T) < length C then length T - 1 else length T) ms s of
            (SortOk, ms, s) \<Rightarrow> merge_force_collapse mem islt ms s
          | (r, ms, s) \<Rightarrow> (r, ms, s))"
proof -
  have len: "length (pending ms) = length T + 2" using p by simp
  have n: "snd (pending ms ! length T) = length B" "snd (pending ms ! Suc (length T)) = length C"
    unfolding p by (subst snd_spans; simp add: nth_append)+
  have n1: "snd (pending ms ! (length T - 1)) = length (last T)" if "T \<noteq> []"
    unfolding p using that by (subst snd_spans) (simp_all add: nth_append last_conv_nth)
  show ?thesis
    using len n n1 by (subst merge_force_collapse.simps) (auto simp: Let_def)
qed

lemma merge_force_collapse_correct:
  assumes ok: "cmp_ok good P K lt islt" and mem: "good \<longrightarrow> grants mem (length xs)"
    and "stack_ok good P K lt xs rest runs ms s" "runs \<noteq> []"
    and "merge_force_collapse mem islt ms s = (res, ms', s')"
  shows "stack_result good P K lt xs rest (\<lambda>runs. length runs = 1) res ms' s'"
  using assms(3-5)
proof (induction "length runs" arbitrary: runs ms s rule: less_induct)
  case less
  show ?case
  proof (cases "1 < length runs")
    case False
    then have "length runs = 1" using less.prems(2) by (cases runs) auto
    with False less.prems show ?thesis
      by (auto simp: merge_force_collapse.simps [of mem islt ms s] stack_ok_pending stack_result_def)
  next
    case True
    then obtain T B C where runs: "runs = T @ [B, C]" by (rule two_runs)
    note step = merge_force_collapse_step [of ms T B C, OF stack_ok_pending [OF less.prems(1), unfolded runs]]
    have IH: ?thesis if m: "merge_force_collapse mem islt ms s = (case merge_at mem islt (length R1) ms s of
        (SortOk, ms, s) \<Rightarrow> merge_force_collapse mem islt ms s | (r, ms, s) \<Rightarrow> (r, ms, s))"
      and r: "runs = R1 @ X # Y # R2" "length R2 \<le> 1" for R1 X Y R2
    proof -
      obtain q ms1 s1 where q: "merge_at mem islt (length R1) ms s = (q, ms1, s1)" by (metis prod_cases3)
      obtain seg where seg: "length seg = length X + length Y" "stack_ok good P K lt xs rest (R1 @ seg # R2) ms1 s1"
        and a: "q \<noteq> AssertionFailed" "good \<longrightarrow> q = SortOk"
        using merge_at_step [OF ok mem less.prems(1) [unfolded r(1)] r(2) q] by blast
      with less.hyps [of "R1 @ seg # R2" ms1 s1] q m r less.prems(3) show ?thesis
        by (cases q) (auto simp: stack_result_def)
    qed
    show ?thesis
    proof (cases "T \<noteq> [] \<and> length (last T) < length C")
      case True
      then have T: "T = butlast T @ [last T]" by (cases T rule: rev_cases) auto
      show ?thesis
        by (rule IH [of "butlast T" "last T" B "[C]"]) (use True step runs T in auto)
    next
      case False
      show ?thesis by (rule IH [of T B C "[]"]) (use False step runs in auto)
    qed
  qed
qed

section \<open>The size of the stack\<close>

text \<open>
  With the invariant the lengths grow at least like Fibonacci numbers: \<open>stack_min m\<close> is the least
  number of entries that \<open>m\<close> pending runs can hold.
\<close>

fun run_min :: "nat \<Rightarrow> nat \<times> nat" where
  "run_min 0 = (0, 1)"
| "run_min (Suc m) = (let (a, b) = run_min m in (b, a + b + 1))"

fun stack_min :: "nat \<Rightarrow> nat" where
  "stack_min 0 = 0"
| "stack_min (Suc m) = stack_min m + snd (run_min m)"

lemma run_min_step: "snd (run_min (Suc m)) = fst (run_min (Suc m)) + fst (run_min m) + 1"
  "fst (run_min (Suc m)) = snd (run_min m)"
  by (simp_all add: case_prod_beta Let_def)

lemma stack_inv_first: "stack_inv r \<Longrightarrow> 1 < length r \<Longrightarrow> r ! 0 < r ! 1"
  by (cases r rule: stack_inv.cases) auto

lemma stack_inv_nth: "stack_inv r \<Longrightarrow> i + 2 < length r \<Longrightarrow> r ! (i + 1) + r ! i < r ! (i + 2)"
proof (induction i arbitrary: r)
  case 0
  then show ?case by (cases r rule: stack_inv.cases) auto
next
  case (Suc i)
  then show ?case by (cases r) (auto dest: stack_inv_tl)
qed

lemma stack_inv_growth:
  assumes "stack_inv r" "0 \<notin> set r" "i < length r"
  shows "snd (run_min i) \<le> r ! i"
  using assms(3)
proof (induction i rule: less_induct)
  case (less i)
  have r0: "0 < r ! j" if "j < length r" for j using assms(2) that by (metis gr0I nth_mem)
  consider "i = 0" | "i = 1" | j where "i = j + 2" by (metis One_nat_def add_2_eq_Suc' not0_implies_Suc)
  then show ?case
  proof cases
    case 1
    with less.prems r0 show ?thesis by (simp add: Suc_leI)
  next
    case 2
    with less.prems have "0 < r ! 0" "r ! 0 < r ! 1" using r0 [of 0] stack_inv_first [OF assms(1)] by force+
    with 2 show ?thesis by simp
  next
    case 3
    with less.IH [of j] less.IH [of "j + 1"] less.prems stack_inv_nth [OF assms(1), of j] run_min_step [of "j + 1"]
      run_min_step(2) [of j]
    show ?thesis by (simp add: numeral_2_eq_2)
  qed
qed

lemma stack_min_sum: "stack_min m = (\<Sum>i<m. snd (run_min i))"
  by (induction m) simp_all

text \<open>The same number with the sums carried along.\<close>

fun stack_total :: "nat \<Rightarrow> nat \<Rightarrow> nat \<Rightarrow> nat \<Rightarrow> nat" where
  "stack_total 0 a b t = t"
| "stack_total (Suc m) a b t = stack_total m b (a + b + 1) (t + b)"

lemma stack_total_eq:
  "stack_total m (fst (run_min k)) (snd (run_min k)) t + stack_min k = t + stack_min (k + m)"
proof (induction m arbitrary: k t)
  case (Suc m)
  show ?case using Suc.IH [of "Suc k" "t + snd (run_min k)"] by (simp add: case_prod_beta Let_def)
qed simp

lemma stack_min_mono: "m \<le> n \<Longrightarrow> stack_min m \<le> stack_min n"
  by (induction n) (auto simp: le_Suc_eq)

lemma stack_inv_sum:
  assumes "stack_inv r" "0 \<notin> set r"
  shows "stack_min (length r) \<le> sum_list r"
  unfolding stack_min_sum sum_list_sum_nth atLeast0LessThan
  using stack_inv_growth [OF assms] by (intro sum_mono) simp

lemma stack_min_pending: "nat PY_SSIZE_T_MAX div ptr_size < stack_min MAX_MERGE_PENDING"
proof -
  have "stack_total (numeral k) a b t = stack_total (pred_numeral k) b (a + b + 1) (t + b)"
    "stack_total 1 a b t = t + b" for k a b t
    by (simp_all add: numeral_eq_Suc)
  then have "stack_total MAX_MERGE_PENDING 0 1 0 = 1779979416004714101" by (simp del: One_nat_def)
  then show ?thesis using stack_total_eq [of MAX_MERGE_PENDING 0 0] by simp
qed

text \<open>So a list that fits in the address space never has more than \<open>MAX_MERGE_PENDING\<close> runs pending.\<close>

lemma stack_inv_bound:
  assumes "stack_inv (lens runs)" "[] \<notin> set runs" "ptr_size * length (concat runs) \<le> nat PY_SSIZE_T_MAX"
  shows "length runs < MAX_MERGE_PENDING"
proof (rule ccontr)
  assume "\<not> length runs < MAX_MERGE_PENDING"
  then have "stack_min MAX_MERGE_PENDING \<le> stack_min (length (lens runs))"
    by (intro stack_min_mono) simp
  also have "\<dots> \<le> sum_list (lens runs)"
    using assms(1,2) by (intro stack_inv_sum) auto
  also have "\<dots> = length (concat runs)" by (simp add: length_concat sum_list_rev flip: rev_map)
  finally show False using stack_min_pending assms(3) by simp
qed

section \<open>Runs\<close>

lemma count_run_sorted:
  assumes ok: "cmp_ok good P K lt islt" and c: "count_run islt (pre @ rest) (length pre) (length pre + length rest) s = (r, s')"
    and rest: "rest \<noteq> []" and g: "good \<longrightarrow> P s \<and> set (pre @ rest) \<subseteq> K"
  shows "(r = None \<longrightarrow> \<not> good) \<and> (\<forall>n d. r = Some (n, d) \<longrightarrow> 1 \<le> n \<and> n \<le> length rest \<and>
    (good \<longrightarrow> P s' \<and> stable_sorted lt (take n rest) (if d then rev (take n rest) else take n rest)))"
proof (cases good)
  case True
  have lt: "strict_weak_order lt" and d: "decides P K lt islt" "P s" "set (pre @ rest) \<subseteq> K"
    "length pre < length pre + length rest" "length pre + length rest \<le> length (pre @ rest)"
    using ok g True rest by (auto simp: cmp_ok_def)
  obtain n b s1 where n: "count_run islt (pre @ rest) (length pre) (length pre + length rest) s = (Some (n, b), s1)"
    "P s1" "1 \<le> n" "length pre + n \<le> length pre + length rest"
    "\<And>i. length pre < i \<Longrightarrow> i < length pre + n \<Longrightarrow> lt ((pre @ rest) ! i) ((pre @ rest) ! (i - 1)) = b"
    by (rule count_run_correct [OF d]) (rule that)
  have run: "take n (drop (length pre) (pre @ rest)) = take n rest" by simp
  have len: "length pre + n \<le> length (pre @ rest)" using n(4) by simp
  have "stable_sorted lt (take n rest) (if b then rev (take n rest) else take n rest)"
  proof (cases b)
    case True
    have "transp (\<lambda>x y. lt y x)" using strict_weak_order.trans [OF lt] by (auto intro: transpI)
    from neighbours_sorted [OF this len] n(5) True run show ?thesis
      using stable_sorted_rev_descending [OF lt] by simp
  next
    case False
    have "transp (\<lambda>x y. \<not> lt y x)" using strict_weak_order.le_trans [OF lt] by (auto intro: transpI)
    from neighbours_sorted [OF this len] n(5) False run have "sorted_by lt (take n rest)"
      by (simp add: sorted_by_def)
    with False show ?thesis by (simp add: stable_sorted_refl)
  qed
  with c n show ?thesis by auto
qed (use c rest count_run_bounds [of islt "pre @ rest" "length pre" "length pre + length rest" s] in auto)

lemma binarysort_extends:
  assumes ok: "cmp_ok good P K lt islt" and n: "run \<noteq> []"
    and b: "binarysort islt (length pre) (length pre + length run + length ys) (length pre + length run)
      (pre @ run @ ys @ post) s = (done, a', s')"
    and g: "good \<longrightarrow> P s \<and> set (run @ ys) \<subseteq> K \<and> stable_sorted lt us run"
  shows "(\<not> done \<longrightarrow> \<not> good) \<and> (\<exists>zs. a' = pre @ zs @ post \<and> mset zs = mset (run @ ys) \<and>
    (good \<longrightarrow> P s' \<and> stable_sorted lt (us @ ys) zs))"
proof -
  have b': "binarysort_loop islt (length pre) (length pre + length run + length ys) (length pre + length run)
      (pre @ run @ ys @ post) s = (done, a', s')"
    using b n by (simp add: binarysort_def)
  show ?thesis
  proof (cases good)
    case True
    then obtain zs s2 where "binarysort_loop islt (length pre) (length pre + length run + length ys) (length pre + length run)
        (pre @ run @ ys @ post) s = (True, pre @ zs @ post, s2)" "P s2" "stable_sorted lt (us @ ys) zs"
      using binarysort_loop_correct [of lt P K islt s run ys pre "length pre" "length pre + length run"
          "length pre + length run + length ys" us post] ok g
      by (auto simp: cmp_ok_def)
    moreover have "mset us = mset run" using g True stable_sorted_mset by metis
    ultimately show ?thesis using b' by (auto simp: stable_sorted_mset)
  qed (use binarysort_loop_mset [OF b'] in auto)
qed

lemma next_run_correct:
  assumes ok: "cmp_ok good P K lt islt" and rest: "rest \<noteq> []" and g: "good \<longrightarrow> P s \<and> set (pre @ rest) \<subseteq> K"
    and nr: "next_run islt minrun (length pre) (length rest) (pre @ rest) s = (r, a', s')"
  shows "case r of
      None \<Rightarrow> \<not> good \<and> (\<exists>rest'. a' = pre @ rest' \<and> mset rest' = mset rest)
    | Some n \<Rightarrow> \<exists>run. a' = pre @ run @ drop n rest \<and> run \<noteq> [] \<and> n = length run \<and> mset run = mset (take n rest) \<and>
        (good \<longrightarrow> P s' \<and> stable_sorted lt (take n rest) run)"
proof -
  obtain c s1 where c: "count_run islt (pre @ rest) (length pre) (length pre + length rest) s = (c, s1)" by force
  note spec = count_run_sorted [OF ok c rest g]
  show ?thesis
  proof (cases c)
    case None
    with spec c nr show ?thesis by (auto simp: next_run_def)
  next
    case (Some q)
    obtain n d where q: "q = (n, d)" by force
    define run where "run = (if d then rev (take n rest) else take n rest)"
    have n: "1 \<le> n" "n \<le> length rest" and st: "good \<longrightarrow> P s1 \<and> stable_sorted lt (take n rest) run"
      using spec Some q by (auto simp: run_def)
    have run: "length run = n" "mset run = mset (take n rest)" "set run \<subseteq> set rest"
      using n set_take_subset [of n rest] by (auto simp: run_def)
    have a: "(if d then reverse_slice (pre @ rest) (length pre) (length pre + n) else pre @ rest) = pre @ run @ drop n rest"
      using reverse_slice_append [of pre "length pre" "length pre + n" "take n rest" "drop n rest"] n
      by (simp add: run_def)
    show ?thesis
    proof (cases "n < minrun")
      case False
      with c Some q nr have "r = Some n" "a' = pre @ run @ drop n rest" "s' = s1"
        using a by (auto simp: next_run_def Let_def)
      with st n run show ?thesis by (auto intro!: exI [of _ run])
    next
      case True
      define force where "force = (if length rest \<le> minrun then length rest else minrun)"
      let ?ys = "take (force - n) (drop n rest)" and ?post = "drop force rest"
      have f: "n \<le> force" "force \<le> length rest" using True n by (auto simp: force_def)
      then have split: "drop n rest = ?ys @ ?post" and ys: "length ?ys = force - n"
        and rest': "take n rest @ ?ys = take force rest"
        using append_take_drop_id [of "force - n" "drop n rest"] take_add [of n "force - n" rest] by simp_all
      obtain ok' a1 s2 where b: "binarysort islt (length pre) (length pre + force) (length pre + n) (pre @ run @ drop n rest) s1 = (ok', a1, s2)"
        by (metis prod_cases3)
      have b': "binarysort islt (length pre) (length pre + length run + length ?ys) (length pre + length run)
          (pre @ run @ ?ys @ ?post) s1 = (ok', a1, s2)"
        using b f run(1) ys split by simp
      have "set (run @ ?ys) \<subseteq> set rest" using run(3) by (auto dest: in_set_takeD in_set_dropD)
      then have "good \<longrightarrow> P s1 \<and> set (run @ ?ys) \<subseteq> K \<and> stable_sorted lt (take n rest) run" and "run \<noteq> []"
        using g st n run(1) by auto
      then obtain zs where zs: "a1 = pre @ zs @ ?post" "mset zs = mset (run @ ?ys)"
          "good \<longrightarrow> ok' \<and> P s2 \<and> stable_sorted lt (take n rest @ ?ys) zs"
        using binarysort_extends [OF ok _ b', of "take n rest"] by blast
      have m: "mset zs = mset (take force rest)" using zs(2) run(2) rest' by (metis mset_append)
      then have len: "length zs = force" using f(2) mset_eq_length by fastforce
      have m': "mset (zs @ ?post) = mset rest" using m mset_take_drop [of force rest] by simp
      have step: "next_run islt minrun (length pre) (length rest) (pre @ rest) s =
          (if ok' then (Some force, a1, s2) else (None, a1, s2))"
        using c Some q a True b by (simp add: next_run_def Let_def force_def [symmetric])
      show ?thesis
      proof (cases ok')
        case False
        with step nr zs m' show ?thesis by auto
      next
        case True
        with step nr zs m len rest' f n show ?thesis by (auto intro!: exI [of _ zs])
      qed
    qed
  qed
qed

section \<open>The sort\<close>

lemma stack_ok_set:
  assumes "stack_ok good P K lt xs rest runs ms s"
  shows "set (concat runs @ rest) = set xs"
  using assms by (metis set_mset_mset stack_ok_def)

lemma stack_ok_push:
  assumes st: "stack_ok good P K lt xs rest runs ms s"
    and run: "run \<noteq> []" "n = length run" "mset run = mset (take n rest)"
    and g: "good \<longrightarrow> P s' \<and> stable_sorted lt (take n rest) run"
    and ms': "arr ms' = concat runs @ run @ drop n rest" "pending ms' = pending ms @ [(length (concat runs), n)]"
  shows "stack_ok good P K lt xs (drop n rest) (runs @ [run]) ms' s'"
proof -
  have rep: "stack_rep runs rest ms" and m: "mset (concat runs @ rest) = mset xs" using st by (auto simp: stack_ok_def)
  have "stack_rep (runs @ [run]) (drop n rest) ms'" using rep run ms' by (auto simp: stack_rep_def)
  moreover have "mset (concat (runs @ [run]) @ drop n rest) = mset xs"
    using m run(3) mset_take_drop [of n rest] by (simp add: add.assoc)
  moreover have "\<exists>origs. xs = concat origs @ drop n rest \<and> list_all2 (stable_sorted lt) origs (runs @ [run])" if gd: good
  proof -
    obtain os where "xs = concat os @ rest" "list_all2 (stable_sorted lt) os runs"
      using st gd by (auto simp: stack_ok_def)
    with g gd show ?thesis by (intro exI [of _ "os @ [take n rest]"]) (simp add: list_all2_appendI)
  qed
  ultimately show ?thesis using st g by (auto simp: stack_ok_def)
qed

lemma sort_runs_correct:
  assumes ok: "cmp_ok good P K lt islt" and mem: "good \<longrightarrow> grants mem (length xs)"
    and fits: "ptr_size * length xs \<le> nat PY_SSIZE_T_MAX"
    and "stack_ok good P K lt xs rest runs ms s" "stack_inv (lens runs)" "rest \<noteq> []"
    and "sort_runs mem islt minrun (length (concat runs)) (length rest) ms s = (res, ms', s')"
  shows "res \<noteq> AssertionFailed \<and> (good \<longrightarrow> res = SortOk) \<and> mset (arr ms') = mset xs \<and>
    (res = SortOk \<longrightarrow> (\<exists>runs. runs \<noteq> [] \<and> stack_ok good P K lt xs [] runs ms' s'))"
  using assms(4-7)
proof (induction "length rest" arbitrary: rest runs ms s rule: less_induct)
  case less
  let ?pre = "concat runs"
  have rep: "arr ms = ?pre @ rest" "pending ms = spans 0 runs" "[] \<notin> set runs" and m: "mset (?pre @ rest) = mset xs"
    using less.prems(1) by (auto simp: stack_ok_def stack_rep_def)
  have g: "good \<longrightarrow> P s \<and> set (?pre @ rest) \<subseteq> K"
    using less.prems(1) stack_ok_set [OF less.prems(1)] by (auto simp: stack_ok_def)
  obtain r a1 s1 where nr: "next_run islt minrun (length ?pre) (length rest) (?pre @ rest) s = (r, a1, s1)"
    by (metis prod_cases3)
  note spec = next_run_correct [OF ok less.prems(3) g nr]
  show ?case
  proof (cases r)
    case None
    with spec nr rep m less.prems(4) show ?thesis
      by (auto simp: sort_runs.simps [of mem islt minrun _ _ ms s])
  next
    case (Some n)
    then obtain run where run: "a1 = ?pre @ run @ drop n rest" "run \<noteq> []" "n = length run" "mset run = mset (take n rest)"
      "good \<longrightarrow> P s1 \<and> stable_sorted lt (take n rest) run" using spec by auto
    define ms1 where "ms1 = ms\<lparr>arr := a1, pending := pending ms @ [(length ?pre, n)]\<rparr>"
    have st1: "stack_ok good P K lt xs (drop n rest) (runs @ [run]) ms1 s1"
      by (rule stack_ok_push [OF less.prems(1) run(2-5)]) (simp_all add: ms1_def run(1))
    have "length (concat runs) \<le> length xs" using mset_eq_length [OF m] by simp
    then have "length runs < MAX_MERGE_PENDING"
      using stack_inv_bound [OF less.prems(2) rep(3)] fits by simp
    then have push: "push_run (length ?pre) n (ms\<lparr>arr := a1\<rparr>) = Some ms1"
      by (simp add: push_run_def ms1_def rep(2))
    obtain q ms2 s2 where q: "merge_collapse mem islt ms1 s1 = (q, ms2, s2)" by (metis prod_cases3)
    have "stack_result good P K lt xs (drop n rest) (\<lambda>runs. stack_inv (lens runs)) q ms2 s2"
      by (rule merge_collapse_correct [OF ok mem st1 _ _ q]) (use stack_inv_drop [OF less.prems(2), of 1] in auto)
    then obtain runs2 where runs2: "runs2 \<noteq> []" "stack_ok good P K lt xs (drop n rest) runs2 ms2 s2"
      "q = SortOk \<longrightarrow> stack_inv (lens runs2)" and qa: "q \<noteq> AssertionFailed" "good \<longrightarrow> q = SortOk"
      unfolding stack_result_def by blast
    have arr2: "mset (arr ms2) = mset xs" using runs2(2) by (auto simp: stack_ok_def stack_rep_def)
    have n: "0 < n" "n \<le> length rest" using run(2-4) mset_eq_length [OF run(4)] by auto
    then have lo: "length ?pre + n = length (concat runs2)"
      using mset_eq_length [OF m] stack_ok_length [OF runs2(2)] runs2(2) by (auto simp: stack_ok_def stack_rep_def)
    have step: "sort_runs mem islt minrun (length ?pre) (length rest) ms s =
        (if q = SortOk then
           if n < length rest then sort_runs mem islt minrun (length (concat runs2)) (length (drop n rest)) ms2 s2
           else (SortOk, ms2, s2)
         else (q, ms2, s2))"
      using nr Some push q lo rep(1)
      by (subst sort_runs.simps) (auto split: sort_result.split)
    show ?thesis
    proof (cases "q = SortOk \<and> n < length rest")
      case True
      with n have "length (drop n rest) < length rest" "drop n rest \<noteq> []" by auto
      with less.hyps [OF _ runs2(2)] runs2 step less.prems(4) True show ?thesis by simp
    next
      case False
      with step less.prems(4) runs2 qa arr2 show ?thesis by (cases "q = SortOk") auto
    qed
  qed
qed

lemma sort_slots_correct:
  assumes ok: "cmp_ok good P K lt islt" and g: "good \<longrightarrow> P s \<and> set xs \<subseteq> K \<and> grants mem (length xs)"
    and fits: "ptr_size * length xs \<le> nat PY_SSIZE_T_MAX"
    and sort: "sort_slots mem islt hk xs s = (res, ms', s')"
  shows "res \<noteq> AssertionFailed \<and> mset (arr ms') = mset xs \<and>
    (good \<longrightarrow> res = SortOk \<and> P s' \<and> stable_sorted lt xs (arr ms'))"
proof (cases "length xs < 2")
  case True
  then have "sorted_by lt xs" by (cases xs) auto
  with True sort g show ?thesis by (auto simp: sort_slots_def merge_init_def Let_def stable_sorted_refl)
next
  case False
  let ?ms = "merge_init xs (length xs) hk" and ?minrun = "merge_compute_minrun (length xs)"
  have st: "stack_ok good P K lt xs xs [] ?ms s"
    using g by (simp add: stack_ok_def stack_rep_def merge_init_def)
  have mem: "good \<longrightarrow> grants mem (length xs)" and ne: "xs \<noteq> []" using g False by auto
  obtain r ms1 s1 where r: "sort_runs mem islt ?minrun 0 (length xs) ?ms s = (r, ms1, s1)" by (metis prod_cases3)
  have spec1: "r \<noteq> AssertionFailed \<and> (good \<longrightarrow> r = SortOk) \<and> mset (arr ms1) = mset xs \<and>
    (r = SortOk \<longrightarrow> (\<exists>runs. runs \<noteq> [] \<and> stack_ok good P K lt xs [] runs ms1 s1))"
    by (rule sort_runs_correct [OF ok mem fits st]) (use ne r in simp_all)
  show ?thesis
  proof (cases "r = SortOk")
    case True
    then obtain runs where runs: "runs \<noteq> []" "stack_ok good P K lt xs [] runs ms1 s1" using spec1 by blast
    obtain q ms2 s2 where q: "merge_force_collapse mem islt ms1 s1 = (q, ms2, s2)" by (metis prod_cases3)
    obtain runs2 where q2: "q \<noteq> AssertionFailed" "good \<longrightarrow> q = SortOk" "stack_ok good P K lt xs [] runs2 ms2 s2"
      "q = SortOk \<longrightarrow> length runs2 = 1"
      using merge_force_collapse_correct [OF ok mem runs(2,1) q] unfolding stack_result_def by blast
    have arr2: "mset (arr ms2) = mset xs" using q2(3) by (auto simp: stack_ok_def stack_rep_def)
    show ?thesis
    proof (cases "q = SortOk")
      case q1: True
      then obtain run where run: "runs2 = [run]" using q2(4) by (auto simp: length_Suc_conv)
      have "arr ms2 = run" "pending ms2 = [(0, length xs)]"
        using q2(3) run mset_eq_length [OF arr2] by (auto simp: stack_ok_def stack_rep_def)
      moreover have "good \<longrightarrow> P s2 \<and> stable_sorted lt xs run"
        using q2(3) run by (auto simp: stack_ok_def list_all2_Cons2)
      ultimately show ?thesis
        using sort False r True q q1 arr2 by (simp add: sort_slots_def Let_def)
    next
      case False
      with q2 arr2 sort \<open>\<not> length xs < 2\<close> r True q show ?thesis
        by (cases q) (auto simp: sort_slots_def Let_def)
    qed
  next
    case nr: False
    with sort False r spec1 show ?thesis by (cases r) (auto simp: sort_slots_def Let_def)
  qed
qed

end
