(* ===== verification/List_Sort.thy ===== *)
theory List_Sort
  imports Sort_Stack List_Object_Correct
begin

text \<open>
  \<open>list_sort_impl\<close> of \<open>checked_list.c\<close>: the pre-sort check that picks a compare function, the compare
  functions, and the sort of a list object with key function and \<open>reverse\<close>.

  The objects a compare function looks into are those of \<open>pyobj\<close>: integers, strings (their code
  points), floats (of a type \<open>'f\<close> left open), tuples, and objects of other types. Everything else
  about comparing is the interpreter's: \<open>cmp_env\<close> collects the calls the C code makes. All
  callbacks thread a state that contains the list being sorted.
\<close>

section \<open>Definitions\<close>

subsection \<open>Objects\<close>

datatype 'f pyobj =
    LongObj int
  | UnicodeObj "nat list"
  | FloatObj 'f
  | TupleObj "'f pyobj list"
  | OtherObj nat nat

text \<open>\<open>Py_TYPE\<close>; an object of another type carries a number for its type and one for its identity.\<close>

datatype pytype = LongType | UnicodeType | FloatType | TupleType | OtherType nat

fun type_of :: "'f pyobj \<Rightarrow> pytype" where
  "type_of (LongObj _) = LongType"
| "type_of (UnicodeObj _) = UnicodeType"
| "type_of (FloatObj _) = FloatType"
| "type_of (TupleObj _) = TupleType"
| "type_of (OtherObj t _) = OtherType t"

text \<open>\<open>PyUnstable_Long_IsCompact\<close>: at most one 30-bit digit.\<close>

fun long_is_compact :: "'f pyobj \<Rightarrow> bool" where
  "long_is_compact (LongObj i) \<longleftrightarrow> \<bar>i\<bar> < 2 ^ 30"
| "long_is_compact _ \<longleftrightarrow> False"

text \<open>\<open>PyUnicode_KIND(key) == PyUnicode_1BYTE_KIND\<close>\<close>

fun one_byte_kind :: "'f pyobj \<Rightarrow> bool" where
  "one_byte_kind (UnicodeObj cs) \<longleftrightarrow> (\<forall>c\<in>set cs. c < 256)"
| "one_byte_kind _ \<longleftrightarrow> False"

fun nonempty_tuple :: "'f pyobj \<Rightarrow> bool" where
  "nonempty_tuple (TupleObj (_ # _)) \<longleftrightarrow> True"
| "nonempty_tuple _ \<longleftrightarrow> False"

fun tuple_items :: "'f pyobj \<Rightarrow> 'f pyobj list" where
  "tuple_items (TupleObj xs) = xs"
| "tuple_items _ = []"

subsection \<open>Compare functions\<close>

text \<open>
  What the interpreter answers: \<open>PyObject_RichCompareBool\<close> with \<open>Py_LT\<close> and \<open>Py_EQ\<close>, the
  \<open>tp_richcompare\<close> slot of a type (\<open>None\<close> for a null slot) and its call with \<open>Py_LT\<close>, \<open>PyObject_IsTrue\<close>,
  and the order on floats.
\<close>

datatype slot_result = SlotNull | SlotNotImplemented | SlotBool bool | SlotObject nat

record ('f, 's) cmp_env =
  rich_lt :: "'f pyobj \<Rightarrow> 'f pyobj \<Rightarrow> 's \<Rightarrow> bool option \<times> 's"
  rich_eq :: "'f pyobj \<Rightarrow> 'f pyobj \<Rightarrow> 's \<Rightarrow> bool option \<times> 's"
  tp_richcompare :: "pytype \<Rightarrow> nat option"
  call_slot :: "nat \<Rightarrow> 'f pyobj \<Rightarrow> 'f pyobj \<Rightarrow> 's \<Rightarrow> slot_result \<times> 's"
  is_true :: "nat \<Rightarrow> 's \<Rightarrow> bool option \<times> 's"
  float_lt :: "'f \<Rightarrow> 'f \<Rightarrow> bool"

definition safe_object_compare ::
  "('f, 's) cmp_env \<Rightarrow> 'f pyobj \<Rightarrow> 'f pyobj \<Rightarrow> 's \<Rightarrow> bool option \<times> 's" where
  "safe_object_compare env v w s = rich_lt env v w s"

definition unsafe_object_compare ::
  "('f, 's) cmp_env \<Rightarrow> nat \<Rightarrow> 'f pyobj \<Rightarrow> 'f pyobj \<Rightarrow> 's \<Rightarrow> bool option \<times> 's" where
  "unsafe_object_compare env key_richcompare v w s =
     (if tp_richcompare env (type_of v) \<noteq> Some key_richcompare then rich_lt env v w s
      else case call_slot env key_richcompare v w s of
          (SlotNotImplemented, s) \<Rightarrow> rich_lt env v w s
        | (SlotNull, s) \<Rightarrow> (None, s)
        | (SlotBool b, s) \<Rightarrow> (Some b, s)
        | (SlotObject x, s) \<Rightarrow> is_true env x s)"

text \<open>\<open>memcmp\<close> of the first \<open>n\<close> bytes.\<close>

fun memcmp :: "nat list \<Rightarrow> nat list \<Rightarrow> nat \<Rightarrow> int" where
  "memcmp (x # xs) (y # ys) (Suc n) = (if x < y then -1 else if y < x then 1 else memcmp xs ys n)"
| "memcmp _ _ _ = 0"

definition latin_lt :: "nat list \<Rightarrow> nat list \<Rightarrow> bool" where
  "latin_lt v w =
     (let len = min (length v) (length w);
          res = memcmp v w len
      in if res \<noteq> 0 then res < 0 else length v < length w)"

fun unsafe_latin_compare :: "'f pyobj \<Rightarrow> 'f pyobj \<Rightarrow> bool" where
  "unsafe_latin_compare (UnicodeObj v) (UnicodeObj w) = latin_lt v w"
| "unsafe_latin_compare _ _ = False"

fun unsafe_long_compare :: "'f pyobj \<Rightarrow> 'f pyobj \<Rightarrow> bool" where
  "unsafe_long_compare (LongObj v) (LongObj w) \<longleftrightarrow> v < w"
| "unsafe_long_compare _ _ \<longleftrightarrow> False"

fun unsafe_float_compare :: "('f, 's) cmp_env \<Rightarrow> 'f pyobj \<Rightarrow> 'f pyobj \<Rightarrow> bool" where
  "unsafe_float_compare env (FloatObj v) (FloatObj w) = float_lt env v w"
| "unsafe_float_compare env _ _ = False"

text \<open>The first index at which two tuples differ; \<open>None\<close> when a comparison raises.\<close>

fun tuple_diff :: "('f, 's) cmp_env \<Rightarrow> 'f pyobj list \<Rightarrow> 'f pyobj list \<Rightarrow> nat \<Rightarrow> 's \<Rightarrow> nat option \<times> 's" where
  "tuple_diff env (v # vs) (w # ws) i s =
     (case rich_eq env v w s of
        (None, s) \<Rightarrow> (None, s)
      | (Some k, s) \<Rightarrow> if k then tuple_diff env vs ws (Suc i) s else (Some i, s))"
| "tuple_diff env _ _ i s = (Some i, s)"

definition unsafe_tuple_compare ::
  "('f, 's) cmp_env \<Rightarrow> ('f pyobj \<Rightarrow> 'f pyobj \<Rightarrow> 's \<Rightarrow> bool option \<times> 's) \<Rightarrow>
     'f pyobj \<Rightarrow> 'f pyobj \<Rightarrow> 's \<Rightarrow> bool option \<times> 's" where
  "unsafe_tuple_compare env tuple_elem_compare v w s =
     (let vs = tuple_items v; ws = tuple_items w in
      case tuple_diff env vs ws 0 s of
        (None, s) \<Rightarrow> (None, s)
      | (Some i, s) \<Rightarrow>
          if i \<ge> length vs \<or> i \<ge> length ws then (Some (length vs < length ws), s)
          else if i = 0 then tuple_elem_compare (vs ! i) (ws ! i) s
          else rich_lt env (vs ! i) (ws ! i) s)"

text \<open>The values \<open>ms->key_compare\<close> and \<open>ms->tuple_elem_compare\<close> can have.\<close>

datatype compare_fn =
  SafeObject | UnsafeObject nat | UnsafeLatin | UnsafeLong | UnsafeFloat | UnsafeTuple compare_fn

primrec run_compare ::
  "('f, 's) cmp_env \<Rightarrow> compare_fn \<Rightarrow> 'f pyobj \<Rightarrow> 'f pyobj \<Rightarrow> 's \<Rightarrow> bool option \<times> 's" where
  "run_compare env SafeObject = safe_object_compare env"
| "run_compare env (UnsafeObject rc) = unsafe_object_compare env rc"
| "run_compare env UnsafeLatin = (\<lambda>v w s. (Some (unsafe_latin_compare v w), s))"
| "run_compare env UnsafeLong = (\<lambda>v w s. (Some (unsafe_long_compare v w), s))"
| "run_compare env UnsafeFloat = (\<lambda>v w s. (Some (unsafe_float_compare env v w), s))"
| "run_compare env (UnsafeTuple f) = unsafe_tuple_compare env (run_compare env f)"

subsection \<open>The pre-sort check\<close>

record presort =
  keys_are_in_tuples :: bool
  keys_are_all_same_type :: bool
  strings_are_latin :: bool
  ints_are_bounded :: bool

text \<open>What one key does to the flags when the scan goes on.\<close>

definition presort_key :: "pytype \<Rightarrow> 'f pyobj \<Rightarrow> presort \<Rightarrow> presort" where
  "presort_key key_type key p =
     (if type_of key \<noteq> key_type then p\<lparr>keys_are_all_same_type := False\<rparr>
      else if \<not> keys_are_all_same_type p then p
      else if key_type = LongType \<and> ints_are_bounded p \<and> \<not> long_is_compact key
      then p\<lparr>ints_are_bounded := False\<rparr>
      else if key_type = UnicodeType \<and> strings_are_latin p \<and> \<not> one_byte_kind key
      then p\<lparr>strings_are_latin := False\<rparr>
      else p)"

fun presort_scan :: "pytype \<Rightarrow> 'f pyobj list \<Rightarrow> presort \<Rightarrow> presort" where
  "presort_scan key_type [] p = p"
| "presort_scan key_type (k # ks) p =
     (if keys_are_in_tuples p \<and> \<not> nonempty_tuple k
      then p\<lparr>keys_are_in_tuples := False, keys_are_all_same_type := False\<rparr>
      else
        (let key = (if keys_are_in_tuples p then hd (tuple_items k) else k) in
         if type_of key \<noteq> key_type \<and> \<not> keys_are_in_tuples p then p\<lparr>keys_are_all_same_type := False\<rparr>
         else presort_scan key_type ks (presort_key key_type key p)))"

definition presort_check :: "('f, 's) cmp_env \<Rightarrow> 'f pyobj list \<Rightarrow> compare_fn" where
  "presort_check env keys =
     (let tuples = nonempty_tuple (hd keys);
          key_type = type_of (if tuples then hd (tuple_items (hd keys)) else hd keys);
          p = presort_scan key_type keys
                \<lparr>keys_are_in_tuples = tuples, keys_are_all_same_type = True,
                 strings_are_latin = True, ints_are_bounded = True\<rparr>;
          key_compare =
            (if keys_are_all_same_type p then
               (if key_type = UnicodeType \<and> strings_are_latin p then UnsafeLatin
                else if key_type = LongType \<and> ints_are_bounded p then UnsafeLong
                else if key_type = FloatType then UnsafeFloat
                else case tp_richcompare env key_type of
                    Some rc \<Rightarrow> UnsafeObject rc
                  | None \<Rightarrow> SafeObject)
             else SafeObject)
      in if keys_are_in_tuples p
         then UnsafeTuple (if key_type = TupleType then SafeObject else key_compare)
         else key_compare)"

subsection \<open>Sorting a list object\<close>

type_synonym ('f, 's) sort_state = "'f pyobj PyListObject \<times> 's"

text \<open>\<open>keys[i] = PyObject_CallOneArg(keyfunc, saved_ob_item[i])\<close>, until one call fails.\<close>

fun call_keys :: "('o \<Rightarrow> 's \<Rightarrow> 'k option \<times> 's) \<Rightarrow> 'o list \<Rightarrow> 's \<Rightarrow> 'k list option \<times> 's" where
  "call_keys f [] s = (Some [], s)"
| "call_keys f (x # xs) s =
     (case f x s of
        (None, s) \<Rightarrow> (None, s)
      | (Some k, s) \<Rightarrow>
          (case call_keys f xs s of
             (None, s) \<Rightarrow> (None, s)
           | (Some ks, s) \<Rightarrow> (Some (k # ks), s)))"

text \<open>
  A slot pairs a key with its item; without a key function the items are their own keys (the C
  code then has no values array and moves the keys alone).
\<close>

definition slot_compare ::
  "('f, 's) cmp_env \<Rightarrow> compare_fn \<Rightarrow> ('f pyobj \<times> 'f pyobj, 's) islt" where
  "slot_compare env f x y s = run_compare env f (fst x) (fst y) s"

definition make_keys ::
  "(nat \<Rightarrow> bool) \<Rightarrow> ('o \<Rightarrow> 's \<Rightarrow> 'o option \<times> 's) option \<Rightarrow> 'o list \<Rightarrow> 's \<Rightarrow> 'o list res \<times> 's" where
  "make_keys mem keyfunc xs s =
     (case keyfunc of
        None \<Rightarrow> (Inr xs, s)
      | Some f \<Rightarrow>
          if length xs \<ge> MERGESTATE_TEMP_SIZE div 2 \<and> \<not> mem (ptr_size * length xs) then (Inl MemoryError, s)
          else case call_keys f xs s of
              (None, s) \<Rightarrow> (Inl Propagated, s)
            | (Some ks, s) \<Rightarrow> (Inr ks, s))"

text \<open>From the pre-sort check to \<open>merge_freemem\<close>: the result and the slots in their final order.\<close>

definition sort_and_reverse ::
  "(nat \<Rightarrow> bool) \<Rightarrow> ('f, 's) cmp_env \<Rightarrow> bool \<Rightarrow> bool \<Rightarrow> ('f pyobj \<times> 'f pyobj) list \<Rightarrow> 's \<Rightarrow>
     sort_result \<times> ('f pyobj \<times> 'f pyobj) list \<times> 's" where
  "sort_and_reverse mem env has_keyfunc rv slots s =
     (let n = length slots;
          f = (if n > 1 then presort_check env (map fst slots) else SafeObject);
          slots = (if rv \<and> n > 1 then reverse_slice slots 0 n else slots);
          (res, ms, s) = sort_slots mem (slot_compare env f) has_keyfunc slots s;
          slots = (if rv \<and> n > 1 then reverse_slice (arr ms) 0 n else arr ms)
      in (res, slots, s))"

definition list_sort_impl ::
  "(nat \<Rightarrow> bool) \<Rightarrow> ('f, ('f, 's) sort_state) cmp_env \<Rightarrow>
     ('f pyobj \<Rightarrow> ('f, 's) sort_state \<Rightarrow> 'f pyobj option \<times> ('f, 's) sort_state) option \<Rightarrow> bool \<Rightarrow>
     ('f, 's) sort_state \<Rightarrow> unit res \<times> ('f, 's) sort_state" where
  "list_sort_impl mem env keyfunc rv st =
     (let (saved, s) = st;
          xs = items saved;
          st = (saved\<lparr>ob_size := 0, ob_item := None, allocated := -1\<rparr>, s)
      in case make_keys mem keyfunc xs st of
           (Inl e, (self, s)) \<Rightarrow> (Inl e, (saved, s))
         | (Inr ks, st) \<Rightarrow>
             (let (res, slots, (self, s)) = sort_and_reverse mem env (keyfunc \<noteq> None) rv (zip ks xs) st;
                  r = (case res of
                         SortOk \<Rightarrow>
                           if allocated self \<noteq> -1 then Inl (ValueError ''list modified during sort'') else Inr ()
                       | SortError \<Rightarrow> Inl Propagated
                       | AssertionFailed \<Rightarrow> Inl AssertionFailure);
                  item = map_option (\<lambda>c. map (Some \<circ> snd) slots @ drop (length xs) c) (ob_item saved)
              in (r, (saved\<lparr>ob_item := item\<rparr>, s))))"

definition list_reverse_impl :: "'o PyListObject \<Rightarrow> 'o PyListObject" where
  "list_reverse_impl self =
     (if ob_size self > 1
      then self\<lparr>ob_item := Some (reverse_slice (cells self) 0 (nat (ob_size self)))\<rparr> else self)"

end
