(* ===== verification/List_Sort_Correct.thy ===== *)
theory List_Sort_Correct
  imports List_Sort
begin

text \<open>
  What \<open>list.sort\<close> does to a list object. The orders behind the fast compare functions are
  consistent (\<open>latin_order\<close>, \<open>int_order\<close>); sorting never loses or duplicates an item, whatever the
  callbacks do; with a consistent order it is stable, with \<open>reverse\<close> too; and the compare
  function picked by the pre-sort check answers as the interpreter's \<open><\<close> does on all keys.
\<close>

section \<open>The orders behind the compare functions\<close>

lemma memcmp_0 [simp]: "memcmp xs ys 0 = 0"
  by (cases xs; cases ys) auto

lemma latin_lt_simps [simp]:
  "latin_lt [] ys \<longleftrightarrow> ys \<noteq> []" "\<not> latin_lt xs []"
  "latin_lt (x # xs) (y # ys) \<longleftrightarrow> x < y \<or> x = y \<and> latin_lt xs ys"
  by (auto simp: latin_lt_def Let_def)

lemma latin_lt_linear: "latin_lt xs ys \<Longrightarrow> \<not> latin_lt ys xs"
  by (induction xs arbitrary: ys) (metis latin_lt_simps(2), metis latin_lt_simps(3) list.exhaust less_asym less_irrefl latin_lt_simps(2))

lemma latin_lt_between: "latin_lt xs zs \<Longrightarrow> latin_lt xs ys \<or> latin_lt ys zs"
proof (induction xs arbitrary: ys zs)
  case Nil
  then show ?case by (cases ys) auto
next
  case (Cons x xs)
  then obtain z zs' where z: "zs = z # zs'" by (cases zs) auto
  show ?case
  proof (cases ys)
    case (Cons y ys')
    with Cons.IH [of zs' ys'] Cons.prems z show ?thesis by (auto simp: not_less_iff_gr_or_eq)
  qed (use z in simp)
qed

interpretation latin_order: strict_weak_order latin_lt
  by unfold_locales (use latin_lt_linear latin_lt_between in blast)+

interpretation int_order: strict_weak_order "(<) :: int \<Rightarrow> int \<Rightarrow> bool"
  by unfold_locales auto

text \<open>The code points of a string and the value of an integer, as keys to order by.\<close>

fun code_points :: "'f pyobj \<Rightarrow> nat list" where
  "code_points (UnicodeObj cs) = cs"
| "code_points _ = []"

fun long_value :: "'f pyobj \<Rightarrow> int" where
  "long_value (LongObj i) = i"
| "long_value _ = 0"

section \<open>The pre-sort check\<close>

lemma presort_scan_uniform:
  assumes "\<forall>k\<in>set ks. type_of k = t \<and> (t = LongType \<longrightarrow> long_is_compact k) \<and> (t = UnicodeType \<longrightarrow> one_byte_kind k)"
    and "\<not> keys_are_in_tuples p"
  shows "presort_scan t ks p = p"
  using assms by (induction ks) (auto simp: Let_def presort_key_def)

text \<open>A list of small integers is compared as integers, a list of Latin-1 strings as byte strings.\<close>

lemma presort_check_long:
  assumes "ks \<noteq> []" "\<forall>k\<in>set ks. type_of k = LongType \<and> long_is_compact k"
  shows "presort_check env ks = UnsafeLong"
proof -
  have "type_of (hd ks) = LongType" using assms by auto
  moreover from this have "\<not> nonempty_tuple (hd ks)" by (cases "hd ks") auto
  ultimately show ?thesis
    using assms by (simp add: presort_check_def Let_def presort_scan_uniform)
qed

lemma presort_check_latin:
  assumes "ks \<noteq> []" "\<forall>k\<in>set ks. type_of k = UnicodeType \<and> one_byte_kind k"
  shows "presort_check env ks = UnsafeLatin"
proof -
  have "type_of (hd ks) = UnicodeType" using assms by auto
  moreover from this have "\<not> nonempty_tuple (hd ks)" by (cases "hd ks") auto
  ultimately show ?thesis
    using assms by (simp add: presort_check_def Let_def presort_scan_uniform)
qed

section \<open>Sorting the slots\<close>

lemma reverse_slice_all [simp]: "reverse_slice xs 0 (length xs) = rev xs"
  using reverse_slice_append [of "[]" 0 "length xs" xs "[]"] by simp

lemma sort_and_reverse_correct:
  assumes ok: "length slots > 1 \<Longrightarrow> cmp_ok good P K lt (slot_compare env (presort_check env (map fst slots)))"
    and g: "good \<longrightarrow> P s \<and> set slots \<subseteq> K \<and> grants mem (length slots)"
    and fits: "ptr_size * length slots \<le> nat PY_SSIZE_T_MAX"
    and sort: "sort_and_reverse mem env hk rv slots s = (res, out, s')"
  shows "res \<noteq> AssertionFailed \<and> mset out = mset slots \<and>
    (good \<longrightarrow> res = SortOk \<and> P s' \<and> stable_sorted (if rv then \<lambda>x y. lt y x else lt) slots out)"
proof -
  define ins where "ins = (if rv \<and> length slots > 1 then rev slots else slots)"
  obtain r ms s1 where r: "sort_slots mem (slot_compare env (if length slots > 1 then presort_check env (map fst slots) else SafeObject))
      hk ins s = (r, ms, s1)" by (metis prod_cases3)
  have "good \<longrightarrow> P s \<and> set ins \<subseteq> K \<and> grants mem (length ins)" "ptr_size * length ins \<le> nat PY_SSIZE_T_MAX"
    using g fits by (simp_all add: ins_def)
  note pre = this
  have sp: "r \<noteq> AssertionFailed \<and> mset (arr ms) = mset ins \<and>
      (good \<longrightarrow> r = SortOk \<and> P s1 \<and> stable_sorted lt ins (arr ms))"
  proof (cases "length slots > 1")
    case True
    with ok have "cmp_ok good P K lt (slot_compare env (if length slots > 1 then presort_check env (map fst slots) else SafeObject))"
      by simp
    from sort_slots_correct [OF this pre r] show ?thesis .
  next
    case False
    then have "length ins < 2" by (simp add: ins_def)
    moreover from this have "sorted_by lt ins" by (cases ins) auto
    ultimately show ?thesis using r pre(1) by (auto simp: sort_slots_def merge_init_def Let_def stable_sorted_refl)
  qed
  have len: "length (arr ms) = length slots"
    using mset_eq_length [OF conjunct1 [OF conjunct2 [OF sp]]] by (simp add: ins_def)
  have out: "out = (if rv \<and> length slots > 1 then rev (arr ms) else arr ms)" "res = r" "s' = s1"
    using sort r len reverse_slice_all [of "arr ms"]
    by (auto simp: sort_and_reverse_def Let_def ins_def split: if_splits)
  have short: "stable_sorted lt' slots slots" if "\<not> length slots > 1" for lt'
    using that by (intro stable_sorted_refl) (cases slots; auto)
  have "stable_sorted (if rv then \<lambda>x y. lt y x else lt) slots out" if good
  proof (cases "rv \<and> length slots > 1")
    case True
    with sp that out show ?thesis using stable_sorted_rev [of lt slots "arr ms"] by (simp add: ins_def)
  next
    case False
    then show ?thesis
    proof (cases rv)
      case True
      with False have "length slots \<le> 1" by simp
      moreover have "mset out = mset slots" using sp out False by (simp add: ins_def)
      ultimately have "out = slots" by (cases slots) auto
      with short False True show ?thesis by auto
    qed (use sp that out in \<open>simp add: ins_def\<close>)
  qed
  with sp out show ?thesis by (simp add: ins_def split: if_splits)
qed


section \<open>Sorting a list\<close>

lemma call_keys_length: "call_keys f xs s = (Some ks, s') \<Longrightarrow> length ks = length xs"
  by (induction xs arbitrary: ks s) (auto split: prod.splits option.splits)

lemma make_keys_length: "make_keys mem keyfunc xs s = (Inr ks, s') \<Longrightarrow> length ks = length xs"
  by (auto simp: make_keys_def split: option.splits if_splits prod.splits dest!: call_keys_length)

lemma mset_map_snd_zip: "length ks = length xs \<Longrightarrow> mset out = mset (zip ks xs) \<Longrightarrow> mset (map snd out) = mset xs"
  by (metis map_snd_zip mset_map)

lemma list_holds_rewrite:
  assumes "list_holds self xs" "length ys = length xs"
  shows "list_holds (self\<lparr>ob_item := map_option (\<lambda>c. map Some ys @ drop (length xs) c) (ob_item self)\<rparr>) ys"
  using assms by (auto simp: list_holds_def cells_def split: option.splits)

text \<open>The call once its keys are there.\<close>

lemma list_sort_impl_step:
  assumes "list_holds self xs" "make_keys mem keyfunc xs (self\<lparr>ob_size := 0, ob_item := None, allocated := -1\<rparr>, s) = (Inr ks, st1)"
    and "sort_and_reverse mem env (keyfunc \<noteq> None) rv (zip ks xs) st1 = (res, out, (self2, s2))"
  shows "list_sort_impl mem env keyfunc rv (self, s) =
    (case res of
       SortOk \<Rightarrow> if allocated self2 \<noteq> -1 then Inl (ValueError ''list modified during sort'') else Inr ()
     | SortError \<Rightarrow> Inl Propagated
     | AssertionFailed \<Rightarrow> Inl AssertionFailure,
     (self\<lparr>ob_item := map_option (\<lambda>c. map Some (map snd out) @ drop (length xs) c) (ob_item self)\<rparr>, s2))"
  using assms list_holds_items [OF assms(1)] by (simp add: list_sort_impl_def comp_def)

lemma list_holds_fits: "list_holds self xs \<Longrightarrow> ptr_size * length xs \<le> nat PY_SSIZE_T_MAX"
  using list_holds_length by fastforce

lemma list_sort_impl_permutes:
  assumes self: "list_holds self xs" and sort: "list_sort_impl mem env keyfunc rv (self, s) = (r, (self', s'))"
  shows "r \<noteq> Inl AssertionFailure \<and> (\<exists>ys. list_holds self' ys \<and> mset ys = mset xs)"
proof -
  let ?st = "(self\<lparr>ob_size := 0, ob_item := None, allocated := -1\<rparr>, s)"
  obtain k st1 where k: "make_keys mem keyfunc xs ?st = (k, st1)" by (metis prod.exhaust)
  show ?thesis
  proof (cases k)
    case (Inl e)
    moreover have "e \<noteq> AssertionFailure"
      using k Inl by (auto simp: make_keys_def split: option.splits if_splits prod.splits)
    ultimately show ?thesis
      using sort k self list_holds_items [OF self] by (auto simp: list_sort_impl_def split: prod.splits)
  next
    case (Inr ks)
    have len: "length ks = length xs" using make_keys_length [OF k [unfolded Inr]] .
    obtain res out self2 s2 where sr: "sort_and_reverse mem env (keyfunc \<noteq> None) rv (zip ks xs) st1 = (res, out, (self2, s2))"
      by (metis prod_cases4)
    have "cmp_ok False (\<lambda>_. True) {} (\<lambda>_ _. False) (slot_compare env (presort_check env (map fst (zip ks xs))))"
      by (simp add: cmp_ok_def)
    then have res: "res \<noteq> AssertionFailed" "mset out = mset (zip ks xs)"
      using sort_and_reverse_correct [OF _ _ _ sr, of False] list_holds_fits [OF self] len by auto
    have m: "mset (map snd out) = mset xs" by (rule mset_map_snd_zip [OF len res(2)])
    then have "list_holds self' (map snd out)"
      using list_sort_impl_step [OF self k [unfolded Inr] sr] sort list_holds_rewrite [OF self, of "map snd out"]
        mset_eq_length [OF m] by (simp del: map_map)
    moreover have "r \<noteq> Inl AssertionFailure"
      using list_sort_impl_step [OF self k [unfolded Inr] sr] sort res(1) by (cases res) (auto split: if_splits)
    ultimately show ?thesis using m by blast
  qed
qed


lemma stable_sorted_map:
  assumes g: "inj g" and s: "stable_sorted lt (map g xs) (map g ys)"
  shows "stable_sorted (\<lambda>x y. lt (g x) (g y)) xs ys"
proof -
  have "sorted_by (\<lambda>x y. lt (g x) (g y)) ys" using s by (simp add: stable_sorted_def sorted_by_def sorted_wrt_map)
  moreover have "mset ys = mset xs"
  proof -
    have "mset (map (inv g) (map g ys)) = mset (map (inv g) (map g xs))"
      using s by (simp only: stable_sorted_def mset_map)
    with g show ?thesis by (simp add: comp_def)
  qed
  moreover have "filter (tied (\<lambda>x y. lt (g x) (g y)) z) ys = filter (tied (\<lambda>x y. lt (g x) (g y)) z) xs" for z
  proof -
    have "filter (tied lt (g z)) (map g us) = map g (filter (tied (\<lambda>x y. lt (g x) (g y)) z) us)" for us
      by (induction us) (simp_all add: tied_def)
    moreover have "filter (tied lt (g z)) (map g ys) = filter (tied lt (g z)) (map g xs)"
      using s by (simp add: stable_sorted_def)
    ultimately show ?thesis using g by (simp add: inj_map_eq_map)
  qed
  ultimately show ?thesis by (simp add: stable_sorted_def)
qed

text \<open>
  With a comparison that decides a consistent order on the keys and leaves the list alone, the
  result is the stably sorted rearrangement, by the converse order for \<open>reverse=True\<close>.
\<close>

lemma list_sort_impl_stable:
  assumes self: "list_holds self xs" and mem: "\<And>b. int b \<le> PY_SSIZE_T_MAX \<Longrightarrow> mem b"
    and keys: "make_keys mem keyfunc xs (self\<lparr>ob_size := 0, ob_item := None, allocated := -1\<rparr>, s) = (Inr (map key xs), st1)"
    and lt: "strict_weak_order lt" and st1: "allocated (fst st1) = -1"
    and cmp: "length xs > 1 \<Longrightarrow>
      decides (\<lambda>st. allocated (fst st) = -1) (key ` set xs) lt (run_compare env (presort_check env (map key xs)))"
  shows "\<exists>self' s'. list_sort_impl mem env keyfunc rv (self, s) = (Inr (), (self', s')) \<and>
    (\<exists>ys. list_holds self' ys \<and> stable_sorted (\<lambda>x y. if rv then lt (key y) (key x) else lt (key x) (key y)) xs ys)"
proof -
  let ?P = "\<lambda>st :: ('a, 'b) sort_state. allocated (fst st) = -1"
  let ?slots = "zip (map key xs) xs"
  let ?lt = "\<lambda>x y. lt (fst x) (fst y)"
  have slots: "?slots = map (\<lambda>x. (key x, x)) xs" by (induction xs) auto
  have "strict_weak_order ?lt" by (rule strict_weak_order.pullback_order [OF lt])
  moreover have "decides ?P (set ?slots) ?lt (slot_compare env (presort_check env (map fst ?slots)))" if "length xs > 1"
    using cmp [OF that] by (auto simp: decides_def slot_compare_def slots comp_def)
  ultimately have ok: "length ?slots > 1 \<Longrightarrow> cmp_ok True ?P (set ?slots) ?lt
      (slot_compare env (presort_check env (map fst ?slots)))"
    by (simp add: cmp_ok_def)
  have grants: "grants mem (length ?slots)"
    using mem list_holds_fits [OF self] by (auto simp: grants_def)
  obtain res out self2 s2 where sr: "sort_and_reverse mem env (keyfunc \<noteq> None) rv ?slots st1 = (res, out, (self2, s2))"
    by (metis prod_cases4)
  have sp: "res = SortOk" "allocated self2 = -1" "stable_sorted (if rv then \<lambda>x y. ?lt y x else ?lt) ?slots out"
    using sort_and_reverse_correct [OF ok _ _ sr] grants st1 list_holds_fits [OF self] by auto
  let ?g = "\<lambda>x. (key x, x)"
  have "set out = set ?slots" using sp(3) by (metis mset_eq_setD stable_sorted_mset)
  then have "out = map ?g (map snd out)"
    by (auto simp: slots intro!: map_idI [symmetric])
  then have "stable_sorted (if rv then \<lambda>x y. ?lt y x else ?lt) (map ?g xs) (map ?g (map snd out))"
    using sp(3) by (simp only: slots)
  then have st: "stable_sorted (\<lambda>x y. (if rv then \<lambda>x y. ?lt y x else ?lt) (?g x) (?g y)) xs (map snd out)"
    by (rule stable_sorted_map [rotated]) (auto simp: inj_def)
  then have "stable_sorted (\<lambda>x y. if rv then lt (key y) (key x) else lt (key x) (key y)) xs (map snd out)"
    by (cases rv) simp_all
  moreover have "list_sort_impl mem env keyfunc rv (self, s) =
      (Inr (), (self\<lparr>ob_item := map_option (\<lambda>c. map Some (map snd out) @ drop (length xs) c) (ob_item self)\<rparr>, s2))"
    using list_sort_impl_step [OF self keys sr] sp(1,2) by simp
  moreover have "list_holds (self\<lparr>ob_item := map_option (\<lambda>c. map Some (map snd out) @ drop (length xs) c) (ob_item self)\<rparr>) (map snd out)"
    using stable_sorted_length [OF st] by (intro list_holds_rewrite [OF self]) simp
  ultimately show ?thesis by blast
qed


lemma list_reverse_impl_spec:
  assumes "list_holds self xs"
  shows "list_holds (list_reverse_impl self) (rev xs)"
proof -
  obtain spare where c: "cells self = map Some xs @ spare" using assms by (auto simp: list_holds_def)
  have sz: "ob_size self = int (length xs)" using list_holds_length [OF assms] by simp
  show ?thesis
  proof (cases "1 < length xs")
    case True
    then have "reverse_slice (cells self) 0 (length xs) = map Some (rev xs) @ spare"
      using reverse_slice_append [of "[]" 0 "length xs" "map Some xs" spare] c by (simp add: rev_map)
    then show ?thesis
      using assms True sz c by (auto simp: list_reverse_impl_def list_holds_def)
  next
    case False
    then have "rev xs = xs" by (cases xs) auto
    with assms False sz show ?thesis by (simp add: list_reverse_impl_def)
  qed
qed


lemma list_sort_impl_items:
  fixes self :: "'f pyobj PyListObject"
  assumes self: "list_holds self xs" and mem: "\<And>b. int b \<le> PY_SSIZE_T_MAX \<Longrightarrow> mem b"
    and lt: "strict_weak_order lt"
    and cmp: "length xs > 1 \<Longrightarrow>
      decides (\<lambda>st. allocated (fst st) = -1) (set xs) lt (run_compare env (presort_check env xs))"
  shows "\<exists>self' s'. list_sort_impl mem env None rv (self, s) = (Inr (), (self', s')) \<and>
    (\<exists>ys. list_holds self' ys \<and> stable_sorted (\<lambda>x y. if rv then lt y x else lt x y) xs ys)"
proof -
  have keys: "make_keys mem None xs (self\<lparr>ob_size := 0, ob_item := None, allocated := -1\<rparr>, s)
      = (Inr (map id xs), (self\<lparr>ob_size := 0, ob_item := None, allocated := -1\<rparr>, s))"
    by (simp add: make_keys_def)
  show ?thesis
    using list_sort_impl_stable [OF self mem keys lt, of env rv] cmp by (cases rv) simp_all
qed

text \<open>Lists of small integers and of Latin-1 strings sort without any call into the interpreter.\<close>

lemma list_sort_impl_longs:
  assumes self: "list_holds self xs" and mem: "\<And>b. int b \<le> PY_SSIZE_T_MAX \<Longrightarrow> mem b"
    and longs: "\<forall>x\<in>set xs. type_of x = LongType \<and> long_is_compact x"
  shows "\<exists>self' s'. list_sort_impl mem env None rv (self, s) = (Inr (), (self', s')) \<and>
    (\<exists>ys. list_holds self' ys \<and>
      stable_sorted (\<lambda>x y. if rv then long_value y < long_value x else long_value x < long_value y) xs ys)"
proof (rule list_sort_impl_items [where lt = "\<lambda>x y. long_value x < long_value y", OF self mem])
  show "strict_weak_order (\<lambda>x y. long_value x < long_value y)" by (rule int_order.pullback_order)
  have "unsafe_long_compare x y = (long_value x < long_value y)" if "type_of x = LongType" "type_of y = LongType" for x y :: "'a pyobj"
    using that by (cases x; cases y) auto
  then show "decides (\<lambda>st. allocated (fst st) = - 1) (set xs) (\<lambda>x y. long_value x < long_value y) (run_compare env (presort_check env xs))"
    if "1 < length xs"
    using that longs presort_check_long [of xs env] by (cases "xs = []") (auto simp: decides_def)
qed simp

lemma list_sort_impl_latin:
  assumes self: "list_holds self xs" and mem: "\<And>b. int b \<le> PY_SSIZE_T_MAX \<Longrightarrow> mem b"
    and strs: "\<forall>x\<in>set xs. type_of x = UnicodeType \<and> one_byte_kind x"
  shows "\<exists>self' s'. list_sort_impl mem env None rv (self, s) = (Inr (), (self', s')) \<and>
    (\<exists>ys. list_holds self' ys \<and>
      stable_sorted (\<lambda>x y. if rv then latin_lt (code_points y) (code_points x) else latin_lt (code_points x) (code_points y)) xs ys)"
proof (rule list_sort_impl_items [where lt = "\<lambda>x y. latin_lt (code_points x) (code_points y)", OF self mem])
  show "strict_weak_order (\<lambda>x y. latin_lt (code_points x) (code_points y))" by (rule latin_order.pullback_order)
  have "unsafe_latin_compare x y = latin_lt (code_points x) (code_points y)"
    if "type_of x = UnicodeType" "type_of y = UnicodeType" for x y :: "'a pyobj"
    using that by (cases x; cases y) auto
  then show "decides (\<lambda>st. allocated (fst st) = - 1) (set xs) (\<lambda>x y. latin_lt (code_points x) (code_points y)) (run_compare env (presort_check env xs))"
    if "1 < length xs"
    using that strs presort_check_latin [of xs env] by (cases "xs = []") (auto simp: decides_def)
qed simp

section \<open>The compare functions agree with the interpreter\<close>

text \<open>
  What the interpreter documents about \<open><\<close>: integers, strings and floats compare by value, tuples by
  the first items that are not equal, and an answer of the slot of the type of both operands is
  the answer of \<open><\<close>.
\<close>

definition rich_compare_laws :: "('f, 's) cmp_env \<Rightarrow> bool" where
  "rich_compare_laws env \<longleftrightarrow>
     (\<forall>a b s. rich_lt env (LongObj a) (LongObj b) s = (Some (a < b), s)) \<and>
     (\<forall>a b s. rich_lt env (UnicodeObj a) (UnicodeObj b) s = (Some (latin_lt a b), s)) \<and>
     (\<forall>a b s. rich_lt env (FloatObj a) (FloatObj b) s = (Some (float_lt env a b), s)) \<and>
     (\<forall>vs ws s. rich_lt env (TupleObj vs) (TupleObj ws) s =
        unsafe_tuple_compare env (rich_lt env) (TupleObj vs) (TupleObj ws) s) \<and>
     (\<forall>v w rc s. type_of v = type_of w \<longrightarrow> tp_richcompare env (type_of v) = Some rc \<longrightarrow>
        unsafe_object_compare env rc v w s = rich_lt env v w s)"

lemma presort_key_tuples [simp]: "keys_are_in_tuples (presort_key t key p) = keys_are_in_tuples p"
  by (simp add: presort_key_def)

lemma presort_key_same:
  "keys_are_all_same_type (presort_key t key p) \<longleftrightarrow> keys_are_all_same_type p \<and> type_of key = t"
  by (simp add: presort_key_def)

lemma presort_key_kinds:
  "strings_are_latin (presort_key t key p) \<Longrightarrow> strings_are_latin p"
  "ints_are_bounded (presort_key t key p) \<Longrightarrow> ints_are_bounded p"
  "keys_are_all_same_type (presort_key t key p) \<Longrightarrow> t = LongType \<Longrightarrow> ints_are_bounded (presort_key t key p) \<Longrightarrow> long_is_compact key"
  "keys_are_all_same_type (presort_key t key p) \<Longrightarrow> t = UnicodeType \<Longrightarrow> strings_are_latin (presort_key t key p) \<Longrightarrow> one_byte_kind key"
  by (auto simp: presort_key_def split: if_splits)

text \<open>What the flags say about the keys when the scan is over.\<close>

definition scanned_key :: "presort \<Rightarrow> 'f pyobj \<Rightarrow> 'f pyobj" where
  "scanned_key p k = (if keys_are_in_tuples p then hd (tuple_items k) else k)"

lemma presort_scan_Cons:
  "presort_scan t (k # ks) p =
    (if keys_are_in_tuples p \<and> \<not> nonempty_tuple k then p\<lparr>keys_are_in_tuples := False, keys_are_all_same_type := False\<rparr>
     else if type_of (scanned_key p k) \<noteq> t \<and> \<not> keys_are_in_tuples p then p\<lparr>keys_are_all_same_type := False\<rparr>
     else presort_scan t ks (presort_key t (scanned_key p k) p))"
  by (simp add: scanned_key_def Let_def)

declare presort_scan.simps(2) [simp del]

lemma presort_scan_mono:
  "(keys_are_in_tuples (presort_scan t ks p) \<longrightarrow> keys_are_in_tuples p) \<and>
   (keys_are_all_same_type (presort_scan t ks p) \<longrightarrow> keys_are_all_same_type p) \<and>
   (strings_are_latin (presort_scan t ks p) \<longrightarrow> strings_are_latin p) \<and>
   (ints_are_bounded (presort_scan t ks p) \<longrightarrow> ints_are_bounded p)"
proof (induction ks arbitrary: p)
  case (Cons k ks)
  show ?case
    unfolding presort_scan_Cons
    using Cons.IH [of "presort_key t (scanned_key p k) p"] presort_key_same [of t "scanned_key p k" p]
      presort_key_kinds(1,2) [of t "scanned_key p k" p]
    by simp
qed simp

lemma presort_scan_sound:
  assumes "q = presort_scan t ks p"
  shows "(keys_are_in_tuples q \<longrightarrow> (\<forall>k\<in>set ks. nonempty_tuple k)) \<and>
    (keys_are_all_same_type q \<longrightarrow> keys_are_in_tuples q = keys_are_in_tuples p \<and>
      (\<forall>k\<in>set ks. type_of (scanned_key p k) = t \<and>
        (t = LongType \<and> ints_are_bounded q \<longrightarrow> long_is_compact (scanned_key p k)) \<and>
        (t = UnicodeType \<and> strings_are_latin q \<longrightarrow> one_byte_kind (scanned_key p k))))"
  using assms
proof (induction ks arbitrary: p)
  case (Cons k ks)
  let ?key = "scanned_key p k" and ?p = "presort_key t (scanned_key p k) p"
  show ?case
  proof (cases "keys_are_in_tuples p \<and> \<not> nonempty_tuple k \<or> type_of ?key \<noteq> t \<and> \<not> keys_are_in_tuples p")
    case True
    with Cons.prems show ?thesis by (simp add: presort_scan_Cons split: if_splits)
  next
    case False
    then have q: "q = presort_scan t ks ?p" using Cons.prems by (auto simp: presort_scan_Cons)
    have sk: "scanned_key ?p = scanned_key p" by (simp add: scanned_key_def fun_eq_iff)
    note IH = Cons.IH [OF q, unfolded sk presort_key_tuples]
    have mono: "keys_are_in_tuples q \<longrightarrow> keys_are_in_tuples p" "keys_are_all_same_type q \<longrightarrow> keys_are_all_same_type ?p"
      "strings_are_latin q \<longrightarrow> strings_are_latin ?p" "ints_are_bounded q \<longrightarrow> ints_are_bounded ?p"
      using presort_scan_mono [of t ks ?p] q by simp_all
    have "keys_are_in_tuples q \<longrightarrow> nonempty_tuple k" using mono(1) False by blast
    moreover have "type_of ?key = t \<and> (t = LongType \<and> ints_are_bounded q \<longrightarrow> long_is_compact ?key) \<and>
        (t = UnicodeType \<and> strings_are_latin q \<longrightarrow> one_byte_kind ?key)" if "keys_are_all_same_type q"
      using that mono presort_key_same [of t ?key p] presort_key_kinds(3,4) [of t ?key p] by blast
    ultimately show ?thesis using IH by simp
  qed
qed simp

lemma presort_check_sound:
  assumes laws: "rich_compare_laws env" and xy: "x \<in> set keys" "y \<in> set keys"
  shows "run_compare env (presort_check env keys) x y s = rich_lt env x y s"
proof -
  define tuples where "tuples = nonempty_tuple (hd keys)"
  define p where "p = \<lparr>keys_are_in_tuples = tuples, keys_are_all_same_type = True,
      strings_are_latin = True, ints_are_bounded = True\<rparr>"
  define t where "t = type_of (if tuples then hd (tuple_items (hd keys)) else hd keys)"
  define q where "q = presort_scan t keys p"
  define f where "f = (if keys_are_all_same_type q then
               (if t = UnicodeType \<and> strings_are_latin q then UnsafeLatin
                else if t = LongType \<and> ints_are_bounded q then UnsafeLong
                else if t = FloatType then UnsafeFloat
                else case tp_richcompare env t of
                    Some rc \<Rightarrow> UnsafeObject rc
                  | None \<Rightarrow> SafeObject)
             else SafeObject)"
  have chk: "presort_check env keys =
      (if keys_are_in_tuples q then UnsafeTuple (if t = TupleType then SafeObject else f) else f)"
    unfolding presort_check_def Let_def f_def q_def p_def t_def tuples_def by (rule refl)
  have f: "run_compare env f v w s = rich_lt env v w s"
    if "keys_are_all_same_type q \<longrightarrow> type_of v = t \<and> type_of w = t" for v w s
    using that laws
    by (cases v; cases w) (auto simp: f_def rich_compare_laws_def safe_object_compare_def split: option.splits)
  note sound = presort_scan_sound [OF q_def]
  show ?thesis
  proof (cases "keys_are_in_tuples q")
    case False
    then have "presort_check env keys = f" by (simp add: chk)
    moreover have "keys_are_all_same_type q \<longrightarrow> type_of x = t \<and> type_of y = t"
      using sound False xy by (auto simp: scanned_key_def)
    ultimately show ?thesis using f by simp
  next
    case True
    let ?e = "if t = TupleType then SafeObject else f"
    have chk': "presort_check env keys = UnsafeTuple ?e" using True by (simp add: chk)
    obtain v vs w ws where xy': "x = TupleObj (v # vs)" "y = TupleObj (w # ws)"
      using sound True xy by (metis nonempty_tuple.elims(2))
    have "keys_are_in_tuples p" using presort_scan_mono True unfolding q_def by blast
    then have "keys_are_all_same_type q \<longrightarrow> type_of v = t \<and> type_of w = t"
      using sound xy xy' by (force simp: scanned_key_def)
    then have e: "run_compare env ?e v w s' = rich_lt env v w s'" for s'
      using f by (simp add: safe_object_compare_def)
    have "unsafe_tuple_compare env g x y s = unsafe_tuple_compare env (rich_lt env) x y s"
      if "\<And>s'. g v w s' = rich_lt env v w s'" for g
      unfolding unsafe_tuple_compare_def xy' tuple_items.simps Let_def
      by (auto simp: that split: option.split prod.split)
    from this [of "run_compare env ?e", OF e] show ?thesis using laws xy' by (simp add: chk' rich_compare_laws_def)
  qed
qed

section \<open>A concrete interpreter\<close>

text \<open>
  Comparison of values built from integers, strings and tuples, as the interpreter does it; it
  satisfies \<open>rich_compare_laws\<close> and serves to evaluate the sort on concrete lists.
\<close>

fun plain_lt :: "'f pyobj \<Rightarrow> 'f pyobj \<Rightarrow> bool" and plain_lts :: "'f pyobj list \<Rightarrow> 'f pyobj list \<Rightarrow> bool" where
  "plain_lt (LongObj a) (LongObj b) \<longleftrightarrow> a < b"
| "plain_lt (UnicodeObj a) (UnicodeObj b) \<longleftrightarrow> latin_lt a b"
| "plain_lt (TupleObj vs) (TupleObj ws) \<longleftrightarrow> plain_lts vs ws"
| "plain_lt _ _ \<longleftrightarrow> False"
| "plain_lts [] ws \<longleftrightarrow> ws \<noteq> []"
| "plain_lts (v # vs) [] \<longleftrightarrow> False"
| "plain_lts (v # vs) (w # ws) \<longleftrightarrow> (if v = w then plain_lts vs ws else plain_lt v w)"

definition plain_env :: "('f, 's) cmp_env" where
  "plain_env =
     \<lparr>rich_lt = \<lambda>v w s. (Some (plain_lt v w), s), rich_eq = \<lambda>v w s. (Some (v = w), s),
      tp_richcompare = \<lambda>_. None, call_slot = \<lambda>_ _ _ s. (SlotNotImplemented, s),
      is_true = \<lambda>_ s. (Some True, s), float_lt = \<lambda>_ _. False\<rparr>"

fun first_diff :: "'a list \<Rightarrow> 'a list \<Rightarrow> nat" where
  "first_diff (v # vs) (w # ws) = (if v = w then Suc (first_diff vs ws) else 0)"
| "first_diff _ _ = 0"

lemma tuple_diff_plain: "tuple_diff plain_env vs ws i s = (Some (i + first_diff vs ws), s)"
  by (induction vs ws arbitrary: i rule: first_diff.induct) (simp_all add: plain_env_def)

lemma plain_lts_first_diff:
  "plain_lts vs ws = (if first_diff vs ws \<ge> length vs \<or> first_diff vs ws \<ge> length ws then length vs < length ws
     else plain_lt (vs ! first_diff vs ws) (ws ! first_diff vs ws))"
  by (induction vs ws rule: list_induct2') auto

lemma plain_env_laws: "rich_compare_laws plain_env"
proof -
  have "rich_lt plain_env (TupleObj vs) (TupleObj ws) s =
      unsafe_tuple_compare plain_env (rich_lt plain_env) (TupleObj vs) (TupleObj ws) s" for vs ws s
    by (simp add: unsafe_tuple_compare_def Let_def tuple_diff_plain)
      (simp add: plain_env_def plain_lts_first_diff [of vs ws])
  then show ?thesis unfolding rich_compare_laws_def
    by (intro conjI allI impI) (simp_all only:, simp_all add: plain_env_def)
qed

text \<open>A list object of three integers, with room for a fourth.\<close>

definition three_longs :: "unit pyobj PyListObject" where
  "three_longs = \<lparr>ob_item = Some [Some (LongObj 3), Some (LongObj 1), Some (LongObj 2), None],
     ob_size = 3, allocated = 4\<rparr>"

lemma three_longs_items: "items three_longs = [LongObj 3, LongObj 1, LongObj 2]"
  by (simp add: items_def three_longs_def cells_def)

lemma three_longs_wf: "list_wf three_longs"
  by (simp add: list_wf_def three_longs_def cells_def)

lemma three_longs_holds: "list_holds three_longs [LongObj 3, LongObj 1, LongObj 2]"
  using three_longs_wf by (simp add: list_wf_iff three_longs_items)

end
