(* ===== verification/List_Methods_Correct.thy ===== *)
theory List_Methods_Correct
  imports List_Methods List_Sort_Correct
begin

text \<open>
  Correctness of the methods of \<open>List_Methods\<close>: what they return when the comparison answers a
  fixed relation and leaves the list alone, that slices select the right items, that extending
  appends, and that the iterators visit every item once.
\<close>

section \<open>Comparing without side effects on the list\<close>

lemma int_next: "int i + 1 = int (Suc i)"
  by simp

text \<open>A bound counts from the end when it is negative, and is then cut off at zero.\<close>

definition index_bound :: "int \<Rightarrow> nat \<Rightarrow> int" where
  "index_bound i n = (if i < 0 then max 0 (i + int n) else i)"

locale quiet_eq =
  fixes eq :: "('o, 's) leq" and R :: "'o \<Rightarrow> 'o \<Rightarrow> bool"
  assumes quiet: "\<exists>s'. eq x y (self, s) = (Some (R x y), (self, s'))"
begin

lemma contains_loop:
  "list_holds self xs \<Longrightarrow>
     \<exists>s'. list_contains_loop eq el (int i) (self, s) = Some (Some (\<exists>x\<in>set (drop i xs). R x el), (self, s'))"
proof (induction "length xs - i" arbitrary: i s rule: less_induct)
  case less
  note size = list_holds_length [OF less.prems]
  show ?case
  proof (cases "i < length xs")
    case i: True
    obtain s1 where s1: "eq (xs ! i) el (self, s) = (Some (R (xs ! i) el), (self, s1))" using quiet by blast
    have "\<exists>s2. list_contains_loop eq el (int (Suc i)) (self, s1) =
        Some (Some (\<exists>x\<in>set (drop (Suc i) xs). R x el), (self, s2))"
      using i by (intro less.hyps less.prems) simp
    then show ?thesis using s1 size get_item_holds [OF less.prems i] i
      by (subst list_contains_loop.simps)
        (auto simp: Cons_nth_drop_Suc [OF i, symmetric] int_next simp del: of_nat_Suc)
  next
    case False
    then show ?thesis using size by (subst list_contains_loop.simps) simp
  qed
qed

lemma contains:
  assumes "list_holds self xs"
  shows "\<exists>s'. list_contains eq el (self, s) = Some (Some (\<exists>x\<in>set xs. R x el), (self, s'))"
  using contains_loop [OF assms, of el 0] by (simp add: list_contains_def)

text \<open>The first index from \<open>i\<close> on whose item compares equal.\<close>

lemma index_loop:
  "list_holds self xs \<Longrightarrow>
     \<exists>s'. list_index_loop eq v (int i) stop (self, s) =
       Some (case find (\<lambda>k. R (xs ! k) v) [i..<min (length xs) (nat stop)] of
               Some k \<Rightarrow> Inr (int k) | None \<Rightarrow> Inl (ValueError ''value is not in list''), (self, s'))"
proof (induction "length xs - i" arbitrary: i s rule: less_induct)
  case less
  note size = list_holds_length [OF less.prems]
  show ?case
  proof (cases "i < length xs \<and> int i < stop")
    case True
    then have "i < min (length xs) (nat stop)" by linarith
    then have upt: "[i..<min (length xs) (nat stop)] = i # [Suc i..<min (length xs) (nat stop)]"
      by (simp only: upt_conv_Cons)
    obtain s1 where s1: "eq (xs ! i) v (self, s) = (Some (R (xs ! i) v), (self, s1))" using quiet by blast
    have "\<exists>s2. list_index_loop eq v (int (Suc i)) stop (self, s1) =
       Some (case find (\<lambda>k. R (xs ! k) v) [Suc i..<min (length xs) (nat stop)] of
               Some k \<Rightarrow> Inr (int k) | None \<Rightarrow> Inl (ValueError ''value is not in list''), (self, s2))"
      using True by (intro less.hyps less.prems) auto
    then show ?thesis using True s1 size get_item_holds [OF less.prems conjunct1 [OF True]] unfolding upt
      by (subst list_index_loop.simps) (auto simp: int_next simp del: of_nat_Suc)
  next
    case False
    then show ?thesis using size by (subst list_index_loop.simps) auto
  qed
qed

lemma index:
  assumes "list_holds self xs"
  shows "\<exists>s'. list_index_impl eq v start stop (self, s) =
    Some (case find (\<lambda>k. R (xs ! k) v) [nat (index_bound start (length xs))..<min (length xs) (nat (index_bound stop (length xs)))] of
            Some k \<Rightarrow> Inr (int k) | None \<Rightarrow> Inl (ValueError ''value is not in list''), (self, s'))"
proof -
  have "0 \<le> index_bound start (length xs)" by (simp add: index_bound_def)
  then have "index_bound start (length xs) = int (nat (index_bound start (length xs)))" by simp
  moreover have "list_index_impl eq v start stop (self, s) =
    list_index_loop eq v (index_bound start (length xs)) (index_bound stop (length xs)) (self, s)"
    using list_holds_length [OF assms] by (simp add: list_index_impl_def index_bound_def Let_def max_def)
  ultimately show ?thesis
    using index_loop [OF assms, of v "nat (index_bound start (length xs))" "index_bound stop (length xs)" s] by metis
qed

lemma count_loop:
  "list_holds self xs \<Longrightarrow>
     \<exists>s'. list_count_loop eq v (int i) cnt (self, s) =
       Some (Inr (cnt + int (length (filter (\<lambda>x. x = v \<or> R x v) (drop i xs)))), (self, s'))"
proof (induction "length xs - i" arbitrary: i cnt s rule: less_induct)
  case less
  note size = list_holds_length [OF less.prems]
  show ?case
  proof (cases "i < length xs")
    case i: True
    obtain s1 where s1: "eq (xs ! i) v (self, s) = (Some (R (xs ! i) v), (self, s1))" using quiet by blast
    define c where "c = (if xs ! i = v \<or> R (xs ! i) v then cnt + 1 else cnt)"
    define s0 where "s0 = (if xs ! i = v then s else s1)"
    have "list_count_loop eq v (int i) cnt (self, s) = list_count_loop eq v (int (Suc i)) c (self, s0)"
      using s1 size get_item_holds [OF less.prems i] i
      by (subst list_count_loop.simps) (simp add: int_next c_def s0_def del: of_nat_Suc)
    moreover have "\<exists>s'. list_count_loop eq v (int (Suc i)) c (self, s0) =
       Some (Inr (c + int (length (filter (\<lambda>x. x = v \<or> R x v) (drop (Suc i) xs)))), (self, s'))"
      using i by (intro less.hyps less.prems) simp
    moreover have "c + int (length (filter (\<lambda>x. x = v \<or> R x v) (drop (Suc i) xs))) =
        cnt + int (length (filter (\<lambda>x. x = v \<or> R x v) (drop i xs)))"
      by (simp add: Cons_nth_drop_Suc [OF i, symmetric] c_def)
    ultimately show ?thesis by metis
  next
    case False
    then show ?thesis using size by (subst list_count_loop.simps) simp
  qed
qed

lemma count:
  assumes "list_holds self xs"
  shows "\<exists>s'. list_count eq v (self, s) = Some (Inr (int (length (filter (\<lambda>x. x = v \<or> R x v) xs))), (self, s'))"
  using count_loop [OF assms, of v 0 0] by (simp add: list_count_def)

text \<open>Removing the first item that compares equal.\<close>

lemma remove_loop:
  assumes "mem_sane mem" "list_holds self xs" "list_remove_loop mem eq v (int i) (self, s) = Some (r, (self', s'))"
  shows "case r of
      Inl e \<Rightarrow> self' = self \<and> (e = MemoryError \<or> e = ValueError ''list.remove(x): x not in list'' \<and> (\<forall>x\<in>set (drop i xs). \<not> R x v))
    | Inr _ \<Rightarrow> \<exists>k. i \<le> k \<and> k < length xs \<and> R (xs ! k) v \<and> (\<forall>j. i \<le> j \<and> j < k \<longrightarrow> \<not> R (xs ! j) v) \<and>
        list_holds self' (take k xs @ drop (Suc k) xs)"
  using assms(2,3)
proof (induction "length xs - i" arbitrary: i s rule: less_induct)
  case less
  note size = list_holds_length [OF less.prems(1)]
  show ?case
  proof (cases "i < length xs")
    case i: True
    obtain s1 where s1: "eq (xs ! i) v (self, s) = (Some (R (xs ! i) v), (self, s1))" using quiet by blast
    show ?thesis
    proof (cases "R (xs ! i) v")
      case True
      have "list_ass_slice_items mem self (int i) (int (Suc i)) [] = (r, self')"
        using less.prems(2) True s1 size get_item_holds [OF less.prems(1) i] i
        by (subst (asm) list_remove_loop.simps) (auto simp: int_next list_ass_slice_def simp del: of_nat_Suc split: prod.splits)
      moreover have "length xs + length [] \<le> 2 ^ 60" using size by simp
      ultimately have "case r of Inl e \<Rightarrow> e = MemoryError \<and> self' = self | Inr _ \<Rightarrow> list_holds self' (take i xs @ [] @ drop (Suc i) xs)"
        using i by (intro list_ass_slice_items_spec [OF less.prems(1) assms(1) _ clamp_slice_inside]) auto
      with True i show ?thesis by (cases r) (auto intro!: exI [of _ i])
    next
      case False
      have rec: "list_remove_loop mem eq v (int (Suc i)) (self, s1) = Some (r, (self', s'))"
        using less.prems(2) False s1 size get_item_holds [OF less.prems(1) i] i
        by (subst (asm) list_remove_loop.simps) (auto simp: int_next simp del: of_nat_Suc)
      have "length xs - Suc i < length xs - i" using i by simp
      from less.hyps [OF this less.prems(1) rec] show ?thesis
      proof (cases r)
        case (Inr u)
        then obtain k where k: "Suc i \<le> k" "k < length xs" "R (xs ! k) v" "\<forall>j. Suc i \<le> j \<and> j < k \<longrightarrow> \<not> R (xs ! j) v"
          "list_holds self' (take k xs @ drop (Suc k) xs)"
          using less.hyps [OF \<open>length xs - Suc i < length xs - i\<close> less.prems(1) rec] by auto
        then have "\<forall>j. i \<le> j \<and> j < k \<longrightarrow> \<not> R (xs ! j) v" using False by (metis Suc_leI le_eq_less_or_eq)
        with k Inr show ?thesis by (auto intro!: exI [of _ k])
      qed (use False in \<open>auto simp: Cons_nth_drop_Suc [OF i, symmetric]\<close>)
    qed
  next
    case False
    then show ?thesis using less.prems(2) size by (subst (asm) list_remove_loop.simps) auto
  qed
qed

lemma remove_returns:
  assumes "list_holds self xs"
  shows "\<exists>r self' s'. list_remove_loop mem eq v (int i) (self, s) = Some (r, (self', s'))"
  using assms
proof (induction "length xs - i" arbitrary: i s rule: less_induct)
  case less
  note size = list_holds_length [OF less.prems]
  show ?case
  proof (cases "i < length xs \<and> \<not> R (xs ! i) v")
    case True
    obtain s1 where s1: "eq (xs ! i) v (self, s) = (Some (R (xs ! i) v), (self, s1))" using quiet by blast
    have "\<exists>r self' s'. list_remove_loop mem eq v (int (Suc i)) (self, s1) = Some (r, (self', s'))"
      using True by (intro less.hyps less.prems) auto
    then show ?thesis using True s1 size get_item_holds [OF less.prems conjunct1 [OF True]]
      by (subst list_remove_loop.simps) (auto simp: int_next simp del: of_nat_Suc)
  next
    case False
    obtain s1 where s1: "eq (xs ! i) v (self, s) = (Some (R (xs ! i) v), (self, s1))" using quiet by blast
    show ?thesis using False s1 size get_item_holds [OF less.prems, of i]
      by (subst list_remove_loop.simps) (auto split: prod.splits)
  qed
qed

end

interpretation plain_eq: quiet_eq "rich_eq plain_env" "(=)"
  by unfold_locales (simp add: plain_env_def)

section \<open>Comparing lists\<close>

locale quiet_pair =
  fixes eq :: "'o \<Rightarrow> 'o \<Rightarrow> 'h \<Rightarrow> bool option \<times> 'h" and R :: "'o \<Rightarrow> 'o \<Rightarrow> bool"
    and vl wl :: "'h \<Rightarrow> 'o PyListObject"
  assumes quiet: "\<exists>h'. eq x y h = (Some (R x y), h') \<and> vl h' = vl h \<and> wl h' = wl h"
begin

abbreviation same :: "'o \<Rightarrow> 'o \<Rightarrow> bool" where
  "same x y \<equiv> x = y \<or> R x y"

text \<open>The loop stops at the first pair that differs, or at the end of the shorter list.\<close>

lemma richcompare_loop:
  "list_holds (vl h) xs \<Longrightarrow> list_holds (wl h) ys \<Longrightarrow> i \<le> length xs \<Longrightarrow> i \<le> length ys \<Longrightarrow>
     \<exists>k h'. richcompare_loop eq vl wl (int i) h = Some (Some (int k), h') \<and> vl h' = vl h \<and> wl h' = wl h \<and>
       i \<le> k \<and> k \<le> length xs \<and> k \<le> length ys \<and> (\<forall>j. i \<le> j \<and> j < k \<longrightarrow> same (xs ! j) (ys ! j)) \<and>
       (k < length xs \<and> k < length ys \<longrightarrow> \<not> same (xs ! k) (ys ! k))"
proof (induction "length xs - i" arbitrary: i h rule: less_induct)
  case less
  note size = list_holds_length [OF less.prems(1)] list_holds_length [OF less.prems(2)]
  show ?case
  proof (cases "i < length xs \<and> i < length ys")
    case True
    note item = get_item_holds [OF less.prems(1) conjunct1 [OF True]] get_item_holds [OF less.prems(2) conjunct2 [OF True]]
    obtain h1 where h1: "eq (xs ! i) (ys ! i) h = (Some (R (xs ! i) (ys ! i)), h1)" "vl h1 = vl h" "wl h1 = wl h"
      using quiet by blast
    show ?thesis
    proof (cases "same (xs ! i) (ys ! i)")
      case same: True
      define h0 where "h0 = (if xs ! i = ys ! i then h else h1)"
      have h0: "vl h0 = vl h" "wl h0 = wl h" using h1 by (simp_all add: h0_def)
      have "richcompare_loop eq vl wl (int i) h = richcompare_loop eq vl wl (int (Suc i)) h0"
        using True same h1 item size by (subst richcompare_loop.simps) (auto simp: int_next h0_def Let_def simp del: of_nat_Suc)
      moreover have "\<exists>k h'. richcompare_loop eq vl wl (int (Suc i)) h0 = Some (Some (int k), h') \<and> vl h' = vl h0 \<and> wl h' = wl h0 \<and>
          Suc i \<le> k \<and> k \<le> length xs \<and> k \<le> length ys \<and> (\<forall>j. Suc i \<le> j \<and> j < k \<longrightarrow> same (xs ! j) (ys ! j)) \<and>
          (k < length xs \<and> k < length ys \<longrightarrow> \<not> same (xs ! k) (ys ! k))"
        by (rule less.hyps) (use True less.prems h0 in auto)
      then obtain k h' where "richcompare_loop eq vl wl (int (Suc i)) h0 = Some (Some (int k), h')" "vl h' = vl h" "wl h' = wl h"
        "Suc i \<le> k" "k \<le> length xs" "k \<le> length ys" "\<forall>j. Suc i \<le> j \<and> j < k \<longrightarrow> same (xs ! j) (ys ! j)"
        "k < length xs \<and> k < length ys \<longrightarrow> \<not> same (xs ! k) (ys ! k)"
        unfolding h0 by blast
      moreover from this(7) same have "\<forall>j. i \<le> j \<and> j < k \<longrightarrow> same (xs ! j) (ys ! j)"
        by (metis Suc_leI le_eq_less_or_eq)
      ultimately show ?thesis by (intro exI [of _ k] exI [of _ h']) auto
    next
      case False
      then show ?thesis using True h1 item size less.prems
        by (subst richcompare_loop.simps) (auto simp: Let_def intro!: exI [of _ i])
    qed
  next
    case False
    then show ?thesis using size less.prems by (subst richcompare_loop.simps) (auto intro!: exI [of _ i])
  qed
qed

text \<open>Equality of lists is equality item by item, identical objects counting as equal.\<close>

lemma richcompare_eq:
  assumes v: "list_holds (vl h) xs" and w: "list_holds (wl h) ys" and op: "op = Py_EQ \<or> op = Py_NE"
  shows "\<exists>h'. list_richcompare eq rich (Some \<circ> vl) (Some \<circ> wl) op h =
    Some (Inr (CmpBool (list_all2 same xs ys \<longleftrightarrow> op = Py_EQ)), h') \<and> vl h' = vl h \<and> wl h' = wl h"
proof (cases "length xs = length ys")
  case False
  then show ?thesis using list_holds_length [OF v] list_holds_length [OF w] op
    by (auto simp: list_richcompare_def Let_def comp_def dest: list_all2_lengthD)
next
  case True
  note size = list_holds_length [OF v] list_holds_length [OF w]
  obtain k h' where loop: "richcompare_loop eq vl wl (int 0) h = Some (Some (int k), h')" "vl h' = vl h" "wl h' = wl h"
    and k: "k \<le> length xs" "k \<le> length ys" "\<forall>j. 0 \<le> j \<and> j < k \<longrightarrow> same (xs ! j) (ys ! j)"
    "k < length xs \<and> k < length ys \<longrightarrow> \<not> same (xs ! k) (ys ! k)"
    using richcompare_loop [OF v w, of 0] by blast
  have all: "list_all2 same xs ys \<longleftrightarrow> k = length xs"
    using k True by (auto simp: list_all2_conv_all_nth) (metis le_neq_implies_less)
  have the: "the \<circ> (Some \<circ> vl) = vl" "the \<circ> (Some \<circ> wl) = wl" by (simp_all add: comp_def)
  have "list_richcompare eq rich (Some \<circ> vl) (Some \<circ> wl) op h = Some (Inr (CmpBool (list_all2 same xs ys \<longleftrightarrow> op = Py_EQ)), h')"
    using True size loop k(1) op unfolding list_richcompare_def the all
    by (auto simp: Let_def)
  with loop show ?thesis by blast
qed

end

interpretation plain_pair: quiet_pair "rich_eq plain_env" "(=)" fst snd
  by unfold_locales (simp add: plain_env_def)

section \<open>Extending\<close>

text \<open>An iterator that delivers the items of \<open>vs\<close> and leaves the list alone.\<close>

fun yields :: "(('o, 's) lstate \<Rightarrow> 'o iter_step \<times> ('o, 's) lstate) \<Rightarrow> 'o list \<Rightarrow> 's \<Rightarrow> bool" where
  "yields it [] s \<longleftrightarrow> (\<exists>s'. \<forall>self. it (self, s) = (Exhausted, (self, s')))"
| "yields it (v # vs) s \<longleftrightarrow> (\<exists>s'. (\<forall>self. it (self, s) = (Yield v, (self, s'))) \<and> yields it vs s')"

text \<open>Storing behind the last item when the block has room.\<close>

lemma store_spare_holds:
  assumes "list_holds self xs" "ob_size self < allocated self"
  shows "list_holds ((set_item self (ob_size self) v)\<lparr>ob_size := ob_size self + 1\<rparr>) (xs @ [v])"
proof -
  obtain spare where c: "cells self = map Some xs @ spare" and sz: "ob_size self = int (length xs)"
    and al: "allocated self = int (length (cells self))"
    using assms(1) by (auto simp: list_holds_def)
  then obtain x rest where "spare = x # rest" using assms(2) by (cases spare) auto
  then show ?thesis using assms(1) c sz al
    by (auto simp: list_holds_def set_item_def list_update_append)
qed

lemma extend_loop_spec:
  assumes "mem_sane mem"
  shows "list_holds self xs \<Longrightarrow> yields it vs s \<Longrightarrow>
    \<exists>r self' s' k. extend_loop mem check it (self, s) = Some (r, (self', s')) \<and> k \<le> length vs \<and>
      list_holds self' (xs @ take k vs) \<and> list_all check (take k vs) \<and>
      (r = Inr () \<and> k = length vs \<or> r = Inl MemoryError \<or>
       r = Inl (TypeError ''bad value'') \<and> k < length vs \<and> \<not> check (vs ! k))"
proof (induction vs arbitrary: self xs s)
  case Nil
  then show ?case by (subst extend_loop.simps) auto
next
  case (Cons v vs)
  then obtain s1 where s1: "\<forall>self. it (self, s) = (Yield v, (self, s1))" "yields it vs s1" by auto
  have go: "\<exists>r self' s' k. extend_loop mem check it (self1, s1) = Some (r, (self', s')) \<and> k \<le> length (v # vs) \<and>
      list_holds self' (xs @ take k (v # vs)) \<and> list_all check (take k (v # vs)) \<and>
      (r = Inr () \<and> k = length (v # vs) \<or> r = Inl MemoryError \<or>
       r = Inl (TypeError ''bad value'') \<and> k < length (v # vs) \<and> \<not> check ((v # vs) ! k))"
    if self1: "list_holds self1 (xs @ [v])" "check v" for self1
  proof -
    obtain r self' s' k where "extend_loop mem check it (self1, s1) = Some (r, (self', s'))" "k \<le> length vs"
      "list_holds self' ((xs @ [v]) @ take k vs)" "list_all check (take k vs)"
      "r = Inr () \<and> k = length vs \<or> r = Inl MemoryError \<or> r = Inl (TypeError ''bad value'') \<and> k < length vs \<and> \<not> check (vs ! k)"
      using Cons.IH [OF self1(1) s1(2)] by blast
    then show ?thesis using self1(2)
      by (intro exI [of _ r] exI [of _ self'] exI [of _ s'] exI [of _ "Suc k"]) auto
  qed
  show ?case
  proof (cases "check v")
    case False
    then show ?thesis using s1(1) Cons.prems(1)
      by (subst extend_loop.simps) (auto intro!: exI [of _ 0])
  next
    case check: True
    show ?thesis
    proof (cases "ob_size self < allocated self")
      case True
      then show ?thesis using go [OF store_spare_holds [OF Cons.prems(1) True] check] s1(1) check
        by (subst extend_loop.simps) simp
    next
      case False
      obtain r self1 where app: "app1 mem self v = (r, self1)" by (metis prod.exhaust)
      show ?thesis
      proof (cases r)
        case (Inl e)
        then have "e = MemoryError" "self1 = self" using app1_spec [OF Cons.prems(1) assms app] by auto
        then show ?thesis using False app Inl s1(1) check Cons.prems(1)
          by (subst extend_loop.simps) (auto intro!: exI [of _ 0])
      next
        case (Inr u)
        then have "list_holds self1 (xs @ [v])" using app1_spec [OF Cons.prems(1) assms app] by auto
        from go [OF this check] show ?thesis using False app Inr s1(1) check
          by (subst extend_loop.simps) simp
      qed
    qed
  qed
qed

lemma list_resize_same_holds:
  assumes "list_holds self xs" "mem_sane mem" "list_resize mem self (ob_size self) = (r, self')"
  shows "list_holds self' xs" "r = Inr () \<or> r = Inl MemoryError"
proof -
  note size = list_holds_length [OF assms(1)]
  have "case r of Inl e \<Rightarrow> e = MemoryError \<and> self' = self | Inr _ \<Rightarrow> resized self (length xs) self'"
    using list_holds_alloc [OF assms(1)] assms(2,3) size by (intro list_resize_spec [of self mem]) auto
  then show "list_holds self' xs" "r = Inr () \<or> r = Inl MemoryError"
    using assms(1) resized_shrunk [OF assms(1), of "length xs" self'] by (auto split: sum.splits)
qed

lemma extend_cut_spec:
  assumes "list_holds self xs" "mem_sane mem" "extend_cut mem (r, (self, s)) = (r', (self', s'))"
  shows "list_holds self' xs \<and> s' = s \<and> (r' = r \<or> r = Inr () \<and> r' = Inl MemoryError)"
  using assms list_resize_same_holds [OF assms(1,2)]
  by (cases r) (auto simp: extend_cut_def split: if_splits prod.splits)

text \<open>Making room for a length hint leaves the contents alone.\<close>

lemma resize_hint_holds:
  assumes "list_holds self xs" "mem_sane mem" "0 \<le> n" "int (length xs) + n \<le> 2 ^ 60"
    "list_resize mem self (ob_size self + n) = (r, self')"
  shows "case r of Inl e \<Rightarrow> e = MemoryError \<and> self' = self | Inr _ \<Rightarrow> list_holds (self'\<lparr>ob_size := ob_size self\<rparr>) xs"
proof -
  note size = list_holds_length [OF assms(1)]
  have "list_resize mem self (int (length xs + nat n)) = (r, self')" using assms(3,5) size by simp
  then have "case r of Inl e \<Rightarrow> e = MemoryError \<and> self' = self | Inr _ \<Rightarrow> resized self (length xs + nat n) self'"
    using list_holds_alloc [OF assms(1)] assms(2,3,4) by (intro list_resize_spec [of self mem]) auto
  then show ?thesis
    using resized_prefix [OF assms(1), of "length xs + nat n" self'] size
    by (auto simp: list_holds_def resized_def split: sum.splits)
qed

lemma append_items_holds:
  assumes "list_holds self xs" "mem_sane mem" "length xs + length vs \<le> 2 ^ 60"
    "list_resize mem self (ob_size self + int (length vs)) = (r, self')"
  shows "case r of Inl e \<Rightarrow> e = MemoryError \<and> self' = self
    | Inr _ \<Rightarrow> list_holds (append_items self' (ob_size self) vs) (xs @ vs)"
proof -
  note size = list_holds_length [OF assms(1)]
  have "list_resize mem self (int (length xs + length vs)) = (r, self')" using assms(4) size by simp
  then have res: "case r of Inl e \<Rightarrow> e = MemoryError \<and> self' = self | Inr _ \<Rightarrow> resized self (length xs + length vs) self'"
    using list_holds_alloc [OF assms(1)] assms(2,3) by (intro list_resize_spec [of self mem]) auto
  show ?thesis
  proof (cases r)
    case (Inr u)
    then have r: "resized self (length xs + length vs) self'" using res by simp
    have "cells self' = map Some xs @ drop (length xs) (cells self')" by (rule resized_prefix [OF assms(1) r]) simp
    then have "cells (append_items self' (ob_size self) vs) = map Some (xs @ vs) @ drop (length xs + length vs) (cells self')"
      using size by (simp add: append_items_def blit_def)
        (metis append_eq_conv_conj length_map)
    then show ?thesis using Inr by (simp add: list_holdsI [OF r] append_items_def)
  qed (use res in simp)
qed

section \<open>Iterators\<close>

text \<open>Calling \<open>next\<close> until it returns null, at most \<open>n\<close> times.\<close>

fun run_iter :: "('it \<Rightarrow> 'o option \<times> 'it) \<Rightarrow> nat \<Rightarrow> 'it \<Rightarrow> 'o list \<times> 'it" where
  "run_iter nxt 0 it = ([], it)"
| "run_iter nxt (Suc n) it =
     (case nxt it of
        (None, it) \<Rightarrow> ([], it)
      | (Some x, it) \<Rightarrow> (case run_iter nxt n it of (xs, it) \<Rightarrow> (x # xs, it)))"

lemma run_listiter:
  assumes "list_holds seq xs"
  shows "i \<le> length xs \<Longrightarrow> length xs - i < n \<Longrightarrow>
    run_iter (listiter_next seq) n \<lparr>it_index = int i, it_alive = True\<rparr> =
      (drop i xs, \<lparr>it_index = int (length xs), it_alive = False\<rparr>)"
proof (induction "length xs - i" arbitrary: i n)
  case 0
  then show ?case using list_holds_length [OF assms] by (cases n) (simp_all add: listiter_next_def)
next
  case (Suc d)
  then obtain m where n: "n = Suc m" by (cases n) auto
  have i: "i < length xs" using Suc.hyps(2) by simp
  have "run_iter (listiter_next seq) m \<lparr>it_index = int (Suc i), it_alive = True\<rparr> =
      (drop (Suc i) xs, \<lparr>it_index = int (length xs), it_alive = False\<rparr>)"
    using Suc.hyps(2) Suc.prems n i by (intro Suc.hyps(1)) auto
  then show ?case using i get_item_holds [OF assms i] list_holds_length [OF assms]
    by (simp add: n listiter_next_def int_next Cons_nth_drop_Suc del: of_nat_Suc)
qed

lemma run_listreviter:
  assumes "list_holds seq xs"
  shows "i \<le> length xs \<Longrightarrow> i < n \<Longrightarrow>
    run_iter (listreviter_next seq) n \<lparr>it_index = int i - 1, it_alive = True\<rparr> =
      (rev (take i xs), \<lparr>it_index = -1, it_alive = False\<rparr>)"
proof (induction i arbitrary: n)
  case 0
  then show ?case by (cases n) (simp_all add: listreviter_next_def)
next
  case (Suc i)
  then obtain m where n: "n = Suc m" by (cases n) auto
  have "run_iter (listreviter_next seq) m \<lparr>it_index = int i - 1, it_alive = True\<rparr> =
      (rev (take i xs), \<lparr>it_index = -1, it_alive = False\<rparr>)"
    using Suc n by simp
  moreover have "listreviter_next seq \<lparr>it_index = int (Suc i) - 1, it_alive = True\<rparr> =
      (Some (xs ! i), \<lparr>it_index = int i - 1, it_alive = True\<rparr>)"
    using Suc.prems get_item_holds [OF assms, of i] list_holds_length [OF assms] by (simp add: listreviter_next_def)
  ultimately show ?case using Suc.prems by (simp add: n take_Suc_conv_app_nth)
qed

text \<open>An exhausted iterator stays exhausted, whatever happens to its list.\<close>

lemma exhausted_stays:
  assumes "listiter_next seq it = (None, it')"
  shows "listiter_next seq' it' = (None, it')" "listiter_len seq' it' = 0"
  using assms by (auto simp: listiter_next_def listiter_len_def split: if_splits)

section \<open>Slices\<close>

text \<open>
  The items a slice selects. \<open>in_slice\<close> describes what \<open>PySlice_AdjustIndices\<close> guarantees: the \<open>n\<close> indices
  \<open>start\<close>, \<open>start + step\<close>, and so on, are indices of the list.
\<close>

definition in_slice :: "nat \<Rightarrow> int \<Rightarrow> int \<Rightarrow> int \<Rightarrow> bool" where
  "in_slice len start step n \<longleftrightarrow> 0 \<le> n \<and> (\<forall>i. 0 \<le> i \<and> i < n \<longrightarrow> 0 \<le> start + i * step \<and> start + i * step < int len)"

definition slice_items :: "'a list \<Rightarrow> int \<Rightarrow> int \<Rightarrow> int \<Rightarrow> 'a list" where
  "slice_items xs start step n = map (\<lambda>i. xs ! nat (start + int i * step)) [0..<nat n]"

lemma div_steps: "0 < (k :: int) \<Longrightarrow> 0 \<le> d \<Longrightarrow> i < (d - 1) div k + 1 \<Longrightarrow> 0 \<le> i \<Longrightarrow> i * k < d"
proof -
  assume k: "0 < k" "0 \<le> d" "i < (d - 1) div k + 1" "0 \<le> i"
  then have "i * k \<le> (d - 1) div k * k" by (intro mult_right_mono) auto
  also have "\<dots> \<le> d - 1" using pos_mod_sign [OF k(1), of "d - 1"] unfolding minus_mod_eq_div_mult [symmetric] by linarith
  finally show ?thesis by simp
qed

lemma adjust_index_bounds:
  assumes "0 \<le> len"
  shows "0 < step \<Longrightarrow> 0 \<le> adjust_index len i step \<and> adjust_index len i step \<le> len"
    and "step < 0 \<Longrightarrow> - 1 \<le> adjust_index len i step \<and> adjust_index len i step < len"
  using assms by (auto simp: adjust_index_def Let_def)

lemma slice_adjust_in_slice:
  assumes "step \<noteq> 0" "slice_adjust (int len) start stop step = (lo, hi, n)"
  shows "in_slice len lo step n"
proof -
  note up = adjust_index_bounds(1) [of "int len" step] and down = adjust_index_bounds(2) [of "int len" step]
  have lo: "lo = adjust_index (int len) start step" "hi = adjust_index (int len) stop step"
    using assms(2) by (auto simp: slice_adjust_def Let_def)
  show ?thesis
  proof (cases "step < 0")
    case True
    then have n: "n = (if hi < lo then (lo - hi - 1) div (- step) + 1 else 0)"
      using assms(2) lo by (auto simp: slice_adjust_def Let_def)
    have b: "- 1 \<le> hi" "lo < int len" using down [OF _ True] lo by auto
    have "0 \<le> lo + i * step \<and> lo + i * step < int len" if "0 \<le> i" "i < n" for i
    proof -
      have "hi < lo" using that n by (auto split: if_splits)
      moreover have "i * (- step) < lo - hi" using that n True by (intro div_steps) (auto split: if_splits)
      moreover have "0 \<le> i * (- step)" using that True by (intro mult_nonneg_nonneg) auto
      ultimately show ?thesis using b by auto
    qed
    moreover have "0 \<le> n" using n True by (auto simp: pos_imp_zdiv_nonneg_iff split: if_splits intro: add_nonneg_nonneg)
    ultimately show ?thesis by (simp add: in_slice_def)
  next
    case False
    then have step: "0 < step" using assms(1) by simp
    then have n: "n = (if lo < hi then (hi - lo - 1) div step + 1 else 0)"
      using assms(2) lo by (auto simp: slice_adjust_def Let_def)
    have b: "0 \<le> lo" "hi \<le> int len" using up [OF _ step] lo by auto
    have "0 \<le> lo + i * step \<and> lo + i * step < int len" if "0 \<le> i" "i < n" for i
    proof -
      have "i * step < hi - lo" using that n step by (intro div_steps) (auto split: if_splits)
      moreover have "0 \<le> i * step" using that step by (intro mult_nonneg_nonneg) auto
      ultimately show ?thesis using b by auto
    qed
    moreover have "0 \<le> n" using n step by (auto simp: pos_imp_zdiv_nonneg_iff split: if_splits intro: add_nonneg_nonneg)
    ultimately show ?thesis by (simp add: in_slice_def)
  qed
qed

text \<open>The \<open>size_t\<close> cursor, which may run through negative steps modulo \<open>2 ^ 64\<close>, stays on the indices.\<close>

lemma slice_cursor_eq:
  assumes "in_slice len start step n" "int i < n" "int len < 2 ^ 63"
  shows "slice_cursor start step i = nat (start + int i * step)" "nat (start + int i * step) < len"
proof -
  have b: "0 \<le> start + int i * step" "start + int i * step < int len"
    using assms(1,2) by (auto simp: in_slice_def)
  have "(of_int start + of_nat i * of_int step :: size_t) = of_int (start + int i * step)" by simp
  moreover have "uint (of_int (start + int i * step) :: size_t) = start + int i * step"
    by (rule uint_of_int_size_t) (use b assms(3) in simp_all)
  ultimately show "slice_cursor start step i = nat (start + int i * step)"
    by (simp only: slice_cursor_def unat_eq_nat_uint)
  show "nat (start + int i * step) < len" using b by linarith
qed

lemma slice_adjust_step_1:
  assumes "slice_adjust (int len) start stop 1 = (lo, hi, n)" "0 < n"
  shows "0 \<le> lo" "lo \<le> hi" "hi \<le> int len" "n = hi - lo"
proof -
  have "lo = adjust_index (int len) start 1" "hi = adjust_index (int len) stop 1" "n = (if lo < hi then hi - lo else 0)"
    using assms(1) by (auto simp: slice_adjust_def Let_def)
  then show "0 \<le> lo" "lo \<le> hi" "hi \<le> int len" "n = hi - lo"
    using adjust_index_bounds(1) [of "int len" 1 start] adjust_index_bounds(1) [of "int len" 1 stop] assms(2)
    by (auto split: if_splits)
qed

lemma slice_items_step_1:
  "lo \<le> hi \<Longrightarrow> hi \<le> length xs \<Longrightarrow> slice_items xs (int lo) 1 (int (hi - lo)) = take (hi - lo) (drop lo xs)"
  by (intro nth_equalityI) (simp_all add: slice_items_def nat_int_add del: of_nat_add)

lemma length_slice_items [simp]: "length (slice_items xs start step n) = nat n"
  by (simp add: slice_items_def)

text \<open>Reading a slice.\<close>

lemma list_subscript_slice:
  assumes a: "list_holds self xs" and step: "step \<noteq> 0"
    and adj: "slice_adjust (ob_size self) start stop step = (lo, hi, n)"
  shows "case list_subscript mem self (SliceKey (Inr (start, stop, step))) of
      Inl e \<Rightarrow> e = MemoryError
    | Inr r \<Rightarrow> \<exists>l. r = ListResult l \<and> list_holds l (slice_items xs lo step n)"
proof (cases "n \<le> 0")
  case True
  then show ?thesis using adj by (simp add: list_subscript_def slice_items_def)
next
  case False
  note size = list_holds_length [OF a]
  have adj': "slice_adjust (int (length xs)) start stop step = (lo, hi, n)" using adj size by simp
  have sl: "in_slice (length xs) lo step n" by (rule slice_adjust_in_slice [OF step adj'])
  show ?thesis
  proof (cases "step = 1")
    case True
    have b: "0 \<le> lo" "lo \<le> hi" "hi \<le> int (length xs)" "n = hi - lo"
      using slice_adjust_step_1 [of "length xs" start stop lo hi n] adj' True False by auto
    then have "slice_items xs lo step n = take (nat hi - nat lo) (drop (nat lo) xs)"
      using slice_items_step_1 [of "nat lo" "nat hi" xs] True by (simp add: nat_diff_distrib')
    moreover have "case list_slice mem self lo hi of Inl e \<Rightarrow> e = MemoryError
      | Inr np \<Rightarrow> list_holds np (take (nat hi - nat lo) (drop (nat lo) xs))"
      using list_slice_spec [OF a, of "nat lo" "nat hi" mem] b by auto
    ultimately show ?thesis using True False adj
      by (auto simp: list_subscript_def split: sum.splits)
  next
    case step1: False
    have cur: "cells self ! slice_cursor lo step i = Some (xs ! nat (lo + int i * step))" if "i < nat n" for i
      using slice_cursor_eq [OF sl, of i] size that a by (auto simp: list_holds_def nth_append)
    have filled: "map (\<lambda>i. cells self ! slice_cursor lo step i) [0..<nat n] = map Some (slice_items xs lo step n)"
      by (auto simp: slice_items_def cur)
    show ?thesis
    proof (cases "list_new_prealloc mem n :: 'a PyListObject res")
      case (Inl e)
      then show ?thesis using step1 False adj list_new_prealloc_spec [OF _ Inl] by (auto simp: list_subscript_def)
    next
      case (Inr np)
      then have np: "allocated np = n" "n * int ptr_size \<le> PY_SSIZE_T_MAX"
        using list_new_prealloc_spec [OF _ Inr] False by auto
      have "list_holds (np\<lparr>ob_item := Some (map Some (slice_items xs lo step n)), ob_size := n\<rparr>) (slice_items xs lo step n)"
        using np False by (auto simp: list_holds_def)
      then show ?thesis using step1 False adj Inr by (simp add: list_subscript_def filled)
    qed
  qed
qed

text \<open>Assigning to an extended slice writes the values to the selected indices.\<close>

lemma set_slice_loop_holds:
  assumes "in_slice (length ys) start step n" "int (i + length vs) \<le> n" "int (length ys) < 2 ^ 63"
  shows "set_slice_loop (map Some ys @ spare) start step i vs =
    map Some (fold (\<lambda>(k, v) zs. zs[nat (start + int k * step) := v]) (enumerate i vs) ys) @ spare"
  using assms
proof (induction vs arbitrary: i ys)
  case (Cons v vs)
  have "slice_cursor start step i = nat (start + int i * step)" "nat (start + int i * step) < length ys"
    using slice_cursor_eq [OF Cons.prems(1) _ Cons.prems(3), of i] Cons.prems(2) by auto
  then have "(map Some ys @ spare)[slice_cursor start step i := Some v] = map Some (ys[nat (start + int i * step) := v]) @ spare"
    by (simp add: list_update_append map_update)
  moreover have "in_slice (length (ys[nat (start + int i * step) := v])) start step n" using Cons.prems(1) by simp
  ultimately show ?case using Cons.IH [of "ys[nat (start + int i * step) := v]" "Suc i"] Cons.prems by simp
qed simp

definition assign_slice :: "'a list \<Rightarrow> int \<Rightarrow> int \<Rightarrow> 'a list \<Rightarrow> 'a list" where
  "assign_slice xs start step vs = fold (\<lambda>(k, v) zs. zs[nat (start + int k * step) := v]) (enumerate 0 vs) xs"

lemma length_assign_slice [simp]: "length (assign_slice xs start step vs) = length xs"
proof -
  have "length (fold (\<lambda>(k, v) zs. zs[nat (start + int k * step) := v]) us xs) = length xs" for us :: "(nat \<times> 'a) list"
    by (induction us arbitrary: xs) auto
  then show ?thesis by (simp add: assign_slice_def)
qed

lemma set_assign_slice: "set (assign_slice xs start step vs) \<subseteq> set xs \<union> set vs"
proof -
  have "set (fold (\<lambda>(k, v) zs. zs[nat (start + int k * step) := v]) us xs) \<subseteq> set xs \<union> snd ` set us" for us :: "(nat \<times> 'a) list"
  proof (induction us arbitrary: xs)
    case (Cons u us)
    obtain k v where u: "u = (k, v)" by force
    have "set (xs[nat (start + int k * step) := v]) \<subseteq> insert v (set xs)" by (rule set_update_subset_insert)
    with Cons.IH [of "xs[nat (start + int k * step) := v]"] show ?case by (auto simp: u)
  qed simp
  moreover have "snd ` set (enumerate 0 vs) = set vs" by (simp flip: set_map)
  ultimately show ?thesis unfolding assign_slice_def by metis
qed

lemma list_set_slice_spec:
  assumes a: "list_holds self xs" and sl: "in_slice (length xs) start step n"
    and r: "list_set_slice mem self start step n (Sequence (Inr vs)) = (r, self')"
  shows "case r of Inl e \<Rightarrow> self' = self \<and> (e = MemoryError \<or> int (length vs) \<noteq> n)
    | Inr _ \<Rightarrow> list_holds self' (assign_slice xs start step vs)"
proof -
  note size = list_holds_length [OF a]
  obtain spare where c: "cells self = map Some xs @ spare" using a by (auto simp: list_holds_def)
  show ?thesis
  proof (cases "int (length vs) = n \<and> n \<noteq> 0 \<and> mem (nat n * ptr_size)")
    case True
    have "set_slice_loop (cells self) start step 0 vs = map Some (assign_slice xs start step vs) @ spare"
      unfolding c assign_slice_def by (rule set_slice_loop_holds [OF sl]) (use True size in auto)
    moreover have "r = Inr ()" "self' = self\<lparr>ob_item := Some (set_slice_loop (cells self) start step 0 vs)\<rparr>"
      using r True by (auto simp: list_set_slice_def split: if_splits)
    ultimately show ?thesis using a c by (auto simp: list_holds_def)
  next
    case False
    then show ?thesis using r a by (auto simp: list_set_slice_def assign_slice_def split: if_splits)
  qed
qed

end
