(* ===== verification/Checked_List_Correct.thy ===== *)
theory Checked_List_Correct
  imports Checked_List List_Methods_Correct
begin

text \<open>
  What \<open>CheckedList[T]\<close> promises: every operation that checks keeps the items of the list admissible
  for \<open>T\<close>, reports errors without changing the list, and the free list never hands out a list
  that is in use.
\<close>

section \<open>The free list\<close>

text \<open>
  The objects on the free list are distinct and not in use. The allocator returns objects that
  are neither in use nor on the free list.
\<close>

definition free_objects :: "('o, 'ty) list_mem \<Rightarrow> nat list" where
  "free_objects m = take (numfree (the_list_state m)) (free_list (the_list_state m))"

definition list_mem_inv :: "('o, 'ty) list_mem \<Rightarrow> bool" where
  "list_mem_inv m \<longleftrightarrow>
     length (free_list (the_list_state m)) = ChkList_MAXFREELIST \<and>
     numfree (the_list_state m) \<le> ChkList_MAXFREELIST \<and>
     distinct (free_objects m) \<and> set (free_objects m) \<inter> dom (live m) = {}"

definition unused :: "('o, 'ty) list_mem \<Rightarrow> nat option \<Rightarrow> bool" where
  "unused m new \<longleftrightarrow> (\<forall>a. new = Some a \<longrightarrow> a \<notin> dom (live m) \<union> set (free_objects m))"

lemma list_dealloc_inv:
  assumes inv: "list_mem_inv m" and a: "a \<in> dom (live m)" and r: "list_dealloc a m = (Inr (), m')"
  shows "list_mem_inv m'" and "live m' = (live m)(a := None)"
proof -
  have id: "interp_id m = 0" using r by (simp add: list_dealloc_def get_list_state_def split: if_splits)
  let ?st = "the_list_state m"
  have fresh: "a \<notin> set (free_objects m)" using inv a by (auto simp: list_mem_inv_def)
  show "live m' = (live m)(a := None)"
    using r id by (auto simp: list_dealloc_def get_list_state_def Let_def split: if_splits)
  show "list_mem_inv m'"
  proof (cases "numfree ?st < ChkList_MAXFREELIST")
    case True
    have len: "length (free_list ?st) = ChkList_MAXFREELIST" using inv by (simp add: list_mem_inv_def)
    have m': "m' = m\<lparr>live := (live m)(a := None), the_list_state :=
                   ?st\<lparr>free_list := (free_list ?st)[numfree ?st := a], numfree := numfree ?st + 1\<rparr>\<rparr>"
      using r id True by (simp add: list_dealloc_def get_list_state_def Let_def)
    have "free_objects m' = free_objects m @ [a]"
      using True len by (simp add: free_objects_def m' take_Suc_conv_app_nth)
    then show ?thesis using inv fresh True by (auto simp: list_mem_inv_def m')
  next
    case False
    then have "m' = m\<lparr>live := (live m)(a := None)\<rparr>"
      using r id by (simp add: list_dealloc_def get_list_state_def Let_def)
    then show ?thesis using inv by (auto simp: list_mem_inv_def free_objects_def)
  qed
qed

lemma chklist_dealloc_inv:
  assumes inv: "list_mem_inv m" and a: "a \<in> dom (live m)" and r: "chklist_dealloc a m = (Inr (), m')"
  shows "list_mem_inv m'" and "live m' = (live m)(a := None)"
proof -
  let ?m = "m\<lparr>live := (live m)(a := map_option (\<lambda>(t, l). (None, l)) (live m a))\<rparr>"
  have "dom (live ?m) = dom (live m)" using a by (auto split: if_splits)
  moreover have "free_objects ?m = free_objects m" by (simp add: free_objects_def)
  ultimately have "list_mem_inv ?m" "a \<in> dom (live ?m)" using inv a by (simp_all add: list_mem_inv_def)
  from list_dealloc_inv [OF this, of m'] r show "list_mem_inv m'" "live m' = (live m)(a := None)"
    by (simp_all add: chklist_dealloc_def Let_def)
qed

lemma chklist_alloc_inv:
  assumes inv: "list_mem_inv m" and new: "unused m new" and r: "chklist_alloc new type m = (Inr a, m')"
  shows "list_mem_inv m'" and "a \<notin> dom (live m)" and "live m' = (live m)(a \<mapsto> (Some type, empty_list))"
proof -
  have id: "interp_id m = 0" using r by (simp add: chklist_alloc_def get_list_state_def split: if_splits)
  let ?st = "the_list_state m" and ?n = "numfree (the_list_state m)"
  have goal: "list_mem_inv m' \<and> a \<notin> dom (live m) \<and> live m' = (live m)(a \<mapsto> (Some type, empty_list))"
  proof (cases "?n = 0")
    case True
    then have "free_objects m = []" by (simp add: free_objects_def)
    moreover have "new = Some a" "m' = m\<lparr>live := (live m)(a \<mapsto> (Some type, empty_list))\<rparr>"
      using r id True by (auto simp: chklist_alloc_def get_list_state_def split: option.splits)
    ultimately show ?thesis using inv new by (auto simp: list_mem_inv_def unused_def free_objects_def)
  next
    case False
    then obtain k where k: "?n = Suc k" by (cases ?n) auto
    have len: "k < length (free_list ?st)" using inv k by (simp add: list_mem_inv_def)
    have a: "a = free_list ?st ! k"
      and m': "m' = m\<lparr>the_list_state := ?st\<lparr>numfree := k\<rparr>, live := (live m)(a \<mapsto> (Some type, empty_list))\<rparr>"
      using r id k by (auto simp: chklist_alloc_def get_list_state_def Let_def)
    have "free_objects m = free_objects m' @ [a]"
      using k len a by (simp add: free_objects_def m' take_Suc_conv_app_nth)
    then show ?thesis using inv k by (auto simp: list_mem_inv_def m')
  qed
  from goal show "list_mem_inv m'" "a \<notin> dom (live m)" "live m' = (live m)(a \<mapsto> (Some type, empty_list))" by blast+
qed

lemma clear_caches_inv: "list_mem_inv m \<Longrightarrow> list_mem_inv (checked_list_clear_caches m)"
  by (auto simp: checked_list_clear_caches_def get_list_state_def list_mem_inv_def free_objects_def)

text \<open>The last object freed is the next one allocated.\<close>

lemma dealloc_alloc:
  assumes inv: "list_mem_inv m" and r: "list_dealloc a m = (Inr (), m')" and n: "numfree (the_list_state m) < ChkList_MAXFREELIST"
  shows "fst (chklist_alloc new type m') = Inr a"
proof -
  have "interp_id m = 0" using r by (simp add: list_dealloc_def get_list_state_def split: if_splits)
  then show ?thesis using r n inv
    by (auto simp: list_dealloc_def chklist_alloc_def get_list_state_def Let_def list_mem_inv_def)
qed

text \<open>A copy is a new list with the same items and the same type.\<close>

lemma checked_list_new_spec:
  assumes inv: "list_mem_inv m" and new: "unused m new" and n: "0 \<le> n" and r: "checked_list_new mem new type n m = (Inr a, m')"
  shows "list_mem_inv m'" "a \<notin> dom (live m)" "n * int ptr_size \<le> PY_SSIZE_T_MAX"
    "\<exists>np. live m' = (live m)(a \<mapsto> (Some type, np)) \<and> length (cells np) = nat n \<and> ob_size np = n \<and> allocated np = n"
proof -
  obtain m1 where alloc: "chklist_alloc new type m = (Inr a, m1)"
    using r by (auto simp: checked_list_new_def split: prod.splits sum.splits if_splits option.splits)
  note alloc = chklist_alloc_inv [OF inv new alloc] and alloc_eq = alloc
  show "a \<notin> dom (live m)" by (rule alloc(2))
  have *: "list_mem_inv m' \<and> n * int ptr_size \<le> PY_SSIZE_T_MAX \<and>
    (\<exists>np. live m' = (live m)(a \<mapsto> (Some type, np)) \<and> length (cells np) = nat n \<and> ob_size np = n \<and> allocated np = n)"
  proof (cases "n = 0")
    case True
    then show ?thesis using r alloc_eq alloc by (auto simp: checked_list_new_def empty_list_def cells_def)
  next
    case False
    then obtain xs where xs: "pymem_new mem n = Some xs"
      and m': "m' = m1\<lparr>live := (live m1)(a \<mapsto> (Some type, \<lparr>ob_item = Some xs, ob_size = n, allocated = n\<rparr>))\<rparr>"
      using r alloc_eq by (auto simp: checked_list_new_def split: option.splits prod.splits sum.splits)
    have "list_mem_inv m'" using alloc(1,3) by (auto simp: m' list_mem_inv_def free_objects_def)
    then show ?thesis using pymem_new_spec [OF n xs] alloc(3) by (auto simp: m' cells_def)
  qed
  from * show "list_mem_inv m'" "n * int ptr_size \<le> PY_SSIZE_T_MAX"
    "\<exists>np. live m' = (live m)(a \<mapsto> (Some type, np)) \<and> length (cells np) = nat n \<and> ob_size np = n \<and> allocated np = n" by blast+
qed

lemma chklist_copy_spec:
  assumes inv: "list_mem_inv m" and new: "unused m new" and self: "list_holds self xs"
    and r: "chklist_copy mem new type self m = (Inr a, m')"
  shows "list_mem_inv m'" and "a \<notin> dom (live m)"
    and "\<exists>np. live m' = (live m)(a \<mapsto> (Some type, np)) \<and> list_holds np xs"
proof -
  note size = list_holds_length [OF self]
  obtain m1 where n: "checked_list_new mem new type (ob_size self) m = (Inr a, m1)"
    using r by (auto simp: chklist_copy_def chklist_slice_def Let_def split: prod.splits sum.splits)
  have "0 \<le> ob_size self" using size by simp
  note spec = checked_list_new_spec [OF inv new this n]
  obtain np where np: "live m1 = (live m)(a \<mapsto> (Some type, np))" "length (cells np) = length xs"
    "ob_size np = int (length xs)" "allocated np = int (length xs)" using spec(4) size by auto
  define np' where "np' = (if ob_size self > 0
     then np\<lparr>ob_item := Some (blit (cells np) 0 (cells self) 0 (length xs))\<rparr> else np)"
  have m': "m' = m1\<lparr>live := (live m1)(a \<mapsto> (Some type, np'))\<rparr>"
    using r n np(1) size by (auto simp: chklist_copy_def chklist_slice_def Let_def np'_def)
  have "cells np' = map Some xs"
  proof (cases "xs = []")
    case False
    then show ?thesis using size np(2) list_holds_take [OF self] by (simp add: np'_def blit_def)
  qed (use size np(2) in \<open>simp add: np'_def\<close>)
  then have "list_holds np' xs" using spec(3) size np by (simp add: list_holds_def np'_def)
  then show "\<exists>np. live m' = (live m)(a \<mapsto> (Some type, np)) \<and> list_holds np xs" by (auto simp: m' np)
  show "list_mem_inv m'" using spec(1) np(1) by (auto simp: m' list_mem_inv_def free_objects_def)
  show "a \<notin> dom (live m)" by (rule spec(2))
qed

section \<open>Typed contents\<close>

definition conforms :: "('o, 'ty) obj_env \<Rightarrow> 'ty generic_param list \<Rightarrow> 'o list \<Rightarrow> bool" where
  "conforms env params xs \<longleftrightarrow> (\<forall>x\<in>set xs. admits env (params ! 0) x)"

definition chk_inv :: "('o, 'ty) obj_env \<Rightarrow> 'ty generic_param list \<Rightarrow> 'o PyListObject \<Rightarrow> bool" where
  "chk_inv env params self \<longleftrightarrow> list_wf self \<and> conforms env params (items self)"

lemma chk_invE:
  assumes "chk_inv env params self"
  obtains xs where "list_holds self xs" "conforms env params xs" "items self = xs"
  using assms by (auto simp: chk_inv_def list_wf_iff)

lemma chk_invI: "list_holds self xs \<Longrightarrow> conforms env params xs \<Longrightarrow> chk_inv env params self"
  by (simp add: chk_inv_def list_holds_wf list_holds_items)

lemma conforms_simps [simp]:
  "conforms env params []" "conforms env params (x # xs) \<longleftrightarrow> admits env (params ! 0) x \<and> conforms env params xs"
  "conforms env params (xs @ ys) \<longleftrightarrow> conforms env params xs \<and> conforms env params ys"
  by (auto simp: conforms_def)

lemma conforms_subset: "conforms env params xs \<Longrightarrow> set ys \<subseteq> set xs \<Longrightarrow> conforms env params ys"
  by (auto simp: conforms_def)

lemma conforms_take_drop [simp]:
  "conforms env params xs \<Longrightarrow> conforms env params (take n xs)" "conforms env params xs \<Longrightarrow> conforms env params (drop n xs)"
  by (auto elim!: conforms_subset dest: in_set_takeD in_set_dropD)

lemma chklist_checkitem_iff: "chklist_checkitem env params v \<longleftrightarrow> admits env (params ! 0) v"
  by (simp add: chklist_checkitem_def check_param_type_iff)

lemma check_T0_admits:
  "check_one_arg env params v name pos Ci_Py_Sig_T0 = Inr () \<Longrightarrow> admits env (params ! 0) v"
  by (rule check_one_arg_admits [of Ci_Py_Sig_T0]) (simp_all add: Ci_Py_Sig_T0_def)

lemma chklist_append_eq: "ob_size self \<noteq> PY_SSIZE_T_MAX \<Longrightarrow> chklist_append mem self v = app1 mem self v"
  by (simp add: chklist_append_def app1_def)

lemma chklist_append_spec:
  assumes "list_holds self xs" "mem_sane mem" "chklist_append mem self v = (r, self')"
  shows "case r of Inl e \<Rightarrow> e = MemoryError \<and> self' = self | Inr _ \<Rightarrow> list_holds self' (xs @ [v])"
proof -
  have "ob_size self \<noteq> PY_SSIZE_T_MAX" using list_holds_length [OF assms(1)] by simp
  then show ?thesis using app1_spec [OF assms(1,2)] assms(3) by (simp add: chklist_append_eq)
qed

lemma append_wrapper_spec:
  assumes self: "list_holds self xs" and mem: "mem_sane mem"
    and r: "chklist_append_wrapper mem env params self v = (r, self')"
  shows "case r of Inl e \<Rightarrow> self' = self | Inr _ \<Rightarrow> list_holds self' (xs @ [v]) \<and> admits env (params ! 0) v"
proof (cases "check_one_arg env params v ''append'' 0 Ci_Py_Sig_T0")
  case (Inr u)
  then have "chklist_append mem self v = (r, self')" "admits env (params ! 0) v"
    using r check_T0_admits [of env params v "''append''" 0] by (simp_all add: chklist_append_wrapper_def)
  with chklist_append_spec [OF self mem] show ?thesis by (cases r) fastforce+
next
  case (Inl e)
  then have "r = Inl e" "self' = self" using r by (simp_all add: chklist_append_wrapper_def)
  then show ?thesis by simp
qed

lemma append_chk_inv:
  assumes "chk_inv env params self" "mem_sane mem" "chklist_append_wrapper mem env params self v = (r, self')"
  shows "chk_inv env params self'"
proof -
  obtain xs where xs: "list_holds self xs" "conforms env params xs" using assms(1) by (rule chk_invE)
  from append_wrapper_spec [OF xs(1) assms(2,3)] xs(2) assms(1) show ?thesis
    by (cases r) (auto intro!: chk_invI)
qed

lemma insert_chk_inv:
  assumes "chk_inv env params self" "mem_sane mem" "list_insert_wrapper mem env params index_of self args = (r, self')"
  shows "chk_inv env params self'"
proof -
  obtain xs where xs: "list_holds self xs" "conforms env params xs" using assms(1) by (rule chk_invE)
  show ?thesis
  proof (cases "\<exists>i. length args = 2 \<and> index_of (args ! 0) = Inr i \<and> check_one_arg env params (args ! 1) ''insert'' 1 Ci_Py_Sig_T0 = Inr ()")
    case True
    then obtain i where i: "length args = 2" "index_of (args ! 0) = Inr i"
      "check_one_arg env params (args ! 1) ''insert'' 1 Ci_Py_Sig_T0 = Inr ()" by blast
    then have "ins1 mem self i (Some (args ! 1)) = (r, self')"
      using assms(3) by (simp add: list_insert_wrapper_def check_positional_def)
    from ins1_spec [OF xs(1) assms(2) this] xs(2) check_T0_admits [OF i(3)] assms(1) show ?thesis
      by (cases r) (auto intro!: chk_invI)
  next
    case False
    then show ?thesis using assms(1,3)
      by (auto simp: list_insert_wrapper_def check_positional_def split: sum.splits if_splits)
  qed
qed

lemma pop_chk_inv:
  assumes "chk_inv env params self" "mem_sane mem" "chklist_pop mem oenv self args = (r, self')"
  shows "chk_inv env params self'"
proof -
  obtain xs where xs: "list_holds self xs" "conforms env params xs" using assms(1) by (rule chk_invE)
  have pop: "chk_inv env params self'" if p: "list_pop_impl mem self i = (r, self')" "- (2 ^ 63) \<le> i" "i < 2 ^ 63" for i
    using list_pop_impl_spec [OF xs(1) assms(2) p(2,3,1)] assms(1) xs(2)
    by (cases r) (auto intro!: chk_invI)
  show ?thesis using assms(1,3) pop
    by (auto simp: chklist_pop_def split: sum.splits list.splits option.splits if_splits)
qed

subsection \<open>Extending\<close>

text \<open>A callback that is itself confined to the operations of the list keeps its invariant.\<close>

definition confined :: "('o PyListObject \<Rightarrow> bool) \<Rightarrow> (('o, 's) lstate \<Rightarrow> 'r \<times> ('o, 's) lstate) \<Rightarrow> bool" where
  "confined I f \<longleftrightarrow> (\<forall>st. I (fst st) \<longrightarrow> I (fst (snd (f st))))"

lemma confinedD: "confined I f \<Longrightarrow> f st = (r, st') \<Longrightarrow> I (fst st) \<Longrightarrow> I (fst st')"
  unfolding confined_def by (metis fst_conv snd_conv)

lemma store_item_chk_inv:
  assumes "chk_inv env params self" "admits env (params ! 0) v" "ob_size self < allocated self"
  shows "chk_inv env params ((set_item self (ob_size self) v)\<lparr>ob_size := ob_size self + 1\<rparr>)"
  using assms(1) by (rule chk_invE) (use assms(2,3) in \<open>auto intro!: chk_invI store_spare_holds\<close>)

lemma app1_chk_inv:
  assumes "chk_inv env params self" "mem_sane mem" "admits env (params ! 0) v" "app1 mem self v = (r, self')"
  shows "chk_inv env params self'"
proof -
  obtain xs where "list_holds self xs" "conforms env params xs" using assms(1) by (rule chk_invE)
  with app1_spec [OF _ assms(2,4)] assms(1,3) show ?thesis
    by (cases r) (fastforce intro!: chk_invI)+
qed

lemma extend_loop_chk_inv:
  assumes mem: "mem_sane mem" and it: "confined (chk_inv env params) it"
  shows "extend_loop mem (chklist_checkitem env params) it st = Some y \<Longrightarrow> chk_inv env params (fst st) \<Longrightarrow>
    chk_inv env params (fst (snd y))"
proof -
  have "m = mem \<longrightarrow> c = chklist_checkitem env params \<longrightarrow> i = it \<longrightarrow> chk_inv env params (fst st) \<longrightarrow> chk_inv env params (fst (snd y))"
    if "extend_loop m c i st = Some y" for m c i st y
    using that
  proof (rule extend_loop.raw_induct [rotated], intro impI)
    fix f m c i st y
    assume IH: "\<And>m c i st y. f m c i st = Some y \<Longrightarrow> m = mem \<longrightarrow> c = chklist_checkitem env params \<longrightarrow> i = it \<longrightarrow>
        chk_inv env params (fst st) \<longrightarrow> chk_inv env params (fst (snd y))"
      and body: "(case i st of
        (step, (self, s)) \<Rightarrow>
          (case step of
             Exhausted \<Rightarrow> Some (Inr (), (self, s))
           | IterError \<Rightarrow> Some (Inl Propagated, (self, s))
           | Yield item \<Rightarrow>
               if \<not> c item then Some (Inl (TypeError ''bad value''), (self, s))
               else if ob_size self < allocated self
               then f m c i ((set_item self (ob_size self) item)\<lparr>ob_size := ob_size self + 1\<rparr>, s)
               else (case app1 m self item of (r, self) \<Rightarrow> if r = Inr () then f m c i (self, s) else Some (r, (self, s))))) = Some y"
      and eqs: "m = mem" "c = chklist_checkitem env params" "i = it" and inv: "chk_inv env params (fst st)"
    obtain step self s where step: "it st = (step, (self, s))" by (metis prod.exhaust)
    have self: "chk_inv env params self" using confinedD [OF it step inv] by simp
    show "chk_inv env params (fst (snd y))"
    proof (cases step)
      case (Yield item)
      show ?thesis
      proof (cases "chklist_checkitem env params item")
        case True
        then have ok: "admits env (params ! 0) item" by (simp add: chklist_checkitem_iff)
        obtain r self1 where app: "app1 mem self item = (r, self1)" by (metis prod.exhaust)
        show ?thesis using body step Yield True eqs app store_item_chk_inv [OF self ok] app1_chk_inv [OF self mem ok app]
          by (auto split: if_splits dest!: IH)
      qed (use body step Yield self eqs in auto)
    qed (use body step self eqs in auto)
  qed
  then show "extend_loop mem (chklist_checkitem env params) it st = Some y \<Longrightarrow> chk_inv env params (fst st) \<Longrightarrow>
    chk_inv env params (fst (snd y))" by blast
qed

text \<open>
  The iterables \<open>extend\<close> may be given: a list of the same type that conforms, any other sequence, or
  an iterator that keeps the invariant, with a length hint that the allocator can represent.
\<close>

fun extendable :: "('o, 'ty) obj_env \<Rightarrow> 'ty generic_param list \<Rightarrow> bool \<Rightarrow> 'o PyListObject \<Rightarrow> ('o, 's) iterable \<Rightarrow> bool" where
  "extendable env params same_type self (FastSequence (Inl e)) \<longleftrightarrow> True"
| "extendable env params same_type self (FastSequence (Inr vs)) \<longleftrightarrow>
     (same_type \<longrightarrow> conforms env params vs) \<and> length (items self) + length vs \<le> 2 ^ 60"
| "extendable env params same_type self (Iterator hint it) \<longleftrightarrow>
     confined (chk_inv env params) it \<and>
     (\<forall>n. hint = Some n \<longrightarrow> 0 \<le> n \<and> int (length (items self)) + n \<le> 2 ^ 60)"

lemma extend_cut_chk_inv:
  assumes "chk_inv env params self" "mem_sane mem" "extend_cut mem (r, (self, s)) = (r', st')"
  shows "chk_inv env params (fst st')"
proof -
  obtain xs where xs: "list_holds self xs" "conforms env params xs" using assms(1) by (rule chk_invE)
  obtain self' s' where st': "st' = (self', s')" by force
  show ?thesis using extend_cut_spec [OF xs(1) assms(2) assms(3) [unfolded st']] xs(2) by (auto simp: st' intro: chk_invI)
qed

lemma extend_chk_inv:
  assumes inv: "chk_inv env params (fst st)" and mem: "mem_sane mem"
    and ext: "extendable env params same_type (fst st) iterable"
    and r: "chklist_extend mem env params same_type iterable st = Some (r, st')"
  shows "chk_inv env params (fst st')"
proof -
  obtain self s where st: "st = (self, s)" by force
  obtain xs where xs: "list_holds self xs" "conforms env params xs" "items self = xs" using inv st by (auto elim: chk_invE)
  note size = list_holds_length [OF xs(1)]
  show ?thesis
  proof (cases iterable)
    case (FastSequence q)
    show ?thesis
    proof (cases q)
      case (Inl e)
      then show ?thesis using r inv FastSequence by (auto simp: chklist_extend_def)
    next
      case (Inr vs)
      show ?thesis
      proof (cases "vs = [] \<or> \<not> same_type \<and> \<not> list_all (chklist_checkitem env params) vs")
        case True
        then show ?thesis using r inv FastSequence Inr st by (auto simp: chklist_extend_def Let_def split: if_splits)
      next
        case False
        then have "conforms env params vs"
          using ext FastSequence Inr by (auto simp: conforms_def list_all_iff chklist_checkitem_iff)
        moreover obtain q1 self1 where res: "list_resize mem self (ob_size self + int (length vs)) = (q1, self1)" by force
        moreover have "length xs + length vs \<le> 2 ^ 60" using ext FastSequence Inr st xs by simp
        ultimately show ?thesis
          using r False FastSequence Inr st inv xs append_items_holds [OF xs(1) mem _ res]
            chk_invI [of "append_items self1 (ob_size self) vs" "xs @ vs" env params]
          by (cases q1) (auto simp: chklist_extend_def Let_def)
      qed
    qed
  next
    case (Iterator hint it)
    show ?thesis
    proof (cases hint)
      case None
      then show ?thesis using r inv Iterator by (auto simp: chklist_extend_def)
    next
      case (Some n)
      have n: "0 \<le> n" "int (length xs) + n \<le> 2 ^ 60" and it: "confined (chk_inv env params) it"
        using ext Iterator Some st xs by auto
      obtain q1 self1 where res: "list_resize mem self (ob_size self + n) = (q1, self1)" by force
      have "\<not> ob_size self > PY_SSIZE_T_MAX - n" using n size by simp
      then have "chklist_extend mem env params same_type iterable st = (case q1 of Inl e \<Rightarrow> Some (Inl e, (self1, s))
          | Inr _ \<Rightarrow> map_option (extend_cut mem) (extend_loop mem (chklist_checkitem env params) it (self1\<lparr>ob_size := ob_size self\<rparr>, s)))"
        using Iterator Some st res by (cases q1) (simp_all add: chklist_extend_def)
      note r' = r [unfolded this]
      show ?thesis
      proof (cases q1)
        case (Inl e)
        then show ?thesis using r' resize_hint_holds [OF xs(1) mem n res] inv st by (auto split: sum.splits)
      next
        case (Inr u)
        have "list_holds (self1\<lparr>ob_size := ob_size self\<rparr>) xs"
          using resize_hint_holds [OF xs(1) mem n res] Inr by simp
        then have self1: "chk_inv env params (self1\<lparr>ob_size := ob_size self\<rparr>)" using xs(2) by (rule chk_invI)
        obtain q2 self2 s2 where loop: "extend_loop mem (chklist_checkitem env params) it (self1\<lparr>ob_size := ob_size self\<rparr>, s) = Some (q2, (self2, s2))"
          and cut: "extend_cut mem (q2, (self2, s2)) = (r, st')"
          using r' Inr by auto
        have "chk_inv env params self2" using extend_loop_chk_inv [OF mem it loop] self1 by simp
        from extend_cut_chk_inv [OF this mem cut] show ?thesis .
      qed
    qed
  qed
qed

subsection \<open>Subscripts, removal and construction\<close>

lemma as_item_chk_inv:
  assumes inv: "chk_inv env params self" and v: "admits env (params ! 0) v" and i: "- (2 ^ 63) \<le> i" "i < 2 ^ 63"
    and r: "list_ass_item mem self i (Some v) = (r, self')"
  shows "chk_inv env params self'"
proof -
  obtain xs where xs: "list_holds self xs" "conforms env params xs" using inv by (rule chk_invE)
  note size = list_holds_length [OF xs(1)]
  have valid: "valid_index i (ob_size self) \<longleftrightarrow> 0 \<le> i \<and> i < int (length xs)"
    using i size by (subst valid_index_iff) auto
  show ?thesis
  proof (cases "valid_index i (ob_size self)")
    case True
    then have "list_holds (set_item self i v) (xs[nat i := v])"
      using set_item_holds [OF xs(1), of "nat i" v] valid by auto
    moreover have "conforms env params (xs[nat i := v])"
      using xs(2) v by (auto simp: conforms_def dest!: subsetD [OF set_update_subset_insert])
    ultimately show ?thesis using r True by (auto simp: list_ass_item_def intro: chk_invI)
  qed (use r inv in \<open>simp add: list_ass_item_def\<close>)
qed

lemma clamp_slice_nat:
  assumes "clamp_slice (int n) lo hi = (a, b)"
  obtains i j where "a = int i" "b = int j" "i \<le> j" "j \<le> n"
  using clamp_slice_bounds [OF _ assms] that [of "nat a" "nat b"] by auto

lemma ass_slice_items_chk_inv:
  assumes inv: "chk_inv env params self" and mem: "mem_sane mem" and vs: "conforms env params vs"
    and fits: "length (items self) + length vs \<le> 2 ^ 60"
    and r: "list_ass_slice_items mem self lo hi vs = (r, self')"
  shows "chk_inv env params self'"
proof -
  obtain xs where xs: "list_holds self xs" "conforms env params xs" "items self = xs" using inv by (rule chk_invE)
  obtain i j where "clamp_slice (int (length xs)) lo hi = (int i, int j)"
    by (metis clamp_slice_nat prod.exhaust)
  from list_ass_slice_items_spec [OF xs(1) mem _ this r] fits xs vs inv show ?thesis
    by (cases r) (auto intro!: chk_invI)
qed

lemma list_slice_all: 
  assumes "list_holds self xs" "list_slice mem self 0 (ob_size self) = Inr l"
  shows "items l = xs"
  using list_slice_spec [OF assms(1), of 0 "length xs" mem] assms(2) list_holds_length [OF assms(1)]
  by (auto dest: list_holds_items)

text \<open>The items of a value assigned to a slice.\<close>

fun slice_value_items :: "'o PyListObject \<Rightarrow> 'o slice_value \<Rightarrow> 'o list" where
  "slice_value_items self SelfList = items self"
| "slice_value_items self (Sequence (Inr vs)) = vs"
| "slice_value_items self (Sequence (Inl e)) = []"

lemma ass_slice_chk_inv:
  assumes inv: "chk_inv env params self" and mem: "mem_sane mem" and v: "conforms env params (slice_value_items self v)"
    and fits: "length (items self) + length (slice_value_items self v) \<le> 2 ^ 60"
    and r: "list_ass_slice mem self lo hi (Some v) = (r, self')"
  shows "chk_inv env params self'"
proof -
  obtain xs where xs: "list_holds self xs" "items self = xs" using inv by (rule chk_invE)
  show ?thesis
  proof (cases v)
    case SelfList
    then show ?thesis using r inv v fits xs list_slice_all [OF xs(1), of mem]
      by (auto simp: list_ass_slice_def split: sum.splits intro!: ass_slice_items_chk_inv [OF inv mem])
  next
    case (Sequence q)
    then show ?thesis using r inv v fits
      by (cases q) (auto simp: list_ass_slice_def intro!: ass_slice_items_chk_inv [OF inv mem])
  qed
qed

lemma set_slice_chk_inv:
  assumes inv: "chk_inv env params self" and v: "conforms env params (slice_value_items self v)"
    and sl: "in_slice (length (items self)) start step n"
    and r: "list_set_slice mem self start step n v = (r, self')"
  shows "chk_inv env params self'"
proof -
  obtain xs where xs: "list_holds self xs" "conforms env params xs" "items self = xs" using inv by (rule chk_invE)
  have seq: "chk_inv env params self'"
    if "list_set_slice mem self start step n (Sequence (Inr vs)) = (r, self')" "conforms env params vs" for vs
  proof (cases r)
    case (Inr u)
    then have "list_holds self' (assign_slice xs start step vs)"
      using list_set_slice_spec [OF xs(1) _ that(1)] sl xs(3) by simp
    moreover have "conforms env params (assign_slice xs start step vs)"
      using conforms_subset [of env params "xs @ vs" "assign_slice xs start step vs"] xs(2) that(2)
        set_assign_slice [of xs start step vs] by simp
    ultimately show ?thesis by (rule chk_invI)
  next
    case (Inl e)
    then show ?thesis using list_set_slice_spec [OF xs(1) _ that(1)] sl xs(3) inv by simp
  qed
  show ?thesis
  proof (cases v)
    case SelfList
    show ?thesis
    proof (cases "list_slice mem self 0 (ob_size self)")
      case (Inl e)
      then show ?thesis using r SelfList inv by (simp add: list_set_slice_def)
    next
      case (Inr l)
      then show ?thesis using r SelfList v xs list_slice_all [OF xs(1) Inr]
        by (intro seq [of xs]) (simp_all add: list_set_slice_def)
    qed
  next
    case (Sequence q)
    then show ?thesis using r v inv seq by (cases q) (simp_all add: list_set_slice_def)
  qed
qed

text \<open>
  What \<open>self[key] = value\<close> may be called with: an index of \<open>Py_ssize_t\<close>, a non-zero slice step, and for a
  slice a value of the same type that conforms.
\<close>

definition assignable :: "('o, 'ty) obj_env \<Rightarrow> 'ty generic_param list \<Rightarrow> 'o PyListObject \<Rightarrow> subscript \<Rightarrow> 'o assigned \<times> bool \<Rightarrow> bool" where
  "assignable env params self key v \<longleftrightarrow>
     (\<forall>i. key = IndexKey (Inr i) \<longrightarrow> - (2 ^ 63) \<le> i \<and> i < 2 ^ 63) \<and>
     (\<forall>start stop step. key = SliceKey (Inr (start, stop, step)) \<longrightarrow> step \<noteq> 0) \<and>
     (snd v \<longrightarrow> conforms env params (slice_value_items self (as_slice (fst v))) \<and>
        length (items self) + length (slice_value_items self (as_slice (fst v))) \<le> 2 ^ 60)"

lemma ass_subscript_chk_inv:
  assumes inv: "chk_inv env params self" and mem: "mem_sane mem" and ok: "\<forall>w. v = Some w \<longrightarrow> assignable env params self key w"
    and r: "chklist_ass_subscript mem env params self key v = (r, self')"
  shows "chk_inv env params self'"
proof (cases v)
  case None
  then show ?thesis using r inv by (simp add: chklist_ass_subscript_def)
next
  case (Some w)
  obtain a same where w: "w = (a, same)" by force
  obtain xs where xs: "list_holds self xs" "items self = xs" using inv by (rule chk_invE)
  note size = list_holds_length [OF xs(1)]
  show ?thesis
  proof (cases key)
    case (IndexKey q)
    show ?thesis
    proof (cases "chklist_checkitem env params (as_item a) \<and> (\<exists>i. q = Inr i)")
      case True
      then obtain i where i: "q = Inr i" "admits env (params ! 0) (as_item a)" by (auto simp: chklist_checkitem_iff)
      have b: "- (2 ^ 63) \<le> i" "i < 2 ^ 63" using ok Some IndexKey i by (simp_all add: assignable_def)
      then have "- (2 ^ 63) \<le> (if i < 0 then i + ob_size self else i)" "(if i < 0 then i + ob_size self else i) < 2 ^ 63"
        using size by auto
      moreover have "list_ass_item mem self (if i < 0 then i + ob_size self else i) (Some (as_item a)) = (r, self')"
        using r Some w IndexKey i True by (simp add: chklist_ass_subscript_def list_ass_subscript_def)
      ultimately show ?thesis by (intro as_item_chk_inv [OF inv i(2)])
    next
      case False
      then show ?thesis using r inv Some w IndexKey
        by (cases q) (auto simp: chklist_ass_subscript_def list_ass_subscript_def split: if_splits)
    qed
  next
    case (SliceKey q)
    show ?thesis
    proof (cases "same \<and> (\<exists>s. q = Inr s)")
      case False
      then show ?thesis using r inv Some w SliceKey
        by (cases q) (auto simp: chklist_ass_subscript_def list_ass_subscript_def split: if_splits)
    next
      case True
      then obtain start stop step where q: "q = Inr (start, stop, step)" by (cases q) auto
      obtain lo hi n where adj: "slice_adjust (ob_size self) start stop step = (lo, hi, n)" by (metis prod_cases3)
      have step: "step \<noteq> 0" and c: "conforms env params (slice_value_items self (as_slice a))"
        "length (items self) + length (slice_value_items self (as_slice a)) \<le> 2 ^ 60"
        using ok Some SliceKey q True w by (auto simp: assignable_def)
      show ?thesis
      proof (cases "step = 1")
        case one: True
        have "list_ass_slice mem self lo hi (Some (as_slice a)) = (r, self')"
          using r Some w SliceKey q True adj one by (simp add: chklist_ass_subscript_def list_ass_subscript_def)
        from ass_slice_chk_inv [OF inv mem c this] show ?thesis .
      next
        case False
        have "list_set_slice mem self lo step n (as_slice a) = (r, self')"
          using r Some w SliceKey q True adj False by (simp add: chklist_ass_subscript_def list_ass_subscript_def Let_def)
        moreover have "in_slice (length (items self)) lo step n"
          using slice_adjust_in_slice [OF step] adj size xs by simp
        ultimately show ?thesis by (intro set_slice_chk_inv [OF inv c(1)])
      qed
    qed
  next
    case OtherKey
    then show ?thesis using r inv Some w by (auto simp: chklist_ass_subscript_def list_ass_subscript_def split: if_splits)
  qed
qed

lemma clear_chk_inv: "chk_inv env params self \<Longrightarrow> chk_inv env params (list_clear_items self)"
  by (elim chk_invE) (auto intro!: chk_invI list_clear_holds)

lemma reverse_chk_inv: "chk_inv env params self \<Longrightarrow> chk_inv env params (list_reverse_impl self)"
  by (elim chk_invE) (auto intro!: chk_invI [OF list_reverse_impl_spec] elim: conforms_subset)

lemma sort_chk_inv:
  assumes "chk_inv env params self" "list_sort_impl mem cenv keyfunc rv (self, s) = (r, (self', s'))"
  shows "chk_inv env params self'"
proof -
  obtain xs where xs: "list_holds self xs" "conforms env params xs" using assms(1) by (rule chk_invE)
  obtain ys where "list_holds self' ys" "mset ys = mset xs" using list_sort_impl_permutes [OF xs(1) assms(2)] by blast
  with xs(2) mset_eq_setD [of ys xs] show ?thesis by (auto intro!: chk_invI simp: conforms_def)
qed

lemma inplace_repeat_chk_inv:
  assumes "chk_inv env params self" "mem_sane mem" "int (length (items self)) * n \<le> 2 ^ 60"
    "list_inplace_repeat mem self n = (r, self')"
  shows "chk_inv env params self'"
proof -
  obtain xs where xs: "list_holds self xs" "conforms env params xs" "items self = xs" using assms(1) by (rule chk_invE)
  have "conforms env params (concat (replicate (nat n) xs))" using xs(2) by (rule conforms_subset) auto
  with list_inplace_repeat_spec [OF xs(1) assms(2) _ assms(4)] assms(1,3) xs show ?thesis
    by (cases r) (auto intro: chk_invI)
qed

lemma remove_loop_chk_inv:
  assumes mem: "mem_sane mem" and eq: "\<And>x y. confined (chk_inv env params) (eq x y)"
  shows "list_remove_loop mem eq v i st = Some y \<Longrightarrow> chk_inv env params (fst st) \<Longrightarrow>
    chk_inv env params (fst (snd y))"
proof -
  have "m = mem \<longrightarrow> e = eq \<longrightarrow> chk_inv env params (fst st) \<longrightarrow> chk_inv env params (fst (snd y))"
    if "list_remove_loop m e v i st = Some y" for m e v i st y
    using that
  proof (rule list_remove_loop.raw_induct [rotated], intro impI)
    fix f m e v i st y
    assume IH: "\<And>m e v i st y. f m e v i st = Some y \<Longrightarrow> m = mem \<longrightarrow> e = eq \<longrightarrow>
        chk_inv env params (fst st) \<longrightarrow> chk_inv env params (fst (snd y))"
      and body: "(if i < ob_size (fst st) then
        (case e (get_item (fst st) i) v st of
           (cmp, st) \<Rightarrow>
             if cmp = Some True then
               (case list_ass_slice m (fst st) i (i + 1) None of (r, self) \<Rightarrow> Some (r, (self, snd st)))
             else if cmp = None then Some (Inl Propagated, st)
             else f m e v (i + 1) st)
        else Some (Inl (ValueError ''list.remove(x): x not in list''), st)) = Some y"
      and eqs: "m = mem" "e = eq" and inv: "chk_inv env params (fst st)"
    obtain cmp st1 where cmp: "eq (get_item (fst st) i) v st = (cmp, st1)" by (metis prod.exhaust)
    have inv1: "chk_inv env params (fst st1)" by (rule confinedD [OF eq cmp inv])
    obtain r self where del: "list_ass_slice_items mem (fst st1) i (i + 1) [] = (r, self)" by force
    have "length (items (fst st1)) + length [] \<le> 2 ^ 60"
      using inv1 list_holds_length [of "fst st1" "items (fst st1)"] by (simp add: chk_inv_def list_wf_iff)
    then have "chk_inv env params self" using ass_slice_items_chk_inv [OF inv1 mem _ _ del] by simp
    with body cmp inv inv1 del eqs show "chk_inv env params (fst (snd y))"
      by (auto simp: list_ass_slice_def split: if_splits dest!: IH)
  qed
  then show "list_remove_loop mem eq v i st = Some y \<Longrightarrow> chk_inv env params (fst st) \<Longrightarrow>
    chk_inv env params (fst (snd y))" by blast
qed

lemma prealloc_chk_inv:
  assumes "chk_inv env params self" "0 < n" "ob_item self = None" "list_preallocate_exact mem self n = (r, self')"
  shows "chk_inv env params self'"
proof -
  obtain xs where xs: "list_holds self xs" using assms(1) by (rule chk_invE)
  have "cells self = []" using assms(3) by (simp add: cells_def)
  then have "xs = []" using xs by (simp add: list_holds_def)
  then have "list_holds self []" using xs by simp
  then have size: "ob_size self = 0" by (simp add: list_holds_def)
  show ?thesis
  proof (cases "pymem_new mem n :: 'a option list option")
    case (Some zs)
    have "zs = replicate (nat n) None \<and> n * int ptr_size \<le> PY_SSIZE_T_MAX"
      by (rule pymem_new_spec [OF _ Some]) (use assms(2) in simp)
    then have "list_holds (self\<lparr>ob_item := Some zs, allocated := n\<rparr>) []"
      using size assms(2) by (simp add: list_holds_def)
    then show ?thesis using assms(4) Some by (auto simp: list_preallocate_exact_def intro: chk_invI)
  qed (use assms(1,4) in \<open>simp add: list_preallocate_exact_def\<close>)
qed

text \<open>What the constructor may be called with: an iterable that can extend the list after its length was asked for.\<close>

definition constructible ::
  "('o, 'ty) obj_env \<Rightarrow> 'ty generic_param list \<Rightarrow> ('o, 's) iterable \<times> bool \<times> ('o, 's) len_call option \<Rightarrow> bool" where
  "constructible env params arg \<longleftrightarrow>
     (case arg of (iterable, same_type, call) \<Rightarrow>
        (\<forall>self. chk_inv env params self \<longrightarrow> extendable env params same_type self iterable) \<and>
        (\<forall>f. call = Some f \<longrightarrow> confined (chk_inv env params) f))"

lemma init_chk_inv:
  assumes inv: "chk_inv env params (fst st)" and mem: "mem_sane mem" and args: "\<forall>a\<in>set args. constructible env params a"
    and r: "chklist_init mem env params kw args st = Some (r, st')"
  shows "chk_inv env params (fst st')"
proof -
  let ?st = "(list_clear_items (fst st), snd st)"
  have inv0: "chk_inv env params (fst ?st)" using clear_chk_inv [OF inv] by simp
  show ?thesis
  proof (cases "kw \<or> length args > 1 \<or> args = []")
    case True
    then show ?thesis using r inv inv0
      by (auto simp: chklist_init_def check_positional_def Let_def split: if_splits sum.splits list.splits)
  next
    case False
    then obtain a where a: "args = [a]" by (cases args) auto
    obtain iterable same call where arg: "a = (iterable, same, call)" by (metis prod_cases3)
    have ext: "extendable env params same self iterable" if "chk_inv env params self" for self
      using args a arg that by (auto simp: constructible_def)
    define p where "p = (case call of
                       None \<Rightarrow> (Inr (), ?st)
                     | Some call \<Rightarrow>
                         (case call ?st of
                            (Inl _, st) \<Rightarrow> (Inl Propagated, st)
                          | (Inr None, st) \<Rightarrow> (Inr (), st)
                          | (Inr (Some iter_len), (self, s)) \<Rightarrow>
                              if iter_len > 0 \<and> ob_item self = None
                              then (case list_preallocate_exact mem self iter_len of (r, self) \<Rightarrow> (r, (self, s)))
                              else (Inr (), (self, s))))"
    obtain q st1 where p: "p = (q, st1)" by (metis prod.exhaust)
    have inv1: "chk_inv env params (fst st1)"
    proof (cases call)
      case None
      then show ?thesis using p inv0 by (simp add: p_def)
    next
      case (Some f)
      obtain c self s where c: "f ?st = (c, (self, s))" by (metis prod.exhaust)
      have self: "chk_inv env params self"
        using confinedD [of "chk_inv env params" f, OF _ c inv0] args a arg Some by (auto simp: constructible_def)
      obtain r2 self2 where pre: "list_preallocate_exact mem self (the (projr c)) = (r2, self2)" by force
      show ?thesis using p Some c self pre prealloc_chk_inv [OF self _ _ pre]
        by (auto simp: p_def split: sum.splits option.splits if_splits)
    qed
    have "chklist_init mem env params kw args st =
      (case p of (q, st) \<Rightarrow> case q of Inl e \<Rightarrow> Some (Inl e, st) | Inr _ \<Rightarrow> chklist_extend mem env params same iterable st)"
      using False by (simp add: chklist_init_def a arg p_def check_positional_def Let_def)
    then have "(case q of Inl e \<Rightarrow> Some (Inl e, st1) | Inr _ \<Rightarrow> chklist_extend mem env params same iterable st1) = Some (r, st')"
      using r p by simp
    then show ?thesis using inv1 ext [OF inv1] mem
      by (cases q) (auto intro: extend_chk_inv)
  qed
qed

section \<open>The methods as a state machine\<close>

text \<open>
  One call of a method of \<open>CheckedList[T]\<close>, successful or not. Callbacks (iterators, comparisons, key
  functions, lengths) run arbitrary code, which can reach the list only through these same
  methods and is therefore confined to the invariant; the callbacks of \<open>sort\<close> see an empty list
  and are not restricted at all.
\<close>

inductive chklist_step ::
  "(nat \<Rightarrow> bool) \<Rightarrow> ('f pyobj, 'ty) obj_env \<Rightarrow> 'ty generic_param list \<Rightarrow>
     ('f pyobj, 's) lstate \<Rightarrow> ('f pyobj, 's) lstate \<Rightarrow> bool"
  for mem env params where
  step_append: "chklist_append_wrapper mem env params self v = (r, self') \<Longrightarrow> chklist_step mem env params (self, s) (self', s)"
| step_insert: "list_insert_wrapper mem env params index_of self args = (r, self') \<Longrightarrow>
    chklist_step mem env params (self, s) (self', s)"
| step_extend: "extendable env params same_type (fst st) iterable \<Longrightarrow>
    chklist_extend_wrapper mem env params same_type iterable st = Some (r, st') \<Longrightarrow> chklist_step mem env params st st'"
| step_pop: "chklist_pop mem env self args = (r, self') \<Longrightarrow> chklist_step mem env params (self, s) (self', s)"
| step_setitem: "\<forall>w. v = Some w \<longrightarrow> assignable env params self key w \<Longrightarrow>
    chklist_ass_subscript mem env params self key v = (r, self') \<Longrightarrow> chklist_step mem env params (self, s) (self', s)"
| step_remove: "\<forall>x y. confined (chk_inv env params) (eq x y) \<Longrightarrow>
    list_remove mem eq v st = Some (r, st') \<Longrightarrow> chklist_step mem env params st st'"
| step_clear: "chklist_step mem env params (self, s) (list_clear_items self, s)"
| step_reverse: "chklist_step mem env params (self, s) (list_reverse_impl self, s)"
| step_sort: "list_sort_impl mem cenv keyfunc rv st = (r, st') \<Longrightarrow> chklist_step mem env params st st'"
| step_repeat: "int (length (items self)) * n \<le> 2 ^ 60 \<Longrightarrow> list_inplace_repeat mem self n = (r, self') \<Longrightarrow>
    chklist_step mem env params (self, s) (self', s)"
| step_init: "\<forall>a\<in>set args. constructible env params a \<Longrightarrow>
    chklist_init mem env params kw args st = Some (r, st') \<Longrightarrow> chklist_step mem env params st st'"

lemma chklist_step_inv:
  assumes mem: "mem_sane mem"
  shows "chklist_step mem env params st st' \<Longrightarrow> chk_inv env params (fst st) \<Longrightarrow> chk_inv env params (fst st')"
proof (induction rule: chklist_step.induct)
  case (step_append self v r self' s)
  then show ?case using append_chk_inv [OF _ mem step_append.hyps] by simp
next
  case (step_insert index_of self args r self' s)
  then show ?case using insert_chk_inv [OF _ mem step_insert.hyps] by simp
next
  case (step_extend same_type st iterable r st')
  then show ?case using extend_chk_inv [OF _ mem] by (simp add: chklist_extend_wrapper_def)
next
  case (step_pop self args r self' s)
  then show ?case using pop_chk_inv [OF _ mem step_pop.hyps] by simp
next
  case (step_setitem v self key r self' s)
  then show ?case using ass_subscript_chk_inv [OF _ mem step_setitem.hyps] by simp
next
  case (step_remove eq v st r st')
  then show ?case using remove_loop_chk_inv [OF mem, of env params eq v 0 st "(r, st')"] by (simp add: list_remove_def)
next
  case (step_sort cenv keyfunc rv st r st')
  then show ?case using sort_chk_inv [of env params "fst st" mem cenv keyfunc rv "snd st" r "fst st'" "snd st'"] by simp
next
  case (step_repeat self n r self' s)
  then show ?case using inplace_repeat_chk_inv [OF _ mem step_repeat.hyps] by simp
next
  case (step_init args kw st r st')
  then show ?case using init_chk_inv [OF _ mem] by blast
qed (simp_all add: clear_chk_inv reverse_chk_inv)

lemma chklist_reachable_inv:
  assumes "mem_sane mem" "(chklist_step mem env params)\<^sup>*\<^sup>* (empty_list, s) st"
  shows "chk_inv env params (fst st)"
  using assms(2)
proof (induction rule: rtranclp_induct)
  case base
  then show ?case by (simp add: chk_invI [of empty_list "[]"])
next
  case (step st st')
  then show ?case using chklist_step_inv [OF assms(1)] by blast
qed

section \<open>What the operations do\<close>

text \<open>Extending by an iterator returns, and appends the items up to the first that is refused.\<close>

lemma chklist_extend_iterator:
  assumes self: "list_holds self xs" and mem: "mem_sane mem" and it: "yields it vs s"
    and n: "0 \<le> n" "int (length xs) + n \<le> 2 ^ 60"
  shows "\<exists>r self' s' k. chklist_extend mem env params same_type (Iterator (Some n) it) (self, s) = Some (r, (self', s')) \<and>
    k \<le> length vs \<and> list_holds self' (xs @ take k vs) \<and> conforms env params (take k vs) \<and>
    (r = Inr () \<and> k = length vs \<or> r = Inl MemoryError \<or>
     r = Inl (TypeError ''bad value'') \<and> k < length vs \<and> \<not> admits env (params ! 0) (vs ! k))"
proof -
  note size = list_holds_length [OF self]
  obtain q1 self1 where res: "list_resize mem self (ob_size self + n) = (q1, self1)" by force
  have "\<not> ob_size self > PY_SSIZE_T_MAX - n" using n size by simp
  then have ext: "chklist_extend mem env params same_type (Iterator (Some n) it) (self, s) = (case q1 of Inl e \<Rightarrow> Some (Inl e, (self1, s))
      | Inr _ \<Rightarrow> map_option (extend_cut mem) (extend_loop mem (chklist_checkitem env params) it (self1\<lparr>ob_size := ob_size self\<rparr>, s)))"
    using res by (cases q1) (simp_all add: chklist_extend_def)
  show ?thesis
  proof (cases q1)
    case (Inl e)
    then have "e = MemoryError" "self1 = self" using resize_hint_holds [OF self mem n res] by auto
    with ext Inl self show ?thesis by (auto intro!: exI [of _ 0])
  next
    case (Inr u)
    have h: "list_holds (self1\<lparr>ob_size := ob_size self\<rparr>) xs" using resize_hint_holds [OF self mem n res] Inr by simp
    obtain r self2 s2 k where loop: "extend_loop mem (chklist_checkitem env params) it (self1\<lparr>ob_size := ob_size self\<rparr>, s) = Some (r, (self2, s2))"
      and k: "k \<le> length vs" "list_holds self2 (xs @ take k vs)" "list_all (chklist_checkitem env params) (take k vs)"
        "r = Inr () \<and> k = length vs \<or> r = Inl MemoryError \<or>
         r = Inl (TypeError ''bad value'') \<and> k < length vs \<and> \<not> chklist_checkitem env params (vs ! k)"
      using extend_loop_spec [OF mem h it, of "chklist_checkitem env params"] by blast
    obtain r3 self3 s3 where cut: "extend_cut mem (r, (self2, s2)) = (r3, (self3, s3))" by (metis prod.exhaust)
    note cut_spec = extend_cut_spec [OF k(2) mem cut]
    have "conforms env params (take k vs)" using k(3) by (simp add: conforms_def list_all_iff chklist_checkitem_iff)
    moreover have "chklist_extend mem env params same_type (Iterator (Some n) it) (self, s) = Some (r3, (self3, s3))"
      using ext Inr loop cut by simp
    moreover have "r3 = Inr () \<and> k = length vs \<or> r3 = Inl MemoryError \<or>
         r3 = Inl (TypeError ''bad value'') \<and> k < length vs \<and> \<not> admits env (params ! 0) (vs ! k)"
      using cut_spec k(4) by (auto simp: chklist_checkitem_iff)
    ultimately show ?thesis using cut_spec k(1) by blast
  qed
qed

text \<open>\<open>append\<close> refuses \<open>None\<close> for an optional type parameter; \<open>extend\<close> and assignment admit it.\<close>

lemma append_none:
  assumes "gtp_optional (params ! 0)" "\<not> type_check env (py_none env) (gtp_type (params ! 0))"
  shows "\<exists>msg. chklist_append_wrapper mem env params self (py_none env) = (Inl (StaticTypeError msg), self)"
    and "chklist_checkitem env params (py_none env)"
  using assms by (auto simp: chklist_append_wrapper_def check_one_arg_param Ci_Py_Sig_T0_def chklist_checkitem_iff admits_def)

text \<open>\<open>self += iterable\<close> stores whatever it is given.\<close>

lemma inplace_concat_stores:
  assumes self: "list_holds self xs" and mem: "mem_sane mem" and fits: "length xs + 1 \<le> 2 ^ 60" and ne: "ob_item self \<noteq> None"
    and r: "list_inplace_concat mem (FastSequence (Inr [v])) (self, s) = Some (Inr (), (self', s'))"
  shows "list_holds self' (xs @ [v])"
proof -
  obtain q self1 where res: "list_resize mem self (ob_size self + 1) = (q, self1)" by force
  then have "case q of Inl e \<Rightarrow> e = MemoryError \<and> self1 = self
    | Inr _ \<Rightarrow> list_holds (append_items self1 (ob_size self) [v]) (xs @ [v])"
    using fits by (intro append_items_holds [OF self mem]) simp_all
  then show ?thesis using r res ne
    by (cases q) (auto simp: list_inplace_concat_def list_extend_def)
qed

end
