(* ===== verification/List_Properties.thy ===== *)
theory List_Properties
  imports Checked_List_Correct
begin

text \<open>
  The properties of the list component: sorting, the list operations, and the checked lists that add the type of
  the items. Each is stated over the operations of the object with an instance that evaluates it.
\<close>

section \<open>An allocator\<close>

text \<open>An allocator that grants every request below \<open>PY_SSIZE_T_MAX\<close>.\<close>

abbreviation (input) sane_mem :: "nat \<Rightarrow> bool" where
  "sane_mem b \<equiv> int b \<le> PY_SSIZE_T_MAX"

lemma mem_sane_sane_mem: "mem_sane sane_mem"
  by (simp add: mem_sane_def)

section \<open>Sorting\<close>

text \<open>
  C2. \<open>list.sort(key=f, reverse=r)\<close> on a well-formed list succeeds and leaves the stably sorted
  rearrangement of its items, when the key function is a function, the interpreter's \<open><\<close> is a
  consistent order on the keys that leaves the list alone, and memory is available.
\<close>

theorem list_sort_stable:
  fixes self :: "'f pyobj PyListObject"
  assumes "list_wf self" "\<forall>b. int b \<le> PY_SSIZE_T_MAX \<longrightarrow> mem b"
    and "\<forall>x st. f x st = (Some (key x), st)"
    and "rich_compare_laws env" "strict_weak_order lt"
    and "decides (\<lambda>st. allocated (fst st) = -1) (key ` set (items self)) lt (rich_lt env)"
  shows "\<exists>self' s'. list_sort_impl mem env (Some f) rv (self, s) = (Inr (), (self', s')) \<and> list_wf self' \<and>
    stable_sorted (\<lambda>x y. if rv then lt (key y) (key x) else lt (key x) (key y)) (items self) (items self')"
proof -
  let ?st = "(self\<lparr>ob_size := 0, ob_item := None, allocated := -1\<rparr>, s)"
  have holds: "list_holds self (items self)" using assms(1) by (simp add: list_wf_iff)
  have f: "f x st = (Some (key x), st)" for x st using assms(3) by blast
  have "call_keys f xs st = (Some (map key xs), st)" for xs st
    by (induction xs arbitrary: st) (simp_all add: f)
  moreover have "int (ptr_size * length (items self)) \<le> PY_SSIZE_T_MAX"
    using list_holds_fits [OF holds] by linarith
  ultimately have keys: "make_keys mem (Some f) (items self) ?st = (Inr (map key (items self)), ?st)"
    using assms(2) by (simp add: make_keys_def)
  have "decides (\<lambda>st. allocated (fst st) = -1) (key ` set (items self)) lt
      (run_compare env (presort_check env (map key (items self))))"
    using assms(4,6) presort_check_sound [of env _ "map key (items self)"] by (auto simp: decides_def)
  then have "\<exists>self' s'. list_sort_impl mem env (Some f) rv (self, s) = (Inr (), (self', s')) \<and>
    (\<exists>ys. list_holds self' ys \<and> stable_sorted (\<lambda>x y. if rv then lt (key y) (key x) else lt (key x) (key y)) (items self) ys)"
    by (intro list_sort_impl_stable [OF holds _ keys assms(5)]) (use assms(2) in simp_all)
  then obtain self' s' ys where a: "list_sort_impl mem env (Some f) rv (self, s) = (Inr (), (self', s'))" "list_holds self' ys"
    "stable_sorted (\<lambda>x y. if rv then lt (key y) (key x) else lt (key x) (key y)) (items self) ys"
    by blast
  from a(3) [folded list_holds_items [OF a(2)]] a(1) list_holds_wf [OF a(2)] show ?thesis by blast
qed


theorem list_sort_stable_witness:
  "\<exists>self' s'. list_sort_impl (\<lambda>_. True) plain_env (Some (\<lambda>x st. (Some x, st))) True (three_longs, ()) = (Inr (), (self', s')) \<and>
     list_wf self' \<and>
     stable_sorted (\<lambda>x y. if True then long_value y < long_value x else long_value x < long_value y)
       (items three_longs) (items self')"
proof -
  have "strict_weak_order (\<lambda>x y. long_value x < long_value y)" by (rule int_order.pullback_order)
  moreover have "decides (\<lambda>st. allocated (fst st) = -1) ((\<lambda>x. x) ` set (items three_longs))
      (\<lambda>x y. long_value x < long_value y) (rich_lt plain_env)"
    by (auto simp: decides_def plain_env_def three_longs_items)
  ultimately show ?thesis
    using list_sort_stable [of three_longs "\<lambda>_. True" "\<lambda>x st. (Some x, st)" "\<lambda>x. x" plain_env "\<lambda>x y. long_value x < long_value y" True "()"]
      three_longs_wf plain_env_laws by simp
qed





text \<open>
  Sorting a list of machine-size integers, which takes the comparison \<open>unsafe_long_compare\<close>, needs nothing of the
  interpreter: the result is the stable sort by value.
\<close>

theorem list_sort_longs:
  assumes "list_wf self" "\<forall>b. int b \<le> PY_SSIZE_T_MAX \<longrightarrow> mem b"
    and "\<forall>x\<in>set (items self). type_of x = LongType \<and> long_is_compact x"
  shows "\<exists>self' s'. list_sort_impl mem env None rv (self, s) = (Inr (), (self', s')) \<and> list_wf self' \<and>
    stable_sorted (\<lambda>x y. if rv then long_value y < long_value x else long_value x < long_value y) (items self) (items self')"
proof -
  obtain self' s' ys where a: "list_sort_impl mem env None rv (self, s) = (Inr (), (self', s'))" "list_holds self' ys"
    "stable_sorted (\<lambda>x y. if rv then long_value y < long_value x else long_value x < long_value y) (items self) ys"
    using list_sort_impl_longs [OF assms(1) [unfolded list_wf_iff] _ assms(3), of mem env rv s] assms(2) by blast
  then show ?thesis using list_holds_items [OF a(2)] list_holds_wf [OF a(2)] by blast
qed

theorem list_sort_longs_witness:
  "\<exists>self' s'. list_sort_impl (\<lambda>_. True) plain_env None False (three_longs, ()) = (Inr (), (self', s')) \<and> list_wf self' \<and>
     stable_sorted (\<lambda>x y. if False then long_value y < long_value x else long_value x < long_value y)
       (items three_longs) (items self')"
  by (rule list_sort_longs [OF three_longs_wf]) (simp_all add: three_longs_items)

text \<open>
  C19. \<open>merge_collapse\<close> on a stack of pending runs whose older runs satisfy the invariant merges neighbours only, never fails
  when comparisons and memory do not, and restores the invariant; the stack then has fewer
  than \<open>MAX_MERGE_PENDING\<close> entries, so that the next push stays inside the array \<open>pending\<close>.
\<close>

theorem merge_collapse_stack:
  assumes "cmp_ok good P K lt islt" "good \<longrightarrow> grants mem (length xs)"
    and "stack_ok good P K lt xs rest runs ms s" "runs \<noteq> []" "stack_inv (drop 2 (lens runs))"
    and "merge_collapse mem islt ms s = (res, ms', s')" "ptr_size * length xs \<le> nat PY_SSIZE_T_MAX"
  shows "res \<noteq> AssertionFailed \<and> (good \<longrightarrow> res = SortOk) \<and>
    (\<exists>runs'. stack_ok good P K lt xs rest runs' ms' s' \<and>
       (res = SortOk \<longrightarrow> stack_inv (lens runs') \<and> length (pending ms') < MAX_MERGE_PENDING))"
proof -
  obtain runs' where r: "res \<noteq> AssertionFailed" "good \<longrightarrow> res = SortOk" "stack_ok good P K lt xs rest runs' ms' s'"
    "res = SortOk \<longrightarrow> stack_inv (lens runs')"
    using merge_collapse_correct [OF assms(1-6)] by (auto simp: stack_result_def)
  then have ms': "[] \<notin> set runs'" "pending ms' = spans 0 runs'" "mset (concat runs' @ rest) = mset xs"
    by (auto simp: stack_ok_def stack_rep_def)
  then have "length (concat runs') \<le> length xs" by (metis mset_eq_length length_append le_add1)
  then have "ptr_size * length (concat runs') \<le> nat PY_SSIZE_T_MAX" using assms(7) by linarith
  then have "length (pending ms') < MAX_MERGE_PENDING" if "res = SortOk"
    using stack_inv_bound [of runs'] r(4) ms' that by simp
  with r show ?thesis by blast
qed

theorem merge_collapse_stack_witness:
  "\<exists>res ms' s'. merge_collapse (\<lambda>b. int b \<le> PY_SSIZE_T_MAX) (\<lambda>x y s. (Some (x < y), s))
       \<lparr>arr = [2, 1 :: int], min_gallop = 7, a_keys = TempArray, a_values = False, alloced = 256, pending = [(0, 1), (1, 1)]\<rparr> () =
       (res, ms', s') \<and> res = SortOk \<and> length (pending ms') < MAX_MERGE_PENDING"
proof -
  let ?ms = "\<lparr>arr = [2, 1 :: int], min_gallop = 7, a_keys = TempArray, a_values = False, alloced = 256, pending = [(0, 1), (1, 1)]\<rparr>"
  let ?islt = "\<lambda>x y s. (Some (x < y), s)"
  obtain res ms' s' where a: "merge_collapse (\<lambda>b. int b \<le> PY_SSIZE_T_MAX) ?islt ?ms () = (res, ms', s')" by (metis prod.exhaust)
  have c: "cmp_ok True (\<lambda>_. True) UNIV ((<) :: int \<Rightarrow> int \<Rightarrow> bool) ?islt"
    using int_order.strict_weak_order_axioms by (simp add: cmp_ok_def decides_def)
  have st: "stack_ok True (\<lambda>_. True) UNIV (<) [2, 1] [] [[2], [1]] ?ms ()"
    by (auto simp: stack_ok_def stack_rep_def stable_sorted_refl intro!: exI [of _ "[[2], [1]]"])
  have "res \<noteq> AssertionFailed \<and> (True \<longrightarrow> res = SortOk) \<and>
    (\<exists>runs'. stack_ok True (\<lambda>_. True) UNIV (<) [2, 1] [] runs' ms' s' \<and>
       (res = SortOk \<longrightarrow> stack_inv (lens runs') \<and> length (pending ms') < MAX_MERGE_PENDING))"
    by (rule merge_collapse_stack [OF c _ st _ _ a]) (simp_all add: grants_def)
  with a show ?thesis by blast
qed

section \<open>Lists\<close>

text \<open>
  C20. \<open>list.insert\<close> (\<open>ins1\<close>) on a well-formed list either puts the value before the clamped position and keeps all other
  items in order, or reports that memory is exhausted and leaves the list as it was.
\<close>

theorem ins1_inserts:
  assumes "list_wf self" "mem_sane mem" "ins1 mem self w (Some v) = (r, self')"
  shows "case r of Inl e \<Rightarrow> e = MemoryError \<and> self' = self
    | Inr _ \<Rightarrow> list_wf self' \<and>
        items self' = take (insert_pos w (length (items self))) (items self) @ v # drop (insert_pos w (length (items self))) (items self)"
  using ins1_spec [OF assms(1) [unfolded list_wf_iff] assms(2,3)]
  by (auto simp: list_holds_items list_holds_wf split: sum.splits)

theorem ins1_inserts_witness:
  "case ins1 sane_mem three_longs (- 1) (Some (LongObj 9)) of (r, self') \<Rightarrow>
     (case r of Inl e \<Rightarrow> e = MemoryError \<and> self' = three_longs
      | Inr _ \<Rightarrow> list_wf self' \<and> items self' = [LongObj 3, LongObj 1, LongObj 9, LongObj 2])"
  using ins1_inserts [OF three_longs_wf mem_sane_sane_mem, of "- 1" "LongObj 9"]
  by (auto simp: three_longs_items insert_pos_def split: prod.splits sum.splits)





text \<open>
  \<open>list * n\<close> builds the \<open>n\<close>-fold repetition, none for \<open>n \<le> 0\<close>; the only error is exhausted memory, also when the
  size would overflow.
\<close>

theorem list_repeat_repeats:
  assumes "list_wf a"
  shows "case list_repeat mem a n of Inl e \<Rightarrow> e = MemoryError
    | Inr np \<Rightarrow> list_wf np \<and> items np = concat (replicate (nat n) (items a))"
  using list_repeat_spec [OF assms [unfolded list_wf_iff], of n mem]
  by (auto simp: list_holds_items list_holds_wf split: sum.splits)

theorem list_repeat_repeats_witness:
  "case list_repeat sane_mem three_longs 2 of Inl e \<Rightarrow> e = MemoryError
    | Inr np \<Rightarrow> list_wf np \<and> items np = [LongObj 3, LongObj 1, LongObj 2, LongObj 3, LongObj 1, LongObj 2]"
  using list_repeat_repeats [OF three_longs_wf, of 2 sane_mem]
  by (auto simp: three_longs_items numeral_2_eq_2 split: sum.splits)

text \<open>
  C23. The byte count of \<open>list_resize\<close> is not checked: asked for \<open>2 ^ 61\<close> items it allocates no byte, reports
  success and leaves a list whose size is \<open>2 ^ 61\<close> and whose block has no cell.
\<close>

theorem list_resize_overflow:
  assumes "allocated self < 2 ^ 61" "ob_size self \<le> 2 ^ 60" "mem 0"
  shows "case list_resize mem self (2 ^ 61) of
    (r, self') \<Rightarrow> r = Inr () \<and> ob_size self' = 2 ^ 61 \<and> cells self' = []"
  using list_resize_wraps [of self mem, OF assms] by (simp add: split_beta)

theorem list_resize_overflow_witness:
  "case list_resize sane_mem three_longs (2 ^ 61) of
    (r, self') \<Rightarrow> r = Inr () \<and> ob_size self' = 2 ^ 61 \<and> cells self' = []"
  by (rule list_resize_overflow) (simp_all add: three_longs_def)

text \<open>
  \<open>list.index(v, start, stop)\<close> returns, when \<open>==\<close> answers and leaves the list alone: the first index
  between the adjusted bounds whose item equals \<open>v\<close>, and \<open>ValueError\<close> when there is none.
\<close>

theorem list_index_first:
  assumes "quiet_eq eq R" "list_wf self"
  shows "\<exists>s'. list_index_impl eq v start stop (self, s) =
    Some (case find (\<lambda>k. R (items self ! k) v) [nat (index_bound start (length (items self)))..<
                 min (length (items self)) (nat (index_bound stop (length (items self))))] of
            Some k \<Rightarrow> Inr (int k) | None \<Rightarrow> Inl (ValueError ''value is not in list''), (self, s'))"
  by (rule quiet_eq.index [OF assms(1)]) (use assms(2) in \<open>simp add: list_wf_iff\<close>)

theorem list_index_first_witness:
  "\<exists>s'. list_index_impl (rich_eq plain_env) (LongObj 2) 1 (- 1) (three_longs, ()) =
     Some (Inl (ValueError ''value is not in list''), (three_longs, s'))"
  using list_index_first [OF plain_eq.quiet_eq_axioms three_longs_wf, of "LongObj 2" 1 "- 1" "()"]
  by (simp add: three_longs_items index_bound_def upt_rec)

text \<open>
  \<open>list.remove(v)\<close> returns, and removes exactly the first item that equals \<open>v\<close>; it raises \<open>ValueError\<close>
  only when no item does, and an error leaves the list unchanged.
\<close>

theorem list_remove_first:
  assumes "quiet_eq eq R" "mem_sane mem" "list_wf self"
  shows "\<exists>r self' s'. list_remove mem eq v (self, s) = Some (r, (self', s')) \<and>
    (case r of
       Inl e \<Rightarrow> self' = self \<and> (e = MemoryError \<or>
         e = ValueError ''list.remove(x): x not in list'' \<and> (\<forall>x\<in>set (items self). \<not> R x v))
     | Inr _ \<Rightarrow> list_wf self' \<and> (\<exists>k < length (items self). R (items self ! k) v \<and> (\<forall>j < k. \<not> R (items self ! j) v) \<and>
         items self' = take k (items self) @ drop (Suc k) (items self)))"
proof -
  note self = assms(3) [unfolded list_wf_iff]
  obtain r self' s' where a: "list_remove_loop mem eq v (int 0) (self, s) = Some (r, (self', s'))"
    using quiet_eq.remove_returns [OF assms(1) self] by blast
  show ?thesis
    using quiet_eq.remove_loop [OF assms(1,2) self a] a
    by (intro exI [of _ r] exI [of _ self'] exI [of _ s'])
      (auto simp: list_remove_def list_holds_items list_holds_wf split: sum.splits)
qed

theorem list_remove_first_witness:
  "\<exists>r self' s'. list_remove sane_mem (rich_eq plain_env) (LongObj 5) (three_longs, ()) = Some (r, (self', s')) \<and>
     self' = three_longs \<and> (\<exists>e. r = Inl e)"
  using list_remove_first [OF plain_eq.quiet_eq_axioms mem_sane_sane_mem three_longs_wf, of "LongObj 5" "()"]
  by (fastforce simp: three_longs_items less_Suc_eq split: sum.splits)

text \<open>
  \<open>==\<close> and \<open>!=\<close> of two lists return and decide equality item by item, where an item equals itself whatever its \<open>==\<close> says.
\<close>

theorem list_richcompare_equal:
  assumes "quiet_pair eq R vl wl" "list_wf (vl h)" "list_wf (wl h)" "op = Py_EQ \<or> op = Py_NE"
  shows "\<exists>h'. list_richcompare eq rich (Some \<circ> vl) (Some \<circ> wl) op h =
    Some (Inr (CmpBool (list_all2 (\<lambda>x y. x = y \<or> R x y) (items (vl h)) (items (wl h)) \<longleftrightarrow> op = Py_EQ)), h')"
  using quiet_pair.richcompare_eq [OF assms(1) assms(2,3) [unfolded list_wf_iff] assms(4), of rich] by blast

theorem list_richcompare_equal_witness:
  "\<exists>h'. list_richcompare (rich_eq plain_env) (\<lambda>_ _ _ h. (Some (), h)) (Some \<circ> fst) (Some \<circ> snd) Py_NE (three_longs, empty_list) =
     Some (Inr (CmpBool True), h')"
  using list_richcompare_equal [OF plain_pair.quiet_pair_axioms, of "(three_longs, empty_list)" Py_NE "\<lambda>_ _ _ h. (Some (), h)"]
    list_holds_wf [of "empty_list :: unit pyobj PyListObject" "[]"] list_holds_items [of "empty_list :: unit pyobj PyListObject" "[]"]
  by (simp add: three_longs_wf three_longs_items)



text \<open>
  The forward iterator over a list that is not changed delivers the items in order and then ends for good; the
  reverse iterator delivers them backwards.
\<close>

theorem list_iterators_deliver:
  fixes seq :: "'o PyListObject"
  assumes "list_wf seq" "length (items seq) < n"
  shows "fst (run_iter (listiter_next seq) n list_iter) = items seq \<and>
    fst (run_iter (listreviter_next seq) n (list_reversed_impl seq)) = rev (items seq) \<and>
    (\<forall>seq' :: 'o PyListObject. fst (listiter_next seq' (snd (run_iter (listiter_next seq) n list_iter))) = None)"
proof -
  note seq = assms(1) [unfolded list_wf_iff]
  have a: "run_iter (listiter_next seq) n list_iter = (items seq, \<lparr>it_index = int (length (items seq)), it_alive = False\<rparr>)"
    using run_listiter [OF seq, of 0 n] assms(2) by (simp add: list_iter_def)
  have "fst (run_iter (listreviter_next seq) n (list_reversed_impl seq)) = rev (items seq)"
    using run_listreviter [OF seq, of "length (items seq)" n] assms(2) list_holds_length [OF seq] by (simp add: list_reversed_impl_def)
  then show ?thesis by (simp add: a listiter_next_def)
qed

theorem list_iterators_deliver_witness:
  "fst (run_iter (listiter_next three_longs) 4 list_iter) = [LongObj 3, LongObj 1, LongObj 2] \<and>
   fst (run_iter (listreviter_next three_longs) 4 (list_reversed_impl three_longs)) = [LongObj 2, LongObj 1, LongObj 3]"
  using list_iterators_deliver [OF three_longs_wf, of 4] by (simp add: three_longs_items)

section \<open>Checked lists\<close>


text \<open>An interpreter with the types \<open>int\<close> and \<open>str\<close>, and the parameter lists of \<open>[int]\<close> and \<open>[Optional[int]]\<close>.\<close>

definition plain_objects :: "(unit pyobj, string) obj_env" where
  "plain_objects = \<lparr>py_none = OtherObj 0 0,
     type_check = \<lambda>x t. t = ''int'' \<and> type_of x = LongType \<or> t = ''str'' \<and> type_of x = UnicodeType,
     long_object = \<lambda>x. case x of LongObj i \<Rightarrow> Some i | _ \<Rightarrow> None,
     unicode_object = \<lambda>x. type_of x = UnicodeType, tp_name = \<lambda>t. t\<rparr>"

definition int_params :: "string generic_param list" where
  "int_params = [\<lparr>gtp_type = ''int'', gtp_optional = False\<rparr>]"

definition opt_int_params :: "string generic_param list" where
  "opt_int_params = [\<lparr>gtp_type = ''int'', gtp_optional = True\<rparr>]"


text \<open>
  \<open>CheckedList.extend\<close> with an iterator that ends returns; it appends the items up to the first that does not
  have the type, with \<open>TypeError\<close>, and all of them when each has it and memory is available.
\<close>

theorem chklist_extend_returns:
  assumes "list_wf self" "mem_sane mem" "yields it vs s" "0 \<le> n" "int (length (items self)) + n \<le> 2 ^ 60"
  shows "\<exists>r self' s' k. chklist_extend mem env params same_type (Iterator (Some n) it) (self, s) = Some (r, (self', s')) \<and>
    k \<le> length vs \<and> list_wf self' \<and> items self' = items self @ take k vs \<and> (\<forall>v\<in>set (take k vs). admits env (params ! 0) v) \<and>
    (r = Inr () \<and> k = length vs \<or> r = Inl MemoryError \<or>
     r = Inl (TypeError ''bad value'') \<and> k < length vs \<and> \<not> admits env (params ! 0) (vs ! k))"
  using chklist_extend_iterator [OF assms(1) [unfolded list_wf_iff] assms(2-5), of env params same_type]
  unfolding conforms_def by (metis list_holds_items list_holds_wf)

theorem chklist_extend_returns_witness:
  "\<exists>r self' s' k. chklist_extend sane_mem plain_objects int_params False
      (Iterator (Some 0) (\<lambda>(self, i). if i = 0 then (Yield (UnicodeObj []), (self, 1 :: nat)) else (Exhausted, (self, i))))
      (three_longs, 0) = Some (r, (self', s')) \<and>
    list_wf self' \<and> items self' = items three_longs @ take k [UnicodeObj []] \<and> r \<noteq> Inr ()"
proof -
  let ?it = "\<lambda>(self, i). if i = 0 then (Yield (UnicodeObj []), (self, 1 :: nat)) else (Exhausted, (self, i))"
  have "yields ?it [UnicodeObj []] 0" by (auto intro!: exI [of _ 1])
  from chklist_extend_returns [OF three_longs_wf mem_sane_sane_mem this, of 0 plain_objects int_params False]
  show ?thesis
    by (simp add: three_longs_items) (fastforce simp: admits_def plain_objects_def int_params_def less_Suc_eq take_Suc)
qed

text \<open>
  C26. The free list of checked lists: giving a list back and taking one from the free list or the
  allocator keep the objects on the free list distinct and unused, and a list that is handed out was not in use.
\<close>

theorem chklist_free_list_safe:
  assumes "list_mem_inv m" "a \<in> dom (live m)" "chklist_dealloc a m = (Inr (), m1)"
    and "unused m1 new" "chklist_alloc new type m1 = (Inr b, m2)"
  shows "list_mem_inv m1 \<and> live m1 = (live m)(a := None) \<and>
    list_mem_inv m2 \<and> b \<notin> dom (live m1) \<and> live m2 = (live m1)(b \<mapsto> (Some type, empty_list))"
proof -
  note d = chklist_dealloc_inv [OF assms(1-3)]
  show ?thesis using d chklist_alloc_inv [OF d(1) assms(4,5)] by blast
qed

definition one_list :: "(unit pyobj, string) list_mem" where
  "one_list = \<lparr>live = [5 \<mapsto> (Some int_params, three_longs)],
     the_list_state = \<lparr>free_list = replicate ChkList_MAXFREELIST 0, numfree = 0\<rparr>, interp_id = 0\<rparr>"

theorem chklist_free_list_safe_witness:
  "\<exists>m1 m2. chklist_dealloc 5 one_list = (Inr (), m1) \<and> chklist_alloc None opt_int_params m1 = (Inr 5, m2) \<and>
     list_mem_inv m2 \<and> live m2 = [5 \<mapsto> (Some opt_int_params, empty_list)]"
proof -
  have inv: "list_mem_inv one_list" "5 \<in> dom (live one_list)" by (simp_all add: one_list_def list_mem_inv_def free_objects_def)
  define m1 where "m1 = snd (chklist_dealloc 5 one_list)"
  have d: "chklist_dealloc 5 one_list = (Inr (), m1)"
    by (simp add: m1_def one_list_def chklist_dealloc_def list_dealloc_def get_list_state_def)
  define m2 where "m2 = snd (chklist_alloc None opt_int_params m1)"
  have b: "chklist_alloc None opt_int_params m1 = (Inr 5, m2)"
    by (simp add: m2_def m1_def one_list_def chklist_dealloc_def list_dealloc_def chklist_alloc_def get_list_state_def
        del: replicate.simps)
  from chklist_free_list_safe [OF inv d _ b] d b show ?thesis by (simp add: unused_def one_list_def)
qed

text \<open>
  \<open>CheckedList.copy\<close> returns a list that was not in use, with the same items and the same type.
\<close>

theorem chklist_copy_copies:
  assumes "list_mem_inv m" "unused m new" "list_wf self" "chklist_copy mem new type self m = (Inr a, m')"
  shows "list_mem_inv m' \<and> a \<notin> dom (live m) \<and>
    (\<exists>np. live m' = (live m)(a \<mapsto> (Some type, np)) \<and> list_wf np \<and> items np = items self)"
  using chklist_copy_spec [OF assms(1,2) assms(3) [unfolded list_wf_iff] assms(4)] by (metis list_holds_items list_holds_wf)

theorem chklist_copy_copies_witness:
  "\<exists>m'. chklist_copy sane_mem (Some 9) int_params three_longs one_list = (Inr 9, m') \<and> list_mem_inv m' \<and>
     (\<exists>np. live m' 9 = Some (Some int_params, np) \<and> items np = items three_longs)"
proof -
  define m' where "m' = snd (chklist_copy sane_mem (Some 9) int_params three_longs one_list)"
  have inv: "list_mem_inv one_list" "unused one_list (Some 9)"
    by (simp_all add: one_list_def list_mem_inv_def free_objects_def unused_def)
  have c: "chklist_copy sane_mem (Some 9) int_params three_longs one_list = (Inr 9, m')"
    by (simp add: m'_def one_list_def chklist_copy_def chklist_slice_def checked_list_new_def chklist_alloc_def
        get_list_state_def pymem_new_def three_longs_def Let_def)
  from chklist_copy_copies [OF inv three_longs_wf c] c show ?thesis by (metis fun_upd_same)
qed

text \<open>
  \<open>append\<close> refuses \<open>None\<close> on a \<open>CheckedList[Optional[T]]\<close>, because \<open>_PyClassLoader_CheckOneArg\<close> does not look at
  \<open>gtp_optional\<close>, although the item check of \<open>extend\<close> and of assignment admits it.
\<close>

theorem chklist_append_refuses_none:
  assumes "gtp_optional (params ! 0)" "\<not> type_check env (py_none env) (gtp_type (params ! 0))"
  shows "(\<exists>msg. chklist_append_wrapper mem env params self (py_none env) = (Inl (StaticTypeError msg), self)) \<and>
    chklist_checkitem env params (py_none env)"
  using append_none(1) [OF assms] append_none(2) [OF assms] by blast

theorem chklist_append_refuses_none_witness:
  "(\<exists>msg. chklist_append_wrapper sane_mem plain_objects opt_int_params three_longs (OtherObj 0 0) =
       (Inl (StaticTypeError msg), three_longs)) \<and>
    chklist_checkitem plain_objects opt_int_params (OtherObj 0 0)"
  using chklist_append_refuses_none [of opt_int_params plain_objects sane_mem three_longs]
  by (simp add: opt_int_params_def plain_objects_def)

text \<open>
  C27. \<open>+=\<close> on a checked list checks nothing: a value of any type is stored.
\<close>

theorem chklist_inplace_concat_unchecked:
  assumes "list_wf self" "mem_sane mem" "length (items self) + 1 \<le> 2 ^ 60" "ob_item self \<noteq> None"
    and "list_inplace_concat mem (FastSequence (Inr [v])) (self, s) = Some (Inr (), (self', s'))"
  shows "items self' = items self @ [v]"
  using inplace_concat_stores [OF assms(1) [unfolded list_wf_iff] assms(2-5)] by (simp add: list_holds_items)

theorem chklist_inplace_concat_unchecked_witness:
  "\<exists>self' s'. list_inplace_concat sane_mem (FastSequence (Inr [UnicodeObj []])) (three_longs, ()) = Some (Inr (), (self', s')) \<and>
     items self' = [LongObj 3, LongObj 1, LongObj 2, UnicodeObj []] \<and> \<not> admits plain_objects (int_params ! 0) (UnicodeObj [])"
proof -
  obtain self' s' where a: "list_inplace_concat sane_mem (FastSequence (Inr [UnicodeObj []])) (three_longs, ()) = Some (Inr (), (self', s'))"
    by (simp add: list_inplace_concat_def list_extend_def three_longs_def list_resize_def)
  with chklist_inplace_concat_unchecked [OF three_longs_wf mem_sane_sane_mem _ _ a] show ?thesis
    by (simp add: three_longs_items admits_def plain_objects_def int_params_def) (simp add: three_longs_def)
qed

end
