(* ===== verification/Dict_Probe.thy ===== *)
theory Dict_Probe
  imports Cinderx_Prelude
begin

text \<open>
  The open addressing of \<open>checked_dict.c\<close>: every search through the index table visits the slots in
  the order \<open>i = (i * 5 + perturb + 1) & mask\<close> with \<open>perturb >>= 5\<close>. The C loops \<open>for (;;)\<close> have no bound;
  this theory shows that the sequence reaches every slot of a table whose size is a power of
  two, so that a search that stops at some slot ends.
\<close>

section \<open>Definitions\<close>

abbreviation (input) PERTURB_SHIFT :: nat where
  "PERTURB_SHIFT \<equiv> 5"

text \<open>
  The loop that the searches share: \<open>visit\<close> is the body, given the slot; it answers \<open>Some r\<close> to
  leave the loop. \<open>None\<close> as the value of the loop means that it does not end.
\<close>

partial_function (option) probe_loop ::
  "(nat \<Rightarrow> 'st \<Rightarrow> 'r option \<times> 'st) \<Rightarrow> size_t \<Rightarrow> size_t \<Rightarrow> size_t \<Rightarrow> 'st \<Rightarrow> ('r \<times> 'st) option" where
  "probe_loop visit msk perturb i st =
     (case visit (unat i) st of
        (r, st) \<Rightarrow>
          (case r of
             Some r \<Rightarrow> Some (r, st)
           | None \<Rightarrow>
               (let perturb = drop_bit PERTURB_SHIFT perturb;
                    i = (i * 5 + perturb + 1) AND msk
                in probe_loop visit msk perturb i st)))"

text \<open>A search starts at \<open>hash & mask\<close>.\<close>

definition probe :: "(nat \<Rightarrow> 'st \<Rightarrow> 'r option \<times> 'st) \<Rightarrow> size_t \<Rightarrow> size_t \<Rightarrow> 'st \<Rightarrow> ('r \<times> 'st) option" where
  "probe visit msk hash st = probe_loop visit msk hash (hash AND msk) st"

section \<open>The slots a search visits\<close>

fun probe_state :: "size_t \<Rightarrow> size_t \<Rightarrow> nat \<Rightarrow> size_t \<times> size_t" where
  "probe_state msk hash 0 = (hash, hash AND msk)"
| "probe_state msk hash (Suc n) =
     (case probe_state msk hash n of
        (perturb, i) \<Rightarrow> (let perturb = drop_bit PERTURB_SHIFT perturb in (perturb, (i * 5 + perturb + 1) AND msk)))"

definition slot :: "size_t \<Rightarrow> size_t \<Rightarrow> nat \<Rightarrow> nat" where
  "slot msk hash n = unat (snd (probe_state msk hash n))"

lemma unat_and_mask: "k \<le> 64 \<Longrightarrow> unat (w AND mask k :: size_t) = unat w mod 2 ^ k"
  by (simp add: unsigned_take_bit_eq min_absorb1 flip: take_bit_eq_mask take_bit_eq_mod)

lemma slot_less: "k \<le> 64 \<Longrightarrow> slot (mask k) hash n < 2 ^ k"
  by (cases n) (simp_all add: slot_def unat_and_mask Let_def split_beta)

lemma perturb_vanishes: "13 \<le> n \<Longrightarrow> fst (probe_state msk hash n) = 0"
proof -
  have "fst (probe_state msk hash n) = drop_bit (5 * n) hash" for n
    by (induction n) (auto simp: Let_def split_beta add.commute)
  moreover assume "13 \<le> n"
  then have "drop_bit (5 * n) hash = 0"
    by (intro bit_eqI) (auto simp: bit_simps dest: bit_imp_le_length)
  ultimately show ?thesis by simp
qed

lemma slot_Suc:
  assumes "k \<le> 64" "13 \<le> n"
  shows "slot (mask k) hash (Suc n) = (5 * slot (mask k) hash n + 1) mod 2 ^ k"
proof -
  obtain p i where pi: "probe_state (mask k) hash n = (p, i)" by force
  then have "drop_bit PERTURB_SHIFT p = 0"
    using perturb_vanishes [of "Suc n" "mask k" hash] assms(2) by (simp add: Let_def)
  then have "slot (mask k) hash (Suc n) = unat (i * 5 + 1) mod 2 ^ k"
    using pi assms(1) by (simp add: slot_def unat_and_mask)
  also have "unat (i * 5 + 1) = (5 * unat i + 1) mod 2 ^ 64"
    by (simp add: unat_word_ariths mod_simps mult.commute)
  also have "(5 * unat i + 1) mod 2 ^ 64 mod 2 ^ k = (5 * unat i + 1) mod 2 ^ k"
    using assms(1) by (intro mod_mod_cancel le_imp_power_dvd)
  finally show ?thesis using pi by (simp add: slot_def)
qed

section \<open>The full period of \<open>5 i + 1\<close> modulo a power of two\<close>

definition geom5 :: "nat \<Rightarrow> nat" where
  "geom5 n = (\<Sum>i<n. 5 ^ i)"

lemma geom5_Suc [simp]: "geom5 0 = 0" "geom5 (Suc n) = geom5 n + 5 ^ n"
  by (simp_all add: geom5_def)

lemma geom5_closed: "4 * geom5 n + 1 = 5 ^ n"
  by (induction n) simp_all

lemma geom5_double: "geom5 (2 * n) = geom5 n * (5 ^ n + 1)"
proof -
  have "4 * geom5 (2 * n) + 1 = (4 * geom5 n + 1) * (4 * geom5 n + 1)"
    unfolding geom5_closed by (simp add: mult_2 power_add)
  then have "4 * geom5 (2 * n) = 4 * (geom5 n * ((4 * geom5 n + 1) + 1))" by (simp add: algebra_simps)
  then show ?thesis unfolding geom5_closed by simp
qed

lemma even_geom5_iff: "even (geom5 n) \<longleftrightarrow> even n"
  by (induction n) auto

text \<open>The multiplicity of two: \<open>2 ^ k\<close> divides the sum only when it divides the number of terms.\<close>

lemma geom5_dvd: "2 ^ k dvd geom5 n \<Longrightarrow> 2 ^ k dvd n"
proof (induction k arbitrary: n)
  case (Suc k)
  then have "even (geom5 n)" by (metis dvd_trans dvd_power_same dvd_triv_left power_Suc)
  then obtain m where n: "n = 2 * m" by (auto simp: even_geom5_iff elim!: evenE)
  have half: "5 ^ m + 1 = 2 * (2 * geom5 m + 1)" by (simp flip: geom5_closed)
  have "2 * 2 ^ k dvd 2 * (geom5 m * (2 * geom5 m + 1))"
    using Suc.prems unfolding n geom5_double half by (simp only: power_Suc mult.left_commute)
  then have "2 ^ k dvd geom5 m * (2 * geom5 m + 1)" by (metis dvd_times_left_cancel_iff zero_neq_numeral)
  moreover have "coprime (2 ^ k) (2 * geom5 m + 1)" by simp
  ultimately have "2 ^ k dvd geom5 m" using coprime_dvd_mult_left_iff by blast
  then show ?case using Suc.IH by (simp add: n)
qed simp

definition lcg :: "nat \<Rightarrow> nat \<Rightarrow> nat" where
  "lcg k x = (5 * x + 1) mod 2 ^ k"

lemma lcg_mod: "lcg k x mod 2 ^ k = (5 * (x mod 2 ^ k) + 1) mod 2 ^ k"
  unfolding lcg_def by (metis mod_mod_trivial mod_add_left_eq mod_mult_right_eq)

lemma lcg_iterate: "(lcg k ^^ n) x mod 2 ^ k = (5 ^ n * x + geom5 n) mod 2 ^ k"
proof (induction n)
  case (Suc n)
  have "(lcg k ^^ Suc n) x mod 2 ^ k = (5 * ((lcg k ^^ n) x mod 2 ^ k) + 1) mod 2 ^ k"
    by (simp only: funpow.simps comp_apply lcg_mod)
  also have "\<dots> = (5 * (5 ^ n * x + geom5 n) + 1) mod 2 ^ k"
    unfolding Suc.IH by (metis mod_add_left_eq mod_mult_right_eq)
  also have "5 * (5 ^ n * x + geom5 n) + 1 = 5 ^ Suc n * x + geom5 (Suc n)"
    using geom5_closed [of n] by (simp add: algebra_simps)
  finally show ?case .
qed simp

lemma lcg_period:
  assumes "(lcg k ^^ d) y mod 2 ^ k = y mod 2 ^ k"
  shows "2 ^ k dvd d"
proof -
  have "(5 ^ d * y + geom5 d) mod 2 ^ k = y mod 2 ^ k" using assms by (simp add: lcg_iterate)
  moreover have "5 ^ d * y + geom5 d = y + geom5 d * (4 * y + 1)"
    by (simp add: algebra_simps flip: geom5_closed)
  ultimately have "(y + geom5 d * (4 * y + 1)) mod 2 ^ k = y mod 2 ^ k" by simp
  then have "2 ^ k dvd geom5 d * (4 * y + 1)"
    by (metis add_diff_cancel_left' le_add1 mod_eq_dvd_iff_nat)
  moreover have "coprime (2 ^ k) (4 * y + 1)" by simp
  ultimately have "2 ^ k dvd geom5 d" using coprime_dvd_mult_left_iff by blast
  then show ?thesis by (rule geom5_dvd)
qed

section \<open>Every slot is visited\<close>

lemma slot_iterate:
  assumes "k \<le> 64"
  shows "slot (mask k) hash (13 + n) = (lcg k ^^ n) (slot (mask k) hash 13)"
proof (induction n)
  case (Suc n)
  have "slot (mask k) hash (13 + Suc n) = slot (mask k) hash (Suc (13 + n))" by simp
  also have "\<dots> = lcg k (slot (mask k) hash (13 + n))" unfolding lcg_def by (rule slot_Suc [OF assms]) simp
  finally show ?case unfolding Suc.IH by simp
qed simp

lemma slots_distinct:
  assumes "k \<le> 64"
  shows "inj_on (\<lambda>n. slot (mask k) hash (13 + n)) {..<2 ^ k}"
proof -
  have ne: "slot (mask k) hash (13 + m) \<noteq> slot (mask k) hash (13 + n)" if "m < n" "n < 2 ^ k" for m n
  proof
    assume eq: "slot (mask k) hash (13 + m) = slot (mask k) hash (13 + n)"
    have "(lcg k ^^ ((n - m) + m)) (slot (mask k) hash 13) = (lcg k ^^ n) (slot (mask k) hash 13)" using that(1) by simp
    then have "(lcg k ^^ (n - m)) (slot (mask k) hash (13 + m)) = slot (mask k) hash (13 + n)"
      unfolding slot_iterate [OF assms] funpow_add by simp
    with eq have "(lcg k ^^ (n - m)) (slot (mask k) hash (13 + m)) mod 2 ^ k = slot (mask k) hash (13 + m) mod 2 ^ k" by simp
    from lcg_period [OF this] that show False by (auto dest!: dvd_imp_le)
  qed
  show ?thesis
  proof (rule inj_onI, rule ccontr)
    fix m n assume mn: "m \<in> {..<2 ^ k}" "n \<in> {..<2 ^ k}" "slot (mask k) hash (13 + m) = slot (mask k) hash (13 + n)" "m \<noteq> n"
    then consider "m < n" | "n < m" by linarith
    then show False using ne [of m n] ne [of n m] mn by cases auto
  qed
qed

theorem all_slots_visited:
  assumes "k \<le> 64" "j < 2 ^ k"
  shows "\<exists>n < 13 + 2 ^ k. slot (mask k) hash n = j"
proof -
  have "(\<lambda>n. slot (mask k) hash (13 + n)) ` {..<2 ^ k} = {..<2 ^ k}"
  proof (rule card_subset_eq)
    show "(\<lambda>n. slot (mask k) hash (13 + n)) ` {..<2 ^ k} \<subseteq> {..<2 ^ k}" using slot_less [OF assms(1)] by blast
    show "card ((\<lambda>n. slot (mask k) hash (13 + n)) ` {..<2 ^ k}) = card {..<2 ^ k :: nat}"
      by (rule card_image [OF slots_distinct [OF assms(1)]])
  qed simp
  then have "j \<in> (\<lambda>n. slot (mask k) hash (13 + n)) ` {..<2 ^ k}" using assms(2) by blast
  then obtain n where "n < 2 ^ k" "slot (mask k) hash (13 + n) = j" by blast
  then show ?thesis by (intro exI [of _ "13 + n"] conjI) (simp_all only: add_less_cancel_left)
qed

section \<open>Searches without side effects\<close>

text \<open>The first slot of the sequence at which the search stops.\<close>

definition first_stop :: "(nat \<Rightarrow> bool) \<Rightarrow> size_t \<Rightarrow> size_t \<Rightarrow> nat \<Rightarrow> bool" where
  "first_stop stop msk hash n \<longleftrightarrow> stop (slot msk hash n) \<and> (\<forall>m<n. \<not> stop (slot msk hash m))"

lemma first_stop_exists:
  assumes "k \<le> 64" "j < 2 ^ k" "stop j"
  obtains n where "first_stop stop (mask k) hash n"
proof -
  obtain m where "stop (slot (mask k) hash m)" using all_slots_visited [OF assms(1,2), of hash] assms(3) by blast
  then have "first_stop stop (mask k) hash (LEAST n. stop (slot (mask k) hash n))"
    by (auto simp: first_stop_def intro: LeastI dest: not_less_Least)
  then show thesis by (rule that)
qed

lemma first_stop_unique: "first_stop stop msk hash n \<Longrightarrow> first_stop stop msk hash m \<Longrightarrow> n = m"
  unfolding first_stop_def by (metis nat_neq_iff)

lemma probe_step:
  assumes "\<And>m. m < n \<Longrightarrow> visit (slot msk hash m) st = (None, st)"
  shows "probe visit msk hash st = (case probe_state msk hash n of (p, i) \<Rightarrow> probe_loop visit msk p i st)"
  using assms
proof (induction n)
  case 0
  then show ?case by (simp add: probe_def)
next
  case (Suc n)
  obtain p i where pi: "probe_state msk hash n = (p, i)" by force
  then have "visit (unat i) st = (None, st)" using Suc.prems [of n] by (simp add: slot_def)
  then have "probe_loop visit msk p i st =
      probe_loop visit msk (drop_bit PERTURB_SHIFT p) ((i * 5 + drop_bit PERTURB_SHIFT p + 1) AND msk) st"
    by (subst probe_loop.simps) (simp add: Let_def)
  then show ?case using Suc.IH Suc.prems pi by (simp add: Let_def)
qed

lemma probe_eq:
  assumes "first_stop stop msk hash n" "\<And>i. \<not> stop i \<Longrightarrow> visit i st = (None, st)"
    "visit (slot msk hash n) st = (Some r, st')"
  shows "probe visit msk hash st = Some (r, st')"
proof -
  obtain p i where pi: "probe_state msk hash n = (p, i)" by force
  have "probe visit msk hash st = probe_loop visit msk p i st"
    using probe_step [of n visit msk hash st] assms(1,2) pi by (simp add: first_stop_def)
  also have "\<dots> = Some (r, st')" using assms(3) pi by (subst probe_loop.simps) (simp add: slot_def)
  finally show ?thesis .
qed

end
