(* ===== verification/Dict_Object.thy ===== *)
theory Dict_Object
  imports Dict_Probe
begin

text \<open>
  The dictionary behind \<open>CheckedDict\<close>: the hash table of \<open>checked_dict.c\<close>, an index table that points
  into a dense array of entries in insertion order.

  A key is an object of type \<open>'k\<close>, compared by identity with \<open>=\<close>. What the interpreter does with keys is
  collected in \<open>key_env\<close>: the data of an exact string, \<open>PyObject_Hash\<close> and \<open>PyObject_RichCompareBool\<close> with
  \<open>Py_EQ\<close>. These calls thread the state \<open>(mp, s)\<close>, the dictionary and everything else, because they may
  change both. \<open>mem n\<close> answers whether the allocator grants \<open>n\<close> bytes for a keys object. Searches are
  partial functions; \<open>None\<close> stands for a call that does not return. Reference counts and the garbage
  collector's tracking are not modelled.
\<close>

section \<open>Definitions\<close>

subsection \<open>The hash table\<close>

abbreviation (input) DKIX_EMPTY :: int where "DKIX_EMPTY \<equiv> - 1"
abbreviation (input) DKIX_DUMMY :: int where "DKIX_DUMMY \<equiv> - 2"
abbreviation (input) PyDict_MINSIZE :: nat where "PyDict_MINSIZE \<equiv> 8"

datatype lookup_fn = Lookdict | LookdictUnicode | LookdictUnicodeNodummy | LookdictSplit

record ('k, 'v) entry =
  me_hash :: size_t
  me_key :: "'k option"
  me_value :: "'v option"

record ('k, 'v) keysobj =
  dk_indices :: "int list"
  dk_lookup :: lookup_fn
  dk_usable :: int
  dk_nentries :: nat
  dk_entries :: "('k, 'v) entry list"

text \<open>
  \<open>ma_values\<close> of a combined table is null; an empty dictionary shares the array \<open>empty_values\<close>; the
  third case is a split table, which the code handles but no operation creates. \<open>keys_id\<close> is the
  identity of the keys object: it changes whenever \<open>ma_keys\<close> is assigned.
\<close>

datatype 'v values_ptr = NoValues | EmptyValues | SplitValues "'v option list"

record ('k, 'v) dictobj =
  ma_used :: nat
  ma_keys :: "('k, 'v) keysobj"
  ma_values :: "'v values_ptr"
  keys_id :: nat

type_synonym ('k, 'v, 's) dstate = "('k, 'v) dictobj \<times> 's"

record ('k, 'v, 's) key_env =
  unicode_data :: "'k \<Rightarrow> (nat \<times> nat list) option"
  hash_of :: "'k \<Rightarrow> ('k, 'v, 's) dstate \<Rightarrow> size_t option \<times> ('k, 'v, 's) dstate"
  key_eq :: "'k \<Rightarrow> 'k \<Rightarrow> ('k, 'v, 's) dstate \<Rightarrow> bool option \<times> ('k, 'v, 's) dstate"

definition dk_size :: "('k, 'v) keysobj \<Rightarrow> nat" where
  "dk_size dk = length (dk_indices dk)"

definition dk_mask :: "('k, 'v) keysobj \<Rightarrow> size_t" where
  "dk_mask dk = of_nat (dk_size dk) - 1"

definition DK_IXSIZE :: "nat \<Rightarrow> nat" where
  "DK_IXSIZE sz = (if sz \<le> 0xff then 1 else if sz \<le> 0xffff then 2 else if sz \<le> 0xffffffff then 4 else 8)"

definition USABLE_FRACTION :: "nat \<Rightarrow> nat" where
  "USABLE_FRACTION n = (2 * n) div 3"

definition dictkeys_get_index :: "('k, 'v) keysobj \<Rightarrow> nat \<Rightarrow> int" where
  "dictkeys_get_index keys i = dk_indices keys ! i"

text \<open>An index is stored in 1, 2, 4 or 8 bytes, depending on the size of the table.\<close>

definition narrow_index :: "nat \<Rightarrow> int \<Rightarrow> int" where
  "narrow_index s ix =
     (if s \<le> 0xff then sint (of_int ix :: 8 word)
      else if s \<le> 0xffff then sint (of_int ix :: 16 word)
      else if s > 0xffffffff then sint (of_int ix :: 64 word)
      else sint (of_int ix :: 32 word))"

definition dictkeys_set_index :: "('k, 'v) keysobj \<Rightarrow> nat \<Rightarrow> int \<Rightarrow> ('k, 'v) keysobj" where
  "dictkeys_set_index keys i ix = keys\<lparr>dk_indices := (dk_indices keys)[i := narrow_index (dk_size keys) ix]\<rparr>"

text \<open>\<open>1LL << n\<close> is computed in 64 bits.\<close>

fun bit_length :: "nat \<Rightarrow> nat" where
  "bit_length n = (if n = 0 then 0 else Suc (bit_length (n div 2)))"

declare bit_length.simps [simp del]

definition calculate_keysize :: "nat \<Rightarrow> int" where
  "calculate_keysize minsize =
     (let minsize = (minsize OR PyDict_MINSIZE) - 1
      in sint (push_bit (bit_length (minsize OR (PyDict_MINSIZE - 1))) (1 :: size_t)))"

definition estimate_keysize :: "nat \<Rightarrow> int" where
  "estimate_keysize n = calculate_keysize ((n * 3 + 1) div 2)"

definition GROWTH_RATE :: "('k, 'v) dictobj \<Rightarrow> nat" where
  "GROWTH_RATE mp = ma_used mp * 3"

definition empty_keys_struct :: "('k, 'v) keysobj" where
  "empty_keys_struct =
     \<lparr>dk_indices = [DKIX_EMPTY], dk_lookup = LookdictSplit, dk_usable = 0, dk_nentries = 0, dk_entries = []\<rparr>"

text \<open>The shared empty table is the only one of size 1.\<close>

definition is_empty_keys :: "('k, 'v) keysobj \<Rightarrow> bool" where
  "is_empty_keys dk \<longleftrightarrow> dk_size dk = 1"

definition empty_entry :: "('k, 'v) entry" where
  "empty_entry = \<lparr>me_hash = 0, me_key = None, me_value = None\<rparr>"

text \<open>\<open>mem\<close> covers both the allocator and the free list of small keys objects.\<close>

definition new_keys_object :: "(nat \<Rightarrow> bool) \<Rightarrow> nat \<Rightarrow> ('k, 'v) keysobj option" where
  "new_keys_object mem sz =
     (let usable = USABLE_FRACTION sz; es = DK_IXSIZE sz in
      if mem (40 + es * sz + 24 * usable)
      then Some \<lparr>dk_indices = replicate sz DKIX_EMPTY, dk_lookup = LookdictUnicodeNodummy,
             dk_usable = int usable, dk_nentries = 0, dk_entries = replicate usable empty_entry\<rparr>
      else None)"

definition set_keys :: "('k, 'v) keysobj \<Rightarrow> ('k, 'v) dictobj \<Rightarrow> ('k, 'v) dictobj" where
  "set_keys keys mp = mp\<lparr>ma_keys := keys, keys_id := keys_id mp + 1\<rparr>"

definition is_pow2 :: "nat \<Rightarrow> bool" where
  "is_pow2 x \<longleftrightarrow> x AND (x - 1) = 0"

text \<open>\<open>Ci_CheckedDict_CheckConsistency\<close>; the content is checked only when \<open>check_content\<close> is set.\<close>

definition entry_consistent :: "('k, 'v) entry \<Rightarrow> bool" where
  "entry_consistent e \<longleftrightarrow> (case me_key e of None \<Rightarrow> True | Some _ \<Rightarrow> me_hash e \<noteq> - 1 \<and> me_value e \<noteq> None)"

definition check_consistency :: "('k, 'v) dictobj \<Rightarrow> bool \<Rightarrow> bool" where
  "check_consistency mp check_content \<longleftrightarrow>
     (let keys = ma_keys mp; usable = USABLE_FRACTION (dk_size keys) in
      ma_used mp \<le> usable \<and> is_pow2 (dk_size keys) \<and>
      0 \<le> dk_usable keys \<and> dk_usable keys \<le> int usable \<and> dk_nentries keys \<le> usable \<and>
      dk_usable keys + int (dk_nentries keys) \<le> int usable \<and>
      (check_content \<longrightarrow>
         (\<forall>i < dk_size keys. DKIX_DUMMY \<le> dictkeys_get_index keys i \<and> dictkeys_get_index keys i \<le> int usable) \<and>
         (\<forall>i < usable. entry_consistent (dk_entries keys ! i))))"

subsection \<open>Lookup\<close>

text \<open>
  The index of a key and its value; \<open>Inl\<close> stands for \<open>DKIX_ERROR\<close>, with the pending exception, and for
  a failed assertion.
\<close>

datatype 'v look = LookAt int "'v option" | LookFail py_error | LookRestart

definition lookdict_visit ::
  "('k, 'v, 's) key_env \<Rightarrow> 'k \<Rightarrow> size_t \<Rightarrow> nat \<Rightarrow> nat \<Rightarrow> ('k, 'v, 's) dstate \<Rightarrow> 'v look option \<times> ('k, 'v, 's) dstate" where
  "lookdict_visit env key hash kid i st =
     (let dk = ma_keys (fst st); ix = dictkeys_get_index dk i in
      if ix = DKIX_EMPTY then (Some (LookAt ix None), st)
      else if ix \<ge> 0 then
        (let ep = dk_entries dk ! nat ix in
         if me_key ep = Some key then (Some (LookAt ix (me_value ep)), st)
         else if me_hash ep = hash then
           (case key_eq env (the (me_key ep)) key st of
              (None, st) \<Rightarrow> (Some (LookFail Propagated), st)
            | (Some cmp, st) \<Rightarrow>
                if keys_id (fst st) = kid \<and> me_key (dk_entries (ma_keys (fst st)) ! nat ix) = me_key ep
                then (if cmp then (Some (LookAt ix (me_value (dk_entries (ma_keys (fst st)) ! nat ix))), st) else (None, st))
                else (Some LookRestart, st))
         else (None, st))
      else (None, st))"

partial_function (option) lookdict ::
  "('k, 'v, 's) key_env \<Rightarrow> 'k \<Rightarrow> size_t \<Rightarrow> ('k, 'v, 's) dstate \<Rightarrow> ((int \<times> 'v option) res \<times> ('k, 'v, 's) dstate) option" where
  "lookdict env key hash st =
     Option.bind (probe (lookdict_visit env key hash (keys_id (fst st))) (dk_mask (ma_keys (fst st))) hash st)
       (\<lambda>(r, st).
          case r of
            LookAt ix v \<Rightarrow> Some (Inr (ix, v), st)
          | LookFail e \<Rightarrow> Some (Inl e, st)
          | LookRestart \<Rightarrow> lookdict env key hash st)"

definition unicode_eq :: "nat \<times> nat list \<Rightarrow> nat \<times> nat list \<Rightarrow> bool" where
  "unicode_eq a b =
     (if length (snd a) \<noteq> length (snd b) then False
      else if fst a \<noteq> fst b then False
      else snd a = snd b)"

text \<open>\<open>ep->me_key == key || (ep->me_hash == hash && unicode_eq(ep->me_key, key))\<close>\<close>

definition unicode_match :: "('k, 'v, 's) key_env \<Rightarrow> ('k, 'v) entry \<Rightarrow> 'k \<Rightarrow> size_t \<Rightarrow> bool" where
  "unicode_match env ep key hash \<longleftrightarrow>
     me_key ep = Some key \<or>
     me_hash ep = hash \<and> unicode_eq (the (unicode_data env (the (me_key ep)))) (the (unicode_data env key))"

definition lookdict_unicode_visit ::
  "('k, 'v, 's) key_env \<Rightarrow> ('k, 'v) keysobj \<Rightarrow> 'k \<Rightarrow> size_t \<Rightarrow> nat \<Rightarrow> ('k, 'v, 's) dstate \<Rightarrow>
     'v look option \<times> ('k, 'v, 's) dstate" where
  "lookdict_unicode_visit env dk key hash i st =
     (let ix = dictkeys_get_index dk i in
      if ix = DKIX_EMPTY then (Some (LookAt DKIX_EMPTY None), st)
      else if ix \<ge> 0 \<and> unicode_match env (dk_entries dk ! nat ix) key hash
      then (Some (LookAt ix (me_value (dk_entries dk ! nat ix))), st)
      else (None, st))"

text \<open>Without a test for \<open>ix >= 0\<close>: a dummy slot fails the assertion.\<close>

definition lookdict_nodummy_visit ::
  "('k, 'v, 's) key_env \<Rightarrow> ('k, 'v) keysobj \<Rightarrow> 'k \<Rightarrow> size_t \<Rightarrow> (nat \<Rightarrow> 'v option) \<Rightarrow> nat \<Rightarrow> ('k, 'v, 's) dstate \<Rightarrow>
     'v look option \<times> ('k, 'v, 's) dstate" where
  "lookdict_nodummy_visit env dk key hash value_at i st =
     (let ix = dictkeys_get_index dk i in
      if ix = DKIX_DUMMY then (Some (LookFail AssertionFailure), st)
      else if ix = DKIX_EMPTY then (Some (LookAt DKIX_EMPTY None), st)
      else if unicode_match env (dk_entries dk ! nat ix) key hash
      then (Some (LookAt ix (value_at (nat ix))), st)
      else (None, st))"

definition look_result ::
  "('v look \<times> ('k, 'v, 's) dstate) option \<Rightarrow> ((int \<times> 'v option) res \<times> ('k, 'v, 's) dstate) option" where
  "look_result r =
     map_option (\<lambda>(l, st). (case l of LookAt ix v \<Rightarrow> Inr (ix, v) | LookFail e \<Rightarrow> Inl e | LookRestart \<Rightarrow> Inl AssertionFailure, st)) r"

definition lookdict_unicode ::
  "('k, 'v, 's) key_env \<Rightarrow> 'k \<Rightarrow> size_t \<Rightarrow> ('k, 'v, 's) dstate \<Rightarrow> ((int \<times> 'v option) res \<times> ('k, 'v, 's) dstate) option" where
  "lookdict_unicode env key hash st =
     (if unicode_data env key = None then lookdict env key hash st
      else
        (let dk = ma_keys (fst st)
         in look_result (probe (lookdict_unicode_visit env dk key hash) (dk_mask dk) hash st)))"

definition lookdict_unicode_nodummy ::
  "('k, 'v, 's) key_env \<Rightarrow> 'k \<Rightarrow> size_t \<Rightarrow> ('k, 'v, 's) dstate \<Rightarrow> ((int \<times> 'v option) res \<times> ('k, 'v, 's) dstate) option" where
  "lookdict_unicode_nodummy env key hash st =
     (if unicode_data env key = None then lookdict env key hash st
      else
        (let dk = ma_keys (fst st)
         in look_result
              (probe (lookdict_nodummy_visit env dk key hash (\<lambda>ix. me_value (dk_entries dk ! ix))) (dk_mask dk) hash st)))"

definition value_slot :: "'v values_ptr \<Rightarrow> nat \<Rightarrow> 'v option" where
  "value_slot vs ix = (case vs of SplitValues xs \<Rightarrow> xs ! ix | _ \<Rightarrow> None)"

definition lookdict_split ::
  "('k, 'v, 's) key_env \<Rightarrow> 'k \<Rightarrow> size_t \<Rightarrow> ('k, 'v, 's) dstate \<Rightarrow> ((int \<times> 'v option) res \<times> ('k, 'v, 's) dstate) option" where
  "lookdict_split env key hash st =
     (if unicode_data env key = None then
        map_option (\<lambda>(r, st).
            (case r of
               Inl e \<Rightarrow> Inl e
             | Inr (ix, v) \<Rightarrow> Inr (ix, if ix \<ge> 0 then value_slot (ma_values (fst st)) (nat ix) else v), st))
          (lookdict env key hash st)
      else
        (let dk = ma_keys (fst st)
         in look_result
              (probe (lookdict_nodummy_visit env dk key hash (value_slot (ma_values (fst st)))) (dk_mask dk) hash st)))"

text \<open>\<open>mp->ma_keys->dk_lookup(mp, key, hash, &value, ...)\<close>\<close>

definition dk_lookup_call ::
  "('k, 'v, 's) key_env \<Rightarrow> 'k \<Rightarrow> size_t \<Rightarrow> ('k, 'v, 's) dstate \<Rightarrow> ((int \<times> 'v option) res \<times> ('k, 'v, 's) dstate) option" where
  "dk_lookup_call env key hash st =
     (case dk_lookup (ma_keys (fst st)) of
        Lookdict \<Rightarrow> lookdict env key hash st
      | LookdictUnicode \<Rightarrow> lookdict_unicode env key hash st
      | LookdictUnicodeNodummy \<Rightarrow> lookdict_unicode_nodummy env key hash st
      | LookdictSplit \<Rightarrow> lookdict_split env key hash st)"

text \<open>The slot of the entry with a given index, and the first slot that holds no index.\<close>

definition lookdict_index :: "('k, 'v) keysobj \<Rightarrow> size_t \<Rightarrow> int \<Rightarrow> int option" where
  "lookdict_index k hash index =
     map_option fst
       (probe (\<lambda>i st. (let ix = dictkeys_get_index k i in
                  if ix = index then (Some (int i), st)
                  else if ix = DKIX_EMPTY then (Some DKIX_EMPTY, st)
                  else (None, st))) (dk_mask k) hash ())"

definition find_empty_slot :: "('k, 'v) keysobj \<Rightarrow> size_t \<Rightarrow> nat option" where
  "find_empty_slot keys hash =
     map_option fst
       (probe (\<lambda>i st. if dictkeys_get_index keys i \<ge> 0 then (None, st) else (Some i, st)) (dk_mask keys) hash ())"

subsection \<open>Insertion and resizing\<close>

text \<open>The entries \<open>ep\<close>, the first of which has index \<open>ix\<close>, are entered into the table of indices.\<close>

fun build_indices :: "('k, 'v) keysobj \<Rightarrow> ('k, 'v) entry list \<Rightarrow> nat \<Rightarrow> ('k, 'v) keysobj option" where
  "build_indices keys [] ix = Some keys"
| "build_indices keys (ep # eps) ix =
     (case probe (\<lambda>i st. if dictkeys_get_index keys i \<noteq> DKIX_EMPTY then (None, st) else (Some i, st))
             (dk_mask keys) (me_hash ep) () of
        None \<Rightarrow> None
      | Some (i, _) \<Rightarrow> build_indices (dictkeys_set_index keys i (int ix)) eps (Suc ix))"

text \<open>The live entries of a table, compacted: the values of a split table move into the entries.\<close>

definition live_entry :: "('k, 'v) entry \<Rightarrow> bool" where
  "live_entry e \<longleftrightarrow> me_value e \<noteq> None"

definition resize_entries :: "('k, 'v) dictobj \<Rightarrow> ('k, 'v) entry list" where
  "resize_entries mp =
     (let old = ma_keys mp; n = ma_used mp in
      case ma_values mp of
        NoValues \<Rightarrow>
          if dk_nentries old = n then take n (dk_entries old)
          else take n (filter live_entry (dk_entries old))
      | EmptyValues \<Rightarrow> []
      | SplitValues vs \<Rightarrow> map (\<lambda>i. (dk_entries old ! i)\<lparr>me_value := vs ! i\<rparr>) [0..<n])"

definition dictresize :: "(nat \<Rightarrow> bool) \<Rightarrow> ('k, 'v) dictobj \<Rightarrow> int \<Rightarrow> (unit res \<times> ('k, 'v) dictobj) option" where
  "dictresize mem mp newsize =
     (if newsize \<le> 0 then Some (Inl MemoryError, mp)
      else
        (case new_keys_object mem (nat newsize) of
           None \<Rightarrow> Some (Inl MemoryError, mp)
         | Some keys \<Rightarrow>
             if dk_usable keys < int (ma_used mp) then Some (Inl AssertionFailure, mp)
             else
               (let keys = (if dk_lookup (ma_keys mp) = Lookdict then keys\<lparr>dk_lookup := Lookdict\<rparr> else keys);
                    numentries = ma_used mp;
                    newentries = resize_entries mp;
                    keys = keys\<lparr>dk_entries := newentries @ drop (length newentries) (dk_entries keys)\<rparr>
                in case build_indices keys newentries 0 of
                     None \<Rightarrow> None
                   | Some keys \<Rightarrow>
                       (let keys = keys\<lparr>dk_usable := dk_usable keys - int numentries, dk_nentries := numentries\<rparr>
                        in Some (Inr (), (set_keys keys mp)\<lparr>ma_values := NoValues\<rparr>)))))"

definition insertion_resize :: "(nat \<Rightarrow> bool) \<Rightarrow> ('k, 'v) dictobj \<Rightarrow> (unit res \<times> ('k, 'v) dictobj) option" where
  "insertion_resize mem mp = dictresize mem mp (calculate_keysize (GROWTH_RATE mp))"

text \<open>The new entry goes behind the others; its index goes to the first free slot of its search.\<close>

definition insert_new ::
  "('k, 'v, 's) key_env \<Rightarrow> 'k \<Rightarrow> size_t \<Rightarrow> 'v \<Rightarrow> ('k, 'v) dictobj \<Rightarrow> ('k, 'v) dictobj option" where
  "insert_new env key hash value mp =
     (let keys = ma_keys mp;
          keys = (if unicode_data env key = None \<and> dk_lookup keys \<noteq> Lookdict then keys\<lparr>dk_lookup := Lookdict\<rparr> else keys)
      in case find_empty_slot keys hash of
           None \<Rightarrow> None
         | Some hashpos \<Rightarrow>
             (let n = dk_nentries keys;
                  keys = dictkeys_set_index keys hashpos (int n);
                  ep = \<lparr>me_hash = hash, me_key = Some key,
                        me_value = (case ma_values mp of NoValues \<Rightarrow> Some value | _ \<Rightarrow> me_value (dk_entries keys ! n))\<rparr>;
                  vs = (case ma_values mp of SplitValues xs \<Rightarrow> SplitValues (xs[n := Some value]) | v \<Rightarrow> v);
                  keys = keys\<lparr>dk_entries := (dk_entries keys)[n := ep],
                              dk_usable := dk_usable keys - 1, dk_nentries := n + 1\<rparr>
              in Some (mp\<lparr>ma_keys := keys, ma_values := vs, ma_used := ma_used mp + 1\<rparr>)))"

text \<open>Room for one more entry, by a resize when there is none.\<close>

definition ensure_usable :: "(nat \<Rightarrow> bool) \<Rightarrow> ('k, 'v) dictobj \<Rightarrow> (unit res \<times> ('k, 'v) dictobj) option" where
  "ensure_usable mem mp = (if dk_usable (ma_keys mp) \<le> 0 then insertion_resize mem mp else Some (Inr (), mp))"

definition make_combined ::
  "(nat \<Rightarrow> bool) \<Rightarrow> ('k, 'v, 's) key_env \<Rightarrow> 'k \<Rightarrow> ('k, 'v) dictobj \<Rightarrow> (unit res \<times> ('k, 'v) dictobj) option" where
  "make_combined mem env key mp =
     (if ma_values mp \<noteq> NoValues \<and> unicode_data env key = None then insertion_resize mem mp else Some (Inr (), mp))"

definition insertdict ::
  "(nat \<Rightarrow> bool) \<Rightarrow> ('k, 'v, 's) key_env \<Rightarrow> 'k \<Rightarrow> size_t \<Rightarrow> 'v \<Rightarrow> ('k, 'v, 's) dstate \<Rightarrow>
     (unit res \<times> ('k, 'v, 's) dstate) option" where
  "insertdict mem env key hash value st =
     (case make_combined mem env key (fst st) of
        None \<Rightarrow> None
      | Some (Inl e, mp) \<Rightarrow> Some (Inl e, (mp, snd st))
      | Some (Inr _, mp) \<Rightarrow>
          (case dk_lookup_call env key hash (mp, snd st) of
             None \<Rightarrow> None
           | Some (Inl e, st) \<Rightarrow> Some (Inl e, st)
           | Some (Inr (ix, old_value), (mp, s)) \<Rightarrow>
               if ix = DKIX_EMPTY then
                 (case ensure_usable mem mp of
                    None \<Rightarrow> None
                  | Some (Inl e, mp) \<Rightarrow> Some (Inl e, (mp, s))
                  | Some (Inr _, mp) \<Rightarrow>
                      (case insert_new env key hash value mp of
                         None \<Rightarrow> None
                       | Some mp \<Rightarrow> Some (Inr (), (mp, s))))
               else
                 (let keys = ma_keys mp;
                      ep = (dk_entries keys ! nat ix)\<lparr>me_value := Some value\<rparr>
                  in Some (Inr (), (mp\<lparr>ma_keys := keys\<lparr>dk_entries := (dk_entries keys)[nat ix := ep]\<rparr>\<rparr>, s)))))"

definition insert_to_emptydict ::
  "(nat \<Rightarrow> bool) \<Rightarrow> ('k, 'v, 's) key_env \<Rightarrow> 'k \<Rightarrow> size_t \<Rightarrow> 'v \<Rightarrow> ('k, 'v) dictobj \<Rightarrow> unit res \<times> ('k, 'v) dictobj" where
  "insert_to_emptydict mem env key hash value mp =
     (case new_keys_object mem PyDict_MINSIZE of
        None \<Rightarrow> (Inl MemoryError, mp)
      | Some keys \<Rightarrow>
          (let keys = (if unicode_data env key = None then keys\<lparr>dk_lookup := Lookdict\<rparr> else keys);
               hashpos = unat (hash AND of_nat (PyDict_MINSIZE - 1));
               keys = dictkeys_set_index keys hashpos 0;
               ep = \<lparr>me_hash = hash, me_key = Some key, me_value = Some value\<rparr>;
               keys = keys\<lparr>dk_entries := (dk_entries keys)[0 := ep],
                           dk_usable := dk_usable keys - 1, dk_nentries := dk_nentries keys + 1\<rparr>
           in (Inr (), (set_keys keys mp)\<lparr>ma_values := NoValues, ma_used := ma_used mp + 1\<rparr>)))"

text \<open>\<open>ma_keys == Py_EMPTY_KEYS ? insert_to_emptydict : insertdict\<close>, with a hash that is known.\<close>

definition insert_known_hash ::
  "(nat \<Rightarrow> bool) \<Rightarrow> ('k, 'v, 's) key_env \<Rightarrow> 'k \<Rightarrow> size_t \<Rightarrow> 'v \<Rightarrow> ('k, 'v, 's) dstate \<Rightarrow>
     (unit res \<times> ('k, 'v, 's) dstate) option" where
  "insert_known_hash mem env key hash value st =
     (if is_empty_keys (ma_keys (fst st))
      then (case insert_to_emptydict mem env key hash value (fst st) of (r, mp) \<Rightarrow> Some (r, (mp, snd st)))
      else insertdict mem env key hash value st)"

definition CheckedDict_SetItem ::
  "(nat \<Rightarrow> bool) \<Rightarrow> ('k, 'v, 's) key_env \<Rightarrow> 'k \<Rightarrow> 'v \<Rightarrow> ('k, 'v, 's) dstate \<Rightarrow> (unit res \<times> ('k, 'v, 's) dstate) option" where
  "CheckedDict_SetItem mem env key value st =
     (case hash_of env key st of
        (None, st) \<Rightarrow> Some (Inl Propagated, st)
      | (Some hash, st) \<Rightarrow> insert_known_hash mem env key hash value st)"

subsection \<open>Clearing and iterating\<close>

definition CheckedDict_Clear :: "('k, 'v) dictobj \<Rightarrow> ('k, 'v) dictobj" where
  "CheckedDict_Clear mp =
     (if ma_values mp = EmptyValues then mp
      else (set_keys empty_keys_struct mp)\<lparr>ma_values := EmptyValues, ma_used := 0\<rparr>)"

text \<open>The next live entry from position \<open>i\<close> on: the new position and the entry.\<close>

function skip_dead :: "('k, 'v) entry list \<Rightarrow> nat \<Rightarrow> nat \<Rightarrow> nat" where
  "skip_dead es i n = (if i < n \<and> me_value (es ! i) = None then skip_dead es (Suc i) n else i)"
  by pat_completeness auto
termination
  by (relation "measure (\<lambda>(es, i, n). n - i)") auto

declare skip_dead.simps [simp del]

definition CheckedDict_Next ::
  "('k, 'v) dictobj \<Rightarrow> int \<Rightarrow> (int \<times> 'k \<times> 'v \<times> size_t) option" where
  "CheckedDict_Next mp pos =
     (let dk = ma_keys mp in
      case ma_values mp of
        NoValues \<Rightarrow>
          if pos < 0 \<or> pos \<ge> int (dk_nentries dk) then None
          else
            (let i = skip_dead (dk_entries dk) (nat pos) (dk_nentries dk); ep = dk_entries dk ! i in
             if i \<ge> dk_nentries dk then None
             else Some (int i + 1, the (me_key ep), the (me_value ep), me_hash ep))
      | vs \<Rightarrow>
          if pos < 0 \<or> pos \<ge> int (ma_used mp) then None
          else
            (let ep = dk_entries dk ! nat pos
             in Some (pos + 1, the (me_key ep), the (value_slot vs (nat pos)), me_hash ep)))"

subsection \<open>Deletion\<close>

definition ensure_allows_deletions :: "('k, 'v) keysobj \<Rightarrow> ('k, 'v) keysobj" where
  "ensure_allows_deletions keys =
     (if dk_lookup keys = LookdictUnicodeNodummy then keys\<lparr>dk_lookup := LookdictUnicode\<rparr> else keys)"

text \<open>Removing the entry \<open>ix\<close> whose slot is found again by its hash.\<close>

definition remove_entry :: "size_t \<Rightarrow> int \<Rightarrow> ('k, 'v) dictobj \<Rightarrow> (unit res \<times> ('k, 'v) dictobj) option" where
  "remove_entry hash ix mp =
     (case lookdict_index (ma_keys mp) hash ix of
        None \<Rightarrow> None
      | Some hashpos \<Rightarrow>
          if hashpos < 0 then Some (Inl AssertionFailure, mp)
          else
            (let keys = dictkeys_set_index (ma_keys mp) (nat hashpos) DKIX_DUMMY;
                 keys = ensure_allows_deletions keys;
                 ep = (dk_entries keys ! nat ix)\<lparr>me_key := None, me_value := None\<rparr>
             in Some (Inr (), mp\<lparr>ma_used := ma_used mp - 1,
                         ma_keys := keys\<lparr>dk_entries := (dk_entries keys)[nat ix := ep]\<rparr>\<rparr>)))"

definition missing_key :: "'v option \<Rightarrow> 'v res" where
  "missing_key deflt = (case deflt of Some v \<Rightarrow> Inr v | None \<Rightarrow> Inl KeyError)"

definition Pop_KnownHash ::
  "('k, 'v, 's) key_env \<Rightarrow> 'k \<Rightarrow> size_t \<Rightarrow> 'v option \<Rightarrow> ('k, 'v, 's) dstate \<Rightarrow> ('v res \<times> ('k, 'v, 's) dstate) option" where
  "Pop_KnownHash env key hash deflt st =
     (if ma_used (fst st) = 0 then Some (missing_key deflt, st)
      else
        (case dk_lookup_call env key hash st of
           None \<Rightarrow> None
         | Some (Inl e, st) \<Rightarrow> Some (Inl e, st)
         | Some (Inr (ix, old_value), (mp, s)) \<Rightarrow>
             if ix = DKIX_EMPTY \<or> old_value = None then Some (missing_key deflt, (mp, s))
             else
               (case remove_entry hash ix mp of
                  None \<Rightarrow> None
                | Some (Inl e, mp) \<Rightarrow> Some (Inl e, (mp, s))
                | Some (Inr _, mp) \<Rightarrow> Some (Inr (the old_value), (mp, s)))))"

definition CheckedDict_Pop ::
  "('k, 'v, 's) key_env \<Rightarrow> 'k \<Rightarrow> 'v option \<Rightarrow> ('k, 'v, 's) dstate \<Rightarrow> ('v res \<times> ('k, 'v, 's) dstate) option" where
  "CheckedDict_Pop env key deflt st =
     (if ma_used (fst st) = 0 then Some (missing_key deflt, st)
      else case hash_of env key st of
          (None, st) \<Rightarrow> Some (Inl Propagated, st)
        | (Some hash, st) \<Rightarrow> Pop_KnownHash env key hash deflt st)"

text \<open>The last live entry below \<open>n\<close>.\<close>

fun last_live :: "('k, 'v) entry list \<Rightarrow> nat \<Rightarrow> nat option" where
  "last_live es 0 = None"
| "last_live es (Suc i) = (if me_value (es ! i) = None then last_live es i else Some i)"

definition dict_popitem_impl ::
  "(nat \<Rightarrow> bool) \<Rightarrow> bool \<Rightarrow> ('k, 'v) dictobj \<Rightarrow> (('k \<times> 'v) res \<times> ('k, 'v) dictobj) option" where
  "dict_popitem_impl mem tuple_ok self =
     (if \<not> tuple_ok then Some (Inl MemoryError, self)
      else if ma_used self = 0 then Some (Inl KeyError, self)
      else
        (case (if dk_lookup (ma_keys self) = LookdictSplit
               then dictresize mem self (int (dk_size (ma_keys self))) else Some (Inr (), self)) of
           None \<Rightarrow> None
         | Some (Inl e, self) \<Rightarrow> Some (Inl e, self)
         | Some (Inr _, self) \<Rightarrow>
             (let keys = ensure_allows_deletions (ma_keys self) in
              case last_live (dk_entries keys) (dk_nentries keys) of
                None \<Rightarrow> Some (Inl AssertionFailure, self)
              | Some i \<Rightarrow>
                  (let ep = dk_entries keys ! i in
                   case lookdict_index keys (me_hash ep) (int i) of
                     None \<Rightarrow> None
                   | Some j \<Rightarrow>
                       if j < 0 then Some (Inl AssertionFailure, self)
                       else
                         (let keys = dictkeys_set_index keys (nat j) DKIX_DUMMY;
                              keys = keys\<lparr>dk_entries := (dk_entries keys)[i := ep\<lparr>me_key := None, me_value := None\<rparr>],
                                          dk_nentries := i\<rparr>
                          in Some (Inr (the (me_key ep), the (me_value ep)),
                                   self\<lparr>ma_keys := keys, ma_used := ma_used self - 1\<rparr>))))))"

subsection \<open>Queries\<close>

definition dict_length :: "('k, 'v) dictobj \<Rightarrow> nat" where
  "dict_length mp = ma_used mp"

text \<open>Looking up a key: the value, or \<open>Inr None\<close> when the key is missing.\<close>

definition lookup_value ::
  "('k, 'v, 's) key_env \<Rightarrow> 'k \<Rightarrow> ('k, 'v, 's) dstate \<Rightarrow> ('v option res \<times> ('k, 'v, 's) dstate) option" where
  "lookup_value env key st =
     (case hash_of env key st of
        (None, st) \<Rightarrow> Some (Inl Propagated, st)
      | (Some hash, st) \<Rightarrow>
          (case dk_lookup_call env key hash st of
             None \<Rightarrow> None
           | Some (Inl e, st) \<Rightarrow> Some (Inl e, st)
           | Some (Inr (ix, value), st) \<Rightarrow> Some (Inr (if ix = DKIX_EMPTY then None else value), st)))"

definition dict_subscript ::
  "('k, 'v, 's) key_env \<Rightarrow> 'k \<Rightarrow> ('k, 'v, 's) dstate \<Rightarrow> ('v res \<times> ('k, 'v, 's) dstate) option" where
  "dict_subscript env key st =
     map_option (\<lambda>(r, st).
       (case r of Inl e \<Rightarrow> Inl e | Inr None \<Rightarrow> Inl KeyError | Inr (Some v) \<Rightarrow> Inr v, st)) (lookup_value env key st)"

definition dict_contains ::
  "('k, 'v, 's) key_env \<Rightarrow> 'k \<Rightarrow> ('k, 'v, 's) dstate \<Rightarrow> (bool res \<times> ('k, 'v, 's) dstate) option" where
  "dict_contains env key st =
     map_option (\<lambda>(r, st). (case r of Inl e \<Rightarrow> Inl e | Inr v \<Rightarrow> Inr (v \<noteq> None), st)) (lookup_value env key st)"

definition Contains_KnownHash ::
  "('k, 'v, 's) key_env \<Rightarrow> 'k \<Rightarrow> size_t \<Rightarrow> ('k, 'v, 's) dstate \<Rightarrow> (bool res \<times> ('k, 'v, 's) dstate) option" where
  "Contains_KnownHash env key hash st =
     (case dk_lookup_call env key hash st of
        None \<Rightarrow> None
      | Some (Inl e, st) \<Rightarrow> Some (Inl e, st)
      | Some (Inr (ix, value), st) \<Rightarrow> Some (Inr (ix \<noteq> DKIX_EMPTY \<and> value \<noteq> None), st))"

definition dict_get_impl ::
  "('k, 'v, 's) key_env \<Rightarrow> 'k \<Rightarrow> 'v \<Rightarrow> ('k, 'v, 's) dstate \<Rightarrow> ('v res \<times> ('k, 'v, 's) dstate) option" where
  "dict_get_impl env key default_value st =
     map_option (\<lambda>(r, st).
       (case r of Inl e \<Rightarrow> Inl e | Inr None \<Rightarrow> Inr default_value | Inr (Some v) \<Rightarrow> Inr v, st)) (lookup_value env key st)"

text \<open>Insert-or-get; the value found is returned, or the default that was stored.\<close>

definition CheckedDict_SetDefault ::
  "(nat \<Rightarrow> bool) \<Rightarrow> ('k, 'v, 's) key_env \<Rightarrow> 'k \<Rightarrow> 'v \<Rightarrow> ('k, 'v, 's) dstate \<Rightarrow> ('v res \<times> ('k, 'v, 's) dstate) option" where
  "CheckedDict_SetDefault mem env key defaultobj st =
     (case hash_of env key st of
        (None, st) \<Rightarrow> Some (Inl Propagated, st)
      | (Some hash, (mp, s)) \<Rightarrow>
          if is_empty_keys (ma_keys mp) then
            (case insert_to_emptydict mem env key hash defaultobj mp of
               (Inl e, mp) \<Rightarrow> Some (Inl e, (mp, s))
             | (Inr _, mp) \<Rightarrow> Some (Inr defaultobj, (mp, s)))
          else
            (case make_combined mem env key mp of
               None \<Rightarrow> None
             | Some (Inl e, mp) \<Rightarrow> Some (Inl e, (mp, s))
             | Some (Inr _, mp) \<Rightarrow>
                 (case dk_lookup_call env key hash (mp, s) of
                    None \<Rightarrow> None
                  | Some (Inl e, st) \<Rightarrow> Some (Inl e, st)
                  | Some (Inr (ix, value), (mp, s)) \<Rightarrow>
                      if ix = DKIX_EMPTY then
                        (case ensure_usable mem mp of
                           None \<Rightarrow> None
                         | Some (Inl e, mp) \<Rightarrow> Some (Inl e, (mp, s))
                         | Some (Inr _, mp) \<Rightarrow>
                             (case insert_new env key hash defaultobj mp of
                                None \<Rightarrow> None
                              | Some mp \<Rightarrow> Some (Inr defaultobj, (mp, s))))
                      else
                        (case value of
                           None \<Rightarrow> Some (Inl AssertionFailure, (mp, s))
                         | Some v \<Rightarrow> Some (Inr v, (mp, s))))))"

definition KeysSize :: "('k, 'v) keysobj \<Rightarrow> nat" where
  "KeysSize keys = 40 + DK_IXSIZE (dk_size keys) * dk_size keys + USABLE_FRACTION (dk_size keys) * 24"

end
