(* ===== verification/Checked_Dict.thy ===== *)
theory Checked_Dict
  imports Checked_List Dict_Object
begin

text \<open>
  \<open>CheckedDict[K, V]\<close> itself: creation, the operations that check the types of keys and values, merging, copying,
  comparing and printing, from \<open>checked_dict.c\<close>. Keys and values are objects of one type \<open>'o\<close>. \<open>params\<close> is
  \<open>gti_inst\<close> of the type of the dictionary: the type of keys at index 0 and of values at index 1. \<open>kenv\<close> is the
  interpreter's treatment of keys and \<open>env\<close> its treatment of types.
\<close>

section \<open>Definitions\<close>

type_synonym 'o chkdict = "('o, 'o) dictobj"
type_synonym ('o, 's) cstate = "('o, 'o, 's) dstate"

subsection \<open>Creation\<close>

abbreviation (input) CiDict_MAXFREELIST :: nat where
  "CiDict_MAXFREELIST \<equiv> 80"

record dict_state =
  dict_free_list :: "nat list"
  dict_numfree :: nat

text \<open>
  The dictionaries in use by address, with the parameters of their types, and the free list of dictionary
  objects. (The second free list, of small keys objects, is covered by \<open>mem\<close>.)
\<close>

record ('o, 'ty) dict_mem =
  dicts :: "nat \<rightharpoonup> 'ty generic_param list \<times> 'o chkdict"
  the_dict_state :: dict_state
  dict_interp_id :: nat

definition get_dict_state :: "('o, 'ty) dict_mem \<Rightarrow> dict_state option" where
  "get_dict_state m = (if dict_interp_id m = 0 then Some (the_dict_state m) else None)"

definition CheckedDict_ClearCaches :: "('o, 'ty) dict_mem \<Rightarrow> ('o, 'ty) dict_mem" where
  "CheckedDict_ClearCaches m =
     (case get_dict_state m of
        None \<Rightarrow> m
      | Some state \<Rightarrow> m\<lparr>the_dict_state := state\<lparr>dict_numfree := 0\<rparr>\<rparr>)"

definition dict_dealloc :: "nat \<Rightarrow> ('o, 'ty) dict_mem \<Rightarrow> ('o, 'ty) dict_mem" where
  "dict_dealloc a m =
     (let m = m\<lparr>dicts := (dicts m)(a := None)\<rparr> in
      case get_dict_state m of
        None \<Rightarrow> m
      | Some state \<Rightarrow>
          if dict_numfree state < CiDict_MAXFREELIST
          then m\<lparr>the_dict_state := state\<lparr>dict_free_list := (dict_free_list state)[dict_numfree state := a],
                                        dict_numfree := dict_numfree state + 1\<rparr>\<rparr>
          else m)"

definition new_dict :: "('o, 'o) keysobj \<Rightarrow> 'o values_ptr \<Rightarrow> 'o chkdict" where
  "new_dict keys vals = \<lparr>ma_used = 0, ma_keys = keys, ma_values = vals, keys_id = 0\<rparr>"

text \<open>\<open>new\<close> is the object \<open>PyObject_GC_New\<close> returns, if it succeeds; \<open>state\<close> is read without a test for null.\<close>

definition chknew_dict ::
  "nat option \<Rightarrow> 'ty generic_param list \<Rightarrow> ('o, 'o) keysobj \<Rightarrow> 'o values_ptr \<Rightarrow> ('o, 'ty) dict_mem \<Rightarrow>
     nat res \<times> ('o, 'ty) dict_mem" where
  "chknew_dict new type keys vals m =
     (case get_dict_state m of
        None \<Rightarrow> (Inl NullDereference, m)
      | Some state \<Rightarrow>
          if dict_numfree state \<noteq> 0 then
            (let mp = dict_free_list state ! (dict_numfree state - 1);
                 m = m\<lparr>the_dict_state := state\<lparr>dict_numfree := dict_numfree state - 1\<rparr>\<rparr>
             in (Inr mp, m\<lparr>dicts := (dicts m)(mp \<mapsto> (type, new_dict keys vals))\<rparr>))
          else
            (case new of
               None \<Rightarrow> (Inl MemoryError, m)
             | Some mp \<Rightarrow> (Inr mp, m\<lparr>dicts := (dicts m)(mp \<mapsto> (type, new_dict keys vals))\<rparr>)))"

definition CheckedDict_New ::
  "nat option \<Rightarrow> 'ty generic_param list \<Rightarrow> ('o, 'ty) dict_mem \<Rightarrow> nat res \<times> ('o, 'ty) dict_mem" where
  "CheckedDict_New new type m = chknew_dict new type empty_keys_struct EmptyValues m"

abbreviation (input) max_presize :: nat where
  "max_presize \<equiv> 131072"

text \<open>\<open>while (newsize < minsize) newsize <<= 1\<close>, for a size that is not zero.\<close>

function presize_loop :: "nat \<Rightarrow> int \<Rightarrow> nat" where
  "presize_loop newsize minsize =
     (if newsize = 0 \<or> minsize \<le> int newsize then newsize else presize_loop (2 * newsize) minsize)"
  by pat_completeness auto
termination
  by (relation "measure (\<lambda>(newsize, minsize). nat (minsize - int newsize))") auto

declare presize_loop.simps [simp del]

definition presized :: "int \<Rightarrow> nat" where
  "presized minused =
     (if minused > int (USABLE_FRACTION max_presize) then max_presize
      else presize_loop (PyDict_MINSIZE * 2) (estimate_keysize (nat minused)))"

definition CheckedDict_NewPresized ::
  "(nat \<Rightarrow> bool) \<Rightarrow> nat option \<Rightarrow> 'ty generic_param list \<Rightarrow> int \<Rightarrow> ('o, 'ty) dict_mem \<Rightarrow> nat res \<times> ('o, 'ty) dict_mem" where
  "CheckedDict_NewPresized mem new type minused m =
     (if minused \<le> int (USABLE_FRACTION PyDict_MINSIZE) then CheckedDict_New new type m
      else
        (let newsize = presized minused in
         if \<not> is_pow2 newsize then (Inl AssertionFailure, m)
         else
           (case new_keys_object mem newsize of
              None \<Rightarrow> (Inl MemoryError, m)
            | Some new_keys \<Rightarrow> chknew_dict new type new_keys NoValues m)))"

subsection \<open>Checks\<close>

definition chkdict_checkkey :: "('o, 'ty) obj_env \<Rightarrow> 'ty generic_param list \<Rightarrow> 'o \<Rightarrow> unit res" where
  "chkdict_checkkey env params key =
     (if \<not> check_param_type env params key 0 then Inl (TypeError ''bad key'') else Inr ())"

definition chkdict_checkval :: "('o, 'ty) obj_env \<Rightarrow> 'ty generic_param list \<Rightarrow> 'o \<Rightarrow> unit res" where
  "chkdict_checkval env params v =
     (if \<not> check_param_type env params v 1 then Inl (TypeError ''bad value'') else Inr ())"

text \<open>
  The flags of the generic type, which \<open>gtd_make_heap_type\<close> copies to its instances; \<open>PyDict_Check\<close> tests the
  flag that only \<open>dict\<close> and its subclasses have.
\<close>

datatype tp_flag = TPFLAGS_DEFAULT | TPFLAGS_HAVE_GC | TPFLAGS_GENERIC_TYPE_DEF | TPFLAGS_DICT_SUBCLASS

definition chkdict_tp_flags :: "tp_flag list" where
  "chkdict_tp_flags = [TPFLAGS_DEFAULT, TPFLAGS_HAVE_GC, TPFLAGS_GENERIC_TYPE_DEF]"

definition PyDict_Check :: "tp_flag list \<Rightarrow> bool" where
  "PyDict_Check tp_flags \<longleftrightarrow> TPFLAGS_DICT_SUBCLASS \<in> set tp_flags"

subsection \<open>Item assignment and deletion\<close>

definition delitem_common :: "size_t \<Rightarrow> int \<Rightarrow> 'o chkdict \<Rightarrow> (unit res \<times> 'o chkdict) option" where
  "delitem_common hash ix mp =
     (case lookdict_index (ma_keys mp) hash ix of
        None \<Rightarrow> None
      | Some hashpos \<Rightarrow>
          if hashpos < 0 then Some (Inl AssertionFailure, mp)
          else
            (let keys = ensure_allows_deletions (dictkeys_set_index (ma_keys mp) (nat hashpos) DKIX_DUMMY);
                 ep = (dk_entries keys ! nat ix)\<lparr>me_key := None, me_value := None\<rparr>
             in Some (Inr (), mp\<lparr>ma_used := ma_used mp - 1,
                         ma_keys := keys\<lparr>dk_entries := (dk_entries keys)[nat ix := ep]\<rparr>\<rparr>)))"

text \<open>\<open>tp_flags\<close> are the flags of the type of the dictionary.\<close>

definition DelItem_KnownHash ::
  "('o, 'o, 's) key_env \<Rightarrow> tp_flag list \<Rightarrow> 'o \<Rightarrow> size_t \<Rightarrow> ('o, 's) cstate \<Rightarrow> (unit res \<times> ('o, 's) cstate) option" where
  "DelItem_KnownHash kenv tp_flags key hash st =
     (if \<not> PyDict_Check tp_flags then Some (Inl SystemError, st)
      else if hash = - 1 then Some (Inl AssertionFailure, st)
      else
        (case dk_lookup_call kenv key hash st of
           None \<Rightarrow> None
         | Some (Inl e, st) \<Rightarrow> Some (Inl e, st)
         | Some (Inr (ix, old_value), (mp, s)) \<Rightarrow>
             if ix = DKIX_EMPTY \<or> old_value = None then Some (Inl KeyError, (mp, s))
             else (case delitem_common hash ix mp of
                 None \<Rightarrow> None
               | Some (r, mp) \<Rightarrow> Some (r, (mp, s)))))"

text \<open>A null value means deletion.\<close>

definition chkdict_ass_sub ::
  "(nat \<Rightarrow> bool) \<Rightarrow> ('o, 'o, 's) key_env \<Rightarrow> ('o, 'ty) obj_env \<Rightarrow> 'ty generic_param list \<Rightarrow> 'o \<Rightarrow> 'o option \<Rightarrow>
     ('o, 's) cstate \<Rightarrow> (unit res \<times> ('o, 's) cstate) option" where
  "chkdict_ass_sub mem kenv env params key v st =
     (case chkdict_checkkey env params key of
        Inl e \<Rightarrow> Some (Inl e, st)
      | Inr _ \<Rightarrow>
          (case hash_of kenv key st of
             (None, st) \<Rightarrow> Some (Inl Propagated, st)
           | (Some hash, st) \<Rightarrow>
               (case v of
                  None \<Rightarrow> DelItem_KnownHash kenv chkdict_tp_flags key hash st
                | Some w \<Rightarrow>
                    (case chkdict_checkval env params w of
                       Inl e \<Rightarrow> Some (Inl e, st)
                     | Inr _ \<Rightarrow> insert_known_hash mem kenv key hash w st))))"

text \<open>Called by compiled code, which has checked the types.\<close>

definition chkdict_ass_sub_unchecked ::
  "(nat \<Rightarrow> bool) \<Rightarrow> ('o, 'o, 's) key_env \<Rightarrow> 'o \<Rightarrow> 'o \<Rightarrow> ('o, 's) cstate \<Rightarrow> (unit res \<times> ('o, 's) cstate) option" where
  "chkdict_ass_sub_unchecked mem kenv key v st =
     (case hash_of kenv key st of
        (None, st) \<Rightarrow> Some (Inl Propagated, st)
      | (Some hash, st) \<Rightarrow> insert_known_hash mem kenv key hash v st)"

definition chkdict_subscript ::
  "('o, 'o, 's) key_env \<Rightarrow> ('o, 'ty) obj_env \<Rightarrow> 'ty generic_param list \<Rightarrow> 'o \<Rightarrow> ('o, 's) cstate \<Rightarrow>
     ('o res \<times> ('o, 's) cstate) option" where
  "chkdict_subscript kenv env params key st =
     (case chkdict_checkkey env params key of
        Inl e \<Rightarrow> Some (Inl e, st)
      | Inr _ \<Rightarrow> dict_subscript kenv key st)"

subsection \<open>Methods\<close>

definition CiCheckedDict_Contains ::
  "('o, 'o, 's) key_env \<Rightarrow> 'o \<Rightarrow> ('o, 's) cstate \<Rightarrow> (bool res \<times> ('o, 's) cstate) option" where
  "CiCheckedDict_Contains kenv key st =
     (case hash_of kenv key st of
        (None, st) \<Rightarrow> Some (Inl Propagated, st)
      | (Some hash, st) \<Rightarrow>
          (case dk_lookup_call kenv key hash st of
             None \<Rightarrow> None
           | Some (Inl e, st) \<Rightarrow> Some (Inl e, st)
           | Some (Inr (ix, v), st) \<Rightarrow> Some (Inr (ix \<noteq> DKIX_EMPTY \<and> v \<noteq> None), st)))"

definition dict_get ::
  "('o, 'o, 's) key_env \<Rightarrow> ('o, 'ty) obj_env \<Rightarrow> 'ty generic_param list \<Rightarrow> 'o list \<Rightarrow> ('o, 's) cstate \<Rightarrow>
     ('o res \<times> ('o, 's) cstate) option" where
  "dict_get kenv env params args st =
     (case check_positional ''get'' (length args) 1 2 of
        Inl e \<Rightarrow> Some (Inl e, st)
      | Inr _ \<Rightarrow>
          (case check_one_arg env params (args ! 0) ''get'' 0 Ci_Py_Sig_T0 of
             Inl e \<Rightarrow> Some (Inl e, st)
           | Inr _ \<Rightarrow>
               if length args < 2 then dict_get_impl kenv (args ! 0) (py_none env) st
               else
                 (case check_one_arg env params (args ! 1) ''get'' 1 Ci_Py_Sig_T1_Opt of
                    Inl e \<Rightarrow> Some (Inl e, st)
                  | Inr _ \<Rightarrow> dict_get_impl kenv (args ! 0) (args ! 1) st)))"

definition dict_setdefault_impl ::
  "(nat \<Rightarrow> bool) \<Rightarrow> ('o, 'o, 's) key_env \<Rightarrow> ('o, 'ty) obj_env \<Rightarrow> 'ty generic_param list \<Rightarrow> 'o list \<Rightarrow> ('o, 's) cstate \<Rightarrow>
     ('o res \<times> ('o, 's) cstate) option" where
  "dict_setdefault_impl mem kenv env params args st =
     (case check_positional ''setdefault'' (length args) 1 2 of
        Inl e \<Rightarrow> Some (Inl e, st)
      | Inr _ \<Rightarrow>
          (case check_one_arg env params (args ! 0) ''setdefault'' 0 Ci_Py_Sig_T0 of
             Inl e \<Rightarrow> Some (Inl e, st)
           | Inr _ \<Rightarrow>
               if length args < 2 then CheckedDict_SetDefault mem kenv (args ! 0) (py_none env) st
               else
                 (case check_one_arg env params (args ! 1) ''setdefault'' 1 Ci_Py_Sig_T1 of
                    Inl e \<Rightarrow> Some (Inl e, st)
                  | Inr _ \<Rightarrow> CheckedDict_SetDefault mem kenv (args ! 0) (args ! 1) st)))"

definition dict_pop ::
  "('o, 'o, 's) key_env \<Rightarrow> 'o list \<Rightarrow> ('o, 's) cstate \<Rightarrow> ('o res \<times> ('o, 's) cstate) option" where
  "dict_pop kenv args st =
     (case check_positional ''pop'' (length args) 1 2 of
        Inl e \<Rightarrow> Some (Inl e, st)
      | Inr _ \<Rightarrow> CheckedDict_Pop kenv (args ! 0) (if length args < 2 then None else Some (args ! 1)) st)"

text \<open>The objects a garbage collection visits: keys only where they may be other than strings.\<close>

definition dict_traverse :: "'o chkdict \<Rightarrow> 'o list" where
  "dict_traverse mp =
     (let keys = ma_keys mp; es = take (dk_nentries keys) (dk_entries keys) in
      if dk_lookup keys = Lookdict then
        concat (map (\<lambda>e. case me_value e of None \<Rightarrow> [] | Some v \<Rightarrow> [v, the (me_key e)]) es)
      else
        (case ma_values mp of
           NoValues \<Rightarrow> concat (map (\<lambda>e. case me_value e of None \<Rightarrow> [] | Some v \<Rightarrow> [v]) es)
         | vs \<Rightarrow> concat (map (\<lambda>i. case value_slot vs i of None \<Rightarrow> [] | Some v \<Rightarrow> [v]) [0..<dk_nentries keys])))"

end
