(* ===== verification/Dict_Merge.thy ===== *)
theory Dict_Merge
  imports Checked_Dict
begin

text \<open>
  Updating a checked dictionary from another dictionary, a mapping or a sequence of pairs, and what is built
  from it: construction, \<open>fromkeys\<close>, \<open>copy\<close>; and the comparison of two dictionaries. The dictionary that is changed is
  the first component of the state; the other dictionary is read through a function of the state, because the
  comparison of keys may change it, too.
\<close>

section \<open>Definitions\<close>

subsection \<open>What is merged\<close>

text \<open>
  A mapping: \<open>PyMapping_Keys\<close> followed by \<open>PyObject_GetIter\<close> (\<open>False\<close> where they raise), the iterator over the keys,
  \<open>PyObject_GetItem\<close>, and \<open>PyDict_Contains\<close> of the interpreter applied to the target.
\<close>

record ('o, 's) mapping_calls =
  mapping_keys :: "('o, 's) cstate \<Rightarrow> bool \<times> ('o, 's) cstate"
  next_key :: "('o, 's) cstate \<Rightarrow> 'o iter_step \<times> ('o, 's) cstate"
  get_value :: "'o \<Rightarrow> ('o, 's) cstate \<Rightarrow> 'o option \<times> ('o, 's) cstate"
  pydict_contains :: "'o \<Rightarrow> ('o, 's) cstate \<Rightarrow> bool option \<times> ('o, 's) cstate"

datatype ('o, 's) merge_arg =
    MergeSelf
  | MergeDict "('o, 's) cstate \<Rightarrow> 'o chkdict"
  | MergeMapping "('o, 's) mapping_calls"

subsection \<open>Merging the entries of a dictionary\<close>

definition entry_value :: "'o chkdict \<Rightarrow> nat \<Rightarrow> 'o option" where
  "entry_value mp i =
     (case ma_values mp of NoValues \<Rightarrow> me_value (dk_entries (ma_keys mp) ! i) | vs \<Rightarrow> value_slot vs i)"

text \<open>
  The entries are read through \<open>ep0\<close>, the array the other dictionary had at the beginning (its identity is
  \<open>kid\<close>); when that dictionary has a new array, the old one was freed.
\<close>

fun merge_entries ::
  "('o \<Rightarrow> size_t \<Rightarrow> 'o \<Rightarrow> ('o, 's) cstate \<Rightarrow> (unit res \<times> ('o, 's) cstate) option) \<Rightarrow> (('o, 's) cstate \<Rightarrow> 'o chkdict) \<Rightarrow>
     nat \<Rightarrow> nat \<Rightarrow> nat list \<Rightarrow> ('o, 's) cstate \<Rightarrow> (unit res \<times> ('o, 's) cstate) option" where
  "merge_entries ins other kid n [] st = Some (Inr (), st)"
| "merge_entries ins other kid n (i # is) st =
     (if keys_id (other st) \<noteq> kid then Some (Inl InvalidMemory, st)
      else
        (let ep = dk_entries (ma_keys (other st)) ! i in
         case entry_value (other st) i of
           None \<Rightarrow> merge_entries ins other kid n is st
         | Some v \<Rightarrow>
             (case ins (the (me_key ep)) (me_hash ep) v st of
                None \<Rightarrow> None
              | Some (Inl e, st) \<Rightarrow> Some (Inl e, st)
              | Some (Inr _, st) \<Rightarrow>
                  if n \<noteq> dk_nentries (ma_keys (other st))
                  then Some (Inl (RuntimeError ''dict mutated during update''), st)
                  else merge_entries ins other kid n is st)))"

text \<open>One big resize at the start.\<close>

definition merge_resize :: "(nat \<Rightarrow> bool) \<Rightarrow> 'o chkdict \<Rightarrow> 'o chkdict \<Rightarrow> (unit res \<times> 'o chkdict) option" where
  "merge_resize mem mp other =
     (if USABLE_FRACTION (dk_size (ma_keys mp)) < ma_used other
      then dictresize mem mp (estimate_keysize (ma_used mp + ma_used other)) else Some (Inr (), mp))"

definition merge_dict ::
  "(nat \<Rightarrow> bool) \<Rightarrow> ('o \<Rightarrow> size_t \<Rightarrow> 'o \<Rightarrow> ('o, 's) cstate \<Rightarrow> (unit res \<times> ('o, 's) cstate) option) \<Rightarrow>
     (('o, 's) cstate \<Rightarrow> 'o chkdict) \<Rightarrow> ('o, 's) cstate \<Rightarrow> (unit res \<times> ('o, 's) cstate) option" where
  "merge_dict mem ins other st =
     (case merge_resize mem (fst st) (other st) of
        None \<Rightarrow> None
      | Some (Inl e, mp) \<Rightarrow> Some (Inl e, (mp, snd st))
      | Some (Inr _, mp) \<Rightarrow>
          (let b = other (mp, snd st); n = dk_nentries (ma_keys b)
           in merge_entries ins other (keys_id b) n [0..<n] (mp, snd st)))"

subsection \<open>Loops over an iterator\<close>

text \<open>
  \<open>step\<close> handles one item; its result \<open>Inr True\<close> means that it left an exception pending without returning an
  error, which is noticed only when the iterator is exhausted.
\<close>

partial_function (option) iter_loop ::
  "('a \<Rightarrow> ('o, 's) cstate \<Rightarrow> (bool res \<times> ('o, 's) cstate) option) \<Rightarrow> (('o, 's) cstate \<Rightarrow> 'a iter_step \<times> ('o, 's) cstate) \<Rightarrow>
     bool \<Rightarrow> ('o, 's) cstate \<Rightarrow> (unit res \<times> ('o, 's) cstate) option" where
  "iter_loop step iternext pending st =
     (case iternext st of
        (it, st) \<Rightarrow>
          (case it of
             Exhausted \<Rightarrow> Some (if pending then Inl Propagated else Inr (), st)
           | IterError \<Rightarrow> Some (Inl Propagated, st)
           | Yield x \<Rightarrow>
               Option.bind (step x st)
                 (\<lambda>(r, st).
                    case r of
                      Inl e \<Rightarrow> Some (Inl e, st)
                    | Inr p \<Rightarrow> iter_loop step iternext (pending \<or> p) st)))"

text \<open>\<open>insertdict(mp, key, PyObject_Hash(key), value)\<close>: the hash is not tested for the error value \<open>-1\<close>.\<close>

definition insert_hashed ::
  "(nat \<Rightarrow> bool) \<Rightarrow> ('o, 'o, 's) key_env \<Rightarrow> 'o \<Rightarrow> 'o \<Rightarrow> ('o, 's) cstate \<Rightarrow> (bool res \<times> ('o, 's) cstate) option" where
  "insert_hashed mem kenv key v st =
     (let (hash, pending, st) =
        (case hash_of kenv key st of (None, st) \<Rightarrow> (- 1, True, st) | (Some hash, st) \<Rightarrow> (hash, False, st))
      in case insertdict mem kenv key hash v st of
           None \<Rightarrow> None
         | Some (Inl e, st) \<Rightarrow> Some (Inl e, st)
         | Some (Inr _, st) \<Rightarrow> Some (Inr pending, st))"

definition insert_checked ::
  "(nat \<Rightarrow> bool) \<Rightarrow> ('o, 'o, 's) key_env \<Rightarrow> ('o, 'ty) obj_env \<Rightarrow> 'ty generic_param list \<Rightarrow> 'o \<Rightarrow> 'o \<Rightarrow> ('o, 's) cstate \<Rightarrow>
     (bool res \<times> ('o, 's) cstate) option" where
  "insert_checked mem kenv env params key v st =
     (case chkdict_checkkey env params key of
        Inl e \<Rightarrow> Some (Inl e, st)
      | Inr _ \<Rightarrow>
          (case chkdict_checkval env params v of
             Inl e \<Rightarrow> Some (Inl e, st)
           | Inr _ \<Rightarrow> insert_hashed mem kenv key v st))"

subsection \<open>Merging without checks\<close>

definition clone_combined_dict_keys :: "(nat \<Rightarrow> bool) \<Rightarrow> 'o chkdict \<Rightarrow> ('o, 'o) keysobj option" where
  "clone_combined_dict_keys mem orig = (if mem (KeysSize (ma_keys orig)) then Some (ma_keys orig) else None)"

definition cloneable :: "'o chkdict \<Rightarrow> bool" where
  "cloneable other \<longleftrightarrow>
     ma_values other = NoValues \<and> ma_used other = dk_nentries (ma_keys other) \<and>
     (dk_size (ma_keys other) = PyDict_MINSIZE \<or> USABLE_FRACTION (dk_size (ma_keys other) div 2) < ma_used other)"

definition merge_insert ::
  "(nat \<Rightarrow> bool) \<Rightarrow> ('o, 'o, 's) key_env \<Rightarrow> nat \<Rightarrow> 'o \<Rightarrow> size_t \<Rightarrow> 'o \<Rightarrow> ('o, 's) cstate \<Rightarrow>
     (unit res \<times> ('o, 's) cstate) option" where
  "merge_insert mem kenv override key hash v st =
     (if override = 1 then insertdict mem kenv key hash v st
      else
        (case Contains_KnownHash kenv key hash st of
           None \<Rightarrow> None
         | Some (Inl e, st) \<Rightarrow> Some (Inl e, st)
         | Some (Inr False, st) \<Rightarrow> insertdict mem kenv key hash v st
         | Some (Inr True, st) \<Rightarrow> if override \<noteq> 0 then Some (Inl KeyError, st) else Some (Inr (), st)))"

definition mapping_item ::
  "(nat \<Rightarrow> bool) \<Rightarrow> ('o, 'o, 's) key_env \<Rightarrow> ('o, 's) mapping_calls \<Rightarrow> 'o \<Rightarrow> ('o, 's) cstate \<Rightarrow>
     (bool res \<times> ('o, 's) cstate) option" where
  "mapping_item mem kenv m key st =
     (case get_value m key st of
        (None, st) \<Rightarrow> Some (Inl Propagated, st)
      | (Some v, st) \<Rightarrow>
          (case CheckedDict_SetItem mem kenv key v st of
             None \<Rightarrow> None
           | Some (Inl e, st) \<Rightarrow> Some (Inl e, st)
           | Some (Inr _, st) \<Rightarrow> Some (Inr False, st)))"

definition mapping_step ::
  "(nat \<Rightarrow> bool) \<Rightarrow> ('o, 'o, 's) key_env \<Rightarrow> nat \<Rightarrow> ('o, 's) mapping_calls \<Rightarrow> 'o \<Rightarrow> ('o, 's) cstate \<Rightarrow>
     (bool res \<times> ('o, 's) cstate) option" where
  "mapping_step mem kenv override m key st =
     (if override = 1 then mapping_item mem kenv m key st
      else
        (case pydict_contains m key st of
           (None, st) \<Rightarrow> Some (Inl Propagated, st)
         | (Some True, st) \<Rightarrow> if override = 0 then Some (Inr False, st) else Some (Inl KeyError, st)
         | (Some False, st) \<Rightarrow> mapping_item mem kenv m key st))"

definition dict_merge ::
  "(nat \<Rightarrow> bool) \<Rightarrow> ('o, 'o, 's) key_env \<Rightarrow> ('o, 's) merge_arg \<Rightarrow> nat \<Rightarrow> ('o, 's) cstate \<Rightarrow>
     (unit res \<times> ('o, 's) cstate) option" where
  "dict_merge mem kenv b override st =
     (case b of
        MergeSelf \<Rightarrow> Some (Inr (), st)
      | MergeDict other \<Rightarrow>
          if ma_used (other st) = 0 then Some (Inr (), st)
          else if ma_used (fst st) = 0 \<and> cloneable (other st) then
            (case clone_combined_dict_keys mem (other st) of
               None \<Rightarrow> Some (Inl MemoryError, st)
             | Some keys \<Rightarrow>
                 Some (Inr (), ((set_keys keys (fst st))\<lparr>ma_values := NoValues, ma_used := ma_used (other st)\<rparr>, snd st)))
          else merge_dict mem (merge_insert mem kenv (if ma_used (fst st) = 0 then 1 else override)) other st
      | MergeMapping m \<Rightarrow>
          (case mapping_keys m st of
             (False, st) \<Rightarrow> Some (Inl Propagated, st)
           | (True, st) \<Rightarrow> iter_loop (mapping_step mem kenv override m) (next_key m) False st))"

subsection \<open>Merging with checks\<close>

definition merge_iterable_step ::
  "(nat \<Rightarrow> bool) \<Rightarrow> ('o, 'o, 's) key_env \<Rightarrow> ('o, 'ty) obj_env \<Rightarrow> 'ty generic_param list \<Rightarrow> ('o, 's) mapping_calls \<Rightarrow> 'o \<Rightarrow>
     ('o, 's) cstate \<Rightarrow> (bool res \<times> ('o, 's) cstate) option" where
  "merge_iterable_step mem kenv env params m key st =
     (case get_value m key st of
        (None, st) \<Rightarrow> Some (Inl Propagated, st)
      | (Some v, st) \<Rightarrow> insert_checked mem kenv env params key v st)"

definition chkdict_merge_iterable ::
  "(nat \<Rightarrow> bool) \<Rightarrow> ('o, 'o, 's) key_env \<Rightarrow> ('o, 'ty) obj_env \<Rightarrow> 'ty generic_param list \<Rightarrow> ('o, 's) mapping_calls \<Rightarrow>
     ('o, 's) cstate \<Rightarrow> (unit res \<times> ('o, 's) cstate) option" where
  "chkdict_merge_iterable mem kenv env params m st =
     (case mapping_keys m st of
        (False, st) \<Rightarrow> Some (Inl Propagated, st)
      | (True, st) \<Rightarrow> iter_loop (merge_iterable_step mem kenv env params m) (next_key m) False st)"

definition merge_checked ::
  "(nat \<Rightarrow> bool) \<Rightarrow> ('o, 'o, 's) key_env \<Rightarrow> ('o, 'ty) obj_env \<Rightarrow> 'ty generic_param list \<Rightarrow> 'o \<Rightarrow> size_t \<Rightarrow> 'o \<Rightarrow>
     ('o, 's) cstate \<Rightarrow> (unit res \<times> ('o, 's) cstate) option" where
  "merge_checked mem kenv env params key hash v st =
     (case chkdict_checkkey env params key of
        Inl e \<Rightarrow> Some (Inl e, st)
      | Inr _ \<Rightarrow>
          (case chkdict_checkval env params v of
             Inl e \<Rightarrow> Some (Inl e, st)
           | Inr _ \<Rightarrow> insertdict mem kenv key hash v st))"

definition chkdict_merge ::
  "(nat \<Rightarrow> bool) \<Rightarrow> ('o, 'o, 's) key_env \<Rightarrow> ('o, 'ty) obj_env \<Rightarrow> 'ty generic_param list \<Rightarrow> ('o, 's) merge_arg \<Rightarrow>
     ('o, 's) cstate \<Rightarrow> (unit res \<times> ('o, 's) cstate) option" where
  "chkdict_merge mem kenv env params b st =
     (case b of
        MergeSelf \<Rightarrow> Some (Inr (), st)
      | MergeDict other \<Rightarrow>
          if ma_used (other st) = 0 then Some (Inr (), st)
          else merge_dict mem (merge_checked mem kenv env params) other st
      | MergeMapping m \<Rightarrow> chkdict_merge_iterable mem kenv env params m st)"

text \<open>
  A sequence of pairs. \<open>fast_items\<close> is \<open>PySequence_Fast\<close> of an element: its items, \<open>Inl True\<close> where it raises a
  \<open>TypeError\<close>, and \<open>Inl False\<close> for another exception.
\<close>

record ('o, 's) seq_calls =
  seq_iter :: "('o, 's) cstate \<Rightarrow> bool \<times> ('o, 's) cstate"
  next_item :: "('o, 's) cstate \<Rightarrow> 'o iter_step \<times> ('o, 's) cstate"
  fast_items :: "'o \<Rightarrow> ('o, 's) cstate \<Rightarrow> (bool + 'o list) \<times> ('o, 's) cstate"

definition seq2_step ::
  "(nat \<Rightarrow> bool) \<Rightarrow> ('o, 'o, 's) key_env \<Rightarrow> ('o, 'ty) obj_env \<Rightarrow> 'ty generic_param list \<Rightarrow> ('o, 's) seq_calls \<Rightarrow> 'o \<Rightarrow>
     ('o, 's) cstate \<Rightarrow> (bool res \<times> ('o, 's) cstate) option" where
  "seq2_step mem kenv env params seq2 item st =
     (case fast_items seq2 item st of
        (Inl True, st) \<Rightarrow> Some (Inl (TypeError ''cannot convert dictionary update sequence element to a sequence''), st)
      | (Inl False, st) \<Rightarrow> Some (Inl Propagated, st)
      | (Inr xs, st) \<Rightarrow>
          if length xs \<noteq> 2 then Some (Inl (ValueError ''dictionary update sequence element: length 2 is required''), st)
          else insert_checked mem kenv env params (xs ! 0) (xs ! 1) st)"

definition chkdict_mergefromseq2 ::
  "(nat \<Rightarrow> bool) \<Rightarrow> ('o, 'o, 's) key_env \<Rightarrow> ('o, 'ty) obj_env \<Rightarrow> 'ty generic_param list \<Rightarrow> ('o, 's) seq_calls \<Rightarrow>
     ('o, 's) cstate \<Rightarrow> (unit res \<times> ('o, 's) cstate) option" where
  "chkdict_mergefromseq2 mem kenv env params seq2 st =
     (case seq_iter seq2 st of
        (False, st) \<Rightarrow> Some (Inl Propagated, st)
      | (True, st) \<Rightarrow> iter_loop (seq2_step mem kenv env params seq2) (next_item seq2) False st)"

subsection \<open>Update and construction\<close>

text \<open>
  The argument of \<open>update\<close>: a dictionary of the same type, another checked dictionary, a \<open>dict\<close>, or
  something else, which is a mapping if it has an attribute \<open>keys\<close> (\<open>None\<close> where looking it up raises).
\<close>

datatype ('o, 's) update_arg =
    SameTypeArg "('o, 's) merge_arg"
  | CheckedArg "('o, 's) merge_arg"
  | DictArg "('o, 's) mapping_calls"
  | ObjectArg "('o, 's) cstate \<Rightarrow> bool option \<times> ('o, 's) cstate" "('o, 's) mapping_calls" "('o, 's) seq_calls"

definition update_from ::
  "(nat \<Rightarrow> bool) \<Rightarrow> ('o, 'o, 's) key_env \<Rightarrow> ('o, 'ty) obj_env \<Rightarrow> 'ty generic_param list \<Rightarrow> ('o, 's) update_arg \<Rightarrow>
     ('o, 's) cstate \<Rightarrow> (unit res \<times> ('o, 's) cstate) option" where
  "update_from mem kenv env params arg st =
     (case arg of
        SameTypeArg b \<Rightarrow> dict_merge mem kenv b 1 st
      | CheckedArg b \<Rightarrow> chkdict_merge mem kenv env params b st
      | DictArg m \<Rightarrow> chkdict_merge_iterable mem kenv env params m st
      | ObjectArg keys_attr m seq2 \<Rightarrow>
          (case keys_attr st of
             (None, st) \<Rightarrow> Some (Inl Propagated, st)
           | (Some True, st) \<Rightarrow> chkdict_merge mem kenv env params (MergeMapping m) st
           | (Some False, st) \<Rightarrow> chkdict_mergefromseq2 mem kenv env params seq2 st))"

text \<open>\<open>kwds\<close> is a \<open>dict\<close>, with the answer of \<open>PyArg_ValidateKeywordArguments\<close>.\<close>

definition chkdict_update_common_fast ::
  "(nat \<Rightarrow> bool) \<Rightarrow> ('o, 'o, 's) key_env \<Rightarrow> ('o, 'ty) obj_env \<Rightarrow> 'ty generic_param list \<Rightarrow> ('o, 's) update_arg option \<Rightarrow>
     (('o, 's) mapping_calls \<times> bool) option \<Rightarrow> ('o, 's) cstate \<Rightarrow> (unit res \<times> ('o, 's) cstate) option" where
  "chkdict_update_common_fast mem kenv env params arg kwds st =
     (case (case arg of None \<Rightarrow> Some (Inr (), st) | Some a \<Rightarrow> update_from mem kenv env params a st) of
        None \<Rightarrow> None
      | Some (Inl e, st) \<Rightarrow> Some (Inl e, st)
      | Some (Inr _, st) \<Rightarrow>
          (case kwds of
             None \<Rightarrow> Some (Inr (), st)
           | Some (m, valid) \<Rightarrow>
               if valid then chkdict_merge mem kenv env params (MergeMapping m) st
               else Some (Inl (TypeError ''keywords must be strings''), st)))"

definition chkdict_update_common ::
  "(nat \<Rightarrow> bool) \<Rightarrow> ('o, 'o, 's) key_env \<Rightarrow> ('o, 'ty) obj_env \<Rightarrow> 'ty generic_param list \<Rightarrow> string \<Rightarrow>
     ('o, 's) update_arg list \<Rightarrow> (('o, 's) mapping_calls \<times> bool) option \<Rightarrow> ('o, 's) cstate \<Rightarrow>
     (unit res \<times> ('o, 's) cstate) option" where
  "chkdict_update_common mem kenv env params methname args kwds st =
     (case check_positional methname (length args) 0 1 of
        Inl e \<Rightarrow> Some (Inl e, st)
      | Inr _ \<Rightarrow>
          chkdict_update_common_fast mem kenv env params (case args of [] \<Rightarrow> None | a # _ \<Rightarrow> Some a) kwds st)"

definition chkdict_update ::
  "(nat \<Rightarrow> bool) \<Rightarrow> ('o, 'o, 's) key_env \<Rightarrow> ('o, 'ty) obj_env \<Rightarrow> 'ty generic_param list \<Rightarrow> ('o, 's) update_arg list \<Rightarrow>
     (('o, 's) mapping_calls \<times> bool) option \<Rightarrow> ('o, 's) cstate \<Rightarrow> (unit res \<times> ('o, 's) cstate) option" where
  "chkdict_update mem kenv env params args kwds st =
     chkdict_update_common mem kenv env params ''update'' args kwds st"

definition chkdict_init ::
  "(nat \<Rightarrow> bool) \<Rightarrow> ('o, 'o, 's) key_env \<Rightarrow> ('o, 'ty) obj_env \<Rightarrow> 'ty generic_param list \<Rightarrow> string \<Rightarrow>
     ('o, 's) update_arg list \<Rightarrow> (('o, 's) mapping_calls \<times> bool) option \<Rightarrow> ('o, 's) cstate \<Rightarrow>
     (unit res \<times> ('o, 's) cstate) option" where
  "chkdict_init mem kenv env params tp_nm args kwds st =
     chkdict_update_common mem kenv env params tp_nm args kwds st"

text \<open>
  \<open>fromkeys\<close>: \<open>call_type\<close> is the call of the type without arguments, which returns the new dictionary; that takes the place of
  the first component of the state. \<open>get_iter\<close> and \<open>iternext\<close> belong to the first argument and \<open>v\<close> is the second, if
  there is one. On an error the new dictionary is dropped.
\<close>

definition fromkeys_step ::
  "(nat \<Rightarrow> bool) \<Rightarrow> ('o, 'o, 's) key_env \<Rightarrow> ('o, 'ty) obj_env \<Rightarrow> 'ty generic_param list \<Rightarrow> 'o \<Rightarrow> 'o \<Rightarrow>
     ('o, 's) cstate \<Rightarrow> (bool res \<times> ('o, 's) cstate) option" where
  "fromkeys_step mem kenv env params v key st =
     (if \<not> check_param_type env params key 0 then Some (Inl (TypeError ''bad key type''), st)
      else insert_hashed mem kenv key v st)"

definition chkdict_fromkeys ::
  "(nat \<Rightarrow> bool) \<Rightarrow> ('o, 'o, 's) key_env \<Rightarrow> ('o, 'ty) obj_env \<Rightarrow> 'ty generic_param list \<Rightarrow> nat \<Rightarrow>
     (('o, 's) cstate \<Rightarrow> bool \<times> ('o, 's) cstate) \<Rightarrow> (('o, 's) cstate \<Rightarrow> 'o iter_step \<times> ('o, 's) cstate) \<Rightarrow> 'o \<Rightarrow>
     ('s \<Rightarrow> 'o chkdict option \<times> 's) \<Rightarrow> 's \<Rightarrow> ('o chkdict res \<times> 's) option" where
  "chkdict_fromkeys mem kenv env params nargs get_iter iternext v call_type s =
     (case check_positional ''fromkeys'' nargs 1 2 of
        Inl e \<Rightarrow> Some (Inl e, s)
      | Inr _ \<Rightarrow>
          (let v = (if nargs < 2 then py_none env else v) in
           case call_type s of
             (None, s) \<Rightarrow> Some (Inl Propagated, s)
           | (Some d, s) \<Rightarrow>
               if \<not> check_param_type env params v 1 then Some (Inl (TypeError ''bad value type''), s)
               else
                 (case get_iter (d, s) of
                    (False, st) \<Rightarrow> Some (Inl Propagated, snd st)
                  | (True, st) \<Rightarrow>
                      (case iter_loop (fromkeys_step mem kenv env params v) iternext False st of
                         None \<Rightarrow> None
                       | Some (Inl e, st) \<Rightarrow> Some (Inl e, snd st)
                       | Some (Inr _, (d, s)) \<Rightarrow> Some (Inr d, s)))))"

text \<open>\<open>copy\<close>: the new dictionary is the first component of the state, the copied one is read by \<open>orig\<close>.\<close>

definition chkdict_copy ::
  "(nat \<Rightarrow> bool) \<Rightarrow> ('o, 'o, 's) key_env \<Rightarrow> (('o, 's) cstate \<Rightarrow> 'o chkdict) \<Rightarrow> 'o chkdict option \<Rightarrow> 's \<Rightarrow>
     ('o chkdict res \<times> 's) option" where
  "chkdict_copy mem kenv orig new s =
     (case new of
        None \<Rightarrow> Some (Inl MemoryError, s)
      | Some copy \<Rightarrow>
          (case dict_merge mem kenv (MergeDict orig) 1 (copy, s) of
             None \<Rightarrow> None
           | Some (Inl e, (copy, s)) \<Rightarrow> Some (Inl e, s)
           | Some (Inr _, (copy, s)) \<Rightarrow> Some (Inr copy, s)))"

subsection \<open>Comparison\<close>

text \<open>
  Equality of the dictionary \<open>a\<close>, read through the state, with another one in which \<open>look\<close> finds values
  by key and hash. \<open>veq\<close> is \<open>PyObject_RichCompareBool\<close> on values. The number of entries is read anew in each round.
\<close>

partial_function (option) dict_equal_loop ::
  "('o \<Rightarrow> size_t \<Rightarrow> ('o, 's) cstate \<Rightarrow> ('o option res \<times> ('o, 's) cstate) option) \<Rightarrow>
     ('o \<Rightarrow> 'o \<Rightarrow> ('o, 's) cstate \<Rightarrow> bool option \<times> ('o, 's) cstate) \<Rightarrow> (('o, 's) cstate \<Rightarrow> 'o chkdict) \<Rightarrow>
     nat \<Rightarrow> ('o, 's) cstate \<Rightarrow> (bool res \<times> ('o, 's) cstate) option" where
  "dict_equal_loop look veq a i st =
     (if i \<ge> dk_nentries (ma_keys (a st)) then Some (Inr True, st)
      else
        (let ep = dk_entries (ma_keys (a st)) ! i in
         case entry_value (a st) i of
           None \<Rightarrow> dict_equal_loop look veq a (Suc i) st
         | Some aval \<Rightarrow>
             Option.bind (look (the (me_key ep)) (me_hash ep) st)
               (\<lambda>(r, st).
                  case r of
                    Inl e \<Rightarrow> Some (Inl e, st)
                  | Inr None \<Rightarrow> Some (Inr False, st)
                  | Inr (Some bval) \<Rightarrow>
                      (case veq aval bval st of
                         (None, st) \<Rightarrow> Some (Inl Propagated, st)
                       | (Some c, st) \<Rightarrow>
                           if c then dict_equal_loop look veq a (Suc i) st else Some (Inr False, st)))))"

definition look_known_hash ::
  "('o, 'o, 's) key_env \<Rightarrow> 'o \<Rightarrow> size_t \<Rightarrow> ('o, 's) cstate \<Rightarrow> ('o option res \<times> ('o, 's) cstate) option" where
  "look_known_hash kenv key hash st =
     map_option (\<lambda>(r, st). (case r of Inl e \<Rightarrow> Inl e | Inr (ix, v) \<Rightarrow> Inr v, st)) (dk_lookup_call kenv key hash st)"

text \<open>\<open>b\<close> is the first component of the state.\<close>

definition dict_equal ::
  "('o, 'o, 's) key_env \<Rightarrow> ('o \<Rightarrow> 'o \<Rightarrow> ('o, 's) cstate \<Rightarrow> bool option \<times> ('o, 's) cstate) \<Rightarrow>
     (('o, 's) cstate \<Rightarrow> 'o chkdict) \<Rightarrow> ('o, 's) cstate \<Rightarrow> (bool res \<times> ('o, 's) cstate) option" where
  "dict_equal kenv veq a st =
     (if ma_used (a st) \<noteq> ma_used (fst st) then Some (Inr False, st)
      else dict_equal_loop (look_known_hash kenv) veq a 0 st)"

text \<open>\<open>b\<close> is a \<open>dict\<close>: its size and \<open>_PyDict_GetItem_KnownHash\<close> are calls of the interpreter.\<close>

record ('o, 's) pydict_calls =
  pydict_size :: "('o, 's) cstate \<Rightarrow> nat"
  pydict_getitem :: "'o \<Rightarrow> size_t \<Rightarrow> ('o, 's) cstate \<Rightarrow> 'o option res \<times> ('o, 's) cstate"

definition dict_equal_pydict ::
  "('o, 's) pydict_calls \<Rightarrow> ('o \<Rightarrow> 'o \<Rightarrow> ('o, 's) cstate \<Rightarrow> bool option \<times> ('o, 's) cstate) \<Rightarrow>
     (('o, 's) cstate \<Rightarrow> 'o chkdict) \<Rightarrow> ('o, 's) cstate \<Rightarrow> (bool res \<times> ('o, 's) cstate) option" where
  "dict_equal_pydict b veq a st =
     (if ma_used (a st) \<noteq> pydict_size b st then Some (Inr False, st)
      else dict_equal_loop (\<lambda>key hash st. Some (pydict_getitem b key hash st)) veq a 0 st)"

datatype ('o, 's) compare_arg = PyDictArg "('o, 's) pydict_calls" | ChkDictArg | OtherArg

text \<open>\<open>Inr None\<close> stands for \<open>NotImplemented\<close>.\<close>

definition chkdict_richcompare ::
  "('o, 'o, 's) key_env \<Rightarrow> ('o \<Rightarrow> 'o \<Rightarrow> ('o, 's) cstate \<Rightarrow> bool option \<times> ('o, 's) cstate) \<Rightarrow>
     (('o, 's) cstate \<Rightarrow> 'o chkdict) \<Rightarrow> ('o, 's) compare_arg \<Rightarrow> cmp_op \<Rightarrow> ('o, 's) cstate \<Rightarrow>
     (bool option res \<times> ('o, 's) cstate) option" where
  "chkdict_richcompare kenv veq v w op st =
     (let res = map_option (\<lambda>(r, st). (case r of Inl e \<Rightarrow> Inl e | Inr c \<Rightarrow> Inr (Some (c = (op = Py_EQ))), st)) in
      if op = Py_EQ \<or> op = Py_NE then
        (case w of
           PyDictArg b \<Rightarrow> res (dict_equal_pydict b veq v st)
         | ChkDictArg \<Rightarrow> res (dict_equal kenv veq v st)
         | OtherArg \<Rightarrow> Some (Inr None, st))
      else Some (Inr None, st))"

end
