(* ===== verification/Dict_Table.thy ===== *)
theory Dict_Table
  imports Dict_Object
begin

text \<open>
  The data structure of the hash table: sizes, the table of indices and what makes it searchable
  (\<open>slots_ok\<close>), the abstract dictionary as a list of items, the invariant \<open>dict_inv\<close>, and the loops that
  write indices.
\<close>

section \<open>Sizes\<close>

lemma less_exp_bit_length: "n < 2 ^ bit_length n"
proof (induction n rule: bit_length.induct)
  case (1 n)
  show ?case
  proof (cases "n = 0")
    case False
    then have "n div 2 < 2 ^ bit_length (n div 2)" by (rule 1)
    then have "n < 2 * 2 ^ bit_length (n div 2)" by linarith
    then show ?thesis using False by (subst bit_length.simps) simp
  qed (simp add: bit_length.simps)
qed

lemma le_or_nat: "m \<le> m OR n" for m n :: nat
proof -
  have "int m \<le> int m OR int n" by (rule or_greater_eq) simp
  then show ?thesis by (metis of_nat_or_eq of_nat_le_iff)
qed

lemma or_ge_right_nat: "n \<le> m OR n" for m n :: nat
  using le_or_nat [of n m] by (simp add: or.commute)

lemma sint_push_bit_1:
  assumes "0 < sint (push_bit n (1 :: size_t))"
  shows "n < 63" "sint (push_bit n (1 :: size_t)) = 2 ^ n"
proof -
  have "n < 63"
  proof (rule ccontr)
    assume "\<not> n < 63"
    then consider "n = 63" | "64 \<le> n" by linarith
    then show False using assms
    proof cases
      case 1
      then show ?thesis using assms by simp
    next
      case 2
      then have z: "push_bit n (1 :: size_t) = 0" by (intro bit_eqI) (simp add: bit_simps)
      from assms show ?thesis unfolding z by simp
    qed
  qed
  then show "n < 63" .
  have "(2 :: int) ^ n < 2 ^ 63" using \<open>n < 63\<close> by (intro power_strict_increasing) simp_all
  then show "sint (push_bit n (1 :: size_t)) = 2 ^ n"
    using sint_of_int_size_t [of "2 ^ n"] by (simp add: push_bit_eq_mult)
qed

text \<open>A resize that succeeds in computing its size makes room: \<open>2 ^ k\<close> slots, at least \<open>minsize\<close> of them.\<close>

lemma calculate_keysize_pos:
  assumes "0 < calculate_keysize m"
  obtains k where "calculate_keysize m = 2 ^ k" "3 \<le> k" "k \<le> 62" "m \<le> 2 ^ k"
proof -
  define n where "n = ((m OR 8) - 1) OR 7"
  have eq: "calculate_keysize m = sint (push_bit (bit_length n) (1 :: size_t))"
    by (simp add: calculate_keysize_def n_def Let_def)
  note k = sint_push_bit_1 [OF assms [unfolded eq]]
  have lt: "n < 2 ^ bit_length n" by (rule less_exp_bit_length)
  have "(m OR 8) - 1 \<le> n" unfolding n_def by (rule le_or_nat)
  moreover have "m \<le> m OR 8" by (rule le_or_nat)
  moreover have "8 \<le> m OR 8" by (rule or_ge_right_nat)
  ultimately have m: "m \<le> 2 ^ bit_length n" "8 \<le> (2 :: nat) ^ bit_length n" using lt by linarith+
  from m(2) have "(2 :: nat) ^ 3 \<le> 2 ^ bit_length n" by simp
  then have "3 \<le> bit_length n" by (rule power_le_imp_le_exp [rotated]) simp
  then show thesis using that [of "bit_length n"] k m eq by simp
qed

lemma USABLE_FRACTION_less: "0 < n \<Longrightarrow> USABLE_FRACTION n < n"
  unfolding USABLE_FRACTION_def by linarith

section \<open>The table of indices\<close>

text \<open>
  \<open>L\<close> is the set of entries that are alive and \<open>hs\<close> their hashes: a slot is empty, a dummy, or holds
  an entry of \<open>L\<close>, every entry of \<open>L\<close> is in exactly one slot, and the search for its hash reaches that slot
  without passing an empty one.
\<close>

definition slots_ok :: "nat \<Rightarrow> int list \<Rightarrow> nat set \<Rightarrow> (nat \<Rightarrow> size_t) \<Rightarrow> bool" where
  "slots_ok k idx L hs \<longleftrightarrow>
     length idx = 2 ^ k \<and>
     (\<forall>i < 2 ^ k. idx ! i = DKIX_EMPTY \<or> idx ! i = DKIX_DUMMY \<or> (\<exists>j\<in>L. idx ! i = int j)) \<and>
     (\<forall>i < 2 ^ k. \<forall>i' < 2 ^ k. 0 \<le> idx ! i \<longrightarrow> idx ! i = idx ! i' \<longrightarrow> i = i') \<and>
     (\<forall>j\<in>L. \<exists>n. idx ! slot (mask k) (hs j) n = int j \<and> (\<forall>m<n. idx ! slot (mask k) (hs j) m \<noteq> DKIX_EMPTY))"

text \<open>The number of slots that are not empty.\<close>

definition filled :: "int list \<Rightarrow> nat" where
  "filled idx = length (filter (\<lambda>ix. ix \<noteq> DKIX_EMPTY) idx)"

lemma filled_update: "i < length idx \<Longrightarrow> filled (idx[i := x]) \<le> filled idx + 1"
proof -
  assume "i < length idx"
  then have "idx = take i idx @ idx ! i # drop (Suc i) idx" "idx[i := x] = take i idx @ x # drop (Suc i) idx"
    by (simp_all add: id_take_nth_drop upd_conv_take_nth_drop)
  then have "filled idx = filled (take i idx @ idx ! i # drop (Suc i) idx)"
    "filled (idx[i := x]) = filled (take i idx @ x # drop (Suc i) idx)" by metis+
  then show ?thesis by (simp add: filled_def)
qed

lemma filled_dummy: "i < length idx \<Longrightarrow> idx ! i \<noteq> DKIX_EMPTY \<Longrightarrow> filled (idx[i := DKIX_DUMMY]) = filled idx"
proof -
  assume "i < length idx" "idx ! i \<noteq> DKIX_EMPTY"
  then have "idx = take i idx @ idx ! i # drop (Suc i) idx" "idx[i := DKIX_DUMMY] = take i idx @ DKIX_DUMMY # drop (Suc i) idx"
    by (simp_all add: id_take_nth_drop upd_conv_take_nth_drop)
  then have "filled idx = filled (take i idx @ idx ! i # drop (Suc i) idx)"
    "filled (idx[i := DKIX_DUMMY]) = filled (take i idx @ DKIX_DUMMY # drop (Suc i) idx)" by metis+
  with \<open>idx ! i \<noteq> DKIX_EMPTY\<close> show ?thesis by (simp add: filled_def)
qed

lemma filled_replicate [simp]: "filled (replicate n DKIX_EMPTY) = 0"
  by (simp add: filled_def)

lemma empty_slot_exists:
  assumes "filled idx < length idx"
  obtains i where "i < length idx" "idx ! i = DKIX_EMPTY"
proof -
  have "\<exists>x\<in>set idx. x = DKIX_EMPTY"
  proof (rule ccontr)
    assume "\<not> ?thesis"
    then have "filter (\<lambda>ix. ix \<noteq> DKIX_EMPTY) idx = idx" by (intro filter_True) auto
    then show False using assms by (simp add: filled_def)
  qed
  then show thesis using that by (auto simp: in_set_conv_nth)
qed

lemma slots_okD:
  assumes "slots_ok k idx L hs"
  shows "length idx = 2 ^ k"
    and "\<And>i. i < 2 ^ k \<Longrightarrow> idx ! i = DKIX_EMPTY \<or> idx ! i = DKIX_DUMMY \<or> (\<exists>j\<in>L. idx ! i = int j)"
    and "\<And>i i'. i < 2 ^ k \<Longrightarrow> i' < 2 ^ k \<Longrightarrow> 0 \<le> idx ! i \<Longrightarrow> idx ! i = idx ! i' \<Longrightarrow> i = i'"
    and "\<And>j. j \<in> L \<Longrightarrow> \<exists>n. idx ! slot (mask k) (hs j) n = int j \<and> (\<forall>m<n. idx ! slot (mask k) (hs j) m \<noteq> DKIX_EMPTY)"
  using assms unfolding slots_ok_def by blast+

lemma slots_ok_empty: "slots_ok k (replicate (2 ^ k) DKIX_EMPTY) {} hs"
  by (simp add: slots_ok_def)

lemma slots_ok_cong: "(\<And>j. j \<in> L \<Longrightarrow> hs j = hs' j) \<Longrightarrow> slots_ok k idx L hs \<Longrightarrow> slots_ok k idx L hs'"
  by (simp add: slots_ok_def)

text \<open>A new entry goes to a slot of its search that is free, the slots before it being not empty.\<close>

lemma slots_ok_insert:
  assumes ok: "slots_ok k idx L hs" and k: "k \<le> 64" and j: "j \<notin> L"
    and free: "idx ! slot (mask k) (hs j) n < 0" and path: "\<forall>m<n. idx ! slot (mask k) (hs j) m \<noteq> DKIX_EMPTY"
  shows "slots_ok k (idx[slot (mask k) (hs j) n := int j]) (insert j L) hs"
proof -
  define p where "p = slot (mask k) (hs j) n"
  note okD = slots_okD [OF ok]
  have p: "p < 2 ^ k" unfolding p_def by (rule slot_less [OF k])
  have upd: "(idx[p := int j]) ! i = (if i = p then int j else idx ! i)" if "i < 2 ^ k" for i
    using that okD(1) by (simp add: nth_list_update)
  have sl: "slot (mask k) h m < 2 ^ k" for h m by (rule slot_less [OF k])
  have "\<exists>m. idx[p := int j] ! slot (mask k) (hs i) m = int i \<and> (\<forall>l<m. idx[p := int j] ! slot (mask k) (hs i) l \<noteq> DKIX_EMPTY)"
    if i: "i \<in> insert j L" for i
  proof (cases "i = j")
    case True
    have "idx[p := int j] ! slot (mask k) (hs j) l \<noteq> DKIX_EMPTY" if "l < n" for l
      using path that upd [OF sl, of "hs j" l] by auto
    moreover have "idx[p := int j] ! slot (mask k) (hs j) n = int j" using upd [OF p] by (simp add: p_def)
    ultimately show ?thesis using True by blast
  next
    case False
    then obtain m where m: "idx ! slot (mask k) (hs i) m = int i" "\<forall>l<m. idx ! slot (mask k) (hs i) l \<noteq> DKIX_EMPTY"
      using okD(4) i by blast
    moreover have "slot (mask k) (hs i) m \<noteq> p" using m(1) free by (auto simp: p_def)
    ultimately show ?thesis using upd [OF sl] by (intro exI [of _ m]) auto
  qed
  moreover have "i = i'" if "i < 2 ^ k" "i' < 2 ^ k" "0 \<le> idx[p := int j] ! i" "idx[p := int j] ! i = idx[p := int j] ! i'" for i i'
  proof -
    have ne: "idx ! l \<noteq> int j" if "l < 2 ^ k" for l using okD(2) [OF that] j by auto
    show ?thesis using that upd ne okD(3) [of i i'] by (auto split: if_splits)
  qed
  moreover have "idx[p := int j] ! i = DKIX_EMPTY \<or> idx[p := int j] ! i = DKIX_DUMMY \<or> (\<exists>l\<in>insert j L. idx[p := int j] ! i = int l)"
    if "i < 2 ^ k" for i
    using okD(2) [OF that] upd [OF that] by auto
  ultimately show ?thesis using okD(1) unfolding slots_ok_def p_def [symmetric] by simp
qed

lemma slots_ok_remove:
  assumes ok: "slots_ok k idx L hs" and k: "k \<le> 64" and p: "p < 2 ^ k" "idx ! p = int j"
  shows "slots_ok k (idx[p := DKIX_DUMMY]) (L - {j}) hs"
proof -
  note okD = slots_okD [OF ok]
  have upd: "(idx[p := DKIX_DUMMY]) ! i = (if i = p then DKIX_DUMMY else idx ! i)" if "i < 2 ^ k" for i
    using that okD(1) by (simp add: nth_list_update)
  have sl: "slot (mask k) h m < 2 ^ k" for h m by (rule slot_less [OF k])
  have "\<exists>m. idx[p := DKIX_DUMMY] ! slot (mask k) (hs i) m = int i \<and>
      (\<forall>l<m. idx[p := DKIX_DUMMY] ! slot (mask k) (hs i) l \<noteq> DKIX_EMPTY)" if i: "i \<in> L - {j}" for i
  proof -
    obtain m where m: "idx ! slot (mask k) (hs i) m = int i" "\<forall>l<m. idx ! slot (mask k) (hs i) l \<noteq> DKIX_EMPTY"
      using okD(4) i by blast
    moreover have "slot (mask k) (hs i) m \<noteq> p" using m(1) p(2) i by auto
    ultimately show ?thesis using upd [OF sl] by (intro exI [of _ m]) auto
  qed
  moreover have "i = i'" if "i < 2 ^ k" "i' < 2 ^ k" "0 \<le> idx[p := DKIX_DUMMY] ! i" "idx[p := DKIX_DUMMY] ! i = idx[p := DKIX_DUMMY] ! i'" for i i'
    using that upd okD(3) [of i i'] by (auto split: if_splits)
  moreover have "idx[p := DKIX_DUMMY] ! i = DKIX_EMPTY \<or> idx[p := DKIX_DUMMY] ! i = DKIX_DUMMY \<or>
      (\<exists>l\<in>L - {j}. idx[p := DKIX_DUMMY] ! i = int l)" if i: "i < 2 ^ k" for i
  proof -
    have "idx ! i \<noteq> int j" if "i \<noteq> p" using okD(3) [OF i p(1)] p(2) that by auto
    then show ?thesis using okD(2) [OF i] upd [OF i] by auto
  qed
  ultimately show ?thesis using okD(1) unfolding slots_ok_def by simp
qed

section \<open>The contents of a dictionary\<close>

text \<open>The abstract dictionary: the items in insertion order, searched by \<open>R\<close>, the equality of keys.\<close>

definition al_get :: "('k \<Rightarrow> 'k \<Rightarrow> bool) \<Rightarrow> 'k \<Rightarrow> ('k \<times> 'v) list \<Rightarrow> 'v option" where
  "al_get R key kvs = map_option snd (find (\<lambda>(k, v). R k key) kvs)"

fun al_put :: "('k \<Rightarrow> 'k \<Rightarrow> bool) \<Rightarrow> 'k \<Rightarrow> 'v \<Rightarrow> ('k \<times> 'v) list \<Rightarrow> ('k \<times> 'v) list" where
  "al_put R key w [] = [(key, w)]"
| "al_put R key w ((k, v) # kvs) = (if R k key then (k, w) # kvs else (k, v) # al_put R key w kvs)"

fun al_del :: "('k \<Rightarrow> 'k \<Rightarrow> bool) \<Rightarrow> 'k \<Rightarrow> ('k \<times> 'v) list \<Rightarrow> ('k \<times> 'v) list" where
  "al_del R key [] = []"
| "al_del R key ((k, v) # kvs) = (if R k key then kvs else (k, v) # al_del R key kvs)"

definition absent :: "('k \<Rightarrow> 'k \<Rightarrow> bool) \<Rightarrow> 'k \<Rightarrow> ('k \<times> 'v) list \<Rightarrow> bool" where
  "absent R key kvs \<longleftrightarrow> (\<forall>k\<in>fst ` set kvs. \<not> R k key)"

lemma absent_simps [simp]: "absent R key []" "absent R key ((k, v) # kvs) \<longleftrightarrow> \<not> R k key \<and> absent R key kvs"
  by (simp_all add: absent_def)

lemma al_skip:
  "absent R key xs \<Longrightarrow> al_get R key (xs @ ys) = al_get R key ys"
  "absent R key xs \<Longrightarrow> al_put R key w (xs @ ys) = xs @ al_put R key w ys"
  "absent R key xs \<Longrightarrow> al_del R key (xs @ ys) = xs @ al_del R key ys"
  by (induction xs) (auto simp: al_get_def)

lemma al_absent:
  "absent R key kvs \<Longrightarrow> al_get R key kvs = None" "absent R key kvs \<Longrightarrow> al_put R key w kvs = kvs @ [(key, w)]"
  "absent R key kvs \<Longrightarrow> al_del R key kvs = kvs"
  using al_skip [where xs = kvs and ys = "[]" and R = R and key = key] by (simp_all add: al_get_def)

lemma al_get_put:
  assumes "equivp R" "R key key'"
  shows "al_get R key' (al_put R key w kvs) = Some w"
proof (induction kvs)
  case (Cons kv kvs)
  have "R k key \<longleftrightarrow> R k key'" for k using assms by (metis equivp_symp equivp_transp)
  then show ?case using Cons by (cases kv) (simp add: al_get_def)
qed (use assms in \<open>simp add: al_get_def\<close>)

lemma al_get_put_other:
  assumes "equivp R" "\<not> R key key'"
  shows "al_get R key' (al_put R key w kvs) = al_get R key' kvs"
proof (induction kvs)
  case (Cons kv kvs)
  have "R k key \<Longrightarrow> \<not> R k key'" for k using assms by (metis equivp_symp equivp_transp)
  then show ?case using Cons by (cases kv) (simp add: al_get_def)
qed (use assms in \<open>simp add: al_get_def\<close>)

definition items_of :: "('k, 'v) entry list \<Rightarrow> ('k \<times> 'v) list" where
  "items_of es = map (\<lambda>e. (the (me_key e), the (me_value e))) (filter live_entry es)"

lemma items_of_simps [simp]:
  "items_of [] = []" "items_of (xs @ ys) = items_of xs @ items_of ys"
  "items_of (e # es) = (if live_entry e then (the (me_key e), the (me_value e)) # items_of es else items_of es)"
  by (simp_all add: items_of_def)

definition dict_items :: "('k, 'v) dictobj \<Rightarrow> ('k \<times> 'v) list" where
  "dict_items mp = items_of (dk_entries (ma_keys mp))"

definition live_set :: "('k, 'v) entry list \<Rightarrow> nat set" where
  "live_set es = {j. j < length es \<and> live_entry (es ! j)}"

lemma card_live_set: "card (live_set es) = length (items_of es)"
  by (simp add: live_set_def items_of_def length_filter_conv_card)

lemma live_set_simps [simp]: "live_set [] = {}" "finite (live_set es)"
  by (simp_all add: live_set_def)

lemma live_set_update: "j < length es \<Longrightarrow> live_set (es[j := e]) = (if live_entry e then insert j (live_set es) else live_set es - {j})"
  by (auto simp: live_set_def nth_list_update)

text \<open>What a search returns: the index of the entry whose key equals \<open>key\<close>, or \<open>DKIX_EMPTY\<close>.\<close>

definition found :: "('k \<Rightarrow> 'k \<Rightarrow> bool) \<Rightarrow> ('k, 'v) entry list \<Rightarrow> 'k \<Rightarrow> int \<Rightarrow> 'v option \<Rightarrow> bool" where
  "found R es key ix v \<longleftrightarrow>
     ix = DKIX_EMPTY \<and> v = None \<and> (\<forall>j\<in>live_set es. \<not> R (the (me_key (es ! j))) key) \<or>
     (\<exists>j\<in>live_set es. ix = int j \<and> v = me_value (es ! j) \<and> R (the (me_key (es ! j))) key)"

lemma found_missing:
  assumes "found R es key DKIX_EMPTY v"
  shows "v = None" "absent R key (items_of es)"
  using assms by (auto simp: found_def absent_def items_of_def live_set_def in_set_conv_nth)

definition keys_distinct :: "('k \<Rightarrow> 'k \<Rightarrow> bool) \<Rightarrow> ('k, 'v) entry list \<Rightarrow> bool" where
  "keys_distinct R es \<longleftrightarrow>
     (\<forall>i\<in>live_set es. \<forall>j\<in>live_set es. R (the (me_key (es ! i))) (the (me_key (es ! j))) \<longrightarrow> i = j)"

lemma found_split:
  assumes R: "equivp R" and f: "found R es key (int j) v" and d: "keys_distinct R es"
  obtains pre post where "es = pre @ es ! j # post" "length pre = j" "v = me_value (es ! j)" "live_entry (es ! j)"
    "R (the (me_key (es ! j))) key" "absent R key (items_of pre)"
proof -
  have j: "j \<in> live_set es" "v = me_value (es ! j)" "R (the (me_key (es ! j))) key"
    using f by (auto simp: found_def)
  have "absent R key (items_of (take j es))"
    unfolding absent_def
  proof (intro ballI notI)
    fix k assume "k \<in> fst ` set (items_of (take j es))" and k: "R k key"
    then obtain e where "e \<in> set (take j es)" "live_entry e" "k = the (me_key e)" by (auto simp: items_of_def)
    then obtain i where i: "i < j" "i \<in> live_set es" "k = the (me_key (es ! i))"
      using j(1) by (auto simp: in_set_conv_nth live_set_def)
    have "R k (the (me_key (es ! j)))" using k j(3) R by (metis equivp_symp equivp_transp)
    then show False using d i j(1) by (auto simp: keys_distinct_def)
  qed
  then show thesis
    by (intro that [of "take j es" "drop (Suc j) es"]) (use j in \<open>auto simp: live_set_def id_take_nth_drop\<close>)
qed

text \<open>Changing the entry that was found changes the item of that key.\<close>

lemma found_items:
  assumes R: "equivp R" and f: "found R es key (int j) v" and d: "keys_distinct R es"
  shows "al_get R key (items_of es) = v" "v \<noteq> None"
    and "items_of (es[j := (es ! j)\<lparr>me_value := Some w\<rparr>]) = al_put R key w (items_of es)"
    and "items_of (es[j := (es ! j)\<lparr>me_key := None, me_value := None\<rparr>]) = al_del R key (items_of es)"
proof -
  obtain pre post where es: "es = pre @ es ! j # post" "length pre = j" and v: "v = me_value (es ! j)" "live_entry (es ! j)"
    and R': "R (the (me_key (es ! j))) key" and pre: "absent R key (items_of pre)"
    using found_split [OF R f d] by blast
  have upd: "es[j := e] = pre @ e # post" for e using es by (metis list_update_length)
  have items: "items_of es = items_of pre @ (the (me_key (es ! j)), the v) # items_of post"
    by (subst es(1)) (use v in simp)
  show "al_get R key (items_of es) = v" using R' v unfolding items al_skip [OF pre] by (auto simp: al_get_def live_entry_def)
  show "v \<noteq> None" using v by (simp add: live_entry_def)
  show "items_of (es[j := (es ! j)\<lparr>me_value := Some w\<rparr>]) = al_put R key w (items_of es)"
    using R' unfolding items al_skip [OF pre] upd by (simp add: live_entry_def)
  show "items_of (es[j := (es ! j)\<lparr>me_key := None, me_value := None\<rparr>]) = al_del R key (items_of es)"
    using R' unfolding items al_skip [OF pre] upd by (simp add: live_entry_def)
qed

section \<open>The invariant\<close>

definition entry_ok :: "('k \<Rightarrow> size_t) \<Rightarrow> ('k, 'v) entry \<Rightarrow> bool" where
  "entry_ok h e \<longleftrightarrow> (case me_key e of None \<Rightarrow> me_value e = None | Some k \<Rightarrow> me_value e \<noteq> None \<and> me_hash e = h k)"

text \<open>A specialised lookup function is only used where it applies.\<close>

definition lookup_ok :: "('k \<Rightarrow> bool) \<Rightarrow> ('k, 'v) keysobj \<Rightarrow> bool" where
  "lookup_ok uni dk \<longleftrightarrow>
     dk_lookup dk \<noteq> LookdictSplit \<and>
     (dk_lookup dk \<noteq> Lookdict \<longrightarrow> (\<forall>j\<in>live_set (dk_entries dk). uni (the (me_key (dk_entries dk ! j))))) \<and>
     (dk_lookup dk = LookdictUnicodeNodummy \<longrightarrow> DKIX_DUMMY \<notin> set (dk_indices dk))"

definition keys_inv :: "('k \<Rightarrow> bool) \<Rightarrow> ('k \<Rightarrow> size_t) \<Rightarrow> ('k \<Rightarrow> 'k \<Rightarrow> bool) \<Rightarrow> nat \<Rightarrow> ('k, 'v) keysobj \<Rightarrow> bool" where
  "keys_inv uni h R k dk \<longleftrightarrow>
     3 \<le> k \<and> k \<le> 62 \<and>
     slots_ok k (dk_indices dk) (live_set (dk_entries dk)) (\<lambda>j. me_hash (dk_entries dk ! j)) \<and>
     length (dk_entries dk) = USABLE_FRACTION (2 ^ k) \<and>
     0 \<le> dk_usable dk \<and> int (dk_nentries dk) + dk_usable dk \<le> int (USABLE_FRACTION (2 ^ k)) \<and>
     int (filled (dk_indices dk)) + dk_usable dk \<le> int (USABLE_FRACTION (2 ^ k)) \<and>
     (\<forall>e\<in>set (dk_entries dk). entry_ok h e) \<and> live_set (dk_entries dk) \<subseteq> {..<dk_nentries dk} \<and>
     keys_distinct R (dk_entries dk) \<and> lookup_ok uni dk"

definition dict_inv :: "('k \<Rightarrow> bool) \<Rightarrow> ('k \<Rightarrow> size_t) \<Rightarrow> ('k \<Rightarrow> 'k \<Rightarrow> bool) \<Rightarrow> ('k, 'v) dictobj \<Rightarrow> bool" where
  "dict_inv uni h R mp \<longleftrightarrow>
     ma_used mp = length (dict_items mp) \<and>
     (ma_values mp = NoValues \<and> (\<exists>k. keys_inv uni h R k (ma_keys mp)) \<or>
      ma_values mp = EmptyValues \<and> ma_keys mp = empty_keys_struct)"

lemma keys_invD:
  assumes "keys_inv uni h R k dk"
  shows "3 \<le> k" "k \<le> 62" "k \<le> 64"
    "slots_ok k (dk_indices dk) (live_set (dk_entries dk)) (\<lambda>j. me_hash (dk_entries dk ! j))"
    "length (dk_entries dk) = USABLE_FRACTION (2 ^ k)" "0 \<le> dk_usable dk"
    "int (dk_nentries dk) + dk_usable dk \<le> int (USABLE_FRACTION (2 ^ k))"
    "int (filled (dk_indices dk)) + dk_usable dk \<le> int (USABLE_FRACTION (2 ^ k))"
    "\<forall>e\<in>set (dk_entries dk). entry_ok h e" "live_set (dk_entries dk) \<subseteq> {..<dk_nentries dk}"
    "keys_distinct R (dk_entries dk)" "lookup_ok uni dk" "dk_size dk = 2 ^ k" "dk_mask dk = mask k"
  using assms slots_okD(1) [of k "dk_indices dk"]
  by (auto simp: keys_inv_def dk_size_def dk_mask_def mask_eq_exp_minus_1)

lemma keys_inv_empty_slot:
  assumes "keys_inv uni h R k dk"
  obtains i where "i < 2 ^ k" "dk_indices dk ! i = DKIX_EMPTY"
proof -
  note D = keys_invD [OF assms]
  have "USABLE_FRACTION (2 ^ k) < 2 ^ k" by (intro USABLE_FRACTION_less) simp
  then have "filled (dk_indices dk) < length (dk_indices dk)" using D(6,8,13) by (simp add: dk_size_def)
  then show thesis using that D(13) by (metis dk_size_def empty_slot_exists)
qed

lemma entry_ok_live: "entry_ok h e \<Longrightarrow> live_entry e \<longleftrightarrow> me_key e \<noteq> None"
  "entry_ok h e \<Longrightarrow> live_entry e \<Longrightarrow> me_hash e = h (the (me_key e))"
  by (auto simp: entry_ok_def live_entry_def split: option.splits)

lemma keys_inv_live:
  assumes "keys_inv uni h R k dk" "j \<in> live_set (dk_entries dk)"
  shows "me_key (dk_entries dk ! j) \<noteq> None" "me_hash (dk_entries dk ! j) = h (the (me_key (dk_entries dk ! j)))"
    "me_value (dk_entries dk ! j) \<noteq> None" "j < dk_nentries dk" "j < length (dk_entries dk)"
proof -
  have j: "j < length (dk_entries dk)" "live_entry (dk_entries dk ! j)" using assms(2) by (simp_all add: live_set_def)
  then have "entry_ok h (dk_entries dk ! j)" using keys_invD(9) [OF assms(1)] by simp
  then show "me_key (dk_entries dk ! j) \<noteq> None" "me_hash (dk_entries dk ! j) = h (the (me_key (dk_entries dk ! j)))"
    using j(2) entry_ok_live by blast+
  show "me_value (dk_entries dk ! j) \<noteq> None" using j by (simp add: live_entry_def)
  show "j < dk_nentries dk" using keys_invD(10) [OF assms(1)] assms(2) by blast
qed (use assms(2) in \<open>simp add: live_set_def\<close>)

section \<open>Distinct keys\<close>

fun al_distinct :: "('k \<Rightarrow> 'k \<Rightarrow> bool) \<Rightarrow> ('k \<times> 'v) list \<Rightarrow> bool" where
  "al_distinct R [] \<longleftrightarrow> True"
| "al_distinct R ((k, v) # kvs) \<longleftrightarrow> absent R k kvs \<and> al_distinct R kvs"

lemma absent_append [simp]: "absent R key (xs @ ys) \<longleftrightarrow> absent R key xs \<and> absent R key ys"
  by (auto simp: absent_def)

lemma al_distinct_snoc: "symp R \<Longrightarrow> al_distinct R (kvs @ [(k, v)]) \<longleftrightarrow> al_distinct R kvs \<and> absent R k kvs"
  by (induction kvs) (auto dest: sympD)

lemma al_distinct_put: "al_distinct R kvs \<Longrightarrow> symp R \<Longrightarrow> al_distinct R (al_put R k v kvs)"
proof (induction kvs)
  case (Cons kv kvs)
  have keys: "fst ` set (al_put R k v kvs) \<subseteq> insert k (fst ` set kvs)" for kvs :: "('a \<times> 'b) list"
    by (induction R k v kvs rule: al_put.induct) auto
  obtain a b where "kv = (a, b)" by force
  moreover have "absent R a (al_put R k v kvs)" if "absent R a kvs" "\<not> R a k"
    using that keys [of kvs] Cons.prems(2) unfolding absent_def by (metis insertE subsetD sympD)
  ultimately show ?case using Cons by auto
qed simp

lemma al_distinct_del: "al_distinct R kvs \<Longrightarrow> al_distinct R (al_del R k kvs)"
proof (induction kvs)
  case (Cons kv kvs)
  have "set (al_del R k kvs) \<subseteq> set kvs" for kvs :: "('a \<times> 'b) list"
    by (induction R k kvs rule: al_del.induct) auto
  from this [of kvs] Cons show ?case by (cases kv) (auto simp: absent_def)
qed simp

lemma live_set_Cons: "live_set (e # es) = (if live_entry e then {0} else {}) \<union> Suc ` live_set es"
  unfolding live_set_def using less_Suc_eq_0_disj by auto

lemma absent_items: "absent R key (items_of es) \<longleftrightarrow> (\<forall>j\<in>live_set es. \<not> R (the (me_key (es ! j))) key)"
  by (induction es) (auto simp: live_set_Cons)

lemma keys_distinct_items: "symp R \<Longrightarrow> keys_distinct R es \<longleftrightarrow> al_distinct R (items_of es)"
proof (induction es)
  case (Cons e es)
  have "keys_distinct R (e # es) \<longleftrightarrow> keys_distinct R es \<and> (live_entry e \<longrightarrow> absent R (the (me_key e)) (items_of es))"
    using Cons.prems by (auto simp: keys_distinct_def live_set_Cons absent_items dest: sympD)
  then show ?case using Cons by auto
qed (simp add: keys_distinct_def)

section \<open>Writing the table of indices\<close>

lemma sint_of_int_word:
  assumes "- (2 ^ n) \<le> i" "i < 2 ^ n" "LENGTH('a :: len) = Suc n"
  shows "sint (of_int i :: 'a word) = i"
  using assms by (simp add: sint_sbintrunc' signed_take_bit_int_eq_self)

text \<open>No index is cut off when it is stored.\<close>

lemma narrow_index_exact:
  assumes k: "k \<le> 62" and ix: "- 2 \<le> ix" "ix \<le> int (USABLE_FRACTION (2 ^ k))"
  shows "narrow_index (2 ^ k) ix = ix"
proof -
  have le: "k \<le> n" if "(2 :: nat) ^ k < 2 ^ Suc n" for n
    using that by (metis less_Suc_eq_le nat_power_less_imp_less zero_less_numeral)
  have lt: "ix < 2 ^ n" if "k \<le> n" for n
  proof -
    have "int (USABLE_FRACTION (2 ^ k)) < 2 ^ k" using USABLE_FRACTION_less [of "2 ^ k"] by (simp flip: of_nat_less_iff)
    also have "(2 :: int) ^ k \<le> 2 ^ n" using that by (simp add: power_increasing)
    finally show ?thesis using ix(2) by linarith
  qed
  have w: "sint (of_int ix :: 8 word) = ix" if "k \<le> 7" using lt [OF that] ix by (intro sint_of_int_word [of 7]) simp_all
  have w2: "sint (of_int ix :: 16 word) = ix" if "k \<le> 15" using lt [OF that] ix by (intro sint_of_int_word [of 15]) simp_all
  have w3: "sint (of_int ix :: 32 word) = ix" if "k \<le> 31" using lt [OF that] ix by (intro sint_of_int_word [of 31]) simp_all
  have w4: "sint (of_int ix :: 64 word) = ix" using lt [of 63] k ix by (intro sint_of_int_word [of 63]) simp_all
  show ?thesis using w w2 w3 w4 le [of 7] le [of 15] le [of 31] by (simp add: narrow_index_def)
qed

lemma probe_first:
  assumes "k \<le> 64" "i < 2 ^ k" "Q i"
  shows "\<exists>n. probe (\<lambda>i st. if Q i then (Some i, st) else (None, st)) (mask k) hash st = Some (slot (mask k) hash n, st) \<and>
    Q (slot (mask k) hash n) \<and> (\<forall>m<n. \<not> Q (slot (mask k) hash m))"
proof -
  obtain n where n: "first_stop Q (mask k) hash n" using first_stop_exists [of k i Q hash] assms by blast
  have "probe (\<lambda>i st. if Q i then (Some i, st) else (None, st)) (mask k) hash st = Some (slot (mask k) hash n, st)"
    by (rule probe_eq [OF n]) (use n in \<open>simp_all add: first_stop_def\<close>)
  then show ?thesis using n by (auto simp: first_stop_def)
qed

lemma find_empty_slot_eq:
  assumes "k \<le> 64" "dk_mask dk = mask k" "i < 2 ^ k" "dk_indices dk ! i < 0"
  shows "\<exists>n. find_empty_slot dk hash = Some (slot (mask k) hash n) \<and> dk_indices dk ! slot (mask k) hash n < 0 \<and>
    (\<forall>m<n. dk_indices dk ! slot (mask k) hash m \<noteq> DKIX_EMPTY)"
proof -
  have "(\<lambda>i st. if dictkeys_get_index dk i \<ge> 0 then (None, st) else (Some i, st)) =
      (\<lambda>i (st :: unit). if dk_indices dk ! i < 0 then (Some i, st) else (None, st))"
    by (auto simp: dictkeys_get_index_def fun_eq_iff)
  then show ?thesis using probe_first [of k i "\<lambda>i. dk_indices dk ! i < 0" hash "()"] assms
    unfolding find_empty_slot_def by force
qed

lemma build_indices_eq:
  assumes "k \<le> 62" "length es \<le> USABLE_FRACTION (2 ^ k)" "es = pre @ eps" "ix = length pre"
    and "slots_ok k (dk_indices keys) {..<ix} (\<lambda>j. me_hash (es ! j))" "filled (dk_indices keys) \<le> ix" "DKIX_DUMMY \<notin> set (dk_indices keys)"
  shows "\<exists>idx. build_indices keys eps ix = Some (keys\<lparr>dk_indices := idx\<rparr>) \<and>
    slots_ok k idx {..<length es} (\<lambda>j. me_hash (es ! j)) \<and> filled idx \<le> length es \<and> DKIX_DUMMY \<notin> set idx"
  using assms(3-7)
proof (induction eps arbitrary: pre ix keys)
  case Nil
  then show ?case by (intro exI [of _ "dk_indices keys"]) simp
next
  case (Cons ep eps)
  let ?idx = "dk_indices keys" and ?hs = "\<lambda>j. me_hash (es ! j)"
  note len = slots_okD(1) [OF Cons.prems(3)]
  have k64: "k \<le> 64" using assms(1) by simp
  have ep: "es ! ix = ep" using Cons.prems(1,2) by (simp add: nth_append)
  have "USABLE_FRACTION (2 ^ k) < 2 ^ k" by (intro USABLE_FRACTION_less) simp
  then have "filled ?idx < length ?idx" using Cons.prems len assms(2) by simp
  then obtain i where i: "i < 2 ^ k" "?idx ! i = DKIX_EMPTY" using empty_slot_exists len by metis
  have msk: "dk_mask keys = mask k" by (simp add: dk_mask_def dk_size_def len mask_eq_exp_minus_1)
  have "(\<lambda>i st. if dictkeys_get_index keys i \<noteq> DKIX_EMPTY then (None, st) else (Some i, st)) =
      (\<lambda>i (st :: unit). if ?idx ! i = DKIX_EMPTY then (Some i, st) else (None, st))"
    by (auto simp: dictkeys_get_index_def fun_eq_iff)
  then obtain n where n: "probe (\<lambda>i st. if dictkeys_get_index keys i \<noteq> DKIX_EMPTY then (None, st) else (Some i, st))
      (dk_mask keys) (me_hash ep) () = Some (slot (mask k) (me_hash ep) n, ())"
    "?idx ! slot (mask k) (me_hash ep) n = DKIX_EMPTY" "\<forall>m<n. ?idx ! slot (mask k) (me_hash ep) m \<noteq> DKIX_EMPTY"
    using probe_first [of k i "\<lambda>i. ?idx ! i = DKIX_EMPTY" "me_hash ep" "()"] i k64 msk by force
  define p where "p = slot (mask k) (me_hash ep) n"
  have p: "p < 2 ^ k" unfolding p_def by (rule slot_less [OF k64])
  have nar: "narrow_index (dk_size keys) (int ix) = int ix"
    using narrow_index_exact [OF assms(1), of "int ix"] assms(2) Cons.prems(1,2) len by (simp add: dk_size_def)
  have "slots_ok k (?idx[slot (mask k) (?hs ix) n := int ix]) (insert ix {..<ix}) ?hs"
    by (rule slots_ok_insert [OF Cons.prems(3) k64]) (use n ep in simp_all)
  then have ok: "slots_ok k (?idx[p := int ix]) {..<Suc ix} ?hs" by (simp add: p_def ep lessThan_Suc)
  have "\<exists>idx. build_indices (dictkeys_set_index keys p (int ix)) eps (Suc ix) = Some (dictkeys_set_index keys p (int ix)\<lparr>dk_indices := idx\<rparr>) \<and>
    slots_ok k idx {..<length es} ?hs \<and> filled idx \<le> length es \<and> DKIX_DUMMY \<notin> set idx"
  proof (rule Cons.IH [of "pre @ [ep]"])
    show "filled (dk_indices (dictkeys_set_index keys p (int ix))) \<le> Suc ix"
      using filled_update [of p ?idx "int ix"] p len Cons.prems(4) by (simp add: dictkeys_set_index_def nar)
    show "DKIX_DUMMY \<notin> set (dk_indices (dictkeys_set_index keys p (int ix)))"
      using Cons.prems(5) set_update_subset_insert [of ?idx p "int ix"] by (auto simp: dictkeys_set_index_def nar)
  qed (use Cons.prems ok nar in \<open>simp_all add: dictkeys_set_index_def\<close>)
  then show ?case using n(1) by (simp add: p_def dictkeys_set_index_def)
qed

end
