(* ===== verification/Dict_Object_Correct.thy ===== *)
theory Dict_Object_Correct
  imports Dict_Table
begin

text \<open>
  The operations of the hash table implement the abstract dictionary: under the invariant every search ends and
  finds the entry of the key, insertion and deletion update the list of items and keep the invariant, whichever
  lookup function the table uses and whether or not it is resized. The proofs are made once in the locale
  \<open>quiet_keys\<close>, the interface to hashing and comparing, which is interpreted on dictionaries with integer and string keys.
\<close>

section \<open>Searching\<close>

text \<open>
  The interface to the interpreter on which the correctness of the table rests: hashing and comparing
  keys return without side effects, equality is an equivalence, equal keys have equal hashes, no hash is \<open>-1\<close>,
  and on exact strings equality is equality of the contents.
\<close>

locale quiet_keys =
  fixes env :: "('k, 'v, 's) key_env" and h :: "'k \<Rightarrow> size_t" and R :: "'k \<Rightarrow> 'k \<Rightarrow> bool"
  assumes hash_of: "hash_of env key st = (Some (h key), st)"
    and key_eq: "key_eq env a b st = (Some (R a b), st)"
    and equiv: "equivp R"
    and hash_eq: "R a b \<Longrightarrow> h a = h b"
    and hash_valid: "h a \<noteq> - 1"
    and unicode: "unicode_data env a = Some u \<Longrightarrow> unicode_data env b = Some w \<Longrightarrow> R a b \<longleftrightarrow> unicode_eq u w"
begin

abbreviation uni :: "'k \<Rightarrow> bool" where
  "uni key \<equiv> unicode_data env key \<noteq> None"

lemma R_refl [simp]: "R a a"
  using equiv by (rule equivp_reflp)

text \<open>The search that all lookup functions share, in terms of what the body does at a slot.\<close>

lemma probe_found:
  assumes inv: "keys_inv uni h R k dk"
    and empty: "\<And>i. dk_indices dk ! i = DKIX_EMPTY \<Longrightarrow> visit i st = (Some (LookAt DKIX_EMPTY None), st)"
    and dummy: "\<And>i. i < 2 ^ k \<Longrightarrow> dk_indices dk ! i = DKIX_DUMMY \<Longrightarrow> visit i st = (None, st)"
    and entry: "\<And>i j. i < 2 ^ k \<Longrightarrow> dk_indices dk ! i = int j \<Longrightarrow> j \<in> live_set (dk_entries dk) \<Longrightarrow>
      visit i st = ((if R (the (me_key (dk_entries dk ! j))) key then Some (LookAt (int j) (me_value (dk_entries dk ! j))) else None), st)"
  shows "\<exists>ix v. probe visit (mask k) (h key) st = Some (LookAt ix v, st) \<and> found R (dk_entries dk) key ix v"
proof -
  note D = keys_invD [OF inv]
  note okD = slots_okD [OF D(4)]
  define stop where "stop i \<longleftrightarrow> (i < 2 ^ k \<longrightarrow> dk_indices dk ! i = DKIX_EMPTY \<or>
      (\<exists>j\<in>live_set (dk_entries dk). dk_indices dk ! i = int j \<and> R (the (me_key (dk_entries dk ! j))) key))" for i
  obtain i0 where i0: "i0 < 2 ^ k" "dk_indices dk ! i0 = DKIX_EMPTY" using keys_inv_empty_slot [OF inv] .
  then obtain n where n: "first_stop stop (mask k) (h key) n"
    using first_stop_exists [OF D(3) i0(1), of stop "h key"] by (auto simp: stop_def)
  define p where "p = slot (mask k) (h key) n"
  have p: "p < 2 ^ k" unfolding p_def by (rule slot_less [OF D(3)])
  have go: "visit i st = (None, st)" if "\<not> stop i" for i
    using that okD(2) [of i] dummy [of i] entry [of i] by (auto simp: stop_def)
  have "stop p" using n by (simp add: first_stop_def p_def)
  then consider "dk_indices dk ! p = DKIX_EMPTY"
    | j where "j \<in> live_set (dk_entries dk)" "dk_indices dk ! p = int j" "R (the (me_key (dk_entries dk ! j))) key"
    using p by (auto simp: stop_def)
  then show ?thesis
  proof cases
    case 1
    have "probe visit (mask k) (h key) st = Some (LookAt DKIX_EMPTY None, st)"
      by (rule probe_eq [where visit = visit and st = st, OF n go]) (use empty [OF 1] in \<open>simp_all add: p_def\<close>)
    moreover have "\<not> R (the (me_key (dk_entries dk ! j))) key" if j: "j \<in> live_set (dk_entries dk)" for j
    proof
      assume R: "R (the (me_key (dk_entries dk ! j))) key"
      then have hash: "me_hash (dk_entries dk ! j) = h key" using keys_inv_live(2) [OF inv j] hash_eq by simp
      obtain m where m: "dk_indices dk ! slot (mask k) (h key) m = int j"
        "\<forall>l<m. dk_indices dk ! slot (mask k) (h key) l \<noteq> DKIX_EMPTY"
        using okD(4) [OF j] hash by auto
      have "stop (slot (mask k) (h key) m)" using m(1) R j by (auto simp: stop_def)
      then have "n \<le> m" using n by (metis first_stop_def not_le)
      moreover have "n \<noteq> m" using 1 m(1) by (auto simp: p_def)
      ultimately show False using m(2) 1 by (auto simp: p_def)
    qed
    ultimately show ?thesis by (auto simp: found_def)
  next
    case (2 j)
    have "visit p st = (Some (LookAt (int j) (me_value (dk_entries dk ! j))), st)" using entry [OF p 2(2,1)] 2(3) by simp
    then have "probe visit (mask k) (h key) st = Some (LookAt (int j) (me_value (dk_entries dk ! j)), st)"
      by (intro probe_eq [where visit = visit and st = st, OF n go]) (simp_all add: p_def)
    then show ?thesis using 2 by (auto simp: found_def)
  qed
qed

lemma lookdict_found:
  assumes "keys_inv uni h R k (ma_keys mp)"
  shows "\<exists>ix v. lookdict env key (h key) (mp, s) = Some (Inr (ix, v), (mp, s)) \<and> found R (dk_entries (ma_keys mp)) key ix v"
proof -
  let ?dk = "ma_keys mp"
  have "\<exists>ix v. probe (lookdict_visit env key (h key) (keys_id mp)) (mask k) (h key) (mp, s) = Some (LookAt ix v, (mp, s)) \<and>
      found R (dk_entries ?dk) key ix v"
  proof (rule probe_found [OF assms])
    fix i j assume i: "i < 2 ^ k" "dk_indices ?dk ! i = int j" "j \<in> live_set (dk_entries ?dk)"
    note live = keys_inv_live [OF assms i(3)]
    have "R (the (me_key (dk_entries ?dk ! j))) key \<Longrightarrow> me_hash (dk_entries ?dk ! j) = h key" using live(2) hash_eq by simp
    then show "lookdict_visit env key (h key) (keys_id mp) i (mp, s) =
        (if R (the (me_key (dk_entries ?dk ! j))) key then Some (LookAt (int j) (me_value (dk_entries ?dk ! j))) else None, (mp, s))"
      using i live(1) by (auto simp: lookdict_visit_def dictkeys_get_index_def Let_def key_eq)
  qed (simp_all add: lookdict_visit_def dictkeys_get_index_def)
  then show ?thesis using keys_invD(14) [OF assms] by (subst lookdict.simps) auto
qed

lemma unicode_match_R:
  assumes inv: "keys_inv uni h R k dk" and j: "j \<in> live_set (dk_entries dk)" and u: "uni key" "dk_lookup dk \<noteq> Lookdict"
  shows "unicode_match env (dk_entries dk ! j) key (h key) \<longleftrightarrow> R (the (me_key (dk_entries dk ! j))) key"
proof -
  note live = keys_inv_live [OF inv j]
  have "uni (the (me_key (dk_entries dk ! j)))" using keys_invD(12) [OF inv] u(2) j by (simp add: lookup_ok_def)
  then have "R (the (me_key (dk_entries dk ! j))) key \<longleftrightarrow>
      unicode_eq (the (unicode_data env (the (me_key (dk_entries dk ! j))))) (the (unicode_data env key))"
    using u(1) unicode by auto
  then show ?thesis using live(1,2) hash_eq by (auto simp: unicode_match_def)
qed

lemma lookdict_unicode_found:
  assumes inv: "keys_inv uni h R k (ma_keys mp)" and l: "dk_lookup (ma_keys mp) \<noteq> Lookdict"
  shows "\<exists>ix v. lookdict_unicode env key (h key) (mp, s) = Some (Inr (ix, v), (mp, s)) \<and> found R (dk_entries (ma_keys mp)) key ix v"
proof (cases "uni key")
  case True
  let ?dk = "ma_keys mp"
  have "\<exists>ix v. probe (lookdict_unicode_visit env ?dk key (h key)) (mask k) (h key) (mp, s) = Some (LookAt ix v, (mp, s)) \<and>
      found R (dk_entries ?dk) key ix v"
    by (rule probe_found [OF inv])
      (auto simp: lookdict_unicode_visit_def dictkeys_get_index_def Let_def unicode_match_R [OF inv _ True l])
  then show ?thesis using True keys_invD(14) [OF inv] by (auto simp: lookdict_unicode_def look_result_def)
qed (use lookdict_found [OF inv] in \<open>simp add: lookdict_unicode_def\<close>)

lemma lookdict_unicode_nodummy_found:
  assumes inv: "keys_inv uni h R k (ma_keys mp)" and l: "dk_lookup (ma_keys mp) = LookdictUnicodeNodummy"
  shows "\<exists>ix v. lookdict_unicode_nodummy env key (h key) (mp, s) = Some (Inr (ix, v), (mp, s)) \<and>
    found R (dk_entries (ma_keys mp)) key ix v"
proof (cases "uni key")
  case True
  let ?dk = "ma_keys mp" and ?v = "\<lambda>ix. me_value (dk_entries (ma_keys mp) ! ix)"
  have nd: "dk_indices ?dk ! i \<noteq> DKIX_DUMMY" if "i < 2 ^ k" for i
    using keys_invD(12,13) [OF inv] l that unfolding lookup_ok_def dk_size_def by (metis nth_mem)
  have "\<exists>ix v. probe (lookdict_nodummy_visit env ?dk key (h key) ?v) (mask k) (h key) (mp, s) = Some (LookAt ix v, (mp, s)) \<and>
      found R (dk_entries ?dk) key ix v"
    by (rule probe_found [OF inv])
      (use nd in \<open>auto simp: lookdict_nodummy_visit_def dictkeys_get_index_def Let_def unicode_match_R [OF inv _ True] l\<close>)
  then show ?thesis using True keys_invD(14) [OF inv] by (auto simp: lookdict_unicode_nodummy_def look_result_def)
qed (use lookdict_found [OF inv] in \<open>simp add: lookdict_unicode_nodummy_def\<close>)

text \<open>The shared empty table: every search ends at its only slot.\<close>

lemma empty_keys_lookup:
  assumes "ma_keys mp = empty_keys_struct"
  shows "dk_lookup_call env key hash (mp, s) = Some (Inr (DKIX_EMPTY, None), (mp, s))"
proof -
  have m: "dk_mask (empty_keys_struct :: ('k, 'v) keysobj) = 0" by (simp add: dk_mask_def dk_size_def empty_keys_struct_def)
  have e: "visit 0 st = (Some r, st') \<Longrightarrow> probe visit 0 hash st = Some (r, st')" for visit :: "nat \<Rightarrow> ('k, 'v, 's) dstate \<Rightarrow> _" and st r st'
    unfolding probe_def by (subst probe_loop.simps) simp
  have "lookdict env key hash (mp, s) = Some (Inr (DKIX_EMPTY, None), (mp, s))"
    using e [of "lookdict_visit env key hash (keys_id mp)" "(mp, s)"] assms m
    by (subst lookdict.simps) (simp add: lookdict_visit_def dictkeys_get_index_def empty_keys_struct_def)
  moreover have "probe (lookdict_nodummy_visit env empty_keys_struct key hash (value_slot (ma_values mp))) 0 hash (mp, s) =
      Some (LookAt DKIX_EMPTY None, (mp, s))"
    by (rule e) (simp add: lookdict_nodummy_visit_def dictkeys_get_index_def empty_keys_struct_def)
  moreover have "dk_lookup (empty_keys_struct :: ('k, 'v) keysobj) = LookdictSplit" by (simp add: empty_keys_struct_def)
  ultimately show ?thesis using assms m by (simp add: dk_lookup_call_def lookdict_split_def look_result_def)
qed

theorem lookup_found:
  assumes "dict_inv uni h R mp"
  shows "\<exists>ix v. dk_lookup_call env key (h key) (mp, s) = Some (Inr (ix, v), (mp, s)) \<and> found R (dk_entries (ma_keys mp)) key ix v"
proof (cases "ma_values mp = NoValues")
  case True
  then obtain k where k: "keys_inv uni h R k (ma_keys mp)" using assms by (auto simp: dict_inv_def)
  then have "dk_lookup (ma_keys mp) \<noteq> LookdictSplit" using keys_invD(12) [OF k] by (simp add: lookup_ok_def)
  then show ?thesis
    using lookdict_found [OF k] lookdict_unicode_found [OF k] lookdict_unicode_nodummy_found [OF k]
    by (cases "dk_lookup (ma_keys mp)") (simp_all add: dk_lookup_call_def)
next
  case False
  then have "ma_keys mp = empty_keys_struct" using assms by (auto simp: dict_inv_def)
  then show ?thesis using empty_keys_lookup [of mp] by (auto simp: found_def empty_keys_struct_def)
qed

end

section \<open>Resizing\<close>

lemma items_of_filter [simp]: "items_of (filter live_entry es) = items_of es"
  by (simp add: items_of_def)

lemma items_of_dead: "(\<And>e. e \<in> set es \<Longrightarrow> \<not> live_entry e) \<Longrightarrow> items_of es = []"
  by (induction es) auto

lemma length_items_of: "length (items_of es) = length (filter live_entry es)"
  by (simp add: items_of_def)

text \<open>The entries that move to the new table are the live ones, whichever way they are copied.\<close>

lemma resize_entries_live:
  assumes inv: "keys_inv uni h R k (ma_keys mp)" and v: "ma_values mp = NoValues" and u: "ma_used mp = length (dict_items mp)"
  shows "resize_entries mp = filter live_entry (dk_entries (ma_keys mp))"
proof -
  let ?es = "dk_entries (ma_keys mp)"
  define n where "n = ma_used mp"
  have len: "length (filter live_entry ?es) = n" using u by (simp add: n_def dict_items_def length_items_of)
  show ?thesis
  proof (cases "dk_nentries (ma_keys mp) = n")
    case True
    then have sub: "live_set ?es \<subseteq> {..<n}" using keys_invD(10) [OF inv] by simp
    have "card (live_set ?es) = n" using len by (simp add: card_live_set length_items_of)
    then have "live_set ?es = {..<n}" using sub by (intro card_subset_eq) simp_all
    then have live: "live_entry (?es ! j) \<longleftrightarrow> j < n" if "j < length ?es" for j
      using that unfolding live_set_def by blast
    have "filter live_entry (take n ?es) = take n ?es" by (rule filter_True) (auto simp: in_set_conv_nth live)
    moreover have "filter live_entry (drop n ?es) = []" by (rule filter_False) (auto simp: in_set_conv_nth live)
    ultimately have "filter live_entry ?es = take n ?es" by (metis append_Nil2 append_take_drop_id filter_append)
    then show ?thesis using True v by (simp add: resize_entries_def n_def)
  next
    case False
    then show ?thesis using v len by (simp add: resize_entries_def n_def)
  qed
qed

lemma live_set_padded:
  assumes "\<forall>e\<in>set es. live_entry e" "\<not> live_entry d"
  shows "live_set (es @ replicate n d) = {..<length es}"
proof (rule set_eqI)
  show "j \<in> live_set (es @ replicate n d) \<longleftrightarrow> j \<in> {..<length es}" for j
    using assms by (cases "j < length es") (auto simp: live_set_def nth_append)
qed

lemma dict_invE:
  assumes "dict_inv uni h R mp"
  obtains (combined) k where "ma_values mp = NoValues" "keys_inv uni h R k (ma_keys mp)"
    | (empty) "ma_values mp = EmptyValues" "ma_keys mp = empty_keys_struct"
  using assms unfolding dict_inv_def by blast

lemma dict_inv_used: "dict_inv uni h R mp \<Longrightarrow> ma_used mp = length (dict_items mp)"
  by (simp add: dict_inv_def)

context quiet_keys
begin

lemma symp_R: "symp R"
  using equiv by (simp add: equivp_reflp_symp_transp)

lemma al_distinct_dict:
  assumes "dict_inv uni h R mp"
  shows "al_distinct R (dict_items mp)"
  using assms
proof (cases rule: dict_invE)
  case (combined k)
  then show ?thesis using keys_invD(11) [OF combined(2)] by (simp add: dict_items_def keys_distinct_items [OF symp_R])
qed (simp add: dict_items_def empty_keys_struct_def)

lemma dict_inv_entries:
  assumes "dict_inv uni h R mp" "e \<in> set (dk_entries (ma_keys mp))" "live_entry e"
  shows "entry_ok h e"
  using assms(1)
proof (cases rule: dict_invE)
  case (combined k)
  then show ?thesis using keys_invD(9) [OF combined(2)] assms(2) by blast
qed (use assms(2) in \<open>simp add: empty_keys_struct_def\<close>)

lemma resize_entries_items:
  assumes "dict_inv uni h R mp"
  shows "\<forall>e\<in>set (resize_entries mp). live_entry e \<and> entry_ok h e" "items_of (resize_entries mp) = dict_items mp"
    "length (resize_entries mp) = ma_used mp"
proof -
  note u = dict_inv_used [OF assms]
  from assms have "resize_entries mp = filter live_entry (dk_entries (ma_keys mp))"
  proof (cases rule: dict_invE)
    case (combined k)
    then show ?thesis using resize_entries_live u by blast
  qed (simp add: resize_entries_def empty_keys_struct_def Let_def)
  then show "\<forall>e\<in>set (resize_entries mp). live_entry e \<and> entry_ok h e" "items_of (resize_entries mp) = dict_items mp"
    "length (resize_entries mp) = ma_used mp"
    using dict_inv_entries [OF assms] u by (auto simp: dict_items_def length_items_of)
qed

text \<open>What a resize produces: a combined table of the new size with the same items and no dead entry.\<close>

definition resized_to :: "('k, 'v) dictobj \<Rightarrow> nat \<Rightarrow> ('k, 'v) dictobj \<Rightarrow> bool" where
  "resized_to mp k mp' \<longleftrightarrow>
     keys_inv uni h R k (ma_keys mp') \<and> ma_values mp' = NoValues \<and> ma_used mp' = ma_used mp \<and>
     dict_items mp' = dict_items mp \<and> dk_nentries (ma_keys mp') = ma_used mp \<and>
     dk_usable (ma_keys mp') = int (USABLE_FRACTION (2 ^ k)) - int (ma_used mp)"

lemma dictresize_spec:
  assumes inv: "dict_inv uni h R mp" and k: "3 \<le> k" "k \<le> 62" and fits: "ma_used mp \<le> USABLE_FRACTION (2 ^ k)"
  shows "(\<exists>mp'. dictresize mem mp (2 ^ k) = Some (Inr (), mp') \<and> resized_to mp k mp') \<or>
    dictresize mem mp (2 ^ k) = Some (Inl MemoryError, mp)"
proof -
  define U where "U = USABLE_FRACTION (2 ^ k)"
  define es where "es = resize_entries mp"
  note es = resize_entries_items [OF inv, folded es_def]
  define l where "l = (if dk_lookup (ma_keys mp) = Lookdict then Lookdict else LookdictUnicodeNodummy)"
  define keys where "keys = \<lparr>dk_indices = replicate (2 ^ k) DKIX_EMPTY, dk_lookup = l, dk_usable = int U, dk_nentries = 0,
      dk_entries = es @ replicate (U - length es) empty_entry\<rparr>"
  have "\<exists>idx. build_indices keys es 0 = Some (keys\<lparr>dk_indices := idx\<rparr>) \<and>
    slots_ok k idx {..<length es} (\<lambda>j. me_hash (es ! j)) \<and> filled idx \<le> length es \<and> DKIX_DUMMY \<notin> set idx"
    using k fits es(3) slots_ok_empty [of k]
    by (intro build_indices_eq [where pre = "[]"]) (simp_all add: keys_def lessThan_def)
  then obtain idx where idx: "build_indices keys es 0 = Some (keys\<lparr>dk_indices := idx\<rparr>)"
    "slots_ok k idx {..<length es} (\<lambda>j. me_hash (es ! j))" "filled idx \<le> length es" "DKIX_DUMMY \<notin> set idx" by blast
  define mp' where "mp' = (set_keys (keys\<lparr>dk_indices := idx, dk_usable := int U - int (ma_used mp), dk_nentries := ma_used mp\<rparr>) mp)
      \<lparr>ma_values := NoValues\<rparr>"
  have "dictresize mem mp (2 ^ k) = Some (Inr (), mp') \<or> dictresize mem mp (2 ^ k) = Some (Inl MemoryError, mp)"
  proof (cases "new_keys_object mem (2 ^ k) :: ('k, 'v) keysobj option")
    case None
    then show ?thesis by (simp add: dictresize_def nat_power_eq)
  next
    case (Some nk)
    then have nk: "nk = \<lparr>dk_indices = replicate (2 ^ k) DKIX_EMPTY, dk_lookup = LookdictUnicodeNodummy, dk_usable = int U,
        dk_nentries = 0, dk_entries = replicate U empty_entry\<rparr>"
      by (auto simp: new_keys_object_def Let_def U_def split: if_splits)
    have "(if dk_lookup (ma_keys mp) = Lookdict then nk\<lparr>dk_lookup := Lookdict\<rparr> else nk) = nk\<lparr>dk_lookup := l\<rparr>"
      by (simp add: l_def nk)
    moreover have "nk\<lparr>dk_lookup := l, dk_entries := es @ drop (length es) (dk_entries nk)\<rparr> = keys" by (simp add: nk keys_def)
    moreover have "dk_usable nk = int U" "dk_usable keys = int U" "dk_entries (nk\<lparr>dk_lookup := l\<rparr>) = dk_entries nk"
      by (simp_all add: nk keys_def)
    ultimately show ?thesis using Some idx(1) fits
      by (simp add: dictresize_def nat_power_eq Let_def mp'_def U_def [symmetric] es_def [symmetric])
  qed
  moreover have "resized_to mp k mp'"
  proof -
    let ?all = "es @ replicate (U - length es) empty_entry"
    have dead: "\<not> live_entry empty_entry" "entry_ok h empty_entry" by (simp_all add: live_entry_def empty_entry_def entry_ok_def)
    have live: "live_set ?all = {..<length es}" using es(1) dead(1) by (intro live_set_padded) auto
    have items: "items_of ?all = dict_items mp" using es(2) items_of_dead [of "replicate (U - length es) empty_entry"] dead by (auto split: if_splits)
    have "slots_ok k idx {..<length es} (\<lambda>j. me_hash (?all ! j))"
      by (rule slots_ok_cong [OF _ idx(2)]) (simp add: nth_append)
    moreover have "keys_distinct R ?all" using al_distinct_dict [OF inv] by (simp only: keys_distinct_items [OF symp_R] items)
    moreover have "uni (the (me_key (?all ! j)))" if "j < length es" "l \<noteq> Lookdict" for j
    proof -
      have "(the (me_key (es ! j)), the (me_value (es ! j))) \<in> set (dict_items mp)"
        using es(1) that(1) unfolding es(2) [symmetric] by (auto simp: items_of_def)
      then obtain i where i: "i \<in> live_set (dk_entries (ma_keys mp))" "the (me_key (es ! j)) = the (me_key (dk_entries (ma_keys mp) ! i))"
        by (auto simp: dict_items_def items_of_def in_set_conv_nth live_set_def)
      from inv i(1) have "lookup_ok uni (ma_keys mp)"
        by (cases rule: dict_invE) (auto simp: empty_keys_struct_def keys_invD(12))
      then show ?thesis using i that by (simp add: lookup_ok_def l_def nth_append split: if_splits)
    qed
    ultimately show ?thesis
      using k fits es idx(3,4) dead items live
      by (auto simp: resized_to_def keys_inv_def mp'_def set_keys_def keys_def U_def lookup_ok_def dict_items_def l_def)
  qed
  ultimately show ?thesis by blast
qed

lemma insertion_resize_spec:
  assumes inv: "dict_inv uni h R mp"
  shows "(\<exists>k mp'. insertion_resize mem mp = Some (Inr (), mp') \<and> resized_to mp k mp' \<and> 0 < dk_usable (ma_keys mp')) \<or>
    insertion_resize mem mp = Some (Inl MemoryError, mp)"
proof (cases "0 < calculate_keysize (GROWTH_RATE mp)")
  case True
  then obtain k where k: "calculate_keysize (GROWTH_RATE mp) = 2 ^ k" "3 \<le> k" "k \<le> 62" "GROWTH_RATE mp \<le> 2 ^ k"
    by (rule calculate_keysize_pos)
  have "(2 :: nat) ^ 3 \<le> 2 ^ k" using k(2) by (intro power_increasing) simp_all
  then have fits: "ma_used mp < USABLE_FRACTION (2 ^ k)" using k(4) by (simp add: USABLE_FRACTION_def GROWTH_RATE_def)
  then show ?thesis using dictresize_spec [OF inv k(2,3), of mem] k(1)
    by (auto simp: insertion_resize_def resized_to_def)
qed (simp add: insertion_resize_def dictresize_def)

lemma resized_to_inv: "dict_inv uni h R mp \<Longrightarrow> resized_to mp k mp' \<Longrightarrow> dict_inv uni h R mp'"
  by (auto simp: resized_to_def dict_inv_def)

end

section \<open>Insertion\<close>

lemma items_of_put_behind:
  assumes "live_set es \<subseteq> {..<n}" "n < length es" "live_entry e"
  shows "items_of (es[n := e]) = items_of es @ [(the (me_key e), the (me_value e))]"
proof -
  have dead: "\<not> live_entry (es ! j)" if "n \<le> j" "j < length es" for j
    using assms(1) that by (auto simp: live_set_def)
  then have "items_of (drop (Suc n) es) = []" by (intro items_of_dead) (auto simp: in_set_conv_nth)
  moreover have "es = take n es @ es ! n # drop (Suc n) es" using assms(2) by (rule id_take_nth_drop)
  then have "items_of es = items_of (take n es) @ items_of (es ! n # drop (Suc n) es)" by (metis items_of_simps(2))
  ultimately show ?thesis using assms(2,3) dead [of n] by (simp add: upd_conv_take_nth_drop)
qed

context quiet_keys
begin

text \<open>The table after an entry \<open>e\<close> was put at \<open>dk_nentries\<close> and its index in the slot found for its hash.\<close>

lemma keys_inv_insert:
  assumes inv: "keys_inv uni h R k dk" and usable: "0 < dk_usable dk" and key: "absent R key (items_of (dk_entries dk))"
    and n: "n = dk_nentries dk" and e: "e = \<lparr>me_hash = h key, me_key = Some key, me_value = Some val\<rparr>"
    and free: "dk_indices dk ! slot (mask k) (h key) m < 0" and path: "\<forall>l<m. dk_indices dk ! slot (mask k) (h key) l \<noteq> DKIX_EMPTY"
    and l: "l = (if uni key then dk_lookup dk else Lookdict)"
    and dk': "dk' = dk\<lparr>dk_indices := (dk_indices dk)[slot (mask k) (h key) m := int n], dk_lookup := l,
      dk_usable := dk_usable dk - 1, dk_nentries := n + 1, dk_entries := (dk_entries dk)[n := e]\<rparr>"
  shows "keys_inv uni h R k dk'" "items_of (dk_entries dk') = items_of (dk_entries dk) @ [(key, val)]"
proof -
  let ?es = "dk_entries dk" and ?idx = "dk_indices dk" and ?p = "slot (mask k) (h key) m"
  note D = keys_invD [OF inv]
  have n_less: "n < length ?es" using D(5,7) usable n by simp
  have live: "live_entry e" "entry_ok h e" by (simp_all add: e live_entry_def entry_ok_def)
  have nL: "n \<notin> live_set ?es" using D(10) n by auto
  have p: "?p < 2 ^ k" by (rule slot_less [OF D(3)])
  have hs: "me_hash (?es[n := e] ! j) = (if j = n then h key else me_hash (?es ! j))" for j
    using n_less by (simp add: e nth_list_update)
  have "slots_ok k ?idx (live_set ?es) (\<lambda>j. me_hash (?es[n := e] ! j))"
    by (rule slots_ok_cong [OF _ D(4)]) (use hs nL in auto)
  then have "slots_ok k (?idx[slot (mask k) (me_hash (?es[n := e] ! n)) m := int n]) (insert n (live_set ?es)) (\<lambda>j. me_hash (?es[n := e] ! j))"
    by (rule slots_ok_insert [OF _ D(3) nL]) (use free path hs in simp_all)
  then have slots: "slots_ok k (?idx[?p := int n]) (live_set (?es[n := e])) (\<lambda>j. me_hash (?es[n := e] ! j))"
    using hs [of n] live n_less by (simp add: live_set_update)
  show items: "items_of (dk_entries dk') = items_of ?es @ [(key, val)]"
    using items_of_put_behind [of ?es n e] D(10) n_less n live by (simp add: dk' e)
  have "keys_distinct R (dk_entries dk')"
    using D(11) key by (simp only: keys_distinct_items [OF symp_R] items al_distinct_snoc [OF symp_R])
  moreover have "int (filled (?idx[?p := int n])) + (dk_usable dk - 1) \<le> int (USABLE_FRACTION (2 ^ k))"
    using filled_update [of ?p ?idx "int n"] p D(8,13) by (simp add: dk_size_def)
  moreover have "\<forall>x\<in>set (?es[n := e]). entry_ok h x"
    using D(9) live(2) set_update_subset_insert [of ?es n e] by blast
  moreover have "lookup_ok uni dk'"
  proof -
    have "DKIX_DUMMY \<notin> set (?idx[?p := int n])" if "DKIX_DUMMY \<notin> set ?idx"
      using that set_update_subset_insert [of ?idx ?p "int n"] by auto
    moreover have "uni (the (me_key (?es[n := e] ! j)))" if "uni key" "j \<in> live_set (?es[n := e])" "\<forall>j\<in>live_set ?es. uni (the (me_key (?es ! j)))" for j
      using that n_less live by (cases "j = n") (simp_all add: e live_set_update)
    ultimately show ?thesis using D(12) unfolding lookup_ok_def dk' l by simp
  qed
  ultimately show "keys_inv uni h R k dk'"
    using D(1,2,5,6,7,10) usable slots n n_less live by (auto simp: keys_inv_def dk' live_set_update)
qed

lemma insert_new_spec:
  assumes inv: "keys_inv uni h R k (ma_keys mp)" and v: "ma_values mp = NoValues" and u: "ma_used mp = length (dict_items mp)"
    and usable: "0 < dk_usable (ma_keys mp)" and key: "absent R key (dict_items mp)"
  shows "\<exists>mp'. insert_new env key (h key) val mp = Some mp' \<and> dict_inv uni h R mp' \<and> dict_items mp' = dict_items mp @ [(key, val)]"
proof -
  let ?dk = "ma_keys mp"
  define l where "l = (if uni key then dk_lookup ?dk else Lookdict)"
  note D = keys_invD [OF inv]
  obtain i where i: "i < 2 ^ k" "dk_indices ?dk ! i = DKIX_EMPTY" using keys_inv_empty_slot [OF inv] .
  have eq: "(if unicode_data env key = None \<and> dk_lookup ?dk \<noteq> Lookdict then ?dk\<lparr>dk_lookup := Lookdict\<rparr> else ?dk) = ?dk\<lparr>dk_lookup := l\<rparr>"
    by (auto simp: l_def)
  have "dk_mask (?dk\<lparr>dk_lookup := l\<rparr>) = mask k" using D(14) by (simp add: dk_mask_def dk_size_def)
  then obtain m where m: "find_empty_slot (?dk\<lparr>dk_lookup := l\<rparr>) (h key) = Some (slot (mask k) (h key) m)"
    "dk_indices ?dk ! slot (mask k) (h key) m < 0" "\<forall>l<m. dk_indices ?dk ! slot (mask k) (h key) l \<noteq> DKIX_EMPTY"
    using find_empty_slot_eq [OF D(3), of "?dk\<lparr>dk_lookup := l\<rparr>" i "h key"] i by auto
  define n where "n = dk_nentries ?dk"
  define e where "e = \<lparr>me_hash = h key, me_key = Some key, me_value = Some val\<rparr>"
  define dk' where "dk' = ?dk\<lparr>dk_indices := (dk_indices ?dk)[slot (mask k) (h key) m := int n], dk_lookup := l,
      dk_usable := dk_usable ?dk - 1, dk_nentries := n + 1, dk_entries := (dk_entries ?dk)[n := e]\<rparr>"
  have dk': "keys_inv uni h R k dk'" "items_of (dk_entries dk') = dict_items mp @ [(key, val)]"
    using keys_inv_insert [OF inv usable _ n_def e_def m(2,3) l_def dk'_def] key by (simp_all add: dict_items_def)
  have "narrow_index (dk_size (?dk\<lparr>dk_lookup := l\<rparr>)) (int n) = int n"
    using narrow_index_exact [OF D(2), of "int n"] D(6,7,13) by (simp add: n_def dk_size_def)
  then have "insert_new env key (h key) val mp = Some (mp\<lparr>ma_keys := dk', ma_values := NoValues, ma_used := ma_used mp + 1\<rparr>)"
    using m(1) v unfolding insert_new_def Let_def eq by (simp add: dictkeys_set_index_def dk'_def n_def e_def)
  moreover have "dict_inv uni h R (mp\<lparr>ma_keys := dk', ma_values := NoValues, ma_used := ma_used mp + 1\<rparr>)"
    using dk' u by (auto simp: dict_inv_def dict_items_def)
  ultimately show ?thesis using dk' by (auto simp: dict_items_def)
qed

text \<open>Making room before a new entry goes in.\<close>

lemma ensure_usable_spec:
  fixes mp :: "('k, 'v) dictobj"
  assumes inv: "dict_inv uni h R mp"
  shows "(\<exists>k mp'. ensure_usable mem mp = Some (Inr (), mp') \<and> dict_inv uni h R mp' \<and> dict_items mp' = dict_items mp \<and>
       keys_inv uni h R k (ma_keys mp') \<and> ma_values mp' = NoValues \<and> 0 < dk_usable (ma_keys mp')) \<or>
    ensure_usable mem mp = Some (Inl MemoryError, mp)"
proof (cases "dk_usable (ma_keys mp) \<le> 0")
  case True
  then show ?thesis using insertion_resize_spec [OF inv, of mem] resized_to_inv [OF inv]
    by (auto simp: ensure_usable_def resized_to_def)
next
  case False
  show ?thesis using inv inv False
    by (cases rule: dict_invE) (auto simp: ensure_usable_def empty_keys_struct_def)
qed

lemma insert_missing_spec:
  assumes inv: "dict_inv uni h R mp" and key: "absent R key (dict_items mp)"
  obtains "ensure_usable mem mp = Some (Inl MemoryError, mp)"
    | mp1 mp' where "ensure_usable mem mp = Some (Inr (), mp1)" "insert_new env key (h key) val mp1 = Some mp'"
      "dict_inv uni h R mp'" "dict_items mp' = dict_items mp @ [(key, val)]"
  using ensure_usable_spec [OF inv, of mem]
proof
  assume "\<exists>k mp'. ensure_usable mem mp = Some (Inr (), mp') \<and> dict_inv uni h R mp' \<and> dict_items mp' = dict_items mp \<and>
       keys_inv uni h R k (ma_keys mp') \<and> ma_values mp' = NoValues \<and> 0 < dk_usable (ma_keys mp')"
  then obtain k mp1 where mp1: "ensure_usable mem mp = Some (Inr (), mp1)" "dict_inv uni h R mp1" "dict_items mp1 = dict_items mp"
    "keys_inv uni h R k (ma_keys mp1)" "ma_values mp1 = NoValues" "0 < dk_usable (ma_keys mp1)" by blast
  then show thesis using insert_new_spec [OF mp1(4,5) dict_inv_used [OF mp1(2)] mp1(6), of key val] key that(2) by auto
qed (use that(1) in blast)

lemma make_combined_spec:
  fixes mp :: "('k, 'v) dictobj"
  assumes inv: "dict_inv uni h R mp"
  shows "(\<exists>mp'. make_combined mem env key mp = Some (Inr (), mp') \<and> dict_inv uni h R mp' \<and> dict_items mp' = dict_items mp) \<or>
    make_combined mem env key mp = Some (Inl MemoryError, mp)"
  using insertion_resize_spec [OF inv, of mem] resized_to_inv [OF inv] inv
  by (auto simp: make_combined_def resized_to_def)

text \<open>Replacing the val of an entry that was found.\<close>

lemma update_value_inv:
  assumes inv: "dict_inv uni h R mp" and f: "found R (dk_entries (ma_keys mp)) key (int j) v"
    and mp': "mp' = mp\<lparr>ma_keys := ma_keys mp\<lparr>dk_entries := (dk_entries (ma_keys mp))[j := (dk_entries (ma_keys mp) ! j)\<lparr>me_value := Some val\<rparr>]\<rparr>\<rparr>"
  shows "dict_inv uni h R mp' \<and> dict_items mp' = al_put R key val (dict_items mp)"
  using inv
proof (cases rule: dict_invE)
  case (combined k)
  let ?dk = "ma_keys mp" and ?es = "dk_entries (ma_keys mp)"
  let ?e = "(?es ! j)\<lparr>me_value := Some val\<rparr>"
  note D = keys_invD [OF combined(2)]
  have j: "j \<in> live_set ?es" using f by (auto simp: found_def)
  note L = keys_inv_live [OF combined(2) j]
  have live: "live_entry ?e" "entry_ok h ?e"
    using L D(9) by (auto simp: live_entry_def entry_ok_def split: option.splits)
  have items: "items_of (?es[j := ?e]) = al_put R key val (items_of ?es)" by (rule found_items(3) [OF equiv f D(11)])
  have set: "live_set (?es[j := ?e]) = live_set ?es" using j live L(5) by (auto simp: live_set_update)
  then have len: "length (items_of (?es[j := ?e])) = length (items_of ?es)" by (metis card_live_set)
  have same: "me_hash (?es[j := ?e] ! i) = me_hash (?es ! i)" "me_key (?es[j := ?e] ! i) = me_key (?es ! i)" for i
    using L(5) by (simp_all add: nth_list_update)
  have "keys_distinct R (?es[j := ?e])" using D(11) by (simp add: keys_distinct_def set same)
  moreover have "\<forall>x\<in>set (?es[j := ?e]). entry_ok h x" using D(9) live(2) set_update_subset_insert [of ?es j ?e] by blast
  ultimately have "keys_inv uni h R k (?dk\<lparr>dk_entries := ?es[j := ?e]\<rparr>)"
    using D by (auto simp: keys_inv_def set same lookup_ok_def)
  then show ?thesis using combined(1) items len dict_inv_used [OF inv] by (auto simp: dict_inv_def mp' dict_items_def)
qed (use f in \<open>simp add: found_def empty_keys_struct_def\<close>)

lemma insertdict_spec:
  assumes inv: "dict_inv uni h R mp"
  shows "\<exists>r mp'. insertdict mem env key (h key) val (mp, s) = Some (r, (mp', s)) \<and> dict_inv uni h R mp' \<and>
    (r = Inr () \<and> dict_items mp' = al_put R key val (dict_items mp) \<or> r = Inl MemoryError \<and> dict_items mp' = dict_items mp)"
  using make_combined_spec [OF inv, of mem key]
proof
  assume "\<exists>mp'. make_combined mem env key mp = Some (Inr (), mp') \<and> dict_inv uni h R mp' \<and> dict_items mp' = dict_items mp"
  then obtain mp1 where mp1: "make_combined mem env key mp = Some (Inr (), mp1)" "dict_inv uni h R mp1" "dict_items mp1 = dict_items mp"
    by blast
  obtain ix v where look: "dk_lookup_call env key (h key) (mp1, s) = Some (Inr (ix, v), (mp1, s))" "found R (dk_entries (ma_keys mp1)) key ix v"
    using lookup_found [OF mp1(2)] by blast
  show ?thesis
  proof (cases "ix = DKIX_EMPTY")
    case True
    then have absent: "absent R key (dict_items mp1)" using found_missing look(2) by (auto simp: dict_items_def)
    show ?thesis
    proof (rule insert_missing_spec [where mem = mem and val = val, OF mp1(2) absent])
      assume "ensure_usable mem mp1 = Some (Inl MemoryError, mp1)"
      then show ?thesis using mp1 look(1) True by (simp add: insertdict_def)
    next
      fix mp2 mp'
      assume "ensure_usable mem mp1 = Some (Inr (), mp2)" "insert_new env key (h key) val mp2 = Some mp'"
        "dict_inv uni h R mp'" "dict_items mp' = dict_items mp1 @ [(key, val)]"
      then show ?thesis using mp1 look(1) True al_absent(2) [OF absent] by (simp add: insertdict_def)
    qed
  next
    case False
    then obtain j where "ix = int j" using look(2) by (auto simp: found_def)
    then show ?thesis using mp1 look update_value_inv [where val = val, OF mp1(2) _ refl, of key j v] by (simp add: insertdict_def Let_def)
  qed
qed (use inv in \<open>simp add: insertdict_def\<close>)

end

context quiet_keys
begin

lemma new_keys_fresh:
  assumes "new_keys_object mem (2 ^ k) = Some (dk :: ('k, 'v) keysobj)" "3 \<le> k" "k \<le> 62"
  shows "keys_inv uni h R k dk" "items_of (dk_entries dk) = []" "dk_usable dk = int (USABLE_FRACTION (2 ^ k))"
proof -
  let ?U = "USABLE_FRACTION (2 ^ k)"
  have dk: "dk = \<lparr>dk_indices = replicate (2 ^ k) DKIX_EMPTY, dk_lookup = LookdictUnicodeNodummy, dk_usable = int ?U,
      dk_nentries = 0, dk_entries = replicate ?U empty_entry\<rparr>"
    using assms(1) by (auto simp: new_keys_object_def Let_def split: if_splits)
  have dead: "\<not> live_entry (empty_entry :: ('k, 'v) entry)" "entry_ok h (empty_entry :: ('k, 'v) entry)"
    by (simp_all add: live_entry_def empty_entry_def entry_ok_def)
  then have "live_set (replicate ?U empty_entry :: ('k, 'v) entry list) = {}" by (auto simp: live_set_def)
  then show "keys_inv uni h R k dk"
    using slots_ok_empty [of k] dead assms(2,3) by (simp add: dk keys_inv_def keys_distinct_def lookup_ok_def)
  have "items_of (replicate ?U empty_entry :: ('k, 'v) entry list) = []" by (rule items_of_dead) (use dead(1) in auto)
  then show "items_of (dk_entries dk) = []" by (simp add: dk)
qed (use assms in \<open>auto simp: new_keys_object_def Let_def split: if_splits\<close>)

lemma new_keys_inv:
  assumes "new_keys_object mem 8 = Some (dk :: ('k, 'v) keysobj)"
  shows "keys_inv uni h R 3 dk" "items_of (dk_entries dk) = []" "0 < dk_usable dk" "dk_nentries dk = 0"
    "dk_indices dk = replicate 8 DKIX_EMPTY" "dk_lookup dk = LookdictUnicodeNodummy" "length (dk_entries dk) = 5"
proof -
  have "new_keys_object mem (2 ^ 3) = Some dk" using assms by simp
  from new_keys_fresh [OF this] show "keys_inv uni h R 3 dk" "items_of (dk_entries dk) = []" by simp_all
qed (use assms in \<open>auto simp: new_keys_object_def Let_def USABLE_FRACTION_def split: if_splits\<close>)

lemma empty_keys_items:
  assumes "dict_inv uni h R mp" and e: "is_empty_keys (ma_keys mp)"
  shows "dict_items mp = []"
  using assms(1)
proof (cases rule: dict_invE)
  case (combined k)
  then have "(2 :: nat) ^ k = 1" using e keys_invD(13) [OF combined(2)] by (simp add: is_empty_keys_def)
  then show ?thesis using keys_invD(1) [OF combined(2)] by simp
qed (simp add: dict_items_def empty_keys_struct_def)

lemma insert_to_emptydict_spec:
  fixes mp :: "('k, 'v) dictobj"
  assumes inv: "dict_inv uni h R mp" and e: "is_empty_keys (ma_keys mp)"
  shows "\<exists>r mp'. insert_to_emptydict mem env key (h key) val mp = (r, mp') \<and> dict_inv uni h R mp' \<and>
    (r = Inr () \<and> dict_items mp' = al_put R key val (dict_items mp) \<or> r = Inl MemoryError \<and> mp' = mp)"
proof -
  have empty: "dict_items mp = []" "ma_used mp = 0" using empty_keys_items [OF inv e] dict_inv_used [OF inv] by simp_all
  show ?thesis
  proof (cases "new_keys_object mem PyDict_MINSIZE :: ('k, 'v) keysobj option")
    case None
    then show ?thesis using inv by (simp add: insert_to_emptydict_def)
  next
    case (Some dk)
    note new = new_keys_inv [OF Some]
    define l where "l = (if uni key then dk_lookup dk else Lookdict)"
    define dk1 where "dk1 = dk\<lparr>dk_indices := (dk_indices dk)[slot (mask 3) (h key) 0 := int 0], dk_lookup := l,
      dk_usable := dk_usable dk - 1, dk_nentries := 0 + 1,
      dk_entries := (dk_entries dk)[0 := \<lparr>me_hash = h key, me_key = Some key, me_value = Some val\<rparr>]\<rparr>"
    have sl: "slot (mask 3) (h key) 0 < 8" using slot_less [of 3 "h key" 0] by simp
    have dk1: "keys_inv uni h R 3 dk1" "items_of (dk_entries dk1) = [(key, val)]"
      using keys_inv_insert [OF new(1,3) _ new(4) [symmetric] refl _ _ l_def dk1_def] new sl by auto
    have "slot (mask 3) (h key) 0 = unat (h key AND 7)" by (simp add: slot_def mask_eq_exp_minus_1)
    moreover have "narrow_index 8 0 = 0" using narrow_index_exact [of 3 0] by simp
    ultimately have "insert_to_emptydict mem env key (h key) val mp =
        (Inr (), (set_keys dk1 mp)\<lparr>ma_values := NoValues, ma_used := ma_used mp + 1\<rparr>)"
      using Some new(4,5) by (cases dk) (simp add: insert_to_emptydict_def Let_def dictkeys_set_index_def dk_size_def dk1_def l_def del: replicate.simps)
    moreover have "dict_inv uni h R ((set_keys dk1 mp)\<lparr>ma_values := NoValues, ma_used := ma_used mp + 1\<rparr>)"
      using dk1 empty by (auto simp: dict_inv_def dict_items_def set_keys_def)
    ultimately show ?thesis using dk1(2) empty(1) by (simp add: dict_items_def set_keys_def)
  qed
qed

lemma insert_known_hash_spec:
  assumes inv: "dict_inv uni h R mp"
  shows "\<exists>r mp'. insert_known_hash mem env key (h key) val (mp, s) = Some (r, (mp', s)) \<and> dict_inv uni h R mp' \<and>
    (r = Inr () \<and> dict_items mp' = al_put R key val (dict_items mp) \<or> r = Inl MemoryError \<and> dict_items mp' = dict_items mp)"
proof (cases "is_empty_keys (ma_keys mp)")
  case True
  then show ?thesis using insert_to_emptydict_spec [OF inv True, of mem key val]
    by (auto simp: insert_known_hash_def)
qed (use insertdict_spec [OF inv] in \<open>simp add: insert_known_hash_def\<close>)

section \<open>Queries\<close>

lemma found_get:
  assumes inv: "dict_inv uni h R mp" and f: "found R (dk_entries (ma_keys mp)) key ix v"
  shows "v = al_get R key (dict_items mp)" "ix = DKIX_EMPTY \<longleftrightarrow> v = None"
proof -
  have "v = al_get R key (dict_items mp) \<and> (ix = DKIX_EMPTY \<longleftrightarrow> v = None)"
  proof (cases "ix = DKIX_EMPTY")
    case True
    then have "v = None" "absent R key (dict_items mp)" using found_missing f by (auto simp: dict_items_def)
    then show ?thesis using True by (simp add: al_absent(1))
  next
    case False
    then obtain j where j: "ix = int j" using f by (auto simp: found_def)
    from inv have "keys_distinct R (dk_entries (ma_keys mp))"
    proof (cases rule: dict_invE)
      case (combined k)
      from combined(2) show ?thesis by (rule keys_invD(11))
    qed (simp add: empty_keys_struct_def keys_distinct_def)
    then show ?thesis using found_items(1,2) [OF equiv f [unfolded j]] by (auto simp: dict_items_def False)
  qed
  then show "v = al_get R key (dict_items mp)" "ix = DKIX_EMPTY \<longleftrightarrow> v = None" by auto
qed

lemma lookup_value_spec:
  assumes inv: "dict_inv uni h R mp"
  shows "lookup_value env key (mp, s) = Some (Inr (al_get R key (dict_items mp)), (mp, s))"
proof -
  obtain ix v where "dk_lookup_call env key (h key) (mp, s) = Some (Inr (ix, v), (mp, s))" "found R (dk_entries (ma_keys mp)) key ix v"
    using lookup_found [OF inv] by blast
  then show ?thesis using found_get [OF inv, of key ix v] by (auto simp: lookup_value_def hash_of)
qed

section \<open>Deletion\<close>

text \<open>Removing the entry \<open>j\<close>: its slot is found again, and becomes a dummy.\<close>

lemma lookdict_index_spec:
  assumes inv: "keys_inv uni h R k dk" and j: "j \<in> live_set (dk_entries dk)" and hash: "hash = me_hash (dk_entries dk ! j)"
  shows "\<exists>p < 2 ^ k. lookdict_index dk hash (int j) = Some (int p) \<and> dk_indices dk ! p = int j"
proof -
  note D = keys_invD [OF inv]
  obtain n where n: "dk_indices dk ! slot (mask k) hash n = int j" "\<forall>m<n. dk_indices dk ! slot (mask k) hash m \<noteq> DKIX_EMPTY"
    using slots_okD(4) [OF D(4) j] hash by blast
  let ?stop = "\<lambda>i. dk_indices dk ! i = int j \<or> dk_indices dk ! i = DKIX_EMPTY"
  obtain m where m: "first_stop ?stop (mask k) hash m"
    using first_stop_exists [OF D(3) slot_less [OF D(3)], of ?stop hash n hash] n(1) by blast
  have "m \<le> n" using m n(1) by (metis (mono_tags, lifting) first_stop_def not_le)
  moreover have "dk_indices dk ! slot (mask k) hash m = int j"
    using m n \<open>m \<le> n\<close> by (metis (mono_tags, lifting) first_stop_def le_neq_implies_less)
  ultimately have "probe (\<lambda>i st. let ix = dictkeys_get_index dk i in
       if ix = int j then (Some (int i), st) else if ix = DKIX_EMPTY then (Some DKIX_EMPTY, st) else (None, st))
       (mask k) hash () = Some (int (slot (mask k) hash m), ())"
    by (intro probe_eq [OF m]) (auto simp: dictkeys_get_index_def Let_def)
  then show ?thesis using D(14) slot_less [OF D(3), of hash m] \<open>dk_indices dk ! slot (mask k) hash m = int j\<close>
    by (auto simp: lookdict_index_def)
qed

lemma ensure_allows_deletions_simps [simp]:
  "dk_indices (ensure_allows_deletions dk) = dk_indices dk" "dk_entries (ensure_allows_deletions dk) = dk_entries dk"
  "dk_usable (ensure_allows_deletions dk) = dk_usable dk" "dk_nentries (ensure_allows_deletions dk) = dk_nentries dk"
  "dk_size (ensure_allows_deletions dk) = dk_size dk"
  by (simp_all add: ensure_allows_deletions_def dk_size_def)

lemma keys_inv_allows_deletions: "keys_inv uni h R k dk \<Longrightarrow> keys_inv uni h R k (ensure_allows_deletions dk)"
  by (auto simp: keys_inv_def lookup_ok_def) (auto simp: ensure_allows_deletions_def split: if_splits)

lemma keys_inv_remove:
  assumes inv: "keys_inv uni h R k dk" and nd: "dk_lookup dk \<noteq> LookdictUnicodeNodummy" and j: "j \<in> live_set (dk_entries dk)"
    and p: "p < 2 ^ k" "dk_indices dk ! p = int j" and n: "n = dk_nentries dk \<or> n = j \<and> live_set (dk_entries dk) \<subseteq> {..j}"
    and dk': "dk' = dk\<lparr>dk_indices := (dk_indices dk)[p := DKIX_DUMMY], dk_nentries := n,
      dk_entries := (dk_entries dk)[j := (dk_entries dk ! j)\<lparr>me_key := None, me_value := None\<rparr>]\<rparr>"
  shows "keys_inv uni h R k dk'"
proof -
  let ?es = "dk_entries dk" and ?e = "(dk_entries dk ! j)\<lparr>me_key := None, me_value := None\<rparr>"
  note D = keys_invD [OF inv] and L = keys_inv_live [OF inv j]
  have dead: "\<not> live_entry ?e" "entry_ok h ?e" by (simp_all add: live_entry_def entry_ok_def)
  have set: "live_set (?es[j := ?e]) = live_set ?es - {j}" using L(5) dead by (simp add: live_set_update)
  have same: "?es[j := ?e] ! i = ?es ! i" if "i \<noteq> j" for i using that by simp
  have hs: "me_hash (?es[j := ?e] ! i) = me_hash (?es ! i)" for i using L(5) by (cases "i = j") simp_all
  have "slots_ok k ((dk_indices dk)[p := DKIX_DUMMY]) (live_set (?es[j := ?e])) (\<lambda>i. me_hash (?es[j := ?e] ! i))"
    unfolding set hs by (rule slots_ok_remove [OF D(4,3) p])
  moreover have "filled ((dk_indices dk)[p := DKIX_DUMMY]) = filled (dk_indices dk)"
    using p D(13) by (intro filled_dummy) (simp_all add: dk_size_def)
  moreover have "\<forall>x\<in>set (?es[j := ?e]). entry_ok h x" using D(9) dead(2) set_update_subset_insert [of ?es j ?e] by blast
  moreover have "keys_distinct R (?es[j := ?e])" using D(11) same by (auto simp: keys_distinct_def set)
  moreover have "lookup_ok uni dk'" using D(12) nd same by (auto simp: lookup_ok_def dk' set)
  moreover have "live_set (?es[j := ?e]) \<subseteq> {..<n}" using n D(10) by (auto simp: set)
  moreover have "n \<le> dk_nentries dk" using n L(4) by auto
  ultimately show ?thesis using D by (auto simp: keys_inv_def dk')
qed

lemma remove_entry_spec:
  assumes inv: "dict_inv uni h R mp" and f: "found R (dk_entries (ma_keys mp)) key (int j) v"
  shows "\<exists>mp'. remove_entry (h key) (int j) mp = Some (Inr (), mp') \<and> dict_inv uni h R mp' \<and>
    dict_items mp' = al_del R key (dict_items mp)"
  using inv
proof (cases rule: dict_invE)
  case (combined k)
  let ?dk = "ma_keys mp"
  have j: "j \<in> live_set (dk_entries ?dk)" and "R (the (me_key (dk_entries ?dk ! j))) key" using f by (auto simp: found_def)
  then have hash: "h key = me_hash (dk_entries ?dk ! j)" using keys_inv_live(2) [OF combined(2) j] hash_eq by simp
  obtain p where p: "p < 2 ^ k" "lookdict_index ?dk (h key) (int j) = Some (int p)" "dk_indices ?dk ! p = int j"
    using lookdict_index_spec [OF combined(2) j hash] by blast
  define dk' where "dk' = (ensure_allows_deletions ?dk)\<lparr>dk_indices := (dk_indices ?dk)[p := DKIX_DUMMY], dk_nentries := dk_nentries ?dk,
      dk_entries := (dk_entries ?dk)[j := (dk_entries ?dk ! j)\<lparr>me_key := None, me_value := None\<rparr>]\<rparr>"
  have "dk_lookup (ensure_allows_deletions ?dk) \<noteq> LookdictUnicodeNodummy" by (simp add: ensure_allows_deletions_def)
  then have inv': "keys_inv uni h R k dk'"
    by (rule keys_inv_remove [OF keys_inv_allows_deletions [OF combined(2)]]) (use j p in \<open>simp_all add: dk'_def\<close>)
  have items: "items_of (dk_entries dk') = al_del R key (dict_items mp)"
    using found_items(4) [OF equiv f keys_invD(11) [OF combined(2)]] by (simp add: dk'_def dict_items_def)
  have "card (live_set (dk_entries dk')) = card (live_set (dk_entries ?dk)) - 1"
    using j keys_inv_live(5) [OF combined(2) j] by (simp add: dk'_def live_set_update live_entry_def)
  then have len: "length (items_of (dk_entries dk')) = ma_used mp - 1"
    using dict_inv_used [OF inv] by (simp add: card_live_set dict_items_def)
  have "narrow_index (dk_size ?dk) DKIX_DUMMY = DKIX_DUMMY"
    using narrow_index_exact [OF keys_invD(2) [OF combined(2)], of DKIX_DUMMY] keys_invD(13) [OF combined(2)] by simp
  then have "remove_entry (h key) (int j) mp = Some (Inr (), mp\<lparr>ma_used := ma_used mp - 1, ma_keys := dk'\<rparr>)"
    using p(2) by (simp add: remove_entry_def Let_def dictkeys_set_index_def dk'_def ensure_allows_deletions_def)
  then show ?thesis using inv' items len combined(1) by (auto simp: dict_inv_def dict_items_def)
qed (use f in \<open>simp add: found_def empty_keys_struct_def\<close>)

lemma Pop_KnownHash_spec:
  assumes inv: "dict_inv uni h R mp"
  shows "\<exists>mp'. Pop_KnownHash env key (h key) deflt (mp, s) =
      Some (case al_get R key (dict_items mp) of None \<Rightarrow> missing_key deflt | Some v \<Rightarrow> Inr v, (mp', s)) \<and>
    dict_inv uni h R mp' \<and> dict_items mp' = al_del R key (dict_items mp)"
proof (cases "ma_used mp = 0")
  case True
  then have "dict_items mp = []" using dict_inv_used [OF inv] by simp
  then show ?thesis using True inv by (simp add: Pop_KnownHash_def al_get_def)
next
  case False
  obtain ix v where look: "dk_lookup_call env key (h key) (mp, s) = Some (Inr (ix, v), (mp, s))" "found R (dk_entries (ma_keys mp)) key ix v"
    using lookup_found [OF inv] by blast
  show ?thesis
  proof (cases v)
    case None
    then have "absent R key (dict_items mp)" using look(2) found_missing [of R _ key v] found_get(2) [OF inv look(2)]
      by (simp add: dict_items_def)
    then show ?thesis using look(1) None False inv by (simp add: Pop_KnownHash_def al_absent)
  next
    case (Some w)
    then obtain j where "ix = int j" using look(2) by (auto simp: found_def)
    then show ?thesis using look Some False remove_entry_spec [OF inv, of key j v] found_get [OF inv look(2)]
      by (auto simp: Pop_KnownHash_def)
  qed
qed

end

section \<open>Walking through the entries\<close>

lemma skip_dead_spec:
  assumes "i \<le> n"
  shows "i \<le> skip_dead es i n \<and> skip_dead es i n \<le> n \<and> (\<forall>j. i \<le> j \<and> j < skip_dead es i n \<longrightarrow> \<not> live_entry (es ! j)) \<and>
    (skip_dead es i n < n \<longrightarrow> live_entry (es ! skip_dead es i n))"
  using assms
proof (induction es i n rule: skip_dead.induct)
  case (1 es i n)
  show ?case
  proof (cases "i < n \<and> me_value (es ! i) = None")
    case True
    then have eq: "skip_dead es i n = skip_dead es (Suc i) n" by (simp add: skip_dead.simps [of es i n])
    have "\<not> live_entry (es ! j)" if "i \<le> j" "j < skip_dead es (Suc i) n" for j
      using that True 1 by (cases "j = i") (auto simp: live_entry_def)
    then show ?thesis using 1 True unfolding eq by auto
  next
    case False
    then have "skip_dead es i n = i" by (auto simp: skip_dead.simps [of es i n])
    then show ?thesis using False 1(2) by (auto simp: live_entry_def)
  qed
qed

lemma items_of_drop_dead:
  assumes "i \<le> j" "j \<le> length es" "\<And>l. i \<le> l \<Longrightarrow> l < j \<Longrightarrow> \<not> live_entry (es ! l)"
  shows "items_of (drop i es) = items_of (drop j es)"
proof -
  have "drop i es = take (j - i) (drop i es) @ drop j es" using assms(1) by (metis append_take_drop_id drop_drop le_add_diff_inverse2)
  moreover have "items_of (take (j - i) (drop i es)) = []"
    using assms by (intro items_of_dead) (auto simp: in_set_conv_nth)
  ultimately show ?thesis by (metis append_Nil items_of_simps(2))
qed

lemma last_live_spec:
  "case last_live es n of
     None \<Rightarrow> \<forall>j<n. \<not> live_entry (es ! j)
   | Some i \<Rightarrow> i < n \<and> live_entry (es ! i) \<and> (\<forall>j. i < j \<and> j < n \<longrightarrow> \<not> live_entry (es ! j))"
proof (induction n)
  case (Suc n)
  then show ?case
    by (cases "last_live es n") (auto simp: live_entry_def less_Suc_eq)
qed simp

text \<open>Repeated calls of \<open>Ci_CheckedDict_Next\<close>.\<close>

fun dict_walk :: "('k, 'v) dictobj \<Rightarrow> nat \<Rightarrow> int \<Rightarrow> ('k \<times> 'v) list" where
  "dict_walk mp 0 pos = []"
| "dict_walk mp (Suc n) pos =
     (case CheckedDict_Next mp pos of None \<Rightarrow> [] | Some (pos, key, val, hash) \<Rightarrow> (key, val) # dict_walk mp n pos)"

context quiet_keys
begin

lemma items_of_take_nentries:
  assumes "keys_inv uni h R k dk"
  shows "items_of (take (dk_nentries dk) (dk_entries dk)) = items_of (dk_entries dk)" "dk_nentries dk \<le> length (dk_entries dk)"
proof -
  note D = keys_invD [OF assms]
  show n_le: "dk_nentries dk \<le> length (dk_entries dk)" using D(5,6,7) by simp
  have "\<not> live_entry (dk_entries dk ! l)" if "dk_nentries dk \<le> l" "l < length (dk_entries dk)" for l
    using D(10) that by (auto simp: live_set_def)
  then have "items_of (drop (dk_nentries dk) (dk_entries dk)) = []" by (intro items_of_dead) (auto simp: in_set_conv_nth)
  then show "items_of (take (dk_nentries dk) (dk_entries dk)) = items_of (dk_entries dk)"
    by (metis append_take_drop_id items_of_simps(2) append_Nil2)
qed

lemma dict_walk_from:
  assumes inv: "keys_inv uni h R k (ma_keys mp)" and v: "ma_values mp = NoValues"
  shows "i \<le> dk_nentries (ma_keys mp) \<Longrightarrow> length (items_of (drop i (dk_entries (ma_keys mp)))) < n \<Longrightarrow>
    dict_walk mp n (int i) = items_of (drop i (dk_entries (ma_keys mp)))"
proof (induction n arbitrary: i)
  case (Suc n)
  let ?es = "dk_entries (ma_keys mp)" and ?n = "dk_nentries (ma_keys mp)"
  note D = keys_invD [OF inv]
  have n_le: "?n \<le> length ?es" using D(5,6,7) by simp
  have dead: "\<not> live_entry (?es ! l)" if "?n \<le> l" "l < length ?es" for l using D(10) that by (auto simp: live_set_def)
  define j where "j = skip_dead ?es i ?n"
  have j: "i \<le> j" "j \<le> ?n" "\<forall>l. i \<le> l \<and> l < j \<longrightarrow> \<not> live_entry (?es ! l)" "j < ?n \<longrightarrow> live_entry (?es ! j)"
    using skip_dead_spec [OF Suc.prems(1), of ?es] by (auto simp: j_def)
  then have items: "items_of (drop i ?es) = items_of (drop j ?es)" using n_le by (intro items_of_drop_dead) auto
  show ?case
  proof (cases "j < ?n")
    case True
    then have "items_of (drop j ?es) = (the (me_key (?es ! j)), the (me_value (?es ! j))) # items_of (drop (Suc j) ?es)"
      using j(4) n_le by (simp add: Cons_nth_drop_Suc [symmetric])
    moreover have "CheckedDict_Next mp (int i) =
        Some (int j + 1, the (me_key (?es ! j)), the (me_value (?es ! j)), me_hash (?es ! j))"
      using True j(1) v by (simp add: CheckedDict_Next_def Let_def j_def)
    moreover have "int j + 1 = int (Suc j)" by simp
    ultimately show ?thesis using Suc.IH [of "Suc j"] Suc.prems(2) True unfolding items by (simp del: of_nat_Suc)
  next
    case False
    then have "j = ?n" using j(2) by simp
    moreover have "items_of (drop ?n ?es) = []" using dead by (intro items_of_dead) (auto simp: in_set_conv_nth)
    moreover have "CheckedDict_Next mp (int i) = None"
      using \<open>j = ?n\<close> v Suc.prems(1) by (auto simp: CheckedDict_Next_def Let_def j_def)
    ultimately show ?thesis using items by simp
  qed
qed simp

lemma dict_walk_items:
  assumes inv: "dict_inv uni h R mp" and n: "ma_used mp < n"
  shows "dict_walk mp n 0 = dict_items mp"
  using inv
proof (cases rule: dict_invE)
  case (combined k)
  then show ?thesis using dict_walk_from [OF combined(2,1), of 0 n] n dict_inv_used [OF inv] by (simp add: dict_items_def)
next
  case empty
  then show ?thesis using dict_inv_used [OF inv]
    by (cases n) (simp_all add: dict_items_def empty_keys_struct_def CheckedDict_Next_def)
qed

section \<open>The remaining operations\<close>

lemma popitem_spec:
  assumes inv: "dict_inv uni h R mp"
  shows "\<exists>mp'. dict_popitem_impl mem True mp =
      Some (if dict_items mp = [] then Inl KeyError else Inr (last (dict_items mp)), mp') \<and>
    dict_inv uni h R mp' \<and> dict_items mp' = butlast (dict_items mp)"
  using inv
proof (cases rule: dict_invE)
  case (combined k)
  let ?dk = "ma_keys mp" and ?es = "dk_entries (ma_keys mp)"
  note D = keys_invD [OF combined(2)] and u = dict_inv_used [OF inv]
  show ?thesis
  proof (cases "dict_items mp = []")
    case True
    then show ?thesis using u inv by (simp add: dict_popitem_impl_def)
  next
    case False
    then have "live_set ?es \<noteq> {}" using card_live_set [of ?es] by (auto simp: dict_items_def)
    then obtain i where last: "last_live ?es (dk_nentries ?dk) = Some i" "i < dk_nentries ?dk" "live_entry (?es ! i)"
      and dead: "\<forall>j. i < j \<and> j < dk_nentries ?dk \<longrightarrow> \<not> live_entry (?es ! j)"
      using last_live_spec [where es = ?es and n = "dk_nentries ?dk"] D(10) by (auto simp: live_set_def split: option.splits)
    have len: "dk_nentries ?dk \<le> length ?es" using D(5,6,7) by simp
    have i: "i \<in> live_set ?es" using last len by (simp add: live_set_def)
    have top: "live_set ?es \<subseteq> {..i}"
    proof
      fix j assume j: "j \<in> live_set ?es"
      then have "j < dk_nentries ?dk" using D(10) by blast
      moreover have "live_entry (?es ! j)" using j by (simp add: live_set_def)
      ultimately show "j \<in> {..i}" using dead by (meson atMost_iff not_le)
    qed
    obtain p where p: "p < 2 ^ k" "lookdict_index ?dk (me_hash (?es ! i)) (int i) = Some (int p)" "dk_indices ?dk ! p = int i"
      using lookdict_index_spec [OF combined(2) i refl] by blast
    have "lookdict_index (ensure_allows_deletions ?dk) = lookdict_index ?dk"
      by (simp add: lookdict_index_def dictkeys_get_index_def dk_mask_def fun_eq_iff)
    with p(2) have p2: "lookdict_index (ensure_allows_deletions ?dk) (me_hash (?es ! i)) (int i) = Some (int p)" by simp
    define e where "e = (?es ! i)\<lparr>me_key := None, me_value := None\<rparr>"
    define dk' where "dk' = (ensure_allows_deletions ?dk)\<lparr>dk_indices := (dk_indices ?dk)[p := DKIX_DUMMY], dk_nentries := i, dk_entries := ?es[i := e]\<rparr>"
    have "dk_lookup (ensure_allows_deletions ?dk) \<noteq> LookdictUnicodeNodummy" by (simp add: ensure_allows_deletions_def)
    then have inv': "keys_inv uni h R k dk'"
      by (rule keys_inv_remove [OF keys_inv_allows_deletions [OF combined(2)]]) (use i p top in \<open>simp_all add: dk'_def e_def\<close>)
    have il: "i < length ?es" using i by (simp add: live_set_def)
    then have "?es = take i ?es @ ?es ! i # drop (Suc i) ?es" by (rule id_take_nth_drop)
    moreover have "\<not> live_entry (?es ! l)" if "Suc i \<le> l" "l < length ?es" for l
      using top that unfolding live_set_def by auto
    then have after: "items_of (drop (Suc i) ?es) = []"
      using items_of_drop_dead [of "Suc i" "length ?es" ?es] il by simp
    ultimately have items: "dict_items mp = items_of (take i ?es) @ [(the (me_key (?es ! i)), the (me_value (?es ! i)))]"
      using last(3) unfolding dict_items_def by (metis append.right_neutral items_of_simps(2,3))
    have items': "items_of (dk_entries dk') = items_of (take i ?es)"
      using il after by (simp add: dk'_def upd_conv_take_nth_drop e_def live_entry_def)
    have "narrow_index (dk_size ?dk) DKIX_DUMMY = DKIX_DUMMY"
      using narrow_index_exact [OF D(2), of DKIX_DUMMY] D(13) by simp
    then have "dict_popitem_impl mem True mp =
        Some (Inr (the (me_key (?es ! i)), the (me_value (?es ! i))), mp\<lparr>ma_keys := dk', ma_used := ma_used mp - 1\<rparr>)"
      using p2 last(1) D(12) u False
      by (auto simp: dict_popitem_impl_def Let_def dictkeys_set_index_def dk'_def e_def lookup_ok_def)
    moreover have "dict_inv uni h R (mp\<lparr>ma_keys := dk', ma_used := ma_used mp - 1\<rparr>)"
      using inv' items items' u combined(1) by (auto simp: dict_inv_def dict_items_def)
    ultimately show ?thesis using items items' by (simp add: dict_items_def)
  qed
next
  case empty
  then show ?thesis using inv dict_inv_used [OF inv] by (simp add: dict_popitem_impl_def dict_items_def empty_keys_struct_def)
qed

lemma clear_spec:
  assumes "dict_inv uni h R mp"
  shows "dict_inv uni h R (CheckedDict_Clear mp) \<and> dict_items (CheckedDict_Clear mp) = []"
  using assms
  by (cases rule: dict_invE) (use dict_inv_used [OF assms] in \<open>auto simp: CheckedDict_Clear_def set_keys_def dict_inv_def dict_items_def empty_keys_struct_def\<close>)

lemma nonempty_combined:
  assumes "dict_inv uni h R mp" "\<not> is_empty_keys (ma_keys mp)"
  shows "make_combined mem env key mp = Some (Inr (), mp)"
  using assms by (cases rule: dict_invE) (simp_all add: make_combined_def is_empty_keys_def dk_size_def empty_keys_struct_def)

lemma SetDefault_spec:
  assumes inv: "dict_inv uni h R mp"
  shows "\<exists>r mp'. CheckedDict_SetDefault mem env key d (mp, s) = Some (r, (mp', s)) \<and> dict_inv uni h R mp' \<and>
    (case al_get R key (dict_items mp) of
       Some v \<Rightarrow> r = Inr v \<and> mp' = mp
     | None \<Rightarrow> r = Inr d \<and> dict_items mp' = dict_items mp @ [(key, d)] \<or> r = Inl MemoryError \<and> dict_items mp' = dict_items mp)"
proof (cases "is_empty_keys (ma_keys mp)")
  case True
  then show ?thesis using insert_to_emptydict_spec [OF inv True, of mem key d] True empty_keys_items [OF inv True]
    by (auto simp: CheckedDict_SetDefault_def hash_of al_get_def split: sum.splits)
next
  case False
  obtain ix v where look: "dk_lookup_call env key (h key) (mp, s) = Some (Inr (ix, v), (mp, s))" "found R (dk_entries (ma_keys mp)) key ix v"
    using lookup_found [OF inv] by blast
  note get = found_get [OF inv look(2)]
  have step: "CheckedDict_SetDefault mem env key d (mp, s) =
      (if ix = DKIX_EMPTY then
         (case ensure_usable mem mp of
            None \<Rightarrow> None
          | Some (Inl e, mp) \<Rightarrow> Some (Inl e, (mp, s))
          | Some (Inr _, mp) \<Rightarrow>
              (case insert_new env key (h key) d mp of None \<Rightarrow> None | Some mp \<Rightarrow> Some (Inr d, (mp, s))))
       else (case v of None \<Rightarrow> Some (Inl AssertionFailure, (mp, s)) | Some v \<Rightarrow> Some (Inr v, (mp, s))))"
    using False nonempty_combined [OF inv False] look(1) by (simp add: CheckedDict_SetDefault_def hash_of)
  show ?thesis
  proof (cases "ix = DKIX_EMPTY")
    case True
    then have absent: "absent R key (dict_items mp)" using found_missing look(2) by (auto simp: dict_items_def)
    show ?thesis
      by (rule insert_missing_spec [where mem = mem and val = d, OF inv absent])
        (use step True get inv in \<open>auto simp: al_absent(1) [OF absent]\<close>)
  next
    case ix: False
    then obtain w where "v = Some w" using get(2) by auto
    then show ?thesis using step ix get(1) [symmetric] inv by simp
  qed
qed

lemma SetItem_spec:
  assumes inv: "dict_inv uni h R mp"
  shows "\<exists>r mp'. CheckedDict_SetItem mem env key val (mp, s) = Some (r, (mp', s)) \<and> dict_inv uni h R mp' \<and>
    (r = Inr () \<and> dict_items mp' = al_put R key val (dict_items mp) \<or> r = Inl MemoryError \<and> dict_items mp' = dict_items mp)"
  using insert_known_hash_spec [OF inv] by (simp add: CheckedDict_SetItem_def hash_of)

lemma Pop_spec:
  assumes inv: "dict_inv uni h R mp"
  shows "\<exists>mp'. CheckedDict_Pop env key deflt (mp, s) =
      Some (case al_get R key (dict_items mp) of None \<Rightarrow> missing_key deflt | Some v \<Rightarrow> Inr v, (mp', s)) \<and>
    dict_inv uni h R mp' \<and> dict_items mp' = al_del R key (dict_items mp)"
proof (cases "ma_used mp = 0")
  case True
  then have "dict_items mp = []" using dict_inv_used [OF inv] by simp
  then show ?thesis using True inv by (simp add: CheckedDict_Pop_def al_get_def)
qed (use Pop_KnownHash_spec [OF inv] in \<open>simp add: CheckedDict_Pop_def hash_of\<close>)

lemma dict_subscript_spec:
  assumes "dict_inv uni h R mp"
  shows "dict_subscript env key (mp, s) =
    Some (case al_get R key (dict_items mp) of None \<Rightarrow> Inl KeyError | Some v \<Rightarrow> Inr v, (mp, s))"
  using lookup_value_spec [OF assms] by (simp add: dict_subscript_def split: option.splits)

lemma check_consistency_holds:
  assumes inv: "dict_inv uni h R mp"
  shows "check_consistency mp b"
  using inv
proof (cases rule: dict_invE)
  case (combined k)
  let ?dk = "ma_keys mp" and ?es = "dk_entries (ma_keys mp)"
  note D = keys_invD [OF combined(2)]
  have "card (live_set ?es) \<le> dk_nentries ?dk" using card_mono [OF _ D(10)] by simp
  then have used: "ma_used mp \<le> dk_nentries ?dk" using dict_inv_used [OF inv] by (simp add: card_live_set dict_items_def)
  have pow: "is_pow2 (2 ^ k)"
    unfolding is_pow2_def mask_eq_exp_minus_1 [symmetric] by (rule bit_eqI) (auto simp: bit_simps)
  have idx: "DKIX_DUMMY \<le> dk_indices ?dk ! i \<and> dk_indices ?dk ! i \<le> int (USABLE_FRACTION (2 ^ k))" if "i < 2 ^ k" for i
    using slots_okD(2) [OF D(4) that] D(5) by (auto simp: live_set_def)
  have ent: "entry_consistent (?es ! i)" if "i < USABLE_FRACTION (2 ^ k)" for i
    using D(5,9) that hash_valid by (auto simp: entry_consistent_def entry_ok_def split: option.splits dest!: bspec [of _ _ "?es ! i"])
  show ?thesis using D used pow idx ent unfolding check_consistency_def Let_def dictkeys_get_index_def by auto
next
  case empty
  then show ?thesis using dict_inv_used [OF inv]
    by (simp add: check_consistency_def empty_keys_struct_def dk_size_def dict_items_def USABLE_FRACTION_def is_pow2_def dictkeys_get_index_def)
qed

end

section \<open>Integer and string keys\<close>

text \<open>
  The keys of most checked dictionaries: exact strings, integers and \<open>None\<close>. \<open>sh\<close> is the hash function for
  strings, which the interpreter seeds at random; as everywhere, a hash of \<open>-1\<close> becomes \<open>-2\<close>.
\<close>

datatype builtin_key = StrKey "nat list" | LongKey int | NoneKey

definition str_kind :: "nat list \<Rightarrow> nat" where
  "str_kind cs = (if \<forall>c\<in>set cs. c < 256 then 1 else if \<forall>c\<in>set cs. c < 65536 then 2 else 4)"

definition builtin_hash :: "(nat list \<Rightarrow> size_t) \<Rightarrow> builtin_key \<Rightarrow> size_t" where
  "builtin_hash sh key =
     (let x = (case key of StrKey cs \<Rightarrow> sh cs | LongKey i \<Rightarrow> of_int (sgn i * (\<bar>i\<bar> mod (2 ^ 61 - 1)))
        | NoneKey \<Rightarrow> 0xfca86420)
      in if x = - 1 then - 2 else x)"

definition builtin_env :: "(nat list \<Rightarrow> size_t) \<Rightarrow> (builtin_key, 'v, 's) key_env" where
  "builtin_env sh =
     \<lparr>unicode_data = \<lambda>key. case key of StrKey cs \<Rightarrow> Some (str_kind cs, cs) | _ \<Rightarrow> None,
      hash_of = \<lambda>key st. (Some (builtin_hash sh key), st), key_eq = \<lambda>a b st. (Some (a = b), st)\<rparr>"

interpretation builtin: quiet_keys "builtin_env sh" "builtin_hash sh" "(=)" for sh
proof unfold_locales
  fix a b :: builtin_key and u w
  assume "unicode_data (builtin_env sh) a = Some u" "unicode_data (builtin_env sh) b = Some w"
  then show "a = b \<longleftrightarrow> unicode_eq u w"
    by (auto simp: builtin_env_def unicode_eq_def split: builtin_key.splits)
qed (auto simp: builtin_env_def builtin_hash_def Let_def identity_equivp)

end
