(* ===== verification/Dict_Merge_Correct.thy ===== *)
theory Dict_Merge_Correct
  imports Dict_Merge Dict_Object_Correct
begin

text \<open>
  Merging, copying and comparing. A merge puts the items of the other dictionary one after the other and stops at the
  first that is refused; a copy has the same items; equality compares the items. The locale \<open>chkdict\<close> adds the
  types of keys and values to the interface \<open>quiet_keys\<close>.
\<close>

section \<open>Lists of items\<close>

definition al_puts :: "('k \<Rightarrow> 'k \<Rightarrow> bool) \<Rightarrow> ('k \<times> 'v) list \<Rightarrow> ('k \<times> 'v) list \<Rightarrow> ('k \<times> 'v) list" where
  "al_puts R kvs xs = fold (\<lambda>(key, v). al_put R key v) kvs xs"

lemma al_puts_simps [simp]:
  "al_puts R [] xs = xs" "al_puts R ((key, v) # kvs) xs = al_puts R kvs (al_put R key v xs)"
  "al_puts R (ys @ zs) xs = al_puts R zs (al_puts R ys xs)"
  by (simp_all add: al_puts_def)

lemma al_distinct_prefix: "al_distinct R (xs @ ys) \<Longrightarrow> al_distinct R xs"
  by (induction R xs rule: al_distinct.induct) (simp_all add: absent_def)

lemma al_puts_absent:
  assumes "symp R"
  shows "al_distinct R (xs @ kvs) \<Longrightarrow> al_puts R kvs xs = xs @ kvs"
proof (induction kvs arbitrary: xs)
  case (Cons kv kvs)
  obtain key v where kv: "kv = (key, v)" by fastforce
  have d: "al_distinct R ((xs @ [kv]) @ kvs)" using Cons.prems by simp
  have "absent R key xs" using al_distinct_prefix [OF d] kv by (simp add: al_distinct_snoc [OF assms])
  then show ?case using Cons.IH [OF d] kv by (simp add: al_absent(2))
qed simp

definition items_ok :: "('k \<Rightarrow> bool) \<Rightarrow> ('v \<Rightarrow> bool) \<Rightarrow> ('k \<times> 'v) list \<Rightarrow> bool" where
  "items_ok K V kvs \<longleftrightarrow> (\<forall>(key, v)\<in>set kvs. K key \<and> V v)"

lemma items_ok_simps [simp]:
  "items_ok K V []" "items_ok K V ((key, v) # kvs) \<longleftrightarrow> K key \<and> V v \<and> items_ok K V kvs"
  "items_ok K V (xs @ ys) \<longleftrightarrow> items_ok K V xs \<and> items_ok K V ys"
  by (auto simp: items_ok_def)

lemma items_ok_put: "items_ok K V kvs \<Longrightarrow> K key \<Longrightarrow> V v \<Longrightarrow> items_ok K V (al_put R key v kvs)"
  by (induction kvs) auto

lemma items_ok_puts: "items_ok K V xs \<Longrightarrow> items_ok K V kvs \<Longrightarrow> items_ok K V (al_puts R kvs xs)"
  by (induction kvs arbitrary: xs) (auto simp: items_ok_put)

lemma items_ok_del: "items_ok K V kvs \<Longrightarrow> items_ok K V (al_del R key kvs)"
  by (induction kvs) auto

lemma items_ok_butlast: "items_ok K V kvs \<Longrightarrow> items_ok K V (butlast kvs)"
  unfolding items_ok_def by (auto dest: in_set_butlastD)

lemma items_ok_get: "items_ok K V kvs \<Longrightarrow> al_get R key kvs = Some v \<Longrightarrow> V v"
  by (induction kvs) (auto simp: al_get_def split: if_splits)

section \<open>Loops\<close>

text \<open>An invariant of the state that the step and the iterator keep is kept by the loop over an iterator.\<close>

lemma iter_loop_keeps:
  assumes step: "\<And>x st r st'. I st \<Longrightarrow> step x st = Some (r, st') \<Longrightarrow> I st'"
    and iternext: "\<And>st. I st \<Longrightarrow> I (snd (iternext st))"
    and loop: "iter_loop step iternext p st = Some (r, st')" and I: "I st"
  shows "I st'"
proof -
  have "f = step \<longrightarrow> g = iternext \<longrightarrow> I st \<longrightarrow> I (snd y)" if "iter_loop f g p st = Some y" for f g p st y
    using that
  proof (rule iter_loop.raw_induct [rotated], intro impI)
    fix rec f g p st y
    assume IH: "\<And>f g p st y. rec f g p st = Some y \<Longrightarrow> f = step \<longrightarrow> g = iternext \<longrightarrow> I st \<longrightarrow> I (snd y)"
      and body: "(case g st of
        (it, st) \<Rightarrow>
          (case it of
             Exhausted \<Rightarrow> Some (if p then Inl Propagated else Inr (), st)
           | IterError \<Rightarrow> Some (Inl Propagated, st)
           | Yield x \<Rightarrow>
               Option.bind (f x st)
                 (\<lambda>(r, st). case r of Inl e \<Rightarrow> Some (Inl e, st) | Inr q \<Rightarrow> rec f g (p \<or> q) st))) = Some y"
      and eqs: "f = step" "g = iternext" and I: "I st"
    obtain it st1 where it: "iternext st = (it, st1)" by (cases "iternext st") blast
    then have I1: "I st1" using iternext [OF I] by simp
    show "I (snd y)"
    proof (cases it)
      case (Yield x)
      then obtain r st2 where s: "step x st1 = Some (r, st2)"
        using body it eqs by (cases "step x st1") auto
      have I2: "I st2" by (rule step [OF I1 s])
      show ?thesis
      proof (cases r)
        case (Inl e)
        then show ?thesis using body it eqs Yield s I2 by auto
      next
        case (Inr q)
        then have "rec step iternext (p \<or> q) st2 = Some y" using body it eqs Yield s by simp
        then show ?thesis using IH I2 by blast
      qed
    qed (use body it eqs I1 in auto)
  qed
  from this [OF loop] I show ?thesis by simp
qed

section \<open>Merging\<close>

text \<open>
  A dictionary of checked type: \<open>K\<close> and \<open>V\<close> are the types of its keys and values.
\<close>

definition chkdict_inv ::
  "('o, 'o, 's) key_env \<Rightarrow> ('o \<Rightarrow> size_t) \<Rightarrow> ('o \<Rightarrow> 'o \<Rightarrow> bool) \<Rightarrow> ('o, 'ty) obj_env \<Rightarrow> 'ty generic_param list \<Rightarrow> 'o chkdict \<Rightarrow> bool" where
  "chkdict_inv kenv h R env params mp \<longleftrightarrow>
     dict_inv (\<lambda>key. unicode_data kenv key \<noteq> None) h R mp \<and>
     items_ok (admits env (params ! 0)) (admits env (params ! 1)) (dict_items mp)"

locale chkdict = quiet_keys kenv h R
  for kenv :: "('o, 'o, 's) key_env" and h :: "'o \<Rightarrow> size_t" and R :: "'o \<Rightarrow> 'o \<Rightarrow> bool" +
  fixes env :: "('o, 'ty) obj_env" and params :: "'ty generic_param list"
begin

abbreviation K :: "'o \<Rightarrow> bool" where "K \<equiv> admits env (params ! 0)"
abbreviation V :: "'o \<Rightarrow> bool" where "V \<equiv> admits env (params ! 1)"

abbreviation inv :: "'o chkdict \<Rightarrow> bool" where "inv \<equiv> chkdict_inv kenv h R env params"

lemma check_simps [simp]:
  "chkdict_checkkey env params key = (if K key then Inr () else Inl (TypeError ''bad key''))"
  "chkdict_checkval env params v = (if V v then Inr () else Inl (TypeError ''bad value''))"
  by (simp_all add: chkdict_checkkey_def chkdict_checkval_def check_param_type_iff)

text \<open>
  What the insertion of one item in a merge does: the item is put, or there is no memory, or the item
  is refused and nothing changes.
\<close>

definition put_result :: "'o \<Rightarrow> 'o \<Rightarrow> bool \<Rightarrow> 'o chkdict \<Rightarrow> unit res \<Rightarrow> 'o chkdict \<Rightarrow> bool" where
  "put_result key v good mp r mp' \<longleftrightarrow> dict_inv uni h R mp' \<and>
     (r = Inr () \<and> good \<and> dict_items mp' = al_put R key v (dict_items mp) \<or>
      (\<exists>e. r = Inl e \<and> (good \<longrightarrow> e = MemoryError)) \<and> dict_items mp' = dict_items mp)"

definition puts_result :: "('o \<Rightarrow> 'o \<Rightarrow> bool) \<Rightarrow> ('o \<times> 'o) list \<Rightarrow> 'o chkdict \<Rightarrow> unit res \<Rightarrow> 'o chkdict \<Rightarrow> bool" where
  "puts_result good kvs mp r mp' \<longleftrightarrow> dict_inv uni h R mp' \<and>
     (\<exists>ys zs. kvs = ys @ zs \<and> dict_items mp' = al_puts R ys (dict_items mp) \<and> (\<forall>(key, v)\<in>set ys. good key v) \<and>
       (r = Inr () \<and> zs = [] \<or>
        (\<exists>e. r = Inl e \<and> (e \<noteq> MemoryError \<longrightarrow> (\<exists>key v zs'. zs = (key, v) # zs' \<and> \<not> good key v)))))"

lemma puts_result_Cons:
  assumes "put_result key v (good key v) mp (Inr ()) mp1" "puts_result good kvs mp1 r mp'"
  shows "puts_result good ((key, v) # kvs) mp r mp'"
proof -
  obtain ys zs where y: "kvs = ys @ zs" "dict_items mp' = al_puts R ys (dict_items mp1)" "\<forall>(key, v)\<in>set ys. good key v"
    "r = Inr () \<and> zs = [] \<or> (\<exists>e. r = Inl e \<and> (e \<noteq> MemoryError \<longrightarrow> (\<exists>key v zs'. zs = (key, v) # zs' \<and> \<not> good key v)))"
    and i: "dict_inv uni h R mp'" using assms(2) unfolding puts_result_def by blast
  have g: "good key v" "dict_items mp1 = al_put R key v (dict_items mp)" using assms(1) by (auto simp: put_result_def)
  show ?thesis unfolding puts_result_def
    by (intro conjI i exI [of _ "(key, v) # ys"] exI [of _ zs]) (use y g in auto)
qed

lemma puts_result_stop:
  assumes "put_result key v (good key v) mp (Inl e) mp'"
  shows "puts_result good ((key, v) # kvs) mp (Inl e) mp'"
  unfolding puts_result_def
  by (intro conjI exI [of _ "[]"] exI [of _ "(key, v) # kvs"]) (use assms in \<open>auto simp: put_result_def\<close>)

lemma puts_result_Nil: "dict_inv uni h R mp \<Longrightarrow> puts_result good [] mp (Inr ()) mp"
  by (simp add: puts_result_def)

lemma puts_result_memory: "dict_inv uni h R mp \<Longrightarrow> puts_result good kvs mp (Inl MemoryError) mp"
  unfolding puts_result_def by (intro conjI exI [of _ "[]"] exI [of _ kvs]) simp_all

text \<open>The entries with the given numbers are merged one after the other.\<close>

lemma merge_entries_spec:
  assumes ins: "\<And>key v mp. dict_inv uni h R mp \<Longrightarrow>
      \<exists>r mp'. ins key (h key) v (mp, s) = Some (r, (mp', s)) \<and> put_result key v (good key v) mp r mp'"
    and other: "\<And>mp. other (mp, s) = d" and v: "ma_values d = NoValues"
    and ok: "\<forall>e\<in>set (dk_entries (ma_keys d)). entry_ok h e"
  shows "\<forall>i\<in>set is. i < length (dk_entries (ma_keys d)) \<Longrightarrow> dict_inv uni h R mp \<Longrightarrow>
    \<exists>r mp'. merge_entries ins other (keys_id d) (dk_nentries (ma_keys d)) is (mp, s) = Some (r, (mp', s)) \<and>
      puts_result good (items_of (map (\<lambda>i. dk_entries (ma_keys d) ! i) is)) mp r mp'"
proof (induction "is" arbitrary: mp)
  case (Cons i "is")
  let ?ep = "dk_entries (ma_keys d) ! i"
  have val: "entry_value d i = me_value ?ep" by (simp add: entry_value_def v)
  show ?case
  proof (cases "me_value ?ep")
    case None
    then show ?thesis using Cons by (simp add: other val live_entry_def)
  next
    case (Some w)
    have ep: "entry_ok h ?ep" using ok Cons.prems(1) by simp
    then obtain key where key: "me_key ?ep = Some key" "me_hash ?ep = h key"
      using Some by (auto simp: entry_ok_def split: option.splits)
    obtain r1 mp1 where ins1: "ins key (h key) w (mp, s) = Some (r1, (mp1, s))" and p: "put_result key w (good key w) mp r1 mp1"
      using ins [OF Cons.prems(2)] by blast
    have items: "items_of (map (\<lambda>i. dk_entries (ma_keys d) ! i) (i # is)) =
        (key, w) # items_of (map (\<lambda>i. dk_entries (ma_keys d) ! i) is)"
      using Some key by (simp add: live_entry_def)
    show ?thesis
    proof (cases r1)
      case (Inl e)
      then show ?thesis using puts_result_stop [where good = good] p ins1 Some key unfolding items by (simp add: other val)
    next
      case (Inr u)
      then have "dict_inv uni h R mp1" using p by (simp add: put_result_def)
      from Cons.IH [OF _ this] Cons.prems(1) obtain r mp' where
        IH: "merge_entries ins other (keys_id d) (dk_nentries (ma_keys d)) is (mp1, s) = Some (r, (mp', s))"
          "puts_result good (items_of (map (\<lambda>i. dk_entries (ma_keys d) ! i) is)) mp1 r mp'" by auto
      then show ?thesis using puts_result_Cons [where good = good] p ins1 Some key Inr unfolding items by (simp add: other val)
    qed
  qed
qed (simp add: puts_result_Nil)


lemma merge_resize_spec:
  assumes inv: "dict_inv uni h R mp"
  shows "(\<exists>mp'. merge_resize mem mp d = Some (Inr (), mp') \<and> dict_inv uni h R mp' \<and> dict_items mp' = dict_items mp) \<or>
    merge_resize mem mp d = Some (Inl MemoryError, mp)"
proof (cases "USABLE_FRACTION (dk_size (ma_keys mp)) < ma_used d")
  case True
  let ?m = "((ma_used mp + ma_used d) * 3 + 1) div 2"
  have eq: "merge_resize mem mp d = dictresize mem mp (calculate_keysize ?m)"
    using True by (simp add: merge_resize_def estimate_keysize_def)
  show ?thesis
  proof (cases "0 < calculate_keysize ?m")
    case True
    then obtain k where k: "calculate_keysize ?m = 2 ^ k" "3 \<le> k" "k \<le> 62" "?m \<le> 2 ^ k" by (rule calculate_keysize_pos)
    have "x \<le> 2 * c + 1" if "x div 2 \<le> c" for x c :: nat using that by linarith
    from this [OF k(4)] have "3 * ma_used mp \<le> 2 * 2 ^ k" by simp
    then have "ma_used mp \<le> USABLE_FRACTION (2 ^ k)" by (simp add: USABLE_FRACTION_def less_eq_div_iff_mult_less_eq)
    from dictresize_spec [OF inv k(2,3) this, of mem] show ?thesis
      unfolding eq k(1) using resized_to_inv [OF inv] by (auto simp: resized_to_def)
  qed (simp add: eq dictresize_def)
qed (use inv in \<open>simp add: merge_resize_def\<close>)

lemma merge_dict_spec:
  assumes ins: "\<And>key v mp. dict_inv uni h R mp \<Longrightarrow>
      \<exists>r mp'. ins key (h key) v (mp, s) = Some (r, (mp', s)) \<and> put_result key v (good key v) mp r mp'"
    and other: "\<And>mp. other (mp, s) = d" and d: "dict_inv uni h R d" "ma_used d \<noteq> 0" and inv: "dict_inv uni h R mp"
  shows "\<exists>r mp'. merge_dict mem ins other (mp, s) = Some (r, (mp', s)) \<and> puts_result good (dict_items d) mp r mp'"
  using d(1)
proof (cases rule: dict_invE)
  case (combined k)
  let ?es = "dk_entries (ma_keys d)" and ?n = "dk_nentries (ma_keys d)"
  note n = items_of_take_nentries [OF combined(2)]
  have "map (\<lambda>i. ?es ! i) [0..<?n] = take ?n ?es" using n(2) by (intro nth_equalityI) auto
  then have items: "items_of (map (\<lambda>i. ?es ! i) [0..<?n]) = dict_items d" using n(1) by (simp add: dict_items_def)
  consider mp1 where "merge_resize mem mp d = Some (Inr (), mp1)" "dict_inv uni h R mp1" "dict_items mp1 = dict_items mp"
    | "merge_resize mem mp d = Some (Inl MemoryError, mp)" using merge_resize_spec [OF inv, of mem d] by blast
  then show ?thesis
  proof cases
    case 1
    have bound: "\<forall>i\<in>set [0..<?n]. i < length ?es" using n(2) by auto
    obtain r mp' where "merge_entries ins other (keys_id d) ?n [0..<?n] (mp1, s) = Some (r, (mp', s))"
      "puts_result good (dict_items d) mp1 r mp'"
      using merge_entries_spec [where good = good and ins = ins and other = other and s = s and d = d, OF ins other combined(1) keys_invD(9) [OF combined(2)] bound 1(2)] unfolding items by blast
    then show ?thesis using 1 by (auto simp: merge_dict_def other Let_def puts_result_def)
  next
    case 2
    then show ?thesis using puts_result_memory [OF inv] by (simp add: merge_dict_def other)
  qed
qed (use d dict_inv_used [OF d(1)] in \<open>simp add: dict_items_def empty_keys_struct_def\<close>)

lemma insertdict_put:
  assumes "dict_inv uni h R mp"
  shows "\<exists>r mp'. insertdict mem kenv key (h key) v (mp, s) = Some (r, (mp', s)) \<and> put_result key v True mp r mp'"
  using insertdict_spec [OF assms, of mem key v s] by (auto simp: put_result_def)

lemma merge_checked_put:
  assumes "dict_inv uni h R mp"
  shows "\<exists>r mp'. merge_checked mem kenv env params key (h key) v (mp, s) = Some (r, (mp', s)) \<and> put_result key v (K key \<and> V v) mp r mp'"
  using insertdict_spec [OF assms, of mem key v s] assms by (auto simp: put_result_def merge_checked_def)

lemma puts_result_True:
  "puts_result (\<lambda>_ _. True) kvs mp r mp' \<Longrightarrow>
    dict_inv uni h R mp' \<and> (r = Inr () \<and> dict_items mp' = al_puts R kvs (dict_items mp) \<or> r = Inl MemoryError)"
  unfolding puts_result_def by auto

text \<open>Merging a dictionary of the same type, without checks: a clone or one insertion after the other.\<close>

lemma dict_merge_spec:
  assumes other: "\<And>mp. other (mp, s) = d" and d: "dict_inv uni h R d" and inv: "dict_inv uni h R mp"
  shows "\<exists>r mp'. dict_merge mem kenv (MergeDict other) 1 (mp, s) = Some (r, (mp', s)) \<and>
    puts_result (\<lambda>_ _. True) (dict_items d) mp r mp'"
proof -
  consider "ma_used d = 0" | (clone) "ma_used d \<noteq> 0" "ma_used mp = 0" "cloneable d"
    | (insert) "ma_used d \<noteq> 0" "\<not> (ma_used mp = 0 \<and> cloneable d)" by argo
  then show ?thesis
  proof cases
    case 1
    then have "dict_items d = []" using dict_inv_used [OF d] by simp
    then show ?thesis using 1 puts_result_Nil [OF inv] by (simp add: dict_merge_def other)
  next
    case clone
    define mp' where "mp' = (set_keys (ma_keys d) mp)\<lparr>ma_values := NoValues, ma_used := ma_used d\<rparr>"
    have items: "dict_items mp' = dict_items d" by (simp add: mp'_def dict_items_def set_keys_def)
    have "dict_inv uni h R mp'" using d clone(3) items by (auto simp: dict_inv_def mp'_def set_keys_def cloneable_def)
    moreover have "dict_items mp = []" using clone(2) dict_inv_used [OF inv] by simp
    moreover have "al_puts R (dict_items d) [] = dict_items d"
      using al_puts_absent [OF symp_R, of "[]"] al_distinct_dict [OF d] by simp
    ultimately have "puts_result (\<lambda>_ _. True) (dict_items d) mp (Inr ()) mp'"
      unfolding puts_result_def by (intro conjI exI [of _ "dict_items d"] exI [of _ "[]"]) (auto simp: items)
    then show ?thesis using clone puts_result_memory [OF inv]
      by (auto simp: dict_merge_def other clone_combined_dict_keys_def mp'_def)
  next
    case insert
    have ins: "merge_insert mem kenv (Suc 0) = insertdict mem kenv" by (intro ext) (simp add: merge_insert_def)
    have eq: "dict_merge mem kenv (MergeDict other) 1 (mp, s) = merge_dict mem (insertdict mem kenv) other (mp, s)"
      using insert by (auto simp: dict_merge_def other ins)
    show ?thesis unfolding eq
      using merge_dict_spec [where good = "\<lambda>_ _. True" and other = other and s = s and ins = "insertdict mem kenv", OF insertdict_put other d insert(1) inv] by blast
  qed
qed

lemma chkdict_merge_spec:
  assumes other: "\<And>mp. other (mp, s) = d" and d: "dict_inv uni h R d" and inv: "dict_inv uni h R mp"
  shows "\<exists>r mp'. chkdict_merge mem kenv env params (MergeDict other) (mp, s) = Some (r, (mp', s)) \<and>
    puts_result (\<lambda>key v. K key \<and> V v) (dict_items d) mp r mp'"
proof (cases "ma_used d = 0")
  case True
  then have "dict_items d = []" using dict_inv_used [OF d] by simp
  then show ?thesis using True inv by (simp add: chkdict_merge_def other puts_result_Nil)
next
  case False
  then show ?thesis
    using merge_dict_spec [where good = "\<lambda>key v. K key \<and> V v" and other = other and s = s and ins = "merge_checked mem kenv env params", OF merge_checked_put other d False inv]
    by (simp add: chkdict_merge_def other)
qed

lemma chkdict_copy_spec:
  assumes orig: "\<And>mp. orig (mp, s) = d" and d: "dict_inv uni h R d" and new: "dict_inv uni h R mp" "dict_items mp = []"
  shows "(\<exists>copy. chkdict_copy mem kenv orig (Some mp) s = Some (Inr copy, s) \<and> dict_inv uni h R copy \<and> dict_items copy = dict_items d) \<or>
    chkdict_copy mem kenv orig (Some mp) s = Some (Inl MemoryError, s)"
proof -
  obtain r mp' where m: "dict_merge mem kenv (MergeDict orig) 1 (mp, s) = Some (r, (mp', s))" "dict_inv uni h R mp'"
    "r = Inr () \<and> dict_items mp' = al_puts R (dict_items d) [] \<or> r = Inl MemoryError"
    using dict_merge_spec [where other = orig and s = s, OF orig d new(1), of mem] puts_result_True [where kvs = "dict_items d" and mp = mp] new(2)
    by metis
  have "al_puts R (dict_items d) [] = dict_items d" using al_puts_absent [OF symp_R, of "[]"] al_distinct_dict [OF d] by simp
  then show ?thesis using m by (auto simp: chkdict_copy_def)
qed


section \<open>Comparison\<close>

lemma look_known_hash_spec:
  assumes "dict_inv uni h R b"
  shows "look_known_hash kenv key (h key) (b, s) = Some (Inr (al_get R key (dict_items b)), (b, s))"
proof -
  obtain ix v where look: "dk_lookup_call kenv key (h key) (b, s) = Some (Inr (ix, v), (b, s))" "found R (dk_entries (ma_keys b)) key ix v"
    using lookup_found [OF assms] by blast
  then show ?thesis using found_get(1) [OF assms look(2)] by (simp add: look_known_hash_def)
qed

definition agrees :: "('o \<Rightarrow> 'o \<Rightarrow> bool) \<Rightarrow> ('o \<times> 'o) list \<Rightarrow> ('o \<times> 'o) list \<Rightarrow> bool" where
  "agrees E kvs ys \<longleftrightarrow> (\<forall>(key, v)\<in>set kvs. \<exists>w. al_get R key ys = Some w \<and> E v w)"

lemma agrees_Cons [simp]:
  "agrees E [] ys" "agrees E ((key, v) # kvs) ys \<longleftrightarrow> (\<exists>w. al_get R key ys = Some w \<and> E v w) \<and> agrees E kvs ys"
  by (simp_all add: agrees_def)

lemma dict_equal_loop_spec:
  assumes look: "\<And>key. look key (h key) (b, s) = Some (Inr (al_get R key ys), (b, s))"
    and veq: "\<And>x y. veq x y (b, s) = (Some (E x y), (b, s))"
    and a: "a (b, s) = d" and v: "ma_values d = NoValues" and ok: "\<forall>e\<in>set (dk_entries (ma_keys d)). entry_ok h e"
    and n: "dk_nentries (ma_keys d) \<le> length (dk_entries (ma_keys d))"
  shows "dict_equal_loop look veq a i (b, s) =
    Some (Inr (agrees E (items_of (drop i (take (dk_nentries (ma_keys d)) (dk_entries (ma_keys d))))) ys), (b, s))"
proof (induction "dk_nentries (ma_keys d) - i" arbitrary: i)
  case 0
  then show ?case by (subst dict_equal_loop.simps) (simp add: a)
next
  case (Suc m)
  let ?es = "dk_entries (ma_keys d)" and ?n = "dk_nentries (ma_keys d)"
  have i: "i < ?n" "i < length ?es" using Suc.hyps(2) n by auto
  have IH: "dict_equal_loop look veq a (Suc i) (b, s) = Some (Inr (agrees E (items_of (drop (Suc i) (take ?n ?es))) ys), (b, s))"
    using Suc.hyps by simp
  have drop: "items_of (drop i (take ?n ?es)) = items_of [?es ! i] @ items_of (drop (Suc i) (take ?n ?es))"
    using i n by (simp add: Cons_nth_drop_Suc [symmetric])
  have val: "entry_value d i = me_value (?es ! i)" by (simp add: entry_value_def v)
  show ?case
  proof (cases "me_value (?es ! i)")
    case None
    then show ?thesis using i IH unfolding drop by (subst dict_equal_loop.simps) (simp add: a val live_entry_def)
  next
    case (Some w)
    have "entry_ok h (?es ! i)" using ok i by simp
    then obtain key where key: "me_key (?es ! i) = Some key" "me_hash (?es ! i) = h key"
      using Some by (auto simp: entry_ok_def split: option.splits)
    then show ?thesis using i IH Some look [of key] veq unfolding drop
      by (subst dict_equal_loop.simps) (auto simp: a val live_entry_def Let_def split: option.splits)
  qed
qed

lemma dict_equal_spec:
  assumes veq: "\<And>x y. veq x y (b, s) = (Some (E x y), (b, s))" and a: "a (b, s) = d"
    and d: "dict_inv uni h R d" and b: "dict_inv uni h R b"
  shows "dict_equal kenv veq a (b, s) =
    Some (Inr (length (dict_items d) = length (dict_items b) \<and> agrees E (dict_items d) (dict_items b)), (b, s))"
proof (cases "ma_used d = ma_used b")
  case False
  then show ?thesis using dict_inv_used [OF d] dict_inv_used [OF b] by (simp add: dict_equal_def a)
next
  case True
  then have len: "length (dict_items d) = length (dict_items b)" using dict_inv_used [OF d] dict_inv_used [OF b] by simp
  have eq: "dict_equal kenv veq a (b, s) = dict_equal_loop (look_known_hash kenv) veq a 0 (b, s)"
    using True by (simp add: dict_equal_def a)
  from d show ?thesis
  proof (cases rule: dict_invE)
    case (combined k)
    note n = items_of_take_nentries [OF combined(2)]
    show ?thesis unfolding eq
      using dict_equal_loop_spec [where a = a and look = "look_known_hash kenv" and veq = veq and i = 0, OF look_known_hash_spec [OF b] veq a combined(1) keys_invD(9) [OF combined(2)] n(2)] n(1) len
      by (simp add: dict_items_def)
  next
    case empty
    then show ?thesis using len unfolding eq by (subst dict_equal_loop.simps) (simp add: a dict_items_def empty_keys_struct_def)
  qed
qed

end

end
