(* ===== verification/Checked_Dict_Correct.thy ===== *)
theory Checked_Dict_Correct
  imports Dict_Merge_Correct
begin

text \<open>
  Type safety of checked dictionaries: every operation keeps the types of keys and values and the invariant of the
  hash table, so that they hold in all states a program can reach. Also the operations in detail, presized dictionaries and
  the free list of dictionary objects. The interface \<open>chkdict\<close> is interpreted on the built-in types.
\<close>

section \<open>Type safety\<close>

text \<open>The calls of the interpreter that a merge makes leave the dictionary as it may be: they keep \<open>I\<close>.\<close>

definition calls_keep :: "('o chkdict \<Rightarrow> bool) \<Rightarrow> (('o, 's) cstate \<Rightarrow> 'r \<times> ('o, 's) cstate) \<Rightarrow> bool" where
  "calls_keep I f \<longleftrightarrow> (\<forall>st. I (fst st) \<longrightarrow> I (fst (snd (f st))))"

lemma calls_keepD: "calls_keep I f \<Longrightarrow> I (fst st) \<Longrightarrow> f st = (r, st') \<Longrightarrow> I (fst st')"
  unfolding calls_keep_def by (metis snd_conv)

definition mapping_ok :: "('o chkdict \<Rightarrow> bool) \<Rightarrow> ('o, 's) mapping_calls \<Rightarrow> bool" where
  "mapping_ok I m \<longleftrightarrow> calls_keep I (mapping_keys m) \<and> calls_keep I (next_key m) \<and> (\<forall>key. calls_keep I (get_value m key))"

definition seq_ok :: "('o chkdict \<Rightarrow> bool) \<Rightarrow> ('o, 's) seq_calls \<Rightarrow> bool" where
  "seq_ok I q \<longleftrightarrow> calls_keep I (seq_iter q) \<and> calls_keep I (next_item q) \<and> (\<forall>x. calls_keep I (fast_items q x))"

text \<open>Another dictionary: it satisfies \<open>I\<close> and does not depend on the one that is changed.\<close>

definition other_ok :: "('o chkdict \<Rightarrow> bool) \<Rightarrow> (('o, 's) cstate \<Rightarrow> 'o chkdict) \<Rightarrow> bool" where
  "other_ok I other \<longleftrightarrow> (\<forall>mp mp' s. I (other (mp, s)) \<and> other (mp, s) = other (mp', s))"

text \<open>\<open>I\<close> is the invariant of dictionaries of the type, \<open>D\<close> that of all dictionaries.\<close>

definition arg_ok :: "('o chkdict \<Rightarrow> bool) \<Rightarrow> ('o chkdict \<Rightarrow> bool) \<Rightarrow> ('o, 's) update_arg \<Rightarrow> bool" where
  "arg_ok I D a \<longleftrightarrow>
     (case a of
        SameTypeArg b \<Rightarrow> (case b of MergeSelf \<Rightarrow> True | MergeDict other \<Rightarrow> other_ok I other | MergeMapping _ \<Rightarrow> False)
      | CheckedArg b \<Rightarrow> (case b of MergeSelf \<Rightarrow> True | MergeDict other \<Rightarrow> other_ok D other | MergeMapping _ \<Rightarrow> False)
      | DictArg m \<Rightarrow> mapping_ok I m
      | ObjectArg keys_attr m q \<Rightarrow> calls_keep I keys_attr \<and> mapping_ok I m \<and> seq_ok I q)"

context chkdict
begin

lemma inv_dict: "inv mp \<Longrightarrow> dict_inv uni h R mp"
  by (simp add: chkdict_inv_def)

lemma put_keeps: "inv mp \<Longrightarrow> put_result key v good mp r mp' \<Longrightarrow> (good \<longrightarrow> K key \<and> V v) \<Longrightarrow> inv mp'"
  by (auto simp: chkdict_inv_def put_result_def items_ok_put)

lemma puts_keeps:
  assumes "inv mp" "puts_result good kvs mp r mp'" "\<forall>(key, v)\<in>set kvs. good key v \<longrightarrow> K key \<and> V v"
  shows "inv mp'"
proof -
  obtain ys zs where y: "kvs = ys @ zs" "dict_items mp' = al_puts R ys (dict_items mp)" "\<forall>(key, v)\<in>set ys. good key v"
    using assms(2) unfolding puts_result_def by blast
  then have "items_ok K V ys" using assms(3) by (fastforce simp: items_ok_def)
  then show ?thesis using assms(1,2) y(2) by (auto simp: chkdict_inv_def puts_result_def items_ok_puts)
qed

lemma insert_known_hash_keeps:
  assumes "inv (fst st)" "K key" "V v" "insert_known_hash mem kenv key (h key) v st = Some (r, st')"
  shows "inv (fst st')"
  using insert_known_hash_spec [OF inv_dict [OF assms(1)], of mem key v "snd st"] assms
  by (auto simp: chkdict_inv_def items_ok_put)

lemma insert_hashed_keeps:
  assumes "inv (fst st)" "K key" "V v" "insert_hashed mem kenv key v st = Some (r, st')"
  shows "inv (fst st')"
  using insertdict_spec [OF inv_dict [OF assms(1)], of mem key v "snd st"] assms
  by (auto simp: insert_hashed_def hash_of chkdict_inv_def items_ok_put split: sum.splits)

lemma insert_checked_keeps:
  assumes "inv (fst st)" "insert_checked mem kenv env params key v st = Some (r, st')"
  shows "inv (fst st')"
  using assms insert_hashed_keeps [OF assms(1)] by (auto simp: insert_checked_def split: if_splits)

lemma merge_iterable_keeps:
  assumes m: "mapping_ok inv m" and st: "inv (fst st)" and c: "chkdict_merge_iterable mem kenv env params m st = Some (r, st')"
  shows "inv (fst st')"
proof -
  obtain b st1 where k: "mapping_keys m st = (b, st1)" by (cases "mapping_keys m st") blast
  have I1: "inv (fst st1)" by (rule calls_keepD [OF m [unfolded mapping_ok_def, THEN conjunct1] st k])
  have step: "inv (fst st'')" if "inv (fst st)" "merge_iterable_step mem kenv env params m x st = Some (r, st'')" for x st r st''
  proof -
    obtain v st2 where g: "get_value m x st = (v, st2)" by (cases "get_value m x st") blast
    have "inv (fst st2)" by (rule calls_keepD [OF m [unfolded mapping_ok_def, THEN conjunct2, THEN conjunct2, THEN spec] that(1) g])
    then show ?thesis using that(2) g insert_checked_keeps by (auto simp: merge_iterable_step_def split: option.splits)
  qed
  have it: "inv (fst (snd (next_key m st)))" if "inv (fst st)" for st
    using m that unfolding mapping_ok_def calls_keep_def by blast
  show ?thesis
  proof (cases b)
    case True
    then have "iter_loop (merge_iterable_step mem kenv env params m) (next_key m) False st1 = Some (r, st')"
      using c k by (simp add: chkdict_merge_iterable_def)
    from iter_loop_keeps [where I = "\<lambda>st. inv (fst st)", OF step it this I1] show ?thesis .
  qed (use c k I1 in \<open>auto simp: chkdict_merge_iterable_def\<close>)
qed

lemma mergefromseq2_keeps:
  assumes q: "seq_ok inv q" and st: "inv (fst st)" and c: "chkdict_mergefromseq2 mem kenv env params q st = Some (r, st')"
  shows "inv (fst st')"
proof -
  obtain b st1 where k: "seq_iter q st = (b, st1)" by (cases "seq_iter q st") blast
  have I1: "inv (fst st1)" by (rule calls_keepD [OF q [unfolded seq_ok_def, THEN conjunct1] st k])
  have step: "inv (fst st'')" if "inv (fst st)" "seq2_step mem kenv env params q x st = Some (r, st'')" for x st r st''
  proof -
    obtain v st2 where g: "fast_items q x st = (v, st2)" by (cases "fast_items q x st") blast
    have "inv (fst st2)" by (rule calls_keepD [OF q [unfolded seq_ok_def, THEN conjunct2, THEN conjunct2, THEN spec] that(1) g])
    then show ?thesis using that(2) g insert_checked_keeps
      by (auto simp: seq2_step_def split: sum.splits bool.splits if_splits)
  qed
  have it: "inv (fst (snd (next_item q st)))" if "inv (fst st)" for st
    using q that unfolding seq_ok_def calls_keep_def by blast
  show ?thesis
  proof (cases b)
    case True
    then have "iter_loop (seq2_step mem kenv env params q) (next_item q) False st1 = Some (r, st')"
      using c k by (simp add: chkdict_mergefromseq2_def)
    from iter_loop_keeps [where I = "\<lambda>st. inv (fst st)", OF step it this I1] show ?thesis .
  qed (use c k I1 in \<open>auto simp: chkdict_mergefromseq2_def\<close>)
qed

lemma dict_merge_keeps:
  assumes o: "other_ok inv other" and st: "inv (fst st)" and c: "dict_merge mem kenv (MergeDict other) 1 st = Some (r, st')"
  shows "inv (fst st')"
proof -
  obtain mp s where s: "st = (mp, s)" by fastforce
  define d where "d = other (mp, s)"
  have d: "\<And>mp'. other (mp', s) = d" "inv d" using o unfolding other_ok_def d_def by blast+
  obtain r' mp' where m: "dict_merge mem kenv (MergeDict other) 1 (mp, s) = Some (r', (mp', s))"
    "puts_result (\<lambda>_ _. True) (dict_items d) mp r' mp'"
    using dict_merge_spec [where other = other and s = s, OF d(1) inv_dict [OF d(2)] inv_dict, of mp mem] st s by auto
  have "inv mp'" by (rule puts_keeps [OF _ m(2)]) (use st s d(2) in \<open>auto simp: chkdict_inv_def items_ok_def\<close>)
  then show ?thesis using m(1) c s by auto
qed

lemma chkdict_merge_keeps:
  assumes o: "other_ok (dict_inv uni h R) other" and st: "inv (fst st)"
    and c: "chkdict_merge mem kenv env params (MergeDict other) st = Some (r, st')"
  shows "inv (fst st')"
proof -
  obtain mp s where s: "st = (mp, s)" by fastforce
  define d where "d = other (mp, s)"
  have d: "\<And>mp'. other (mp', s) = d" "dict_inv uni h R d" using o unfolding other_ok_def d_def by blast+
  obtain r' mp' where m: "chkdict_merge mem kenv env params (MergeDict other) (mp, s) = Some (r', (mp', s))"
    "puts_result (\<lambda>key v. K key \<and> V v) (dict_items d) mp r' mp'"
    using chkdict_merge_spec [where other = other and s = s, OF d(1,2) inv_dict, of mp mem] st s by auto
  have "inv mp'" by (rule puts_keeps [OF _ m(2)]) (use st s in auto)
  then show ?thesis using m(1) c s by auto
qed


lemma update_from_keeps:
  assumes a: "arg_ok inv (dict_inv uni h R) a" and st: "inv (fst st)" and c: "update_from mem kenv env params a st = Some (r, st')"
  shows "inv (fst st')"
proof (cases a)
  case (SameTypeArg b)
  then show ?thesis using a st c dict_merge_keeps by (cases b) (auto simp: update_from_def arg_ok_def dict_merge_def)
next
  case (CheckedArg b)
  then show ?thesis using a st c chkdict_merge_keeps by (cases b) (auto simp: update_from_def arg_ok_def chkdict_merge_def)
next
  case (DictArg m)
  then show ?thesis using a st c merge_iterable_keeps by (simp add: update_from_def arg_ok_def)
next
  case (ObjectArg keys_attr m q)
  obtain b st1 where k: "keys_attr st = (b, st1)" by (cases "keys_attr st") blast
  have keep: "calls_keep inv keys_attr" using a ObjectArg by (simp add: arg_ok_def)
  have I1: "inv (fst st1)" by (rule calls_keepD [OF keep st k])
  have oks: "mapping_ok inv m" "seq_ok inv q" using a ObjectArg by (simp_all add: arg_ok_def)
  consider "b = None" | "b = Some True" | "b = Some False" by auto
  then show ?thesis
  proof cases
    case 1
    then show ?thesis using c k I1 ObjectArg by (auto simp: update_from_def)
  next
    case 2
    then have "chkdict_merge_iterable mem kenv env params m st1 = Some (r, st')"
      using c k ObjectArg by (simp add: update_from_def chkdict_merge_def)
    then show ?thesis by (rule merge_iterable_keeps [OF oks(1) I1])
  next
    case 3
    then have "chkdict_mergefromseq2 mem kenv env params q st1 = Some (r, st')"
      using c k ObjectArg by (simp add: update_from_def)
    then show ?thesis by (rule mergefromseq2_keeps [OF oks(2) I1])
  qed
qed

lemma update_common_keeps:
  assumes args: "\<forall>a\<in>set args. arg_ok inv (dict_inv uni h R) a" and kw: "\<forall>m valid. kwds = Some (m, valid) \<longrightarrow> mapping_ok inv m"
    and st: "inv (fst st)" and c: "chkdict_update_common mem kenv env params methname args kwds st = Some (r, st')"
  shows "inv (fst st')"
proof -
  have kwds: "inv (fst st')" if "inv (fst st1)" "(case kwds of None \<Rightarrow> Some (Inr (), st1) | Some (m, valid) \<Rightarrow>
      if valid then chkdict_merge mem kenv env params (MergeMapping m) st1
      else Some (Inl (TypeError ''keywords must be strings''), st1)) = Some (r, st')" for st1
    using that kw merge_iterable_keeps [where r = r and st' = st', OF _ that(1)]
    by (cases kwds) (auto simp: chkdict_merge_def split: if_splits)
  show ?thesis
  proof (cases "chkdict_update_common mem kenv env params methname args kwds st = Some (Inl (TypeError (methname @ '' got a wrong number of arguments'')), st)")
    case True
    then show ?thesis using c st by simp
  next
    case False
    then have fast: "chkdict_update_common_fast mem kenv env params (case args of [] \<Rightarrow> None | a # _ \<Rightarrow> Some a) kwds st = Some (r, st')"
      using c by (auto simp: chkdict_update_common_def check_positional_def split: if_splits)
    show ?thesis
    proof (cases args)
      case Nil
      then show ?thesis using kwds [OF st] fast by (simp add: chkdict_update_common_fast_def)
    next
      case (Cons a as)
      then obtain r1 st1 where u: "update_from mem kenv env params a st = Some (r1, st1)"
        using fast by (cases "update_from mem kenv env params a st") (auto simp: chkdict_update_common_fast_def)
      have I1: "inv (fst st1)" by (rule update_from_keeps [OF _ st u]) (use args Cons in simp)
      show ?thesis using kwds [OF I1] fast u Cons I1 by (cases r1) (auto simp: chkdict_update_common_fast_def)
    qed
  qed
qed

lemma setdefault_keeps:
  assumes st: "inv (fst st)" and args: "length args \<noteq> 1 \<or> V (py_none env)"
    and c: "dict_setdefault_impl mem kenv env params args st = Some (r, st')"
  shows "inv (fst st')"
proof -
  have sd: "inv (fst st')" if "K key" "V d" "CheckedDict_SetDefault mem kenv key d st = Some (r, st')" for key d
    using SetDefault_spec [OF inv_dict [OF st], of mem key d "snd st"] st that
    by (auto simp: chkdict_inv_def split: option.splits)
  have K: "check_one_arg env params a n p Ci_Py_Sig_T0 = Inr () \<Longrightarrow> K a"
    and V: "check_one_arg env params a n p Ci_Py_Sig_T1 = Inr () \<Longrightarrow> V a" for a n p
    by (rule check_one_arg_admits; simp add: Ci_Py_Sig_T0_def Ci_Py_Sig_T1_def)+
  consider "length args = 1" | "length args = 2" | "length args < 1 \<or> length args > 2" by linarith
  then show ?thesis
  proof cases
    case 1
    then show ?thesis using c st sd [OF K, where d = "py_none env"] args
      by (auto simp: dict_setdefault_impl_def check_positional_def split: sum.splits)
  next
    case 2
    then show ?thesis using c st sd [OF K V]
      by (auto simp: dict_setdefault_impl_def check_positional_def split: sum.splits)
  next
    case 3
    then show ?thesis using c st by (auto simp: dict_setdefault_impl_def check_positional_def)
  qed
qed


section \<open>Operations\<close>

lemma ass_sub_keeps:
  assumes "inv (fst st)" "chkdict_ass_sub mem kenv env params key v st = Some (r, st')"
  shows "inv (fst st')"
proof (cases v)
  case None
  then show ?thesis using assms
    by (auto simp: chkdict_ass_sub_def hash_of DelItem_KnownHash_def PyDict_Check_def chkdict_tp_flags_def split: if_splits)
next
  case (Some w)
  then show ?thesis using assms insert_known_hash_keeps [OF assms(1)]
    by (auto simp: chkdict_ass_sub_def hash_of split: if_splits)
qed

lemma ass_sub_unchecked_keeps:
  assumes "inv (fst st)" "K key" "V v" "chkdict_ass_sub_unchecked mem kenv key v st = Some (r, st')"
  shows "inv (fst st')"
  using assms insert_known_hash_keeps [OF assms(1-3)] by (simp add: chkdict_ass_sub_unchecked_def hash_of)

lemma pop_keeps:
  assumes "inv (fst st)" "dict_pop kenv args st = Some (r, st')"
  shows "inv (fst st')"
proof -
  define deflt where "deflt = (if length args < 2 then None else Some (args ! 1))"
  show ?thesis using Pop_spec [OF inv_dict [OF assms(1)], of "args ! 0" deflt "snd st"] assms
    by (auto simp: dict_pop_def check_positional_def chkdict_inv_def items_ok_del deflt_def split: if_splits)
qed

lemma popitem_keeps:
  assumes "inv mp" "dict_popitem_impl mem tuple_ok mp = Some (r, mp')"
  shows "inv mp'"
proof (cases tuple_ok)
  case True
  then show ?thesis using popitem_spec [OF inv_dict [OF assms(1)], of mem] assms
    by (auto simp: chkdict_inv_def items_ok_butlast)
qed (use assms in \<open>simp add: dict_popitem_impl_def\<close>)

lemma clear_keeps: "inv mp \<Longrightarrow> inv (CheckedDict_Clear mp)"
  using clear_spec [of mp] by (auto simp: chkdict_inv_def)

lemma new_dict_inv:
  "inv (new_dict empty_keys_struct EmptyValues)"
  "new_keys_object mem (2 ^ k) = Some keys \<Longrightarrow> 3 \<le> k \<Longrightarrow> k \<le> 62 \<Longrightarrow> inv (new_dict keys NoValues)"
  using new_keys_fresh [of mem k keys]
  by (auto simp: chkdict_inv_def dict_inv_def new_dict_def dict_items_def empty_keys_struct_def)

text \<open>Setting an item: a refused key or value and a failing allocation leave the items alone.\<close>

lemma ass_sub_spec:
  assumes "inv mp"
  shows "\<exists>r mp'. chkdict_ass_sub mem kenv env params key (Some v) (mp, s) = Some (r, (mp', s)) \<and> inv mp' \<and>
    (if \<not> K key then r = Inl (TypeError ''bad key'') \<and> mp' = mp
     else if \<not> V v then r = Inl (TypeError ''bad value'') \<and> mp' = mp
     else r = Inr () \<and> dict_items mp' = al_put R key v (dict_items mp) \<or> r = Inl MemoryError \<and> dict_items mp' = dict_items mp)"
  using insert_known_hash_spec [OF inv_dict [OF assms], of mem key v s] assms
  by (auto simp: chkdict_ass_sub_def hash_of chkdict_inv_def items_ok_put)

lemma del_refused:
  "chkdict_ass_sub mem kenv env params key None (mp, s) = Some (Inl (if K key then SystemError else TypeError ''bad key''), (mp, s))"
  by (simp add: chkdict_ass_sub_def hash_of DelItem_KnownHash_def PyDict_Check_def chkdict_tp_flags_def)

text \<open>What a lookup returns has the type of values.\<close>

lemma subscript_typed:
  assumes "inv mp" "chkdict_subscript kenv env params key (mp, s) = Some (Inr v, st')"
  shows "V v"
  using assms dict_subscript_spec [OF inv_dict [OF assms(1)], of key s] items_ok_get
  by (auto simp: chkdict_subscript_def chkdict_inv_def split: if_splits option.splits)

text \<open>One argument: the default is \<open>None\<close>, whatever the type of values.\<close>

lemma setdefault_none:
  assumes inv: "inv mp" and key: "type_check env key (gtp_type (params ! 0))" "al_get R key (dict_items mp) = None"
  shows "\<exists>r mp'. dict_setdefault_impl mem kenv env params [key] (mp, s) = Some (r, (mp', s)) \<and>
    (r = Inr (py_none env) \<and> dict_items mp' = dict_items mp @ [(key, py_none env)] \<or> r = Inl MemoryError)"
proof -
  have "check_one_arg env params key n p Ci_Py_Sig_T0 = Inr ()" for n p
    by (subst check_one_arg_param [where i = 0]) (simp_all add: Ci_Py_Sig_T0_def key(1) del: decimal.simps)
  then show ?thesis using SetDefault_spec [OF inv_dict [OF inv], of mem key "py_none env" s] key(2)
    by (auto simp: dict_setdefault_impl_def check_positional_def)
qed

end

section \<open>Runs of a checked dictionary\<close>

text \<open>
  What a program can do to a \<open>CheckedDict[K, V]\<close> after its creation. Compiled code calls \<open>chkdict_ass_sub_unchecked\<close> only
  with values whose types it has checked. \<open>setdefault\<close> with one argument is a step only where \<open>None\<close> is a value of \<open>V\<close>.
\<close>

inductive chkdict_run ::
  "('o, 'o, 's) key_env \<Rightarrow> ('o \<Rightarrow> size_t) \<Rightarrow> ('o \<Rightarrow> 'o \<Rightarrow> bool) \<Rightarrow> ('o, 'ty) obj_env \<Rightarrow> 'ty generic_param list \<Rightarrow>
     ('o, 's) cstate \<Rightarrow> bool" for kenv h R env params where
  run_new: "chkdict_run kenv h R env params (new_dict empty_keys_struct EmptyValues, s)"
| run_presized: "new_keys_object mem (presized n) = Some keys \<Longrightarrow> 5 < n \<Longrightarrow> chkdict_run kenv h R env params (new_dict keys NoValues, s)"
| run_set: "chkdict_run kenv h R env params st \<Longrightarrow> chkdict_ass_sub mem kenv env params key v st = Some (r, st') \<Longrightarrow>
    chkdict_run kenv h R env params st'"
| run_unchecked: "chkdict_run kenv h R env params st \<Longrightarrow> admits env (params ! 0) key \<Longrightarrow> admits env (params ! 1) v \<Longrightarrow>
    chkdict_ass_sub_unchecked mem kenv key v st = Some (r, st') \<Longrightarrow> chkdict_run kenv h R env params st'"
| run_setdefault: "chkdict_run kenv h R env params st \<Longrightarrow> length args \<noteq> 1 \<or> admits env (params ! 1) (py_none env) \<Longrightarrow>
    dict_setdefault_impl mem kenv env params args st = Some (r, st') \<Longrightarrow> chkdict_run kenv h R env params st'"
| run_pop: "chkdict_run kenv h R env params st \<Longrightarrow> dict_pop kenv args st = Some (r, st') \<Longrightarrow> chkdict_run kenv h R env params st'"
| run_popitem: "chkdict_run kenv h R env params (mp, s) \<Longrightarrow> dict_popitem_impl mem tuple_ok mp = Some (r', mp') \<Longrightarrow>
    chkdict_run kenv h R env params (mp', s)"
| run_clear: "chkdict_run kenv h R env params (mp, s) \<Longrightarrow> chkdict_run kenv h R env params (CheckedDict_Clear mp, s)"
| run_update: "chkdict_run kenv h R env params st \<Longrightarrow>
    \<forall>a\<in>set as. arg_ok (chkdict_inv kenv h R env params) (dict_inv (\<lambda>key. unicode_data kenv key \<noteq> None) h R) a \<Longrightarrow>
    \<forall>m valid. kwds = Some (m, valid) \<longrightarrow> mapping_ok (chkdict_inv kenv h R env params) m \<Longrightarrow>
    chkdict_update mem kenv env params as kwds st = Some (r, st') \<Longrightarrow> chkdict_run kenv h R env params st'"

subsection \<open>Presized dictionaries\<close>

lemma presize_loop_pow2: "presize_loop (2 ^ a) (2 ^ b) = 2 ^ max a b"
proof (induction "b - a" arbitrary: a)
  case 0
  then show ?case by (subst presize_loop.simps) (simp add: max_def)
next
  case (Suc n)
  have "presize_loop (2 ^ Suc a) (2 ^ b) = 2 ^ max (Suc a) b" using Suc.hyps(2) by (intro Suc.hyps(1)) simp
  moreover have "\<not> (2 :: int) ^ b \<le> int (2 ^ a)" using Suc.hyps(2) by simp
  ultimately show ?case using Suc.hyps(2) by (subst presize_loop.simps) (simp add: max_def split: if_splits)
qed

lemma or_nat_less: "a < 2 ^ n \<Longrightarrow> b < 2 ^ n \<Longrightarrow> a OR b < 2 ^ n" for a b :: nat
  using OR_upper [of "int a" n "int b"] by (simp add: of_nat_or_eq [symmetric] flip: of_nat_less_iff)

lemma sint_push_bit_small: "n < 63 \<Longrightarrow> sint (push_bit n (1 :: size_t)) = 2 ^ n"
  using sint_of_int_size_t [of "2 ^ n"] power_strict_increasing [of n 63 "2 :: int"] by (simp add: push_bit_eq_mult)

lemma bit_length_mono: "m \<le> n \<Longrightarrow> bit_length m \<le> bit_length n"
proof (induction n arbitrary: m rule: bit_length.induct)
  case (1 n)
  show ?case
  proof (cases "m = 0")
    case False
    then have "bit_length (m div 2) \<le> bit_length (n div 2)" using 1 by (intro "1.IH") (auto intro: div_le_mono)
    then show ?thesis using False 1(2) by (subst (1 2) bit_length.simps) simp
  qed (simp add: bit_length.simps)
qed

text \<open>The size is a power of two with room for the items that are announced, up to a limit.\<close>

lemma presized_pow2:
  assumes "5 < n"
  shows "\<exists>k. presized n = 2 ^ k \<and> 4 \<le> k \<and> k \<le> 62 \<and> (n \<le> 87381 \<longrightarrow> n \<le> int (USABLE_FRACTION (2 ^ k)))"
proof (cases "n > int (USABLE_FRACTION max_presize)")
  case True
  then have "presized n = 2 ^ 17" "n > 87381" by (simp_all add: presized_def USABLE_FRACTION_def)
  then show ?thesis by (intro exI [of _ 17]) simp
next
  case False
  then have n: "n \<le> 87381" by (simp add: USABLE_FRACTION_def)
  let ?m = "(nat n * 3 + 1) div 2"
  define q where "q = ((?m OR 8) - 1) OR 7"
  have m: "?m \<le> 131072" using n by linarith
  have "q < 2 ^ 18" unfolding q_def by (intro or_nat_less) (use or_nat_less [of ?m 18 8] m in \<open>auto simp: less_imp_diff_less\<close>)
  then have "bit_length q \<le> bit_length (2 ^ 18)" by (intro bit_length_mono) simp
  also have "\<dots> = 19" by (simp add: bit_length.simps)
  finally have "sint (push_bit (bit_length q) (1 :: size_t)) = 2 ^ bit_length q" by (intro sint_push_bit_small) simp
  then have "calculate_keysize ?m = 2 ^ bit_length q" by (simp add: calculate_keysize_def Let_def q_def)
  then have "0 < calculate_keysize ?m" by simp
  then obtain k where k: "calculate_keysize ?m = 2 ^ k" "3 \<le> k" "k \<le> 62" "?m \<le> 2 ^ k" by (rule calculate_keysize_pos)
  have eq: "presized n = 2 ^ max 4 k"
    using False k(1) presize_loop_pow2 [of 4 k] by (simp add: presized_def estimate_keysize_def)
  have "x \<le> 2 * c + 1" if "x div 2 \<le> c" for x c :: nat using that by linarith
  from this [OF k(4)] have "nat n * 3 \<le> 2 * 2 ^ k" by simp
  moreover have "(2 :: nat) ^ k \<le> 2 ^ max 4 k" by (intro power_increasing) simp_all
  ultimately have "nat n * 3 \<le> 2 * 2 ^ max 4 k" by linarith
  then have "nat n \<le> USABLE_FRACTION (2 ^ max 4 k)" by (simp add: USABLE_FRACTION_def less_eq_div_iff_mult_less_eq)
  then show ?thesis using eq k(3) assms by (intro exI [of _ "max 4 k"]) auto
qed

subsection \<open>Every run keeps the types\<close>

context chkdict
begin

lemma run_inv: "chkdict_run kenv h R env params st \<Longrightarrow> inv (fst st)"
proof (induction rule: chkdict_run.induct)
  case (run_new s)
  then show ?case using new_dict_inv(1) by simp
next
  case (run_presized mem n keys s)
  obtain k where k: "presized n = 2 ^ k" "4 \<le> k" "k \<le> 62" using presized_pow2 [OF run_presized(2)] by blast
  then show ?case using new_dict_inv(2) [of mem k keys] run_presized(1) by simp
next
  case (run_set st mem key v r st')
  then show ?case using ass_sub_keeps by blast
next
  case (run_unchecked st key v mem r st')
  then show ?case using ass_sub_unchecked_keeps by blast
next
  case (run_setdefault st args mem r st')
  then show ?case using setdefault_keeps by blast
next
  case (run_pop st args r st')
  then show ?case using pop_keeps by blast
next
  case (run_popitem mp s mem tuple_ok r' mp')
  then show ?case using popitem_keeps [of mp mem tuple_ok r' mp'] by simp
next
  case (run_clear mp s)
  then show ?case using clear_keeps by simp
next
  case (run_update st as kwds mem r st')
  show ?case by (rule update_common_keeps [OF run_update.hyps(2,3) run_update.IH run_update.hyps(4) [unfolded chkdict_update_def]])
qed

end

section \<open>The free list\<close>

text \<open>The objects on the free list are distinct and not in use.\<close>

definition free_dicts :: "('o, 'ty) dict_mem \<Rightarrow> nat list" where
  "free_dicts m = take (dict_numfree (the_dict_state m)) (dict_free_list (the_dict_state m))"

definition dict_mem_inv :: "('o, 'ty) dict_mem \<Rightarrow> bool" where
  "dict_mem_inv m \<longleftrightarrow>
     length (dict_free_list (the_dict_state m)) = CiDict_MAXFREELIST \<and> dict_numfree (the_dict_state m) \<le> CiDict_MAXFREELIST \<and>
     distinct (free_dicts m) \<and> set (free_dicts m) \<inter> dom (dicts m) = {}"

lemma dict_dealloc_inv:
  assumes inv: "dict_mem_inv m" and a: "a \<in> dom (dicts m)"
  shows "dict_mem_inv (dict_dealloc a m)" "dicts (dict_dealloc a m) = (dicts m)(a := None)"
proof -
  let ?st = "the_dict_state m"
  show "dicts (dict_dealloc a m) = (dicts m)(a := None)"
    by (simp add: dict_dealloc_def get_dict_state_def Let_def)
  show "dict_mem_inv (dict_dealloc a m)"
  proof (cases "dict_interp_id m = 0 \<and> dict_numfree ?st < CiDict_MAXFREELIST")
    case True
    define m' where "m' = m\<lparr>dicts := (dicts m)(a := None), the_dict_state :=
        ?st\<lparr>dict_free_list := (dict_free_list ?st)[dict_numfree ?st := a], dict_numfree := dict_numfree ?st + 1\<rparr>\<rparr>"
    have "free_dicts m' = free_dicts m @ [a]"
      using True inv by (simp add: m'_def free_dicts_def dict_mem_inv_def take_Suc_conv_app_nth)
    moreover have "a \<notin> set (free_dicts m)" using inv a by (auto simp: dict_mem_inv_def)
    moreover have "dict_dealloc a m = m'" using True by (simp add: dict_dealloc_def get_dict_state_def Let_def m'_def)
    ultimately show ?thesis using inv True by (auto simp: dict_mem_inv_def m'_def)
  next
    case False
    then have "dict_dealloc a m = m\<lparr>dicts := (dicts m)(a := None)\<rparr>" by (auto simp: dict_dealloc_def get_dict_state_def Let_def)
    then show ?thesis using inv by (auto simp: dict_mem_inv_def free_dicts_def)
  qed
qed

lemma chknew_dict_inv:
  assumes inv: "dict_mem_inv m" and new: "\<forall>b. new = Some b \<longrightarrow> b \<notin> dom (dicts m) \<union> set (free_dicts m)"
    and r: "chknew_dict new type keys vals m = (Inr a, m')"
  shows "dict_mem_inv m' \<and> a \<notin> dom (dicts m) \<and> dicts m' = (dicts m)(a \<mapsto> (type, new_dict keys vals))"
proof -
  let ?st = "the_dict_state m"
  have id: "dict_interp_id m = 0" using r by (simp add: chknew_dict_def get_dict_state_def split: if_splits)
  show ?thesis
  proof (cases "dict_numfree ?st")
    case 0
    then show ?thesis using r id new inv
      by (auto simp: chknew_dict_def get_dict_state_def dict_mem_inv_def free_dicts_def split: option.splits)
  next
    case (Suc k)
    have len: "k < length (dict_free_list ?st)" using inv Suc by (simp add: dict_mem_inv_def)
    have a: "a = dict_free_list ?st ! k"
      and m': "m' = m\<lparr>the_dict_state := ?st\<lparr>dict_numfree := k\<rparr>, dicts := (dicts m)(a \<mapsto> (type, new_dict keys vals))\<rparr>"
      using r id Suc by (auto simp: chknew_dict_def get_dict_state_def Let_def)
    have "free_dicts m = free_dicts m' @ [a]"
      using Suc len a by (simp add: free_dicts_def m' take_Suc_conv_app_nth)
    then show ?thesis using inv Suc by (auto simp: dict_mem_inv_def m')
  qed
qed

lemma NewPresized_inv:
  assumes inv: "dict_mem_inv m" and new: "\<forall>b. new = Some b \<longrightarrow> b \<notin> dom (dicts m) \<union> set (free_dicts m)"
    and r: "CheckedDict_NewPresized mem new type n m = (Inr a, m')"
  shows "dict_mem_inv m' \<and> a \<notin> dom (dicts m)"
proof (cases "n \<le> 5")
  case True
  then show ?thesis using chknew_dict_inv [OF inv new] r
    by (simp add: CheckedDict_NewPresized_def CheckedDict_New_def USABLE_FRACTION_def)
next
  case False
  then show ?thesis using chknew_dict_inv [OF inv new, where keys = "the (new_keys_object mem (presized n))"] r
    by (auto simp: CheckedDict_NewPresized_def USABLE_FRACTION_def Let_def split: option.splits if_splits)
qed

section \<open>Strings, integers and None\<close>

text \<open>The built-in types, with \<open>None\<close> as an object of its own type.\<close>

datatype builtin_type = StrType | IntType | NoneType

definition builtin_objects :: "(builtin_key, builtin_type) obj_env" where
  "builtin_objects =
     \<lparr>py_none = NoneKey,
      type_check = \<lambda>x t. case x of StrKey _ \<Rightarrow> t = StrType | LongKey _ \<Rightarrow> t = IntType | NoneKey \<Rightarrow> t = NoneType,
      long_object = \<lambda>x. case x of LongKey i \<Rightarrow> Some i | _ \<Rightarrow> None,
      unicode_object = \<lambda>x. case x of StrKey _ \<Rightarrow> True | _ \<Rightarrow> False,
      tp_name = \<lambda>t. case t of StrType \<Rightarrow> ''str'' | IntType \<Rightarrow> ''int'' | NoneType \<Rightarrow> ''NoneType''\<rparr>"

interpretation builtin_dict: chkdict "builtin_env sh" "builtin_hash sh" "(=)" builtin_objects params for sh params
  by (rule chkdict.intro) (rule builtin.quiet_keys_axioms)

end
