(* ===== verification/Dict_Iter.thy ===== *)
theory Dict_Iter
  imports Dict_Object
begin

text \<open>
  The iterators over checked dictionaries and printing, from \<open>checked_dict.c\<close>. An iterator refers to its
  dictionary until it is exhausted (\<open>di_dict\<close>) and remembers the number of items it found at the beginning
  (\<open>di_used\<close>) and how many are left (\<open>di_len\<close>); the dictionary may change between two calls.
\<close>

section \<open>Definitions\<close>

subsection \<open>Iterators\<close>

datatype iter_kind = IterKey | IterValue | IterItem | RevIterKey | RevIterValue | RevIterItem

definition is_rev :: "iter_kind \<Rightarrow> bool" where
  "is_rev kind \<longleftrightarrow> kind = RevIterKey \<or> kind = RevIterItem \<or> kind = RevIterValue"

record dictiter =
  di_dict :: bool
  di_used :: int
  di_pos :: int
  di_len :: int

text \<open>\<open>obj_ok\<close> and \<open>pair_ok\<close> tell whether the iterator and the result tuple can be allocated.\<close>

definition dictiter_new :: "bool \<Rightarrow> bool \<Rightarrow> ('k, 'v) dictobj \<Rightarrow> iter_kind \<Rightarrow> dictiter res" where
  "dictiter_new obj_ok pair_ok d kind =
     (if \<not> obj_ok then Inl MemoryError
      else if (kind = IterItem \<or> kind = RevIterItem) \<and> \<not> pair_ok then Inl MemoryError
      else Inr \<lparr>di_dict = True, di_used = int (ma_used d),
             di_pos = (if is_rev kind
                       then (if ma_values d \<noteq> NoValues then int (ma_used d) - 1 else int (dk_nentries (ma_keys d)) - 1)
                       else 0),
             di_len = int (ma_used d)\<rparr>)"

definition dictiter_length_hint :: "('k, 'v) dictobj \<Rightarrow> dictiter \<Rightarrow> int" where
  "dictiter_length_hint d di = (if di_dict di \<and> di_used di = int (ma_used d) then di_len di else 0)"

definition changed_size :: "dictiter \<Rightarrow> 'a option res \<times> dictiter" where
  "changed_size di = (Inl (RuntimeError ''dictionary changed size during iteration''), di\<lparr>di_used := - 1\<rparr>)"

text \<open>
  The next entry. The three functions for keys, values and items repeat this code; \<open>Inr None\<close> is the end of the
  iteration.
\<close>

definition iternext_entry :: "('k, 'v) dictobj \<Rightarrow> dictiter \<Rightarrow> ('k \<times> 'v) option res \<times> dictiter" where
  "iternext_entry d di =
     (if \<not> di_dict di then (Inr None, di)
      else if di_used di \<noteq> int (ma_used d) then changed_size di
      else if di_pos di < 0 then (Inl AssertionFailure, di)
      else
        (let k = ma_keys d; i = nat (di_pos di); i' = skip_dead (dk_entries k) i (dk_nentries k) in
         case (case ma_values d of
                 NoValues \<Rightarrow> if i' \<ge> dk_nentries k then None else Some (i', me_value (dk_entries k ! i'))
               | vs \<Rightarrow> if i \<ge> ma_used d then None else Some (i, value_slot vs i)) of
           None \<Rightarrow> (Inr None, di\<lparr>di_dict := False\<rparr>)
         | Some (i, None) \<Rightarrow> (Inl AssertionFailure, di)
         | Some (i, Some v) \<Rightarrow>
             if di_len di = 0
             then (Inl (RuntimeError ''dictionary keys changed during iteration''), di\<lparr>di_dict := False\<rparr>)
             else (Inr (Some (the (me_key (dk_entries k ! i)), v)), di\<lparr>di_pos := int i + 1, di_len := di_len di - 1\<rparr>)))"

definition map_next :: "('a \<Rightarrow> 'b) \<Rightarrow> 'a option res \<times> dictiter \<Rightarrow> 'b option res \<times> dictiter" where
  "map_next f r = (map_sum id (map_option f) (fst r), snd r)"

definition dictiter_iternextkey :: "('k, 'v) dictobj \<Rightarrow> dictiter \<Rightarrow> 'k option res \<times> dictiter" where
  "dictiter_iternextkey d di = map_next fst (iternext_entry d di)"

definition dictiter_iternextvalue :: "('k, 'v) dictobj \<Rightarrow> dictiter \<Rightarrow> 'v option res \<times> dictiter" where
  "dictiter_iternextvalue d di = map_next snd (iternext_entry d di)"

text \<open>The pair is built after the iterator has moved on: when that fails, the item is lost.\<close>

definition dictiter_iternextitem ::
  "bool \<Rightarrow> ('k, 'v) dictobj \<Rightarrow> dictiter \<Rightarrow> ('k \<times> 'v) option res \<times> dictiter" where
  "dictiter_iternextitem pair_ok d di =
     (case iternext_entry d di of
        (Inr (Some kv), di) \<Rightarrow> if pair_ok then (Inr (Some kv), di) else (Inl MemoryError, di)
      | (r, di) \<Rightarrow> (r, di))"

text \<open>
  Backwards. The position is not compared with the number of entries: behind the end of the array the read is
  invalid.
\<close>

datatype ('k, 'v) rev_result = RevKey 'k | RevValue 'v | RevItem 'k 'v

definition rev_result :: "iter_kind \<Rightarrow> 'k \<Rightarrow> 'v \<Rightarrow> ('k, 'v) rev_result" where
  "rev_result kind key v = (if kind = RevIterKey then RevKey key else if kind = RevIterValue then RevValue v else RevItem key v)"

definition dictreviter_iternext ::
  "bool \<Rightarrow> iter_kind \<Rightarrow> ('k, 'v) dictobj \<Rightarrow> dictiter \<Rightarrow> ('k, 'v) rev_result option res \<times> dictiter" where
  "dictreviter_iternext pair_ok kind d di =
     (if \<not> di_dict di then (Inr None, di)
      else if di_used di \<noteq> int (ma_used d) then changed_size di
      else if di_pos di < 0 then (Inr None, di\<lparr>di_dict := False\<rparr>)
      else
        (let dk = ma_keys d; i = nat (di_pos di) in
         if i \<ge> length (dk_entries dk) then (Inl InvalidMemory, di)
         else
           (case (case ma_values d of
                    NoValues \<Rightarrow> map_option (\<lambda>j. (j, me_value (dk_entries dk ! j))) (last_live (dk_entries dk) (Suc i))
                  | vs \<Rightarrow> Some (i, value_slot vs i)) of
              None \<Rightarrow> (Inr None, di\<lparr>di_dict := False\<rparr>)
            | Some (j, None) \<Rightarrow> (Inl AssertionFailure, di)
            | Some (j, Some v) \<Rightarrow>
                (let di = di\<lparr>di_pos := int j - 1, di_len := di_len di - 1\<rparr> in
                 if kind = RevIterItem \<and> \<not> pair_ok then (Inl MemoryError, di)
                 else (Inr (Some (rev_result kind (the (me_key (dk_entries dk ! j))) v)), di)))))"

definition dict_iter :: "bool \<Rightarrow> ('k, 'v) dictobj \<Rightarrow> dictiter res" where
  "dict_iter obj_ok d = dictiter_new obj_ok True d IterKey"

definition dict_reversed_impl :: "bool \<Rightarrow> ('k, 'v) dictobj \<Rightarrow> dictiter res" where
  "dict_reversed_impl obj_ok d = dictiter_new obj_ok True d RevIterKey"

subsection \<open>Printing\<close>

text \<open>
  What printing calls: \<open>PyObject_Repr\<close> of keys and values, which may change the dictionary; \<open>writable\<close> tells whether
  the writer can hold a text.
\<close>

record ('k, 'v, 's) repr_env =
  repr_key :: "'k \<Rightarrow> ('k, 'v, 's) dstate \<Rightarrow> string option \<times> ('k, 'v, 's) dstate"
  repr_value :: "'v \<Rightarrow> ('k, 'v, 's) dstate \<Rightarrow> string option \<times> ('k, 'v, 's) dstate"
  writable :: "string \<Rightarrow> bool"

definition write_str :: "('k, 'v, 's) repr_env \<Rightarrow> string \<Rightarrow> string \<Rightarrow> string res" where
  "write_str renv w s = (if writable renv (w @ s) then Inr (w @ s) else Inl MemoryError)"

definition write_repr ::
  "('k, 'v, 's) repr_env \<Rightarrow> string option \<times> ('k, 'v, 's) dstate \<Rightarrow> string \<Rightarrow> string res \<times> ('k, 'v, 's) dstate" where
  "write_repr renv r w = (case r of (None, st) \<Rightarrow> (Inl Propagated, st) | (Some s, st) \<Rightarrow> (write_str renv w s, st))"

definition repr_item ::
  "('k, 'v, 's) repr_env \<Rightarrow> bool \<Rightarrow> 'k \<Rightarrow> 'v \<Rightarrow> string \<Rightarrow> ('k, 'v, 's) dstate \<Rightarrow> string res \<times> ('k, 'v, 's) dstate" where
  "repr_item renv first key v w st =
     (case (if first then Inr w else write_str renv w '', '') of
        Inl e \<Rightarrow> (Inl e, st)
      | Inr w \<Rightarrow>
          (case write_repr renv (repr_key renv key st) w of
             (Inl e, st) \<Rightarrow> (Inl e, st)
           | (Inr w, st) \<Rightarrow>
               (case write_str renv w '': '' of
                  Inl e \<Rightarrow> (Inl e, st)
                | Inr w \<Rightarrow> write_repr renv (repr_value renv v st) w)))"

text \<open>The loop ends only if \<open>repr\<close> does not keep adding entries.\<close>

partial_function (option) repr_loop ::
  "('k, 'v, 's) repr_env \<Rightarrow> int \<Rightarrow> bool \<Rightarrow> string \<Rightarrow> ('k, 'v, 's) dstate \<Rightarrow> (string res \<times> ('k, 'v, 's) dstate) option" where
  "repr_loop renv i first w st =
     (case CheckedDict_Next (fst st) i of
        None \<Rightarrow> Some (write_str renv w ''}'', st)
      | Some (i, key, v, hash) \<Rightarrow>
          (case repr_item renv first key v w st of
             (r, st) \<Rightarrow>
               (case r of
                  Inl e \<Rightarrow> Some (Inl e, st)
                | Inr w \<Rightarrow> repr_loop renv i False w st)))"

text \<open>\<open>enter\<close> is the answer of \<open>Py_ReprEnter\<close>: positive when this dictionary is being printed already.\<close>

definition dict_repr ::
  "('k, 'v, 's) repr_env \<Rightarrow> int \<Rightarrow> ('k, 'v, 's) dstate \<Rightarrow> (string res \<times> ('k, 'v, 's) dstate) option" where
  "dict_repr renv enter st =
     (if enter \<noteq> 0 then Some (if enter > 0 then Inr ''{...}'' else Inl Propagated, st)
      else if ma_used (fst st) = 0 then Some (Inr ''{}'', st)
      else
        (case write_str renv '''' ''{'' of
           Inl e \<Rightarrow> Some (Inl e, st)
         | Inr w \<Rightarrow> repr_loop renv 0 True w st))"

end
