(* ===== verification/Dict_Iter_Correct.thy ===== *)
theory Dict_Iter_Correct
  imports Dict_Iter Dict_Object_Correct
begin

text \<open>
  What the iterators deliver: over an unchanged dictionary the items in insertion order, or reversed, and then
  the end; over a dictionary that changes, never more items than it had at the beginning, and an error that stays
  once its size has changed. Printing shows the items in order.
\<close>

section \<open>Iterating over an unchanged dictionary\<close>

text \<open>Up to \<open>n\<close> calls: the items delivered and how the iteration ended, if it did.\<close>

fun drain :: "(dictiter \<Rightarrow> 'a option res \<times> dictiter) \<Rightarrow> nat \<Rightarrow> dictiter \<Rightarrow> 'a list \<times> unit res option \<times> dictiter" where
  "drain nxt 0 di = ([], None, di)"
| "drain nxt (Suc n) di =
     (case nxt di of
        (Inr (Some x), di) \<Rightarrow> (case drain nxt n di of (xs, r) \<Rightarrow> (x # xs, r))
      | (Inr None, di) \<Rightarrow> ([], Some (Inr ()), di)
      | (Inl e, di) \<Rightarrow> ([], Some (Inl e), di))"

lemma drain_map_next: "drain (\<lambda>di. map_next f (nxt di)) n di = apfst (map f) (drain nxt n di)"
proof (induction n arbitrary: di)
  case (Suc n)
  obtain r di' where "nxt di = (r, di')" by fastforce
  then show ?case using Suc by (cases r; cases "drain nxt n di'") (auto simp: map_next_def split: option.splits)
qed simp

text \<open>The position splits the entries into those that were delivered and those that are left.\<close>

definition iter_at :: "('k, 'v) dictobj \<Rightarrow> nat \<Rightarrow> dictiter \<Rightarrow> bool" where
  "iter_at d i di \<longleftrightarrow>
     di_dict di \<and> di_used di = int (ma_used d) \<and> di_pos di = int i \<and>
     di_len di = int (length (items_of (drop i (dk_entries (ma_keys d)))))"

definition reviter_at :: "('k, 'v) dictobj \<Rightarrow> nat \<Rightarrow> dictiter \<Rightarrow> bool" where
  "reviter_at d i di \<longleftrightarrow> di_dict di \<and> di_used di = int (ma_used d) \<and> di_pos di = int i - 1"

context quiet_keys
begin

lemma iternext_entry_drain:
  assumes inv: "keys_inv uni h R k (ma_keys d)" and v: "ma_values d = NoValues"
  shows "i \<le> dk_nentries (ma_keys d) \<Longrightarrow> iter_at d i di \<Longrightarrow> length (items_of (drop i (dk_entries (ma_keys d)))) < n \<Longrightarrow>
    \<exists>di'. drain (iternext_entry d) n di = (items_of (drop i (dk_entries (ma_keys d))), Some (Inr ()), di') \<and> \<not> di_dict di'"
proof (induction n arbitrary: i di)
  case (Suc n)
  let ?es = "dk_entries (ma_keys d)" and ?n = "dk_nentries (ma_keys d)"
  note D = keys_invD [OF inv]
  have n_le: "?n \<le> length ?es" using D(5,6,7) by simp
  define j where "j = skip_dead ?es i ?n"
  have j: "i \<le> j" "j \<le> ?n" "\<forall>l. i \<le> l \<and> l < j \<longrightarrow> \<not> live_entry (?es ! l)" "j < ?n \<longrightarrow> live_entry (?es ! j)"
    using skip_dead_spec [OF Suc.prems(1), of ?es] by (auto simp: j_def)
  then have items: "items_of (drop i ?es) = items_of (drop j ?es)" using n_le by (intro items_of_drop_dead) auto
  note at = Suc.prems(2) [unfolded iter_at_def]
  show ?case
  proof (cases "j < ?n")
    case True
    then obtain w where w: "me_value (?es ! j) = Some w" using j(4) by (auto simp: live_entry_def)
    have drop: "items_of (drop j ?es) = (the (me_key (?es ! j)), w) # items_of (drop (Suc j) ?es)"
      using True j(4) n_le w by (simp add: Cons_nth_drop_Suc [symmetric])
    define di' where "di' = di\<lparr>di_pos := int j + 1, di_len := di_len di - 1\<rparr>"
    have "di_len di \<noteq> 0" using at items drop by simp
    then have step: "iternext_entry d di = (Inr (Some (the (me_key (?es ! j)), w)), di')"
      using at v w True by (simp add: iternext_entry_def Let_def j_def di'_def)
    have "iter_at d (Suc j) di'" using at items drop by (simp add: iter_at_def di'_def)
    then show ?thesis using Suc.IH [of "Suc j" di'] Suc.prems(3) True step drop items by auto
  next
    case False
    then have "j = ?n" using j(2) by simp
    moreover have "\<not> live_entry (?es ! l)" if "?n \<le> l" "l < length ?es" for l using D(10) that by (auto simp: live_set_def)
    then have "items_of (drop ?n ?es) = []" by (intro items_of_dead) (auto simp: in_set_conv_nth)
    moreover have "iternext_entry d di = (Inr None, di\<lparr>di_dict := False\<rparr>)"
      using \<open>j = ?n\<close> v at by (simp add: iternext_entry_def Let_def j_def)
    ultimately show ?thesis using items by simp
  qed
qed simp

lemma iter_drains:
  assumes inv: "dict_inv uni h R d" and di: "dictiter_new True pair_ok d kind = Inr di" "\<not> is_rev kind" and n: "ma_used d < n"
  shows "\<exists>di'. drain (iternext_entry d) n di = (dict_items d, Some (Inr ()), di') \<and> \<not> di_dict di'"
  using inv
proof (cases rule: dict_invE)
  case (combined k)
  have "iter_at d 0 di" using di dict_inv_used [OF inv] by (auto simp: iter_at_def dictiter_new_def dict_items_def split: if_splits)
  then show ?thesis
    using iternext_entry_drain [OF combined(2,1), of 0 di n] n dict_inv_used [OF inv] by (simp add: dict_items_def)
next
  case empty
  obtain m where "n = Suc m" using n by (cases n) simp_all
  then show ?thesis using empty di dict_inv_used [OF inv]
    by (auto simp: dictiter_new_def iternext_entry_def dict_items_def empty_keys_struct_def Let_def split: if_splits)
qed

lemma last_live_split:
  "i \<le> length es \<Longrightarrow>
    (case last_live es i of
       None \<Rightarrow> items_of (take i es) = []
     | Some j \<Rightarrow> j < i \<and> live_entry (es ! j) \<and>
         items_of (take i es) = items_of (take j es) @ [(the (me_key (es ! j)), the (me_value (es ! j)))])"
  by (induction i) (auto simp: take_Suc_conv_app_nth live_entry_def split: option.splits)

lemma reviter_drain:
  assumes v: "ma_values d = NoValues"
  shows "i \<le> length (dk_entries (ma_keys d)) \<Longrightarrow> reviter_at d i di \<Longrightarrow> i < n \<Longrightarrow>
    \<exists>di'. drain (dictreviter_iternext True kind d) n di =
      (map (\<lambda>(key, w). rev_result kind key w) (rev (items_of (take i (dk_entries (ma_keys d))))), Some (Inr ()), di') \<and> \<not> di_dict di'"
proof (induction n arbitrary: i di)
  case (Suc n)
  let ?es = "dk_entries (ma_keys d)"
  have at: "di_dict di" "di_used di = int (ma_used d)" using Suc.prems(2) by (simp_all add: reviter_at_def)
  note split = last_live_split [OF Suc.prems(1)]
  show ?case
  proof (cases i)
    case 0
    then show ?thesis using Suc.prems(2) by (simp add: dictreviter_iternext_def reviter_at_def)
  next
    case (Suc l)
    then have pos: "di_pos di = int l" "l < length ?es" using Suc.prems(1,2) by (auto simp: reviter_at_def)
    show ?thesis
    proof (cases "last_live ?es (Suc l)")
      case None
      then have "dictreviter_iternext True kind d di = (Inr None, di\<lparr>di_dict := False\<rparr>)"
        using at pos v by (simp add: dictreviter_iternext_def Let_def del: last_live.simps)
      moreover have "items_of (take i ?es) = []" using split None Suc by (simp del: last_live.simps)
      ultimately show ?thesis by simp
    next
      case (Some j)
      then have j: "j < i" "live_entry (?es ! j)"
        "items_of (take i ?es) = items_of (take j ?es) @ [(the (me_key (?es ! j)), the (me_value (?es ! j)))]"
        using split Suc by (simp_all del: last_live.simps)
      then obtain w where w: "me_value (?es ! j) = Some w" by (auto simp: live_entry_def)
      define di' where "di' = di\<lparr>di_pos := int j - 1, di_len := di_len di - 1\<rparr>"
      have "dictreviter_iternext True kind d di = (Inr (Some (rev_result kind (the (me_key (?es ! j))) w)), di')"
        using at pos v Some w by (simp add: dictreviter_iternext_def Let_def di'_def del: last_live.simps)
      moreover have "reviter_at d j di'" using at by (simp add: reviter_at_def di'_def)
      ultimately show ?thesis using Suc.IH [of j di'] j Suc.prems(1,3) w by auto
    qed
  qed
qed simp

lemma reviter_drains:
  assumes inv: "dict_inv uni h R d" and di: "dictiter_new True pair_ok d kind = Inr di" "is_rev kind"
    and n: "dk_nentries (ma_keys d) < n"
  shows "\<exists>di'. drain (dictreviter_iternext True kind d) n di =
    (map (\<lambda>(key, w). rev_result kind key w) (rev (dict_items d)), Some (Inr ()), di') \<and> \<not> di_dict di'"
  using inv
proof (cases rule: dict_invE)
  case (combined k)
  let ?es = "dk_entries (ma_keys d)" and ?n = "dk_nentries (ma_keys d)"
  note n_le = items_of_take_nentries [OF combined(2)]
  then have "dict_items d = items_of (take ?n ?es)" by (simp add: dict_items_def)
  moreover have "reviter_at d ?n di" using di combined(1) by (auto simp: reviter_at_def dictiter_new_def split: if_splits)
  ultimately show ?thesis using reviter_drain [OF combined(1) n_le(2) _ n] by simp
next
  case empty
  obtain m where "n = Suc m" using n by (cases n) simp_all
  then show ?thesis using empty di dict_inv_used [OF inv]
    by (auto simp: dictiter_new_def dictreviter_iternext_def dict_items_def empty_keys_struct_def Let_def split: if_splits)
qed

end

section \<open>Iterating over a dictionary that changes\<close>

text \<open>The calls find the dictionaries \<open>ds\<close>, one after the other; the number of items they deliver.\<close>

fun delivered :: "(('k, 'v) dictobj \<Rightarrow> dictiter \<Rightarrow> 'a option res \<times> dictiter) \<Rightarrow> ('k, 'v) dictobj list \<Rightarrow> dictiter \<Rightarrow> nat" where
  "delivered nxt [] di = 0"
| "delivered nxt (d # ds) di =
     (case nxt d di of (r, di) \<Rightarrow> (case r of Inr (Some x) \<Rightarrow> 1 | _ \<Rightarrow> 0) + delivered nxt ds di)"

lemma iternext_entry_len:
  assumes "iternext_entry d di = (r, di')" "0 \<le> di_len di"
  shows "0 \<le> di_len di'" "di_len di' + (case r of Inr (Some x) \<Rightarrow> 1 | _ \<Rightarrow> 0) = di_len di"
  using assms unfolding iternext_entry_def Let_def changed_size_def
  by (auto split: if_splits option.splits values_ptr.splits)

lemma delivered_bounded: "0 \<le> di_len di \<Longrightarrow> int (delivered iternext_entry ds di) \<le> di_len di"
proof (induction ds arbitrary: di)
  case (Cons d ds)
  obtain r di' where step: "iternext_entry d di = (r, di')" by fastforce
  note len = iternext_entry_len [OF step Cons.prems]
  show ?case using Cons.IH [OF len(1)] len(2) step by (auto split: sum.splits option.splits)
qed simp

lemma delivered_map_next: "delivered (\<lambda>d di. map_next f (nxt d di)) ds di = delivered nxt ds di"
proof (induction ds arbitrary: di)
  case (Cons d ds)
  obtain r di' where "nxt d di = (r, di')" by fastforce
  then show ?case using Cons by (cases r) (auto simp: map_next_def split: option.splits)
qed simp

text \<open>Once the size has changed, every call raises, whatever the dictionary looks like then.\<close>

lemma changed_size_sticky:
  assumes "di_dict di" "di_used di \<noteq> int (ma_used d)"
  shows "iternext_entry d di = (Inl (RuntimeError ''dictionary changed size during iteration''), di\<lparr>di_used := - 1\<rparr>)"
    and "iternext_entry d' (di\<lparr>di_used := - 1\<rparr>) =
      (Inl (RuntimeError ''dictionary changed size during iteration''), di\<lparr>di_used := - 1\<rparr>)"
  using assms by (simp_all add: iternext_entry_def changed_size_def)

section \<open>Printing\<close>

fun print_items :: "('k \<Rightarrow> string) \<Rightarrow> ('v \<Rightarrow> string) \<Rightarrow> bool \<Rightarrow> ('k \<times> 'v) list \<Rightarrow> string" where
  "print_items rk rv first [] = ''}''"
| "print_items rk rv first ((key, v) # kvs) =
     (if first then [] else '', '') @ rk key @ '': '' @ rv v @ print_items rk rv False kvs"

definition plain_repr :: "('k \<Rightarrow> string) \<Rightarrow> ('v \<Rightarrow> string) \<Rightarrow> ('k, 'v, 's) repr_env" where
  "plain_repr rk rv = \<lparr>repr_key = \<lambda>key st. (Some (rk key), st), repr_value = \<lambda>v st. (Some (rv v), st), writable = \<lambda>_. True\<rparr>"

lemma repr_item_plain:
  "repr_item (plain_repr rk rv) first key v w st = (Inr (w @ (if first then [] else '', '') @ rk key @ '': '' @ rv v), st)"
  by (simp add: repr_item_def plain_repr_def write_str_def write_repr_def)

lemma repr_loop_walk:
  "length (dict_walk mp n i) < n \<Longrightarrow>
    repr_loop (plain_repr rk rv) i first w (mp, s) = Some (Inr (w @ print_items rk rv first (dict_walk mp n i)), (mp, s))"
proof (induction n arbitrary: i first w)
  case (Suc n)
  show ?case
  proof (cases "CheckedDict_Next mp i")
    case None
    then show ?thesis by (subst repr_loop.simps) (simp add: plain_repr_def write_str_def)
  next
    case (Some nx)
    then obtain i' key v hash where nx: "CheckedDict_Next mp i = Some (i', key, v, hash)" by (cases nx) auto
    with Suc.prems have "length (dict_walk mp n i') < n" by simp
    then show ?thesis using nx Suc.IH [of i' False] by (subst repr_loop.simps) (simp add: repr_item_plain)
  qed
qed simp

context quiet_keys
begin

lemma dict_repr_items:
  fixes d :: "('k, 'v) dictobj"
  assumes inv: "dict_inv uni h R d"
  shows "dict_repr (plain_repr rk rv) 0 (d, s) = Some (Inr (''{'' @ print_items rk rv True (dict_items d)), (d, s))"
proof (cases "ma_used d = 0")
  case True
  then have "dict_items d = []" using dict_inv_used [OF inv] by simp
  then show ?thesis using True by (simp add: dict_repr_def)
next
  case False
  have walk: "dict_walk d (Suc (ma_used d)) 0 = dict_items d" by (rule dict_walk_items [OF inv]) simp
  have "repr_loop (plain_repr rk rv) 0 True ''{'' (d, s) = Some (Inr (''{'' @ print_items rk rv True (dict_items d)), (d, s))"
    using repr_loop_walk [of d "Suc (ma_used d)" 0 rk rv True "''{''" s] dict_inv_used [OF inv] unfolding walk by simp
  then show ?thesis using False by (simp add: dict_repr_def write_str_def plain_repr_def)
qed

end

end
