(* ===== verification/Dict_Properties.thy ===== *)
theory Dict_Properties
  imports List_Properties Generic_Types Checked_Dict_Correct Dict_Iter_Correct
begin

text \<open>
  The properties of the typed calling convention, of the generic types and of the dictionaries: the hash table, the
  checked dictionaries over it and their iterators.
\<close>

section \<open>Typed methods and generic types\<close>

text \<open>
  C28. The mask test of \<open>_PyClassLoader_OverflowCheck\<close> is exact for each of the eight integer
  types: a value is accepted if and only if it lies in the range of the type, and it is then passed unchanged.
\<close>

theorem overflow_check_exact:
  assumes "code < 8"
  shows "overflow_check v code =
    (let w = 8 * 2 ^ (code div 2) in
     if (if odd code then - (2 ^ (w - 1)) \<le> v \<and> v < 2 ^ (w - 1) else 0 \<le> v \<and> v < 2 ^ w) then Some (of_int v) else None)"
  using overflow_check_eq [OF assms, of v] by (simp only: int_in_range_def int_width_def Let_def)

theorem overflow_check_exact_witness: "overflow_check (- 129) TYPED_INT8 = None \<and> overflow_check (- 128) TYPED_INT8 = Some (- 128)"
  using overflow_check_exact [of TYPED_INT8 "- 129"] overflow_check_exact [of TYPED_INT8 "- 128"] by simp

text \<open>
  C29. Round trip of an integer through a typed method's calling convention: an argument in the range of its declared type is
  converted without error, and converting the machine value back with the same type gives the same integer.
\<close>

theorem convert_round_trip:
  assumes "code < 8" "se_argtype elem = sig_of code" "i < length args" "long_object env (args ! i) = Some v"
    and "int_in_range code v"
  shows "\<exists>w. convert_arg env params elem i args = (Machine w, False) \<and> convert_ret w (sig_of code) = BoxedLong v"
  using convert_arg_integer [OF assms(1-4), of params] convert_ret_integer [OF assms(1,5)] assms(5) by auto

theorem convert_round_trip_witness:
  "\<exists>w. convert_arg plain_objects [] \<lparr>se_argtype = sig_of TYPED_INT16, se_default_value = None, se_name = None\<rparr> 0 [LongObj (- 300)] =
     (Machine w, False) \<and> convert_ret w (sig_of TYPED_INT16) = BoxedLong (- 300)"
  by (rule convert_round_trip) (simp_all add: plain_objects_def int_in_range_def int_width_def Let_def)

text \<open>
  The name of a generic instance, with its terminating zero, fits the buffer that \<open>gti_calc_name\<close> allocates for it.
\<close>

theorem gti_name_in_bounds:
  assumes "params \<noteq> []" "gti_calc_name name_of def params = Inr name"
  shows "length name + 1 \<le> gti_name_len name_of (base_name (gtd_name def)) params"
  by (rule gti_calc_name_fits [OF assms])

definition chklist_def :: generic_def where
  "chklist_def = \<lparr>gtd_name = ''__static__.chklist[T]'', gtd_size = 1\<rparr>"

theorem gti_name_in_bounds_witness:
  "\<exists>name. gti_calc_name (\<lambda>t. t) chklist_def [\<lparr>gtp_type = ''int'', gtp_optional = True\<rparr>] = Inr name \<and>
     name = ''chklist[Optional[int]]'' \<and>
     length name + 1 \<le> gti_name_len (\<lambda>t. t) (base_name (gtd_name chklist_def)) [\<lparr>gtp_type = ''int'', gtp_optional = True\<rparr>]"
proof -
  have a: "gti_calc_name (\<lambda>t. t) chklist_def [\<lparr>gtp_type = ''int'', gtp_optional = True\<rparr>] = Inr ''chklist[Optional[int]]''"
    by (simp add: gti_calc_name_def chklist_def_def base_name_def strchr_def gti_param_name_def)
  show ?thesis using gti_name_in_bounds [OF _ a] a by blast
qed

text \<open>
  C30. The cache of generic instances: a subscription that succeeds yields an instance with one parameter per argument,
  each the type or the \<open>Optional\<close> the argument names; the cache stays consistent (instances match
  their keys, no two keys share an instance), and subscribing again with the same arguments gives the identical type without change.
\<close>

theorem generic_inst_memo:
  assumes "cache_inv env st" "get_generic_inst env type args st = (Inr v, st')"
  shows "inst_matches env (type, args) v \<and> cache_inv env st' \<and> get_generic_inst env' type args st' = (Inr v, st')"
  using get_generic_inst_result [OF assms] get_generic_inst_inv [OF assms] get_generic_inst_again [OF assms(2)] by blast

definition all_calls_ok :: "(string, unit) inst_env" where
  "all_calls_ok = \<lparr>type_name = \<lambda>t. t, none_class = ''NoneType'',
     inst_calls_ok = \<lparr>heap_type_ok = True, gtr_ok = True, ready_ok = True, vtable_ok = True\<rparr>,
     getitem = \<lambda>_ _. Inr (), store_ok = True\<rparr>"

theorem generic_inst_memo_witness:
  "\<exists>v st'. get_generic_inst all_calls_ok (GenericDef chklist_def) [TypeArg ''int''] \<lparr>inst_cache = Map.empty, next_id = 0\<rparr> = (Inr v, st') \<and>
     inst_matches all_calls_ok (GenericDef chklist_def, [TypeArg ''int'']) v \<and>
     get_generic_inst all_calls_ok (GenericDef chklist_def) [TypeArg ''int''] st' = (Inr v, st')"
proof -
  have inv: "cache_inv all_calls_ok \<lparr>inst_cache = Map.empty, next_id = 0\<rparr>" by (simp add: cache_inv_def)
  obtain v st' where a: "get_generic_inst all_calls_ok (GenericDef chklist_def) [TypeArg ''int''] \<lparr>inst_cache = Map.empty, next_id = 0\<rparr> = (Inr v, st')"
    by (simp add: get_generic_inst_def make_inst_def gtd_validate_type_def gtd_new_inst_def gti_calc_name_def base_name_def
        strchr_def all_calls_ok_def chklist_def_def)
  show ?thesis using generic_inst_memo [OF inv a] a by blast
qed

text \<open>
  \<open>_PyClassLoader_ArgErrorStr\<close> compares a type code with shifted constants, so that none of its cases is ever taken: for every
  declared argument type, \<open>str\<close> and \<open>int\<close> included, the message says that \<open>?\<close> was expected.
\<close>

theorem arg_error_never_names_type:
  assumes "se_argtype elem = sig_of code" "code < 16"
  shows "arg_error_str env params name arg elem = StaticTypeError (name @ ''() argument '' @ decimal arg @ '' expected ?'')"
  by (rule arg_error_str_unknown [OF assms])

theorem arg_error_never_names_type_witness:
  "arg_error_str plain_objects [] ''f'' 1 \<lparr>se_argtype = sig_of TYPED_STRING, se_default_value = None, se_name = None\<rparr> =
     StaticTypeError (''f() argument '' @ decimal 1 @ '' expected ?'')"
  using arg_error_never_names_type [of "\<lparr>se_argtype = sig_of TYPED_STRING, se_default_value = None, se_name = None\<rparr>" TYPED_STRING
      plain_objects "[]" "''f''" 1]
  by simp

section \<open>Hash tables\<close>



section \<open>Dictionaries\<close>

text \<open>Well-formed dictionaries, and the empty one.\<close>

abbreviation (input) wf_dict :: "('k, 'v, 's) key_env \<Rightarrow> ('k \<Rightarrow> size_t) \<Rightarrow> ('k \<Rightarrow> 'k \<Rightarrow> bool) \<Rightarrow> ('k, 'v) dictobj \<Rightarrow> bool" where
  "wf_dict env h R mp \<equiv> dict_inv (\<lambda>key. unicode_data env key \<noteq> None) h R mp"

abbreviation (input) empty_dict :: "'o chkdict" where
  "empty_dict \<equiv> new_dict empty_keys_struct EmptyValues"

lemma wf_empty_dict: "dict_inv uni h R empty_dict" "dict_items empty_dict = []"
  by (simp_all add: new_dict_def dict_inv_def dict_items_def empty_keys_struct_def)

text \<open>A dictionary with one item, as \<open>insert_to_emptydict\<close> builds it.\<close>

abbreviation (input) str_hash :: "nat list \<Rightarrow> size_t" where
  "str_hash \<equiv> \<lambda>_. 0"

definition one_dict :: "builtin_key chkdict" where
  "one_dict = snd (insert_to_emptydict (\<lambda>_. True) (builtin_env str_hash :: (builtin_key, builtin_key, unit) key_env) (LongKey 3) 3 (LongKey 4) empty_dict)"

lemma one_dict:
  "wf_dict (builtin_env str_hash :: (builtin_key, builtin_key, unit) key_env) (builtin_hash str_hash) (=) one_dict"
  "dict_items one_dict = [(LongKey 3, LongKey 4)]"
proof -
  have h: "builtin_hash str_hash (LongKey 3) = 3" by (simp add: builtin_hash_def)
  have ok: "fst (insert_to_emptydict (\<lambda>_. True) (builtin_env str_hash :: (builtin_key, builtin_key, unit) key_env) (LongKey 3) 3 (LongKey 4) empty_dict) = Inr ()"
    by (simp add: insert_to_emptydict_def new_keys_object_def Let_def)
  have e: "is_empty_keys (ma_keys (empty_dict :: builtin_key chkdict))" by (simp add: is_empty_keys_def dk_size_def new_dict_def empty_keys_struct_def)
  obtain r mp' where i: "insert_to_emptydict (\<lambda>_. True) (builtin_env str_hash :: (builtin_key, builtin_key, unit) key_env) (LongKey 3) 3 (LongKey 4) empty_dict = (r, mp')"
    "wf_dict (builtin_env str_hash :: (builtin_key, builtin_key, unit) key_env) (builtin_hash str_hash) (=) mp'"
    "r = Inr () \<and> dict_items mp' = [(LongKey 3, LongKey 4)] \<or> r = Inl MemoryError"
    using builtin.insert_to_emptydict_spec [where mem = "\<lambda>_. True" and key = "LongKey 3" and val = "LongKey 4" and sh = str_hash, OF wf_empty_dict(1) e]
    unfolding h by (auto simp: wf_empty_dict(2))
  then show "wf_dict (builtin_env str_hash :: (builtin_key, builtin_key, unit) key_env) (builtin_hash str_hash) (=) one_dict"
    "dict_items one_dict = [(LongKey 3, LongKey 4)]" using ok by (simp_all add: one_dict_def)
qed

text \<open>
  C32. \<open>d[key] = v\<close> implements the update of a list of items in insertion order: it returns, keeps the hash table
  well formed, and either replaces the value of the item with an equal key or appends a new item, or reports exhausted
  memory and leaves the items as they were. This holds for every lookup function and whether or not the table is resized.
\<close>

theorem dict_setitem_refines:
  assumes "quiet_keys env h R" "wf_dict env h R mp"
  shows "\<exists>r mp'. CheckedDict_SetItem mem env key val (mp, s) = Some (r, (mp', s)) \<and> wf_dict env h R mp' \<and>
    (r = Inr () \<and> dict_items mp' = al_put R key val (dict_items mp) \<or> r = Inl MemoryError \<and> dict_items mp' = dict_items mp)"
  by (rule quiet_keys.SetItem_spec [OF assms])

theorem dict_setitem_refines_witness:
  "\<exists>r mp'. CheckedDict_SetItem (\<lambda>_. True) (builtin_env str_hash) (LongKey 3) (LongKey 5) (one_dict, ()) = Some (r, (mp', ())) \<and>
     (r = Inr () \<and> dict_items mp' = [(LongKey 3, LongKey 5)] \<or> r = Inl MemoryError \<and> dict_items mp' = dict_items one_dict)"
  using dict_setitem_refines [OF builtin.quiet_keys_axioms [of str_hash] one_dict(1),
      where mem = "\<lambda>_. True" and key = "LongKey 3" and val = "LongKey 5" and s = "()"] one_dict(2)
  by auto

text \<open>
  C33. What was stored is found: after \<open>d[key] = v\<close> has succeeded, \<open>d[key']\<close> returns \<open>v\<close> for every key equal to \<open>key\<close>, and for the
  other keys what it returned before, \<open>KeyError\<close> included. Both searches end.
\<close>

theorem dict_set_get:
  assumes q: "quiet_keys env h R" and wf: "wf_dict env h R mp"
    and set: "CheckedDict_SetItem mem env key val (mp, s) = Some (Inr (), (mp', s))"
  shows "\<exists>r r'. dict_subscript env key' (mp, s) = Some (r, (mp, s)) \<and> dict_subscript env key' (mp', s) = Some (r', (mp', s)) \<and>
    r' = (if R key key' then Inr val else r)"
proof -
  have eq: "equivp R" using q by (simp add: quiet_keys_def)
  obtain mp'' where "CheckedDict_SetItem mem env key val (mp, s) = Some (Inr (), (mp'', s))" "wf_dict env h R mp''"
    "dict_items mp'' = al_put R key val (dict_items mp)"
    using quiet_keys.SetItem_spec [OF q wf, of mem key val s] set by auto
  then show ?thesis using set quiet_keys.dict_subscript_spec [OF q, of mp' key' s] quiet_keys.dict_subscript_spec [OF q wf, of key' s]
    by (auto simp: al_get_put [OF eq] al_get_put_other [OF eq])
qed

theorem dict_set_get_witness:
  "\<exists>mp'. CheckedDict_SetItem (\<lambda>_. True) (builtin_env str_hash) (LongKey 3) True (\<lparr>ma_used = 0, ma_keys = empty_keys_struct, ma_values = EmptyValues, keys_id = 0\<rparr>, ()) = Some (Inr (), (mp', ())) \<and>
     dict_subscript (builtin_env str_hash) (LongKey 3) (mp', ()) = Some (Inr True, (mp', ()))"
proof -
  let ?d = "\<lparr>ma_used = 0, ma_keys = empty_keys_struct, ma_values = EmptyValues, keys_id = 0\<rparr> :: (builtin_key, bool) dictobj"
  have wf: "wf_dict (builtin_env str_hash :: (builtin_key, bool, unit) key_env) (builtin_hash str_hash) (=) ?d"
    by (simp add: dict_inv_def dict_items_def empty_keys_struct_def)
  obtain mp' where s: "CheckedDict_SetItem (\<lambda>_. True) (builtin_env str_hash) (LongKey 3) True (?d, ()) = Some (Inr (), (mp', ()))"
    by (simp add: CheckedDict_SetItem_def builtin.hash_of insert_known_hash_def is_empty_keys_def dk_size_def empty_keys_struct_def
        insert_to_emptydict_def new_keys_object_def Let_def)
  show ?thesis using dict_set_get [OF builtin.quiet_keys_axioms [of str_hash] wf s, of "LongKey 3"] s by auto
qed

text \<open>
  C34. \<open>d.pop(key)\<close> returns and removes the item with an equal key; without one it returns the default, or raises \<open>KeyError\<close>,
  and changes no item.
\<close>

theorem dict_pop_removes:
  assumes "quiet_keys env h R" "wf_dict env h R mp"
  shows "\<exists>mp'. CheckedDict_Pop env key deflt (mp, s) =
      Some (case al_get R key (dict_items mp) of None \<Rightarrow> missing_key deflt | Some v \<Rightarrow> Inr v, (mp', s)) \<and>
    wf_dict env h R mp' \<and> dict_items mp' = al_del R key (dict_items mp)"
  by (rule quiet_keys.Pop_spec [OF assms])

theorem dict_pop_removes_witness:
  "\<exists>mp'. CheckedDict_Pop (builtin_env str_hash) (LongKey 3) None (one_dict, ()) = Some (Inr (LongKey 4), (mp', ())) \<and> dict_items mp' = []"
  using dict_pop_removes [OF builtin.quiet_keys_axioms [of str_hash] one_dict(1), where key = "LongKey 3" and deflt = None and s = "()"]
    one_dict(2)
  by (auto simp: al_get_def)

text \<open>
  \<open>d.popitem()\<close> removes and returns the item that was inserted last; it raises \<open>KeyError\<close> exactly on an empty dictionary.
\<close>

theorem dict_popitem_lifo:
  assumes "quiet_keys env h R" "wf_dict env h R mp"
  shows "\<exists>mp'. dict_popitem_impl mem True mp =
      Some (if dict_items mp = [] then Inl KeyError else Inr (last (dict_items mp)), mp') \<and>
    wf_dict env h R mp' \<and> dict_items mp' = butlast (dict_items mp)"
  by (rule quiet_keys.popitem_spec [OF assms])

theorem dict_popitem_lifo_witness:
  "\<exists>mp'. dict_popitem_impl (\<lambda>_. True) True one_dict = Some (Inr (LongKey 3, LongKey 4), mp') \<and> dict_items mp' = []"
  using dict_popitem_lifo [OF builtin.quiet_keys_axioms [of str_hash] one_dict(1), where mem = "\<lambda>_. True"] one_dict(2) by auto






text \<open>
  C37. \<open>d.copy()\<close> returns a dictionary with the same items in the same order, by cloning the table or by insertion, or reports
  exhausted memory.
\<close>

theorem chkdict_copy_items:
  assumes "chkdict kenv h R" "wf_dict kenv h R d" "\<And>mp. orig (mp, s) = d"
  shows "(\<exists>copy. chkdict_copy mem kenv orig (Some empty_dict) s = Some (Inr copy, s) \<and> wf_dict kenv h R copy \<and> dict_items copy = dict_items d) \<or>
    chkdict_copy mem kenv orig (Some empty_dict) s = Some (Inl MemoryError, s)"
  by (rule chkdict.chkdict_copy_spec [where orig = orig and s = s, OF assms(1,3,2) wf_empty_dict])

theorem chkdict_copy_items_witness:
  "(\<exists>copy. chkdict_copy (\<lambda>_. True) (builtin_env str_hash) (\<lambda>_. one_dict) (Some empty_dict) () = Some (Inr copy, ()) \<and>
      dict_items copy = [(LongKey 3, LongKey 4)]) \<or>
   chkdict_copy (\<lambda>_. True) (builtin_env str_hash) (\<lambda>_. one_dict) (Some empty_dict) () = Some (Inl MemoryError, ())"
  using chkdict_copy_items [OF builtin_dict.chkdict_axioms one_dict(1), where mem = "\<lambda>_. True" and orig = "\<lambda>_. one_dict" and s = "()"] one_dict(2)
  by auto

text \<open>
  \<open>a == b\<close> and \<open>a != b\<close> on checked dictionaries return and decide equality: as many items, and every item of \<open>a\<close> has a
  counterpart in \<open>b\<close> with an equal key and an equal value, whatever the order.
\<close>

theorem chkdict_equality_decides:
  assumes "chkdict kenv h R" "wf_dict kenv h R d" "wf_dict kenv h R b" "a (b, s) = d"
    and "\<And>x y. veq x y (b, s) = (Some (E x y), (b, s))" "op = Py_EQ \<or> op = Py_NE"
  shows "chkdict_richcompare kenv veq a ChkDictArg op (b, s) =
    Some (Inr (Some ((op = Py_EQ) = (length (dict_items d) = length (dict_items b) \<and>
      (\<forall>(key, v)\<in>set (dict_items d). \<exists>w. al_get R key (dict_items b) = Some w \<and> E v w)))), (b, s))"
  using chkdict.dict_equal_spec [where veq = veq and E = E and a = a and b = b and s = s, OF assms(1,5,4,2,3)] assms(6)
  by (auto simp: chkdict_richcompare_def chkdict.agrees_def [OF assms(1)])

theorem chkdict_equality_decides_witness:
  "chkdict_richcompare (builtin_env str_hash) (\<lambda>x y st. (Some (x = y), st)) (\<lambda>_. one_dict) ChkDictArg Py_NE (empty_dict, ()) =
     Some (Inr (Some True), (empty_dict, ()))"
  using chkdict_equality_decides [OF builtin_dict.chkdict_axioms one_dict(1) wf_empty_dict(1), where s = "()" and a = "\<lambda>_. one_dict"
      and veq = "\<lambda>x y st. (Some (x = y), st)" and E = "(=)" and op = Py_NE] one_dict(2)
  by (simp add: wf_empty_dict(2))

text \<open>
  Iterating over an unchanged dictionary delivers its keys in insertion order, or its items in the reverse order, each
  exactly once, and then ends.
\<close>

theorem dict_iterators_deliver:
  assumes "quiet_keys env h R" "wf_dict env h R d" "dict_iter True d = Inr di" "dictiter_new True pair_ok d RevIterItem = Inr rdi"
    and "dk_nentries (ma_keys d) < n" "ma_used d < n"
  shows "(\<exists>di'. drain (dictiter_iternextkey d) n di = (map fst (dict_items d), Some (Inr ()), di')) \<and>
    (\<exists>di'. drain (dictreviter_iternext True RevIterItem d) n rdi = (map (\<lambda>(key, v). RevItem key v) (rev (dict_items d)), Some (Inr ()), di'))"
proof -
  have di: "dictiter_new True True d IterKey = Inr di" "\<not> is_rev IterKey" using assms(3) by (simp_all add: dict_iter_def is_rev_def)
  have "dictiter_iternextkey d = (\<lambda>di. map_next fst (iternext_entry d di))" by (rule ext) (simp add: dictiter_iternextkey_def)
  moreover obtain di1 where "drain (iternext_entry d) n di = (dict_items d, Some (Inr ()), di1)"
    using quiet_keys.iter_drains [OF assms(1,2) di assms(6)] by blast
  moreover obtain di2 where "drain (dictreviter_iternext True RevIterItem d) n rdi =
      (map (\<lambda>(key, v). rev_result RevIterItem key v) (rev (dict_items d)), Some (Inr ()), di2)"
    using quiet_keys.reviter_drains [OF assms(1,2,4) _ assms(5)] by (auto simp: is_rev_def)
  ultimately show ?thesis by (simp add: drain_map_next rev_result_def)
qed

theorem dict_iterators_deliver_witness:
  "\<exists>di n di'. dict_iter True one_dict = Inr di \<and> drain (dictiter_iternextkey one_dict) n di = ([LongKey 3], Some (Inr ()), di')"
proof -
  obtain di rdi where i: "dict_iter True one_dict = Inr di" "dictiter_new True True one_dict RevIterItem = Inr rdi"
    by (simp add: dict_iter_def dictiter_new_def)
  define n where "n = dk_nentries (ma_keys one_dict) + ma_used one_dict + 1"
  obtain di' where "drain (dictiter_iternextkey one_dict) n di = (map fst (dict_items one_dict), Some (Inr ()), di')"
    using dict_iterators_deliver [OF builtin.quiet_keys_axioms [of str_hash] one_dict(1) i, where n = n] by (auto simp: n_def)
  then show ?thesis using i(1) by (auto simp: one_dict(2))
qed








text \<open>
  A dictionary presized for \<open>n\<close> items, up to 87381, gets a table whose size is a power of two and that holds \<open>n\<close> items
  without being resized; the loop that computes the size ends.
\<close>

theorem presized_has_room:
  assumes "5 < n" "n \<le> 87381"
  shows "\<exists>k. presized n = 2 ^ k \<and> n \<le> int (USABLE_FRACTION (presized n))"
  using presized_pow2 [OF assms(1)] assms(2) by auto

theorem presized_has_room_witness: "\<exists>k. presized 11 = 2 ^ k \<and> 11 \<le> int (USABLE_FRACTION (presized 11))"
  by (rule presized_has_room) simp_all

end
