(* ===== verification/GC_Head.thy ===== *)
theory GC_Head
  imports Cinderx_Prelude
begin

text \<open>
  The collector's view of memory (\<open>parallel_gc.c\<close>): the headers \<open>PyGC_Head\<close> that precede every
  container object, the flag bits and the reference count stored in their two words, and the
  circular doubly linked lists that thread them.

  The heap is one function per field, from the address of a header to the 64-bit word stored
  there. The layout is that of CPython before 3.14, for which the sources are written below the
  \<open>#if PY_VERSION_HEX < 0x030E0000\<close> branches: the lowest two bits of \<open>_gc_prev\<close> are flags (lines 166 to
  170), the lower of them \<open>FINALIZED\<close> (the value that
  \<open>Ci_gc_mark_reachable_and_clear_collecting_atomic\<close> stores shows it to be 1), and \<open>_gc_next\<close> is a plain
  pointer whose bit 1 \<open>move_unreachable\<close> borrows. Assertions are those of a release build, empty.
\<close>

section \<open>Definitions\<close>

type_synonym addr = "64 word"

record gcheap =
  gc_prev :: "addr \<Rightarrow> 64 word"
  gc_next :: "addr \<Rightarrow> 64 word"

abbreviation (input) PREV_SHIFT :: nat where
  "PREV_SHIFT \<equiv> 2"

definition PREV_MASK_FINALIZED :: "64 word" where
  "PREV_MASK_FINALIZED = 1"

definition PREV_MASK_COLLECTING :: "64 word" where
  "PREV_MASK_COLLECTING = 2"

definition PREV_MASK :: "64 word" where
  "PREV_MASK = NOT 3"

definition NEXT_MASK_UNREACHABLE :: "64 word" where
  "NEXT_MASK_UNREACHABLE = 2"

lemmas gc_masks = PREV_MASK_FINALIZED_def PREV_MASK_COLLECTING_def PREV_MASK_def
  NEXT_MASK_UNREACHABLE_def

definition AS_GC :: "addr \<Rightarrow> addr" where
  "AS_GC op = op - 16"

definition FROM_GC :: "addr \<Rightarrow> addr" where
  "FROM_GC g = g + 16"

definition GC_NEXT :: "gcheap \<Rightarrow> addr \<Rightarrow> addr" where
  "GC_NEXT h g = gc_next h g"

definition GC_PREV :: "gcheap \<Rightarrow> addr \<Rightarrow> addr" where
  "GC_PREV h g = gc_prev h g AND PREV_MASK"

definition put_prev :: "gcheap \<Rightarrow> addr \<Rightarrow> 64 word \<Rightarrow> gcheap" where
  "put_prev h g w = h\<lparr>gc_prev := (gc_prev h)(g := w)\<rparr>"

definition put_next :: "gcheap \<Rightarrow> addr \<Rightarrow> 64 word \<Rightarrow> gcheap" where
  "put_next h g w = h\<lparr>gc_next := (gc_next h)(g := w)\<rparr>"

definition SET_NEXT :: "gcheap \<Rightarrow> addr \<Rightarrow> addr \<Rightarrow> gcheap" where
  "SET_NEXT h g n = put_next h g n"

definition SET_PREV :: "gcheap \<Rightarrow> addr \<Rightarrow> addr \<Rightarrow> gcheap" where
  "SET_PREV h g p = put_prev h g ((gc_prev h g AND NOT PREV_MASK) OR p)"

subsection \<open>Flags and reference counts\<close>

definition gc_is_collecting :: "gcheap \<Rightarrow> addr \<Rightarrow> bool" where
  "gc_is_collecting h g = (gc_prev h g AND PREV_MASK_COLLECTING \<noteq> 0)"

definition gc_clear_collecting :: "gcheap \<Rightarrow> addr \<Rightarrow> gcheap" where
  "gc_clear_collecting h g = put_prev h g (gc_prev h g AND NOT PREV_MASK_COLLECTING)"

definition gc_get_refs :: "gcheap \<Rightarrow> addr \<Rightarrow> 64 word" where
  "gc_get_refs h g = drop_bit PREV_SHIFT (gc_prev h g)"

definition gc_set_refs :: "gcheap \<Rightarrow> addr \<Rightarrow> 64 word \<Rightarrow> gcheap" where
  "gc_set_refs h g refs =
     put_prev h g ((gc_prev h g AND NOT PREV_MASK) OR push_bit PREV_SHIFT refs)"

definition gc_reset_refs :: "gcheap \<Rightarrow> addr \<Rightarrow> 64 word \<Rightarrow> gcheap" where
  "gc_reset_refs h g refs =
     put_prev h g ((gc_prev h g AND PREV_MASK_FINALIZED) OR PREV_MASK_COLLECTING
       OR push_bit PREV_SHIFT refs)"

definition gc_decref :: "gcheap \<Rightarrow> addr \<Rightarrow> gcheap" where
  "gc_decref h g = put_prev h g (gc_prev h g - push_bit PREV_SHIFT 1)"

subsection \<open>List functions\<close>

definition gc_list_init :: "gcheap \<Rightarrow> addr \<Rightarrow> gcheap" where
  "gc_list_init h l = put_next (put_prev h l l) l l"

definition gc_list_is_empty :: "gcheap \<Rightarrow> addr \<Rightarrow> bool" where
  "gc_list_is_empty h l = (gc_next h l = l)"

definition gc_list_append :: "gcheap \<Rightarrow> addr \<Rightarrow> addr \<Rightarrow> gcheap" where
  "gc_list_append h node l =
    (let last = gc_prev h l;
         h = SET_PREV h node last;
         h = SET_NEXT h last node;
         h = SET_NEXT h node l
     in put_prev h l node)"

definition gc_list_move :: "gcheap \<Rightarrow> addr \<Rightarrow> addr \<Rightarrow> gcheap" where
  "gc_list_move h node l =
    (let from_prev = GC_PREV h node;
         from_next = GC_NEXT h node;
         h = SET_NEXT h from_prev from_next;
         h = SET_PREV h from_next from_prev;
         to_prev = gc_prev h l;
         h = SET_PREV h node to_prev;
         h = SET_NEXT h to_prev node;
         h = put_prev h l node
     in SET_NEXT h node l)"

definition gc_list_merge :: "gcheap \<Rightarrow> addr \<Rightarrow> addr \<Rightarrow> gcheap" where
  "gc_list_merge h from to =
    (let h = (if gc_list_is_empty h from then h
              else let to_tail = GC_PREV h to;
                       from_head = GC_NEXT h from;
                       from_tail = GC_PREV h from;
                       h = SET_NEXT h to_tail from_head;
                       h = SET_PREV h from_head to_tail;
                       h = SET_NEXT h from_tail to
                   in SET_PREV h to from_tail)
     in gc_list_init h from)"

text \<open>
  The loops of the collector walk a list until they are back at its head:
  \<open>for (gc = GC_NEXT(list); gc != list; gc = next)\<close>. The body answers the next cursor with the new
  state; \<open>None\<close> is a walk that never comes back to the head.
\<close>

partial_function (option) gc_while ::
  "addr \<Rightarrow> (addr \<Rightarrow> 'st \<Rightarrow> addr \<times> 'st) \<Rightarrow> addr \<Rightarrow> 'st \<Rightarrow> 'st option" where
  "gc_while l body gc st =
     (if gc = l then Some st
      else gc_while l body (fst (body gc st)) (snd (body gc st)))"

declare gc_while.simps [code]

definition gc_list_size :: "gcheap \<Rightarrow> addr \<Rightarrow> nat option" where
  "gc_list_size h l = gc_while l (\<lambda>gc n. (GC_NEXT h gc, n + 1)) (GC_NEXT h l) 0"

definition gc_list_clear_collecting :: "gcheap \<Rightarrow> addr \<Rightarrow> gcheap option" where
  "gc_list_clear_collecting h l =
     gc_while l (\<lambda>gc h. let h = gc_clear_collecting h gc in (GC_NEXT h gc, h)) (GC_NEXT h l) h"

section \<open>The words\<close>

definition aligned :: "addr \<Rightarrow> bool" where
  "aligned p = (p AND 3 = 0)"

lemma gcheap_fields [simp]:
  "gc_prev (put_prev h g w) = (gc_prev h)(g := w)" "gc_next (put_prev h g w) = gc_next h"
  "gc_next (put_next h g w) = (gc_next h)(g := w)" "gc_prev (put_next h g w) = gc_prev h"
  by (simp_all add: put_prev_def put_next_def)

lemma AS_GC_FROM_GC [simp]: "AS_GC (FROM_GC g) = g" "FROM_GC (AS_GC op) = op"
  by (simp_all add: AS_GC_def FROM_GC_def)


lemma bit_masks:
  "bit PREV_MASK_FINALIZED n \<longleftrightarrow> n = 0"
  "bit PREV_MASK_COLLECTING n \<longleftrightarrow> n = 1"
  "bit NEXT_MASK_UNREACHABLE n \<longleftrightarrow> n = 1"
  "bit PREV_MASK n \<longleftrightarrow> 2 \<le> n \<and> n < 64"
  "bit (3 :: 64 word) n \<longleftrightarrow> n < 2"
proof -
  have two: "(2 :: 64 word) = push_bit 1 1" by (simp add: push_bit_eq_mult)
  have three: "(3 :: 64 word) = Bit_Operations.mask 2" by (simp add: mask_eq_exp_minus_1)
  show "bit PREV_MASK_FINALIZED n \<longleftrightarrow> n = 0" by (simp add: gc_masks bit_1_iff)
  show "bit PREV_MASK_COLLECTING n \<longleftrightarrow> n = 1" "bit NEXT_MASK_UNREACHABLE n \<longleftrightarrow> n = 1"
    unfolding gc_masks two bit_push_bit_iff bit_1_iff by auto
  show "bit PREV_MASK n \<longleftrightarrow> 2 \<le> n \<and> n < 64"
    unfolding gc_masks three bit_not_iff bit_mask_iff by auto
  show "bit (3 :: 64 word) n \<longleftrightarrow> n < 2"
    unfolding three bit_mask_iff by auto
qed

lemma aligned_bit: "aligned p \<longleftrightarrow> \<not> bit p 0 \<and> \<not> bit p 1"
proof
  assume a: "aligned p"
  have "\<not> bit (p AND 3) 0" "\<not> bit (p AND 3) 1"
    using a by (simp_all add: aligned_def)
  then show "\<not> bit p 0 \<and> \<not> bit p 1" unfolding bit_and_iff bit_masks by simp
next
  assume a: "\<not> bit p 0 \<and> \<not> bit p 1"
  show "aligned p"
    unfolding aligned_def
  proof (intro bit_eqI)
    fix n show "bit (p AND 3) n \<longleftrightarrow> bit 0 n"
      unfolding bit_and_iff bit_masks using a by (cases "n = 0"; cases "n = 1") auto
  qed
qed

lemmas gc_bits = bit_and_iff bit_or_iff bit_not_iff bit_push_bit_iff bit_drop_bit_eq bit_masks

lemma word64_eq_iff: "(v :: 64 word) = w \<longleftrightarrow> (\<forall>n. bit v n = bit w n)"
  using bit_eq_iff [of v w] bit_imp_possible_bit by blast

lemma and_mask_iff:
  "(w :: 64 word) AND PREV_MASK_COLLECTING \<noteq> 0 \<longleftrightarrow> bit w 1"
  "(w :: 64 word) AND NEXT_MASK_UNREACHABLE \<noteq> 0 \<longleftrightarrow> bit w 1"
  "(w :: 64 word) AND PREV_MASK_FINALIZED \<noteq> 0 \<longleftrightarrow> bit w 0"
  by (auto simp: word64_eq_iff gc_bits)

lemma not_bit_ge: "64 \<le> n \<Longrightarrow> \<not> bit (w :: 64 word) n"
  using bit_imp_le_length [of w n] by auto

lemma word_prev_eqI:
  fixes v w :: "64 word"
  assumes "bit v 0 \<longleftrightarrow> bit w 0" "bit v 1 \<longleftrightarrow> bit w 1" "v AND PREV_MASK = w AND PREV_MASK"
  shows "v = w"
proof (rule bit_eqI)
  fix n assume "possible_bit TYPE(64 word) n"
  then have n: "n < 64" by simp
  consider "n = 0" | "n = 1" | "2 \<le> n" by linarith
  then show "bit v n \<longleftrightarrow> bit w n"
  proof cases
    case 3
    have "bit (v AND PREV_MASK) n \<longleftrightarrow> bit (w AND PREV_MASK) n" using assms by simp
    then show ?thesis using 3 n by (simp add: gc_bits)
  qed (use assms in auto)
qed

lemma SET_PREV_word:
  assumes "aligned p"
  shows "((w AND NOT PREV_MASK) OR p) AND PREV_MASK = p"
    and "bit ((w AND NOT PREV_MASK) OR p) 0 = bit w 0"
    and "bit ((w AND NOT PREV_MASK) OR p) (Suc 0) = bit w (Suc 0)"
proof -
  have n: "2 \<le> n" if "bit p n" for n
    using assms that unfolding aligned_bit by (cases n) (auto simp: Suc_le_eq intro: gr0I)
  show "((w AND NOT PREV_MASK) OR p) AND PREV_MASK = p"
    by (rule bit_eqI) (auto simp: gc_bits dest: n)
  show "bit ((w AND NOT PREV_MASK) OR p) 0 = bit w 0"
     "bit ((w AND NOT PREV_MASK) OR p) (Suc 0) = bit w (Suc 0)"
    using n [of 0] n [of 1] by (auto simp: gc_bits)
qed

lemma aligned_mask:
  assumes "aligned p" shows "p AND PREV_MASK = p" "bit p 0 = False" "bit p (Suc 0) = False"
proof -
  have n: "2 \<le> n" if "bit p n" for n
    using assms that unfolding aligned_bit by (cases n) (auto simp: Suc_le_eq intro: gr0I)
  show "p AND PREV_MASK = p" by (rule bit_eqI) (auto simp: gc_bits dest: n)
  show "bit p 0 = False" "bit p (Suc 0) = False" using n [of 0] n [of 1] by auto
qed

lemma clear_collecting_word:
  "(w AND NOT PREV_MASK_COLLECTING) AND PREV_MASK = w AND PREV_MASK"
  "bit (w AND NOT PREV_MASK_COLLECTING) 0 = bit w 0"
  "bit (w AND NOT PREV_MASK_COLLECTING) (Suc 0) = False"
  by (auto simp: word64_eq_iff gc_bits)

lemma set_refs_word:
  fixes r w :: "64 word"
  assumes "unat r < 2 ^ 62"
  shows "drop_bit 2 ((w AND NOT PREV_MASK) OR push_bit 2 r) = r"
    and "bit ((w AND NOT PREV_MASK) OR push_bit 2 r) 0 = bit w 0"
    and "bit ((w AND NOT PREV_MASK) OR push_bit 2 r) (Suc 0) = bit w (Suc 0)"
    and "drop_bit 2 ((w AND PREV_MASK_FINALIZED) OR PREV_MASK_COLLECTING OR push_bit 2 r) = r"
    and "bit ((w AND PREV_MASK_FINALIZED) OR PREV_MASK_COLLECTING OR push_bit 2 r) 0 = bit w 0"
    and "bit ((w AND PREV_MASK_FINALIZED) OR PREV_MASK_COLLECTING OR push_bit 2 r) (Suc 0) = True"
proof -
  have n: "n < 62" if "bit r n" for n
  proof (rule ccontr)
    assume "\<not> n < 62"
    then have "2 ^ 62 \<le> (2 :: nat) ^ n" by (intro power_increasing) auto
    then have "unat r div 2 ^ n = 0" using assms by simp
    moreover have "bit (unat r) n" using that by (simp add: bit_unsigned_iff)
    ultimately show False by (simp add: bit_iff_odd)
  qed
  show "drop_bit 2 ((w AND NOT PREV_MASK) OR push_bit 2 r) = r"
    by (rule bit_eqI) (auto simp: gc_bits dest: n)
  show "drop_bit 2 ((w AND PREV_MASK_FINALIZED) OR PREV_MASK_COLLECTING OR push_bit 2 r) = r"
    by (rule bit_eqI) (auto simp: gc_bits dest: n)
qed (auto simp: gc_bits)

lemma bit_unat: "bit (w :: 64 word) n \<longleftrightarrow> odd (unat w div 2 ^ n)"
proof -
  have "bit w n \<longleftrightarrow> bit (unat w) n" by (simp add: bit_unsigned_iff)
  then show ?thesis by (simp add: bit_iff_odd)
qed

lemma unat_drop_bit_2: "unat (drop_bit 2 (w :: 64 word)) = unat w div 4"
  by (simp add: unat_drop_bit_eq drop_bit_eq_div unat_div)

lemma decref_word:
  fixes w :: "64 word"
  assumes "drop_bit 2 w \<noteq> 0"
  shows "drop_bit 2 (w - push_bit 2 1) = drop_bit 2 w - 1"
    and "bit (w - push_bit 2 1) 0 = bit w 0" and "bit (w - push_bit 2 1) (Suc 0) = bit w (Suc 0)"
proof -
  have four: "(push_bit 2 1 :: 64 word) = 4" by (simp add: push_bit_eq_mult)
  have ne: "unat (drop_bit 2 w) \<noteq> 0" using assms by (simp add: unat_eq_0)
  then have w: "4 \<le> unat w" unfolding unat_drop_bit_2 by (simp add: div_eq_0_iff)
  then have le: "(4 :: 64 word) \<le> w" by (simp add: word_le_nat_alt)
  have u: "unat (w - 4) = unat w - 4" using unat_sub [OF le] by simp
  have le1: "(1 :: 64 word) \<le> drop_bit 2 w" using ne by (simp add: word_le_nat_alt)
  have "unat (drop_bit 2 w - 1) = unat w div 4 - 1"
    using unat_sub [OF le1] by (simp add: unat_drop_bit_2)
  moreover have "(unat w - 4) div 4 = unat w div 4 - 1" by simp
  ultimately show "drop_bit 2 (w - push_bit 2 1) = drop_bit 2 w - 1"
    unfolding four word_unat_eq_iff by (simp add: unat_drop_bit_2 u)
  show "bit (w - push_bit 2 1) 0 = bit w 0" unfolding four bit_unat u using w by simp
  have "(unat w - 4) div 2 = unat w div 2 - 2" using w by linarith
  moreover have "2 \<le> unat w div 2" using w by linarith
  ultimately show "bit (w - push_bit 2 1) (Suc 0) = bit w (Suc 0)" unfolding four bit_unat u by simp
qed

section \<open>What the operations do to the flags\<close>

definition gc_finalized :: "gcheap \<Rightarrow> addr \<Rightarrow> bool" where
  "gc_finalized h g = (gc_prev h g AND PREV_MASK_FINALIZED \<noteq> 0)"

lemma gc_is_collecting_bit: "gc_is_collecting h g = bit (gc_prev h g) (Suc 0)"
  by (simp add: gc_is_collecting_def and_mask_iff)

lemma gc_finalized_bit: "gc_finalized h g = bit (gc_prev h g) 0"
  by (simp add: gc_finalized_def and_mask_iff)

lemmas gc_observers = gc_is_collecting_bit gc_finalized_bit gc_get_refs_def GC_PREV_def

lemma gc_ops_next [simp]:
  "gc_next (SET_PREV h g p) = gc_next h"
  "gc_next (gc_clear_collecting h g) = gc_next h"
  "gc_next (gc_set_refs h g r) = gc_next h"
  "gc_next (gc_reset_refs h g r) = gc_next h"
  "gc_next (gc_decref h g) = gc_next h"
  "gc_next (SET_NEXT h g n) = (gc_next h)(g := n)"
  "gc_prev (SET_NEXT h g n) = gc_prev h"
  by (simp_all add: SET_PREV_def gc_clear_collecting_def gc_set_refs_def gc_reset_refs_def
      gc_decref_def SET_NEXT_def)

lemma gc_ops_prev_other [simp]:
  assumes "a \<noteq> g"
  shows "gc_prev (SET_PREV h g p) a = gc_prev h a"
    and "gc_prev (gc_clear_collecting h g) a = gc_prev h a"
    and "gc_prev (gc_set_refs h g r) a = gc_prev h a"
    and "gc_prev (gc_reset_refs h g r) a = gc_prev h a"
    and "gc_prev (gc_decref h g) a = gc_prev h a"
  using assms
  by (simp_all add: SET_PREV_def gc_clear_collecting_def gc_set_refs_def gc_reset_refs_def
      gc_decref_def)

lemma gc_obs_cong:
  assumes "gc_prev h' a = gc_prev h a"
  shows "gc_is_collecting h' a = gc_is_collecting h a" "gc_finalized h' a = gc_finalized h a"
    "gc_get_refs h' a = gc_get_refs h a" "GC_PREV h' a = GC_PREV h a"
  using assms by (simp_all add: gc_observers)

lemma SET_NEXT_obs [simp]:
  "gc_is_collecting (SET_NEXT h g n) = gc_is_collecting h"
  "gc_finalized (SET_NEXT h g n) = gc_finalized h"
  "gc_get_refs (SET_NEXT h g n) = gc_get_refs h"
  "GC_PREV (SET_NEXT h g n) = GC_PREV h"
  "gc_is_collecting (put_next h g n) = gc_is_collecting h"
  "gc_finalized (put_next h g n) = gc_finalized h"
  "gc_get_refs (put_next h g n) = gc_get_refs h"
  "GC_PREV (put_next h g n) = GC_PREV h"
  by (auto simp: fun_eq_iff gc_observers)

lemma put_prev_obs [simp]:
  assumes "aligned p"
  shows "gc_is_collecting (put_prev h g p) = (gc_is_collecting h)(g := False)"
    and "gc_finalized (put_prev h g p) = (gc_finalized h)(g := False)"
    and "GC_PREV (put_prev h g p) = (GC_PREV h)(g := p)"
  using aligned_mask [OF assms] by (auto simp: fun_eq_iff gc_observers)

lemma SET_PREV_obs [simp]:
  assumes "aligned p"
  shows "gc_is_collecting (SET_PREV h g p) = gc_is_collecting h"
    and "gc_finalized (SET_PREV h g p) = gc_finalized h"
    and "GC_PREV (SET_PREV h g p) = (GC_PREV h)(g := p)"
  using SET_PREV_word [OF assms] by (auto simp: fun_eq_iff gc_observers SET_PREV_def)

lemma SET_PREV_aligned [simp]:
  "aligned p \<Longrightarrow> aligned (gc_prev h g) \<Longrightarrow> gc_prev (SET_PREV h g p) g = p"
  by (rule word_prev_eqI) (simp_all add: SET_PREV_def SET_PREV_word aligned_mask)

lemma gc_clear_collecting_obs [simp]:
  "gc_is_collecting (gc_clear_collecting h g) = (gc_is_collecting h)(g := False)"
  "gc_finalized (gc_clear_collecting h g) = gc_finalized h"
  "GC_PREV (gc_clear_collecting h g) = GC_PREV h"
  using clear_collecting_word by (auto simp: fun_eq_iff gc_observers gc_clear_collecting_def)

lemma gc_set_refs_obs [simp]:
  assumes "unat r < 2 ^ 62"
  shows "gc_is_collecting (gc_set_refs h g r) = gc_is_collecting h"
    and "gc_finalized (gc_set_refs h g r) = gc_finalized h"
    and "gc_get_refs (gc_set_refs h g r) = (gc_get_refs h)(g := r)"
  using set_refs_word [OF assms] by (auto simp: fun_eq_iff gc_observers gc_set_refs_def)

lemma gc_reset_refs_obs [simp]:
  assumes "unat r < 2 ^ 62"
  shows "gc_is_collecting (gc_reset_refs h g r) = (gc_is_collecting h)(g := True)"
    and "gc_finalized (gc_reset_refs h g r) = gc_finalized h"
    and "gc_get_refs (gc_reset_refs h g r) = (gc_get_refs h)(g := r)"
  using set_refs_word [OF assms] by (auto simp: fun_eq_iff gc_observers gc_reset_refs_def)

lemma gc_decref_obs [simp]:
  assumes "gc_get_refs h g \<noteq> 0"
  shows "gc_is_collecting (gc_decref h g) = gc_is_collecting h"
    and "gc_finalized (gc_decref h g) = gc_finalized h"
    and "gc_get_refs (gc_decref h g) = (gc_get_refs h)(g := gc_get_refs h g - 1)"
  using decref_word [OF assms [unfolded gc_get_refs_def]]
  by (auto simp: fun_eq_iff gc_observers gc_decref_def)

section \<open>Linked lists\<close>

fun links :: "('a \<Rightarrow> 'a) \<Rightarrow> 'a list \<Rightarrow> bool" where
  "links n (a # b # xs) = (n a = b \<and> links n (b # xs))"
| "links n _ = True"

lemma links_append: "links n (xs @ y # ys) \<longleftrightarrow> links n (xs @ [y]) \<and> links n (y # ys)"
  by (induction n xs rule: links.induct) auto

lemma links_cong: "(\<And>a. a \<in> set (butlast xs) \<Longrightarrow> n a = m a) \<Longrightarrow> links n xs = links m xs"
  by (induction n xs rule: links.induct) auto

lemma links_upd [simp]: "a \<notin> set (butlast xs) \<Longrightarrow> links (n(a := b)) xs = links n xs"
  by (rule links_cong) auto

lemma links_Cons_append [simp]:
  "links n (x # xs @ y # z # zs) \<longleftrightarrow> links n (x # xs @ [y]) \<and> n y = z \<and> links n (z # zs)"
  using links_append [of n "x # xs" y "z # zs"] by simp

lemma links_snoc: "links n (x # xs @ [y]) \<longleftrightarrow> links n (x # xs) \<and> n (last (x # xs)) = y"
  by (induction xs arbitrary: x) auto

lemma links_at: "links n (P @ a # Q) \<Longrightarrow> Q \<noteq> [] \<Longrightarrow> n a = hd Q"
  by (induction n P rule: links.induct) (cases Q; auto)+

lemma links_remove:
  assumes "links n (P @ a # Q)" "P \<noteq> []" "Q \<noteq> []" "distinct P" "last P \<notin> set (butlast Q)"
  shows "links (n(last P := hd Q)) (P @ Q)"
proof -
  obtain P' p where P: "P = P' @ [p]" using assms(2) by (cases P rule: rev_cases) auto
  obtain q Q' where Q: "Q = q # Q'" using assms(3) by (cases Q) auto
  have "links n (P' @ [p])" "links n (q # Q')"
    using assms(1) unfolding P Q by (simp_all add: links_append [of n P' p "a # q # Q'"])
  then show ?thesis
    using assms(4,5) unfolding P Q by (simp add: links_append [of _ P' p "q # Q'"])
qed

text \<open>
  \<open>gc_seg h l as bs\<close>: the list at \<open>l\<close> holds the nodes \<open>as @ bs\<close>, of which \<open>bs\<close> are doubly linked while the
  \<open>_gc_prev\<close> words of \<open>as\<close> may hold something else. A \<open>gc_list\<close> is doubly linked throughout.
\<close>

definition gc_seg :: "gcheap \<Rightarrow> addr \<Rightarrow> addr list \<Rightarrow> addr list \<Rightarrow> bool" where
  "gc_seg h l as bs \<longleftrightarrow> distinct (l # as @ bs) \<and> (\<forall>a\<in>set (l # as @ bs). aligned a) \<and>
     links (gc_next h) (l # as @ bs @ [l]) \<and>
     links (GC_PREV h) (l # rev bs @ [last (l # as)]) \<and> aligned (gc_prev h l)"

definition gc_list :: "gcheap \<Rightarrow> addr \<Rightarrow> addr list \<Rightarrow> bool" where
  "gc_list h l xs \<longleftrightarrow> distinct (l # xs) \<and> (\<forall>a\<in>set (l # xs). aligned a) \<and>
     links (gc_next h) (l # xs @ [l]) \<and> links (GC_PREV h) (l # rev xs @ [l]) \<and>
     aligned (gc_prev h l)"

lemma gc_list_seg: "gc_list h l xs \<longleftrightarrow> gc_seg h l [] xs"
  by (simp add: gc_list_def gc_seg_def)

lemma gc_list_empty: "aligned l \<Longrightarrow> gc_list (gc_list_init h l) l []"
  by (simp add: gc_list_def gc_list_init_def)

lemma gc_list_is_empty_iff: "gc_list h l xs \<Longrightarrow> gc_list_is_empty h l \<longleftrightarrow> xs = []"
  by (cases xs) (auto simp: gc_list_def gc_list_is_empty_def)

lemma gc_list_last: "gc_list h l xs \<Longrightarrow> gc_prev h l = last (l # xs)"
  by (cases xs rule: rev_cases) (auto simp: gc_list_def GC_PREV_def aligned_mask)

lemma gc_list_GC_PREV: "gc_list h l xs \<Longrightarrow> GC_PREV h l = last (l # xs)"
  by (cases xs rule: rev_cases) (auto simp: gc_list_def)

lemma gc_list_GC_NEXT: "gc_list h l xs \<Longrightarrow> GC_NEXT h l = hd (xs @ [l])"
  by (cases xs) (auto simp: gc_list_def GC_NEXT_def)

lemma gc_list_cong:
  assumes "\<And>a. a \<in> set (l # xs) \<Longrightarrow> gc_prev h' a = gc_prev h a \<and> gc_next h' a = gc_next h a"
  shows "gc_list h' l xs = gc_list h l xs"
proof -
  have "links (gc_next h') (l # xs @ [l]) = links (gc_next h) (l # xs @ [l])"
    using assms by (intro links_cong) (auto simp: butlast_append)
  moreover have "links (GC_PREV h') (l # rev xs @ [l]) = links (GC_PREV h) (l # rev xs @ [l])"
    using assms by (intro links_cong) (auto simp: butlast_append GC_PREV_def)
  ultimately show ?thesis using assms by (simp add: gc_list_def)
qed

lemma gc_list_append_list:
  assumes l: "gc_list h l xs" and "node \<notin> set (l # xs)" "aligned node"
  shows "gc_list (gc_list_append h node l) l (xs @ [node])"
proof (cases xs rule: rev_cases)
  case Nil
  then show ?thesis using assms gc_list_last [OF l]
    by (auto simp: gc_list_def gc_list_append_def Let_def)
next
  case (snoc ys y)
  then show ?thesis using assms gc_list_last [OF l]
    by (auto simp: gc_list_def gc_list_append_def Let_def butlast_append)
qed

text \<open>\<open>gc_list_move\<close> is the removal of the node followed by \<open>gc_list_append\<close>, as its comment says.\<close>

definition gc_list_remove :: "gcheap \<Rightarrow> addr \<Rightarrow> gcheap" where
  "gc_list_remove h node =
     SET_PREV (SET_NEXT h (GC_PREV h node) (GC_NEXT h node)) (GC_NEXT h node) (GC_PREV h node)"

lemma gc_list_move_eq: "gc_list_move h node l = gc_list_append (gc_list_remove h node) node l"
  by (simp add: gc_list_move_def gc_list_append_def gc_list_remove_def Let_def put_prev_def
      put_next_def SET_NEXT_def SET_PREV_def)

lemma last_hd_rev: "hd (rev as @ [last (l # ds)]) = last (l # ds @ as)"
  by (cases as rule: rev_cases) auto

lemma gc_seg_neighbours:
  assumes "gc_seg h l ds (as @ node # bs)"
  shows "GC_PREV h node = last (l # ds @ as)" "GC_NEXT h node = hd (bs @ [l])"
proof -
  have n: "links (gc_next h) ((l # ds @ as) @ node # (bs @ [l]))"
    and p: "links (GC_PREV h) ((l # rev bs) @ node # (rev as @ [last (l # ds)]))"
    using assms by (simp_all add: gc_seg_def)
  show "GC_NEXT h node = hd (bs @ [l])" using links_at [OF n] by (simp add: GC_NEXT_def)
  show "GC_PREV h node = last (l # ds @ as)" using links_at [OF p] last_hd_rev [of as l ds] by simp
qed

lemma gc_seg_remove:
  assumes l: "gc_seg h l ds (as @ node # bs)"
  shows "gc_seg (gc_list_remove h node) l ds (as @ bs)"
proof -
  let ?p = "last (l # ds @ as)" and ?n = "hd (bs @ [l])" and ?h = "gc_list_remove h node"
  have pn: "GC_PREV h node = ?p" "GC_NEXT h node = ?n" by (rule gc_seg_neighbours [OF l])+
  have ne: "?p \<in> set (l # ds @ as)" by (rule last_in_set) simp
  have al: "aligned ?p" and d: "distinct (l # ds @ as @ node # bs)"
    using l ne by (auto simp: gc_seg_def)
  have n: "links (gc_next h) ((l # ds @ as) @ node # (bs @ [l]))"
    and p: "links (GC_PREV h) ((l # rev bs) @ node # (rev as @ [last (l # ds)]))"
    using l by (simp_all add: gc_seg_def)
  have "?p \<notin> set (butlast (bs @ [l]))" using d ne by auto
  then have "links ((gc_next h)(?p := ?n)) ((l # ds @ as) @ bs @ [l])"
    using d by (intro links_remove [OF n]) auto
  then have "links (gc_next ?h) (l # ds @ (as @ bs) @ [l])"
    using pn by (simp add: gc_list_remove_def)
  moreover have hb: "last (l # rev bs) = ?n" by (cases bs) auto
  have "?n \<in> set (l # bs)" by (cases bs) auto
  then have "last (l # rev bs) \<notin> set (butlast (rev as @ [last (l # ds)]))"
    unfolding hb using d by auto
  from links_remove [OF p _ _ _ this]
  have "links (GC_PREV ?h) (l # rev (as @ bs) @ [last (l # ds)])"
    using d al unfolding last_hd_rev hb by (simp add: gc_list_remove_def pn)
  moreover have "aligned (gc_prev ?h l)"
    using l al by (cases "?n = l") (simp_all add: gc_list_remove_def pn gc_seg_def)
  ultimately show ?thesis using l by (simp add: gc_seg_def)
qed

definition same_at :: "gcheap \<Rightarrow> gcheap \<Rightarrow> addr \<Rightarrow> bool" where
  "same_at h h' a \<longleftrightarrow> gc_prev h' a = gc_prev h a \<and> gc_next h' a = gc_next h a"

lemma gc_seg_remove_same:
  assumes "gc_seg h l ds (as @ node # bs)" "a \<notin> set (l # ds @ as @ bs)"
  shows "same_at h (gc_list_remove h node) a"
proof -
  have "last (l # ds @ as) \<in> set (l # ds @ as @ bs)" "hd (bs @ [l]) \<in> set (l # ds @ as @ bs)"
    by (cases ds rule: rev_cases; cases as rule: rev_cases; cases bs; simp)+
  then have "a \<noteq> GC_PREV h node" "a \<noteq> GC_NEXT h node"
    using assms(2) gc_seg_neighbours [OF assms(1)] by metis+
  then show ?thesis by (simp add: same_at_def gc_list_remove_def)
qed

lemma gc_seg_remove_obs:
  assumes "gc_seg h l ds (as @ node # bs)"
  shows "gc_is_collecting (gc_list_remove h node) = gc_is_collecting h"
    and "gc_finalized (gc_list_remove h node) = gc_finalized h"
proof -
  have "last (l # ds @ as) \<in> set (l # ds @ as)" by (rule last_in_set) simp
  then have "aligned (GC_PREV h node)"
    using assms gc_seg_neighbours [OF assms] by (auto simp: gc_seg_def)
  then show "gc_is_collecting (gc_list_remove h node) = gc_is_collecting h"
    "gc_finalized (gc_list_remove h node) = gc_finalized h"
    by (simp_all add: gc_list_remove_def)
qed

lemmas gc_list_neighbours = gc_seg_neighbours [where ds = "[]", folded gc_list_seg, simplified]
lemmas gc_list_remove_list = gc_seg_remove [where ds = "[]", folded gc_list_seg]
lemmas gc_list_remove_same = gc_seg_remove_same [where ds = "[]", folded gc_list_seg, simplified]
lemmas gc_list_remove_obs = gc_seg_remove_obs [where ds = "[]", folded gc_list_seg]

lemma gc_list_append_same:
  assumes "gc_list h l xs" "a \<notin> set (l # xs)" "a \<noteq> node"
  shows "same_at h (gc_list_append h node l) a"
proof -
  have "last (l # xs) \<in> set (l # xs)" by (rule last_in_set) simp
  then show ?thesis
    using assms gc_list_last [OF assms(1)]
    by (auto simp: same_at_def gc_list_append_def Let_def)
qed

lemma gc_list_same:
  "(\<And>a. a \<in> set (l # xs) \<Longrightarrow> same_at h h' a) \<Longrightarrow> gc_list h' l xs = gc_list h l xs"
  by (rule gc_list_cong) (simp add: same_at_def)

lemma same_at_trans: "same_at h1 h2 a \<Longrightarrow> same_at h2 h3 a \<Longrightarrow> same_at h1 h3 a"
  by (simp add: same_at_def)

lemma gc_seg_same:
  assumes "\<And>a. a \<in> set (l # as @ bs) \<Longrightarrow> same_at h h' a"
  shows "gc_seg h' l as bs = gc_seg h l as bs"
proof -
  have "links (gc_next h') (l # as @ bs @ [l]) = links (gc_next h) (l # as @ bs @ [l])"
    using assms by (intro links_cong) (auto simp: butlast_append same_at_def)
  moreover have "links (GC_PREV h') (l # rev bs @ [last (l # as)]) =
      links (GC_PREV h) (l # rev bs @ [last (l # as)])"
    using assms by (intro links_cong) (auto simp: butlast_append GC_PREV_def same_at_def)
  ultimately show ?thesis using assms [of l] by (simp add: gc_seg_def same_at_def)
qed

text \<open>Moving a node to another list, when what precedes it in its list may be singly linked.\<close>

lemma remove_keeps_other:
  assumes l: "gc_seg h l ds (as @ node # bs)" and m: "gc_list h m ys"
    and dis: "set (l # ds @ as @ node # bs) \<inter> set (m # ys) = {}"
  shows "gc_list (gc_list_remove h node) m ys"
proof -
  have "same_at h (gc_list_remove h node) a" if "a \<in> set (m # ys)" for a
    using that dis by (intro gc_seg_remove_same [OF l]) auto
  then show ?thesis using gc_list_same m by blast
qed

lemma gc_seg_move_to:
  assumes l: "gc_seg h l ds (as @ node # bs)" and m: "gc_list h m ys"
    and dis: "set (l # ds @ as @ node # bs) \<inter> set (m # ys) = {}"
  shows "gc_list (gc_list_move h node m) m (ys @ [node])"
  using l dis unfolding gc_list_move_eq
  by (intro gc_list_append_list [OF remove_keeps_other [OF l m dis]]) (auto simp: gc_seg_def)

lemma gc_seg_move_from:
  assumes l: "gc_seg h l ds (as @ node # bs)" and m: "gc_list h m ys"
    and dis: "set (l # ds @ as @ node # bs) \<inter> set (m # ys) = {}"
  shows "gc_seg (gc_list_move h node m) l ds (as @ bs)"
proof -
  have "node \<notin> set (l # ds @ as @ bs)" using l by (auto simp: gc_seg_def)
  then have "same_at (gc_list_remove h node) (gc_list_move h node m) a"
    if "a \<in> set (l # ds @ as @ bs)" for a
    unfolding gc_list_move_eq using that dis by (intro gc_list_append_same [OF remove_keeps_other [OF l m dis]]) auto
  then show ?thesis
    using gc_seg_same [of l ds "as @ bs" "gc_list_remove h node"] gc_seg_remove [OF l] by blast
qed

lemma gc_seg_move_same:
  assumes l: "gc_seg h l ds (as @ node # bs)" and m: "gc_list h m ys"
    and dis: "set (l # ds @ as @ node # bs) \<inter> set (m # ys) = {}"
    and a: "a \<notin> set (l # ds @ as @ node # bs)" "a \<notin> set (m # ys)"
  shows "same_at h (gc_list_move h node m) a"
  unfolding gc_list_move_eq using a gc_seg_remove_same [OF l, of a]
  by (intro same_at_trans [OF _ gc_list_append_same [OF remove_keeps_other [OF l m dis]]]) auto

lemma gc_list_append_obs:
  assumes "gc_list h l xs" "a \<noteq> l"
  shows "gc_is_collecting (gc_list_append h node l) a = gc_is_collecting h a"
    and "gc_finalized (gc_list_append h node l) a = gc_finalized h a"
proof -
  have "aligned (gc_prev h l)" using assms by (simp add: gc_list_def)
  then show "gc_is_collecting (gc_list_append h node l) a = gc_is_collecting h a"
    "gc_finalized (gc_list_append h node l) a = gc_finalized h a"
    using assms by (simp_all add: gc_list_append_def Let_def gc_obs_cong [of "put_prev _ l _" a])
qed

lemma gc_list_merge_lists:
  assumes f: "gc_list h from xs" and t: "gc_list h to ys"
    and dis: "set (from # xs) \<inter> set (to # ys) = {}"
  shows "gc_list (gc_list_merge h from to) to (ys @ xs)"
    and "gc_list (gc_list_merge h from to) from []"
proof -
  have al: "aligned from" using f by (simp add: gc_list_def)
  then show "gc_list (gc_list_merge h from to) from []"
    unfolding gc_list_merge_def Let_def by (rule gc_list_empty)
  show "gc_list (gc_list_merge h from to) to (ys @ xs)"
  proof (cases "xs = []")
    case True
    then have "gc_list_merge h from to = gc_list_init h from"
      using gc_list_is_empty_iff [OF f] by (simp add: gc_list_merge_def)
    moreover have "gc_list (gc_list_init h from) to ys = gc_list h to ys"
      using dis by (intro gc_list_cong) (auto simp: gc_list_init_def)
    ultimately show ?thesis using t True by simp
  next
    case False
    then obtain b bs where xs: "xs = b # bs" by (cases xs) auto
    have ne: "\<not> gc_list_is_empty h from" using gc_list_is_empty_iff [OF f] False by simp
    show ?thesis
      using ne f t dis gc_list_last [OF t] gc_list_GC_NEXT [OF f] gc_list_GC_PREV [OF f]
        gc_list_GC_PREV [OF t]
      unfolding gc_list_merge_def gc_list_init_def Let_def xs
      by (cases bs rule: rev_cases; cases ys rule: rev_cases)
        (auto simp: gc_list_def butlast_append)
  qed
qed

section \<open>Walks\<close>

lemma gc_while_end [simp]: "gc_while l body l st = Some st"
  by (simp add: gc_while.simps)

lemma gc_while_step:
  "gc \<noteq> l \<Longrightarrow> body gc st = (gc', st') \<Longrightarrow> gc_while l body gc st = gc_while l body gc' st'"
  by (subst gc_while.simps) simp

text \<open>A walk over the nodes \<open>xs\<close>: the body takes the cursor from each node to the next.\<close>

lemma gc_while_walk:
  assumes "l \<notin> set xs" "Q as xs st"
    and step: "\<And>as b bs st. Q as (b # bs) st \<Longrightarrow>
      \<exists>st'. body b st = (hd (bs @ [l]), st') \<and> Q (as @ [b]) bs st'"
  shows "\<exists>st'. gc_while l body (hd (xs @ [l])) st = Some st' \<and> Q (as @ xs) [] st'"
  using assms(1,2)
proof (induction xs arbitrary: as st)
  case (Cons b bs)
  obtain st' where "body b st = (hd (bs @ [l]), st')" "Q (as @ [b]) bs st'"
    using step [OF Cons.prems(2)] by blast
  then show ?case using Cons.IH [of "as @ [b]" st'] Cons.prems by (auto simp: gc_while_step)
qed simp

text \<open>A loop with an invariant and a measure.\<close>

lemma gc_while_rule:
  fixes m :: "'st \<Rightarrow> nat"
  assumes "I gc st"
    and step: "\<And>gc st. I gc st \<Longrightarrow> gc \<noteq> l \<Longrightarrow>
      I (fst (body gc st)) (snd (body gc st)) \<and> m (snd (body gc st)) < m st"
  shows "\<exists>st'. gc_while l body gc st = Some st' \<and> I l st'"
  using assms(1)
proof (induction "m st" arbitrary: gc st rule: less_induct)
  case less
  show ?case
  proof (cases "gc = l")
    case False
    then show ?thesis
      using less.hyps [OF conjunct2 [OF step [OF less.prems]] conjunct1 [OF step [OF less.prems]]]
      by (subst gc_while.simps) simp
  qed (use less.prems in auto)
qed

lemma gc_list_size_length:
  assumes "gc_list h l xs"
  shows "gc_list_size h l = Some (length xs)"
proof -
  have "l \<notin> set xs" using assms by (simp add: gc_list_def)
  moreover have "\<exists>n'. (GC_NEXT h b, n + 1) = (hd (bs @ [l]), n') \<and>
      xs = (as @ [b]) @ bs \<and> n' = length (as @ [b])"
    if "xs = as @ b # bs \<and> n = length as" for as b bs n
    using that gc_list_neighbours(2) [of h l as b bs] assms by simp
  ultimately have "\<exists>n. gc_while l (\<lambda>gc n. (GC_NEXT h gc, n + 1)) (hd (xs @ [l])) 0 = Some n \<and>
      xs = ([] @ xs) @ [] \<and> n = length ([] @ xs)"
    by (intro gc_while_walk [where Q = "\<lambda>as bs n. xs = as @ bs \<and> n = length as"]) auto
  then show ?thesis using gc_list_GC_NEXT [OF assms] by (auto simp: gc_list_size_def)
qed
end
