(* ===== verification/GC_Deduce.thy ===== *)
theory GC_Deduce
  imports GC_Head
begin

text \<open>
  The serial collector's search for unreachable objects (\<open>parallel_gc.c\<close>): \<open>update_refs\<close> copies the
  reference counts into the headers, \<open>subtract_refs\<close> takes away the references from inside the
  generation, \<open>move_unreachable\<close> moves what cannot be reached from outside to its own list, and
  \<open>deduce_unreachable\<close> composes them; then the functions that take the result apart, the objects with
  a legacy finalizer and what they reach.

  What the collector asks of the interpreter's objects is a parameter, \<open>gcenv\<close>: reference counts, the
  immortality test, \<open>_PyObject_IS_GC\<close>, the referents that the type's \<open>tp_traverse\<close> visits, in order, and
  whether the type has a \<open>tp_del\<close> slot. Every visit procedure here returns 0, so \<open>tp_traverse\<close> calls it on
  all the referents.
\<close>

section \<open>Definitions\<close>

record gcenv =
  ob_refcnt :: "addr \<Rightarrow> 64 word"
  is_immortal :: "addr \<Rightarrow> bool"
  is_gc :: "addr \<Rightarrow> bool"
  tp_traverse :: "addr \<Rightarrow> addr list"
  tp_del :: "addr \<Rightarrow> bool"

definition update_refs :: "gcenv \<Rightarrow> addr \<Rightarrow> gcheap \<Rightarrow> addr \<Rightarrow> (gcheap \<times> nat) option" where
  "update_refs env permanent h containers =
     gc_while containers
       (\<lambda>gc (h, num_seen).
          let nxt = GC_NEXT h gc in
          if is_immortal env (FROM_GC gc) then (nxt, gc_list_move h gc permanent, num_seen)
          else (nxt, gc_reset_refs h gc (ob_refcnt env (FROM_GC gc)), num_seen + 1))
       (GC_NEXT h containers) (h, 0)"

definition visit_decref :: "gcenv \<Rightarrow> addr \<Rightarrow> gcheap \<Rightarrow> gcheap" where
  "visit_decref env op h =
     (if is_gc env op
      then let gc = AS_GC op in if gc_is_collecting h gc then gc_decref h gc else h
      else h)"

definition subtract_refs :: "gcenv \<Rightarrow> gcheap \<Rightarrow> addr \<Rightarrow> gcheap option" where
  "subtract_refs env h containers =
     gc_while containers
       (\<lambda>gc h. let h = fold (visit_decref env) (tp_traverse env (FROM_GC gc)) h
               in (GC_NEXT h gc, h))
       (GC_NEXT h containers) h"

definition visit_reachable :: "gcenv \<Rightarrow> addr \<Rightarrow> addr \<Rightarrow> gcheap \<Rightarrow> gcheap" where
  "visit_reachable env reachable op h =
     (if \<not> is_gc env op then h
      else let gc = AS_GC op; gc_refs = gc_get_refs h gc in
        if \<not> gc_is_collecting h gc then h
        else if gc_next h gc AND NEXT_MASK_UNREACHABLE \<noteq> 0
        then let prev = GC_PREV h gc;
                 nxt = gc_next h gc AND NOT NEXT_MASK_UNREACHABLE;
                 h = put_next h prev (gc_next h gc);
                 h = put_next h gc (gc_next h gc AND NOT NEXT_MASK_UNREACHABLE);
                 h = SET_PREV h nxt prev;
                 h = gc_list_append h gc reachable
             in gc_set_refs h gc 1
        else if gc_refs = 0 then gc_set_refs h gc 1
        else h)"

definition move_unreachable :: "gcenv \<Rightarrow> gcheap \<Rightarrow> addr \<Rightarrow> addr \<Rightarrow> gcheap option" where
  "move_unreachable env h young unreachable =
     map_option
       (\<lambda>(h, prev).
          let h = put_prev h young prev;
              h = put_next h young (gc_next h young AND PREV_MASK)
          in put_next h unreachable (gc_next h unreachable AND PREV_MASK))
       (gc_while young
          (\<lambda>gc (h, prev).
             if gc_get_refs h gc \<noteq> 0
             then let h = fold (visit_reachable env young) (tp_traverse env (FROM_GC gc)) h;
                      h = SET_PREV h gc prev;
                      h = gc_clear_collecting h gc;
                      prev = gc
                  in (GC_NEXT h prev, h, prev)
             else let h = put_next h prev (gc_next h gc);
                      last = GC_PREV h unreachable;
                      h = put_next h last (NEXT_MASK_UNREACHABLE OR gc);
                      h = SET_PREV h gc last;
                      h = put_next h gc (NEXT_MASK_UNREACHABLE OR unreachable);
                      h = put_prev h unreachable gc
                  in (GC_NEXT h prev, h, prev))
          (GC_NEXT h young) (h, young))"

definition deduce_unreachable ::
  "gcenv \<Rightarrow> addr \<Rightarrow> gcheap \<Rightarrow> addr \<Rightarrow> addr \<Rightarrow> gcheap option" where
  "deduce_unreachable env permanent h base unreachable =
     Option.bind (update_refs env permanent h base) (\<lambda>(h, _).
     Option.bind (subtract_refs env h base) (\<lambda>h.
     move_unreachable env (gc_list_init h unreachable) base unreachable))"

definition has_legacy_finalizer :: "gcenv \<Rightarrow> addr \<Rightarrow> bool" where
  "has_legacy_finalizer env op = tp_del env op"

definition move_legacy_finalizers :: "gcenv \<Rightarrow> gcheap \<Rightarrow> addr \<Rightarrow> addr \<Rightarrow> gcheap option" where
  "move_legacy_finalizers env h unreachable finalizers =
     gc_while unreachable
       (\<lambda>gc h.
          let op = FROM_GC gc;
              h = put_next h gc (gc_next h gc AND NOT NEXT_MASK_UNREACHABLE);
              nxt = gc_next h gc
          in if has_legacy_finalizer env op
             then (nxt, gc_list_move (gc_clear_collecting h gc) gc finalizers)
             else (nxt, h))
       (GC_NEXT h unreachable) h"

definition clear_unreachable_mask :: "gcheap \<Rightarrow> addr \<Rightarrow> gcheap option" where
  "clear_unreachable_mask h unreachable =
     gc_while unreachable
       (\<lambda>gc h. let h = put_next h gc (gc_next h gc AND NOT NEXT_MASK_UNREACHABLE)
               in (gc_next h gc, h))
       (GC_NEXT h unreachable) h"

definition visit_move :: "gcenv \<Rightarrow> addr \<Rightarrow> addr \<Rightarrow> gcheap \<Rightarrow> gcheap" where
  "visit_move env tolist op h =
     (if is_gc env op
      then let gc = AS_GC op in
        if gc_is_collecting h gc then gc_clear_collecting (gc_list_move h gc tolist) gc else h
      else h)"

definition move_legacy_finalizer_reachable :: "gcenv \<Rightarrow> gcheap \<Rightarrow> addr \<Rightarrow> gcheap option" where
  "move_legacy_finalizer_reachable env h finalizers =
     gc_while finalizers
       (\<lambda>gc h. let h = fold (visit_move env finalizers) (tp_traverse env (FROM_GC gc)) h
               in (GC_NEXT h gc, h))
       (GC_NEXT h finalizers) h"

definition handle_resurrected_objects ::
  "gcenv \<Rightarrow> addr \<Rightarrow> gcheap \<Rightarrow> addr \<Rightarrow> addr \<Rightarrow> addr \<Rightarrow> gcheap option" where
  "handle_resurrected_objects env permanent h unreachable still_unreachable old_generation =
     Option.bind (gc_list_clear_collecting h unreachable) (\<lambda>h.
     Option.bind (deduce_unreachable env permanent h unreachable still_unreachable) (\<lambda>h.
     Option.bind (clear_unreachable_mask h still_unreachable) (\<lambda>h.
     Some (gc_list_merge h unreachable old_generation))))"

end
