(* ===== verification/GC_Subtract.thy ===== *)
theory GC_Subtract
  imports GC_Deduce
begin

text \<open>
  The two counting passes of the collector: \<open>update_refs\<close> copies the reference counts into the headers and sets
  immortal objects aside, \<open>subtract_refs\<close> subtracts the references that come from inside the generation. Both walk
  the whole list and end; the counts they leave are those of the references from outside.
\<close>

section \<open>Reachability\<close>

definition referents :: "gcenv \<Rightarrow> addr \<Rightarrow> addr list" where
  "referents env g = map AS_GC (filter (is_gc env) (tp_traverse env (FROM_GC g)))"

definition mortal :: "gcenv \<Rightarrow> addr \<Rightarrow> bool" where
  "mortal env g \<longleftrightarrow> \<not> is_immortal env (FROM_GC g)"

definition refcnt :: "gcenv \<Rightarrow> addr \<Rightarrow> nat" where
  "refcnt env g = unat (ob_refcnt env (FROM_GC g))"

lemma gc_seg_shift:
  assumes "gc_seg h l ds (b # bs)" "\<And>a. a \<noteq> b \<Longrightarrow> gc_prev h' a = gc_prev h a"
    and "gc_next h' = gc_next h"
  shows "gc_seg h' l (ds @ [b]) bs"
proof -
  have "links (GC_PREV h) (l # rev bs @ [b])"
    using assms(1) by (simp add: gc_seg_def)
  moreover have "GC_PREV h' a = GC_PREV h a" if "a \<in> set (l # bs)" for a
  proof -
    have "a \<noteq> b" using that assms(1) by (auto simp: gc_seg_def)
    then show ?thesis using assms(2) by (simp add: GC_PREV_def)
  qed
  then have "links (GC_PREV h') (l # rev bs @ [b]) = links (GC_PREV h) (l # rev bs @ [b])"
    by (intro links_cong) (auto simp: butlast_append)
  ultimately show ?thesis using assms by (auto simp: gc_seg_def)
qed

lemma gc_list_move_prev:
  assumes "a \<noteq> GC_NEXT h node" "a \<noteq> node" "a \<noteq> m"
  shows "gc_prev (gc_list_move h node m) a = gc_prev h a"
  using assms by (simp add: gc_list_move_def Let_def)

lemma gc_seg_move_obs:
  assumes l: "gc_seg h l ds (as @ node # bs)" and m: "gc_list h m ys"
    and dis: "set (l # ds @ as @ node # bs) \<inter> set (m # ys) = {}" and "a \<noteq> m"
  shows "gc_is_collecting (gc_list_move h node m) a = gc_is_collecting h a"
    and "gc_finalized (gc_list_move h node m) a = gc_finalized h a"
  unfolding gc_list_move_eq
  using gc_list_append_obs [OF remove_keeps_other [OF l m dis] \<open>a \<noteq> m\<close>] gc_seg_remove_obs [OF l]
  by simp_all

lemma gc_seg_GC_NEXT: "gc_seg h l [] xs \<Longrightarrow> GC_NEXT h l = hd (xs @ [l])"
  by (simp add: gc_list_GC_NEXT gc_list_seg)

section \<open>Copying the reference counts\<close>

definition refs_copied :: "gcenv \<Rightarrow> gcheap \<Rightarrow> addr \<Rightarrow> addr list \<Rightarrow> addr \<Rightarrow> addr list \<Rightarrow> addr list
    \<Rightarrow> addr list \<Rightarrow> gcheap \<Rightarrow> bool" where
  "refs_copied env h0 base xs perm ps as bs h \<longleftrightarrow>
     gc_seg h base (filter (mortal env) as) bs \<and>
     gc_list h perm (ps @ filter (\<lambda>x. \<not> mortal env x) as) \<and>
     (\<forall>y\<in>set as. mortal env y \<longrightarrow>
        gc_is_collecting h y \<and> gc_get_refs h y = ob_refcnt env (FROM_GC y)) \<and>
     (\<forall>a. a \<noteq> perm \<longrightarrow> gc_finalized h a = gc_finalized h0 a) \<and>
     (\<forall>a. a \<notin> set as \<or> \<not> mortal env a \<longrightarrow> a \<noteq> perm \<longrightarrow>
        gc_is_collecting h a = gc_is_collecting h0 a) \<and>
     (\<forall>a. a \<notin> set (base # xs) \<longrightarrow> a \<notin> set (perm # ps) \<longrightarrow> same_at h0 h a)"

lemma refs_copied_step:
  assumes I: "refs_copied env h0 base xs perm ps as (b # bs) h" and xs: "xs = as @ b # bs"
    and dis: "set (base # xs) \<inter> set (perm # ps) = {}" and d: "distinct (base # xs)"
    and small: "mortal env b \<Longrightarrow> refcnt env b < 2 ^ 62"
    and h': "h' = (if mortal env b then gc_reset_refs h b (ob_refcnt env (FROM_GC b))
                   else gc_list_move h b perm)"
  shows "refs_copied env h0 base xs perm ps (as @ [b]) bs h'"
proof (cases "mortal env b")
  case True
  let ?r = "ob_refcnt env (FROM_GC b)"
  have r: "unat ?r < 2 ^ 62" using small [OF True] by (simp add: refcnt_def)
  have h': "h' = gc_reset_refs h b ?r" using h' True by simp
  have same: "same_at h h' a" if "a \<noteq> b" for a using that by (simp add: h' same_at_def)
  have "gc_seg h' base (filter (mortal env) as @ [b]) bs"
    using I unfolding refs_copied_def h' by (intro gc_seg_shift [of h]) auto
  moreover have "gc_list h' perm (ps @ filter (\<lambda>x. \<not> mortal env x) as)"
  proof (subst gc_list_same [of _ _ h])
    fix a assume "a \<in> set (perm # ps @ filter (\<lambda>x. \<not> mortal env x) as)"
    then have "a \<noteq> b" using True dis xs by auto
    then show "same_at h h' a" by (rule same)
  qed (use I in \<open>simp add: refs_copied_def\<close>)
  moreover have "gc_is_collecting h' y \<and> gc_get_refs h' y = ob_refcnt env (FROM_GC y)"
    if "y \<in> set (as @ [b])" "mortal env y" for y
    using I that r by (auto simp: refs_copied_def h')
  ultimately show ?thesis
    using I True r xs dis same_at_trans [OF _ same] unfolding refs_copied_def
    by (auto simp: h')
next
  case False
  have seg: "gc_seg h base (filter (mortal env) as) ([] @ b # bs)"
    and pm: "gc_list h perm (ps @ filter (\<lambda>x. \<not> mortal env x) as)"
    using I by (auto simp: refs_copied_def)
  have dis': "set (base # filter (mortal env) as @ [] @ b # bs) \<inter>
      set (perm # ps @ filter (\<lambda>x. \<not> mortal env x) as) = {}"
    using dis xs d seg by (auto simp: gc_seg_def)
  have h': "h' = gc_list_move h b perm" using h' False by simp
  note mv = gc_seg_move_from [OF seg pm dis'] gc_seg_move_to [OF seg pm dis']
    gc_seg_move_obs [OF seg pm dis'] gc_seg_move_same [OF seg pm dis']
  have nx: "GC_NEXT h b = hd (bs @ [base])" using gc_seg_neighbours [OF seg] by simp
  have prevs: "gc_prev h' y = gc_prev h y" if "y \<in> set as" "mortal env y" for y
  proof -
    have "hd (bs @ [base]) \<in> set (base # bs)" by (cases bs) auto
    moreover have "y \<notin> set (base # bs)" using that seg xs d by (auto simp: gc_seg_def)
    ultimately show ?thesis
      unfolding h' using that False dis xs nx by (intro gc_list_move_prev) auto
  qed
  note refs = gc_obs_cong(3) [OF prevs]
  have pm': "perm \<notin> set xs" using dis by auto
  have "same_at h0 h' a" if "a \<notin> set (base # xs)" "a \<notin> set (perm # ps)" for a
    using I that xs unfolding h' refs_copied_def
    by (intro same_at_trans [OF _ mv(5)]) auto
  moreover have "gc_finalized h' a = gc_finalized h0 a" if "a \<noteq> perm" for a
    using I that mv(4) [of a] by (auto simp: refs_copied_def h')
  moreover have "gc_is_collecting h' a = gc_is_collecting h0 a"
    if "a \<notin> set (as @ [b]) \<or> \<not> mortal env a" "a \<noteq> perm" for a
    using I that mv(3) [of a] by (auto simp: refs_copied_def h')
  moreover have "gc_is_collecting h' y \<and> gc_get_refs h' y = ob_refcnt env (FROM_GC y)"
    if "y \<in> set (as @ [b])" "mortal env y" for y
  proof -
    have "y \<in> set as" "y \<noteq> perm" using that False pm' xs by auto
    then show ?thesis using I that(2) mv(3) [of y] refs [of y] by (simp add: refs_copied_def h')
  qed
  ultimately show ?thesis using False mv(1,2) by (simp add: refs_copied_def h')
qed

theorem update_refs_copies:
  assumes b: "gc_list h base xs" and p: "gc_list h perm ps"
    and dis: "set (base # xs) \<inter> set (perm # ps) = {}"
    and small: "\<And>x. x \<in> set xs \<Longrightarrow> mortal env x \<Longrightarrow> refcnt env x < 2 ^ 62"
  shows "\<exists>h'. update_refs env perm h base = Some (h', length (filter (mortal env) xs)) \<and>
    refs_copied env h base xs perm ps xs [] h'"
proof -
  let ?Q = "\<lambda>as bs (h', n). xs = as @ bs \<and> refs_copied env h base xs perm ps as bs h' \<and>
    n = length (filter (mortal env) as)"
  let ?body = "\<lambda>gc (h, num_seen). let nxt = GC_NEXT h gc in
          if is_immortal env (FROM_GC gc) then (nxt, gc_list_move h gc perm, num_seen)
          else (nxt, gc_reset_refs h gc (ob_refcnt env (FROM_GC gc)), num_seen + 1)"
  have d: "distinct (base # xs)" "base \<notin> set xs" using b by (auto simp: gc_list_def)
  have "\<exists>st'. gc_while base ?body (hd (xs @ [base])) (h, 0) = Some st' \<and> ?Q ([] @ xs) [] st'"
  proof (rule gc_while_walk [OF d(2)])
    show "?Q [] xs (h, 0)" using b p by (auto simp: refs_copied_def gc_list_seg same_at_def)
    fix as b bs st assume Q: "?Q as (b # bs) st"
    obtain h' n where st: "st = (h', n)" by force
    have "b \<in> set xs" using Q st by auto
    then have step: "refs_copied env h base xs perm ps (as @ [b]) bs
        (if mortal env b then gc_reset_refs h' b (ob_refcnt env (FROM_GC b)) else gc_list_move h' b perm)"
      using Q st small by (intro refs_copied_step [OF _ _ dis d(1)]) auto
    have "gc_seg h' base (filter (mortal env) as) ([] @ b # bs)" using Q st by (simp add: refs_copied_def)
    from gc_seg_neighbours(2) [OF this] show "\<exists>st'. ?body b st = (hd (bs @ [base]), st') \<and> ?Q (as @ [b]) bs st'"
      using step Q unfolding st by (auto simp: mortal_def)
  qed
  then show ?thesis
    using gc_list_GC_NEXT [OF b] by (auto simp: update_refs_def)
qed


section \<open>Subtracting the internal references\<close>

definition internal_refs :: "gcenv \<Rightarrow> addr list \<Rightarrow> addr \<Rightarrow> nat" where
  "internal_refs env ys y = count_list (concat (map (referents env) ys)) y"

definition subtracted :: "addr set \<Rightarrow> (addr \<Rightarrow> nat) \<Rightarrow> gcheap \<Rightarrow> gcheap \<Rightarrow> bool" where
  "subtracted ys f h h' \<longleftrightarrow> gc_next h' = gc_next h \<and> (\<forall>a. a \<notin> ys \<longrightarrow> gc_prev h' a = gc_prev h a) \<and>
     gc_is_collecting h' = gc_is_collecting h \<and> gc_finalized h' = gc_finalized h \<and>
     (\<forall>y\<in>ys. unat (gc_get_refs h y) = unat (gc_get_refs h' y) + f y)"

lemma subtracted_trans:
  "subtracted ys f h1 h2 \<Longrightarrow> subtracted ys g h2 h3 \<Longrightarrow> subtracted ys (\<lambda>y. f y + g y) h1 h3"
  by (auto simp: subtracted_def)

lemma visit_decref_subtracted:
  assumes "\<And>a. is_gc env op \<Longrightarrow> a = AS_GC op \<Longrightarrow> gc_is_collecting h a \<longleftrightarrow> a \<in> ys"
    and "\<And>a. is_gc env op \<Longrightarrow> a = AS_GC op \<Longrightarrow> a \<in> ys \<Longrightarrow> 0 < unat (gc_get_refs h a)"
  shows "subtracted ys (\<lambda>y. if is_gc env op \<and> AS_GC op = y then 1 else 0) h (visit_decref env op h)"
proof (cases "is_gc env op \<and> AS_GC op \<in> ys")
  case True
  let ?g = "AS_GC op"
  have c: "gc_is_collecting h ?g" and nz: "gc_get_refs h ?g \<noteq> 0"
    using assms True by (auto simp: unat_gt_0)
  have "(1 :: 64 word) \<le> gc_get_refs h ?g" using nz by (simp add: word_le_nat_alt unat_gt_0 Suc_le_eq)
  then have "unat (gc_get_refs h ?g - 1) = unat (gc_get_refs h ?g) - 1" using unat_sub by fastforce
  moreover have "0 < unat (gc_get_refs h ?g)" using nz by (simp add: unat_gt_0)
  moreover have "gc_prev (gc_decref h ?g) a = gc_prev h a" if "a \<notin> ys" for a
    using that True by (intro gc_ops_prev_other) auto
  ultimately show ?thesis
    using True c nz by (auto simp: subtracted_def visit_decref_def Let_def)
next
  case False
  then have "visit_decref env op h = h" using assms by (auto simp: visit_decref_def Let_def)
  then show ?thesis using False by (auto simp: subtracted_def)
qed

lemma fold_visit_decref:
  assumes "\<And>a. a \<in> set (map AS_GC (filter (is_gc env) ops)) \<Longrightarrow> gc_is_collecting h a \<longleftrightarrow> a \<in> ys"
    and "\<And>y. y \<in> ys \<Longrightarrow>
      count_list (map AS_GC (filter (is_gc env) ops)) y \<le> unat (gc_get_refs h y)"
  shows "subtracted ys (count_list (map AS_GC (filter (is_gc env) ops))) h (fold (visit_decref env) ops h)"
  using assms
proof (induction ops arbitrary: h)
  case (Cons op ops)
  let ?n = "\<lambda>y. if is_gc env op \<and> AS_GC op = y then 1 else (0 :: nat)"
  let ?c = "count_list (map AS_GC (filter (is_gc env) ops))"
  let ?h = "visit_decref env op h"
  have c: "count_list (map AS_GC (filter (is_gc env) (op # ops))) = (\<lambda>y. ?n y + ?c y)"
    by (auto simp: fun_eq_iff)
  have le: "?n y + ?c y \<le> unat (gc_get_refs h y)" if "y \<in> ys" for y
    using Cons.prems(2) [OF that] unfolding c .
  have h: "subtracted ys ?n h ?h"
  proof (rule visit_decref_subtracted)
    fix a assume a: "is_gc env op" "a = AS_GC op"
    then show "gc_is_collecting h a \<longleftrightarrow> a \<in> ys" by (intro Cons.prems(1)) simp
    show "0 < unat (gc_get_refs h a)" if "a \<in> ys" using le [OF that] a by simp
  qed
  have "subtracted ys ?c ?h (fold (visit_decref env) ops ?h)"
  proof (rule Cons.IH)
    fix a assume "a \<in> set (map AS_GC (filter (is_gc env) ops))"
    then have "gc_is_collecting h a \<longleftrightarrow> a \<in> ys" by (intro Cons.prems(1)) auto
    then show "gc_is_collecting ?h a \<longleftrightarrow> a \<in> ys" using h by (simp add: subtracted_def)
  next
    fix y assume y: "y \<in> ys"
    show "?c y \<le> unat (gc_get_refs ?h y)" using le [OF y] h y by (simp add: subtracted_def)
  qed
  from subtracted_trans [OF h this] show ?case unfolding c by simp
qed (simp add: subtracted_def)

lemma gc_seg_subtracted:
  assumes "gc_seg h base ys []" "subtracted (set ys) f h h'"
  shows "gc_seg h' base ys []"
  using assms by (auto simp: gc_seg_def subtracted_def GC_PREV_def)

lemma gc_seg_next:
  assumes "gc_seg h l (as @ b # bs) []"
  shows "GC_NEXT h b = hd (bs @ [l])"
proof -
  have "links (gc_next h) ((l # as) @ b # (bs @ [l]))" using assms by (simp add: gc_seg_def)
  from links_at [OF this] show ?thesis by (simp add: GC_NEXT_def)
qed

lemma gc_seg_first: "gc_seg h l as bs \<Longrightarrow> GC_NEXT h l = hd (as @ bs @ [l])"
  using links_at [of "gc_next h" "[]" l "as @ bs @ [l]"] by (simp add: gc_seg_def GC_NEXT_def)

theorem subtract_refs_subtracts:
  assumes s: "gc_seg h base ys []"
    and coll: "\<And>y a. y \<in> set ys \<Longrightarrow> a \<in> set (referents env y) \<Longrightarrow> gc_is_collecting h a \<longleftrightarrow> a \<in> set ys"
    and le: "\<And>y. y \<in> set ys \<Longrightarrow> internal_refs env ys y \<le> unat (gc_get_refs h y)"
  shows "\<exists>h'. subtract_refs env h base = Some h' \<and> subtracted (set ys) (internal_refs env ys) h h'"
proof -
  let ?Q = "\<lambda>as bs h'. ys = as @ bs \<and> subtracted (set ys) (internal_refs env as) h h'"
  let ?body = "\<lambda>gc h. let h = fold (visit_decref env) (tp_traverse env (FROM_GC gc)) h in (GC_NEXT h gc, h)"
  have d: "base \<notin> set ys" using s by (simp add: gc_seg_def)
  have "\<exists>h'. gc_while base ?body (hd (ys @ [base])) h = Some h' \<and> ?Q ([] @ ys) [] h'"
  proof (rule gc_while_walk [OF d])
    show "?Q [] ys h" by (simp add: internal_refs_def subtracted_def)
    fix as b bs h1 assume Q: "?Q as (b # bs) h1"
    let ?h = "fold (visit_decref env) (tp_traverse env (FROM_GC b)) h1"
    have sum: "internal_refs env (as @ [b]) = (\<lambda>y. internal_refs env as y + count_list (referents env b) y)"
      by (simp add: internal_refs_def fun_eq_iff)
    have "subtracted (set ys) (count_list (referents env b)) h1 ?h"
      unfolding referents_def
    proof (rule fold_visit_decref, goal_cases)
      case (1 a)
      then have "gc_is_collecting h a \<longleftrightarrow> a \<in> set ys" using Q by (intro coll [of b]) (auto simp: referents_def)
      then show ?case using Q by (simp add: subtracted_def)
    next
      case (2 y)
      have "internal_refs env as y + count_list (referents env b) y \<le> internal_refs env ys y"
        using Q by (simp add: internal_refs_def)
      moreover have "unat (gc_get_refs h y) = unat (gc_get_refs h1 y) + internal_refs env as y"
        using Q 2 by (simp add: subtracted_def)
      ultimately show ?case using le [OF 2] by (simp add: referents_def)
    qed
    with Q have *: "subtracted (set ys) (internal_refs env (as @ [b])) h ?h"
      unfolding sum by (blast intro: subtracted_trans)
    have "GC_NEXT ?h b = hd (bs @ [base])"
      using gc_seg_subtracted [OF s *] Q by (intro gc_seg_next [of _ _ as]) simp
    then show "\<exists>st'. ?body b h1 = (hd (bs @ [base]), st') \<and> ?Q (as @ [b]) bs st'"
      using * Q by (simp add: Let_def)
  qed
  then show ?thesis using gc_seg_first [OF s] by (auto simp: subtract_refs_def)
qed

end
