(* ===== verification/GC_Move.thy ===== *)
theory GC_Move
  imports GC_Subtract
begin

text \<open>
  The representation of the two lists while \<open>move_unreachable\<close> runs: the young list, whose processed part is doubly
  linked again and whose rest still holds counts in \<open>_gc_prev\<close>, and the list of tentatively unreachable
  objects, whose \<open>_gc_next\<close> words carry a flag. One lemma for each change of the links, and the effect of
  \<open>visit_reachable\<close> on all referents of an object.
\<close>

section \<open>The two lists of \<open>move_unreachable\<close>\<close>

definition uview :: "gcheap \<Rightarrow> addr \<Rightarrow> addr" where
  "uview h a = gc_next h a AND NOT NEXT_MASK_UNREACHABLE"

definition flagged :: "gcheap \<Rightarrow> addr \<Rightarrow> bool" where
  "flagged h a \<longleftrightarrow> gc_next h a AND NEXT_MASK_UNREACHABLE \<noteq> 0"

definition mu_young :: "gcheap \<Rightarrow> addr \<Rightarrow> addr list \<Rightarrow> addr list \<Rightarrow> bool" where
  "mu_young h young D T \<longleftrightarrow> links (gc_next h) (young # D @ T @ [young]) \<and>
     links (GC_PREV h) (rev (young # D)) \<and> (T \<noteq> [] \<longrightarrow> gc_prev h young = last T) \<and>
     (\<forall>d\<in>set D. \<not> gc_is_collecting h d) \<and> (\<forall>t\<in>set T. gc_is_collecting h t)"

definition mu_unr :: "gcheap \<Rightarrow> addr \<Rightarrow> addr list \<Rightarrow> bool" where
  "mu_unr h unr U \<longleftrightarrow> links (uview h) (unr # U @ [unr]) \<and>
     links (GC_PREV h) (unr # rev U @ [unr]) \<and> aligned (gc_prev h unr) \<and>
     (\<forall>u\<in>set U. gc_is_collecting h u \<and> flagged h u)"

definition mu_rep :: "gcheap \<Rightarrow> addr \<Rightarrow> addr \<Rightarrow> addr list \<Rightarrow> addr list \<Rightarrow> addr list \<Rightarrow> bool" where
  "mu_rep h young unr D T U \<longleftrightarrow> distinct (young # unr # D @ T @ U) \<and>
     (\<forall>a\<in>set (young # unr # D @ T @ U). aligned a) \<and>
     mu_young h young D T \<and> mu_unr h unr U"

lemma uview_put_next [simp]:
  "uview (put_next h a w) = (uview h)(a := w AND NOT NEXT_MASK_UNREACHABLE)"
  "uview (SET_NEXT h a w) = (uview h)(a := w AND NOT NEXT_MASK_UNREACHABLE)"
  by (auto simp: uview_def fun_eq_iff)

lemma uview_prev [simp]:
  "uview (put_prev h a w) = uview h" "uview (SET_PREV h a w) = uview h"
  "uview (gc_set_refs h a w) = uview h" "uview (gc_clear_collecting h a) = uview h"
  by (auto simp: uview_def fun_eq_iff)

lemma flagged_put_next [simp]:
  "flagged (put_next h a w) = (flagged h)(a := (w AND NEXT_MASK_UNREACHABLE \<noteq> 0))"
  "flagged (SET_NEXT h a w) = (flagged h)(a := (w AND NEXT_MASK_UNREACHABLE \<noteq> 0))"
  by (auto simp: flagged_def fun_eq_iff)

lemma flagged_prev [simp]:
  "flagged (put_prev h a w) = flagged h" "flagged (SET_PREV h a w) = flagged h"
  "flagged (gc_set_refs h a w) = flagged h" "flagged (gc_clear_collecting h a) = flagged h"
  by (auto simp: flagged_def fun_eq_iff)

lemma NEXT_MASK_UNREACHABLE_neq [simp]: "NEXT_MASK_UNREACHABLE \<noteq> 0"
  by (simp add: NEXT_MASK_UNREACHABLE_def)

lemma aligned_next_mask:
  assumes "aligned p"
  shows "p AND NEXT_MASK_UNREACHABLE = 0" "p AND NOT NEXT_MASK_UNREACHABLE = p"
    "(NEXT_MASK_UNREACHABLE OR p) AND NEXT_MASK_UNREACHABLE \<noteq> 0"
    "(NEXT_MASK_UNREACHABLE OR p) AND NOT NEXT_MASK_UNREACHABLE = p"
    "w AND NOT NEXT_MASK_UNREACHABLE = p \<Longrightarrow> w AND PREV_MASK = p"
proof -
  have b: "\<not> bit p (Suc 0)" "\<not> bit p 0" using aligned_mask [OF assms] by auto
  show "p AND NEXT_MASK_UNREACHABLE = 0" using b and_mask_iff(2) [of p] by auto
  show n2: "p AND NOT NEXT_MASK_UNREACHABLE = p" 
    "(NEXT_MASK_UNREACHABLE OR p) AND NOT NEXT_MASK_UNREACHABLE = p"
    using b by (auto simp: word64_eq_iff gc_bits dest: bit_imp_le_length)
  show "(NEXT_MASK_UNREACHABLE OR p) AND NEXT_MASK_UNREACHABLE \<noteq> 0"
    unfolding and_mask_iff by (simp add: gc_bits)
  assume w: "w AND NOT NEXT_MASK_UNREACHABLE = p"
  show "w AND PREV_MASK = p"
  proof (rule bit_eqI)
    fix n
    have "bit p n \<longleftrightarrow> bit w n \<and> n \<noteq> 1 \<and> n < 64"
      unfolding w [symmetric] by (auto simp: gc_bits)
    moreover have "n = 0 \<or> n = 1 \<or> 2 \<le> n" by linarith
    ultimately show "bit (w AND PREV_MASK) n \<longleftrightarrow> bit p n"
      using b(2) unfolding bit_and_iff bit_masks by auto
  qed
qed

lemma mu_rep_mark:
  assumes "mu_rep h young unr D T U" "x \<in> set T" "unat r < 2 ^ 62"
  shows "mu_rep (gc_set_refs h x r) young unr D T U"
proof -
  have x: "x \<noteq> young" "x \<noteq> unr" "x \<notin> set D" "x \<notin> set U" using assms by (auto simp: mu_rep_def)
  have p: "GC_PREV (gc_set_refs h x r) a = GC_PREV h a" if "a \<in> set (young # unr # D @ U)" for a
    using that x by (intro gc_obs_cong gc_ops_prev_other) auto
  have "links (GC_PREV (gc_set_refs h x r)) (rev (young # D)) = links (GC_PREV h) (rev (young # D))"
    using x p by (intro links_cong) (auto simp: butlast_append)
  moreover have "links (GC_PREV (gc_set_refs h x r)) (unr # rev U @ [unr]) =
      links (GC_PREV h) (unr # rev U @ [unr])"
    using x p by (intro links_cong) (auto simp: butlast_append)
  ultimately show ?thesis
    using assms x by (simp add: mu_rep_def mu_young_def mu_unr_def)
qed

lemma mu_rep_requeue:
  assumes rep: "mu_rep h young unr D T (U1 @ x # U2)" and T: "T \<noteq> []"
    and h': "h' = (let prev = GC_PREV h x;
                 nxt = gc_next h x AND NOT NEXT_MASK_UNREACHABLE;
                 h = put_next h prev (gc_next h x);
                 h = put_next h x (gc_next h x AND NOT NEXT_MASK_UNREACHABLE);
                 h = SET_PREV h nxt prev;
                 h = gc_list_append h x young
             in gc_set_refs h x 1)"
  shows "mu_rep h' young unr D (T @ [x]) (U1 @ U2)"
proof -
  let ?p = "last (unr # U1)" and ?n = "hd (U2 @ [unr])" and ?t = "last T"
  have lu: "links (uview h) ((unr # U1) @ x # (U2 @ [unr]))"
    and lp: "links (GC_PREV h) ((unr # rev U2) @ x # (rev U1 @ [unr]))"
    and d: "distinct (young # unr # D @ T @ U1 @ x # U2)"
    and al: "\<And>a. a \<in> set (young # unr # D @ T @ U1 @ x # U2) \<Longrightarrow> aligned a"
    using rep by (auto simp: mu_rep_def mu_unr_def)
  have hd1: "hd (rev U1 @ [unr]) = ?p" by (cases U1 rule: rev_cases) auto
  have hd2: "last (unr # rev U2) = ?n" by (cases U2) auto
  have x: "GC_PREV h x = ?p" "uview h x = ?n"
    using links_at [OF lu] links_at [OF lp] hd1 by auto
  have mem: "?p \<in> set (unr # U1)" "?n \<in> set (unr # U2)" "?t \<in> set T"
    using T by (auto intro: last_in_set, cases U2) auto
  have ap: "aligned ?p" "aligned ?n" "aligned ?t" "aligned x" using mem al by auto
  have ne: "?p \<noteq> x" "?p \<noteq> ?t" "?n \<noteq> x" "?n \<noteq> young" "?p \<noteq> young" "?t \<noteq> x" "x \<noteq> young" "?t \<noteq> young" "x \<noteq> unr" "?t \<noteq> unr"
    using mem d by auto
  have yt: "gc_prev h young = ?t" using rep T by (simp add: mu_rep_def mu_young_def)
  define h1 where "h1 = SET_PREV (put_next (put_next h ?p (gc_next h x)) x (gc_next h x AND NOT NEXT_MASK_UNREACHABLE)) ?n ?p"
  have h'1: "h' = gc_set_refs (gc_list_append h1 x young) x 1"
    unfolding h' h1_def using x ne by (simp add: Let_def uview_def)
  have nx: "gc_next h' = (gc_next h)(?p := gc_next h x, x := ?n, ?t := x, x := young)"
    unfolding h'1 h1_def gc_list_append_def using x ne yt ap by (simp add: Let_def uview_def)
  have ay: "aligned (gc_prev h1 young)"
    unfolding h1_def using yt ap ne by (simp add: gc_ops_prev_other)
  have gp: "GC_PREV h' a = ((GC_PREV h)(?n := ?p, young := x)) a" if "a \<noteq> x" for a
  proof -
    have "GC_PREV h' a = GC_PREV (gc_list_append h1 x young) a"
      unfolding h'1 using that by (intro gc_obs_cong) simp
    also have "\<dots> = ((GC_PREV h1)(young := x)) a"
      using ay ap that by (simp add: gc_list_append_def Let_def)
    finally show ?thesis using ap by (simp add: h1_def)
  qed
  have co: "gc_is_collecting h' = (gc_is_collecting h)(young := False)"
    unfolding h'1 using ay ap by (simp add: gc_list_append_def Let_def h1_def)
  have yg: "gc_prev h' young = x" unfolding h'1 using ne by (simp add: gc_list_append_def Let_def)
  have au: "aligned (gc_prev h' unr)"
  proof -
    have "unr \<noteq> young" "unr \<noteq> x" using d by auto
    then have "gc_prev h' unr = gc_prev h1 unr"
      unfolding h'1 by (simp add: gc_list_append_def Let_def)
    moreover have "aligned (gc_prev h1 unr)"
      unfolding h1_def using rep ap ne by (cases "?n = unr") (simp_all add: mu_rep_def mu_unr_def)
    ultimately show ?thesis by simp
  qed
  have uv: "uview h' a = ((uview h)(?p := ?n)) a" if "a \<in> set (unr # U1 @ U2)" for a
    using that d mem x(2) ne by (auto simp: uview_def nx)
  have "mu_young h' young D (T @ [x])"
  proof -
    have t: "young # D @ T @ ws = (young # D @ butlast T) @ ?t # ws" for ws
      using T by (cases T rule: rev_cases) auto
    have "links (gc_next h) ((young # D @ butlast T) @ ?t # [young])"
      unfolding t [symmetric] using rep by (simp add: mu_rep_def mu_young_def)
    then have "links (gc_next h) ((young # D @ butlast T) @ [?t])"
      using links_append [of _ _ ?t "[young]"] by blast
    moreover have "links (gc_next h') ((young # D @ butlast T) @ [?t]) = links (gc_next h) ((young # D @ butlast T) @ [?t])"
    proof (rule links_cong)
      fix a assume "a \<in> set (butlast ((young # D @ butlast T) @ [?t]))"
      then have a: "a \<in> set (young # D @ butlast T)" by (simp only: butlast_snoc)
      moreover have "?t \<notin> set (young # D @ butlast T)"
        using d T by (cases T rule: rev_cases) auto
      ultimately have "a \<noteq> ?t" by blast
      moreover have "a \<noteq> x" "a \<noteq> ?p" using a d mem by (auto dest: in_set_butlastD)
      ultimately show "gc_next h' a = gc_next h a" by (simp add: nx)
    qed
    moreover have "gc_next h' ?t = x" "gc_next h' x = young" using ne by (simp_all add: nx)
    ultimately have "links (gc_next h') ((young # D @ butlast T) @ ?t # [x, young])"
      by (subst links_append) simp
    then have "links (gc_next h') (young # D @ (T @ [x]) @ [young])"
      unfolding t [symmetric] by simp
    moreover have "GC_PREV h' a = GC_PREV h a" if "a \<in> set D" for a
      using that d mem by (subst gp) auto
    then have "links (GC_PREV h') (rev (young # D)) = links (GC_PREV h) (rev (young # D))"
      by (intro links_cong) (auto simp: butlast_append)
    ultimately show ?thesis
      using rep yg d by (auto simp: mu_rep_def mu_young_def mu_unr_def co)
  qed
  moreover have "mu_unr h' unr (U1 @ U2)"
  proof -
    have "links ((uview h)(?p := ?n)) ((unr # U1) @ U2 @ [unr])"
      using d mem by (intro links_remove [OF lu]) auto
    moreover have "links (uview h') ((unr # U1) @ U2 @ [unr]) =
        links ((uview h)(?p := ?n)) ((unr # U1) @ U2 @ [unr])"
      using uv by (intro links_cong) (auto simp: butlast_append)
    moreover have "links ((GC_PREV h)(last (unr # rev U2) := hd (rev U1 @ [unr]))) ((unr # rev U2) @ rev U1 @ [unr])"
      using d mem(2) hd2 by (intro links_remove [OF lp]) auto
    then have "links ((GC_PREV h)(?n := ?p)) (unr # rev (U1 @ U2) @ [unr])" unfolding hd1 hd2 by simp
    moreover have "links (GC_PREV h') (unr # rev (U1 @ U2) @ [unr]) =
        links ((GC_PREV h)(?n := ?p)) (unr # rev (U1 @ U2) @ [unr])"
    proof (rule links_cong)
      fix a assume "a \<in> set (butlast (unr # rev (U1 @ U2) @ [unr]))"
      then have "a \<noteq> x" "a \<noteq> young" using d by (auto simp: butlast_append)
      then show "GC_PREV h' a = ((GC_PREV h)(?n := ?p)) a" by (subst gp) auto
    qed
    moreover have "gc_is_collecting h' u \<and> flagged h' u" if "u \<in> set (U1 @ U2)" for u
    proof -
      have "u \<noteq> young" "u \<noteq> ?t" "u \<noteq> x" using that d mem by auto
      moreover have "gc_is_collecting h u" "flagged h u" "flagged h x"
        using that rep by (auto simp: mu_rep_def mu_unr_def)
      ultimately show ?thesis by (simp add: co flagged_def nx)
    qed
    ultimately show ?thesis using au by (simp add: mu_unr_def)
  qed
  ultimately show ?thesis using d al by (auto simp: mu_rep_def)
qed


lemma mu_rep_done:
  assumes rep: "mu_rep h young unr D (g # T) U"
    and h': "h' = gc_clear_collecting (SET_PREV h g (last (young # D))) g"
  shows "mu_rep h' young unr (D @ [g]) T U"
proof -
  let ?p = "last (young # D)"
  have d: "distinct (young # unr # D @ g # T @ U)"
    and al: "\<And>a. a \<in> set (young # unr # D @ g # T @ U) \<Longrightarrow> aligned a"
    using rep by (auto simp: mu_rep_def)
  have p: "?p \<in> set (young # D)" by (rule last_in_set) simp
  then have ap: "aligned ?p" using al by auto
  have gp: "GC_PREV h' = (GC_PREV h)(g := ?p)" and co: "gc_is_collecting h' = (gc_is_collecting h)(g := False)"
    and nx: "gc_next h' = gc_next h" and uv: "uview h' = uview h" and fl: "flagged h' = flagged h"
    unfolding h' using ap by simp_all
  have pv: "gc_prev h' young = gc_prev h young" "gc_prev h' unr = gc_prev h unr"
    unfolding h' using d by (simp_all add: gc_ops_prev_other)
  have "?p = hd (rev D @ [young])" by (cases D rule: rev_cases) auto
  moreover have "links ((GC_PREV h)(g := ?p)) (rev D @ [young])"
    using rep d by (simp add: mu_rep_def mu_young_def butlast_append)
  ultimately have "links (GC_PREV h') (rev (young # D @ [g]))"
    unfolding gp by (cases "rev D @ [young]") auto
  then have "mu_young h' young (D @ [g]) T"
    using rep d by (auto simp: mu_rep_def mu_young_def co nx pv)
  moreover have "mu_unr h' unr U"
    using rep d by (auto simp: mu_rep_def mu_unr_def gp co uv fl pv butlast_append)
  ultimately show ?thesis using d al by (auto simp: mu_rep_def)
qed

lemma mu_rep_unlink:
  assumes rep: "mu_rep h young unr D (g # T) U"
    and h': "h' = (let prev = last (young # D);
                       h = put_next h prev (gc_next h g);
                       last = GC_PREV h unr;
                       h = put_next h last (NEXT_MASK_UNREACHABLE OR g);
                       h = SET_PREV h g last;
                       h = put_next h g (NEXT_MASK_UNREACHABLE OR unr)
                   in put_prev h unr g)"
  shows "mu_rep h' young unr D T (U @ [g])"
proof -
  let ?p = "last (young # D)" and ?l = "last (unr # U)"
  have d: "distinct (young # unr # D @ g # T @ U)"
    and al: "\<And>a. a \<in> set (young # unr # D @ g # T @ U) \<Longrightarrow> aligned a"
    using rep by (auto simp: mu_rep_def)
  have mem: "?p \<in> set (young # D)" "?l \<in> set (unr # U)" by (rule last_in_set; simp)+
  then have ap: "aligned ?l" "aligned g" "aligned unr" using al by auto
  have ne: "?p \<noteq> g" "?l \<noteq> g" "?p \<noteq> ?l" using mem d by auto
  have ln: "links (gc_next h) ((young # D) @ g # (T @ [young]))"
    and lu: "links (uview h) ((unr # U) @ [unr])"
    and lp: "links (GC_PREV h) ((unr # rev U) @ [unr])"
    using rep by (auto simp: mu_rep_def mu_young_def mu_unr_def)
  have lh: "GC_PREV h unr = hd (rev U @ [unr])"
    using links_at [of "GC_PREV h" "[]" unr "rev U @ [unr]"] lp by simp
  also have "\<dots> = ?l" by (cases U rule: rev_cases) auto
  finally have l: "GC_PREV h unr = ?l" .
  have gn: "gc_next h g = hd (T @ [young])" using links_at [OF ln] by simp
  have nx: "gc_next h' = (gc_next h)(?p := hd (T @ [young]), ?l := NEXT_MASK_UNREACHABLE OR g,
      g := NEXT_MASK_UNREACHABLE OR unr)"
    and gp: "GC_PREV h' = (GC_PREV h)(g := ?l, unr := g)"
    and co: "gc_is_collecting h' = (gc_is_collecting h)(unr := False)"
    and pv: "gc_prev h' unr = g"
    unfolding h' Let_def using ap by (simp_all add: l gn)
  have py: "gc_prev h' young = gc_prev h young"
    unfolding h' Let_def using d by (simp add: gc_ops_prev_other)
  have "links ((gc_next h)(?p := hd (T @ [young]))) ((young # D) @ T @ [young])"
    using d mem by (intro links_remove [OF ln]) auto
  moreover have "links (gc_next h') ((young # D) @ T @ [young]) =
      links ((gc_next h)(?p := hd (T @ [young]))) ((young # D) @ T @ [young])"
  proof (rule links_cong)
    fix a assume "a \<in> set (butlast ((young # D) @ T @ [young]))"
    then have "a \<noteq> g" "a \<noteq> ?l" using d mem by (auto simp: butlast_append)
    then show "gc_next h' a = ((gc_next h)(?p := hd (T @ [young]))) a" by (simp add: nx)
  qed
  moreover have "links (GC_PREV h') (rev (young # D)) = links (GC_PREV h) (rev (young # D))"
    unfolding gp using d by (intro links_cong) (auto simp: butlast_append)
  ultimately have "mu_young h' young D T"
    using rep d py by (auto simp: mu_rep_def mu_young_def co)
  moreover have "mu_unr h' unr (U @ [g])"
  proof -
    have v: "uview h' a = (if a = ?l then g else if a = g then unr else uview h a)"
      if "a \<in> set (unr # U @ [g])" for a
      using that d mem ne ap by (auto simp: uview_def nx aligned_next_mask)
    have lb: "links (uview h) (butlast (unr # U) @ [?l])" using lu links_append [of "uview h" "butlast (unr # U)" ?l "[unr]"]
      by (metis append_butlast_last_id append_Cons append_Nil append_assoc list.distinct(1))
    moreover have "links (uview h') (butlast (unr # U) @ [?l]) = links (uview h) (butlast (unr # U) @ [?l])"
    proof (rule links_cong)
      fix a assume "a \<in> set (butlast (butlast (unr # U) @ [?l]))"
      then have a: "a \<in> set (butlast (unr # U))" by (simp only: butlast_snoc)
      moreover have "?l \<notin> set (butlast (unr # U))" using d by (cases U rule: rev_cases) (auto simp: butlast_append)
      ultimately have "a \<noteq> ?l" by blast
      moreover have "a \<in> set (unr # U)" using a by (rule in_set_butlastD)
      moreover have "a \<noteq> g" using \<open>a \<in> set (unr # U)\<close> d by auto
      ultimately show "uview h' a = uview h a" by (subst v) auto
    qed
    moreover have "uview h' ?l = g" "uview h' g = unr" using mem ne by (subst v; simp)+
    ultimately have "links (uview h') (butlast (unr # U) @ ?l # [g, unr])" by (subst links_append) simp
    then have "links (uview h') (unr # (U @ [g]) @ [unr])"
      by (cases U rule: rev_cases) (simp_all add: butlast_append)
    moreover have "links (GC_PREV h') (unr # rev (U @ [g]) @ [unr])"
    proof -
      have "links (GC_PREV h') (rev U @ [unr]) = links (GC_PREV h) (rev U @ [unr])"
        unfolding gp using d by (intro links_cong) (auto simp: butlast_append)
      moreover have "links (GC_PREV h) (rev U @ [unr])" using lp by (cases "rev U") auto
      moreover have "GC_PREV h' g = hd (rev U @ [unr])" "GC_PREV h' unr = g"
        using d l lh by (auto simp: gp)
      ultimately show ?thesis by (cases "rev U @ [unr]") simp_all
    qed
    moreover have "gc_is_collecting h' u \<and> flagged h' u" if "u \<in> set (U @ [g])" for u
    proof -
      have u: "u \<noteq> unr" "u \<noteq> ?p" using that d mem by auto
      have "gc_is_collecting h u" "u \<noteq> g \<longrightarrow> flagged h u"
        using that rep by (auto simp: mu_rep_def mu_unr_def mu_young_def)
      then show ?thesis
        using u ap by (cases "u = g"; cases "u = ?l") (simp_all add: co flagged_def nx aligned_next_mask)
    qed
    ultimately show ?thesis using pv ap by (simp add: mu_unr_def)
  qed
  ultimately show ?thesis using d al by (auto simp: mu_rep_def)
qed


lemma mu_requeue_obs:
  assumes rep: "mu_rep h young unr D T (U1 @ x # U2)" and T: "T \<noteq> []"
    and h': "h' = (let prev = GC_PREV h x;
                 nxt = gc_next h x AND NOT NEXT_MASK_UNREACHABLE;
                 h = put_next h prev (gc_next h x);
                 h = put_next h x (gc_next h x AND NOT NEXT_MASK_UNREACHABLE);
                 h = SET_PREV h nxt prev;
                 h = gc_list_append h x young
             in gc_set_refs h x 1)"
  shows "gc_get_refs h' x = 1"
    and "a \<noteq> young \<Longrightarrow> gc_is_collecting h' a = gc_is_collecting h a \<and> gc_finalized h' a = gc_finalized h a"
    and "a \<notin> set (young # unr # U1 @ x # U2) \<Longrightarrow> gc_prev h' a = gc_prev h a"
    and "a \<notin> set (young # unr # T @ U1 @ x # U2) \<Longrightarrow> gc_next h' a = gc_next h a"
proof -
  let ?p = "last (unr # U1)" and ?n = "hd (U2 @ [unr])" and ?t = "last T"
  have lu: "links (uview h) ((unr # U1) @ x # (U2 @ [unr]))"
    and lp: "links (GC_PREV h) ((unr # rev U2) @ x # (rev U1 @ [unr]))"
    and al: "\<And>a. a \<in> set (young # unr # D @ T @ U1 @ x # U2) \<Longrightarrow> aligned a"
    using rep by (auto simp: mu_rep_def mu_unr_def)
  have "hd (rev U1 @ [unr]) = ?p" by (cases U1 rule: rev_cases) auto
  then have x: "GC_PREV h x = ?p" "gc_next h x AND NOT NEXT_MASK_UNREACHABLE = ?n"
    using links_at [OF lu] links_at [OF lp] by (auto simp: uview_def)
  have mem: "?p \<in> set (unr # U1)" "?n \<in> set (unr # U2)" "?t \<in> set T"
    using T by (auto intro: last_in_set, cases U2) auto
  have yt: "gc_prev h young = ?t" using rep T by (simp add: mu_rep_def mu_young_def)
  have yn: "?n \<noteq> young" using mem rep by (auto simp: mu_rep_def)
  have ap: "aligned ?p" "aligned ?n" "aligned ?t" "aligned x" using mem al by auto
  define h1 where "h1 = put_next (put_next h ?p (gc_next h x)) x
      (gc_next (put_next h ?p (gc_next h x)) x AND NOT NEXT_MASK_UNREACHABLE)"
  have h'1: "h' = gc_set_refs (gc_list_append (SET_PREV h1 ?n ?p) x young) x 1"
    unfolding h' h1_def Let_def x by simp
  have h1: "gc_prev h1 = gc_prev h" "gc_is_collecting h1 = gc_is_collecting h"
    "gc_finalized h1 = gc_finalized h" by (simp_all add: h1_def)
  show "gc_get_refs h' x = 1" unfolding h'1 by simp
  have yp: "gc_prev (SET_PREV h1 ?n ?p) young = ?t" using yn yt h1 by simp
  show "a \<noteq> young \<Longrightarrow> gc_is_collecting h' a = gc_is_collecting h a \<and> gc_finalized h' a = gc_finalized h a"
    unfolding h'1 gc_list_append_def Let_def yp using ap by (simp add: h1)
  show "a \<notin> set (young # unr # U1 @ x # U2) \<Longrightarrow> gc_prev h' a = gc_prev h a"
  proof -
    assume a: "a \<notin> set (young # unr # U1 @ x # U2)"
    then have "a \<noteq> ?n" using mem by auto
    then show ?thesis using a unfolding h'1 gc_list_append_def Let_def by (simp add: h1)
  qed
  show "a \<notin> set (young # unr # T @ U1 @ x # U2) \<Longrightarrow> gc_next h' a = gc_next h a"
  proof -
    assume a: "a \<notin> set (young # unr # T @ U1 @ x # U2)"
    then have "a \<noteq> ?t" "a \<noteq> ?p" using mem by auto
    then show ?thesis using a unfolding h'1 gc_list_append_def Let_def yp by (simp add: h1_def)
  qed
qed

section \<open>Visiting the referents\<close>

definition marked :: "gcheap \<Rightarrow> addr list \<Rightarrow> addr set" where
  "marked h T = {t \<in> set T. gc_get_refs h t \<noteq> 0}"

definition visited ::
  "addr \<Rightarrow> addr \<Rightarrow> addr list \<Rightarrow> addr list \<Rightarrow> addr list \<Rightarrow> addr set \<Rightarrow> gcheap \<Rightarrow> gcheap \<Rightarrow> addr list \<Rightarrow> addr list \<Rightarrow> bool" where
  "visited young unr D T U X h h' E U' \<longleftrightarrow> mu_rep h' young unr D (T @ E) U' \<and>
     set (T @ E @ U') = set (T @ U) \<and>
     marked h' (T @ E) = marked h T \<union> (X \<inter> set (T @ U)) \<and> set E \<subseteq> marked h' (T @ E) \<and>
     (\<forall>a. a \<noteq> young \<longrightarrow> gc_is_collecting h' a = gc_is_collecting h a \<and> gc_finalized h' a = gc_finalized h a) \<and>
     (\<forall>a. a \<notin> set (young # unr # T @ U) \<longrightarrow> same_at h h' a)"

lemma mu_rep_next_unflagged:
  assumes rep: "mu_rep h young unr D (T1 @ x # T2) U"
  shows "gc_next h x AND NEXT_MASK_UNREACHABLE = 0"
proof -
  have "links (gc_next h) ((young # D @ T1) @ x # (T2 @ [young]))"
    using rep by (simp add: mu_rep_def mu_young_def)
  from links_at [OF this] have "gc_next h x = hd (T2 @ [young])" by simp
  moreover have "aligned (hd (T2 @ [young]))" using rep by (cases T2) (auto simp: mu_rep_def)
  ultimately show ?thesis by (simp add: aligned_next_mask)
qed

lemma visit_reachable_visits:
  assumes rep: "mu_rep h young unr D T U" and T: "T \<noteq> []"
    and coll: "is_gc env op \<Longrightarrow> gc_is_collecting h (AS_GC op) \<longleftrightarrow> AS_GC op \<in> set (T @ U)"
  shows "\<exists>E U'. visited young unr D T U (if is_gc env op then {AS_GC op} else {}) h (visit_reachable env young op h) E U'"
proof -
  let ?x = "AS_GC op" and ?h = "visit_reachable env young op h"
  have d: "distinct (young # unr # D @ T @ U)" using rep by (simp add: mu_rep_def)
  consider "\<not> is_gc env op \<or> ?x \<notin> set (T @ U)" | "is_gc env op" "?x \<in> set T" | "is_gc env op" "?x \<in> set U"
    by auto
  then show ?thesis
  proof cases
    case 1
    then have "?h = h" using coll by (auto simp: visit_reachable_def Let_def)
    then have "visited young unr D T U (if is_gc env op then {?x} else {}) h ?h [] U"
      using rep 1 by (auto simp: visited_def same_at_def)
    then show ?thesis by blast
  next
    case 2
    obtain T1 T2 where "T = T1 @ ?x # T2" using 2 by (meson split_list)
    then have nf: "gc_next h ?x AND NEXT_MASK_UNREACHABLE = 0" using rep mu_rep_next_unflagged by metis
    then have h: "?h = (if gc_get_refs h ?x = 0 then gc_set_refs h ?x 1 else h)"
      using 2 coll by (simp add: visit_reachable_def Let_def)
    have "mu_rep ?h young unr D T U" using mu_rep_mark [OF rep 2(2), of 1] rep by (simp add: h)
    moreover have "marked ?h T = marked h T \<union> {?x}" using 2 by (auto simp: marked_def h)
    moreover have "same_at h ?h a" if "a \<notin> set (young # unr # T @ U)" for a
    proof -
      have "a \<noteq> ?x" using that 2 by auto
      then show ?thesis by (simp add: h same_at_def)
    qed
    ultimately have "visited young unr D T U {?x} h ?h [] U"
      using 2 by (auto simp: visited_def h)
    then show ?thesis using 2 by auto
  next
    case 3
    obtain U1 U2 where U: "U = U1 @ ?x # U2" using 3 by (meson split_list)
    have "flagged h ?x" using rep 3 by (auto simp: mu_rep_def mu_unr_def)
    then have h: "?h = (let prev = GC_PREV h ?x;
                 nxt = gc_next h ?x AND NOT NEXT_MASK_UNREACHABLE;
                 h = put_next h prev (gc_next h ?x);
                 h = put_next h ?x (gc_next h ?x AND NOT NEXT_MASK_UNREACHABLE);
                 h = SET_PREV h nxt prev;
                 h = gc_list_append h ?x young
             in gc_set_refs h ?x 1)"
      using 3 coll by (simp add: visit_reachable_def flagged_def Let_def)
    note rep' = rep [unfolded U]
    note obs = mu_requeue_obs [OF rep' T h]
    have refs: "gc_get_refs ?h t = gc_get_refs h t" if "t \<in> set T" for t
      using that d U by (intro gc_obs_cong(3) obs(3)) auto
    have "mu_rep ?h young unr D (T @ [?x]) (U1 @ U2)" by (rule mu_rep_requeue [OF rep' T h])
    moreover have "marked ?h (T @ [?x]) = marked h T \<union> {?x}"
      using refs obs(1) by (auto simp: marked_def)
    moreover have "same_at h ?h a" if "a \<notin> set (young # unr # T @ U)" for a
      using that U obs(3) [of a] obs(4) [of a] by (auto simp: same_at_def)
    ultimately have "visited young unr D T U {?x} h ?h [?x] (U1 @ U2)"
      using 3 U obs(2) by (auto simp: visited_def)
    then show ?thesis using 3 by auto
  qed
qed

lemma visited_trans:
  assumes "visited young unr D T U X h h1 E U1" "visited young unr D (T @ E) U1 Y h1 h2 E2 U2"
  shows "visited young unr D T U (X \<union> Y) h h2 (E @ E2) U2"
proof -
  note v = assms [unfolded visited_def append_assoc]
  have s: "set (T @ E @ U1) = set (T @ U)" "set (T @ E @ E2 @ U2) = set (T @ E @ U1)"
    and m1: "marked h1 (T @ E) = marked h T \<union> (X \<inter> set (T @ U))" "set E \<subseteq> marked h1 (T @ E)"
    and m2: "marked h2 (T @ E @ E2) = marked h1 (T @ E) \<union> (Y \<inter> set (T @ E @ U1))"
      "set E2 \<subseteq> marked h2 (T @ E @ E2)"
    and same: "\<And>a. a \<notin> set (young # unr # T @ U) \<Longrightarrow> same_at h h1 a"
      "\<And>a. a \<notin> set (young # unr # T @ E @ U1) \<Longrightarrow> same_at h1 h2 a"
    using v by (elim conjE, blast)+
  have "same_at h h2 a" if "a \<notin> set (young # unr # T @ U)" for a
  proof -
    have "a \<notin> set (young # unr # T @ E @ U1)" using that s by auto
    then show ?thesis by (rule same_at_trans [OF same(1) [OF that] same(2)])
  qed
  moreover have m: "marked h2 (T @ E @ E2) = marked h T \<union> (X \<union> Y) \<inter> set (T @ U)"
    "set (E @ E2) \<subseteq> marked h2 (T @ E @ E2)"
    using m1 m2 unfolding s(1) by auto
  moreover have "set (T @ (E @ E2) @ U2) = set (T @ U)" using s by (simp only: append_assoc)
  ultimately show ?thesis using v unfolding visited_def append_assoc by simp
qed

lemma fold_visit_reachable:
  assumes "mu_rep h young unr D T U" "T \<noteq> []"
    and "\<And>a. a \<in> set (map AS_GC (filter (is_gc env) ops)) \<Longrightarrow> gc_is_collecting h a \<longleftrightarrow> a \<in> set (T @ U)"
    and "\<And>a. a \<in> set (map AS_GC (filter (is_gc env) ops)) \<Longrightarrow> a \<noteq> young"
  shows "\<exists>E U'. visited young unr D T U (set (map AS_GC (filter (is_gc env) ops))) h
    (fold (visit_reachable env young) ops h) E U'"
  using assms
proof (induction ops arbitrary: h T U)
  case Nil
  then have "visited young unr D T U {} h h [] U" by (simp add: visited_def same_at_def)
  then show ?case by auto
next
  case (Cons op ops)
  let ?X = "if is_gc env op then {AS_GC op} else {}"
  have "is_gc env op \<Longrightarrow> gc_is_collecting h (AS_GC op) \<longleftrightarrow> AS_GC op \<in> set (T @ U)"
    by (rule Cons.prems(3)) simp
  from visit_reachable_visits [OF Cons.prems(1,2) this] obtain E U1 where
    v: "visited young unr D T U ?X h (visit_reachable env young op h) E U1" by blast
  let ?h = "visit_reachable env young op h"
  have s: "set ((T @ E) @ U1) = set (T @ U)" using v by (simp add: visited_def)
  have "\<exists>E2 U2. visited young unr D (T @ E) U1 (set (map AS_GC (filter (is_gc env) ops))) ?h
      (fold (visit_reachable env young) ops ?h) E2 U2"
  proof (rule Cons.IH)
    show "mu_rep ?h young unr D (T @ E) U1" using v by (simp add: visited_def)
    fix a assume a: "a \<in> set (map AS_GC (filter (is_gc env) ops))"
    then show y: "a \<noteq> young" by (intro Cons.prems(4)) auto
    have "gc_is_collecting h a \<longleftrightarrow> a \<in> set (T @ U)" using a by (intro Cons.prems(3)) auto
    then show "gc_is_collecting ?h a \<longleftrightarrow> a \<in> set ((T @ E) @ U1)"
      using v y unfolding s by (simp add: visited_def)
  qed (use Cons.prems in auto)
  then obtain E2 U2 where "visited young unr D (T @ E) U1 (set (map AS_GC (filter (is_gc env) ops))) ?h
      (fold (visit_reachable env young) ops ?h) E2 U2" by blast
  from visited_trans [OF v this] show ?case by (cases "is_gc env op") auto
qed

end
