(* ===== verification/GC_Split.thy ===== *)
theory GC_Split
  imports GC_Move
begin

text \<open>
  The loop of \<open>move_unreachable\<close>: its invariant relates the two lists to reachability from the roots, its variant shows
  that it ends although objects come back to the young list, and at the end the young list holds exactly the
  objects that are reachable.
\<close>

text \<open>A loop whose invariant carries a variant.\<close>

lemma gc_while_variant:
  assumes "I (n :: nat) gc st"
    and step: "\<And>n gc st. I n gc st \<Longrightarrow> gc \<noteq> l \<Longrightarrow>
      \<exists>n'<n. I n' (fst (body gc st)) (snd (body gc st))"
  shows "\<exists>n st'. gc_while l body gc st = Some st' \<and> I n l st'"
  using assms(1)
proof (induction n arbitrary: gc st rule: less_induct)
  case (less n)
  show ?case
  proof (cases "gc = l")
    case False
    then obtain n' where "n' < n" "I n' (fst (body gc st)) (snd (body gc st))"
      using step less.prems by blast
    from less.IH [OF this] show ?thesis using False by (subst gc_while.simps) simp
  qed (use less.prems in auto)
qed

section \<open>Reachability\<close>

inductive reaches :: "gcenv \<Rightarrow> addr set \<Rightarrow> addr set \<Rightarrow> addr \<Rightarrow> bool" for env Y R where
  root: "y \<in> R \<Longrightarrow> y \<in> Y \<Longrightarrow> reaches env Y R y"
| step: "reaches env Y R x \<Longrightarrow> y \<in> set (referents env x) \<Longrightarrow> y \<in> Y \<Longrightarrow> reaches env Y R y"

lemma reaches_least:
  assumes "reaches env Y R x" "R \<inter> Y \<subseteq> S"
    and "\<And>d y. d \<in> S \<Longrightarrow> y \<in> set (referents env d) \<Longrightarrow> y \<in> Y \<Longrightarrow> y \<in> S"
  shows "x \<in> S"
  using assms(1) by induction (use assms(2,3) in auto)

definition mu_inv ::
  "gcenv \<Rightarrow> gcheap \<Rightarrow> addr \<Rightarrow> addr \<Rightarrow> addr set \<Rightarrow> addr set \<Rightarrow> addr list \<Rightarrow> addr list \<Rightarrow> addr list \<Rightarrow> gcheap \<Rightarrow> bool" where
  "mu_inv env h0 young unr Y R D T U h \<longleftrightarrow> mu_rep h young unr D T U \<and>
     set (D @ T @ U) = Y \<and>
     (\<forall>d\<in>set D \<union> marked h T. reaches env Y R d) \<and> R \<subseteq> set D \<union> marked h T \<and>
     (\<forall>d\<in>set D. set (referents env d) \<inter> Y \<subseteq> set D \<union> marked h T) \<and>
     (\<forall>a. a \<notin> Y \<longrightarrow> a \<noteq> young \<longrightarrow> a \<noteq> unr \<longrightarrow> same_at h0 h a) \<and>
     (\<forall>a\<in>Y. gc_finalized h a = gc_finalized h0 a)"

definition mu_size :: "gcheap \<Rightarrow> addr list \<Rightarrow> addr list \<Rightarrow> nat" where
  "mu_size h T U = length T + length U + card (set T - marked h T)"

lemma marked_cong: "(\<And>t. t \<in> set T \<Longrightarrow> gc_prev h' t = gc_prev h t) \<Longrightarrow> marked h' T = marked h T"
  using gc_obs_cong(3) [of h' _ h] by (auto simp: marked_def)

lemma same_marked: "set T' = set T \<Longrightarrow> marked h T' = marked h T"
  by (auto simp: marked_def)

lemma mu_inv_unlink:
  assumes I: "mu_inv env h0 young unr Y R D (g # T) U h" and g: "gc_get_refs h g = 0"
    and h': "h' = (let prev = last (young # D);
                       h = put_next h prev (gc_next h g);
                       last = GC_PREV h unr;
                       h = put_next h last (NEXT_MASK_UNREACHABLE OR g);
                       h = SET_PREV h g last;
                       h = put_next h g (NEXT_MASK_UNREACHABLE OR unr)
                   in put_prev h unr g)"
  shows "mu_inv env h0 young unr Y R D T (U @ [g]) h'" "mu_size h' T (U @ [g]) < mu_size h (g # T) U"
proof -
  have rep: "mu_rep h young unr D (g # T) U" using I by (simp add: mu_inv_def)
  let ?p = "last (young # D)" and ?l = "last (unr # U)"
  have d: "distinct (young # unr # D @ g # T @ U)"
    and al: "\<And>a. a \<in> set (young # unr # D @ g # T @ U) \<Longrightarrow> aligned a"
    using rep by (auto simp: mu_rep_def)
  have mem: "?p \<in> set (young # D)" "?l \<in> set (unr # U)" by (rule last_in_set; simp)+
  then have ap: "aligned ?l" "aligned g" using al by auto
  have "GC_PREV h unr = hd (rev U @ [unr])"
    using links_at [of "GC_PREV h" "[]" unr "rev U @ [unr]"] rep by (simp add: mu_rep_def mu_unr_def)
  also have "\<dots> = ?l" by (cases U rule: rev_cases) auto
  finally have l: "GC_PREV h unr = ?l" .
  have pv: "gc_prev h' a = gc_prev h a" if "a \<noteq> g" "a \<noteq> unr" for a
    unfolding h' Let_def using that by simp
  have nx: "gc_next h' a = gc_next h a" if "a \<noteq> ?p" "a \<noteq> ?l" "a \<noteq> g" for a
    unfolding h' Let_def using that by (simp add: l)
  have fin: "gc_finalized h' a = gc_finalized h a" if "a \<noteq> unr" for a
    unfolding h' Let_def using that ap by (simp add: l)
  have m: "marked h' T = marked h (g # T)"
  proof -
    have "gc_prev h' t = gc_prev h t" if "t \<in> set T" for t using that d by (intro pv) auto
    from marked_cong [OF this] show ?thesis using g by (auto simp: marked_def)
  qed
  have Y: "set (D @ g # T @ U) = Y" using I by (simp add: mu_inv_def)
  have "same_at h0 h' a" if "a \<notin> Y" "a \<noteq> young" "a \<noteq> unr" for a
  proof -
    have "a \<noteq> g" "a \<noteq> ?p" "a \<noteq> ?l" using that Y mem by auto
    then have "same_at h h' a" using that by (simp add: same_at_def pv nx)
    moreover have "same_at h0 h a" using I that by (simp add: mu_inv_def)
    ultimately show ?thesis by (rule same_at_trans [rotated])
  qed
  moreover have "gc_finalized h' a = gc_finalized h0 a" if "a \<in> Y" for a
    using fin [of a] I that d Y by (auto simp: mu_inv_def)
  moreover have "mu_rep h' young unr D T (U @ [g])" by (rule mu_rep_unlink [OF rep h'])
  ultimately show "mu_inv env h0 young unr Y R D T (U @ [g]) h'"
    using I unfolding mu_inv_def m by auto
  have "set T - marked h' T = (set (g # T) - marked h (g # T)) - {g}" unfolding m using d by auto
  moreover have "g \<in> set (g # T) - marked h (g # T)" using g by (simp add: marked_def)
  ultimately have "card (set T - marked h' T) < card (set (g # T) - marked h (g # T))"
    using card_Diff1_less [of "set (g # T) - marked h (g # T)" g] by simp
  then show "mu_size h' T (U @ [g]) < mu_size h (g # T) U" by (simp add: mu_size_def)
qed


lemma mu_inv_done:
  assumes I: "mu_inv env h0 young unr Y R D (g # T) U h" and g: "gc_get_refs h g \<noteq> 0"
    and out: "\<And>a. a \<in> set (referents env g) \<Longrightarrow> a \<noteq> young \<and> a \<noteq> unr \<and> (a \<notin> Y \<longrightarrow> \<not> gc_is_collecting h0 a)"
    and h': "h' = gc_clear_collecting (SET_PREV
        (fold (visit_reachable env young) (tp_traverse env (FROM_GC g)) h) g (last (young # D))) g"
  shows "\<exists>E U'. mu_inv env h0 young unr Y R (D @ [g]) (T @ E) U' h' \<and>
    mu_size h' (T @ E) U' < mu_size h (g # T) U"
proof -
  let ?h = "fold (visit_reachable env young) (tp_traverse env (FROM_GC g)) h"
  have rep: "mu_rep h young unr D (g # T) U" and Y: "set (D @ (g # T) @ U) = Y"
    using I by (simp_all add: mu_inv_def)
  have d: "distinct (young # unr # D @ (g # T) @ U)" using rep by (simp add: mu_rep_def)
  have col: "gc_is_collecting h a \<longleftrightarrow> a \<in> set ((g # T) @ U)" if "a \<in> set (referents env g)" for a
  proof (cases "a \<in> Y")
    case True
    then show ?thesis using rep Y d by (auto simp: mu_rep_def mu_young_def mu_unr_def)
  next
    case False
    then have "gc_prev h a = gc_prev h0 a" using out [OF that] I by (simp add: mu_inv_def same_at_def)
    then show ?thesis using False out [OF that] Y by (auto simp: gc_obs_cong(1) [of h a h0])
  qed
  have "\<exists>E U'. visited young unr D (g # T) U (set (referents env g)) h ?h E U'"
    unfolding referents_def
    by (rule fold_visit_reachable [OF rep]) (use col out in \<open>auto simp: referents_def\<close>)
  then obtain E U' where v: "visited young unr D (g # T) U (set (referents env g)) h ?h E U'" by blast
  have rep1: "mu_rep ?h young unr D (g # T @ E) U'" using v by (simp add: visited_def)
  have s: "set ((g # T) @ E @ U') = set ((g # T) @ U)"
    and m: "marked ?h ((g # T) @ E) = marked h (g # T) \<union> (set (referents env g) \<inter> set ((g # T) @ U))"
    and E: "set E \<subseteq> marked ?h ((g # T) @ E)"
    using v unfolding visited_def by blast+
  have rep': "mu_rep h' young unr (D @ [g]) (T @ E) U'" by (rule mu_rep_done [OF rep1 h'])
  have d1: "distinct (young # unr # D @ (g # T @ E) @ U')" using rep1 by (simp add: mu_rep_def)
  have al: "aligned (last (young # D))"
    using rep last_in_set [of "young # D"] by (auto simp: mu_rep_def)
  have pv: "gc_prev h' a = gc_prev ?h a" if "a \<noteq> g" for a unfolding h' using that by simp
  have m': "set (D @ [g]) \<union> marked h' (T @ E) = set D \<union> marked ?h ((g # T) @ E)"
  proof -
    have "gc_prev h' t = gc_prev ?h t" if "t \<in> set (T @ E)" for t using that d1 by (intro pv) auto
    from marked_cong [OF this] have "marked h' (T @ E) = marked ?h (T @ E)" .
    moreover have "g \<in> marked ?h ((g # T) @ E)" using g unfolding m by (simp add: marked_def)
    ultimately show ?thesis by (auto simp: marked_def)
  qed
  have M: "set (D @ [g]) \<union> marked h' (T @ E) = set D \<union> marked h (g # T) \<union> (set (referents env g) \<inter> Y)"
  proof -
    have "set (referents env g) \<inter> set ((g # T) @ U) \<union> set D = set (referents env g) \<inter> Y \<union> set D"
      using Y by auto
    then show ?thesis unfolding m' m by blast
  qed
  have rg: "reaches env Y R g" using I g by (auto simp: mu_inv_def marked_def)
  have I1: "\<And>a. a \<in> set D \<union> marked h (g # T) \<Longrightarrow> reaches env Y R a"
    and I2: "R \<subseteq> set D \<union> marked h (g # T)"
    and I3: "\<And>a. a \<in> set D \<Longrightarrow> set (referents env a) \<inter> Y \<subseteq> set D \<union> marked h (g # T)"
    using I unfolding mu_inv_def by blast+
  have "same_at h0 h' a" if "a \<notin> Y" "a \<noteq> young" "a \<noteq> unr" for a
  proof -
    have "a \<noteq> g" "a \<notin> set (young # unr # (g # T) @ U)" using that Y by auto
    then have "same_at h ?h a" "same_at ?h h' a"
      using v pv unfolding visited_def by (blast, auto simp: same_at_def h')
    moreover have "same_at h0 h a" using I that by (simp add: mu_inv_def)
    ultimately show ?thesis by (meson same_at_trans)
  qed
  moreover have "gc_finalized h' a = gc_finalized h0 a" if "a \<in> Y" for a
  proof -
    have "a \<noteq> young" using that d Y by auto
    then have "gc_finalized ?h a = gc_finalized h a" using v by (simp add: visited_def)
    then show ?thesis using I that al by (simp add: h' mu_inv_def)
  qed
  moreover have "reaches env Y R a" if "a \<in> set (D @ [g]) \<union> marked h' (T @ E)" for a
    using that I1 reaches.step [OF rg] unfolding M by blast
  moreover have "set (referents env a) \<inter> Y \<subseteq> set (D @ [g]) \<union> marked h' (T @ E)" if "a \<in> set (D @ [g])" for a
    using that I3 [of a] unfolding M by auto
  moreover have "R \<subseteq> set (D @ [g]) \<union> marked h' (T @ E)" using I2 unfolding M by blast
  moreover have "set ((D @ [g]) @ (T @ E) @ U') = Y" using s Y by auto
  ultimately have "mu_inv env h0 young unr Y R (D @ [g]) (T @ E) U' h'"
    using rep' unfolding mu_inv_def by blast
  moreover have "mu_size h' (T @ E) U' < mu_size h (g # T) U"
  proof -
    have "length ((g # T) @ E @ U') = card (set ((g # T) @ E @ U'))"
      using d1 by (intro distinct_card [symmetric]) auto
    also have "\<dots> = length ((g # T) @ U)" unfolding s using d by (intro distinct_card) auto
    finally have "length T + length E + length U' = length T + length U" by simp
    moreover have "set (T @ E) - marked h' (T @ E) \<subseteq> set (g # T) - marked h (g # T)"
      using M m' m E d1 by (auto simp: marked_def)
    then have "card (set (T @ E) - marked h' (T @ E)) \<le> card (set (g # T) - marked h (g # T))"
      by (intro card_mono) auto
    ultimately show ?thesis by (simp add: mu_size_def)
  qed
  ultimately show ?thesis by blast
qed


definition gc_masked_list :: "gcheap \<Rightarrow> addr \<Rightarrow> addr list \<Rightarrow> bool" where
  "gc_masked_list h l U \<longleftrightarrow> distinct (l # U) \<and> (\<forall>a\<in>set (l # U). aligned a) \<and>
     \<not> flagged h l \<and> mu_unr h l U"

definition split_lists ::
  "gcheap \<Rightarrow> gcheap \<Rightarrow> addr \<Rightarrow> addr \<Rightarrow> addr set \<Rightarrow> (addr \<Rightarrow> bool) \<Rightarrow> addr list \<Rightarrow> addr list \<Rightarrow> bool" where
  "split_lists h0 h young unr Y alive D U \<longleftrightarrow>
     gc_list h young D \<and> gc_masked_list h unr U \<and> set (young # D) \<inter> set (unr # U) = {} \<and>
     set D = {y \<in> Y. alive y} \<and> set U = {y \<in> Y. \<not> alive y} \<and>
     (\<forall>d\<in>set D. \<not> gc_is_collecting h d) \<and> (\<forall>u\<in>set U. gc_is_collecting h u) \<and>
     (\<forall>a. a \<notin> Y \<longrightarrow> a \<noteq> young \<longrightarrow> a \<noteq> unr \<longrightarrow> same_at h0 h a) \<and>
     (\<forall>a\<in>Y. gc_finalized h a = gc_finalized h0 a)"

lemma mu_inv_final:
  assumes I: "mu_inv env h0 young unr Y R D [] U h" and "R \<subseteq> Y"
    and h': "h' = (let h = put_prev h young (last (young # D));
              h = put_next h young (gc_next h young AND PREV_MASK)
          in put_next h unr (gc_next h unr AND PREV_MASK))"
  shows "split_lists h0 h' young unr Y (reaches env Y R) D U"
proof -
  have rep: "mu_rep h young unr D [] U" and Y: "set D \<union> set U = Y" using I by (auto simp: mu_inv_def)
  have d: "distinct (young # unr # D @ U)"
    and al: "\<And>a. a \<in> set (young # unr # D @ U) \<Longrightarrow> aligned a"
    using rep by (auto simp: mu_rep_def)
  have ap: "aligned (last (young # D))" using al last_in_set [of "young # D"] by auto
  have "gc_next h young = hd (D @ [young])"
    using links_at [of "gc_next h" "[]" young "D @ [young]"] rep by (simp add: mu_rep_def mu_young_def)
  moreover have "aligned (hd (D @ [young]))" using al by (cases D) auto
  ultimately have ny: "gc_next h young AND PREV_MASK = gc_next h young" by (simp add: aligned_mask)
  have "uview h unr = hd (U @ [unr])"
    using links_at [of "uview h" "[]" unr "U @ [unr]"] rep by (simp add: mu_rep_def mu_unr_def)
  moreover have au: "aligned (hd (U @ [unr]))" using al by (cases U) auto
  ultimately have nu: "gc_next h unr AND PREV_MASK = hd (U @ [unr])" "uview h unr = hd (U @ [unr])"
    using aligned_next_mask(5) by (simp_all add: uview_def)
  have h'2: "h' = put_next (put_prev h young (last (young # D))) unr (hd (U @ [unr]))"
    unfolding h' Let_def using ny nu d by (simp add: put_next_def put_prev_def)
  have nx: "gc_next h' = (gc_next h)(unr := hd (U @ [unr]))" and uv: "uview h' = uview h"
    and fl: "flagged h' = (flagged h)(unr := False)"
    and gp: "GC_PREV h' = (GC_PREV h)(young := last (young # D))"
    and co: "gc_is_collecting h' = (gc_is_collecting h)(young := False)"
    and fi: "gc_finalized h' = (gc_finalized h)(young := False)"
    and pv: "gc_prev h' = (gc_prev h)(young := last (young # D))"
    unfolding h'2 using ap nu(2) au by (auto simp: aligned_next_mask fun_eq_iff)
  have "unr \<notin> set (butlast (young # D @ [young]))" using d by (auto simp: butlast_append)
  then have "links (gc_next h') (young # D @ [young])"
    unfolding nx using rep by (simp add: mu_rep_def mu_young_def del: butlast.simps)
  moreover have "links (GC_PREV h') (young # rev D @ [young])"
  proof -
    have "links (GC_PREV h') (rev D @ [young])"
      unfolding gp using rep d by (simp add: mu_rep_def mu_young_def butlast_append)
    moreover have "GC_PREV h' young = hd (rev D @ [young])"
      unfolding gp by (cases D rule: rev_cases) auto
    ultimately show ?thesis by (cases "rev D @ [young]") simp_all
  qed
  ultimately have "gc_list h' young D" using d al ap by (auto simp: gc_list_def pv)
  moreover have "mu_unr h' unr U"
    using rep d by (auto simp: mu_rep_def mu_unr_def uv gp co fl pv butlast_append)
  then have "gc_masked_list h' unr U" using d al by (simp add: gc_masked_list_def fl)
  moreover have D: "set D = {y \<in> Y. reaches env Y R y}"
  proof (intro equalityI subsetI)
    fix y assume "y \<in> {y \<in> Y. reaches env Y R y}"
    then show "y \<in> set D" using reaches_least [of env Y R y "set D"] I
      by (auto simp: mu_inv_def marked_def)
  qed (use I Y in \<open>auto simp: mu_inv_def\<close>)
  moreover have "set U = {y \<in> Y. \<not> reaches env Y R y}" using D Y d by auto
  moreover have "same_at h0 h' a" if "a \<notin> Y" "a \<noteq> young" "a \<noteq> unr" for a
    using I that by (simp add: mu_inv_def same_at_def nx pv)
  moreover have "gc_finalized h' a = gc_finalized h0 a" if "a \<in> Y" for a
  proof -
    have "a \<noteq> young" using that Y d by auto
    then show ?thesis using I that by (simp add: mu_inv_def fi)
  qed
  ultimately show ?thesis
    using rep d by (auto simp: split_lists_def co mu_rep_def mu_young_def mu_unr_def)
qed

theorem move_unreachable_splits:
  assumes I: "mu_inv env h young unr Y R [] ys [] h" and RY: "R \<subseteq> Y"
    and out: "\<And>y a. y \<in> Y \<Longrightarrow> a \<in> set (referents env y) \<Longrightarrow>
      a \<noteq> young \<and> a \<noteq> unr \<and> (a \<notin> Y \<longrightarrow> \<not> gc_is_collecting h a)"
  shows "\<exists>h' D U. move_unreachable env h young unr = Some h' \<and>
    split_lists h h' young unr Y (reaches env Y R) D U"
proof -
  let ?body = "\<lambda>gc (h, prev).
             if gc_get_refs h gc \<noteq> 0
             then let h = fold (visit_reachable env young) (tp_traverse env (FROM_GC gc)) h;
                      h = SET_PREV h gc prev;
                      h = gc_clear_collecting h gc;
                      prev = gc
                  in (GC_NEXT h prev, h, prev)
             else let h = put_next h prev (gc_next h gc);
                      last = GC_PREV h unr;
                      h = put_next h last (NEXT_MASK_UNREACHABLE OR gc);
                      h = SET_PREV h gc last;
                      h = put_next h gc (NEXT_MASK_UNREACHABLE OR unr);
                      h = put_prev h unr gc
                  in (GC_NEXT h prev, h, prev)"
  let ?I = "\<lambda>n gc (h1, prev). \<exists>D T U. mu_inv env h young unr Y R D T U h1 \<and>
    prev = last (young # D) \<and> gc = hd (T @ [young]) \<and> n = mu_size h1 T U"
  have nxt: "GC_NEXT h1 (last (young # D)) = hd (T @ [young])"
    if "mu_inv env h young unr Y R D T U h1" for h1 D T U
  proof -
    have "links (gc_next h1) (butlast (young # D) @ last (young # D) # (T @ [young]))"
      using that by (cases D rule: rev_cases) (auto simp: mu_inv_def mu_rep_def mu_young_def)
    from links_at [OF this] show ?thesis by (simp add: GC_NEXT_def)
  qed
  have II: "?I (mu_size h1 T U) (GC_NEXT h1 (last (young # D))) (h1, last (young # D))"
    if "mu_inv env h young unr Y R D T U h1" for h1 D T U
    using that nxt [OF that] unfolding case_prod_conv by blast
  have "\<exists>n st. gc_while young ?body (hd (ys @ [young])) (h, young) = Some st \<and> ?I n young st"
  proof (rule gc_while_variant [where I = ?I])
    show "?I (mu_size h ys []) (hd (ys @ [young])) (h, young)" 
      using I last.simps [of young "[]"] by (simp, blast)
    fix n gc st assume "?I n gc st" and ne: "gc \<noteq> young"
    then obtain h1 D T U where st: "st = (h1, last (young # D))" and J: "mu_inv env h young unr Y R D T U h1"
      and gc: "gc = hd (T @ [young])" and n: "n = mu_size h1 T U" by (cases st) auto
    obtain T' where T: "T = gc # T'" using gc ne by (cases T) auto
    have gY: "gc \<in> Y" using J T by (auto simp: mu_inv_def)
    show "\<exists>n'<n. ?I n' (fst (?body gc st)) (snd (?body gc st))"
    proof (cases "gc_get_refs h1 gc = 0")
      case True
      let ?h = "fst (snd (?body gc st))"
      have J': "mu_inv env h young unr Y R D T' (U @ [gc]) ?h"
        and lt: "mu_size ?h T' (U @ [gc]) < mu_size h1 (gc # T') U"
        using mu_inv_unlink [OF J [unfolded T] True refl] True unfolding st by (simp_all add: Let_def)
      have b: "?body gc st = (GC_NEXT ?h (last (young # D)), ?h, last (young # D))"
        using True unfolding st by (simp add: Let_def)
      show ?thesis
        using lt II [OF J'] unfolding n T by (subst (1 2) b, unfold fst_conv snd_conv) blast
    next
      case False
      let ?h = "fst (snd (?body gc st))"
      obtain E U' where J': "mu_inv env h young unr Y R (D @ [gc]) (T' @ E) U' ?h"
        and lt: "mu_size ?h (T' @ E) U' < mu_size h1 (gc # T') U"
        using False mu_inv_done [OF J [unfolded T] False out [OF gY], where h' = ?h] unfolding st
        by (auto simp: Let_def)
      have b: "?body gc st = (GC_NEXT ?h (last (young # D @ [gc])), ?h, last (young # D @ [gc]))"
        using False unfolding st by (simp add: Let_def)
      show ?thesis
        using lt II [OF J'] unfolding n T by (subst (1 2) b, unfold fst_conv snd_conv) blast
    qed
  qed
  then obtain h1 D T U where w: "gc_while young ?body (hd (ys @ [young])) (h, young) = Some (h1, last (young # D))"
    and J: "mu_inv env h young unr Y R D T U h1" and T: "young = hd (T @ [young])" by auto
  have "T = []" using J T by (cases T) (auto simp: mu_inv_def mu_rep_def)
  have s: "GC_NEXT h young = hd (ys @ [young])" using nxt [OF I] by simp
  have "\<exists>h'. move_unreachable env h young unr = Some h' \<and> split_lists h h' young unr Y (reaches env Y R) D U"
    using mu_inv_final [OF J [unfolded \<open>T = []\<close>] RY refl] w unfolding move_unreachable_def s by (simp add: Let_def)
  then show ?thesis by blast
qed

end
