(* ===== verification/GC_Deduce_Correct.thy ===== *)
theory GC_Deduce_Correct
  imports GC_Split
begin

text \<open>
  \<open>deduce_unreachable\<close> is correct: of the objects of a generation, those that are reachable from an object with a
  reference from outside stay, and all others are moved to the unreachable list.
\<close>

section \<open>Deducing what is unreachable\<close>

definition collected :: "gcenv \<Rightarrow> addr list \<Rightarrow> addr list" where
  "collected env xs = filter (mortal env) xs"

definition roots :: "gcenv \<Rightarrow> addr list \<Rightarrow> addr set" where
  "roots env ys = {y \<in> set ys. internal_refs env ys y < refcnt env y}"

definition alive :: "gcenv \<Rightarrow> addr list \<Rightarrow> addr \<Rightarrow> bool" where
  "alive env ys = reaches env (set ys) (roots env ys)"

definition gc_ready :: "gcenv \<Rightarrow> gcheap \<Rightarrow> addr \<Rightarrow> addr list \<Rightarrow> addr \<Rightarrow> addr list \<Rightarrow> addr \<Rightarrow> bool" where
  "gc_ready env h perm ps base xs unr \<longleftrightarrow>
     gc_list h base xs \<and> gc_list h perm ps \<and> aligned unr \<and> distinct (unr # base # xs @ perm # ps) \<and>
     (\<forall>y\<in>set (collected env xs).
        internal_refs env (collected env xs) y \<le> refcnt env y \<and> refcnt env y < 2 ^ 62 \<and>
        (\<forall>a\<in>set (referents env y). a \<noteq> base \<and> a \<noteq> unr \<and> a \<noteq> perm \<and>
           (a \<notin> set (collected env xs) \<longrightarrow> \<not> gc_is_collecting h a)))"

definition deduced ::
  "gcenv \<Rightarrow> gcheap \<Rightarrow> addr \<Rightarrow> addr list \<Rightarrow> addr \<Rightarrow> addr list \<Rightarrow> addr \<Rightarrow> gcheap \<Rightarrow> addr list \<Rightarrow> addr list \<Rightarrow> bool" where
  "deduced env h perm ps base xs unr h' D U \<longleftrightarrow>
     gc_list h' base D \<and> gc_masked_list h' unr U \<and>
     gc_list h' perm (ps @ filter (\<lambda>x. \<not> mortal env x) xs) \<and>
     set D = {y \<in> set (collected env xs). alive env (collected env xs) y} \<and>
     set U = {y \<in> set (collected env xs). \<not> alive env (collected env xs) y} \<and>
     (\<forall>d\<in>set D. \<not> gc_is_collecting h' d) \<and> (\<forall>u\<in>set U. gc_is_collecting h' u) \<and>
     (\<forall>a. a \<notin> {unr, base, perm} \<longrightarrow> gc_finalized h' a = gc_finalized h a) \<and>
     (\<forall>a. a \<notin> set (collected env xs) \<longrightarrow> a \<notin> {unr, base, perm} \<longrightarrow> gc_is_collecting h' a = gc_is_collecting h a) \<and>
     (\<forall>a. a \<notin> set (unr # base # xs @ perm # ps) \<longrightarrow> same_at h h' a)"

text \<open>The state after the two counting passes, for the serial and for the parallel collector.\<close>

definition refs_counted :: "gcenv \<Rightarrow> gcheap \<Rightarrow> addr \<Rightarrow> addr list \<Rightarrow> addr \<Rightarrow> addr list \<Rightarrow> gcheap \<Rightarrow> bool" where
  "refs_counted env h perm ps base xs h' \<longleftrightarrow>
     gc_seg h' base (collected env xs) [] \<and>
     gc_list h' perm (ps @ filter (\<lambda>x. \<not> mortal env x) xs) \<and>
     (\<forall>y\<in>set (collected env xs). gc_is_collecting h' y \<and>
        unat (gc_get_refs h' y) + internal_refs env (collected env xs) y = refcnt env y) \<and>
     (\<forall>a. a \<noteq> perm \<longrightarrow> gc_finalized h' a = gc_finalized h a) \<and>
     (\<forall>a. a \<notin> set (collected env xs) \<longrightarrow> a \<noteq> perm \<longrightarrow> gc_is_collecting h' a = gc_is_collecting h a) \<and>
     (\<forall>a. a \<notin> set (base # xs @ perm # ps) \<longrightarrow> same_at h h' a)"

lemma refs_copied_subtracted:
  assumes r: "gc_ready env h perm ps base xs unr" and c: "refs_copied env h base xs perm ps xs [] h1"
    and s: "subtracted (set (collected env xs)) (internal_refs env (collected env xs)) h1 h2"
  shows "refs_counted env h perm ps base xs h2"
proof -
  let ?ys = "collected env xs"
  have d: "distinct (unr # base # xs @ perm # ps)" using r by (simp add: gc_ready_def)
  have seg: "gc_seg h1 base ?ys []" using c by (simp add: refs_copied_def collected_def)
  have same: "same_at h1 h2 a" if "a \<notin> set ?ys" for a
    using s that by (simp add: subtracted_def same_at_def)
  have "gc_list h2 perm (ps @ filter (\<lambda>x. \<not> mortal env x) xs)"
  proof (subst gc_list_same [of _ _ h1])
    fix a assume "a \<in> set (perm # ps @ filter (\<lambda>x. \<not> mortal env x) xs)"
    then show "same_at h1 h2 a" using d by (intro same) (auto simp: collected_def)
  qed (use c in \<open>simp add: refs_copied_def\<close>)
  moreover have "gc_is_collecting h2 y \<and> unat (gc_get_refs h2 y) + internal_refs env ?ys y = refcnt env y"
    if "y \<in> set ?ys" for y
  proof -
    have "gc_is_collecting h1 y" "unat (gc_get_refs h1 y) = refcnt env y"
      using c that by (simp_all add: refs_copied_def collected_def refcnt_def)
    then show ?thesis using s that by (simp add: subtracted_def)
  qed
  moreover have "gc_finalized h2 x = gc_finalized h x" if "x \<noteq> perm" for x
    using c s that by (simp add: refs_copied_def subtracted_def)
  moreover have "gc_is_collecting h2 a = gc_is_collecting h a" if "a \<notin> set ?ys" "a \<noteq> perm" for a
    using c s that by (simp add: refs_copied_def subtracted_def collected_def)
  moreover have "same_at h h2 a" if "a \<notin> set (base # xs @ perm # ps)" for a
  proof -
    have "same_at h h1 a" using c that by (auto simp: refs_copied_def)
    moreover have "same_at h1 h2 a" using that by (intro same) (auto simp: collected_def)
    ultimately show ?thesis by (rule same_at_trans)
  qed
  ultimately show ?thesis using gc_seg_subtracted [OF seg s] by (simp add: refs_counted_def)
qed

lemma update_subtract_counts:
  assumes r: "gc_ready env h perm ps base xs unr"
  shows "\<exists>h1 h2. update_refs env perm h base = Some (h1, length (collected env xs)) \<and>
    refs_copied env h base xs perm ps xs [] h1 \<and>
    subtract_refs env h1 base = Some h2 \<and>
    subtracted (set (collected env xs)) (internal_refs env (collected env xs)) h1 h2 \<and> refs_counted env h perm ps base xs h2"
proof -
  let ?ys = "collected env xs"
  have d: "distinct (unr # base # xs @ perm # ps)" using r by (simp add: gc_ready_def)
  have "\<exists>h1. update_refs env perm h base = Some (h1, length (filter (mortal env) xs)) \<and>
      refs_copied env h base xs perm ps xs [] h1"
    using r by (intro update_refs_copies) (auto simp: gc_ready_def collected_def)
  then obtain h1 where u: "update_refs env perm h base = Some (h1, length ?ys)"
    and c: "refs_copied env h base xs perm ps xs [] h1" by (auto simp: collected_def)
  have "\<exists>h2. subtract_refs env h1 base = Some h2 \<and> subtracted (set ?ys) (internal_refs env ?ys) h1 h2"
  proof (rule subtract_refs_subtracts)
    show "gc_seg h1 base ?ys []" using c by (simp add: refs_copied_def collected_def)
    fix y assume y: "y \<in> set ?ys"
    have "unat (gc_get_refs h1 y) = refcnt env y"
      using c y by (simp add: refs_copied_def collected_def refcnt_def)
    then show "internal_refs env ?ys y \<le> unat (gc_get_refs h1 y)" using r y by (simp add: gc_ready_def)
    fix a assume a: "a \<in> set (referents env y)"
    show "gc_is_collecting h1 a \<longleftrightarrow> a \<in> set ?ys"
    proof (cases "a \<in> set ?ys")
      case True
      then show ?thesis using c by (simp add: refs_copied_def collected_def)
    next
      case False
      then have "gc_is_collecting h1 a = gc_is_collecting h a" using c r y a
        by (auto simp: refs_copied_def collected_def gc_ready_def)
      then show ?thesis using False r y a by (auto simp: gc_ready_def)
    qed
  qed
  then show ?thesis using u c refs_copied_subtracted [OF r c] by blast
qed

lemma counted_mu_inv:
  assumes r: "gc_ready env h perm ps base xs unr" and c: "refs_counted env h perm ps base xs h2"
  shows "mu_inv env (gc_list_init h2 unr) base unr (set (collected env xs)) (roots env (collected env xs))
    [] (collected env xs) [] (gc_list_init h2 unr)"
proof -
  let ?ys = "collected env xs" and ?h = "gc_list_init h2 unr"
  have d: "distinct (unr # base # xs @ perm # ps)" and au: "aligned unr"
    using r by (auto simp: gc_ready_def)
  have ur: "unr \<notin> set (base # ?ys)" using d by (auto simp: collected_def)
  have seg: "gc_seg h2 base ?ys []" using c by (simp add: refs_counted_def)
  have same: "same_at h2 ?h a" if "a \<noteq> unr" for a using that by (simp add: gc_list_init_def same_at_def)
  have seg': "gc_seg ?h base ?ys []"
    using seg ur same gc_seg_same [of base ?ys "[]" h2 ?h] by fastforce
  have co: "gc_is_collecting ?h a = gc_is_collecting h2 a" "gc_get_refs ?h a = gc_get_refs h2 a" if "a \<noteq> unr" for a
    using gc_obs_cong(1,3) [of ?h a h2] same [OF that] by (simp_all add: same_at_def)
  have "gc_prev ?h base = last ?ys" if "?ys \<noteq> []"
  proof -
    have "GC_PREV ?h base = last ?ys" "aligned (gc_prev ?h base)" using seg' that by (simp_all add: gc_seg_def)
    then show ?thesis by (simp add: GC_PREV_def aligned_mask)
  qed
  moreover have "gc_is_collecting ?h y" if "y \<in> set ?ys" for y
  proof -
    have "gc_is_collecting ?h y = gc_is_collecting h2 y" using that ur by (intro co) auto
    then show ?thesis using c that by (simp add: refs_counted_def)
  qed
  ultimately have "mu_young ?h base [] ?ys" using seg' by (simp add: mu_young_def gc_seg_def)
  moreover have "mu_unr ?h unr []" using au by (simp add: mu_unr_def gc_list_init_def aligned_next_mask)
  ultimately have "mu_rep ?h base unr [] ?ys []" using seg' ur au by (auto simp: mu_rep_def gc_seg_def)
  moreover have m: "marked ?h ?ys = roots env ?ys"
  proof -
    have "gc_get_refs ?h y \<noteq> 0 \<longleftrightarrow> internal_refs env ?ys y < refcnt env y" if "y \<in> set ?ys" for y
    proof -
      have "gc_get_refs ?h y = gc_get_refs h2 y" using that ur by (intro co) auto
      moreover have "unat (gc_get_refs h2 y) + internal_refs env ?ys y = refcnt env y"
        using c that by (simp add: refs_counted_def)
      ultimately show ?thesis by (metis add.left_neutral less_add_same_cancel2 less_irrefl unat_gt_0)
    qed
    then show ?thesis by (auto simp: marked_def roots_def)
  qed
  ultimately show ?thesis
    by (auto simp: mu_inv_def same_at_def roots_def intro: reaches.root)
qed

lemma split_deduced:
  assumes r: "gc_ready env h perm ps base xs unr" and c: "refs_counted env h perm ps base xs h2"
    and s: "split_lists (gc_list_init h2 unr) h' base unr (set (collected env xs)) (alive env (collected env xs)) D U"
  shows "deduced env h perm ps base xs unr h' D U"
proof -
  let ?ys = "collected env xs" and ?h = "gc_list_init h2 unr"
  have d: "distinct (unr # base # xs @ perm # ps)" using r by (auto simp: gc_ready_def)
  have same: "same_at h2 h' a" if "a \<notin> set (unr # base # ?ys)" for a
  proof (rule same_at_trans)
    show "same_at h2 ?h a" using that by (simp add: same_at_def gc_list_init_def)
    show "same_at ?h h' a" using s that by (simp add: split_lists_def)
  qed
  have "gc_list h' perm (ps @ filter (\<lambda>x. \<not> mortal env x) xs)"
  proof (subst gc_list_same [of _ _ h2])
    fix a assume "a \<in> set (perm # ps @ filter (\<lambda>x. \<not> mortal env x) xs)"
    then show "same_at h2 h' a" using d by (intro same) (auto simp: collected_def)
  qed (use c in \<open>simp add: refs_counted_def\<close>)
  moreover have "gc_finalized h' x = gc_finalized h x" if x: "x \<notin> {unr, base, perm}" for x
  proof -
    have "gc_finalized h' x = gc_finalized h2 x"
    proof (cases "x \<in> set ?ys")
      case True
      moreover have "x \<noteq> unr" using x d by auto
      ultimately show ?thesis using s by (simp add: split_lists_def gc_finalized_def gc_list_init_def)
    next
      case False
      moreover have "x \<noteq> unr" "x \<noteq> base" using x d by auto
      ultimately show ?thesis using same [of x] by (simp add: same_at_def gc_finalized_def)
    qed
    then show ?thesis using c x by (simp add: refs_counted_def)
  qed
  moreover have "gc_is_collecting h' x = gc_is_collecting h x" if x: "x \<notin> set ?ys" "x \<notin> {unr, base, perm}" for x
  proof -
    have "gc_is_collecting h' x = gc_is_collecting h2 x"
      using same [of x] x by (simp add: same_at_def gc_is_collecting_def)
    then show ?thesis using c x by (simp add: refs_counted_def)
  qed
  moreover have "same_at h h' a" if "a \<notin> set (unr # base # xs @ perm # ps)" for a
    using that c by (intro same_at_trans [OF _ same]) (auto simp: refs_counted_def collected_def)
  ultimately show ?thesis using s by (simp add: deduced_def split_lists_def)
qed

theorem deduce_unreachable_deduces:
  assumes r: "gc_ready env h perm ps base xs unr"
  shows "\<exists>h' D U. deduce_unreachable env perm h base unr = Some h' \<and>
    deduced env h perm ps base xs unr h' D U"
proof -
  let ?ys = "collected env xs"
  obtain h1 h2 where u: "update_refs env perm h base = Some (h1, length ?ys)"
    and s: "subtract_refs env h1 base = Some h2" and c: "refs_counted env h perm ps base xs h2"
    using update_subtract_counts [OF r] by blast
  let ?h = "gc_list_init h2 unr"
  have "\<exists>h' D U. move_unreachable env ?h base unr = Some h' \<and>
      split_lists ?h h' base unr (set ?ys) (reaches env (set ?ys) (roots env ?ys)) D U"
  proof (rule move_unreachable_splits [OF counted_mu_inv [OF r c]])
    show "roots env ?ys \<subseteq> set ?ys" by (auto simp: roots_def)
    fix y a assume y: "y \<in> set ?ys" and a: "a \<in> set (referents env y)"
    then have ne: "a \<noteq> base \<and> a \<noteq> unr \<and> a \<noteq> perm" and
      n: "a \<notin> set ?ys \<Longrightarrow> \<not> gc_is_collecting h a" using r by (auto simp: gc_ready_def)
    have "gc_is_collecting ?h a = gc_is_collecting h2 a"
      using ne by (intro gc_obs_cong) (simp add: gc_list_init_def)
    then show "a \<noteq> base \<and> a \<noteq> unr \<and> (a \<notin> set ?ys \<longrightarrow> \<not> gc_is_collecting ?h a)"
      using ne n c by (auto simp: refs_counted_def)
  qed
  then obtain h' D U where m: "move_unreachable env ?h base unr = Some h'"
    and "split_lists ?h h' base unr (set ?ys) (alive env ?ys) D U" unfolding alive_def by blast
  from split_deduced [OF r c this(2)] show ?thesis
    using u s m unfolding deduce_unreachable_def by auto
qed

end
