(* ===== verification/GC_Legacy.thy ===== *)
theory GC_Legacy
  imports GC_Deduce_Correct
begin

text \<open>
  The treatment of the unreachable list after it has been found: \<open>clear_unreachable_mask\<close> makes it an ordinary list,
  \<open>move_legacy_finalizers\<close> takes out the objects with a legacy finalizer and
  \<open>move_legacy_finalizer_reachable\<close> everything that is reachable from them.
\<close>

section \<open>Lists with the flag of \<open>move_unreachable\<close>\<close>

definition unmask :: "gcheap \<Rightarrow> gcheap" where
  "unmask h = h\<lparr>gc_next := uview h\<rparr>"

lemma unmask_fields [simp]: "gc_prev (unmask h) = gc_prev h" "gc_next (unmask h) = uview h"
  by (simp_all add: unmask_def)

lemma unmask_obs [simp]:
  "GC_PREV (unmask h) = GC_PREV h" "gc_is_collecting (unmask h) = gc_is_collecting h"
  "gc_finalized (unmask h) = gc_finalized h"
  by (auto simp: gc_observers fun_eq_iff)

lemma not_flagged_uview: "\<not> flagged h a \<Longrightarrow> uview h a = gc_next h a"
  unfolding flagged_def uview_def and_mask_iff
  by (auto simp: word64_eq_iff gc_bits dest: bit_imp_le_length)

lemma gc_masked_unmask:
  "gc_masked_list h l U \<longleftrightarrow> gc_list (unmask h) l U \<and> \<not> flagged h l \<and>
     (\<forall>u\<in>set U. gc_is_collecting h u \<and> flagged h u)"
  by (auto simp: gc_masked_list_def gc_list_def mu_unr_def)

lemma gc_list_unmask:
  assumes "\<And>a. a \<in> set (l # xs) \<Longrightarrow> \<not> flagged h a"
  shows "gc_list (unmask h) l xs = gc_list h l xs"
  using assms not_flagged_uview by (intro gc_list_cong) auto

lemma gc_list_next_aligned:
  assumes "gc_list h l xs" "a \<in> set (l # xs)"
  shows "aligned (gc_next h a)"
proof -
  obtain as bs where "l # xs = as @ a # bs" using assms(2) by (meson split_list)
  then have eq: "l # xs @ [l] = as @ a # (bs @ [l])" by (metis append_Cons append_assoc)
  have "links (gc_next h) (as @ a # (bs @ [l]))" using assms(1) by (simp add: gc_list_def flip: eq)
  from links_at [OF this] have "gc_next h a = hd (bs @ [l])" by simp
  moreover have "hd (bs @ [l]) \<in> set (l # xs)"
    using arg_cong [OF \<open>l # xs = as @ a # bs\<close>, of set] by (cases bs) auto
  ultimately show ?thesis using assms(1) by (auto simp: gc_list_def)
qed

lemma gc_list_not_flagged: "gc_list h l xs \<Longrightarrow> a \<in> set (l # xs) \<Longrightarrow> \<not> flagged h a"
  using gc_list_next_aligned by (simp add: flagged_def aligned_next_mask)

lemma cleared_not_flagged [simp]: "(w AND NOT NEXT_MASK_UNREACHABLE) AND NEXT_MASK_UNREACHABLE = 0"
  by (auto simp: word64_eq_iff gc_bits)

lemma unmask_clear [simp]:
  "unmask (put_next h g (gc_next h g AND NOT NEXT_MASK_UNREACHABLE)) = unmask h"
  by (auto simp: unmask_def put_next_def uview_def fun_eq_iff)

theorem clear_unreachable_mask_list:
  assumes m: "gc_masked_list h l U"
  shows "\<exists>h'. clear_unreachable_mask h l = Some h' \<and> gc_list h' l U \<and> unmask h' = unmask h \<and>
    (\<forall>a. a \<notin> set U \<longrightarrow> same_at h h' a)"
proof -
  let ?Q = "\<lambda>as bs h'. U = as @ bs \<and> unmask h' = unmask h \<and>
    (\<forall>a. flagged h' a \<longleftrightarrow> flagged h a \<and> a \<notin> set as) \<and> (\<forall>a. a \<notin> set U \<longrightarrow> same_at h h' a)"
  let ?body = "\<lambda>gc h. let h = put_next h gc (gc_next h gc AND NOT NEXT_MASK_UNREACHABLE) in (gc_next h gc, h)"
  have l: "gc_list (unmask h) l U" "\<not> flagged h l" using m by (simp_all add: gc_masked_unmask)
  have "\<exists>h'. gc_while l ?body (hd (U @ [l])) h = Some h' \<and> ?Q ([] @ U) [] h'"
  proof (rule gc_while_walk [where Q = ?Q])
    show "l \<notin> set U" using l by (simp add: gc_list_def)
    show "?Q [] U h" by (simp add: same_at_def)
    fix as b bs h1 assume Q: "?Q as (b # bs) h1"
    let ?h = "put_next h1 b (gc_next h1 b AND NOT NEXT_MASK_UNREACHABLE)"
    have "gc_next ?h b = GC_NEXT (unmask h) b"
      using Q by (simp add: GC_NEXT_def uview_def [symmetric]) (metis unmask_fields(2))
    also have "\<dots> = hd (bs @ [l])" using gc_list_neighbours(2) [of "unmask h" l as b bs] l Q by simp
    finally have "?body b h1 = (hd (bs @ [l]), ?h)" by (simp add: Let_def)
    moreover have "?Q (as @ [b]) bs ?h" using Q by (auto simp: same_at_def)
    ultimately show "\<exists>st'. ?body b h1 = (hd (bs @ [l]), st') \<and> ?Q (as @ [b]) bs st'" by blast
  qed
  then obtain h' where w: "gc_while l ?body (hd (U @ [l])) h = Some h'" and Q: "?Q U [] h'" by auto
  have "GC_NEXT h l = hd (U @ [l])"
    using gc_list_GC_NEXT [OF l(1)] not_flagged_uview [OF l(2)] by (simp add: GC_NEXT_def)
  moreover have "gc_list h' l U" 
    using Q l by (subst gc_list_unmask [symmetric]) auto
  ultimately show ?thesis using w Q by (auto simp: clear_unreachable_mask_def)
qed

lemma unmask_gc_list_move:
  assumes "\<not> flagged h node" "aligned node" "aligned m" "aligned (gc_next h node)"
  shows "unmask (gc_list_move h node m) = gc_list_move (unmask h) node m"
proof -
  have n: "uview h node = gc_next h node" by (rule not_flagged_uview [OF assms(1)])
  show ?thesis
    unfolding gc_list_move_def Let_def GC_NEXT_def unmask_obs n unmask_fields
    using assms by (auto simp: unmask_def SET_NEXT_def SET_PREV_def put_next_def put_prev_def uview_def fun_eq_iff aligned_next_mask)
qed


lemma gc_list_clear_collecting_node:
  assumes "b \<noteq> l"
  shows "gc_list (gc_clear_collecting h b) l xs = gc_list h l xs"
  using assms by (simp add: gc_list_def)

lemma unmask_clear_collecting [simp]: "unmask (gc_clear_collecting h b) = gc_clear_collecting (unmask h) b"
  by (rule gcheap.equality) (simp_all add: unmask_def gc_clear_collecting_def put_prev_def uview_def fun_eq_iff)

lemma flagged_move:
  assumes "aligned node" "aligned m" "aligned (gc_next h node)"
  shows "flagged (gc_list_move h node m) a \<longleftrightarrow>
    flagged h a \<and> a \<noteq> GC_PREV h node \<and> a \<noteq> gc_prev (gc_list_remove h node) m \<and> a \<noteq> node"
  using assms by (auto simp: gc_list_move_eq gc_list_append_def gc_list_remove_def Let_def GC_NEXT_def aligned_next_mask
      split: if_splits)

lemma gc_prev_remove_unmask:
  "\<not> flagged h b \<Longrightarrow> gc_prev (gc_list_remove (unmask h) b) = gc_prev (gc_list_remove h b)"
  by (simp add: gc_list_remove_def GC_NEXT_def not_flagged_uview SET_PREV_def)

definition legacy_inv ::
  "gcenv \<Rightarrow> gcheap \<Rightarrow> addr \<Rightarrow> addr \<Rightarrow> addr list \<Rightarrow> addr list \<Rightarrow> gcheap \<Rightarrow> bool" where
  "legacy_inv env h l fin as bs h' \<longleftrightarrow>
     (let del = (\<lambda>x. has_legacy_finalizer env (FROM_GC x)) in
      gc_list (unmask h') l (filter (\<lambda>x. \<not> del x) as @ bs) \<and>
      gc_list (unmask h') fin (filter del as) \<and>
      (\<forall>a\<in>set (l # fin # as @ bs). flagged h' a \<longleftrightarrow> a \<in> set bs) \<and>
      (\<forall>a\<in>set (as @ bs). (gc_is_collecting h' a \<longleftrightarrow> \<not> (a \<in> set as \<and> del a)) \<and>
         gc_finalized h' a = gc_finalized h a) \<and>
      (\<forall>a. a \<notin> set (l # fin # as @ bs) \<longrightarrow> same_at h h' a))"

lemma legacy_inv_step:
  assumes I: "legacy_inv env h l fin as (b # bs) h'" and d: "distinct (l # fin # as @ b # bs)"
    and h2: "h2 = put_next h' b (gc_next h' b AND NOT NEXT_MASK_UNREACHABLE)"
    and h3: "h3 = (if has_legacy_finalizer env (FROM_GC b)
                   then gc_list_move (gc_clear_collecting h2 b) b fin else h2)"
  shows "gc_next h2 b = hd (bs @ [l])" "legacy_inv env h l fin (as @ [b]) bs h3"
proof -
  define del where "del x = has_legacy_finalizer env (FROM_GC x)" for x
  let ?A = "filter (\<lambda>x. \<not> del x) as" and ?F = "filter del as"
  have U: "unmask h2 = unmask h'" and f2: "flagged h2 = (flagged h')(b := False)"
    unfolding h2 by simp_all
  note J = I [unfolded legacy_inv_def Let_def, folded del_def]
  have l: "gc_list (unmask h2) l (?A @ b # bs)" and f: "gc_list (unmask h2) fin ?F"
    using J unfolding U by blast+
  have fl: "flagged h2 a \<longleftrightarrow> a \<in> set bs" if "a \<in> set (l # fin # as @ b # bs)" for a
  proof -
    have "flagged h' a \<longleftrightarrow> a \<in> set (b # bs)" using J that by blast
    then show ?thesis unfolding f2 using d by auto
  qed
  have co: "(gc_is_collecting h2 a \<longleftrightarrow> \<not> (a \<in> set as \<and> del a)) \<and> gc_finalized h2 a = gc_finalized h a"
    if "a \<in> set (as @ b # bs)" for a
  proof -
    have "(gc_is_collecting h' a \<longleftrightarrow> \<not> (a \<in> set as \<and> del a)) \<and> gc_finalized h' a = gc_finalized h a"
      using J that by blast
    then show ?thesis unfolding h2 by simp
  qed
  have sm: "same_at h h2 a" if "a \<notin> set (l # fin # as @ b # bs)" for a
  proof -
    have "same_at h h' a" using J that by blast
    then show ?thesis unfolding h2 using that by (simp add: same_at_def)
  qed
  have "gc_next h2 b = gc_next (unmask h2) b" using fl [of b] d by (simp add: not_flagged_uview)
  also have "\<dots> = hd (bs @ [l])" using gc_list_neighbours(2) [OF l] by (simp add: GC_NEXT_def)
  finally show nb: "gc_next h2 b = hd (bs @ [l])" .
  show "legacy_inv env h l fin (as @ [b]) bs h3"
  proof (cases "del b")
    case False
    then have "h3 = h2" using h3 by (simp add: del_def)
    moreover have "legacy_inv env h l fin (as @ [b]) bs h2"
      using l f fl co sm False unfolding legacy_inv_def Let_def del_def [symmetric]
      by (intro conjI) auto
    ultimately show ?thesis by simp
  next
    case True
    let ?k = "gc_clear_collecting h2 b"
    have h3: "h3 = gc_list_move ?k b fin" using h3 True by (simp add: del_def)
    have bne: "b \<noteq> l" "b \<noteq> fin" using d by auto
    have seg: "gc_seg (unmask ?k) l [] (?A @ b # bs)" and f': "gc_list (unmask ?k) fin ?F"
      using l f bne by (simp_all add: gc_list_seg [symmetric] gc_list_clear_collecting_node)
    have dis: "set (l # [] @ ?A @ b # bs) \<inter> set (fin # ?F) = {}" using d by auto
    have al: "aligned b" "aligned fin" "aligned (gc_next ?k b)"
      using l f gc_list_next_aligned [OF l, of b] not_flagged_uview [of h2 b] fl [of b] d
      by (simp_all add: gc_list_def)
    have nf: "\<not> flagged ?k b" using fl [of b] d by simp
    have um: "unmask h3 = gc_list_move (unmask ?k) b fin"
      unfolding h3 by (rule unmask_gc_list_move [OF nf al])
    have written: "GC_PREV ?k b \<in> set (l # as)" "gc_prev (gc_list_remove ?k b) fin \<in> set (fin # as)"
    proof -
      have "GC_PREV ?k b = last (l # ?A)" using gc_seg_neighbours(1) [OF seg] by simp
      moreover have "last (l # ?A) \<in> set (l # ?A)" by (rule last_in_set) simp
      ultimately show "GC_PREV ?k b \<in> set (l # as)" by auto
      have "gc_prev (gc_list_remove (unmask ?k) b) fin = last (fin # ?F)"
        by (rule gc_list_last [OF remove_keeps_other [OF seg f' dis]])
      then have "gc_prev (gc_list_remove ?k b) fin = last (fin # ?F)"
        unfolding gc_prev_remove_unmask [OF nf] .
      moreover have "last (fin # ?F) \<in> set (fin # ?F)" by (rule last_in_set) simp
      ultimately show "gc_prev (gc_list_remove ?k b) fin \<in> set (fin # as)" by auto
    qed
    have "gc_list (unmask h3) l (?A @ bs)" "gc_list (unmask h3) fin (?F @ [b])"
      unfolding um using gc_seg_move_from [OF seg f' dis] gc_seg_move_to [OF seg f' dis]
      by (simp_all add: gc_list_seg)
    moreover have "flagged h3 a \<longleftrightarrow> a \<in> set bs" if "a \<in> set (l # fin # (as @ [b]) @ bs)" for a
    proof -
      have "flagged h2 a \<longleftrightarrow> a \<in> set bs" using fl that by auto
      then show ?thesis unfolding h3 flagged_move [OF al] using written d by auto
    qed
    moreover have "(gc_is_collecting h3 a \<longleftrightarrow> \<not> (a \<in> set (as @ [b]) \<and> del a)) \<and> gc_finalized h3 a = gc_finalized h a"
      if "a \<in> set ((as @ [b]) @ bs)" for a
    proof -
      have "a \<noteq> fin" using that d by auto
      then have "gc_is_collecting (unmask h3) a = gc_is_collecting (unmask ?k) a"
        "gc_finalized (unmask h3) a = gc_finalized (unmask ?k) a"
        unfolding um using gc_seg_move_obs [OF seg f' dis] by simp_all
      then show ?thesis using co [of a] that True d by auto
    qed
    moreover have "same_at h h3 a" if "a \<notin> set (l # fin # (as @ [b]) @ bs)" for a
    proof -
      have "same_at (unmask ?k) (unmask h3) a"
        unfolding um using that by (intro gc_seg_move_same [OF seg f' dis]) auto
      moreover have "a \<noteq> GC_PREV ?k b" "a \<noteq> gc_prev (gc_list_remove ?k b) fin" "a \<noteq> b"
        using that written by auto
      then have "gc_next h3 a = gc_next ?k a"
        unfolding h3 gc_list_move_eq by (simp add: gc_list_append_def Let_def gc_list_remove_def)
      ultimately show ?thesis using sm [of a] that by (auto simp: same_at_def)
    qed
    ultimately show ?thesis using True unfolding legacy_inv_def Let_def del_def [symmetric] by simp
  qed
qed


definition legacy :: "gcenv \<Rightarrow> addr \<Rightarrow> bool" where
  "legacy env x = has_legacy_finalizer env (FROM_GC x)"

theorem move_legacy_finalizers_moves:
  assumes m: "gc_masked_list h l U" and f: "gc_list h fin []" and d: "distinct (l # fin # U)"
  shows "\<exists>h'. move_legacy_finalizers env h l fin = Some h' \<and>
    gc_list h' l (filter (\<lambda>x. \<not> legacy env x) U) \<and> gc_list h' fin (filter (legacy env) U) \<and>
    (\<forall>a\<in>set U. (gc_is_collecting h' a \<longleftrightarrow> \<not> legacy env a) \<and> gc_finalized h' a = gc_finalized h a) \<and>
    (\<forall>a. a \<notin> set (l # fin # U) \<longrightarrow> same_at h h' a)"
proof -
  let ?Q = "\<lambda>as bs h'. U = as @ bs \<and> legacy_inv env h l fin as bs h'"
  let ?body = "\<lambda>gc h. let op = FROM_GC gc;
              h = put_next h gc (gc_next h gc AND NOT NEXT_MASK_UNREACHABLE);
              nxt = gc_next h gc
          in if has_legacy_finalizer env op
             then (nxt, gc_list_move (gc_clear_collecting h gc) gc fin)
             else (nxt, h)"
  have l: "gc_list (unmask h) l U" "\<not> flagged h l" "\<And>u. u \<in> set U \<Longrightarrow> gc_is_collecting h u \<and> flagged h u"
    using m by (simp_all add: gc_masked_unmask)
  have ff: "\<not> flagged h fin" using gc_list_not_flagged [OF f] by simp
  have "\<exists>h'. gc_while l ?body (hd (U @ [l])) h = Some h' \<and> ?Q ([] @ U) [] h'"
  proof (rule gc_while_walk [where Q = ?Q])
    show "l \<notin> set U" using d by simp
    have "gc_list (unmask h) fin []" using f ff by (subst gc_list_unmask) auto
    then show "?Q [] U h" using l ff d by (auto simp: legacy_inv_def Let_def same_at_def)
    fix as b bs h1 assume Q: "?Q as (b # bs) h1"
    let ?h2 = "put_next h1 b (gc_next h1 b AND NOT NEXT_MASK_UNREACHABLE)"
    have d': "distinct (l # fin # as @ b # bs)" using d Q by simp
    note st = legacy_inv_step [OF conjunct2 [OF Q] d' refl refl]
    have "?body b h1 = (hd (bs @ [l]), if has_legacy_finalizer env (FROM_GC b)
        then gc_list_move (gc_clear_collecting ?h2 b) b fin else ?h2)"
      unfolding st(1) [symmetric] by (simp add: Let_def)
    then show "\<exists>st'. ?body b h1 = (hd (bs @ [l]), st') \<and> ?Q (as @ [b]) bs st'"
      using st(2) Q by auto
  qed
  then obtain h' where w: "gc_while l ?body (hd (U @ [l])) h = Some h'" and I: "legacy_inv env h l fin U [] h'" by auto
  have "GC_NEXT h l = hd (U @ [l])"
    using gc_list_GC_NEXT [OF l(1)] not_flagged_uview [OF l(2)] by (simp add: GC_NEXT_def)
  then have "move_legacy_finalizers env h l fin = Some h'" using w by (simp add: move_legacy_finalizers_def)
  moreover have "gc_list h' l (filter (\<lambda>x. \<not> legacy env x) U)" "gc_list h' fin (filter (legacy env) U)"
  proof -
    have nf: "\<And>a. a \<in> set (l # fin # U) \<Longrightarrow> \<not> flagged h' a"
      using I by (auto simp: legacy_inv_def Let_def)
    have "gc_list (unmask h') l (filter (\<lambda>x. \<not> legacy env x) U)"
      "gc_list (unmask h') fin (filter (legacy env) U)"
      using I unfolding legacy_inv_def Let_def legacy_def [abs_def] by auto
    then show "gc_list h' l (filter (\<lambda>x. \<not> legacy env x) U)" "gc_list h' fin (filter (legacy env) U)"
      using nf gc_list_unmask [of l "filter (\<lambda>x. \<not> legacy env x) U" h']
        gc_list_unmask [of fin "filter (legacy env) U" h'] by auto
  qed
  ultimately show ?thesis using I by (auto simp: legacy_inv_def Let_def legacy_def)
qed

section \<open>What legacy finalizers reach\<close>

text \<open>The finalizers list is a work list: \<open>D\<close> has been traversed, \<open>T\<close> has not.\<close>

definition fin_inv ::
  "gcenv \<Rightarrow> gcheap \<Rightarrow> addr \<Rightarrow> addr \<Rightarrow> addr set \<Rightarrow> addr set \<Rightarrow> addr list \<Rightarrow> addr list \<Rightarrow> addr list \<Rightarrow> gcheap \<Rightarrow> bool" where
  "fin_inv env h l fin Y R D T U h' \<longleftrightarrow>
     gc_list h' fin (D @ T) \<and> gc_list h' l U \<and> distinct (l # fin # D @ T @ U) \<and>
     set (D @ T @ U) = Y \<and> R \<subseteq> set (D @ T) \<and> (\<forall>a\<in>set (D @ T). reaches env Y R a) \<and>
     (\<forall>a\<in>Y. (gc_is_collecting h' a \<longleftrightarrow> a \<in> set U) \<and> gc_finalized h' a = gc_finalized h a) \<and>
     (\<forall>a. a \<notin> Y \<longrightarrow> a \<noteq> l \<longrightarrow> a \<noteq> fin \<longrightarrow> same_at h h' a)"

lemma visit_move_step:
  assumes I: "fin_inv env h l fin Y R D T U h'"
    and out: "\<And>a. is_gc env op \<Longrightarrow> a = AS_GC op \<Longrightarrow> a \<noteq> l \<and> a \<noteq> fin \<and> (a \<notin> Y \<longrightarrow> \<not> gc_is_collecting h a)"
    and rx: "\<And>a. is_gc env op \<Longrightarrow> a = AS_GC op \<Longrightarrow> a \<in> Y \<Longrightarrow> reaches env Y R a"
  shows "\<exists>E U'. fin_inv env h l fin Y R D (T @ E) U' (visit_move env fin op h') \<and>
    length E + length U' = length U \<and> (is_gc env op \<longrightarrow> AS_GC op \<in> Y \<longrightarrow> AS_GC op \<in> set (D @ T @ E))"
proof (cases "is_gc env op \<and> gc_is_collecting h' (AS_GC op)")
  case False
  let ?x = "AS_GC op"
  have "visit_move env fin op h' = h'" using False by (auto simp: visit_move_def Let_def)
  moreover have "?x \<in> set (D @ T)" if "is_gc env op" "?x \<in> Y"
    using False that I by (auto simp: fin_inv_def)
  ultimately show ?thesis using I by (intro exI [of _ "[]"] exI [of _ U]) simp
next
  case True
  let ?x = "AS_GC op"
  have nx: "?x \<noteq> l" "?x \<noteq> fin" using out True by auto
  have "?x \<in> Y"
  proof (rule ccontr)
    assume "?x \<notin> Y"
    then have "gc_prev h' ?x = gc_prev h ?x" using I nx by (simp add: fin_inv_def same_at_def)
    then show False using out [of ?x] True \<open>?x \<notin> Y\<close> gc_obs_cong(1) [of h' ?x h] by simp
  qed
  then have xU: "?x \<in> set U" using I True by (auto simp: fin_inv_def)
  then obtain U1 U2 where U: "U = U1 @ ?x # U2" by (meson split_list)
  let ?h = "gc_list_move h' ?x fin"
  have h: "visit_move env fin op h' = gc_clear_collecting ?h ?x" using True by (simp add: visit_move_def Let_def)
  have seg: "gc_seg h' l [] (U1 @ ?x # U2)" and f: "gc_list h' fin (D @ T)"
    and d: "distinct (l # fin # D @ T @ U)" and Y: "set (D @ T @ U) = Y"
    using I unfolding fin_inv_def U gc_list_seg by blast+
  have dis: "set (l # [] @ U1 @ ?x # U2) \<inter> set (fin # D @ T) = {}" using d unfolding U by auto
  have "gc_list (gc_clear_collecting ?h ?x) fin (D @ T @ [?x])" "gc_list (gc_clear_collecting ?h ?x) l (U1 @ U2)"
    using gc_seg_move_to [OF seg f dis] gc_seg_move_from [OF seg f dis] nx
    by (simp_all add: gc_list_clear_collecting_node gc_list_seg [symmetric])
  moreover have "(gc_is_collecting (gc_clear_collecting ?h ?x) a \<longleftrightarrow> a \<in> set (U1 @ U2)) \<and>
      gc_finalized (gc_clear_collecting ?h ?x) a = gc_finalized h a" if "a \<in> Y" for a
  proof -
    have "a \<noteq> fin" using that d Y by auto
    then show ?thesis
      using gc_seg_move_obs [OF seg f dis, of a] I that d U by (auto simp: fin_inv_def)
  qed
  moreover have "same_at h (gc_clear_collecting ?h ?x) a" if "a \<notin> Y" "a \<noteq> l" "a \<noteq> fin" for a
  proof -
    have "a \<noteq> ?x" using that \<open>?x \<in> Y\<close> by auto
    moreover have "same_at h' ?h a" using that Y U by (intro gc_seg_move_same [OF seg f dis]) auto
    moreover have "same_at h h' a" using I that by (simp add: fin_inv_def)
    ultimately show ?thesis by (simp add: same_at_def)
  qed
  moreover have "reaches env Y R ?x" using rx True \<open>?x \<in> Y\<close> by blast
  moreover have "distinct (l # fin # D @ (T @ [?x]) @ U1 @ U2)" "set (D @ (T @ [?x]) @ U1 @ U2) = Y"
    using d Y unfolding U by auto
  moreover have "R \<subseteq> set (D @ T @ [?x])" "\<And>a. a \<in> set (D @ T) \<Longrightarrow> reaches env Y R a"
    using I by (auto simp: fin_inv_def)
  ultimately have "fin_inv env h l fin Y R D (T @ [?x]) (U1 @ U2) (visit_move env fin op h')"
    unfolding fin_inv_def h by auto
  then show ?thesis using U by (intro exI [of _ "[?x]"] exI [of _ "U1 @ U2"]) simp
qed

lemma fold_visit_move:
  assumes "fin_inv env h l fin Y R D T U h'"
    and "\<And>a. a \<in> set (map AS_GC (filter (is_gc env) ops)) \<Longrightarrow> a \<noteq> l \<and> a \<noteq> fin \<and> (a \<notin> Y \<longrightarrow> \<not> gc_is_collecting h a)"
    and "\<And>a. a \<in> set (map AS_GC (filter (is_gc env) ops)) \<Longrightarrow> a \<in> Y \<Longrightarrow> reaches env Y R a"
  shows "\<exists>E U'. fin_inv env h l fin Y R D (T @ E) U' (fold (visit_move env fin) ops h') \<and>
    length E + length U' = length U \<and> set (map AS_GC (filter (is_gc env) ops)) \<inter> Y \<subseteq> set (D @ T @ E)"
  using assms
proof (induction ops arbitrary: h' T U)
  case Nil
  then show ?case by (intro exI [of _ "[]"] exI [of _ U]) simp
next
  case (Cons op ops)
  have "\<exists>E U'. fin_inv env h l fin Y R D (T @ E) U' (visit_move env fin op h') \<and>
    length E + length U' = length U \<and> (is_gc env op \<longrightarrow> AS_GC op \<in> Y \<longrightarrow> AS_GC op \<in> set (D @ T @ E))"
    using Cons.prems(2,3) by (intro visit_move_step [OF Cons.prems(1)]) auto
  then obtain E1 U1 where I1: "fin_inv env h l fin Y R D (T @ E1) U1 (visit_move env fin op h')"
    and l1: "length E1 + length U1 = length U" and m1: "is_gc env op \<Longrightarrow> AS_GC op \<in> Y \<Longrightarrow> AS_GC op \<in> set (D @ T @ E1)"
    by blast
  have "\<exists>E U'. fin_inv env h l fin Y R D ((T @ E1) @ E) U' (fold (visit_move env fin) ops (visit_move env fin op h')) \<and>
    length E + length U' = length U1 \<and> set (map AS_GC (filter (is_gc env) ops)) \<inter> Y \<subseteq> set (D @ (T @ E1) @ E)"
    using Cons.prems(2,3) by (intro Cons.IH [OF I1]) auto
  then obtain E2 U2 where "fin_inv env h l fin Y R D ((T @ E1) @ E2) U2 (fold (visit_move env fin) ops (visit_move env fin op h'))"
    "length E2 + length U2 = length U1" "set (map AS_GC (filter (is_gc env) ops)) \<inter> Y \<subseteq> set (D @ (T @ E1) @ E2)"
    by blast
  then show ?case using l1 m1 by (intro exI [of _ "E1 @ E2"] exI [of _ U2]) auto
qed

theorem move_legacy_finalizer_reachable_closes:
  assumes l: "gc_list h l U" and f: "gc_list h fin F" and d: "distinct (l # fin # F @ U)"
    and col: "\<And>a. a \<in> set (F @ U) \<Longrightarrow> gc_is_collecting h a \<longleftrightarrow> a \<in> set U"
    and out: "\<And>y a. y \<in> set (F @ U) \<Longrightarrow> a \<in> set (referents env y) \<Longrightarrow>
      a \<noteq> l \<and> a \<noteq> fin \<and> (a \<notin> set (F @ U) \<longrightarrow> \<not> gc_is_collecting h a)"
  shows "\<exists>h' F' U'. move_legacy_finalizer_reachable env h fin = Some h' \<and>
    gc_list h' fin F' \<and> gc_list h' l U' \<and>
    set F' = {y \<in> set (F @ U). reaches env (set (F @ U)) (set F) y} \<and>
    set U' = {y \<in> set (F @ U). \<not> reaches env (set (F @ U)) (set F) y} \<and>
    (\<forall>a\<in>set (F @ U). (gc_is_collecting h' a \<longleftrightarrow> a \<in> set U') \<and> gc_finalized h' a = gc_finalized h a) \<and>
    (\<forall>a. a \<notin> set (l # fin # F @ U) \<longrightarrow> same_at h h' a)"
proof -
  let ?Y = "set (F @ U)"
  let ?body = "\<lambda>gc h. let h = fold (visit_move env fin) (tp_traverse env (FROM_GC gc)) h in (GC_NEXT h gc, h)"
  let ?I = "\<lambda>n gc h'. \<exists>D T V. fin_inv env h l fin ?Y (set F) D T V h' \<and>
    (\<forall>x\<in>set D. set (referents env x) \<inter> ?Y \<subseteq> set (D @ T)) \<and> gc = hd (T @ [fin]) \<and> n = length T + length V"
  have "\<exists>n h'. gc_while fin ?body (hd (F @ [fin])) h = Some h' \<and> ?I n fin h'"
  proof (rule gc_while_variant [where I = ?I])
    have "fin_inv env h l fin ?Y (set F) [] F U h"
      using l f d col by (auto simp: fin_inv_def same_at_def intro: reaches.root)
    then show "?I (length F + length U) (hd (F @ [fin])) h" by (intro exI [of _ "[]"] exI [of _ F] exI [of _ U]) simp
    fix n gc h1 assume "?I n gc h1" and ne: "gc \<noteq> fin"
    then obtain D T V where J: "fin_inv env h l fin ?Y (set F) D T V h1"
      and cl: "\<And>x. x \<in> set D \<Longrightarrow> set (referents env x) \<inter> ?Y \<subseteq> set (D @ T)"
      and gc: "gc = hd (T @ [fin])" and n: "n = length T + length V" by blast
    obtain T' where T: "T = gc # T'" using gc ne by (cases T) auto
    have g: "gc \<in> ?Y" "reaches env ?Y (set F) gc" using J T by (auto simp: fin_inv_def)
    let ?h = "fold (visit_move env fin) (tp_traverse env (FROM_GC gc)) h1"
    have "\<exists>E U'. fin_inv env h l fin ?Y (set F) D (T @ E) U' ?h \<and> length E + length U' = length V \<and>
        set (referents env gc) \<inter> ?Y \<subseteq> set (D @ T @ E)"
      unfolding referents_def
      using out [OF g(1)] reaches.step [OF g(2)] by (intro fold_visit_move [OF J]) (auto simp: referents_def)
    then obtain E U' where K: "fin_inv env h l fin ?Y (set F) D (T @ E) U' ?h"
      and len: "length E + length U' = length V" and s: "set (referents env gc) \<inter> ?Y \<subseteq> set (D @ T @ E)" by blast
    have K': "fin_inv env h l fin ?Y (set F) (D @ [gc]) (T' @ E) U' ?h" 
      using K unfolding T fin_inv_def append_assoc append_Cons append_Nil .
    have nx: "GC_NEXT ?h gc = hd ((T' @ E) @ [fin])"
      using gc_list_neighbours(2) [of ?h fin D gc "T' @ E"] K unfolding T by (simp add: fin_inv_def)
    have "\<forall>x\<in>set (D @ [gc]). set (referents env x) \<inter> ?Y \<subseteq> set ((D @ [gc]) @ T' @ E)"
      using cl s T by fastforce
    then have "?I (length (T' @ E) + length U') (GC_NEXT ?h gc) ?h" using K' nx by blast
    moreover have "length (T' @ E) + length U' < n" using n len T by simp
    ultimately show "\<exists>n'<n. ?I n' (fst (?body gc h1)) (snd (?body gc h1))"
      unfolding Let_def fst_conv snd_conv by blast
  qed
  then obtain h' D T V where w: "gc_while fin ?body (hd (F @ [fin])) h = Some h'"
    and J: "fin_inv env h l fin ?Y (set F) D T V h'"
    and cl: "\<And>x. x \<in> set D \<Longrightarrow> set (referents env x) \<inter> ?Y \<subseteq> set (D @ T)" and T: "fin = hd (T @ [fin])" by blast
  have "T = []" using J T by (cases T) (auto simp: fin_inv_def)
  then have D: "set D = {y \<in> ?Y. reaches env ?Y (set F) y}"
  proof (intro equalityI subsetI)
    fix y assume "y \<in> {y \<in> ?Y. reaches env ?Y (set F) y}"
    then have "reaches env ?Y (set F) y" by simp
    moreover have "set F \<inter> ?Y \<subseteq> set D" using J \<open>T = []\<close> by (auto simp: fin_inv_def)
    moreover have "z \<in> set D" if "x \<in> set D" "z \<in> set (referents env x)" "z \<in> ?Y" for x z
      using cl [OF that(1)] that \<open>T = []\<close> by auto
    ultimately show "y \<in> set D" by (rule reaches_least)
  qed (use J \<open>T = []\<close> in \<open>auto simp: fin_inv_def\<close>)
  moreover have "set V = {y \<in> ?Y. \<not> reaches env ?Y (set F) y}"
    using D J \<open>T = []\<close> by (auto simp: fin_inv_def)
  moreover have "move_legacy_finalizer_reachable env h fin = Some h'"
    using w gc_list_GC_NEXT [OF f] by (simp add: move_legacy_finalizer_reachable_def)
  moreover have "gc_list h' fin D" "gc_list h' l V"
    "\<And>a. a \<in> ?Y \<Longrightarrow> (gc_is_collecting h' a \<longleftrightarrow> a \<in> set V) \<and> gc_finalized h' a = gc_finalized h a"
    "\<And>a. a \<notin> set (l # fin # F @ U) \<Longrightarrow> same_at h h' a"
    using J \<open>T = []\<close> by (auto simp: fin_inv_def)
  ultimately show ?thesis by blast
qed

theorem legacy_splits:
  assumes l: "gc_masked_list h unr U" "gc_list h fin []" "distinct (unr # fin # U)"
    and refs: "\<forall>y\<in>set U. \<forall>a\<in>set (referents env y). a \<noteq> unr \<and> a \<noteq> fin \<and> (a \<notin> set U \<longrightarrow> \<not> gc_is_collecting h a)"
  shows "\<exists>h1 h2 F V. move_legacy_finalizers env h unr fin = Some h1 \<and>
    move_legacy_finalizer_reachable env h1 fin = Some h2 \<and> gc_list h2 fin F \<and> gc_list h2 unr V \<and>
    set F = {y \<in> set U. reaches env (set U) {x \<in> set U. legacy env x} y} \<and> set V = set U - set F \<and>
    (\<forall>a\<in>set U. gc_is_collecting h2 a \<longleftrightarrow> a \<in> set V) \<and>
    (\<forall>a. a \<notin> set (unr # fin # U) \<longrightarrow> same_at h h2 a)"
proof -
  let ?F = "filter (legacy env) U" and ?V = "filter (\<lambda>x. \<not> legacy env x) U"
  obtain h1 where m: "move_legacy_finalizers env h unr fin = Some h1" "gc_list h1 unr ?V" "gc_list h1 fin ?F"
    "\<forall>a\<in>set U. gc_is_collecting h1 a \<longleftrightarrow> \<not> legacy env a" "\<forall>a. a \<notin> set (unr # fin # U) \<longrightarrow> same_at h h1 a"
    using move_legacy_finalizers_moves [OF l] by blast
  have s: "set (?F @ ?V) = set U" "set ?F = {x \<in> set U. legacy env x}" by auto
  have out: "a \<noteq> unr \<and> a \<noteq> fin \<and> (a \<notin> set (?F @ ?V) \<longrightarrow> \<not> gc_is_collecting h1 a)"
    if y: "y \<in> set (?F @ ?V)" and a: "a \<in> set (referents env y)" for y a
  proof -
    have n: "a \<noteq> unr" "a \<noteq> fin" "a \<notin> set U \<Longrightarrow> \<not> gc_is_collecting h a" using refs y a unfolding s by blast+
    moreover have "gc_is_collecting h1 a = gc_is_collecting h a" if "a \<notin> set U"
      using m(5) n that by (intro gc_obs_cong) (simp add: same_at_def)
    ultimately show ?thesis unfolding s by blast
  qed
  have "distinct (unr # fin # ?F @ ?V)" using l(3) by auto
  moreover have "gc_is_collecting h1 a \<longleftrightarrow> a \<in> set ?V" if "a \<in> set (?F @ ?V)" for a using m(4) that by auto
  ultimately have "\<exists>h' F' U'. move_legacy_finalizer_reachable env h1 fin = Some h' \<and> gc_list h' fin F' \<and> gc_list h' unr U' \<and>
    set F' = {y \<in> set (?F @ ?V). reaches env (set (?F @ ?V)) (set ?F) y} \<and>
    set U' = {y \<in> set (?F @ ?V). \<not> reaches env (set (?F @ ?V)) (set ?F) y} \<and>
    (\<forall>a\<in>set (?F @ ?V). (gc_is_collecting h' a \<longleftrightarrow> a \<in> set U') \<and> gc_finalized h' a = gc_finalized h1 a) \<and>
    (\<forall>a. a \<notin> set (unr # fin # ?F @ ?V) \<longrightarrow> same_at h1 h' a)"
    using out by (intro move_legacy_finalizer_reachable_closes [OF m(2,3)])
  then obtain h2 F V where r: "move_legacy_finalizer_reachable env h1 fin = Some h2" "gc_list h2 fin F" "gc_list h2 unr V"
    "set F = {y \<in> set U. reaches env (set U) {x \<in> set U. legacy env x} y}"
    "set V = {y \<in> set U. \<not> reaches env (set U) {x \<in> set U. legacy env x} y}"
    "\<forall>a\<in>set U. gc_is_collecting h2 a \<longleftrightarrow> a \<in> set V"
    "\<forall>a. a \<notin> set (unr # fin # ?F @ ?V) \<longrightarrow> same_at h1 h2 a" unfolding s by blast
  have "set V = set U - set F" using r(4,5) by blast
  moreover have "same_at h h2 a" if "a \<notin> set (unr # fin # U)" for a
    using m(5) r(7) that by (intro same_at_trans [of h h1 a h2]) auto
  ultimately show ?thesis using m(1) r by blast
qed

end
