(* ===== verification/GC_Resurrect.thy ===== *)
theory GC_Resurrect
  imports GC_Legacy
begin

text \<open>
  \<open>handle_resurrected_objects\<close>: after the finalizers have run, the objects of the unreachable list that are
  reachable again are appended to the old generation, the others stay in a list of their own.
\<close>

section \<open>Resurrected objects\<close>

theorem gc_list_clear_collecting_list:
  assumes l: "gc_list h l xs"
  shows "\<exists>h'. gc_list_clear_collecting h l = Some h' \<and> gc_list h' l xs \<and> gc_next h' = gc_next h \<and>
    (\<forall>a. a \<notin> set xs \<longrightarrow> gc_prev h' a = gc_prev h a) \<and> gc_finalized h' = gc_finalized h \<and>
    (\<forall>a. gc_is_collecting h' a \<longleftrightarrow> gc_is_collecting h a \<and> a \<notin> set xs)"
proof -
  let ?body = "\<lambda>gc h. let h = gc_clear_collecting h gc in (GC_NEXT h gc, h)"
  let ?Q = "\<lambda>as bs h'. xs = as @ bs \<and> gc_next h' = gc_next h \<and> (\<forall>a. a \<notin> set as \<longrightarrow> gc_prev h' a = gc_prev h a) \<and>
    gc_finalized h' = gc_finalized h \<and> GC_PREV h' = GC_PREV h \<and>
    (\<forall>a. gc_is_collecting h' a \<longleftrightarrow> gc_is_collecting h a \<and> a \<notin> set as)"
  have "\<exists>h'. gc_while l ?body (hd (xs @ [l])) h = Some h' \<and> ?Q ([] @ xs) [] h'"
  proof (rule gc_while_walk [where Q = ?Q])
    show "l \<notin> set xs" using l by (simp add: gc_list_def)
    fix as b bs h1 assume Q: "?Q as (b # bs) h1"
    then have "GC_NEXT (gc_clear_collecting h1 b) b = hd (bs @ [l])"
      using gc_list_neighbours(2) [of h l as b bs] l by (simp add: GC_NEXT_def)
    then show "\<exists>h'. ?body b h1 = (hd (bs @ [l]), h') \<and> ?Q (as @ [b]) bs h'"
      using Q by (simp add: Let_def)
  qed simp
  then obtain h' where w: "gc_while l ?body (hd (xs @ [l])) h = Some h'" and Q: "?Q xs [] h'" by auto
  have "gc_list h' l xs" using l Q by (simp add: gc_list_def)
  then show ?thesis using w Q gc_list_GC_NEXT [OF l] unfolding gc_list_clear_collecting_def by auto
qed

lemma gc_list_merge_same:
  assumes f: "gc_list h from xs" and t: "gc_list h to ys" and a: "a \<notin> set (from # xs)" "a \<notin> set (to # ys)"
  shows "same_at h (gc_list_merge h from to) a"
proof -
  have "GC_NEXT h from \<in> set (from # xs)" "GC_PREV h from \<in> set (from # xs)" "GC_PREV h to \<in> set (to # ys)"
    using gc_list_GC_NEXT [OF f] gc_list_GC_PREV [OF f] gc_list_GC_PREV [OF t]
      last_in_set [of "from # xs"] last_in_set [of "to # ys"] by (cases xs; simp)+
  then have "a \<noteq> GC_NEXT h from" "a \<noteq> GC_PREV h from" "a \<noteq> GC_PREV h to" using a by auto
  then show ?thesis using a by (simp add: gc_list_merge_def gc_list_init_def same_at_def Let_def)
qed

definition resurrect_ready ::
  "gcenv \<Rightarrow> gcheap \<Rightarrow> addr \<Rightarrow> addr list \<Rightarrow> addr \<Rightarrow> addr list \<Rightarrow> addr \<Rightarrow> addr \<Rightarrow> addr list \<Rightarrow> bool" where
  "resurrect_ready env h perm ps unr U still old os \<longleftrightarrow>
     gc_list h unr U \<and> gc_list h perm ps \<and> gc_list h old os \<and> aligned still \<and>
     distinct (still # unr # U @ perm # ps @ old # os) \<and>
     (\<forall>y\<in>set (collected env U).
        internal_refs env (collected env U) y \<le> refcnt env y \<and> refcnt env y < 2 ^ 62 \<and>
        (\<forall>a\<in>set (referents env y). a \<noteq> unr \<and> a \<noteq> still \<and> a \<noteq> perm \<and>
           (a \<notin> set U \<longrightarrow> \<not> gc_is_collecting h a)))"

theorem handle_resurrected_splits:
  assumes r: "resurrect_ready env h perm ps unr U still old os"
  shows "\<exists>h' D S. handle_resurrected_objects env perm h unr still old = Some h' \<and>
    gc_list h' old (os @ D) \<and> gc_list h' still S \<and> gc_list h' unr [] \<and>
    set D = {y \<in> set (collected env U). alive env (collected env U) y} \<and>
    set S = {y \<in> set (collected env U). \<not> alive env (collected env U) y}"
proof -
  have l: "gc_list h unr U" "gc_list h perm ps" "gc_list h old os" "aligned still"
    and d: "distinct (still # unr # U @ perm # ps @ old # os)" using r by (simp_all add: resurrect_ready_def)
  obtain h1 where c: "gc_list_clear_collecting h unr = Some h1" and l1: "gc_list h1 unr U"
    and nx: "gc_next h1 = gc_next h" and pv: "\<And>a. a \<notin> set U \<Longrightarrow> gc_prev h1 a = gc_prev h a"
    and co: "\<And>a. gc_is_collecting h1 a \<longleftrightarrow> gc_is_collecting h a \<and> a \<notin> set U"
    using gc_list_clear_collecting_list [OF l(1)] by blast
  have "gc_list h1 perm ps" using l(2) by (subst gc_list_cong [of _ _ _ h]) (use d pv nx in auto)
  moreover have "\<not> gc_is_collecting h1 a" if "y \<in> set (collected env U)" "a \<in> set (referents env y)" for y a
    using r that co by (auto simp: resurrect_ready_def)
  ultimately have "gc_ready env h1 perm ps unr U still"
    using r l1 d by (simp add: gc_ready_def resurrect_ready_def Int_Un_distrib)
  from deduce_unreachable_deduces [OF this] obtain h2 D S where
    m: "deduce_unreachable env perm h1 unr still = Some h2" and dd: "deduced env h1 perm ps unr U still h2 D S" by blast
  have D: "gc_list h2 unr D" "gc_masked_list h2 still S"
    "set D = {y \<in> set (collected env U). alive env (collected env U) y}"
    "set S = {y \<in> set (collected env U). \<not> alive env (collected env U) y}"
    "\<And>a. a \<notin> set (still # unr # U @ perm # ps) \<Longrightarrow> same_at h1 h2 a"
    using dd unfolding deduced_def by blast+
  have sub: "set D \<subseteq> set U" "set S \<subseteq> set U" "set D \<inter> set S = {}" using D(3,4) by (auto simp: collected_def)
  have "gc_list h2 old os"
  proof (subst gc_list_same [of _ _ h])
    fix a assume a: "a \<in> set (old # os)"
    have "same_at h h1 a" using a d pv nx by (auto simp: same_at_def)
    moreover have "same_at h1 h2 a" using a d by (intro D(5)) auto
    ultimately show "same_at h h2 a" by (rule same_at_trans)
  qed (rule l(3))
  moreover obtain h3 where k: "clear_unreachable_mask h2 still = Some h3" "gc_list h3 still S"
    "\<And>a. a \<notin> set S \<Longrightarrow> same_at h2 h3 a" using clear_unreachable_mask_list [OF D(2)] by blast
  have n3: "\<And>a. a \<in> set (old # os) \<Longrightarrow> a \<notin> set S" "\<And>a. a \<in> set (unr # D) \<Longrightarrow> a \<notin> set S" using d sub by auto
  have o3: "gc_list h3 old os = gc_list h2 old os" "gc_list h3 unr D = gc_list h2 unr D"
    by (rule gc_list_same, rule k(3), erule n3)+
  ultimately have l3: "gc_list h3 old os" "gc_list h3 unr D" using D(1) by simp_all
  have dis: "set (unr # D) \<inter> set (old # os) = {}" using d sub by auto
  let ?h = "gc_list_merge h3 unr old"
  have "gc_list ?h still S"
  proof (subst gc_list_same [of _ _ h3])
    fix a assume a: "a \<in> set (still # S)"
    then have ne: "a \<noteq> unr" "a \<notin> set (unr # D)" "a \<notin> set (old # os)" using d sub by auto
    show "same_at h3 ?h a" by (rule gc_list_merge_same [OF l3(2,1) ne(2,3)])
  qed (rule k(2))
  then show ?thesis
    using c m k(1) gc_list_merge_lists [OF l3(2,1) dis] D(3,4) unfolding handle_resurrected_objects_def by auto
qed

end
