(* ===== verification/GC_Collect.thy ===== *)
theory GC_Collect
  imports GC_Resurrect "HOL-Library.Sublist"
begin

text \<open>
  The part of a collection that calls into the program: finalizers, \<open>tp_clear\<close> and the list of uncollectable garbage.

  A call gets the heap and the rest of the state and may change both: an object whose last reference goes away
  leaves the list it is in, new objects are added to a generation. The lists \<open>collectable\<close> and \<open>seen\<close> are known to the collector only.
\<close>

section \<open>Definitions\<close>

text \<open>
  What the collector calls: \<open>call_finalize op\<close> is \<open>finalize(op)\<close> and \<open>call_clear op\<close> is \<open>clear(op)\<close>, with the temporary
  reference around them and the report of an error; \<open>garbage_append\<close> is \<open>PyList_Append\<close> to \<open>gcstate->garbage\<close> and
  answers whether it succeeded.
\<close>

record 's gccalls =
  tp_finalize :: "addr \<Rightarrow> bool"
  call_finalize :: "addr \<Rightarrow> gcheap \<times> 's \<Rightarrow> gcheap \<times> 's"
  tp_clear :: "addr \<Rightarrow> bool"
  call_clear :: "addr \<Rightarrow> gcheap \<times> 's \<Rightarrow> gcheap \<times> 's"
  garbage_append :: "addr \<Rightarrow> gcheap \<times> 's \<Rightarrow> bool \<times> gcheap \<times> 's"
  debug_saveall :: bool

definition gc_set_finalized :: "gcheap \<Rightarrow> addr \<Rightarrow> gcheap" where
  "gc_set_finalized h g = put_prev h g (gc_prev h g OR PREV_MASK_FINALIZED)"

definition finalize_first :: "'s gccalls \<Rightarrow> addr \<Rightarrow> addr \<Rightarrow> gcheap \<times> 's \<Rightarrow> gcheap \<times> 's" where
  "finalize_first c collectable seen st =
    (let (h, s) = st;
         gc = GC_NEXT h collectable;
         op = FROM_GC gc;
         h = gc_list_move h gc seen
     in if \<not> gc_finalized h gc \<and> tp_finalize c op
        then call_finalize c op (gc_set_finalized h gc, s)
        else (h, s))"

partial_function (option) finalize_loop ::
  "'s gccalls \<Rightarrow> addr \<Rightarrow> addr \<Rightarrow> gcheap \<times> 's \<Rightarrow> (gcheap \<times> 's) option" where
  "finalize_loop c collectable seen st =
    (if gc_list_is_empty (fst st) collectable then Some st
     else finalize_loop c collectable seen (finalize_first c collectable seen st))"

definition finalize_garbage :: "'s gccalls \<Rightarrow> addr \<Rightarrow> addr \<Rightarrow> gcheap \<times> 's \<Rightarrow> (gcheap \<times> 's) option" where
  "finalize_garbage c seen collectable st =
     map_option (\<lambda>(h, s). (gc_list_merge h seen collectable, s))
       (finalize_loop c collectable seen (gc_list_init (fst st) seen, snd st))"

definition delete_first :: "'s gccalls \<Rightarrow> addr \<Rightarrow> addr \<Rightarrow> gcheap \<times> 's \<Rightarrow> gcheap \<times> 's" where
  "delete_first c collectable old st =
    (let gc = GC_NEXT (fst st) collectable;
         op = FROM_GC gc;
         (h, s) = (if debug_saveall c then snd (garbage_append c op st)
                   else if tp_clear c op then call_clear c op st
                   else st)
     in if GC_NEXT h collectable = gc
        then (gc_list_move (gc_clear_collecting h gc) gc old, s)
        else (h, s))"

partial_function (option) delete_garbage ::
  "'s gccalls \<Rightarrow> addr \<Rightarrow> addr \<Rightarrow> gcheap \<times> 's \<Rightarrow> (gcheap \<times> 's) option" where
  "delete_garbage c collectable old st =
    (if gc_list_is_empty (fst st) collectable then Some st
     else delete_garbage c collectable old (delete_first c collectable old st))"

definition report_garbage :: "gcenv \<Rightarrow> 's gccalls \<Rightarrow> addr \<Rightarrow> addr \<Rightarrow> gcheap \<times> 's \<Rightarrow> addr \<times> gcheap \<times> 's" where
  "report_garbage env c finalizers gc st =
    (let op = FROM_GC gc in
     if debug_saveall c \<or> has_legacy_finalizer env op
     then (case garbage_append c op st of
             (True, h, s) \<Rightarrow> (GC_NEXT h gc, h, s)
           | (False, h, s) \<Rightarrow> (finalizers, h, s))
     else (GC_NEXT (fst st) gc, st))"

definition handle_legacy_finalizers ::
  "gcenv \<Rightarrow> 's gccalls \<Rightarrow> addr \<Rightarrow> addr \<Rightarrow> gcheap \<times> 's \<Rightarrow> (gcheap \<times> 's) option" where
  "handle_legacy_finalizers env c finalizers old st =
     map_option (\<lambda>(h, s). (gc_list_merge h finalizers old, s))
       (gc_while finalizers (report_garbage env c finalizers) (GC_NEXT (fst st) finalizers) st)"

section \<open>Calls and their log\<close>

text \<open>The calls with a list of the objects they were made on.\<close>

definition logged :: "'s gccalls \<Rightarrow> ('s \<times> addr list) gccalls" where
  "logged c =
     \<lparr>tp_finalize = tp_finalize c,
      call_finalize = (\<lambda>op (h, s, log). case call_finalize c op (h, s) of (h', s') \<Rightarrow> (h', s', log @ [op])),
      tp_clear = tp_clear c,
      call_clear = (\<lambda>op (h, s, log). case call_clear c op (h, s) of (h', s') \<Rightarrow> (h', s', log @ [op])),
      garbage_append = (\<lambda>op (h, s, log). case garbage_append c op (h, s) of (b, h', s') \<Rightarrow> (b, h', s', log @ [op])),
      debug_saveall = debug_saveall c\<rparr>"

text \<open>What the collector relies on: a call removes objects from its lists and leaves the others and their flags.\<close>

definition finalizers_ok :: "'s gccalls \<Rightarrow> addr \<Rightarrow> addr \<Rightarrow> bool" where
  "finalizers_ok c collectable seen \<longleftrightarrow>
    (\<forall>op h s h' s' xs ys. call_finalize c op (h, s) = (h', s') \<longrightarrow> gc_list h collectable xs \<longrightarrow> gc_list h seen ys \<longrightarrow>
       (\<exists>xs' ys'. gc_list h' collectable xs' \<and> subseq xs' xs \<and> gc_list h' seen ys' \<and> subseq ys' ys \<and>
         (\<forall>a\<in>set (xs' @ ys'). gc_finalized h' a = gc_finalized h a)))"

lemma gc_set_finalized_obs [simp]:
  "gc_finalized (gc_set_finalized h g) = (gc_finalized h)(g := True)"
  "gc_next (gc_set_finalized h g) = gc_next h"
  "a \<noteq> g \<Longrightarrow> gc_prev (gc_set_finalized h g) a = gc_prev h a"
  "GC_PREV (gc_set_finalized h g) = GC_PREV h"
  "gc_is_collecting (gc_set_finalized h g) = gc_is_collecting h"
proof -
  show "gc_finalized (gc_set_finalized h g) = (gc_finalized h)(g := True)"
    by (auto simp: fun_eq_iff gc_set_finalized_def gc_finalized_bit bit_or_iff bit_masks)
  show "gc_next (gc_set_finalized h g) = gc_next h" "a \<noteq> g \<Longrightarrow> gc_prev (gc_set_finalized h g) a = gc_prev h a"
    by (simp_all add: gc_set_finalized_def)
  have "(w OR PREV_MASK_FINALIZED) AND PREV_MASK = w AND PREV_MASK" for w :: "64 word"
    by (rule bit_word_eqI) (auto simp: gc_bits)
  then show "GC_PREV (gc_set_finalized h g) = GC_PREV h" by (auto simp: fun_eq_iff GC_PREV_def gc_set_finalized_def)
  show "gc_is_collecting (gc_set_finalized h g) = gc_is_collecting h"
    by (auto simp: fun_eq_iff gc_set_finalized_def gc_is_collecting_bit bit_or_iff bit_masks)
qed

lemma gc_list_set_finalized: "gc_list h l xs \<Longrightarrow> g \<noteq> l \<Longrightarrow> gc_list (gc_set_finalized h g) l xs"
  by (simp add: gc_list_def)

lemma subseq_distinct: "subseq xs ys \<Longrightarrow> distinct ys \<Longrightarrow> distinct xs"
  by (induction rule: list_emb.induct) (auto dest: list_emb_set)

lemma subseq_set: "subseq xs ys \<Longrightarrow> set xs \<subseteq> set ys"
  by (auto dest: list_emb_set)

lemma gc_list_merge_finalized:
  assumes f: "gc_list h from xs" and t: "gc_list h to ys" and a: "a \<noteq> from"
  shows "gc_finalized (gc_list_merge h from to) a = gc_finalized h a"
proof -
  have al: "aligned (GC_PREV h from)" "aligned (GC_PREV h to)"
    using f t by (auto simp: gc_list_GC_PREV gc_list_def)
  have "gc_finalized (gc_list_init h' from) a = gc_finalized h' a" for h'
    using a by (simp add: gc_list_init_def gc_finalized_def)
  then show ?thesis using al by (simp add: gc_list_merge_def Let_def)
qed

section \<open>Finalizing\<close>

definition finalize_inv ::
  "'s gccalls \<Rightarrow> gcheap \<Rightarrow> addr \<Rightarrow> addr list \<Rightarrow> addr \<Rightarrow> addr list \<Rightarrow> addr list \<Rightarrow> gcheap \<Rightarrow> addr list \<Rightarrow> bool" where
  "finalize_inv c h0 coll xs seen as bs h log \<longleftrightarrow>
     gc_list h coll bs \<and> gc_list h seen as \<and> subseq (as @ bs) xs \<and>
     (\<forall>b\<in>set bs. gc_finalized h b = gc_finalized h0 b) \<and>
     (\<forall>a\<in>set as. gc_finalized h a \<longleftrightarrow> gc_finalized h0 a \<or> tp_finalize c (FROM_GC a)) \<and>
     (\<forall>a\<in>set as. \<not> gc_finalized h0 a \<and> tp_finalize c (FROM_GC a) \<longrightarrow> FROM_GC a \<in> set log) \<and>
     distinct log \<and> set log \<inter> FROM_GC ` set bs = {} \<and>
     set log \<subseteq> FROM_GC ` {x \<in> set xs. \<not> gc_finalized h0 x \<and> tp_finalize c (FROM_GC x)}"

lemma inj_FROM_GC: "FROM_GC a = FROM_GC b \<longleftrightarrow> a = b"
  by (simp add: FROM_GC_def)

lemma finalize_first_inv:
  assumes ok: "finalizers_ok c coll seen" and I: "finalize_inv c h0 coll xs seen as (b # bs) h log"
    and d: "distinct (seen # coll # xs)" and st: "finalize_first (logged c) coll seen (h, s, log) = (h', s', log')"
  shows "\<exists>as' bs'. finalize_inv c h0 coll xs seen as' bs' h' log' \<and> length bs' \<le> length bs"
proof -
  have L: "gc_list h coll (b # bs)" "gc_list h seen as" "subseq (as @ b # bs) xs"
    and fl: "\<And>x. x \<in> set (b # bs) \<Longrightarrow> gc_finalized h x = gc_finalized h0 x"
    and fa: "\<And>a. a \<in> set as \<Longrightarrow> gc_finalized h a \<longleftrightarrow> gc_finalized h0 a \<or> tp_finalize c (FROM_GC a)"
    and la: "\<And>a. a \<in> set as \<Longrightarrow> \<not> gc_finalized h0 a \<and> tp_finalize c (FROM_GC a) \<Longrightarrow> FROM_GC a \<in> set log"
    and lg: "distinct log" "set log \<inter> FROM_GC ` set (b # bs) = {}"
      "set log \<subseteq> FROM_GC ` {x \<in> set xs. \<not> gc_finalized h0 x \<and> tp_finalize c (FROM_GC x)}"
    using I unfolding finalize_inv_def by blast+
  have sx: "set as \<subseteq> set xs" "set (b # bs) \<subseteq> set xs" using subseq_set [OF L(3)] by auto
  have dx: "distinct (as @ b # bs)" using subseq_distinct [OF L(3)] d by simp
  have gc: "GC_NEXT h coll = b" using gc_list_GC_NEXT [OF L(1)] by simp
  let ?m = "gc_list_move h b seen"
  have seg: "gc_seg h coll [] ([] @ b # bs)" using L(1) by (simp add: gc_list_seg)
  have dis: "set (coll # [] @ [] @ b # bs) \<inter> set (seen # as) = {}" using d dx sx by auto
  have m: "gc_list ?m coll bs" "gc_list ?m seen (as @ [b])"
    using gc_seg_move_from [OF seg L(2) dis] gc_seg_move_to [OF seg L(2) dis] by (simp_all add: gc_list_seg)
  have mf: "gc_finalized ?m a = gc_finalized h a" if "a \<noteq> seen" for a by (rule gc_seg_move_obs [OF seg L(2) dis that])
  have ne: "a \<noteq> seen" if "a \<in> set xs" for a using d that by auto
  have seq: "subseq ((as @ [b]) @ bs) xs" using L(3) by simp
  show ?thesis
  proof (cases "\<not> gc_finalized h b \<and> tp_finalize c (FROM_GC b)")
    case False
    then have e: "h' = ?m" "log' = log" using st gc mf [of b] ne [of b] sx
      by (auto simp: finalize_first_def logged_def Let_def)
    have "finalize_inv c h0 coll xs seen (as @ [b]) bs h' log'"
      unfolding finalize_inv_def e using m seq fl fa la lg False mf ne sx by auto
    then show ?thesis by blast
  next
    case True
    let ?f = "gc_set_finalized ?m b"
    obtain h1 s1 where call: "call_finalize c (FROM_GC b) (?f, s) = (h1, s1)" by force
    have e: "h' = h1" "log' = log @ [FROM_GC b]"
      using st gc mf [of b] ne [of b] sx True call by (auto simp: finalize_first_def logged_def Let_def)
    have "b \<noteq> coll" "b \<noteq> seen" using d sx by auto
    then have f: "gc_list ?f coll bs" "gc_list ?f seen (as @ [b])" using m by (auto intro: gc_list_set_finalized)
    from ok [unfolded finalizers_ok_def, rule_format, OF call f] obtain xs' ys' where
      c1: "gc_list h1 coll xs'" "subseq xs' bs" "gc_list h1 seen ys'" "subseq ys' (as @ [b])"
      and cf: "\<And>a. a \<in> set (xs' @ ys') \<Longrightarrow> gc_finalized h1 a = gc_finalized ?f a" by blast
    have s1: "subseq (ys' @ xs') xs" using list_emb_append_mono [OF c1(4,2)] seq subseq_order.trans by blast
    have in1: "set xs' \<subseteq> set bs" "set ys' \<subseteq> insert b (set as)" using subseq_set [OF c1(2)] subseq_set [OF c1(4)] by auto
    have fx: "gc_finalized h1 x = gc_finalized h0 x" if "x \<in> set xs'" for x
      using that cf [of x] in1 mf [of x] ne [of x] sx fl [of x] dx by auto
    have fy: "gc_finalized h1 y \<longleftrightarrow> gc_finalized h0 y \<or> tp_finalize c (FROM_GC y)" if "y \<in> set ys'" for y
      using that cf [of y] in1 mf [of y] ne [of y] sx fa [of y] True by (cases "y = b") auto
    have b: "\<not> gc_finalized h0 b" using True fl by simp
    have ly: "FROM_GC y \<in> set (log @ [FROM_GC b])" if "y \<in> set ys'" "\<not> gc_finalized h0 y \<and> tp_finalize c (FROM_GC y)" for y
      using that in1 la [of y] by (cases "y = b") auto
    have l1: "distinct (log @ [FROM_GC b])" using lg by auto
    have l2: "set (log @ [FROM_GC b]) \<inter> FROM_GC ` set xs' = {}" using lg(2) in1 dx by (auto simp: inj_FROM_GC)
    have l3: "set (log @ [FROM_GC b]) \<subseteq> FROM_GC ` {x \<in> set xs. \<not> gc_finalized h0 x \<and> tp_finalize c (FROM_GC x)}"
      using lg(3) b True sx by auto
    have "finalize_inv c h0 coll xs seen ys' xs' h' log'"
      unfolding finalize_inv_def e using c1 s1 fx fy ly l1 l2 l3 by blast
    moreover have "length xs' \<le> length bs" using c1(2) by (rule list_emb_length)
    ultimately show ?thesis by blast
  qed
qed

lemma finalize_loop_ends:
  assumes ok: "finalizers_ok c coll seen" and d: "distinct (seen # coll # xs)"
  shows "finalize_inv c h0 coll xs seen as bs h log \<Longrightarrow>
    \<exists>h' s' log' ys. finalize_loop (logged c) coll seen (h, s, log) = Some (h', s', log') \<and> finalize_inv c h0 coll xs seen ys [] h' log'"
proof (induction "length bs" arbitrary: as bs h s log rule: less_induct)
  case less
  have l: "gc_list h coll bs" using less.prems by (simp add: finalize_inv_def)
  show ?case
  proof (cases bs)
    case Nil
    then have "finalize_loop (logged c) coll seen (h, s, log) = Some (h, s, log)"
      using gc_list_is_empty_iff [OF l] by (subst finalize_loop.simps) simp
    then show ?thesis using less.prems Nil by blast
  next
    case (Cons b bs')
    obtain h1 s1 log1 where st: "finalize_first (logged c) coll seen (h, s, log) = (h1, s1, log1)" by (metis prod.exhaust)
    obtain as1 bs1 where I1: "finalize_inv c h0 coll xs seen as1 bs1 h1 log1" "length bs1 \<le> length bs'"
      using finalize_first_inv [OF ok less.prems [unfolded Cons] d st] by blast
    have "finalize_loop (logged c) coll seen (h, s, log) = finalize_loop (logged c) coll seen (h1, s1, log1)"
      using gc_list_is_empty_iff [OF l] Cons st by (subst finalize_loop.simps) simp
    moreover have "length bs1 < length bs" using I1(2) Cons by simp
    ultimately show ?thesis using less.hyps [OF _ I1(1)] by metis
  qed
qed

theorem finalize_garbage_finalizes:
  assumes ok: "finalizers_ok c coll seen" and l: "gc_list h coll xs" and s: "aligned seen" "seen \<notin> set (coll # xs)"
  shows "\<exists>h' s' log ys. finalize_garbage (logged c) seen coll (h, s, []) = Some (h', s', log) \<and>
    gc_list h' coll ys \<and> subseq ys xs \<and> distinct log \<and>
    set log \<subseteq> FROM_GC ` {x \<in> set xs. \<not> gc_finalized h x \<and> tp_finalize c (FROM_GC x)} \<and>
    (\<forall>y\<in>set ys. \<not> gc_finalized h y \<and> tp_finalize c (FROM_GC y) \<longrightarrow> FROM_GC y \<in> set log) \<and>
    (\<forall>y\<in>set ys. gc_finalized h' y \<longleftrightarrow> gc_finalized h y \<or> tp_finalize c (FROM_GC y))"
proof -
  have d: "distinct (seen # coll # xs)" using l s by (auto simp: gc_list_def)
  let ?h = "gc_list_init h seen"
  have same: "same_at h ?h a" if "a \<noteq> seen" for a using that by (simp add: gc_list_init_def same_at_def)
  have l1: "gc_list ?h coll xs"
  proof (subst gc_list_same [of _ _ h])
    fix a assume "a \<in> set (coll # xs)"
    then show "same_at h ?h a" using s by (intro same) auto
  qed (rule l)
  have "gc_finalized ?h a = gc_finalized h a" if "a \<in> set xs" for a
  proof -
    have "a \<noteq> seen" using that s by auto
    then show ?thesis using same [of a] by (simp add: same_at_def gc_finalized_def)
  qed
  then have "finalize_inv c h coll xs seen [] xs ?h []" using l1 gc_list_empty [OF s(1)] by (simp add: finalize_inv_def)
  from finalize_loop_ends [OF ok d this] obtain h1 s1 log ys where
    r: "finalize_loop (logged c) coll seen (?h, s, []) = Some (h1, s1, log)" and I: "finalize_inv c h coll xs seen ys [] h1 log" by blast
  have L: "gc_list h1 coll []" "gc_list h1 seen ys" "subseq ys xs" using I by (simp_all add: finalize_inv_def)
  let ?h1 = "gc_list_merge h1 seen coll"
  have dis: "set (seen # ys) \<inter> set (coll # []) = {}" using d subseq_set [OF L(3)] by auto
  have m: "gc_list ?h1 coll ys" using gc_list_merge_lists [OF L(2,1) dis] by simp
  have "gc_finalized ?h1 y = gc_finalized h1 y" if "y \<in> set ys" for y
  proof (rule gc_list_merge_finalized [OF L(2,1)])
    show "y \<noteq> seen" using that L(2) by (auto simp: gc_list_def)
  qed
  moreover have "finalize_garbage (logged c) seen coll (h, s, []) = Some (?h1, s1, log)"
    by (simp add: finalize_garbage_def r)
  ultimately show ?thesis using I m L(3) unfolding finalize_inv_def by auto
qed

section \<open>Clearing\<close>

definition clears_ok :: "'s gccalls \<Rightarrow> addr \<Rightarrow> addr \<Rightarrow> bool" where
  "clears_ok c collectable old \<longleftrightarrow>
    (\<forall>op h s h' s' xs os.
       call_clear c op (h, s) = (h', s') \<or> (\<exists>b. garbage_append c op (h, s) = (b, h', s')) \<longrightarrow>
       gc_list h collectable xs \<longrightarrow> gc_list h old os \<longrightarrow> set (collectable # xs) \<inter> set (old # os) = {} \<longrightarrow>
       (\<exists>xs' os'. gc_list h' collectable xs' \<and> subseq xs' xs \<and> gc_list h' old os' \<and>
         set (collectable # xs') \<inter> set (old # os') = {}))"

definition calls_quiet :: "'s gccalls \<Rightarrow> bool" where
  "calls_quiet c \<longleftrightarrow> (\<forall>op st. fst (call_clear c op st) = fst st \<and> fst (snd (garbage_append c op st)) = fst st)"

abbreviation (input) to_clear :: "'s gccalls \<Rightarrow> addr \<Rightarrow> bool" where
  "to_clear c x \<equiv> debug_saveall c \<or> tp_clear c (FROM_GC x)"

definition del_inv ::
  "'s gccalls \<Rightarrow> addr \<Rightarrow> addr list \<Rightarrow> addr \<Rightarrow> addr list \<Rightarrow> addr list \<Rightarrow> addr list \<Rightarrow> gcheap \<Rightarrow> addr list \<Rightarrow> bool" where
  "del_inv c coll xs old os0 bs os h log \<longleftrightarrow>
     gc_list h coll bs \<and> subseq bs xs \<and> gc_list h old os \<and> set (coll # bs) \<inter> set (old # os) = {} \<and>
     distinct log \<and> set log \<inter> FROM_GC ` set bs = {} \<and> set log \<subseteq> FROM_GC ` {x \<in> set xs. to_clear c x} \<and>
     (calls_quiet c \<longrightarrow> (\<exists>as. xs = as @ bs \<and> os = os0 @ as \<and> log = map FROM_GC (filter (to_clear c) as)))"

definition clear_call :: "'s gccalls \<Rightarrow> addr \<Rightarrow> gcheap \<times> 's \<Rightarrow> gcheap \<times> 's" where
  "clear_call c op st =
    (if debug_saveall c then snd (garbage_append c op st) else if tp_clear c op then call_clear c op st else st)"

lemma clear_call_ok:
  assumes ok: "clears_ok c coll old" and l: "gc_list h coll xs" "gc_list h old os" "set (coll # xs) \<inter> set (old # os) = {}"
    and st: "clear_call c op (h, s) = (h', s')"
  shows "\<exists>xs' os'. gc_list h' coll xs' \<and> subseq xs' xs \<and> gc_list h' old os' \<and> set (coll # xs') \<inter> set (old # os') = {} \<and>
    (calls_quiet c \<longrightarrow> xs' = xs \<and> os' = os)"
proof (cases "calls_quiet c")
  case True
  then have "h' = h" using st by (auto simp: clear_call_def calls_quiet_def split: if_splits)
      (metis fst_conv)+
  then show ?thesis using l by blast
next
  case False
  consider "\<exists>b. garbage_append c op (h, s) = (b, h', s')" | "call_clear c op (h, s) = (h', s')" | "h' = h"
    using st by (cases "garbage_append c op (h, s)") (auto simp: clear_call_def split: if_splits)
  then show ?thesis
  proof cases
    case 3
    then show ?thesis using l False by blast
  qed (use ok [unfolded clears_ok_def, rule_format, OF _ l] False in blast)+
qed

lemma logged_clear_call:
  assumes "clear_call (logged c) op (h, s, log) = (h', s', log')"
  shows "clear_call c op (h, s) = (h', s')" "log' = (if debug_saveall c \<or> tp_clear c op then log @ [op] else log)"
  using assms by (auto simp: clear_call_def logged_def split: if_splits prod.splits)

lemma delete_first_inv:
  assumes ok: "clears_ok c coll old" and I: "del_inv c coll xs old os0 (b # bs) os h log"
    and d: "distinct xs" and st: "delete_first (logged c) coll old (h, s, log) = (h', s', log')"
  shows "\<exists>bs' os'. del_inv c coll xs old os0 bs' os' h' log' \<and> length bs' \<le> length bs"
proof -
  have L: "gc_list h coll (b # bs)" "subseq (b # bs) xs" "gc_list h old os" "set (coll # b # bs) \<inter> set (old # os) = {}"
    and lg: "distinct log" "set log \<inter> FROM_GC ` set (b # bs) = {}" "set log \<subseteq> FROM_GC ` {x \<in> set xs. to_clear c x}"
    and q: "calls_quiet c \<Longrightarrow> \<exists>as. xs = as @ b # bs \<and> os = os0 @ as \<and> log = map FROM_GC (filter (to_clear c) as)"
    using I unfolding del_inv_def by blast+
  have gc: "GC_NEXT h coll = b" using gc_list_GC_NEXT [OF L(1)] by simp
  have dx: "distinct (b # bs)" by (rule subseq_distinct [OF L(2) d])
  obtain h1 s1 log1 where cl: "clear_call (logged c) (FROM_GC b) (h, s, log) = (h1, s1, log1)" by (metis prod.exhaust)
  note lc = logged_clear_call [OF cl]
  from clear_call_ok [OF ok L(1,3,4) lc(1)] obtain cs os1 where
    c1: "gc_list h1 coll cs" "subseq cs (b # bs)" "gc_list h1 old os1" "set (coll # cs) \<inter> set (old # os1) = {}"
    and qc: "calls_quiet c \<Longrightarrow> cs = b # bs \<and> os1 = os" by blast
  have e: "(h', log') = (if GC_NEXT h1 coll = b then gc_list_move (gc_clear_collecting h1 b) b old else h1, log1)"
    using st cl gc by (auto simp: delete_first_def clear_call_def Let_def split: if_splits)
  have l1: "distinct log1" "set log1 \<inter> FROM_GC ` set bs = {}" "set log1 \<subseteq> FROM_GC ` {x \<in> set xs. to_clear c x}"
    using lg dx subseq_set [OF L(2)] unfolding lc(2) by (auto simp: inj_FROM_GC)
  have n1: "GC_NEXT h1 coll = hd (cs @ [coll])" by (rule gc_list_GC_NEXT [OF c1(1)])
  have bx: "subseq bs xs" using L(2) by (rule subseq_Cons')
  have cb: "b \<noteq> coll" using L(1) by (auto simp: gc_list_def)
  show ?thesis
  proof (cases "GC_NEXT h1 coll = b")
    case True
    then obtain cs' where cs: "cs = b # cs'" using n1 cb by (cases cs) auto
    have sb: "subseq cs' bs" using c1(2) cs by simp
    let ?k = "gc_clear_collecting h1 b"
    have "b \<noteq> old" using L(4) by auto
    then have k: "gc_list ?k coll (b # cs')" "gc_list ?k old os1"
      using c1(1,3) cb cs by (simp_all add: gc_list_def)
    have seg: "gc_seg ?k coll [] ([] @ b # cs')" using k(1) by (simp add: gc_list_seg)
    have dis: "set (coll # [] @ [] @ b # cs') \<inter> set (old # os1) = {}" using c1(4) cs by simp
    have m: "gc_list h' coll cs'" "gc_list h' old (os1 @ [b])"
      using gc_seg_move_from [OF seg k(2) dis] gc_seg_move_to [OF seg k(2) dis] e True by (simp_all add: gc_list_seg)
    have "set (coll # cs') \<inter> set (old # os1 @ [b]) = {}"
      using dis cb subseq_set [OF sb] dx by auto
    moreover have "\<exists>as. xs = as @ cs' \<and> os1 @ [b] = os0 @ as \<and> log1 = map FROM_GC (filter (to_clear c) as)" if quiet: "calls_quiet c"
    proof -
      obtain as where "xs = as @ b # bs" "os = os0 @ as" "log = map FROM_GC (filter (to_clear c) as)" using q [OF quiet] by blast
      then show ?thesis using qc [OF quiet] cs lc(2) by (intro exI [of _ "as @ [b]"]) auto
    qed
    moreover have "subseq cs' xs" using sb bx by (rule subseq_order.trans)
    moreover have "set log1 \<inter> FROM_GC ` set cs' = {}" using l1(2) subseq_set [OF sb] by blast
    ultimately have "del_inv c coll xs old os0 cs' (os1 @ [b]) h' log'"
      unfolding del_inv_def using m l1 e by simp
    then show ?thesis using list_emb_length [OF sb] by blast
  next
    case False
    have sb: "subseq cs bs"
    proof (cases cs)
      case (Cons x cs')
      then have "x \<noteq> b" using False n1 by simp
      then show ?thesis using c1(2) Cons subseq_Cons2_neq by metis
    qed simp
    have nq: "\<not> calls_quiet c" using qc False n1 by auto
    have "subseq cs xs" using sb bx by (rule subseq_order.trans)
    moreover have "set log1 \<inter> FROM_GC ` set cs = {}" using l1(2) subseq_set [OF sb] by blast
    ultimately have "del_inv c coll xs old os0 cs os1 h' log'"
      unfolding del_inv_def using c1 l1 e False nq by simp
    then show ?thesis using list_emb_length [OF sb] by blast
  qed
qed

lemma delete_garbage_loop:
  assumes ok: "clears_ok c coll old" and d: "distinct xs"
  shows "del_inv c coll xs old os0 bs os h log \<Longrightarrow>
    \<exists>h' s' log' os'. delete_garbage (logged c) coll old (h, s, log) = Some (h', s', log') \<and>
      del_inv c coll xs old os0 [] os' h' log'"
proof (induction "length bs" arbitrary: bs os h s log rule: less_induct)
  case less
  have l: "gc_list h coll bs" using less.prems by (simp add: del_inv_def)
  show ?case
  proof (cases bs)
    case Nil
    then have "delete_garbage (logged c) coll old (h, s, log) = Some (h, s, log)"
      using gc_list_is_empty_iff [OF l] by (subst delete_garbage.simps) simp
    then show ?thesis using less.prems Nil by blast
  next
    case (Cons b bs')
    obtain h1 s1 log1 where st: "delete_first (logged c) coll old (h, s, log) = (h1, s1, log1)" by (metis prod.exhaust)
    obtain bs1 os1 where I1: "del_inv c coll xs old os0 bs1 os1 h1 log1" "length bs1 \<le> length bs'"
      using delete_first_inv [OF ok less.prems [unfolded Cons] d st] by blast
    have "delete_garbage (logged c) coll old (h, s, log) = delete_garbage (logged c) coll old (h1, s1, log1)"
      using gc_list_is_empty_iff [OF l] Cons st by (subst delete_garbage.simps) simp
    moreover have "length bs1 < length bs" using I1(2) Cons by simp
    ultimately show ?thesis using less.hyps [OF _ I1(1)] by metis
  qed
qed

theorem delete_garbage_clears:
  assumes ok: "clears_ok c coll old" and l: "gc_list h coll xs" "gc_list h old os" "set (coll # xs) \<inter> set (old # os) = {}"
  shows "\<exists>h' s' log os'. delete_garbage (logged c) coll old (h, s, []) = Some (h', s', log) \<and>
    gc_list h' coll [] \<and> gc_list h' old os' \<and> distinct log \<and> set log \<subseteq> FROM_GC ` {x \<in> set xs. to_clear c x} \<and>
    (calls_quiet c \<longrightarrow> os' = os @ xs \<and> log = map FROM_GC (filter (to_clear c) xs))"
proof -
  have "distinct xs" using l(1) by (simp add: gc_list_def)
  moreover have "del_inv c coll xs old os xs os h []" using l by (simp add: del_inv_def)
  ultimately obtain h' s' log os' where
    "delete_garbage (logged c) coll old (h, s, []) = Some (h', s', log)" "del_inv c coll xs old os [] os' h' log"
    using delete_garbage_loop [OF ok] by blast
  then show ?thesis unfolding del_inv_def by auto
qed

section \<open>Uncollectable garbage\<close>

text \<open>\<open>PyList_Append\<close> leaves the headers alone and may fail; then the remaining objects are not reported.\<close>

definition reported :: "gcenv \<Rightarrow> 's gccalls \<Rightarrow> addr list \<Rightarrow> addr list" where
  "reported env c xs = map FROM_GC (filter (\<lambda>x. debug_saveall c \<or> legacy env x) xs)"

lemma handle_legacy_finalizers_reports:
  assumes quiet: "\<And>op st. fst (snd (garbage_append c op st)) = fst st"
    and l: "gc_list h fin xs" "gc_list h old os" "set (fin # xs) \<inter> set (old # os) = {}"
  shows "\<exists>h' s' log. handle_legacy_finalizers env (logged c) fin old (h, s, []) = Some (h', s', log) \<and>
    gc_list h' old (os @ xs) \<and> gc_list h' fin [] \<and> prefix log (reported env c xs) \<and>
    ((\<forall>op st. fst (garbage_append c op st)) \<longrightarrow> log = reported env c xs)"
proof -
  let ?body = "report_garbage env (logged c) fin"
  have walk: "xs = as @ bs \<Longrightarrow> \<exists>s' log'. gc_while fin ?body (hd (bs @ [fin])) (h, s, reported env c as) = Some (h, s', log') \<and>
      prefix log' (reported env c xs) \<and> ((\<forall>op st. fst (garbage_append c op st)) \<longrightarrow> log' = reported env c xs)" for as bs s
  proof (induction bs arbitrary: as s)
    case Nil
    then show ?case by simp
  next
    case (Cons b bs)
    have nf: "b \<noteq> fin" using l(1) Cons.prems by (auto simp: gc_list_def)
    have nx: "GC_NEXT h b = hd (bs @ [fin])" using gc_list_neighbours(2) [of h fin as b bs] l(1) Cons.prems by simp
    obtain ok h1 s1 where g: "garbage_append c (FROM_GC b) (h, s) = (ok, h1, s1)" by (metis prod.exhaust)
    have h1: "h1 = h" using quiet [of "FROM_GC b" "(h, s)"] g by simp
    show ?case
    proof (cases "debug_saveall c \<or> legacy env b")
      case False
      then have "?body b (h, s, reported env c as) = (hd (bs @ [fin]), h, s, reported env c (as @ [b]))"
        by (simp add: report_garbage_def logged_def legacy_def has_legacy_finalizer_def Let_def nx reported_def)
      from gc_while_step [where body = ?body, OF nf this] show ?thesis using Cons.IH [of "as @ [b]" s] Cons.prems by simp
    next
      case True
      then have r: "reported env c (as @ [b]) = reported env c as @ [FROM_GC b]" by (auto simp: reported_def)
      have body: "?body b (h, s, reported env c as) = (if ok then hd (bs @ [fin]) else fin, h, s1, reported env c (as @ [b]))"
        using True g by (auto simp: report_garbage_def logged_def legacy_def has_legacy_finalizer_def Let_def nx r h1)
      show ?thesis
      proof (cases ok)
        case ok: True
        then show ?thesis using gc_while_step [where body = ?body, OF nf body] Cons.IH [of "as @ [b]" s1] Cons.prems by simp
      next
        case bad: False
        have "prefix (reported env c (as @ [b])) (reported env c xs)" by (simp add: Cons.prems reported_def)
        moreover have "\<not> (\<forall>op st. fst (garbage_append c op st))" using g bad by (metis fst_conv)
        ultimately show ?thesis using gc_while_step [where body = ?body, OF nf body] bad by auto
      qed
    qed
  qed
  obtain s' log where w: "gc_while fin ?body (hd (xs @ [fin])) (h, s, []) = Some (h, s', log)"
    and p: "prefix log (reported env c xs)" "(\<forall>op st. fst (garbage_append c op st)) \<longrightarrow> log = reported env c xs"
    using walk [of "[]" xs s] unfolding reported_def [of env c "[]"] by auto blast
  have "handle_legacy_finalizers env (logged c) fin old (h, s, []) = Some (gc_list_merge h fin old, s', log)"
    using w gc_list_GC_NEXT [OF l(1)] unfolding handle_legacy_finalizers_def by simp
  then show ?thesis using gc_list_merge_lists [OF l(1,2,3)] p by auto
qed

end
