(* ===== verification/GC_Parallel.thy ===== *)
theory GC_Parallel
  imports GC_Deduce "HOL-Library.Signed_Division"
begin

text \<open>
  The parallel collector of \<open>parallel_gc.c\<close>: the semaphore and the barrier, the division of the
  generation among the workers, the workers themselves and \<open>Ci_deduce_unreachable_parallel\<close>.

  A worker is a program counter; \<open>worker_step\<close> executes one access to shared memory: an atomic load,
  store or read-modify-write of a header, one operation of a deque, of the semaphore or of a barrier
  (each a critical section of its mutex). An interleaving of the workers is a sequence of steps, in
  any order; the accesses are sequentially consistent. A deque is used through its operations
  \<open>Ci_WSDeque_Push\<close>, \<open>Ci_WSDeque_Take\<close> and \<open>Ci_WSDeque_Steal\<close>, each one action on its contents. The load counters, which are only printed, are left out.
\<close>

section \<open>Definitions\<close>

subsection \<open>The semaphore and the barrier\<close>

type_synonym Ci_Sema = nat

definition Ci_Sema_Init :: Ci_Sema where
  "Ci_Sema_Init = 0"

definition Ci_Sema_Post :: "Ci_Sema \<Rightarrow> nat \<Rightarrow> Ci_Sema" where
  "Ci_Sema_Post tokens_left tokens = tokens_left + tokens"

text \<open>\<open>None\<close>: the thread waits for the condition variable.\<close>

definition Ci_Sema_Wait :: "Ci_Sema \<Rightarrow> Ci_Sema option" where
  "Ci_Sema_Wait tokens_left = (if tokens_left = 0 then None else Some (tokens_left - 1))"

record Ci_Barrier =
  num_left :: "32 word"
  capacity :: "32 word"
  epoch :: "32 word"

definition Ci_Barrier_Init :: "nat \<Rightarrow> Ci_Barrier" where
  "Ci_Barrier_Init n = \<lparr>num_left = of_nat n, capacity = of_nat n, epoch = 0\<rparr>"

text \<open>
  \<open>Ci_Barrier_Wait\<close> up to its first wait: the barrier is lifted (\<open>None\<close>), or the thread waits with the epoch it
  saw; it leaves the loop when the epoch has changed.
\<close>

definition Ci_Barrier_Arrive :: "Ci_Barrier \<Rightarrow> 32 word option \<times> Ci_Barrier" where
  "Ci_Barrier_Arrive b =
    (let b = b\<lparr>num_left := num_left b - 1\<rparr> in
     if num_left b = 0 then (None, b\<lparr>num_left := capacity b, epoch := epoch b + 1\<rparr>)
     else (Some (epoch b), b))"

definition Ci_Barrier_Passed :: "Ci_Barrier \<Rightarrow> 32 word \<Rightarrow> bool" where
  "Ci_Barrier_Passed b e \<longleftrightarrow> e \<noteq> epoch b"

subsection \<open>Slices of the list\<close>

record Ci_GCSlice =
  slice_start :: addr
  slice_end :: addr

text \<open>
  The divisions of \<open>Ci_assign_worker_slices\<close> are those of C and round towards 0. The numbers of objects and workers
  are positive (its assertion), and so is the index.
\<close>

definition Ci_assign_worker_slices :: "gcheap \<Rightarrow> nat \<Rightarrow> addr \<Rightarrow> int \<Rightarrow> Ci_GCSlice list option" where
  "Ci_assign_worker_slices h num_workers base num_objects =
    (let workers = replicate num_workers \<lparr>slice_start = 0, slice_end = 0\<rparr>;
         objs_per_slice = num_objects sdiv int num_workers in
     map_option
       (\<lambda>(workers, idx, seen). workers[nat idx := (workers ! nat idx)\<lparr>slice_end := base\<rparr>])
       (gc_while base
          (\<lambda>gc (workers, idx, seen :: int).
             let idx = seen sdiv objs_per_slice;
                 idx = (if idx < int num_workers then idx else int num_workers - 1);
                 workers =
                   (if slice_start (workers ! nat idx) = 0
                    then let workers = workers[nat idx := (workers ! nat idx)\<lparr>slice_start := gc\<rparr>]
                         in if idx > 0
                            then workers[nat (idx - 1) := (workers ! nat (idx - 1))\<lparr>slice_end := gc\<rparr>]
                            else workers
                    else workers)
             in (GC_NEXT h gc, workers, idx, seen + 1))
          (GC_NEXT h base) (workers, 0, 0)))"

subsection \<open>Header accesses of the workers\<close>

definition Ci_gc_is_collecting_atomic :: "gcheap \<Rightarrow> addr \<Rightarrow> bool" where
  "Ci_gc_is_collecting_atomic h g = (gc_prev h g AND PREV_MASK_COLLECTING \<noteq> 0)"

definition Ci_gc_get_collecting_and_finalized_atomic :: "gcheap \<Rightarrow> addr \<Rightarrow> bool \<times> bool" where
  "Ci_gc_get_collecting_and_finalized_atomic h g =
     (gc_prev h g AND PREV_MASK_COLLECTING \<noteq> 0, gc_prev h g AND PREV_MASK_FINALIZED \<noteq> 0)"

definition Ci_gc_decref_atomic :: "gcheap \<Rightarrow> addr \<Rightarrow> gcheap" where
  "Ci_gc_decref_atomic h g = put_prev h g (gc_prev h g - push_bit PREV_SHIFT 1)"

definition Ci_gc_is_collecting_and_reachable_atomic :: "gcheap \<Rightarrow> addr \<Rightarrow> bool \<times> bool" where
  "Ci_gc_is_collecting_and_reachable_atomic h g =
     (drop_bit PREV_SHIFT (gc_prev h g) \<noteq> 0 \<and> gc_prev h g AND PREV_MASK_COLLECTING \<noteq> 0,
      gc_prev h g AND PREV_MASK_FINALIZED \<noteq> 0)"

definition Ci_gc_mark_reachable_and_clear_collecting_atomic :: "gcheap \<Rightarrow> addr \<Rightarrow> bool \<Rightarrow> gcheap" where
  "Ci_gc_mark_reachable_and_clear_collecting_atomic h g finalized =
     put_prev h g (push_bit PREV_SHIFT 1 OR (if finalized then 1 else 0))"

subsection \<open>Deques\<close>

text \<open>
  The contents of a deque between \<open>top\<close> and \<open>bot\<close>. While its owner is inside \<open>Ci_WSDeque_Take\<close>, \<open>bot\<close> is lowered:
  a reader may then find one object less, and a thief may find nothing where one object is left. \<open>WS_Deque_Correct\<close>
  shows that the operations of \<open>ws_deque.h\<close>, step by step, have these effects.
\<close>

record deque =
  dq_top :: nat
  dq_items :: "addr list"

definition dq_new :: deque where
  "dq_new = \<lparr>dq_top = 1, dq_items = []\<rparr>"

definition dq_bot :: "deque \<Rightarrow> nat" where
  "dq_bot q = dq_top q + length (dq_items q)"

definition dq_read_bot :: "bool \<Rightarrow> deque \<Rightarrow> nat" where
  "dq_read_bot taking q = dq_bot q - (if taking then 1 else 0)"

definition dq_push :: "addr \<Rightarrow> deque \<Rightarrow> deque" where
  "dq_push op q = q\<lparr>dq_items := dq_items q @ [op]\<rparr>"

definition dq_take :: "deque \<Rightarrow> addr option \<times> deque" where
  "dq_take q =
    (if dq_items q = [] then (None, q)
     else (Some (last (dq_items q)),
           if length (dq_items q) = 1 then q\<lparr>dq_top := dq_top q + 1, dq_items := []\<rparr>
           else q\<lparr>dq_items := butlast (dq_items q)\<rparr>))"

definition dq_steal :: "bool \<Rightarrow> deque \<Rightarrow> addr option \<times> deque" where
  "dq_steal taking q =
    (if dq_items q = [] \<or> taking \<and> length (dq_items q) = 1 then (None, q)
     else (Some (hd (dq_items q)), q\<lparr>dq_top := dq_top q + 1, dq_items := tl (dq_items q)\<rparr>))"

subsection \<open>Workers\<close>

text \<open>Where a traversal started by a worker continues: the slice after a node, or the mark queue.\<close>

datatype after = AfterSlice addr | AfterQueue

datatype pc =
    Start
  | SubSlice addr
  | SubVisit addr "addr list"
  | SubDec addr addr "addr list"
  | MarkBarrier
  | MarkBarrierWait "32 word"
  | MarkSlice addr
  | MarkSliceStore addr bool
  | Visit after "addr list"
  | VisitStore after addr bool "addr list"
  | VisitPush after addr "addr list"
  | Take
  | Steal "nat list"
  | TryCoord
  | CoordLoad
  | CoordFinish
  | CoordPostFinal nat
  | CoordSum nat nat int
  | CoordSumTop nat nat int nat
  | CoordAdd nat
  | CoordPost nat
  | DropCoord
  | WaitDec
  | WaitSema
  | CheckMarking
  | DoneBarrier
  | DoneBarrierWait "32 word"
  | ActiveDec
  | Exit

record par =
  p_heap :: gcheap
  p_pc :: "nat \<Rightarrow> pc"
  p_deque :: "nat \<Rightarrow> deque"
  p_marking :: int
  p_coordinator :: "nat option"
  p_sema :: Ci_Sema
  p_mark_barrier :: Ci_Barrier
  p_done_barrier :: Ci_Barrier
  p_active :: int

definition goto :: "nat \<Rightarrow> pc \<Rightarrow> par \<Rightarrow> par" where
  "goto w c s = s\<lparr>p_pc := (p_pc s)(w := c)\<rparr>"

definition set_deque :: "nat \<Rightarrow> deque \<Rightarrow> par \<Rightarrow> par" where
  "set_deque w q s = s\<lparr>p_deque := (p_deque s)(w := q)\<rparr>"

text \<open>The order in which \<open>Ci_ParGCWorker_MaybeSteal\<close> tries its victims, from a random start.\<close>

definition victims :: "nat \<Rightarrow> nat \<Rightarrow> nat \<Rightarrow> nat list" where
  "victims n start w = filter (\<lambda>v. v \<noteq> w) (map (\<lambda>i. (start + i) mod n) [0..<n])"

definition resume :: "gcheap \<Rightarrow> after \<Rightarrow> pc" where
  "resume h k =
    (case k of AfterSlice gc \<Rightarrow> MarkSlice (GC_NEXT h gc) | AfterQueue \<Rightarrow> Take)"

text \<open>
  One step of worker \<open>w\<close> of \<open>n\<close>. The number \<open>r\<close> stands for what the state does not determine: when the worker
  starts to steal it is what its random generator gives, and when it accesses a deque of another worker it tells
  (\<open>r \<noteq> 0\<close>) that the access falls into a \<open>Ci_WSDeque_Take\<close> of that worker. \<open>None\<close> is a blocked worker.
\<close>

definition worker_step ::
  "gcenv \<Rightarrow> Ci_GCSlice list \<Rightarrow> nat \<Rightarrow> nat \<Rightarrow> nat \<Rightarrow> par \<Rightarrow> par option" where
  "worker_step env slices n r w s =
    (let h = p_heap s; sl = slices ! w in
     case p_pc s w of
       Start \<Rightarrow> Some (goto w (SubSlice (slice_start sl)) (s\<lparr>p_active := p_active s + 1\<rparr>))
     | SubSlice gc \<Rightarrow>
         Some (goto w (if gc = slice_end sl then MarkBarrier
                       else SubVisit gc (tp_traverse env (FROM_GC gc))) s)
     | SubVisit gc [] \<Rightarrow> Some (goto w (SubSlice (GC_NEXT h gc)) s)
     | SubVisit gc (op # ops) \<Rightarrow>
         Some (goto w (if is_gc env op \<and> Ci_gc_is_collecting_atomic h (AS_GC op)
                       then SubDec gc (AS_GC op) ops else SubVisit gc ops) s)
     | SubDec gc x ops \<Rightarrow> Some (goto w (SubVisit gc ops) (s\<lparr>p_heap := Ci_gc_decref_atomic h x\<rparr>))
     | MarkBarrier \<Rightarrow>
         (case Ci_Barrier_Arrive (p_mark_barrier s) of
            (None, b) \<Rightarrow> Some (goto w (MarkSlice (slice_start sl)) (s\<lparr>p_mark_barrier := b\<rparr>))
          | (Some e, b) \<Rightarrow> Some (goto w (MarkBarrierWait e) (s\<lparr>p_mark_barrier := b\<rparr>)))
     | MarkBarrierWait e \<Rightarrow>
         (if Ci_Barrier_Passed (p_mark_barrier s) e
          then Some (goto w (MarkSlice (slice_start sl)) s) else None)
     | MarkSlice gc \<Rightarrow>
         Some (goto w
           (if gc = slice_end sl then Take
            else (case Ci_gc_is_collecting_and_reachable_atomic h gc of
                    (reachable, finalized) \<Rightarrow>
                      if reachable then MarkSliceStore gc finalized
                      else MarkSlice (GC_NEXT h gc))) s)
     | MarkSliceStore gc finalized \<Rightarrow>
         Some (goto w (Visit (AfterSlice gc) (tp_traverse env (FROM_GC gc)))
           (s\<lparr>p_heap := Ci_gc_mark_reachable_and_clear_collecting_atomic h gc finalized\<rparr>))
     | Visit k [] \<Rightarrow> Some (goto w (resume h k) s)
     | Visit k (op # ops) \<Rightarrow>
         Some (goto w
           (if \<not> is_gc env op then Visit k ops
            else (case Ci_gc_get_collecting_and_finalized_atomic h (AS_GC op) of
                    (is_collecting, is_finalized) \<Rightarrow>
                      if \<not> is_collecting then Visit k ops
                      else VisitStore k op is_finalized ops)) s)
     | VisitStore k op finalized ops \<Rightarrow>
         Some (goto w (VisitPush k op ops)
           (s\<lparr>p_heap := Ci_gc_mark_reachable_and_clear_collecting_atomic h (AS_GC op) finalized\<rparr>))
     | VisitPush k op ops \<Rightarrow>
         Some (goto w (Visit k ops) (set_deque w (dq_push op (p_deque s w)) s))
     | Take \<Rightarrow>
         (case dq_take (p_deque s w) of
            (None, q) \<Rightarrow> Some (goto w (Steal (victims n r w)) (set_deque w q s))
          | (Some op, q) \<Rightarrow> Some (goto w (Visit AfterQueue (tp_traverse env op)) (set_deque w q s)))
     | Steal [] \<Rightarrow> Some (goto w TryCoord s)
     | Steal (v # vs) \<Rightarrow>
         (case dq_steal (r \<noteq> 0) (p_deque s v) of
            (None, q) \<Rightarrow> Some (goto w (Steal vs) (set_deque v q s))
          | (Some op, q) \<Rightarrow> Some (goto w (Visit AfterQueue (tp_traverse env op)) (set_deque v q s)))
     | TryCoord \<Rightarrow>
         (if p_coordinator s = None
          then Some (goto w CoordLoad (s\<lparr>p_coordinator := Some w\<rparr>))
          else Some (goto w WaitDec s))
     | CoordLoad \<Rightarrow>
         Some (goto w (if p_marking s = 1 then CoordFinish else CoordSum 0 0 (p_marking s)) s)
     | CoordFinish \<Rightarrow> Some (goto w (CoordPostFinal (n - 1)) (s\<lparr>p_marking := p_marking s - 1\<rparr>))
     | CoordPostFinal k \<Rightarrow> Some (goto w DropCoord (s\<lparr>p_sema := Ci_Sema_Post (p_sema s) k\<rparr>))
     | CoordSum i work m \<Rightarrow>
         Some (goto w
           (if i < n then CoordSumTop i work m (dq_read_bot (r \<noteq> 0) (p_deque s i))
            else if work > 0
            then (let wake = min work (nat (int n - m)) in if wake > 0 then CoordAdd wake else DropCoord)
            else CoordLoad) s)
     | CoordSumTop i work m bt \<Rightarrow>
         Some (goto w
           (CoordSum (i + 1) (work + (if bt < dq_top (p_deque s i) then 0 else bt - dq_top (p_deque s i))) m) s)
     | CoordAdd k \<Rightarrow> Some (goto w (CoordPost k) (s\<lparr>p_marking := p_marking s + int k\<rparr>))
     | CoordPost k \<Rightarrow> Some (goto w DropCoord (s\<lparr>p_sema := Ci_Sema_Post (p_sema s) k\<rparr>))
     | DropCoord \<Rightarrow> Some (goto w CheckMarking (s\<lparr>p_coordinator := None\<rparr>))
     | WaitDec \<Rightarrow> Some (goto w WaitSema (s\<lparr>p_marking := p_marking s - 1\<rparr>))
     | WaitSema \<Rightarrow>
         (case Ci_Sema_Wait (p_sema s) of
            None \<Rightarrow> None
          | Some t \<Rightarrow> Some (goto w CheckMarking (s\<lparr>p_sema := t\<rparr>)))
     | CheckMarking \<Rightarrow> Some (goto w (if p_marking s \<noteq> 0 then Take else DoneBarrier) s)
     | DoneBarrier \<Rightarrow>
         (case Ci_Barrier_Arrive (p_done_barrier s) of
            (None, b) \<Rightarrow> Some (goto w ActiveDec (s\<lparr>p_done_barrier := b\<rparr>))
          | (Some e, b) \<Rightarrow> Some (goto w (DoneBarrierWait e) (s\<lparr>p_done_barrier := b\<rparr>)))
     | DoneBarrierWait e \<Rightarrow>
         (if Ci_Barrier_Passed (p_done_barrier s) e then Some (goto w ActiveDec s) else None)
     | ActiveDec \<Rightarrow> Some (goto w Exit (s\<lparr>p_active := p_active s - 1\<rparr>))
     | Exit \<Rightarrow> None)"

text \<open>
  The thread that runs the collection is the participant \<open>n\<close> of the last barrier: it arrives there
  once it has started the workers, and \<open>Exit\<close> is the point behind the barrier.
\<close>

definition main_step :: "nat \<Rightarrow> par \<Rightarrow> par option" where
  "main_step n s =
    (case p_pc s n of
       DoneBarrier \<Rightarrow>
         (case Ci_Barrier_Arrive (p_done_barrier s) of
            (None, b) \<Rightarrow> Some (goto n Exit (s\<lparr>p_done_barrier := b\<rparr>))
          | (Some e, b) \<Rightarrow> Some (goto n (DoneBarrierWait e) (s\<lparr>p_done_barrier := b\<rparr>)))
     | DoneBarrierWait e \<Rightarrow>
         (if Ci_Barrier_Passed (p_done_barrier s) e then Some (goto n Exit s) else None)
     | _ \<Rightarrow> None)"

inductive par_run :: "gcenv \<Rightarrow> Ci_GCSlice list \<Rightarrow> nat \<Rightarrow> par \<Rightarrow> par \<Rightarrow> bool" for env slices n where
  here: "par_run env slices n s s"
| worker: "par_run env slices n s s1 \<Longrightarrow> w < n \<Longrightarrow> worker_step env slices n start w s1 = Some s2 \<Longrightarrow>
    par_run env slices n s s2"
| main: "par_run env slices n s s1 \<Longrightarrow> main_step n s1 = Some s2 \<Longrightarrow> par_run env slices n s s2"

subsection \<open>The collection\<close>

text \<open>The shared state of \<open>Ci_ParGCState\<close> that stays between collections: the barriers and the deques.\<close>

definition Ci_ParGCState_New :: "gcheap \<Rightarrow> nat \<Rightarrow> par" where
  "Ci_ParGCState_New h n =
    \<lparr>p_heap = h, p_pc = (\<lambda>_. Exit), p_deque = (\<lambda>_. dq_new), p_marking = 0, p_coordinator = None,
     p_sema = Ci_Sema_Init, p_mark_barrier = Ci_Barrier_Init n, p_done_barrier = Ci_Barrier_Init (n + 1),
     p_active = 0\<rparr>"

definition start_workers :: "nat \<Rightarrow> gcheap \<Rightarrow> par \<Rightarrow> par" where
  "start_workers n h s =
    s\<lparr>p_heap := h, p_marking := int n, p_pc := (\<lambda>w. if w < n then Start else DoneBarrier)\<rparr>"

definition Ci_move_unreachable_parallel :: "gcheap \<Rightarrow> addr \<Rightarrow> addr \<Rightarrow> gcheap option" where
  "Ci_move_unreachable_parallel h base unreachable =
     map_option
       (\<lambda>(h, prev).
          let h = SET_PREV h base prev
          in put_next h unreachable (gc_next h unreachable AND NOT NEXT_MASK_UNREACHABLE))
       (gc_while base
          (\<lambda>gc (h, prev).
             if gc_get_refs h gc = 0
             then let h = SET_NEXT h prev (GC_NEXT h gc);
                      last = GC_PREV h unreachable;
                      h = put_next h last (NEXT_MASK_UNREACHABLE OR gc);
                      h = SET_PREV h gc last;
                      h = put_next h gc (NEXT_MASK_UNREACHABLE OR unreachable);
                      h = put_prev h unreachable gc
                  in (GC_NEXT h prev, h, prev)
             else let h = SET_PREV h gc prev;
                      h = gc_clear_collecting h gc
                  in (GC_NEXT h gc, h, gc))
          (GC_NEXT h base) (h, base))"

definition Ci_restore_prev_ptrs :: "gcheap \<Rightarrow> addr \<Rightarrow> gcheap option" where
  "Ci_restore_prev_ptrs h containers =
     map_option fst
       (gc_while containers
          (\<lambda>gc (h, prev).
             let h = SET_PREV h gc prev;
                 h = gc_clear_collecting h gc
             in (GC_NEXT h gc, h, gc))
          (GC_NEXT h containers) (h, containers))"

text \<open>
  The number of objects is counted in a \<open>size_t\<close> and stored in an \<open>unsigned int\<close>, which is passed on as an
  \<open>int\<close>.
\<close>

definition to_uint :: "nat \<Rightarrow> nat" where
  "to_uint k = k mod 2 ^ 32"

definition to_int :: "nat \<Rightarrow> int" where
  "to_int k = (if k < 2 ^ 31 then int k else int k - 2 ^ 32)"

inductive Ci_deduce_unreachable_parallel ::
  "gcenv \<Rightarrow> addr \<Rightarrow> nat \<Rightarrow> par \<Rightarrow> gcheap \<Rightarrow> addr \<Rightarrow> addr \<Rightarrow> par \<Rightarrow> gcheap \<Rightarrow> bool"
  for env perm n s h base unreachable where
  few: "update_refs env perm h base = Some (h1, seen) \<Longrightarrow> to_uint seen < n \<Longrightarrow>
    Ci_restore_prev_ptrs h1 base = Some h2 \<Longrightarrow>
    deduce_unreachable env perm h2 base unreachable = Some h' \<Longrightarrow>
    Ci_deduce_unreachable_parallel env perm n s h base unreachable s h'"
| many: "update_refs env perm h base = Some (h1, seen) \<Longrightarrow> \<not> to_uint seen < n \<Longrightarrow>
    Ci_assign_worker_slices h1 n base (to_int (to_uint seen)) = Some slices \<Longrightarrow>
    par_run env slices n (start_workers n h1 s) s' \<Longrightarrow> p_pc s' n = Exit \<Longrightarrow>
    Ci_move_unreachable_parallel (gc_list_init (p_heap s') unreachable) base unreachable = Some h' \<Longrightarrow>
    Ci_deduce_unreachable_parallel env perm n s h base unreachable s' h'"

end
