(* ===== verification/GC_Workers.thy ===== *)
theory GC_Workers
  imports GC_Parallel GC_Deduce_Correct
begin

text \<open>
  What a program counter of a worker stands for (the references it has still to subtract, the objects it has still
  to mark, the part of its slice that is left) and the invariant of the heap and of the barriers. The
  subtraction phase is complete before any worker marks.
\<close>

section \<open>The objects of a slice\<close>

definition gcs :: "gcenv \<Rightarrow> addr list \<Rightarrow> addr list" where
  "gcs env ops = map AS_GC (filter (is_gc env) ops)"

lemma gcs_simps [simp]:
  "gcs env [] = []" "gcs env (op # ops) = (if is_gc env op then AS_GC op # gcs env ops else gcs env ops)"
  "gcs env (tp_traverse env (FROM_GC g)) = referents env g"
  by (simp_all add: gcs_def referents_def)

lemma gcs_traverse [simp]: "gcs env (tp_traverse env op) = referents env (AS_GC op)"
  using gcs_simps(3) [of env "AS_GC op"] by simp

definition rest :: "addr list \<Rightarrow> addr \<Rightarrow> addr list" where
  "rest nodes gc = dropWhile (\<lambda>x. x \<noteq> gc) nodes"

definition slice_ok :: "gcheap \<Rightarrow> Ci_GCSlice \<Rightarrow> addr list \<Rightarrow> bool" where
  "slice_ok h sl nodes \<longleftrightarrow> distinct nodes \<and> slice_end sl \<notin> set nodes \<and>
     links (gc_next h) (nodes @ [slice_end sl]) \<and> slice_start sl = hd (nodes @ [slice_end sl])"

lemma rest_start: "slice_ok h sl nodes \<Longrightarrow> rest nodes (slice_start sl) = nodes"
  by (cases nodes) (auto simp: slice_ok_def rest_def)

lemma rest_end: "slice_ok h sl nodes \<Longrightarrow> rest nodes (slice_end sl) = []"
  by (auto simp: slice_ok_def rest_def dropWhile_eq_Nil_conv)

lemma rest_append: "distinct (as @ b # bs) \<Longrightarrow> rest (as @ b # bs) b = b # bs"
  by (induction as) (auto simp: rest_def)

lemma slice_start_in: "slice_ok h sl nodes \<Longrightarrow> slice_start sl \<in> set nodes \<union> {slice_end sl}"
  by (cases nodes) (auto simp: slice_ok_def)

lemma slice_step:
  assumes s: "slice_ok h sl nodes" and gc: "gc \<in> set nodes" and n: "gc_next h' = gc_next h"
  shows "rest nodes gc = gc # rest nodes (GC_NEXT h' gc)"
    and "GC_NEXT h' gc \<in> set nodes \<union> {slice_end sl}"
    and "gc \<noteq> slice_end sl"
proof -
  obtain as bs where nodes: "nodes = as @ gc # bs" using gc by (meson split_list)
  have d: "distinct (as @ gc # bs)" and l: "links (gc_next h) (as @ gc # (bs @ [slice_end sl]))"
    and e: "slice_end sl \<notin> set nodes"
    using s by (simp_all add: slice_ok_def nodes)
  have nx: "GC_NEXT h' gc = hd (bs @ [slice_end sl])" using links_at [OF l] n by (simp add: GC_NEXT_def)
  show "rest nodes gc = gc # rest nodes (GC_NEXT h' gc)"
  proof (cases bs)
    case Nil
    then show ?thesis using rest_append [OF d] rest_end [OF s] nx by (simp add: nodes)
  next
    case (Cons c cs)
    have "rest ((as @ [gc]) @ c # cs) c = c # cs" using d Cons by (intro rest_append) simp
    then show ?thesis using rest_append [OF d] nx Cons by (simp add: nodes)
  qed
  show "GC_NEXT h' gc \<in> set nodes \<union> {slice_end sl}" unfolding nx by (cases bs) (auto simp: nodes)
  show "gc \<noteq> slice_end sl" using e gc by auto
qed

lemma rest_subset: "set (rest nodes gc) \<subseteq> set nodes"
  by (auto simp: rest_def dest: set_dropWhileD)

section \<open>What a program counter stands for\<close>

text \<open>The references a worker has still to subtract.\<close>

fun sub_pend :: "gcenv \<Rightarrow> addr list \<Rightarrow> pc \<Rightarrow> addr list" where
  "sub_pend env nodes Start = concat (map (referents env) nodes)"
| "sub_pend env nodes (SubSlice gc) = concat (map (referents env) (rest nodes gc))"
| "sub_pend env nodes (SubVisit gc ops) = gcs env ops @ concat (map (referents env) (tl (rest nodes gc)))"
| "sub_pend env nodes (SubDec gc x ops) = x # gcs env ops @ concat (map (referents env) (tl (rest nodes gc)))"
| "sub_pend env nodes _ = []"

text \<open>The objects it has still to mark, those it has marked and not queued, and the nodes of its slice that it has still to look at.\<close>

fun mark_pend :: "gcenv \<Rightarrow> pc \<Rightarrow> addr set" where
  "mark_pend env (Visit k ops) = set (gcs env ops)"
| "mark_pend env (VisitStore k op f ops) = insert (AS_GC op) (set (gcs env ops))"
| "mark_pend env (VisitPush k op ops) = set (gcs env ops)"
| "mark_pend env _ = {}"

fun pc_grey :: "pc \<Rightarrow> addr set" where
  "pc_grey (VisitPush k op ops) = {AS_GC op}"
| "pc_grey _ = {}"

fun after_rest :: "addr list \<Rightarrow> after \<Rightarrow> addr set" where
  "after_rest nodes (AfterSlice gc) = set (tl (rest nodes gc))"
| "after_rest nodes AfterQueue = {}"

fun stage :: "pc \<Rightarrow> nat" where
  "stage Start = 0" | "stage (SubSlice _) = 0" | "stage (SubVisit _ _) = 0" | "stage (SubDec _ _ _) = 0"
| "stage MarkBarrier = 0" | "stage (MarkBarrierWait _) = 1"
| "stage DoneBarrier = 3" | "stage (DoneBarrierWait _) = 4" | "stage ActiveDec = 5" | "stage Exit = 5"
| "stage _ = 2"

fun slice_rest :: "addr list \<Rightarrow> pc \<Rightarrow> addr set" where
  "slice_rest nodes (MarkSlice gc) = set (rest nodes gc)"
| "slice_rest nodes (MarkSliceStore gc f) = set (rest nodes gc)"
| "slice_rest nodes (Visit k ops) = after_rest nodes k"
| "slice_rest nodes (VisitStore k op f ops) = after_rest nodes k"
| "slice_rest nodes (VisitPush k op ops) = after_rest nodes k"
| "slice_rest nodes c = (if stage c \<le> 1 then set nodes else {})"

fun after_ok :: "addr list \<Rightarrow> after \<Rightarrow> bool" where
  "after_ok nodes (AfterSlice gc) = (gc \<in> set nodes)"
| "after_ok nodes AfterQueue = True"

text \<open>Cursors stay in the slice and remembered headers are headers of the generation.\<close>

fun pc_ok :: "gcenv \<Rightarrow> gcheap \<Rightarrow> addr set \<Rightarrow> addr set \<Rightarrow> nat \<Rightarrow> Ci_GCSlice \<Rightarrow> addr list \<Rightarrow> pc \<Rightarrow> bool" where
  "pc_ok env h0 Y R n sl nodes (SubSlice gc) = (gc \<in> set nodes \<union> {slice_end sl})"
| "pc_ok env h0 Y R n sl nodes (SubVisit gc ops) = (gc \<in> set nodes \<and> set (gcs env ops) \<subseteq> set (referents env gc))"
| "pc_ok env h0 Y R n sl nodes (SubDec gc x ops) = (gc \<in> set nodes \<and> x \<in> Y \<and> set (gcs env ops) \<subseteq> set (referents env gc))"
| "pc_ok env h0 Y R n sl nodes (MarkSlice gc) = (gc \<in> set nodes \<union> {slice_end sl})"
| "pc_ok env h0 Y R n sl nodes (MarkSliceStore gc f) = (gc \<in> set nodes \<and> gc \<in> R \<and> f = gc_finalized h0 gc)"
| "pc_ok env h0 Y R n sl nodes (Visit k ops) = after_ok nodes k"
| "pc_ok env h0 Y R n sl nodes (VisitStore k op f ops) =
     (after_ok nodes k \<and> AS_GC op \<in> Y \<and> f = gc_finalized h0 (AS_GC op))"
| "pc_ok env h0 Y R n sl nodes (VisitPush k op ops) = (after_ok nodes k \<and> AS_GC op \<in> Y)"
| "pc_ok env h0 Y R n sl nodes (Steal vs) = (\<forall>v\<in>set vs. v < n)"
| "pc_ok env h0 Y R n sl nodes _ = True"


section \<open>Counting references in parallel\<close>

definition par_setup :: "gcenv \<Rightarrow> Ci_GCSlice list \<Rightarrow> nat \<Rightarrow> addr list \<Rightarrow> (nat \<Rightarrow> addr list) \<Rightarrow> gcheap \<Rightarrow> bool" where
  "par_setup env slices n ys nodes h0 \<longleftrightarrow> 0 < n \<and> n + 1 < 2 ^ 32 \<and>
     (\<forall>w<n. slice_ok h0 (slices ! w) (nodes w)) \<and> concat (map nodes [0..<n]) = ys \<and> distinct ys \<and>
     (\<forall>y\<in>set ys. gc_is_collecting h0 y \<and> unat (gc_get_refs h0 y) = refcnt env y \<and>
        internal_refs env ys y \<le> refcnt env y \<and>
        (\<forall>a\<in>set (referents env y). a \<notin> set ys \<longrightarrow> \<not> gc_is_collecting h0 a))"

definition subs :: "gcenv \<Rightarrow> nat \<Rightarrow> (nat \<Rightarrow> addr list) \<Rightarrow> par \<Rightarrow> addr \<Rightarrow> nat" where
  "subs env n nodes s y = (\<Sum>v<n. count_list (sub_pend env (nodes v) (p_pc s v)) y)"

definition heap_inv :: "gcenv \<Rightarrow> nat \<Rightarrow> addr list \<Rightarrow> (nat \<Rightarrow> addr list) \<Rightarrow> gcheap \<Rightarrow> par \<Rightarrow> bool" where
  "heap_inv env n ys nodes h0 s \<longleftrightarrow>
     gc_next (p_heap s) = gc_next h0 \<and> (\<forall>a. a \<notin> set ys \<longrightarrow> gc_prev (p_heap s) a = gc_prev h0 a) \<and>
     (\<forall>y\<in>set ys. gc_finalized (p_heap s) y = gc_finalized h0 y \<and>
        (if gc_is_collecting (p_heap s) y
         then unat (gc_get_refs (p_heap s) y) + internal_refs env ys y = refcnt env y + subs env n nodes s y
         else gc_get_refs (p_heap s) y \<noteq> 0))"

definition pcs_inv :: "gcenv \<Rightarrow> Ci_GCSlice list \<Rightarrow> nat \<Rightarrow> addr list \<Rightarrow> (nat \<Rightarrow> addr list) \<Rightarrow> gcheap \<Rightarrow> par \<Rightarrow> bool" where
  "pcs_inv env slices n ys nodes h0 s \<longleftrightarrow>
     (\<forall>w<n. pc_ok env h0 (set ys) (roots env ys) n (slices ! w) (nodes w) (p_pc s w))"

definition at_stage :: "nat \<Rightarrow> par \<Rightarrow> nat \<Rightarrow> nat set" where
  "at_stage n s k = {w. w < n \<and> stage (p_pc s w) = k}"

definition phase_inv :: "nat \<Rightarrow> addr list \<Rightarrow> 32 word \<Rightarrow> par \<Rightarrow> bool" where
  "phase_inv n ys e0 s \<longleftrightarrow>
     capacity (p_mark_barrier s) = of_nat n \<and>
     (\<forall>w<n. \<forall>e. p_pc s w = MarkBarrierWait e \<longrightarrow> e = e0) \<and>
     ((epoch (p_mark_barrier s) = e0 \<and> (\<forall>w<n. stage (p_pc s w) \<le> 1) \<and> at_stage n s 0 \<noteq> {} \<and>
        num_left (p_mark_barrier s) = of_nat (card (at_stage n s 0)) \<and>
        (\<forall>y\<in>set ys. gc_is_collecting (p_heap s) y)) \<or>
      (epoch (p_mark_barrier s) = e0 + 1 \<and> (\<forall>w<n. 1 \<le> stage (p_pc s w)) \<and>
        num_left (p_mark_barrier s) = of_nat n))"

definition base_inv where
  "base_inv env slices n ys nodes h0 e0 s \<longleftrightarrow>
     heap_inv env n ys nodes h0 s \<and> pcs_inv env slices n ys nodes h0 s \<and> phase_inv n ys e0 s"

lemma goto_sel [simp]:
  "p_pc (goto w c s) = (p_pc s)(w := c)" "p_heap (goto w c s) = p_heap s" "p_deque (goto w c s) = p_deque s"
  "p_marking (goto w c s) = p_marking s" "p_coordinator (goto w c s) = p_coordinator s"
  "p_sema (goto w c s) = p_sema s" "p_mark_barrier (goto w c s) = p_mark_barrier s"
  "p_done_barrier (goto w c s) = p_done_barrier s" "p_active (goto w c s) = p_active s"
  by (simp_all add: goto_def)

lemma set_deque_sel [simp]:
  "p_pc (set_deque w q s) = p_pc s" "p_heap (set_deque w q s) = p_heap s"
  "p_deque (set_deque w q s) = (p_deque s)(w := q)"
  "p_marking (set_deque w q s) = p_marking s" "p_coordinator (set_deque w q s) = p_coordinator s"
  "p_sema (set_deque w q s) = p_sema s" "p_mark_barrier (set_deque w q s) = p_mark_barrier s"
  "p_done_barrier (set_deque w q s) = p_done_barrier s" "p_active (set_deque w q s) = p_active s"
  by (simp_all add: set_deque_def)

lemma sub_pend_stage: "1 \<le> stage c \<Longrightarrow> sub_pend env nodes c = []"
  by (cases c) auto

lemma subs_upd:
  assumes "w < n" "p_pc s' = (p_pc s)(w := c)"
  shows "subs env n nodes s' y + count_list (sub_pend env (nodes w) (p_pc s w)) y =
    subs env n nodes s y + count_list (sub_pend env (nodes w) c) y"
proof -
  let ?f = "\<lambda>s v. count_list (sub_pend env (nodes v) (p_pc s v)) y"
  have "subs env n nodes t y = ?f t w + (\<Sum>v\<in>{..<n} - {w}. ?f t v)" for t
    using assms(1) unfolding subs_def by (subst sum.remove [of _ w]) auto
  moreover have "(\<Sum>v\<in>{..<n} - {w}. ?f s' v) = (\<Sum>v\<in>{..<n} - {w}. ?f s v)"
    using assms(2) by (intro sum.cong) auto
  ultimately show ?thesis using assms(2) by simp
qed

lemma subs_same:
  assumes "w < n" "p_pc s' = (p_pc s)(w := c)"
    and "count_list (sub_pend env (nodes w) c) y = count_list (sub_pend env (nodes w) (p_pc s w)) y"
  shows "subs env n nodes s' y = subs env n nodes s y"
  using subs_upd [OF assms(1,2), of env nodes y] assms(3) by simp

lemma base_goto:
  assumes I: "base_inv env slices n ys nodes h0 e0 s" and w: "w < n" and pc: "p_pc s' = (p_pc s)(w := c)"
    and h: "p_heap s' = p_heap s" and b: "p_mark_barrier s' = p_mark_barrier s"
    and st: "stage c = stage (p_pc s w) \<or> 1 \<le> stage (p_pc s w) \<and> epoch (p_mark_barrier s) \<noteq> e0 \<and> 1 < stage c"
    and sub: "\<And>y. y \<in> set ys \<Longrightarrow> gc_is_collecting (p_heap s) y \<Longrightarrow>
      count_list (sub_pend env (nodes w) c) y = count_list (sub_pend env (nodes w) (p_pc s w)) y"
    and ok: "pc_ok env h0 (set ys) (roots env ys) n (slices ! w) (nodes w) c"
    and wt: "\<And>e. c = MarkBarrierWait e \<Longrightarrow> e = e0"
  shows "base_inv env slices n ys nodes h0 e0 s'"
proof -
  have "heap_inv env n ys nodes h0 s'"
    using I subs_same [OF w pc] sub unfolding base_inv_def heap_inv_def h by auto
  moreover have "pcs_inv env slices n ys nodes h0 s'"
    using I ok pc by (auto simp: base_inv_def pcs_inv_def)
  moreover have "phase_inv n ys e0 s'"
  proof (cases "stage c = stage (p_pc s w)")
    case True
    then have "stage (p_pc s' v) = stage (p_pc s v)" for v using pc by simp
    then show ?thesis using I wt unfolding base_inv_def phase_inv_def at_stage_def h b pc by auto
  next
    case False
    then have "epoch (p_mark_barrier s) \<noteq> e0" "1 < stage c" using st by auto
    then show ?thesis using I wt unfolding base_inv_def phase_inv_def h b pc by auto
  qed
  ultimately show ?thesis by (simp add: base_inv_def)
qed


lemma mark_obs:
  fixes f :: bool
  defines "m \<equiv> Ci_gc_mark_reachable_and_clear_collecting_atomic"
  shows "gc_next (m h g f) = gc_next h" "a \<noteq> g \<Longrightarrow> gc_prev (m h g f) a = gc_prev h a"
    and "gc_is_collecting (m h g f) = (gc_is_collecting h)(g := False)"
    and "gc_finalized (m h g f) = (gc_finalized h)(g := f)"
    and "gc_get_refs (m h g f) = (gc_get_refs h)(g := 1)"
proof -
  let ?w = "push_bit 2 1 OR (if f then 1 else 0) :: 64 word"
  have w: "\<not> bit ?w (Suc 0)" "bit ?w 0 \<longleftrightarrow> f" by (auto simp: gc_bits bit_1_iff)
  have r: "drop_bit 2 ?w = 1" by (cases f) (simp_all add: push_bit_eq_mult drop_bit_eq_div)
  show "gc_next (m h g f) = gc_next h" "a \<noteq> g \<Longrightarrow> gc_prev (m h g f) a = gc_prev h a"
    by (simp_all add: m_def Ci_gc_mark_reachable_and_clear_collecting_atomic_def)
  show "gc_is_collecting (m h g f) = (gc_is_collecting h)(g := False)"
    "gc_finalized (m h g f) = (gc_finalized h)(g := f)" "gc_get_refs (m h g f) = (gc_get_refs h)(g := 1)"
    using w r unfolding m_def Ci_gc_mark_reachable_and_clear_collecting_atomic_def
    by (auto simp: gc_observers fun_eq_iff)
qed

lemma of_nat_32_eq_0:
  assumes "k < 2 ^ 32"
  shows "(of_nat k :: 32 word) = 0 \<longleftrightarrow> k = 0"
proof -
  have "unat (of_nat k :: 32 word) = k mod 2 ^ 32" by (simp add: unat_of_nat)
  then have k: "unat (of_nat k :: 32 word) = k" using assms by simp
  show ?thesis unfolding unat_eq_0 [symmetric] k ..
qed

lemma base_started:
  assumes I: "base_inv env slices n ys nodes h0 e0 s" and "w < n" "1 < stage (p_pc s w)"
  shows "epoch (p_mark_barrier s) = e0 + 1" "\<And>v. v < n \<Longrightarrow> 1 \<le> stage (p_pc s v)"
    and "subs env n nodes s y = 0"
proof -
  have "\<not> (\<forall>w<n. stage (p_pc s w) \<le> 1)" using assms(2,3) not_le by blast
  then show e: "epoch (p_mark_barrier s) = e0 + 1" and st: "\<And>v. v < n \<Longrightarrow> 1 \<le> stage (p_pc s v)"
    using I unfolding base_inv_def phase_inv_def by blast+
  show "subs env n nodes s y = 0" using st by (simp add: subs_def sub_pend_stage)
qed

lemma base_mark:
  assumes I: "base_inv env slices n ys nodes h0 e0 s" and w: "w < n" and pc: "p_pc s' = (p_pc s)(w := c)"
    and h: "p_heap s' = Ci_gc_mark_reachable_and_clear_collecting_atomic (p_heap s) g (gc_finalized h0 g)"
    and b: "p_mark_barrier s' = p_mark_barrier s" and g: "g \<in> set ys"
    and st: "stage (p_pc s w) = 2" "stage c = 2"
    and ok: "pc_ok env h0 (set ys) (roots env ys) n (slices ! w) (nodes w) c"
  shows "base_inv env slices n ys nodes h0 e0 s'"
proof -
  have st': "stage (p_pc s' v) = stage (p_pc s v)" for v using pc st by simp
  note B = base_started [OF I w]
  have "subs env n nodes s' y = 0" for y
    using B(2) st st' by (simp add: subs_def sub_pend_stage)
  moreover have "subs env n nodes s y = 0" for y using B(3) st by simp
  ultimately have "heap_inv env n ys nodes h0 s'"
  proof -
    have "gc_prev (p_heap s') a = gc_prev (p_heap s) a" if "a \<notin> set ys" for a
      unfolding h using that g by (intro mark_obs(2)) auto
    then show ?thesis
      using I g \<open>\<And>y. subs env n nodes s' y = 0\<close> \<open>\<And>y. subs env n nodes s y = 0\<close>
      unfolding base_inv_def heap_inv_def by (auto simp: h mark_obs)
  qed
  moreover have "pcs_inv env slices n ys nodes h0 s'"
    using I ok pc by (auto simp: base_inv_def pcs_inv_def)
  moreover have "phase_inv n ys e0 s'"
  proof -
    have wt: "c \<noteq> MarkBarrierWait e" for e using st by auto
    have "epoch (p_mark_barrier s) = e0 + 1" using B(1) st by simp
    then show ?thesis using I wt st' unfolding base_inv_def phase_inv_def b by (auto simp: pc)
  qed
  ultimately show ?thesis by (simp add: base_inv_def)
qed

lemma base_decref:
  assumes S: "par_setup env slices n ys nodes h0"
    and I: "base_inv env slices n ys nodes h0 e0 s" and w: "w < n" and c: "p_pc s w = SubDec gc x ops"
    and pc: "p_pc s' = (p_pc s)(w := SubVisit gc ops)"
    and h: "p_heap s' = Ci_gc_decref_atomic (p_heap s) x" and b: "p_mark_barrier s' = p_mark_barrier s"
  shows "base_inv env slices n ys nodes h0 e0 s'"
proof -
  let ?h = "p_heap s"
  have st': "stage (p_pc s' v) = stage (p_pc s v)" for v using pc c by simp
  have ok: "gc \<in> set (nodes w) \<and> x \<in> set ys \<and> set (gcs env ops) \<subseteq> set (referents env gc)"
    using I w c unfolding base_inv_def pcs_inv_def by fastforce
  have early: "epoch (p_mark_barrier s) = e0" "\<And>y. y \<in> set ys \<Longrightarrow> gc_is_collecting ?h y"
  proof -
    have "\<not> (\<forall>w<n. 1 \<le> stage (p_pc s w))" using w c by (auto intro!: exI [of _ w])
    then show "epoch (p_mark_barrier s) = e0" "\<And>y. y \<in> set ys \<Longrightarrow> gc_is_collecting ?h y"
      using I unfolding base_inv_def phase_inv_def by blast+
  qed
  have hd: "p_heap s' = gc_decref ?h x"
    using h by (simp add: Ci_gc_decref_atomic_def gc_decref_def)
  have up: "subs env n nodes s y = subs env n nodes s' y + (if y = x then 1 else 0)" for y
    using subs_upd [OF w pc, of env nodes y] c by (auto split: if_splits)
  have rx: "unat (gc_get_refs ?h x) + internal_refs env ys x = refcnt env x + subs env n nodes s x"
    using I ok early by (simp add: base_inv_def heap_inv_def)
  moreover have "internal_refs env ys x \<le> refcnt env x" using S ok by (simp add: par_setup_def)
  ultimately have pos: "0 < unat (gc_get_refs ?h x)" using up [of x] by simp
  then have nz: "gc_get_refs ?h x \<noteq> 0" by (simp add: unat_gt_0)
  have "(1 :: 64 word) \<le> gc_get_refs ?h x" using pos by (simp add: word_le_nat_alt)
  then have u: "unat (gc_get_refs ?h x - 1) = unat (gc_get_refs ?h x) - 1" using unat_sub by fastforce
  have pv: "gc_prev (gc_decref ?h x) a = gc_prev ?h a" if "a \<notin> set ys" for a
    using that ok by (intro gc_ops_prev_other) auto
  have "heap_inv env n ys nodes h0 s'"
  proof -
    have "unat (gc_get_refs (p_heap s') y) + internal_refs env ys y = refcnt env y + subs env n nodes s' y"
      if "y \<in> set ys" for y
    proof (cases "y = x")
      case True
      then show ?thesis using rx up [of x] u pos nz by (simp add: hd)
    next
      case False
      then show ?thesis using I that early up [of y] nz by (auto simp: hd base_inv_def heap_inv_def)
    qed
    then show ?thesis using I pv nz early unfolding base_inv_def heap_inv_def by (auto simp: hd)
  qed
  moreover have "pcs_inv env slices n ys nodes h0 s'"
    using I ok pc by (auto simp: base_inv_def pcs_inv_def)
  moreover have "phase_inv n ys e0 s'"
    using I st' early nz unfolding base_inv_def phase_inv_def b at_stage_def hd by (auto simp: pc)
  ultimately show ?thesis by (simp add: base_inv_def)
qed

lemma base_arrive:
  assumes S: "par_setup env slices n ys nodes h0" and I: "base_inv env slices n ys nodes h0 e0 s" and w: "w < n"
    and c: "p_pc s w = MarkBarrier" and a: "Ci_Barrier_Arrive (p_mark_barrier s) = (r, b)"
    and pc: "p_pc s' = (p_pc s)(w := (case r of None \<Rightarrow> MarkSlice (slice_start (slices ! w)) | Some e \<Rightarrow> MarkBarrierWait e))"
    and h: "p_heap s' = p_heap s" and b: "p_mark_barrier s' = b"
  shows "base_inv env slices n ys nodes h0 e0 s'"
proof -
  let ?b = "p_mark_barrier s" and ?A = "at_stage n s 0"
  have fin: "finite ?A" and wA: "w \<in> ?A" using w c by (simp_all add: at_stage_def)
  have early: "epoch ?b = e0" "\<And>v. v < n \<Longrightarrow> stage (p_pc s v) \<le> 1" "num_left ?b = of_nat (card ?A)"
     "\<And>y. y \<in> set ys \<Longrightarrow> gc_is_collecting (p_heap s) y" "capacity ?b = of_nat n"
  proof -
    have "\<not> (\<forall>w<n. 1 \<le> stage (p_pc s w))" using w c by (auto intro!: exI [of _ w])
    then show "epoch ?b = e0" "\<And>v. v < n \<Longrightarrow> stage (p_pc s v) \<le> 1" "num_left ?b = of_nat (card ?A)"
     "\<And>y. y \<in> set ys \<Longrightarrow> gc_is_collecting (p_heap s) y" "capacity ?b = of_nat n"
      using I unfolding base_inv_def phase_inv_def by blast+
  qed
  have n: "n + 1 < 2 ^ 32" using S by (simp add: par_setup_def)
  have "card ?A \<le> card {..<n}" by (intro card_mono) (auto simp: at_stage_def)
  then have cA: "0 < card ?A" "card ?A \<le> n" using wA fin by (auto simp: card_gt_0_iff)
  have left: "num_left ?b - 1 = of_nat (card ?A - 1)" using cA early(3) by (simp add: of_nat_diff)
  have z: "num_left ?b - 1 = 0 \<longleftrightarrow> card ?A = 1"
  proof -
    have "(of_nat (card ?A - 1) :: 32 word) = 0 \<longleftrightarrow> card ?A - 1 = 0"
      using cA n by (intro of_nat_32_eq_0) simp
    then show ?thesis using left cA by auto
  qed
  have ok: "pc_ok env h0 (set ys) (roots env ys) n (slices ! w) (nodes w) (p_pc s' w)"
    using slice_start_in S w pc by (cases r) (auto simp: par_setup_def)
  have "subs env n nodes s' y = subs env n nodes s y" for y
    using c by (intro subs_same [OF w pc]) (cases r; simp)
  then have "heap_inv env n ys nodes h0 s'" using I unfolding base_inv_def heap_inv_def h by simp
  moreover have "pcs_inv env slices n ys nodes h0 s'"
    using I ok pc by (auto simp: base_inv_def pcs_inv_def)
  moreover have "phase_inv n ys e0 s'"
  proof (cases "card ?A = 1")
    case True
    then have A: "?A = {w}" using wA by (auto simp: card_1_singleton_iff)
    have rb: "r = None" "b = ?b\<lparr>num_left := capacity ?b, epoch := epoch ?b + 1\<rparr>"
      using a z True by (auto simp: Ci_Barrier_Arrive_def Let_def)
    have "1 \<le> stage (p_pc s' v)" if "v < n" for v
    proof (cases "v = w")
      case False
      then have "v \<notin> ?A" using A by simp
      then have "stage (p_pc s v) \<noteq> 0" using that by (simp add: at_stage_def)
      then show ?thesis using False pc by simp
    qed (simp add: pc rb)
    then show ?thesis using I early unfolding base_inv_def phase_inv_def b rb pc by auto
  next
    case False
    have rb: "r = Some e0" "b = ?b\<lparr>num_left := num_left ?b - 1\<rparr>"
      using a z False early by (auto simp: Ci_Barrier_Arrive_def Let_def)
    have A': "at_stage n s' 0 = ?A - {w}" using pc rb by (auto simp: at_stage_def)
    then have card': "card (at_stage n s' 0) = card ?A - 1" using wA fin by simp
    moreover have "0 < card (at_stage n s' 0)" using card' cA False by simp
    then have "at_stage n s' 0 \<noteq> {}" by auto
    moreover have "stage (p_pc s' v) \<le> 1" if "v < n" for v using early(2) that pc rb by simp
    ultimately show ?thesis using I early left unfolding base_inv_def phase_inv_def b rb h by (auto simp: pc rb)
  qed
  ultimately show ?thesis by (simp add: base_inv_def)
qed


lemma collecting_in_ys:
  assumes S: "par_setup env slices n ys nodes h0" and I: "heap_inv env n ys nodes h0 s"
    and y: "y \<in> set ys" "a \<in> set (referents env y)" and c: "gc_is_collecting (p_heap s) a"
  shows "a \<in> set ys"
proof (rule ccontr)
  assume "a \<notin> set ys"
  then have "gc_prev (p_heap s) a = gc_prev h0 a" "\<not> gc_is_collecting h0 a"
    using S I y by (auto simp: par_setup_def heap_inv_def)
  then show False using c by (simp add: gc_is_collecting_def)
qed

lemma nodes_in_ys: "par_setup env slices n ys nodes h0 \<Longrightarrow> w < n \<Longrightarrow> set (nodes w) \<subseteq> set ys"
  unfolding par_setup_def by (elim conjE) force

lemma base_sub_step:
  assumes S: "par_setup env slices n ys nodes h0" and I: "base_inv env slices n ys nodes h0 e0 s" and w: "w < n"
    and early: "stage (p_pc s w) = 0" and st: "worker_step env slices n start w s = Some s'"
  shows "base_inv env slices n ys nodes h0 e0 s'"
proof -
  let ?ok = "pc_ok env h0 (set ys) (roots env ys) n (slices ! w) (nodes w)"
  have sl: "slice_ok h0 (slices ! w) (nodes w)" using S w by (simp add: par_setup_def)
  have H: "heap_inv env n ys nodes h0 s" and pcok: "?ok (p_pc s w)"
    using I w by (simp_all add: base_inv_def pcs_inv_def)
  have nx: "gc_next (p_heap s) = gc_next h0" using H by (simp add: heap_inv_def)
  have col: "\<And>y. y \<in> set ys \<Longrightarrow> gc_is_collecting (p_heap s) y"
  proof -
    have "\<not> (\<forall>w<n. 1 \<le> stage (p_pc s w))" using w early by (auto intro!: exI [of _ w])
    then show "\<And>y. y \<in> set ys \<Longrightarrow> gc_is_collecting (p_heap s) y"
      using I unfolding base_inv_def phase_inv_def by blast
  qed
  show ?thesis
  proof (cases "p_pc s w")
    case Start
    show ?thesis
      using st Start slice_start_in [OF sl] rest_start [OF sl]
      by (intro base_goto [OF I w, where c = "SubSlice (slice_start (slices ! w))"])
        (auto simp: worker_step_def Let_def)
  next
    case (SubSlice gc)
    show ?thesis
    proof (cases "gc = slice_end (slices ! w)")
      case True
      then show ?thesis
        using st SubSlice rest_end [OF sl]
        by (intro base_goto [OF I w, where c = MarkBarrier]) (auto simp: worker_step_def Let_def)
    next
      case False
      then have gc: "gc \<in> set (nodes w)" using pcok SubSlice by simp
      note ss = slice_step [OF sl gc nx]
      show ?thesis
        using st SubSlice False gc ss
        by (intro base_goto [OF I w, where c = "SubVisit gc (tp_traverse env (FROM_GC gc))"])
          (auto simp: worker_step_def Let_def)
    qed
  next
    case (SubVisit gc ops)
    then have gc: "gc \<in> set (nodes w)" "set (gcs env ops) \<subseteq> set (referents env gc)" using pcok by simp_all
    note ss = slice_step [OF sl gc(1) nx]
    have gy: "gc \<in> set ys" using gc nodes_in_ys [OF S w] by auto
    show ?thesis
    proof (cases ops)
      case Nil
      then show ?thesis
        using st SubVisit ss by (intro base_goto [OF I w, where c = "SubSlice (GC_NEXT (p_heap s) gc)"])
          (auto simp: worker_step_def Let_def)
    next
      case (Cons op ops')
      let ?x = "AS_GC op"
      show ?thesis
      proof (cases "is_gc env op \<and> gc_is_collecting (p_heap s) ?x")
        case True
        then have "?x \<in> set ys" using collecting_in_ys [OF S H gy] gc Cons by auto
        then show ?thesis
          using st SubVisit Cons True gc
          by (intro base_goto [OF I w, where c = "SubDec gc ?x ops'"])
            (auto simp: worker_step_def Let_def Ci_gc_is_collecting_atomic_def gc_is_collecting_def)
      next
        case False
        then have "is_gc env op \<Longrightarrow> ?x \<notin> set ys" using col by auto
        then show ?thesis
          using st SubVisit Cons False gc
          by (intro base_goto [OF I w, where c = "SubVisit gc ops'"])
            (auto simp: worker_step_def Let_def Ci_gc_is_collecting_atomic_def gc_is_collecting_def split: if_splits)
      qed
    qed
  next
    case (SubDec gc x ops)
    then show ?thesis
      using st by (intro base_decref [OF S I w SubDec]) (auto simp: worker_step_def Let_def)
  next
    case MarkBarrier
    obtain r b where a: "Ci_Barrier_Arrive (p_mark_barrier s) = (r, b)" by force
    show ?thesis
      using st MarkBarrier a
      by (intro base_arrive [OF S I w MarkBarrier a]) (cases r; auto simp: worker_step_def Let_def)+
  qed (use early in auto)
qed


lemma collecting_refs:
  assumes I: "base_inv env slices n ys nodes h0 e0 s" and w: "w < n" "1 < stage (p_pc s w)"
    and y: "y \<in> set ys" "gc_is_collecting (p_heap s) y"
  shows "gc_get_refs (p_heap s) y \<noteq> 0 \<longleftrightarrow> y \<in> roots env ys"
proof -
  have "unat (gc_get_refs (p_heap s) y) + internal_refs env ys y = refcnt env y"
    using I y base_started(3) [OF I w, of y] by (simp add: base_inv_def heap_inv_def)
  moreover have "gc_get_refs (p_heap s) y \<noteq> 0 \<longleftrightarrow> 0 < unat (gc_get_refs (p_heap s) y)"
    by (simp add: unat_gt_0)
  ultimately show ?thesis using y by (auto simp: roots_def)
qed

text \<open>The steps that touch neither headers nor deques nor the first barrier and stay in their stage.\<close>

fun quiet :: "pc \<Rightarrow> bool" where
  "quiet TryCoord = True" | "quiet CoordLoad = True" | "quiet CoordFinish = True"
| "quiet (CoordPostFinal _) = True" | "quiet (CoordSum _ _ _) = True" | "quiet (CoordSumTop _ _ _ _) = True"
| "quiet (CoordAdd _) = True" | "quiet (CoordPost _) = True" | "quiet DropCoord = True"
| "quiet WaitDec = True" | "quiet WaitSema = True" | "quiet CheckMarking = True"
| "quiet DoneBarrier = True" | "quiet (DoneBarrierWait _) = True" | "quiet ActiveDec = True" | "quiet Exit = True"
| "quiet _ = False"

lemma quiet_obs:
  assumes "quiet c"
  shows "2 \<le> stage c" "sub_pend env nodes c = []" "mark_pend env c = {}" "pc_grey c = {}" "slice_rest nodes c = {}"
    "pc_ok env h0 Y R n sl nodes c"
  using assms by (cases c; simp)+

lemma quiet_frame:
  assumes "quiet (p_pc s w)" "worker_step env slices n start w s = Some s'"
  shows "p_heap s' = p_heap s" "p_deque s' = p_deque s" "p_mark_barrier s' = p_mark_barrier s"
    "p_pc s' = (p_pc s)(w := p_pc s' w)" "quiet (p_pc s' w) \<or> p_pc s' w = Take"
  using assms
  by (cases "p_pc s w"; auto simp: worker_step_def Let_def split: option.splits prod.splits if_splits)+

lemma base_quiet:
  assumes I: "base_inv env slices n ys nodes h0 e0 s" and w: "w < n"
    and q: "quiet (p_pc s w)" and st: "worker_step env slices n start w s = Some s'"
  shows "base_inv env slices n ys nodes h0 e0 s'"
proof -
  note f = quiet_frame [OF q st]
  have s2: "2 \<le> stage (p_pc s w)" by (rule quiet_obs(1) [OF q])
  then have e: "epoch (p_mark_barrier s) \<noteq> e0" using base_started(1) [OF I w] by simp
  have c: "2 \<le> stage (p_pc s' w)" "pc_ok env h0 (set ys) (roots env ys) n (slices ! w) (nodes w) (p_pc s' w)"
    "sub_pend env (nodes w) (p_pc s' w) = []"
    using f(5) quiet_obs [of "p_pc s' w"] by auto
  have "p_pc s' w \<noteq> MarkBarrierWait x" for x using c(1) by auto
  then show ?thesis
    using s2 e c quiet_obs(2) [OF q] by (intro base_goto [OF I w f(4) f(1) f(3)]) auto
qed

lemma base_mark_step:
  assumes S: "par_setup env slices n ys nodes h0" and I: "base_inv env slices n ys nodes h0 e0 s" and w: "w < n"
    and late: "1 \<le> stage (p_pc s w)" and st: "worker_step env slices n start w s = Some s'"
    and sound: "mark_pend env (p_pc s w) \<subseteq> (\<Union>y\<in>set ys. set (referents env y))"
  shows "base_inv env slices n ys nodes h0 e0 s'"
proof -
  let ?ok = "pc_ok env h0 (set ys) (roots env ys) n (slices ! w) (nodes w)"
  have sl: "slice_ok h0 (slices ! w) (nodes w)" using S w by (simp add: par_setup_def)
  have H: "heap_inv env n ys nodes h0 s" and pcok: "?ok (p_pc s w)"
    using I w by (simp_all add: base_inv_def pcs_inv_def)
  have nx: "gc_next (p_heap s) = gc_next h0" using H by (simp add: heap_inv_def)
  have fin: "\<And>y. y \<in> set ys \<Longrightarrow> gc_finalized (p_heap s) y = gc_finalized h0 y"
    using H by (simp add: heap_inv_def)
  have ny: "set (nodes w) \<subseteq> set ys" by (rule nodes_in_ys [OF S w])
  show ?thesis
  proof (cases "p_pc s w")
    case (MarkBarrierWait e)
    have "e = e0" using I w MarkBarrierWait by (simp add: base_inv_def phase_inv_def)
    then show ?thesis
      using st MarkBarrierWait slice_start_in [OF sl]
      by (intro base_goto [OF I w, where c = "MarkSlice (slice_start (slices ! w))"])
        (auto simp: worker_step_def Let_def Ci_Barrier_Passed_def split: if_splits)
  next
    case (MarkSlice gc)
    consider "gc = slice_end (slices ! w)" | "gc \<in> set (nodes w)" "gc \<noteq> slice_end (slices ! w)"
      using pcok MarkSlice by auto
    then show ?thesis
    proof cases
      case 1
      then show ?thesis using st MarkSlice
        by (intro base_goto [OF I w, where c = Take]) (auto simp: worker_step_def Let_def)
    next
      case 2
      note ss = slice_step [OF sl 2(1) nx]
      have gy: "gc \<in> set ys" using 2 ny by auto
      show ?thesis
      proof (cases "gc_get_refs (p_heap s) gc \<noteq> 0 \<and> gc_is_collecting (p_heap s) gc")
        case True
        then have "gc \<in> roots env ys" using collecting_refs [OF I w _ gy] MarkSlice by simp
        then show ?thesis
          using st MarkSlice 2 True fin [OF gy]
          by (intro base_goto [OF I w, where c = "MarkSliceStore gc (gc_finalized h0 gc)"])
            (auto simp: worker_step_def Let_def Ci_gc_is_collecting_and_reachable_atomic_def gc_get_refs_def
              gc_is_collecting_def gc_finalized_def)
      next
        case False
        then show ?thesis
          using st MarkSlice 2 ss
          by (intro base_goto [OF I w, where c = "MarkSlice (GC_NEXT (p_heap s) gc)"])
            (auto simp: worker_step_def Let_def Ci_gc_is_collecting_and_reachable_atomic_def gc_get_refs_def
              gc_is_collecting_def)
      qed
    qed
  next
    case (MarkSliceStore gc f)
    then show ?thesis
      using st pcok ny by (intro base_mark [OF I w]) (auto simp: worker_step_def Let_def)
  next
    case (Visit k ops)
    show ?thesis
    proof (cases ops)
      case Nil
      have "?ok (resume (p_heap s) k)" "stage (resume (p_heap s) k) = 2" "sub_pend env (nodes w) (resume (p_heap s) k) = []"
        using Visit pcok slice_step(2) [OF sl _ nx] by (cases k; auto simp: resume_def)+
      then show ?thesis using st Visit Nil
        by (intro base_goto [OF I w, where c = "resume (p_heap s) k"]) (auto simp: worker_step_def Let_def)
    next
      case (Cons op ops')
      let ?x = "AS_GC op"
      show ?thesis
      proof (cases "is_gc env op \<and> gc_is_collecting (p_heap s) ?x")
        case True
        obtain y where "y \<in> set ys" "?x \<in> set (referents env y)" using sound Visit Cons True by auto
        then have x: "?x \<in> set ys" using collecting_in_ys [OF S H] True by blast
        show ?thesis
          using st Visit Cons True pcok x fin [OF x]
          by (intro base_goto [OF I w, where c = "VisitStore k op (gc_finalized h0 ?x) ops'"])
            (auto simp: worker_step_def Let_def Ci_gc_get_collecting_and_finalized_atomic_def gc_is_collecting_def
              gc_finalized_def)
      next
        case False
        then show ?thesis
          using st Visit Cons pcok
          by (intro base_goto [OF I w, where c = "Visit k ops'"])
            (auto simp: worker_step_def Let_def Ci_gc_get_collecting_and_finalized_atomic_def gc_is_collecting_def
              split: if_splits)
      qed
    qed
  next
    case (VisitStore k op f ops)
    then show ?thesis
      using st pcok by (intro base_mark [OF I w]) (auto simp: worker_step_def Let_def)
  next
    case (VisitPush k op ops)
    then show ?thesis
      using st pcok by (intro base_goto [OF I w, where c = "Visit k ops"]) (auto simp: worker_step_def Let_def)
  next
    case Take
    obtain r q where t: "dq_take (p_deque s w) = (r, q)" by force
    let ?c = "case r of None \<Rightarrow> Steal (victims n start w) | Some op \<Rightarrow> Visit AfterQueue (tp_traverse env op)"
    show ?thesis
      using st Take t w by (intro base_goto [OF I w, where c = ?c])
        (cases r; auto simp: worker_step_def Let_def victims_def)+
  next
    case (Steal vs)
    show ?thesis
    proof (cases vs)
      case Nil
      then show ?thesis using st Steal
        by (intro base_goto [OF I w, where c = TryCoord]) (auto simp: worker_step_def Let_def)
    next
      case (Cons v vs')
      obtain r q where t: "dq_steal (start \<noteq> 0) (p_deque s v) = (r, q)" by force
      let ?c = "case r of None \<Rightarrow> Steal vs' | Some op \<Rightarrow> Visit AfterQueue (tp_traverse env op)"
      show ?thesis
        using st Steal Cons t pcok by (intro base_goto [OF I w, where c = ?c])
          (cases r; auto simp: worker_step_def Let_def)+
    qed
  qed (use late base_quiet [OF I w _ st] in auto)
qed

end
