(* ===== verification/GC_Marking.thy ===== *)
theory GC_Marking
  imports GC_Workers
begin

text \<open>
  The marking phase: whatever the interleaving, marked objects are reachable, and every referent of a marked object is
  marked, or pending in a worker, or its referrer is still in a queue.
\<close>

section \<open>Marking\<close>

definition MK :: "addr list \<Rightarrow> par \<Rightarrow> addr set" where
  "MK ys s = {y \<in> set ys. \<not> gc_is_collecting (p_heap s) y}"

definition PEND :: "gcenv \<Rightarrow> nat \<Rightarrow> par \<Rightarrow> addr set" where
  "PEND env n s = (\<Union>v<n. mark_pend env (p_pc s v))"

definition QUEUED :: "nat \<Rightarrow> par \<Rightarrow> addr set" where
  "QUEUED n s = (\<Union>v<n. AS_GC ` set (dq_items (p_deque s v)))"

definition GREY :: "nat \<Rightarrow> par \<Rightarrow> addr set" where
  "GREY n s = (\<Union>v<n. pc_grey (p_pc s v)) \<union> QUEUED n s"

definition SLICE :: "nat \<Rightarrow> (nat \<Rightarrow> addr list) \<Rightarrow> par \<Rightarrow> addr set" where
  "SLICE n nodes s = (\<Union>v<n. slice_rest (nodes v) (p_pc s v))"

fun busy :: "pc \<Rightarrow> bool" where
  "busy (MarkSlice _) = True" | "busy (MarkSliceStore _ _) = True" | "busy (Visit _ _) = True"
| "busy (VisitStore _ _ _ _) = True" | "busy (VisitPush _ _ _) = True" | "busy Take = True"
| "busy _ = False"

definition live_refs :: "gcenv \<Rightarrow> addr list \<Rightarrow> addr set" where
  "live_refs env ys = (\<Union>y\<in>{y \<in> set ys. alive env ys y}. set (referents env y))"

definition mark_inv :: "gcenv \<Rightarrow> nat \<Rightarrow> addr list \<Rightarrow> (nat \<Rightarrow> addr list) \<Rightarrow> par \<Rightarrow> bool" where
  "mark_inv env n ys nodes s \<longleftrightarrow>
     (\<forall>y\<in>MK ys s. alive env ys y) \<and> PEND env n s \<subseteq> live_refs env ys \<and> GREY n s \<subseteq> MK ys s \<and>
     (\<forall>x\<in>MK ys s. x \<in> GREY n s \<or> set (referents env x) \<inter> set ys \<subseteq> MK ys s \<union> PEND env n s) \<and>
     roots env ys \<subseteq> MK ys s \<union> SLICE n nodes s \<and>
     (\<forall>v<n. \<not> busy (p_pc s v) \<longrightarrow> dq_items (p_deque s v) = [])"

lemma alive_step: "alive env ys x \<Longrightarrow> y \<in> set (referents env x) \<Longrightarrow> y \<in> set ys \<Longrightarrow> alive env ys y"
  unfolding alive_def by (rule reaches.step)

lemma roots_alive: "y \<in> roots env ys \<Longrightarrow> alive env ys y"
  unfolding alive_def by (rule reaches.root) (auto simp: roots_def)

lemma live_refs_alive: "y \<in> live_refs env ys \<Longrightarrow> y \<in> set ys \<Longrightarrow> alive env ys y"
  by (auto simp: live_refs_def intro: alive_step)

lemma Union_upd:
  assumes "w < n"
  shows "(\<Union>v<n. f v ((g(w := c)) v)) = f w c \<union> (\<Union>v\<in>{..<n} - {w}. f v (g v))"
  using assms by (auto split: if_splits)

lemma Union_split: "w < n \<Longrightarrow> (\<Union>v<n. f v (g v)) = f w (g w) \<union> (\<Union>v\<in>{..<n} - {w}. f v (g v))"
  by auto

text \<open>What a step has to show: \<open>M\<close> are the objects it marks.\<close>

lemma mark_step_gen:
  assumes I: "mark_inv env n ys nodes s" and w: "w < n" and pc: "p_pc s' = (p_pc s)(w := c)"
    and mk: "MK ys s' = MK ys s \<union> M" and M: "\<And>x. x \<in> M \<Longrightarrow> x \<in> set ys \<and> alive env ys x"
    and newM: "\<And>x. x \<in> M \<Longrightarrow> x \<in> GREY n s' \<or> set (referents env x) \<inter> set ys \<subseteq> MK ys s' \<union> PEND env n s'"
    and grey: "\<And>x. x \<in> GREY n s \<Longrightarrow> x \<in> GREY n s' \<or> set (referents env x) \<inter> set ys \<subseteq> MK ys s' \<union> PEND env n s'"
    and grey': "GREY n s' \<subseteq> MK ys s'"
    and pend: "mark_pend env (p_pc s w) \<inter> set ys \<subseteq> mark_pend env c \<union> MK ys s'"
    and pend': "mark_pend env c \<subseteq> live_refs env ys"
    and slc: "roots env ys \<inter> slice_rest (nodes w) (p_pc s w) \<subseteq> slice_rest (nodes w) c \<union> MK ys s'"
    and idle: "\<And>v. v < n \<Longrightarrow> \<not> busy (p_pc s' v) \<Longrightarrow> dq_items (p_deque s' v) = []"
  shows "mark_inv env n ys nodes s'"
proof -
  have P: "PEND env n s = mark_pend env (p_pc s w) \<union> (\<Union>v\<in>{..<n} - {w}. mark_pend env (p_pc s v))"
    "PEND env n s' = mark_pend env c \<union> (\<Union>v\<in>{..<n} - {w}. mark_pend env (p_pc s v))"
    unfolding PEND_def pc using Union_split [OF w] Union_upd [OF w, of "\<lambda>_. mark_pend env"] by simp_all
  have Sl: "SLICE n nodes s = slice_rest (nodes w) (p_pc s w) \<union> (\<Union>v\<in>{..<n} - {w}. slice_rest (nodes v) (p_pc s v))"
    "SLICE n nodes s' = slice_rest (nodes w) c \<union> (\<Union>v\<in>{..<n} - {w}. slice_rest (nodes v) (p_pc s v))"
    unfolding SLICE_def pc
    using Union_split [OF w] Union_upd [OF w, of "\<lambda>v. slice_rest (nodes v)"] by simp_all
  have i: "\<And>y. y \<in> MK ys s \<Longrightarrow> alive env ys y" "PEND env n s \<subseteq> live_refs env ys"
    "\<And>x. x \<in> MK ys s \<Longrightarrow> x \<in> GREY n s \<or> set (referents env x) \<inter> set ys \<subseteq> MK ys s \<union> PEND env n s"
    "roots env ys \<subseteq> MK ys s \<union> SLICE n nodes s"
    using I unfolding mark_inv_def by blast+
  have keep: "(MK ys s \<union> PEND env n s) \<inter> set ys \<subseteq> MK ys s' \<union> PEND env n s'"
    using pend unfolding P mk by blast
  have "x \<in> GREY n s' \<or> set (referents env x) \<inter> set ys \<subseteq> MK ys s' \<union> PEND env n s'" if "x \<in> MK ys s'" for x
  proof (cases "x \<in> M")
    case False
    then have "x \<in> MK ys s" using that mk by blast
    then show ?thesis using i(3) grey keep by blast
  qed (rule newM)
  moreover have "PEND env n s' \<subseteq> live_refs env ys" using i(2) pend' unfolding P by blast
  moreover have "roots env ys \<subseteq> MK ys s' \<union> SLICE n nodes s'" using i(4) slc unfolding Sl mk by blast
  moreover have "\<forall>y\<in>MK ys s'. alive env ys y" using i(1) M unfolding mk by blast
  ultimately show ?thesis using grey' idle unfolding mark_inv_def by blast
qed


lemma GREY_upd:
  assumes "w < n" "p_pc s' = (p_pc s)(w := c)"
  shows "GREY n s' = pc_grey c \<union> (\<Union>v\<in>{..<n} - {w}. pc_grey (p_pc s v)) \<union> QUEUED n s'"
    and "GREY n s = pc_grey (p_pc s w) \<union> (\<Union>v\<in>{..<n} - {w}. pc_grey (p_pc s v)) \<union> QUEUED n s"
  unfolding GREY_def assms(2)
  using Union_upd [OF assms(1), of "\<lambda>_. pc_grey"] Union_split [OF assms(1), of "\<lambda>_. pc_grey"] by simp_all

lemma QUEUED_upd:
  assumes "v < n" "p_deque s' = (p_deque s)(v := q)"
  shows "QUEUED n s' = AS_GC ` set (dq_items q) \<union> (\<Union>u\<in>{..<n} - {v}. AS_GC ` set (dq_items (p_deque s u)))"
    and "QUEUED n s = AS_GC ` set (dq_items (p_deque s v)) \<union> (\<Union>u\<in>{..<n} - {v}. AS_GC ` set (dq_items (p_deque s u)))"
  unfolding QUEUED_def assms(2)
  using Union_upd [OF assms(1), of "\<lambda>_ q. AS_GC ` set (dq_items q)"]
    Union_split [OF assms(1), of "\<lambda>_ q. AS_GC ` set (dq_items q)"] by simp_all

lemma mark_goto:
  assumes I: "mark_inv env n ys nodes s" and w: "w < n" and pc: "p_pc s' = (p_pc s)(w := c)"
    and mk: "MK ys s' = MK ys s" and dq: "p_deque s' = p_deque s"
    and g: "pc_grey (p_pc s w) = {}" "pc_grey c = {}"
    and pend: "mark_pend env (p_pc s w) \<inter> set ys \<subseteq> mark_pend env c \<union> MK ys s"
    and pend': "mark_pend env c \<subseteq> live_refs env ys"
    and slc: "roots env ys \<inter> slice_rest (nodes w) (p_pc s w) \<subseteq> slice_rest (nodes w) c \<union> MK ys s"
    and idle: "busy c \<or> dq_items (p_deque s w) = []"
  shows "mark_inv env n ys nodes s'"
proof -
  have G: "GREY n s' = GREY n s" using GREY_upd [OF w pc] g dq by (simp add: QUEUED_def)
  have id: "\<And>v. v < n \<Longrightarrow> \<not> busy (p_pc s v) \<Longrightarrow> dq_items (p_deque s v) = []" and gm: "GREY n s \<subseteq> MK ys s"
    using I unfolding mark_inv_def by blast+
  show ?thesis
  proof (rule mark_step_gen [OF I w pc, where M = "{}"])
    fix v assume v: "v < n" "\<not> busy (p_pc s' v)"
    then show "dq_items (p_deque s' v) = []" using id [of v] idle unfolding dq pc by (cases "v = w") auto
  qed (use mk pend pend' slc G gm in auto)
qed

lemma mark_early_step:
  assumes S: "par_setup env slices n ys nodes h0" and B: "base_inv env slices n ys nodes h0 e0 s"
    and I: "mark_inv env n ys nodes s" and w: "w < n" and early: "stage (p_pc s w) \<le> 1"
    and st: "worker_step env slices n start w s = Some s'"
    and B': "base_inv env slices n ys nodes h0 e0 s'"
  shows "mark_inv env n ys nodes s'"
proof -
  have sl: "slice_ok h0 (slices ! w) (nodes w)" using S w by (simp add: par_setup_def)
  obtain c where pc: "p_pc s' = (p_pc s)(w := c)"
    and c: "stage c \<le> 1 \<or> c = MarkSlice (slice_start (slices ! w))"
    and dq: "p_deque s' = p_deque s" and hp: "stage c = 0 \<and> stage (p_pc s w) = 0 \<or> p_heap s' = p_heap s"
    using st early
    by (cases "p_pc s w") (auto simp: worker_step_def Let_def split: list.splits prod.splits option.splits if_splits)
  have cs: "slice_rest (nodes w) c = set (nodes w)" "pc_grey c = {}" "mark_pend env c = {}"
    using c rest_start [OF sl] by (cases c; auto)+
  have ps: "slice_rest (nodes w) (p_pc s w) = set (nodes w)" "pc_grey (p_pc s w) = {}" "mark_pend env (p_pc s w) = {}"
    "\<not> busy (p_pc s w)"
    using early by (cases "p_pc s w"; auto)+
  have mk: "MK ys s' = MK ys s"
  proof (cases "p_heap s' = p_heap s")
    case False
    have all: "\<And>y. y \<in> set ys \<Longrightarrow> gc_is_collecting (p_heap t) y"
      if "base_inv env slices n ys nodes h0 e0 t" "stage (p_pc t w) = 0" for t
    proof -
      have "\<not> (\<forall>w<n. 1 \<le> stage (p_pc t w))" using w that(2) by (auto intro!: exI [of _ w])
      then show "\<And>y. y \<in> set ys \<Longrightarrow> gc_is_collecting (p_heap t) y"
        using that(1) unfolding base_inv_def phase_inv_def by blast
    qed
    then show ?thesis using all [OF B] all [OF B'] pc hp False by (auto simp: MK_def)
  qed (simp add: MK_def)
  have "dq_items (p_deque s w) = []" using I w ps(4) by (simp add: mark_inv_def)
  then show ?thesis using cs ps by (intro mark_goto [OF I w pc mk dq]) auto
qed

lemma mark_quiet_step:
  assumes I: "mark_inv env n ys nodes s" and w: "w < n" and q: "quiet (p_pc s w)"
    and st: "worker_step env slices n start w s = Some s'"
  shows "mark_inv env n ys nodes s'"
proof -
  note f = quiet_frame [OF q st]
  have c: "slice_rest (nodes w) (p_pc s' w) = {}" "pc_grey (p_pc s' w) = {}" "mark_pend env (p_pc s' w) = {}"
    using f(5) quiet_obs [of "p_pc s' w"] by auto
  have "\<not> busy (p_pc s w)" using q by (cases "p_pc s w") auto
  then have "dq_items (p_deque s w) = []" using I w by (simp add: mark_inv_def)
  then show ?thesis
    using c quiet_obs(3-5) [OF q] f(1) by (intro mark_goto [OF I w f(4) _ f(2)]) (auto simp: MK_def)
qed


lemma dq_take_items:
  assumes "dq_take q = (r, q')"
  shows "r = None \<Longrightarrow> q' = q \<and> dq_items q = []"
    and "r = Some op \<Longrightarrow> set (dq_items q) = insert op (set (dq_items q'))"
proof -
  show "r = None \<Longrightarrow> q' = q \<and> dq_items q = []" using assms by (auto simp: dq_take_def split: if_splits)
  assume "r = Some op"
  then have "dq_items q = dq_items q' @ [op]"
    using assms by (cases "dq_items q" rule: rev_cases) (auto simp: dq_take_def split: if_splits)
  then show "set (dq_items q) = insert op (set (dq_items q'))" by simp
qed

lemma dq_steal_items:
  assumes "dq_steal b q = (r, q')"
  shows "r = None \<Longrightarrow> q' = q"
    and "r = Some op \<Longrightarrow> set (dq_items q) = insert op (set (dq_items q'))"
proof -
  show "r = None \<Longrightarrow> q' = q" using assms by (auto simp: dq_steal_def split: if_splits)
  assume "r = Some op"
  then have "dq_items q = op # dq_items q'"
    using assms by (cases "dq_items q") (auto simp: dq_steal_def split: if_splits)
  then show "set (dq_items q) = insert op (set (dq_items q'))" by simp
qed

text \<open>Taking an object from a queue, one's own or another's, to traverse it.\<close>

lemma mark_fetch:
  assumes I: "mark_inv env n ys nodes s" and w: "w < n" and v: "v < n"
    and pc: "p_pc s' = (p_pc s)(w := Visit AfterQueue (tp_traverse env op))"
    and hp: "p_heap s' = p_heap s" and dq: "p_deque s' = (p_deque s)(v := q)"
    and items: "set (dq_items (p_deque s v)) = insert op (set (dq_items q))"
    and c: "pc_grey (p_pc s w) = {}" "mark_pend env (p_pc s w) = {}" "slice_rest (nodes w) (p_pc s w) = {}"
  shows "mark_inv env n ys nodes s'"
proof -
  have mk: "MK ys s' = MK ys s \<union> {}" using hp by (simp add: MK_def)
  have Q: "QUEUED n s = insert (AS_GC op) (QUEUED n s')"
    using QUEUED_upd [OF v dq] items by auto
  have G: "GREY n s = insert (AS_GC op) (GREY n s')" using GREY_upd [OF w pc] c Q by auto
  have gm: "GREY n s \<subseteq> MK ys s" and id: "\<And>v. v < n \<Longrightarrow> \<not> busy (p_pc s v) \<Longrightarrow> dq_items (p_deque s v) = []"
    and al: "\<And>y. y \<in> MK ys s \<Longrightarrow> alive env ys y"
    using I unfolding mark_inv_def by blast+
  have op: "AS_GC op \<in> set ys" "alive env ys (AS_GC op)" using G gm al by (auto simp: MK_def)
  have P: "set (referents env (AS_GC op)) \<subseteq> PEND env n s'"
    unfolding PEND_def using w pc by (auto intro!: bexI [of _ w])
  show ?thesis
  proof (rule mark_step_gen [OF I w pc mk])
    fix u assume u: "u < n" "\<not> busy (p_pc s' u)"
    then have "dq_items (p_deque s u) = []" using id [of u] pc by (auto split: if_splits)
    then show "dq_items (p_deque s' u) = []" using items unfolding dq by (auto split: if_splits)
  next
    show "mark_pend env (Visit AfterQueue (tp_traverse env op)) \<subseteq> live_refs env ys"
      using op by (auto simp: live_refs_def)
  qed (use G gm mk c P in auto)
qed

lemma mark_busy_step:
  assumes S: "par_setup env slices n ys nodes h0" and B: "base_inv env slices n ys nodes h0 e0 s"
    and I: "mark_inv env n ys nodes s" and w: "w < n" and late: "stage (p_pc s w) = 2" "\<not> quiet (p_pc s w)"
    and st: "worker_step env slices n start w s = Some s'"
  shows "mark_inv env n ys nodes s'"
proof -
  let ?ok = "pc_ok env h0 (set ys) (roots env ys) n (slices ! w) (nodes w)"
  have sl: "slice_ok h0 (slices ! w) (nodes w)" using S w by (simp add: par_setup_def)
  have H: "heap_inv env n ys nodes h0 s" and pcok: "?ok (p_pc s w)"
    using B w by (simp_all add: base_inv_def pcs_inv_def)
  have nx: "gc_next (p_heap s) = gc_next h0" using H by (simp add: heap_inv_def)
  have ny: "set (nodes w) \<subseteq> set ys" by (rule nodes_in_ys [OF S w])
  have gm: "GREY n s \<subseteq> MK ys s" and id: "\<And>v. v < n \<Longrightarrow> \<not> busy (p_pc s v) \<Longrightarrow> dq_items (p_deque s v) = []"
    and al: "\<And>y. y \<in> MK ys s \<Longrightarrow> alive env ys y" and pl: "mark_pend env (p_pc s w) \<subseteq> live_refs env ys"
    using I w unfolding mark_inv_def PEND_def by blast+
  show ?thesis
  proof (cases "p_pc s w")
    case (MarkSlice gc)
    consider "gc = slice_end (slices ! w)" | "gc \<in> set (nodes w)" "gc \<noteq> slice_end (slices ! w)"
      using pcok MarkSlice by auto
    then show ?thesis
    proof cases
      case 1
      then show ?thesis using st MarkSlice rest_end [OF sl]
        by (intro mark_goto [OF I w, where c = Take]) (auto simp: worker_step_def Let_def MK_def)
    next
      case 2
      note ss = slice_step [OF sl 2(1) nx]
      have gy: "gc \<in> set ys" using 2 ny by auto
      show ?thesis
      proof (cases "gc_get_refs (p_heap s) gc \<noteq> 0 \<and> gc_is_collecting (p_heap s) gc")
        case True
        then show ?thesis
          using st MarkSlice 2
          by (intro mark_goto [OF I w, where c = "MarkSliceStore gc (gc_finalized (p_heap s) gc)"])
            (auto simp: worker_step_def Let_def Ci_gc_is_collecting_and_reachable_atomic_def gc_get_refs_def
              gc_is_collecting_def gc_finalized_def MK_def)
      next
        case False
        then have "gc \<in> MK ys s \<or> gc \<notin> roots env ys"
          using collecting_refs [OF B w _ gy] late gy by (auto simp: MK_def)
        then show ?thesis
          using st MarkSlice 2 ss False
          by (intro mark_goto [OF I w, where c = "MarkSlice (GC_NEXT (p_heap s) gc)"])
            (auto simp: worker_step_def Let_def Ci_gc_is_collecting_and_reachable_atomic_def gc_get_refs_def
              gc_is_collecting_def MK_def)
      qed
    qed
  next
    case (MarkSliceStore gc f)
    let ?c = "Visit (AfterSlice gc) (tp_traverse env (FROM_GC gc))"
    have gc: "gc \<in> set (nodes w)" "gc \<in> roots env ys" using pcok MarkSliceStore by auto
    have gy: "gc \<in> set ys" using gc ny by auto
    have hp: "p_heap s' = Ci_gc_mark_reachable_and_clear_collecting_atomic (p_heap s) gc f"
      and pc: "p_pc s' = (p_pc s)(w := ?c)" and dq: "p_deque s' = p_deque s"
      using st MarkSliceStore by (auto simp: worker_step_def Let_def)
    have mk: "MK ys s' = MK ys s \<union> {gc}" using gy by (auto simp: MK_def hp mark_obs)
    have G: "GREY n s' = GREY n s" using GREY_upd [OF w pc] MarkSliceStore dq by (simp add: QUEUED_def)
    have P: "set (referents env gc) \<subseteq> PEND env n s'"
      unfolding PEND_def using w pc by (auto intro!: bexI [of _ w])
    show ?thesis
    proof (rule mark_step_gen [OF I w pc mk])
      show "mark_pend env ?c \<subseteq> live_refs env ys" using gy roots_alive [OF gc(2)] by (auto simp: live_refs_def)
      show "roots env ys \<inter> slice_rest (nodes w) (p_pc s w) \<subseteq> slice_rest (nodes w) ?c \<union> MK ys s'"
        using slice_step(1) [OF sl gc(1) nx] MarkSliceStore unfolding mk by auto
      show "dq_items (p_deque s' v) = []" if "v < n" "\<not> busy (p_pc s' v)" for v
        using that id [of v] pc dq by (auto split: if_splits)
    qed (use gy roots_alive [OF gc(2)] G gm mk P MarkSliceStore in auto)
  next
    case (Visit k ops)
    show ?thesis
    proof (cases ops)
      case Nil
      have "pc_grey (resume (p_heap s) k) = {}" "mark_pend env (resume (p_heap s) k) = {}"
        "slice_rest (nodes w) (resume (p_heap s) k) = after_rest (nodes w) k" "busy (resume (p_heap s) k)"
        using Visit pcok slice_step(1) [OF sl _ nx] by (cases k; auto simp: resume_def)+
      then show ?thesis using st Visit Nil
        by (intro mark_goto [OF I w, where c = "resume (p_heap s) k"]) (auto simp: worker_step_def Let_def MK_def)
    next
      case (Cons op ops')
      let ?x = "AS_GC op"
      show ?thesis
      proof (cases "is_gc env op \<and> gc_is_collecting (p_heap s) ?x")
        case True
        then show ?thesis
          using st Visit Cons pl
          by (intro mark_goto [OF I w, where c = "VisitStore k op (gc_finalized (p_heap s) ?x) ops'"])
            (auto simp: worker_step_def Let_def Ci_gc_get_collecting_and_finalized_atomic_def gc_is_collecting_def
              gc_finalized_def MK_def)
      next
        case False
        then show ?thesis
          using st Visit Cons pl
          by (intro mark_goto [OF I w, where c = "Visit k ops'"])
            (auto simp: worker_step_def Let_def Ci_gc_get_collecting_and_finalized_atomic_def gc_is_collecting_def
              MK_def split: if_splits)
      qed
    qed
  next
    case (VisitStore k op f ops)
    let ?x = "AS_GC op" and ?c = "VisitPush k op ops"
    have x: "?x \<in> set ys" using pcok VisitStore by simp
    have ax: "alive env ys ?x" using live_refs_alive [OF _ x] pl VisitStore by auto
    have hp: "p_heap s' = Ci_gc_mark_reachable_and_clear_collecting_atomic (p_heap s) ?x f"
      and pc: "p_pc s' = (p_pc s)(w := ?c)" and dq: "p_deque s' = p_deque s"
      using st VisitStore by (auto simp: worker_step_def Let_def)
    have mk: "MK ys s' = MK ys s \<union> {?x}" using x by (auto simp: MK_def hp mark_obs)
    have G: "GREY n s' = insert ?x (GREY n s)" using GREY_upd [OF w pc] VisitStore dq by (simp add: QUEUED_def)
    show ?thesis
    proof (rule mark_step_gen [OF I w pc mk])
      show "dq_items (p_deque s' v) = []" if "v < n" "\<not> busy (p_pc s' v)" for v
        using that id [of v] pc dq by (auto split: if_splits)
    qed (use x ax G gm mk VisitStore pl in auto)
  next
    case (VisitPush k op ops)
    have pc: "p_pc s' = (p_pc s)(w := Visit k ops)" and hp: "p_heap s' = p_heap s"
      and dq: "p_deque s' = (p_deque s)(w := dq_push op (p_deque s w))"
      using st VisitPush by (auto simp: worker_step_def Let_def)
    have mk: "MK ys s' = MK ys s \<union> {}" using hp by (simp add: MK_def)
    have "QUEUED n s' = insert (AS_GC op) (QUEUED n s)"
      using QUEUED_upd [OF w dq] by (auto simp: dq_push_def)
    then have G: "GREY n s' = GREY n s" using GREY_upd [OF w pc] VisitPush by auto
    show ?thesis
    proof (rule mark_step_gen [OF I w pc mk])
      show "dq_items (p_deque s' v) = []" if "v < n" "\<not> busy (p_pc s' v)" for v
        using that id [of v] pc dq by (auto split: if_splits)
    qed (use G gm mk VisitPush pl in auto)
  next
    case Take
    obtain r q where t: "dq_take (p_deque s w) = (r, q)" by force
    show ?thesis
    proof (cases r)
      case None
      then have "q = p_deque s w" "dq_items (p_deque s w) = []" using dq_take_items(1) [OF t] by auto
      then show ?thesis
        using st Take t None
        by (intro mark_goto [OF I w, where c = "Steal (victims n start w)"])
          (auto simp: worker_step_def Let_def MK_def)
    next
      case (Some op)
      then show ?thesis
        using st Take t dq_take_items(2) [OF t Some]
        by (intro mark_fetch [OF I w w, where op = op and q = q]) (auto simp: worker_step_def Let_def)
    qed
  next
    case (Steal vs)
    have idw: "dq_items (p_deque s w) = []" using id [OF w] Steal by simp
    show ?thesis
    proof (cases vs)
      case Nil
      then show ?thesis using st Steal idw
        by (intro mark_goto [OF I w, where c = TryCoord]) (auto simp: worker_step_def Let_def MK_def)
    next
      case (Cons v vs')
      obtain r q where t: "dq_steal (start \<noteq> 0) (p_deque s v) = (r, q)" by force
      have v: "v < n" using pcok Steal Cons by simp
      show ?thesis
      proof (cases r)
        case None
        then have "q = p_deque s v" using dq_steal_items(1) [OF t] by auto
        then show ?thesis
          using st Steal Cons t None idw
          by (intro mark_goto [OF I w, where c = "Steal vs'"]) (auto simp: worker_step_def Let_def MK_def)
      next
        case (Some op)
        then show ?thesis
          using st Steal Cons t dq_steal_items(2) [OF t Some]
          by (intro mark_fetch [OF I w v, where op = op and q = q]) (auto simp: worker_step_def Let_def)
      qed
    qed
  qed (use late in auto)
qed

end
