(* ===== verification/GC_Termination.thy ===== *)
theory GC_Termination
  imports GC_Marking
begin

text \<open>
  The termination detection of the workers (the coordinator, the count of marking workers and the semaphore) and
  the invariant of the whole run: when the main thread passes the last barrier, every queue is empty, the
  marked objects are exactly the reachable ones and the shared state is at rest for the next collection.
\<close>

section \<open>When marking ends\<close>

fun credit :: "pc \<Rightarrow> nat" where
  "credit (CoordPost k) = k" | "credit (CoordPostFinal k) = k" | "credit _ = 0"

fun coord :: "pc \<Rightarrow> bool" where
  "coord CoordLoad = True" | "coord CoordFinish = True" | "coord (CoordPostFinal _) = True"
| "coord (CoordSum _ _ _) = True" | "coord (CoordSumTop _ _ _ _) = True" | "coord (CoordAdd _) = True"
| "coord (CoordPost _) = True" | "coord DropCoord = True" | "coord _ = False"

fun final :: "pc \<Rightarrow> bool" where
  "final WaitSema = True" | "final (CoordPostFinal _) = True" | "final DropCoord = True"
| "final CheckMarking = True" | "final c = (3 \<le> stage c)"

fun marking_ok :: "nat \<Rightarrow> int \<Rightarrow> pc \<Rightarrow> bool" where
  "marking_ok n m CoordFinish = (m = 1)"
| "marking_ok n m (CoordSum i a k) = (m \<le> k \<and> k \<le> int n)"
| "marking_ok n m (CoordSumTop i a k b) = (m \<le> k \<and> k \<le> int n)"
| "marking_ok n m (CoordAdd k) = (m + int k \<le> int n)"
| "marking_ok n m (CoordPostFinal k) = False"
| "marking_ok n m c = (stage c \<le> 2)"

definition waiting :: "nat \<Rightarrow> par \<Rightarrow> nat set" where
  "waiting n s = {v. v < n \<and> p_pc s v = WaitSema}"

definition credits :: "nat \<Rightarrow> par \<Rightarrow> nat" where
  "credits n s = (\<Sum>v<n. credit (p_pc s v))"

definition coord_inv :: "nat \<Rightarrow> par \<Rightarrow> bool" where
  "coord_inv n s \<longleftrightarrow> (\<forall>v<n. coord (p_pc s v) \<longleftrightarrow> p_coordinator s = Some v) \<and>
     (\<forall>v. p_coordinator s = Some v \<longrightarrow> v < n)"

text \<open>
  While marking goes on, \<open>num_workers_marking\<close> counts the workers that do not wait, together with the
  tokens that will wake one; some worker that does not wait is not about to.
\<close>

definition running :: "nat \<Rightarrow> par \<Rightarrow> bool" where
  "running n s \<longleftrightarrow> 0 < p_marking s \<and> p_marking s \<le> int n \<and>
     p_marking s + int (card (waiting n s)) = int n + int (p_sema s) + int (credits n s) \<and>
     (\<forall>v<n. marking_ok n (p_marking s) (p_pc s v)) \<and>
     (\<exists>v<n. p_pc s v \<noteq> WaitSema \<and> p_pc s v \<noteq> WaitDec)"

definition finished :: "gcenv \<Rightarrow> nat \<Rightarrow> addr list \<Rightarrow> par \<Rightarrow> bool" where
  "finished env n ys s \<longleftrightarrow> p_marking s = 0 \<and> (\<forall>v<n. final (p_pc s v)) \<and>
     p_sema s + credits n s = card (waiting n s) \<and> MK ys s = {y \<in> set ys. alive env ys y}"

lemma waiting_upd:
  assumes "w < n" "p_pc s' = (p_pc s)(w := c)"
  shows "card (waiting n s') + (if p_pc s w = WaitSema then 1 else 0) =
    card (waiting n s) + (if c = WaitSema then 1 else 0)"
proof -
  have fin: "finite (waiting n t)" for t by (simp add: waiting_def)
  have "waiting n s' = (if c = WaitSema then insert w (waiting n s - {w}) else waiting n s - {w})"
    using assms by (auto simp: waiting_def)
  moreover have "w \<in> waiting n s \<longleftrightarrow> p_pc s w = WaitSema" using assms by (simp add: waiting_def)
  moreover have "card (waiting n s - {w}) = card (waiting n s) - (if w \<in> waiting n s then 1 else 0)"
    using fin by (simp add: card_Diff_singleton_if)
  moreover have "w \<in> waiting n s \<Longrightarrow> 0 < card (waiting n s)" using fin card_gt_0_iff by blast
  ultimately show ?thesis using fin by (auto simp: insert_absorb)
qed

lemma credits_upd:
  assumes "w < n" "p_pc s' = (p_pc s)(w := c)"
  shows "credits n s' + credit (p_pc s w) = credits n s + credit c"
proof -
  have "credits n t = credit (p_pc t w) + (\<Sum>v\<in>{..<n} - {w}. credit (p_pc t v))" for t
    using assms(1) unfolding credits_def by (subst sum.remove [of _ w]) auto
  moreover have "(\<Sum>v\<in>{..<n} - {w}. credit (p_pc s' v)) = (\<Sum>v\<in>{..<n} - {w}. credit (p_pc s v))"
    using assms(2) by (intro sum.cong) auto
  ultimately show ?thesis using assms(2) by simp
qed

lemma waiting_others:
  assumes "w < n" "p_pc s w \<noteq> WaitSema"
  shows "card (waiting n s) \<le> n - 1"
    and "card (waiting n s) = n - 1 \<Longrightarrow> v < n \<Longrightarrow> v \<noteq> w \<Longrightarrow> p_pc s v = WaitSema"
proof -
  have sub: "waiting n s \<subseteq> {..<n} - {w}" using assms by (auto simp: waiting_def)
  then show "card (waiting n s) \<le> n - 1" using card_mono [OF _ sub] assms(1) by simp
  assume "card (waiting n s) = n - 1" "v < n" "v \<noteq> w"
  then have "waiting n s = {..<n} - {w}" using assms(1) by (intro card_subset_eq [OF _ sub]) auto
  then have "v \<in> waiting n s" using \<open>v < n\<close> \<open>v \<noteq> w\<close> by auto
  then show "p_pc s v = WaitSema" by (simp add: waiting_def)
qed

text \<open>The last worker that is not waiting has marked everything.\<close>

lemma last_worker_complete:
  assumes M: "mark_inv env n ys nodes s" and w: "w < n"
    and all: "\<And>v. v < n \<Longrightarrow> quiet (p_pc s v)"
  shows "MK ys s = {y \<in> set ys. alive env ys y}"
proof -
  have P: "PEND env n s = {}" and Sl: "SLICE n nodes s = {}"
    using quiet_obs(3,5) [OF all] by (simp_all add: PEND_def SLICE_def)
  have nb: "\<not> busy (p_pc s v)" if "v < n" for v using all [OF that] by (cases "p_pc s v") auto
  have "QUEUED n s = {}" using M nb by (auto simp: QUEUED_def mark_inv_def)
  then have G: "GREY n s = {}" using quiet_obs(4) [OF all] by (simp add: GREY_def)
  have cl: "\<And>x. x \<in> MK ys s \<Longrightarrow> set (referents env x) \<inter> set ys \<subseteq> MK ys s" and rt: "roots env ys \<subseteq> MK ys s"
    and so: "\<And>y. y \<in> MK ys s \<Longrightarrow> alive env ys y"
    using M unfolding mark_inv_def P Sl G by blast+
  have "y \<in> MK ys s" if "alive env ys y" for y
  proof (rule reaches_least)
    show "reaches env (set ys) (roots env ys) y" using that by (simp add: alive_def)
    show "roots env ys \<inter> set ys \<subseteq> MK ys s" using rt by blast
    fix d z assume "d \<in> MK ys s" "z \<in> set (referents env d)" "z \<in> set ys"
    then show "z \<in> MK ys s" using cl [of d] by blast
  qed
  moreover have "MK ys s \<subseteq> set ys" by (auto simp: MK_def)
  ultimately show ?thesis using so by blast
qed


text \<open>What each step does to the coordination state; \<open>c\<close> and \<open>c'\<close> are its program counters.\<close>

lemma step_coordination:
  assumes "worker_step env slices n start w s = Some s'"
  defines "c \<equiv> p_pc s w" and "c' \<equiv> p_pc s' w"
  shows "p_pc s' = (p_pc s)(w := c')"
    and "p_marking s' = p_marking s + (case c of CoordFinish \<Rightarrow> - 1 | WaitDec \<Rightarrow> - 1 | CoordAdd k \<Rightarrow> int k | _ \<Rightarrow> 0)"
    and "p_sema s' + (if c = WaitSema then 1 else 0) =
      p_sema s + (case c of CoordPost k \<Rightarrow> k | CoordPostFinal k \<Rightarrow> k | _ \<Rightarrow> 0)"
    and "p_coordinator s' = (if c = TryCoord \<and> c' = CoordLoad then Some w else if c = DropCoord then None else p_coordinator s)"
  using assms(1) unfolding c_def c'_def
  by (cases "p_pc s w"; auto simp: worker_step_def Let_def Ci_Sema_Post_def Ci_Sema_Wait_def
      split: option.splits prod.splits if_splits list.splits)+

fun next_ok :: "nat \<Rightarrow> par \<Rightarrow> nat \<Rightarrow> pc \<Rightarrow> pc \<Rightarrow> bool" where
  "next_ok n s w TryCoord c' = (if p_coordinator s = None then c' = CoordLoad else c' = WaitDec)"
| "next_ok n s w CoordLoad c' = (if p_marking s = 1 then c' = CoordFinish else c' = CoordSum 0 0 (p_marking s))"
| "next_ok n s w CoordFinish c' = (c' = CoordPostFinal (n - 1))"
| "next_ok n s w (CoordPostFinal k) c' = (c' = DropCoord)"
| "next_ok n s w (CoordSum i a m) c' =
     ((\<exists>b. c' = CoordSumTop i a m b) \<or> c' = CoordLoad \<or> c' = DropCoord \<or> (\<exists>k. c' = CoordAdd k \<and> int k \<le> int n - m))"
| "next_ok n s w (CoordSumTop i a m b) c' = (\<exists>a'. c' = CoordSum (i + 1) a' m)"
| "next_ok n s w (CoordAdd k) c' = (c' = CoordPost k)"
| "next_ok n s w (CoordPost k) c' = (c' = DropCoord)"
| "next_ok n s w DropCoord c' = (c' = CheckMarking)"
| "next_ok n s w WaitDec c' = (c' = WaitSema)"
| "next_ok n s w WaitSema c' = (c' = CheckMarking)"
| "next_ok n s w CheckMarking c' = (c' = (if p_marking s \<noteq> 0 then Take else DoneBarrier))"
| "next_ok n s w c c' = (if 3 \<le> stage c then 3 \<le> stage c'
     else stage c' \<le> 2 \<and> (\<not> quiet c' \<or> c' = TryCoord))"

lemma step_next:
  assumes "worker_step env slices n start w s = Some s'"
  shows "next_ok n s w (p_pc s w) (p_pc s' w)"
  using assms
  by (cases "p_pc s w"; auto simp: worker_step_def Let_def resume_def split: option.splits prod.splits if_splits list.splits after.splits)


lemma coord_not:
  "3 \<le> stage c \<Longrightarrow> \<not> coord c" "\<not> quiet c \<Longrightarrow> \<not> coord c" "3 \<le> stage c \<Longrightarrow> final c"
  "3 \<le> stage c \<Longrightarrow> credit c = 0" "3 \<le> stage c \<Longrightarrow> c \<noteq> WaitSema"
  by (cases c; simp)+

lemma next_coord:
  "next_ok n s w c c' \<Longrightarrow> c \<noteq> TryCoord \<Longrightarrow> c \<noteq> DropCoord \<Longrightarrow> coord c' = coord c"
  by (cases c) (auto simp: coord_not split: if_splits)

lemma coord_step:
  assumes I: "coord_inv n s" and w: "w < n" and st: "worker_step env slices n start w s = Some s'"
  shows "coord_inv n s'"
proof -
  define c' where "c' = p_pc s' w"
  note f = step_coordination [OF st, folded c'_def] and nx = step_next [OF st, folded c'_def]
  have I1: "\<And>v. v < n \<Longrightarrow> coord (p_pc s v) \<longleftrightarrow> p_coordinator s = Some v"
    and I2: "\<And>v. p_coordinator s = Some v \<Longrightarrow> v < n"
    using I by (auto simp: coord_inv_def)
  consider (took) "p_pc s w = TryCoord" "p_coordinator s = None" "c' = CoordLoad"
    | (dropped) "p_pc s w = DropCoord"
    | (keep) "coord (c') = coord (p_pc s w)" "p_coordinator s' = p_coordinator s"
  proof -
    have "p_pc s w = TryCoord \<and> p_coordinator s = None \<and> c' = CoordLoad \<or> p_pc s w = DropCoord \<or>
        coord (c') = coord (p_pc s w) \<and> p_coordinator s' = p_coordinator s"
    proof (cases "p_pc s w = TryCoord \<or> p_pc s w = DropCoord")
      case True
      then show ?thesis using nx f(4) by (auto split: if_splits)
    next
      case False
      then have "p_coordinator s' = p_coordinator s" using f(4) by simp
      moreover have "coord (c') = coord (p_pc s w)" using next_coord [OF nx] False by simp
      ultimately show ?thesis by blast
    qed
    then show ?thesis using that by blast
  qed
  then show ?thesis
  proof cases
    case took
    then have co: "p_coordinator s' = Some w" using f(4) by simp
    show ?thesis unfolding coord_inv_def co f(1) using I1 took w by auto
  next
    case dropped
    then have "p_coordinator s = Some w" using I1 [OF w] by simp
    moreover have co: "p_coordinator s' = None" using f(4) dropped by simp
    ultimately show ?thesis unfolding coord_inv_def co f(1) using I1 nx dropped by auto
  next
    case keep
    then show ?thesis using I1 I2 w unfolding coord_inv_def keep(2) f(1) by auto
  qed
qed

lemma finished_step:
  assumes F: "finished env n ys s" and w: "w < n" and st: "worker_step env slices n start w s = Some s'"
  shows "finished env n ys s'"
proof -
  define c' where "c' = p_pc s' w"
  note f = step_coordination [OF st, folded c'_def] and nx = step_next [OF st, folded c'_def]
  have q: "quiet (p_pc s w)" and fi: "final (p_pc s w)"
  proof -
    show "final (p_pc s w)" using F w by (simp add: finished_def)
    then show "quiet (p_pc s w)" by (cases "p_pc s w") auto
  qed
  have m: "p_marking s = 0" using F by (simp add: finished_def)
  have "p_marking s' = 0" using f(2) fi m by (cases "p_pc s w") auto
  moreover have "final (c')"
    using nx fi m by (cases "p_pc s w") (auto simp: coord_not)
  then have "\<forall>v<n. final (p_pc s' v)" using F by (subst f(1)) (auto simp: finished_def)
  moreover have "p_sema s' + credits n s' = card (waiting n s')"
  proof -
    have "p_sema s + credits n s = card (waiting n s)" using F by (simp add: finished_def)
    moreover have "credit (c') = 0" "c' \<noteq> WaitSema"
      using nx fi m by (cases "p_pc s w"; auto simp: coord_not)+
    ultimately show ?thesis
      using f(3) waiting_upd [OF w f(1)] credits_upd [OF w f(1)] fi by (cases "p_pc s w") auto
  qed
  moreover have "MK ys s' = {y \<in> set ys. alive env ys y}"
    using quiet_frame(1) [OF q st] F by (simp add: finished_def MK_def)
  ultimately show ?thesis by (simp add: finished_def)
qed


lemma running_step:
  assumes R: "running n s" and C: "coord_inv n s" and M: "mark_inv env n ys nodes s" and w: "w < n"
    and st: "worker_step env slices n start w s = Some s'"
  shows "running n s' \<or> finished env n ys s'"
proof -
  define c' where "c' = p_pc s' w"
  note f = step_coordination [OF st, folded c'_def] and nx = step_next [OF st, folded c'_def]
  note wu = waiting_upd [OF w f(1)] and cu = credits_upd [OF w f(1)]
  have m: "0 < p_marking s" "p_marking s \<le> int n"
    and eq: "p_marking s + int (card (waiting n s)) = int n + int (p_sema s) + int (credits n s)"
    and ok: "\<And>v. v < n \<Longrightarrow> marking_ok n (p_marking s) (p_pc s v)"
    and awake: "\<exists>v<n. p_pc s v \<noteq> WaitSema \<and> p_pc s v \<noteq> WaitDec"
    using R by (auto simp: running_def)
  have okw: "marking_ok n (p_marking s) (p_pc s w)" by (rule ok [OF w])
  show ?thesis
  proof (cases "p_pc s w = CoordFinish")
    case True
    then have m1: "p_marking s = 1" using okw by simp
    have "card (waiting n s) \<le> n - 1" using waiting_others(1) [OF w] True by simp
    then have z: "p_sema s = 0" "credits n s = 0" "card (waiting n s) = n - 1" using eq m1 w by linarith+
    have ws: "p_pc s v = WaitSema" if "v < n" "v \<noteq> w" for v
      using waiting_others(2) [OF w _ z(3) that] True by simp
    have "quiet (p_pc s v)" if "v < n" for v using ws [OF that] True by (cases "v = w") auto
    from last_worker_complete [OF M w this] have "MK ys s = {y \<in> set ys. alive env ys y}" .
    moreover have "p_heap s' = p_heap s" using quiet_frame(1) [OF _ st] True by simp
    moreover have "c' = CoordPostFinal (n - 1)" using nx True by simp
    moreover have "p_marking s' = 0" using f(2) True m1 by simp
    moreover have "p_sema s' = 0" using f(3) True z by simp
    moreover have "credits n s' = n - 1" "card (waiting n s') = n - 1"
      using cu wu True z \<open>c' = CoordPostFinal (n - 1)\<close> by auto
    moreover have "final (p_pc s' v)" if "v < n" for v
      using ws [OF that] \<open>c' = CoordPostFinal (n - 1)\<close> by (subst f(1)) auto
    ultimately show ?thesis by (simp add: finished_def MK_def)
  next
    case nf: False
    have alone: False if "v < n" "p_pc s v = CoordFinish" for v
    proof -
      have v: "p_marking s = 1" using ok [OF that(1)] that by simp
      have "card (waiting n s) \<le> n - 1" using waiting_others(1) [OF that(1)] that by simp
      then have z: "p_sema s = 0" "card (waiting n s) = n - 1" using eq v that by linarith+
      have "v \<noteq> w" using nf that by auto
      then have "p_pc s w = WaitSema" using waiting_others(2) [OF that(1) _ z(2) w] that by auto
      then show False using f(3) z by simp
    qed
    have two: "2 \<le> p_marking s" if "p_pc s w = WaitDec"
    proof -
      obtain v where v: "v < n" "p_pc s v \<noteq> WaitSema" "p_pc s v \<noteq> WaitDec" using awake by blast
      have "v \<noteq> w" using v that by auto
      then have c2: "card {v, w} = 2" by simp
      have "waiting n s \<subseteq> {..<n} - {v, w}" using v that by (auto simp: waiting_def)
      then have "card (waiting n s) \<le> card ({..<n} - {v, w})" by (intro card_mono) auto
      also have "\<dots> = n - 2" using v w c2 by (subst card_Diff_subset) auto
      finally have "card (waiting n s) \<le> n - 2" .
      moreover have "2 \<le> n" using v w \<open>v \<noteq> w\<close> by linarith
      ultimately show ?thesis using eq by linarith
    qed
    have pos: "0 < p_marking s'" using f(2) m nf two by (cases "p_pc s w") auto
    have le: "p_marking s' \<le> p_marking s \<or> (\<exists>k. p_pc s w = CoordAdd k)" using f(2) nf by (cases "p_pc s w") auto
    have bnd: "p_marking s' \<le> int n" using f(2) m nf okw by (cases "p_pc s w") auto
    have cnt: "p_marking s' + int (card (waiting n s')) = int n + int (p_sema s') + int (credits n s')"
    proof -
      have c0: "credit c' = (case p_pc s w of CoordAdd k \<Rightarrow> k | _ \<Rightarrow> 0)"
        "c' = WaitSema \<longleftrightarrow> p_pc s w = WaitDec"
        using nx nf okw by (cases "p_pc s w"; auto split: if_splits; cases c'; auto)+
      show ?thesis
        using eq wu cu c0 f(2,3) nf okw by (cases "p_pc s w") auto
    qed
    have coords: "v = w" if "v < n" "coord (p_pc s v)" "coord (p_pc s w)" for v
      using C that w by (auto simp: coord_inv_def)
    have "marking_ok n (p_marking s') (p_pc s' v)" if v: "v < n" for v
    proof (cases "v = w")
      case True
      have "marking_ok n (p_marking s') c'"
        using nx okw f(2) m nf by (cases "p_pc s w"; auto split: if_splits; cases c'; auto)
      then show ?thesis using True by (simp add: c'_def)
    next
      case False
      have "marking_ok n (p_marking s') (p_pc s v)"
      proof (cases "p_marking s' \<le> p_marking s")
        case True
        then show ?thesis using ok [OF v] alone [OF v] by (cases "p_pc s v") auto
      next
        case False
        then have "coord (p_pc s w)" using le by auto
        then have "\<not> coord (p_pc s v)" using coords [OF v] \<open>v \<noteq> w\<close> by blast
        then show ?thesis using ok [OF v] by (cases "p_pc s v") auto
      qed
      then show ?thesis using False by (subst f(1)) simp
    qed
    moreover have "\<exists>v<n. p_pc s' v \<noteq> WaitSema \<and> p_pc s' v \<noteq> WaitDec"
    proof (cases "c' = WaitDec \<or> c' = WaitSema")
      case False
      then show ?thesis using w by (auto simp: c'_def)
    next
      case True
      obtain v where v: "v < n" "p_pc s v \<noteq> WaitSema" "p_pc s v \<noteq> WaitDec" "v \<noteq> w"
      proof -
        consider "p_pc s w = WaitDec" | "p_pc s w = TryCoord" "p_coordinator s \<noteq> None"
          using True nx nf okw by (cases "p_pc s w"; auto split: if_splits; cases c'; auto)
        then show thesis
        proof cases
          case 1
          then show thesis using awake that by blast
        next
          case 2
          then obtain v where v: "p_coordinator s = Some v" "v < n" "coord (p_pc s v)"
            using C by (auto simp: coord_inv_def)
          moreover have "v \<noteq> w" using v 2 by auto
          ultimately show thesis using that [of v] by (cases "p_pc s v") auto
        qed
      qed
      then show ?thesis by (subst (1 2) f(1)) auto
    qed
    ultimately have "running n s'" using pos bnd cnt by (simp add: running_def)
    then show ?thesis ..
  qed
qed


section \<open>The last barrier\<close>

definition not_arrived :: "nat \<Rightarrow> par \<Rightarrow> nat set" where
  "not_arrived n s = {w. w \<le> n \<and> stage (p_pc s w) < 4}"

definition done_inv :: "nat \<Rightarrow> 32 word \<Rightarrow> par \<Rightarrow> bool" where
  "done_inv n d0 s \<longleftrightarrow>
     capacity (p_done_barrier s) = of_nat (n + 1) \<and>
     (\<forall>w\<le>n. \<forall>e. p_pc s w = DoneBarrierWait e \<longrightarrow> e = d0) \<and> 3 \<le> stage (p_pc s n) \<and>
     ((epoch (p_done_barrier s) = d0 \<and> (\<forall>w\<le>n. stage (p_pc s w) \<le> 4) \<and> not_arrived n s \<noteq> {} \<and>
        num_left (p_done_barrier s) = of_nat (card (not_arrived n s))) \<or>
      (epoch (p_done_barrier s) = d0 + 1 \<and> (\<forall>w\<le>n. 4 \<le> stage (p_pc s w)) \<and>
        num_left (p_done_barrier s) = of_nat (n + 1)))"

lemma barrier_arrive:
  assumes "num_left b = of_nat k" "0 < k" "k < 2 ^ 32"
  shows "Ci_Barrier_Arrive b =
    (if k = 1 then (None, b\<lparr>num_left := capacity b, epoch := epoch b + 1\<rparr>)
     else (Some (epoch b), b\<lparr>num_left := of_nat (k - 1)\<rparr>))"
proof -
  have l: "num_left b - 1 = of_nat (k - 1)" using assms(1,2) by (simp add: of_nat_diff)
  have "(of_nat (k - 1) :: 32 word) = 0 \<longleftrightarrow> k - 1 = 0" using assms(3) by (intro of_nat_32_eq_0) simp
  then have "num_left b - 1 = 0 \<longleftrightarrow> k = 1" using l assms(2) by auto
  then show ?thesis by (auto simp: Ci_Barrier_Arrive_def Let_def l)
qed

lemma done_arrive:
  assumes I: "done_inv n d0 s" and n: "n + 1 < 2 ^ 32" and w: "w \<le> n" and c: "p_pc s w = DoneBarrier"
    and a: "Ci_Barrier_Arrive (p_done_barrier s) = (r, b)"
    and pc: "p_pc s' = (p_pc s)(w := (case r of None \<Rightarrow> cx | Some e \<Rightarrow> DoneBarrierWait e))"
    and cx: "stage cx = 5" and b: "p_done_barrier s' = b"
  shows "done_inv n d0 s'"
proof -
  let ?b = "p_done_barrier s" and ?A = "not_arrived n s"
  have fin: "finite ?A" and wA: "w \<in> ?A" using w c by (simp_all add: not_arrived_def)
  have "\<not> (\<forall>w\<le>n. 4 \<le> stage (p_pc s w))" using w c by (auto intro!: exI [of _ w])
  then have early: "epoch ?b = d0" "\<And>v. v \<le> n \<Longrightarrow> stage (p_pc s v) \<le> 4" "num_left ?b = of_nat (card ?A)"
    and cap: "capacity ?b = of_nat (n + 1)" and ws: "\<And>v e. v \<le> n \<Longrightarrow> p_pc s v = DoneBarrierWait e \<Longrightarrow> e = d0"
    and mn: "3 \<le> stage (p_pc s n)"
    using I unfolding done_inv_def by blast+
  have "card ?A \<le> card {..n}" by (intro card_mono) (auto simp: not_arrived_def)
  then have cA: "0 < card ?A" "card ?A < 2 ^ 32" using wA fin n by (auto simp: card_gt_0_iff)
  note ar = barrier_arrive [OF early(3) cA]
  show ?thesis
  proof (cases "card ?A = 1")
    case True
    then have A: "?A = {w}" using wA by (auto simp: card_1_singleton_iff)
    have rb: "r = None" "b = ?b\<lparr>num_left := capacity ?b, epoch := epoch ?b + 1\<rparr>" using a ar True by auto
    have "4 \<le> stage (p_pc s' v)" if "v \<le> n" for v
    proof (cases "v = w")
      case False
      then have "v \<notin> ?A" using A by simp
      then show ?thesis using that False pc by (simp add: not_arrived_def)
    qed (simp add: pc rb cx)
    moreover have "e = d0" if "v \<le> n" "p_pc s' v = DoneBarrierWait e" for v e
      using that ws pc rb cx by (cases "v = w") auto
    moreover have "3 \<le> stage (p_pc s' n)" using mn pc rb cx by simp
    ultimately show ?thesis using early(1) cap by (simp add: done_inv_def b rb)
  next
    case False
    have rb: "r = Some d0" "b = ?b\<lparr>num_left := of_nat (card ?A - 1)\<rparr>" using a ar False early by auto
    have "not_arrived n s' = ?A - {w}" using pc rb by (auto simp: not_arrived_def)
    then have card': "card (not_arrived n s') = card ?A - 1" using wA fin by simp
    have "0 < card (not_arrived n s')" using card' cA False by simp
    then have "not_arrived n s' \<noteq> {}" by auto
    moreover have "stage (p_pc s' v) \<le> 4" if "v \<le> n" for v using early(2) that pc rb by simp
    moreover have "e = d0" if "v \<le> n" "p_pc s' v = DoneBarrierWait e" for v e
      using that ws pc rb by (cases "v = w") auto
    moreover have "3 \<le> stage (p_pc s' n)" using mn pc rb by simp
    ultimately show ?thesis using early(1) cap card' by (simp add: done_inv_def b rb)
  qed
qed

lemma done_keep:
  assumes I: "done_inv n d0 s" and w: "w \<le> n" and pc: "p_pc s' = (p_pc s)(w := c)"
    and b: "p_done_barrier s' = p_done_barrier s" and wt: "\<And>e. c \<noteq> DoneBarrierWait e"
    and st: "stage (p_pc s w) < 4 \<and> stage c < 4 \<and> w \<noteq> n \<or>
      4 \<le> stage (p_pc s w) \<and> 4 \<le> stage c \<and> epoch (p_done_barrier s) \<noteq> d0"
  shows "done_inv n d0 s'"
proof -
  have ws: "e = d0" if "v \<le> n" "p_pc s' v = DoneBarrierWait e" for v e
    using that I wt pc by (cases "v = w") (auto simp: done_inv_def)
  have cap: "capacity (p_done_barrier s) = of_nat (n + 1)" and mn: "3 \<le> stage (p_pc s n)"
    using I by (simp_all add: done_inv_def)
  show ?thesis
  proof (cases "stage (p_pc s w) < 4")
    case True
    then have "not_arrived n s' = not_arrived n s" "stage c < 4" "w \<noteq> n"
      using st pc by (auto simp: not_arrived_def)
    moreover have "\<not> (\<forall>w\<le>n. 4 \<le> stage (p_pc s w))" using w True not_le by blast
    ultimately show ?thesis using I ws cap mn unfolding done_inv_def b by (auto simp: pc)
  next
    case False
    then have "epoch (p_done_barrier s) = d0 + 1" "\<And>v. v \<le> n \<Longrightarrow> 4 \<le> stage (p_pc s v)"
      "num_left (p_done_barrier s) = of_nat (n + 1)" "4 \<le> stage c"
      using I st unfolding done_inv_def by auto
    then show ?thesis using ws cap mn unfolding done_inv_def b by (auto simp: pc)
  qed
qed

lemma done_step:
  assumes I: "done_inv n d0 s" and n: "n + 1 < 2 ^ 32" and w: "w < n"
    and st: "worker_step env slices n start w s = Some s'"
  shows "done_inv n d0 s'"
proof -
  have wn: "w \<le> n" "w \<noteq> n" using w by auto
  consider (arrive) "p_pc s w = DoneBarrier" | (wait) e where "p_pc s w = DoneBarrierWait e"
    | (active) "p_pc s w = ActiveDec" | (early) "stage (p_pc s w) < 3" | (exited) "p_pc s w = Exit"
    by (cases "p_pc s w") auto
  then show ?thesis
  proof cases
    case arrive
    obtain r b where a: "Ci_Barrier_Arrive (p_done_barrier s) = (r, b)" by force
    show ?thesis using st arrive a
      by (intro done_arrive [OF I n wn(1) arrive a, where cx = ActiveDec]) (cases r; auto simp: worker_step_def Let_def)+
  next
    case (wait e)
    then have "e = d0" using I wn by (auto simp: done_inv_def)
    then show ?thesis using st wait
      by (intro done_keep [OF I wn(1), where c = ActiveDec])
        (auto simp: worker_step_def Let_def Ci_Barrier_Passed_def split: if_splits)
  next
    case active
    have "\<not> (\<forall>w\<le>n. stage (p_pc s w) \<le> 4)" using active wn by (auto intro!: exI [of _ w])
    then have "epoch (p_done_barrier s) \<noteq> d0" using I unfolding done_inv_def by auto
    then show ?thesis using st active
      by (intro done_keep [OF I wn(1), where c = Exit]) (auto simp: worker_step_def Let_def)
  next
    case early
    have pc: "p_pc s' = (p_pc s)(w := p_pc s' w)" by (rule step_coordination(1) [OF st])
    have "stage (p_pc s' w) \<le> 3" "p_done_barrier s' = p_done_barrier s"
      using st early
      by (cases "p_pc s w"; auto simp: worker_step_def Let_def resume_def split: list.splits prod.splits option.splits if_splits after.splits)+
    then show ?thesis using early wn by (intro done_keep [OF I wn(1) pc]) auto
  next
    case exited
    then show ?thesis using st by (simp add: worker_step_def Let_def)
  qed
qed


section \<open>Every interleaving\<close>

definition par_inv where
  "par_inv env slices n ys nodes h0 e0 d0 s \<longleftrightarrow>
     base_inv env slices n ys nodes h0 e0 s \<and> mark_inv env n ys nodes s \<and> coord_inv n s \<and>
     (running n s \<or> finished env n ys s) \<and> done_inv n d0 s"

text \<open>The state the workers share, between collections.\<close>

definition par_idle :: "nat \<Rightarrow> par \<Rightarrow> bool" where
  "par_idle n s \<longleftrightarrow> (\<forall>w<n. dq_items (p_deque s w) = []) \<and> p_sema s = 0 \<and> p_coordinator s = None \<and>
     num_left (p_mark_barrier s) = of_nat n \<and> capacity (p_mark_barrier s) = of_nat n \<and>
     num_left (p_done_barrier s) = of_nat (n + 1) \<and> capacity (p_done_barrier s) = of_nat (n + 1)"

lemma par_idle_new: "par_idle n (Ci_ParGCState_New h n)"
  by (simp add: par_idle_def Ci_ParGCState_New_def dq_new_def Ci_Barrier_Init_def Ci_Sema_Init_def)

lemma par_inv_worker:
  assumes S: "par_setup env slices n ys nodes h0" and I: "par_inv env slices n ys nodes h0 e0 d0 s"
    and w: "w < n" and st: "worker_step env slices n start w s = Some s'"
  shows "par_inv env slices n ys nodes h0 e0 d0 s'"
proof -
  have B: "base_inv env slices n ys nodes h0 e0 s" and M: "mark_inv env n ys nodes s" and C: "coord_inv n s"
    and R: "running n s \<or> finished env n ys s" and D: "done_inv n d0 s"
    using I by (simp_all add: par_inv_def)
  have "mark_pend env (p_pc s w) \<subseteq> live_refs env ys" using M w by (auto simp: mark_inv_def PEND_def)
  then have "mark_pend env (p_pc s w) \<subseteq> (\<Union>y\<in>set ys. set (referents env y))" by (auto simp: live_refs_def)
  then have B': "base_inv env slices n ys nodes h0 e0 s'"
    using base_sub_step [OF S B w _ st] base_mark_step [OF S B w _ st] by (cases "stage (p_pc s w) = 0") auto
  have "mark_inv env n ys nodes s'"
  proof -
    consider "stage (p_pc s w) \<le> 1" | "quiet (p_pc s w)" | "stage (p_pc s w) = 2" "\<not> quiet (p_pc s w)"
      by (cases "p_pc s w") auto
    then show ?thesis
      using mark_early_step [OF S B M w _ st B'] mark_quiet_step [OF M w _ st] mark_busy_step [OF S B M w _ _ st]
      by cases auto
  qed
  moreover have "running n s' \<or> finished env n ys s'"
    using R running_step [OF _ C M w st] finished_step [OF _ w st] by blast
  moreover have "done_inv n d0 s'" using S by (intro done_step [OF D _ w st]) (simp add: par_setup_def)
  ultimately show ?thesis using B' coord_step [OF C w st] by (simp add: par_inv_def)
qed

lemma par_inv_cong:
  assumes pc: "\<And>v. v < n \<Longrightarrow> p_pc s' v = p_pc s v" and "p_heap s' = p_heap s" "p_deque s' = p_deque s"
    "p_marking s' = p_marking s" "p_coordinator s' = p_coordinator s" "p_sema s' = p_sema s"
    "p_mark_barrier s' = p_mark_barrier s"
  shows "base_inv env slices n ys nodes h0 e0 s' = base_inv env slices n ys nodes h0 e0 s"
    "mark_inv env n ys nodes s' = mark_inv env n ys nodes s" "coord_inv n s' = coord_inv n s"
    "running n s' = running n s" "finished env n ys s' = finished env n ys s"
proof -
  have subs: "subs env n nodes s' y = subs env n nodes s y" for y using pc by (simp add: subs_def)
  have at: "at_stage n s' k = at_stage n s k" for k using pc by (auto simp: at_stage_def)
  have heap: "heap_inv env n ys nodes h0 s' = heap_inv env n ys nodes h0 s"
    unfolding heap_inv_def assms(2) subs ..
  have pcs: "pcs_inv env slices n ys nodes h0 s' = pcs_inv env slices n ys nodes h0 s"
    using pc by (auto simp: pcs_inv_def)
  have ph: "phase_inv n ys e0 s' = phase_inv n ys e0 s"
    unfolding phase_inv_def assms(2,7) at using pc by auto
  show "base_inv env slices n ys nodes h0 e0 s' = base_inv env slices n ys nodes h0 e0 s"
    unfolding base_inv_def heap pcs ph ..
  have mk: "MK ys s' = MK ys s" by (simp add: MK_def assms)
  have sets: "PEND env n s' = PEND env n s" "GREY n s' = GREY n s" "SLICE n nodes s' = SLICE n nodes s"
    using pc assms(3) by (simp_all add: PEND_def GREY_def SLICE_def QUEUED_def)
  have idle: "(\<forall>v<n. \<not> busy (p_pc s' v) \<longrightarrow> dq_items (p_deque s' v) = []) =
      (\<forall>v<n. \<not> busy (p_pc s v) \<longrightarrow> dq_items (p_deque s v) = [])"
    using pc assms(3) by auto
  show "mark_inv env n ys nodes s' = mark_inv env n ys nodes s"
    unfolding mark_inv_def mk sets idle ..
  show "coord_inv n s' = coord_inv n s" using pc by (auto simp: coord_inv_def assms)
  have wt: "waiting n s' = waiting n s" using pc by (auto simp: waiting_def)
  have cr: "credits n s' = credits n s" using pc by (simp add: credits_def)
  show "running n s' = running n s" unfolding running_def wt cr assms(4,6) using pc by auto
  show "finished env n ys s' = finished env n ys s" unfolding finished_def wt cr mk assms(4,6) using pc by auto
qed

lemma par_inv_main:
  assumes S: "par_setup env slices n ys nodes h0" and I: "par_inv env slices n ys nodes h0 e0 d0 s"
    and st: "main_step n s = Some s'"
  shows "par_inv env slices n ys nodes h0 e0 d0 s'"
proof -
  have D: "done_inv n d0 s" using I by (simp add: par_inv_def)
  have n: "n + 1 < 2 ^ 32" using S by (simp add: par_setup_def)
  have fr: "\<And>v. v < n \<Longrightarrow> p_pc s' v = p_pc s v" "p_heap s' = p_heap s" "p_deque s' = p_deque s"
    "p_marking s' = p_marking s" "p_coordinator s' = p_coordinator s" "p_sema s' = p_sema s"
    "p_mark_barrier s' = p_mark_barrier s"
    using st by (auto simp: main_step_def split: pc.splits prod.splits option.splits if_splits)
  have "done_inv n d0 s'"
  proof (cases "p_pc s n")
    case DoneBarrier
    obtain r b where a: "Ci_Barrier_Arrive (p_done_barrier s) = (r, b)" by force
    show ?thesis using st DoneBarrier a
      by (intro done_arrive [OF D n le_refl DoneBarrier a, where cx = Exit]) (cases r; auto simp: main_step_def)+
  next
    case (DoneBarrierWait e)
    then have "e = d0" using D by (auto simp: done_inv_def)
    then show ?thesis using st DoneBarrierWait
      by (intro done_keep [OF D le_refl, where c = Exit])
        (auto simp: main_step_def Ci_Barrier_Passed_def split: if_splits)
  qed (use st in \<open>auto simp: main_step_def\<close>)
  then show ?thesis using I par_inv_cong [OF fr] by (simp add: par_inv_def)
qed

lemma par_inv_start:
  assumes S: "par_setup env slices n ys nodes h0" and P: "par_idle n s"
  shows "par_inv env slices n ys nodes h0 (epoch (p_mark_barrier s)) (epoch (p_done_barrier s)) (start_workers n h0 s)"
proof -
  let ?s = "start_workers n h0 s"
  have pc: "p_pc ?s v = Start" if "v < n" for v using that by (simp add: start_workers_def)
  have h: "p_heap ?s = h0" "p_marking ?s = int n" "p_deque ?s = p_deque s" "p_sema ?s = 0" "p_coordinator ?s = None"
    "p_mark_barrier ?s = p_mark_barrier s" "p_done_barrier ?s = p_done_barrier s" "p_pc ?s n = DoneBarrier"
    using P by (simp_all add: start_workers_def par_idle_def)
  have n: "0 < n" "n + 1 < 2 ^ 32" and ys: "concat (map nodes [0..<n]) = ys"
    using S by (simp_all add: par_setup_def)
  have "subs env n nodes ?s y = internal_refs env ys y" for y
  proof -
    have "subs env n nodes ?s y = (\<Sum>v<n. count_list (concat (map (referents env) (nodes v))) y)"
      unfolding subs_def using pc by (intro sum.cong) auto
    also have "\<dots> = (\<Sum>v\<leftarrow>[0..<n]. count_list (concat (map (referents env) (nodes v))) y)"
      by (simp add: interv_sum_list_conv_sum_set_nat atLeast0LessThan)
    also have "\<dots> = count_list (concat (map (referents env) (concat (map nodes [0..<n])))) y"
    proof -
      have "(\<Sum>v\<leftarrow>vs. count_list (concat (map (referents env) (nodes v))) y) =
          count_list (concat (map (referents env) (concat (map nodes vs)))) y" for vs
        by (induction vs) simp_all
      then show ?thesis .
    qed
    finally show ?thesis by (simp add: internal_refs_def ys)
  qed
  then have "heap_inv env n ys nodes h0 ?s" using S h by (auto simp: heap_inv_def par_setup_def)
  moreover have "pcs_inv env slices n ys nodes h0 ?s" using pc by (simp add: pcs_inv_def)
  moreover have "phase_inv n ys (epoch (p_mark_barrier s)) ?s"
  proof -
    have "at_stage n ?s 0 = {..<n}" using pc by (auto simp: at_stage_def)
    then show ?thesis using pc h P S n by (auto simp: phase_inv_def par_idle_def par_setup_def)
  qed
  moreover have "mark_inv env n ys nodes ?s"
  proof -
    have "MK ys ?s = {}" using S h by (auto simp: MK_def par_setup_def)
    moreover have "PEND env n ?s = {}" "GREY n ?s = {}"
      using pc h P by (auto simp: PEND_def GREY_def QUEUED_def par_idle_def)
    moreover have "SLICE n nodes ?s = set ys" unfolding SLICE_def ys [symmetric] using pc by (simp add: atLeast0LessThan)
    ultimately show ?thesis using h P by (auto simp: mark_inv_def roots_def par_idle_def)
  qed
  moreover have "coord_inv n ?s" using pc h by (simp add: coord_inv_def)
  moreover have "running n ?s"
  proof -
    have "waiting n ?s = {}" "credits n ?s = 0" using pc by (auto simp: waiting_def credits_def)
    then show ?thesis using pc h n by (auto simp: running_def)
  qed
  moreover have "done_inv n (epoch (p_done_barrier s)) ?s"
  proof -
    have "stage (p_pc ?s v) \<le> 3" "p_pc ?s v \<noteq> DoneBarrierWait e" if "v \<le> n" for v e
      using that pc [of v] h(8) by (cases "v = n"; simp)+
    moreover have "not_arrived n ?s = {..n}" using calculation(1) by (fastforce simp: not_arrived_def)
    ultimately show ?thesis using h P by (fastforce simp: done_inv_def par_idle_def)
  qed
  ultimately show ?thesis by (simp add: par_inv_def base_inv_def)
qed

lemma par_inv_run:
  assumes S: "par_setup env slices n ys nodes h0" and r: "par_run env slices n s s'"
    and I: "par_inv env slices n ys nodes h0 e0 d0 s"
  shows "par_inv env slices n ys nodes h0 e0 d0 s'"
  using r I by induction (auto intro: par_inv_worker [OF S] par_inv_main [OF S])

text \<open>Once the main thread is past the barrier, marking is complete and the shared state is at rest.\<close>

theorem par_run_marks:
  assumes S: "par_setup env slices n ys nodes h0" and P: "par_idle n s"
    and r: "par_run env slices n (start_workers n h0 s) s'" and x: "p_pc s' n = Exit"
  shows "MK ys s' = {y \<in> set ys. alive env ys y}" "heap_inv env n ys nodes h0 s'" "par_idle n s'"
    "\<And>y. y \<in> set ys \<Longrightarrow> gc_get_refs (p_heap s') y \<noteq> 0 \<longleftrightarrow> alive env ys y"
proof -
  let ?e = "epoch (p_mark_barrier s)" and ?d = "epoch (p_done_barrier s)"
  have n: "0 < n" using S by (simp add: par_setup_def)
  have I: "par_inv env slices n ys nodes h0 ?e ?d s'"
    by (rule par_inv_run [OF S r par_inv_start [OF S P]])
  have B: "base_inv env slices n ys nodes h0 ?e s'" and M: "mark_inv env n ys nodes s'" and C: "coord_inv n s'"
    and R: "running n s' \<or> finished env n ys s'" and D: "done_inv n ?d s'"
    using I by (simp_all add: par_inv_def)
  have "\<not> (\<forall>w\<le>n. stage (p_pc s' w) \<le> 4)" using x by (auto intro!: exI [of _ n])
  then have st: "\<And>w. w \<le> n \<Longrightarrow> 4 \<le> stage (p_pc s' w)" and db: "num_left (p_done_barrier s') = of_nat (n + 1)"
    "capacity (p_done_barrier s') = of_nat (n + 1)"
    using D unfolding done_inv_def by blast+
  have "\<not> marking_ok n m c" if "4 \<le> stage c" for m c using that by (cases c) auto
  then have F: "finished env n ys s'" using R n st by (auto simp: running_def)
  then show mk: "MK ys s' = {y \<in> set ys. alive env ys y}" by (simp add: finished_def)
  show H: "heap_inv env n ys nodes h0 s'" using B by (simp add: base_inv_def)
  have q: "\<not> busy c" "credit c = 0" "c \<noteq> WaitSema" "\<not> coord c" if "4 \<le> stage c" for c
    using that by (cases c; simp)+
  have "waiting n s' = {}" "credits n s' = 0" using st q by (auto simp: waiting_def credits_def)
  then have "p_sema s' = 0" using F by (simp add: finished_def)
  moreover have "p_coordinator s' = None"
    using C st q(4) by (cases "p_coordinator s'") (auto simp: coord_inv_def)
  moreover have "dq_items (p_deque s' w) = []" if "w < n" for w
    using M that st [of w] q(1) [of "p_pc s' w"] by (simp add: mark_inv_def)
  moreover have mb: "num_left (p_mark_barrier s') = of_nat n" "capacity (p_mark_barrier s') = of_nat n"
  proof -
    have "\<not> (\<forall>w<n. stage (p_pc s' w) \<le> 1)" using st n by (metis less_imp_le not_le numeral_le_one_iff order_trans semiring_norm(69))
    then show "num_left (p_mark_barrier s') = of_nat n" "capacity (p_mark_barrier s') = of_nat n"
      using B unfolding base_inv_def phase_inv_def by blast+
  qed
  ultimately show "par_idle n s'" using db by (simp add: par_idle_def)
  fix y assume y: "y \<in> set ys"
  show "gc_get_refs (p_heap s') y \<noteq> 0 \<longleftrightarrow> alive env ys y"
  proof (cases "gc_is_collecting (p_heap s') y")
    case True
    then have na: "\<not> alive env ys y" using mk y by (auto simp: MK_def)
    have "1 < stage (p_pc s' 0)" using st [of 0] by simp
    then have "gc_get_refs (p_heap s') y \<noteq> 0 \<longleftrightarrow> y \<in> roots env ys"
      by (rule collecting_refs [OF B n _ y True])
    then show ?thesis using na roots_alive by blast
  next
    case False
    then have "y \<in> MK ys s'" using y by (simp add: MK_def)
    then show ?thesis using H y False mk by (auto simp: heap_inv_def)
  qed
qed

end
