(* ===== verification/GC_Slices.thy ===== *)
theory GC_Slices
  imports GC_Termination
begin

text \<open>
  \<open>Ci_assign_worker_slices\<close> is correct: when there are at least as many objects as workers, the slices it stores
  divide the list of the generation into consecutive parts, none of them empty.
\<close>

section \<open>The slices\<close>

definition slice_bound :: "nat \<Rightarrow> nat \<Rightarrow> nat \<Rightarrow> nat" where
  "slice_bound n m i = (if i < n then i * (m div n) else m)"

definition slice_nodes :: "nat \<Rightarrow> addr list \<Rightarrow> nat \<Rightarrow> addr list" where
  "slice_nodes n ys i =
     take (slice_bound n (length ys) (Suc i) - slice_bound n (length ys) i) (drop (slice_bound n (length ys) i) ys)"

definition slice_list :: "nat \<Rightarrow> addr \<Rightarrow> addr list \<Rightarrow> Ci_GCSlice list" where
  "slice_list n base ys = map (\<lambda>i. \<lparr>slice_start = ys ! slice_bound n (length ys) i,
     slice_end = (ys @ [base]) ! slice_bound n (length ys) (Suc i)\<rparr>) [0..<n]"

lemma slice_bound_mono:
  assumes "i < n" shows "slice_bound n m i \<le> slice_bound n m (Suc i)" "slice_bound n m i \<le> m"
proof -
  have "i * (m div n) \<le> n * (m div n)" using assms by (intro mult_le_mono) auto
  also have "\<dots> \<le> m" by simp
  finally show "slice_bound n m i \<le> slice_bound n m (Suc i)" "slice_bound n m i \<le> m"
    using assms by (simp_all add: slice_bound_def)
qed

lemma concat_chunks:
  assumes "f 0 = 0" "\<And>i. i < j \<Longrightarrow> f i \<le> f (Suc i)"
  shows "concat (map (\<lambda>i. take (f (Suc i) - f i) (drop (f i) ys)) [0..<j]) = take (f j) ys"
  using assms(2)
proof (induction j)
  case (Suc j)
  then have "f j \<le> f (Suc j)" by simp
  then have "take (f (Suc j)) ys = take (f j) ys @ take (f (Suc j) - f j) (drop (f j) ys)"
    using take_add [of "f j" "f (Suc j) - f j" ys] by simp
  then show ?case using Suc by simp
qed (simp add: assms(1))

lemma slice_nodes_concat:
  assumes "0 < n" shows "concat (map (slice_nodes n ys) [0..<n]) = ys"
proof -
  let ?f = "slice_bound n (length ys)"
  have "concat (map (\<lambda>i. take (?f (Suc i) - ?f i) (drop (?f i) ys)) [0..<n]) = take (?f n) ys"
    by (rule concat_chunks) (use assms slice_bound_mono in \<open>auto simp: slice_bound_def\<close>)
  moreover have "?f n = length ys" by (simp add: slice_bound_def)
  ultimately show ?thesis by (simp add: slice_nodes_def [abs_def])
qed

lemma links_drop: "links f xs \<Longrightarrow> links f (drop i xs)"
  by (induction f xs arbitrary: i rule: links.induct) (auto simp: drop_Cons split: nat.splits)

lemma links_take: "links f xs \<Longrightarrow> links f (take i xs)"
proof (induction f xs arbitrary: i rule: links.induct)
  case (1 f a b xs)
  show ?case
  proof (cases i)
    case (Suc j)
    then show ?thesis using 1 "1.IH" [of j] by (cases j) auto
  qed simp
qed (auto simp: take_Cons split: nat.splits)

lemma slice_bound_lt:
  assumes "0 < n" "n \<le> m" "i < n" shows "slice_bound n m i < m"
proof -
  have k: "0 < m div n" using assms by (simp add: div_greater_zero_iff)
  have "i * (m div n) < n * (m div n)" using assms k by simp
  also have "\<dots> \<le> m" by simp
  finally show ?thesis using assms by (simp add: slice_bound_def)
qed

lemma slice_nodes_nonempty:
  assumes "0 < n" "n \<le> length ys" "w < n"
  shows "slice_nodes n ys w \<noteq> []"
proof -
  have "slice_bound n (length ys) w < length ys" by (rule slice_bound_lt [OF assms])
  moreover have "slice_bound n (length ys) w < slice_bound n (length ys) (Suc w)"
    using calculation assms by (auto simp: slice_bound_def div_greater_zero_iff)
  ultimately show ?thesis by (simp add: slice_nodes_def)
qed

lemma slice_list_ok:
  assumes n: "0 < n" "n \<le> length ys" and i: "i < n"
    and d: "distinct (base # ys)" and l: "links (gc_next h) (ys @ [base])"
  shows "slice_ok h (slice_list n base ys ! i) (slice_nodes n ys i)"
proof -
  let ?a = "slice_bound n (length ys) i" and ?b = "slice_bound n (length ys) (Suc i)" and ?z = "ys @ [base]"
  have ab: "?a \<le> ?b" "?a < length ys" using slice_bound_mono [OF i] slice_bound_lt [OF n i] by auto
  have b: "?b \<le> length ys" using slice_bound_mono(2) [of "Suc i" n "length ys"] by (auto simp: slice_bound_def)
  have "?b \<noteq> ?a"
    using ab n i by (auto simp: slice_bound_def div_greater_zero_iff split: if_splits)
  then have lt: "?a < ?b" using ab by simp
  have nodes: "slice_nodes n ys i = take (?b - ?a) (drop ?a ?z)"
    using ab b by (simp add: slice_nodes_def)
  have snoc: "slice_nodes n ys i @ [?z ! ?b] = take (Suc (?b - ?a)) (drop ?a ?z)"
    unfolding nodes using ab b by (subst take_Suc_conv_app_nth) (auto simp: nth_append)
  have "distinct (slice_nodes n ys i @ [?z ! ?b])" unfolding snoc using d by (intro distinct_take distinct_drop) auto
  moreover have "links (gc_next h) (slice_nodes n ys i @ [?z ! ?b])"
    unfolding snoc by (intro links_take links_drop l)
  moreover have "hd (slice_nodes n ys i @ [?z ! ?b]) = ys ! ?a"
    unfolding snoc using ab lt b by (simp add: hd_drop_conv_nth nth_append)
  ultimately show ?thesis using i by (simp add: slice_ok_def slice_list_def)
qed

text \<open>What the loop of \<open>Ci_assign_worker_slices\<close> has stored when it has seen \<open>j\<close> objects.\<close>

definition slices_seen :: "nat \<Rightarrow> addr list \<Rightarrow> nat \<Rightarrow> Ci_GCSlice list" where
  "slices_seen n ys j =
    (let k = length ys div n in
     map (\<lambda>i. \<lparr>slice_start = (if i * k < j then ys ! (i * k) else 0),
               slice_end = (if Suc i < n \<and> Suc i * k < j then ys ! (Suc i * k) else 0)\<rparr>) [0..<n])"

definition slice_index :: "nat \<Rightarrow> addr list \<Rightarrow> nat \<Rightarrow> nat" where
  "slice_index n ys j = min (j div (length ys div n)) (n - 1)"

lemma slices_seen_nth:
  "i < n \<Longrightarrow> slices_seen n ys j ! i =
     \<lparr>slice_start = (if i * (length ys div n) < j then ys ! (i * (length ys div n)) else 0),
      slice_end = (if Suc i < n \<and> Suc i * (length ys div n) < j then ys ! (Suc i * (length ys div n)) else 0)\<rparr>"
  by (simp add: slices_seen_def Let_def)

lemma slices_seen_length [simp]: "length (slices_seen n ys j) = n"
  by (simp add: slices_seen_def Let_def)

lemma slices_seen_step:
  assumes n: "0 < n" "n \<le> length ys" and j: "j < length ys" and nz: "0 \<notin> set ys"
    and i: "i = slice_index n ys j" and gc: "gc = ys ! j"
  shows "slices_seen n ys (Suc j) =
    (let W = slices_seen n ys j in
     if slice_start (W ! i) = 0
     then let W = W[i := (W ! i)\<lparr>slice_start := gc\<rparr>]
          in if i > 0 then W[i - 1 := (W ! (i - 1))\<lparr>slice_end := gc\<rparr>] else W
     else W)"
proof -
  let ?k = "length ys div n" and ?W = "slices_seen n ys"
  have k: "0 < ?k" using n by (simp add: div_greater_zero_iff)
  have i_n: "i < n" using n unfolding i slice_index_def by auto
  have ik: "i * ?k \<le> j"
  proof -
    have "i * ?k \<le> (j div ?k) * ?k" unfolding i slice_index_def by (intro mult_le_mono) auto
    then show ?thesis by (rule order_trans) simp
  qed
  have eq: "x * ?k = j \<longleftrightarrow> x = i \<and> i * ?k = j" if "x < n" for x
    using that k unfolding i slice_index_def by auto
  have lt: "x * ?k < Suc j \<longleftrightarrow> x * ?k < j \<or> x = i \<and> i * ?k = j" if "x < n" for x
    using eq [OF that] by (auto simp: less_Suc_eq)
  have st: "slice_start (?W j ! i) = 0 \<longleftrightarrow> i * ?k = j"
  proof -
    have "ys ! (i * ?k) \<noteq> 0" if "i * ?k < j" using nz j that by (metis less_trans nth_mem)
    then show ?thesis using ik i_n by (auto simp: slices_seen_nth)
  qed
  show ?thesis
  proof (cases "i * ?k = j")
    case False
    then have "?W (Suc j) = ?W j"
      by (intro nth_equalityI) (auto simp: slices_seen_nth lt simp del: mult_Suc)
    then show ?thesis using False st by simp
  next
    case True
    then have lt': "x * ?k < Suc j \<longleftrightarrow> x * ?k < j \<or> x = i" if "x < n" for x using lt [OF that] by simp
    have gk: "ys ! (i * ?k) = gc" "\<not> i * ?k < j" using True gc by auto
    show ?thesis
    proof (cases i)
      case 0
      have "?W (Suc j) = (?W j)[i := (?W j ! i)\<lparr>slice_start := gc\<rparr>]"
        using i_n gk 0 k by (intro nth_equalityI) (auto simp: slices_seen_nth lt' nth_list_update simp del: mult_Suc)
      then show ?thesis using True st 0 by (simp add: Let_def)
    next
      case (Suc p)
      have "?W (Suc j) = ((?W j)[i := (?W j ! i)\<lparr>slice_start := gc\<rparr>])[p := (?W j ! p)\<lparr>slice_end := gc\<rparr>]"
        using i_n gk unfolding Suc
        by (intro nth_equalityI) (auto simp: slices_seen_nth lt' Suc nth_list_update simp del: mult_Suc)
      then show ?thesis using True st Suc by (simp add: nth_list_update Let_def)
    qed
  qed
qed

lemma slices_seen_all:
  assumes n: "0 < n" "n \<le> length ys"
  shows "(slices_seen n ys (length ys))[n - 1 := (slices_seen n ys (length ys) ! (n - 1))\<lparr>slice_end := base\<rparr>] = slice_list n base ys"
proof (rule nth_equalityI)
  fix i assume "i < length ((slices_seen n ys (length ys))[n - 1 := (slices_seen n ys (length ys) ! (n - 1))\<lparr>slice_end := base\<rparr>])"
  then have i: "i < n" by simp
  have b: "slice_bound n (length ys) i < length ys" by (rule slice_bound_lt [OF n i])
  have b': "slice_bound n (length ys) (Suc i) < length ys" if "Suc i < n" by (rule slice_bound_lt [OF n that])
  have "\<not> Suc i < n \<longleftrightarrow> i = n - 1" using i by auto
  then show "(slices_seen n ys (length ys))[n - 1 := (slices_seen n ys (length ys) ! (n - 1))\<lparr>slice_end := base\<rparr>] ! i =
      slice_list n base ys ! i"
    using i b b' by (cases "Suc i < n") (simp_all add: slices_seen_nth slice_list_def nth_list_update slice_bound_def nth_append del: mult_Suc)
qed (simp add: slice_list_def)

lemma sdiv_int: "int a sdiv int b = int (a div b)"
  by (cases "a = 0"; cases "b = 0") (simp_all add: signed_divide_int_def zdiv_int)

theorem assign_slices:
  assumes n: "0 < n" "n \<le> length ys" and nz: "0 \<notin> set ys"
    and d: "distinct (base # ys)" and l: "links (gc_next h) (base # ys @ [base])"
  shows "Ci_assign_worker_slices h n base (int (length ys)) = Some (slice_list n base ys)"
proof -
  let ?m = "length ys" and ?k = "length ys div n"
  let ?body = "\<lambda>gc (workers, idx, seen :: int).
             let idx = seen sdiv (int ?m sdiv int n);
                 idx = (if idx < int n then idx else int n - 1);
                 workers =
                   (if slice_start (workers ! nat idx) = 0
                    then let workers = workers[nat idx := (workers ! nat idx)\<lparr>slice_start := gc\<rparr>]
                         in if idx > 0
                            then workers[nat (idx - 1) := (workers ! nat (idx - 1))\<lparr>slice_end := gc\<rparr>]
                            else workers
                    else workers)
             in (GC_NEXT h gc, workers, idx, seen + 1)"
  let ?Q = "\<lambda>as bs (W, idx, seen). ys = as @ bs \<and> W = slices_seen n ys (length as) \<and>
    idx = int (if as = [] then 0 else slice_index n ys (length as - 1)) \<and> seen = int (length as)"
  have step: "\<exists>st'. ?body b st = (hd (bs @ [base]), st') \<and> ?Q (as @ [b]) bs st'" if Q: "?Q as (b # bs) st" for as b bs st
  proof -
    obtain W idx seen where st: "st = (W, idx, seen)" by (cases st) auto
    have ys: "ys = as @ b # bs" and W: "W = slices_seen n ys (length as)" and seen: "seen = int (length as)"
      using Q st by auto
    let ?j = "length as"
    have j: "?j < ?m" "ys ! ?j = b" using ys by auto
    have idx: "(if seen sdiv (int ?m sdiv int n) < int n then seen sdiv (int ?m sdiv int n) else int n - 1) = int (slice_index n ys ?j)"
      using n by (auto simp: seen slice_index_def sdiv_int min_def of_nat_diff)
    have nx: "GC_NEXT h b = hd (bs @ [base])"
      using links_at [of "gc_next h" "base # as" b "bs @ [base]"] l ys by (simp add: GC_NEXT_def)
    have pos: "int i > 0 \<longleftrightarrow> i > 0" "nat (int i - 1) = i - 1" for i :: nat by auto
    have "?body b st = (hd (bs @ [base]), slices_seen n ys (Suc ?j), int (slice_index n ys ?j), int (Suc ?j))"
      unfolding st case_prod_conv Let_def idx nat_int pos nx W
      using slices_seen_step [OF n j(1) nz refl refl] by (simp add: Let_def j(2) seen)
    then show ?thesis using ys by auto
  qed
  have "\<exists>st'. gc_while base ?body (hd (ys @ [base])) (replicate n \<lparr>slice_start = 0, slice_end = 0\<rparr>, 0, 0) = Some st' \<and>
      ?Q ([] @ ys) [] st'"
  proof (rule gc_while_walk [where Q = ?Q])
    show "base \<notin> set ys" using d by simp
    show "?Q [] ys (replicate n \<lparr>slice_start = 0, slice_end = 0\<rparr>, 0, 0)"
      by (auto simp: slices_seen_nth intro!: nth_equalityI)
  qed (rule step)
  then obtain W idx seen where w: "gc_while base ?body (hd (ys @ [base])) (replicate n \<lparr>slice_start = 0, slice_end = 0\<rparr>, 0, 0)
      = Some (W, idx, seen)" and Q: "?Q ys [] (W, idx, seen)" by auto
  have last: "slice_index n ys (?m - 1) = n - 1"
  proof -
    have k: "0 < ?k" using n by (simp add: div_greater_zero_iff)
    have "(n - 1) * ?k < n * ?k" using n k by simp
    also have "\<dots> \<le> ?m" by simp
    finally have "(n - 1) * ?k \<le> ?m - 1" by simp
    then have "n - 1 \<le> (?m - 1) div ?k" using k by (simp add: less_eq_div_iff_mult_less_eq)
    then show ?thesis by (simp add: slice_index_def)
  qed
  have "ys \<noteq> []" using n by auto
  then have idx: "nat idx = n - 1" and W: "W = slices_seen n ys ?m" using Q last by auto
  have s: "GC_NEXT h base = hd (ys @ [base])"
    using links_at [of "gc_next h" "[]" base "ys @ [base]"] l by (simp add: GC_NEXT_def)
  show ?thesis
    unfolding Ci_assign_worker_slices_def Let_def [of "replicate n _"] Let_def [of "int ?m sdiv int n"] s w
    using slices_seen_all [OF n] by (simp add: idx W)
qed

end
