(* ===== verification/GC_Parallel_Correct.thy ===== *)
theory GC_Parallel_Correct
  imports GC_Slices
begin

text \<open>
  The parallel collector computes what the serial one does: \<open>Ci_move_unreachable_parallel\<close> splits the marked
  list, \<open>Ci_restore_prev_ptrs\<close> repairs the list when there are too few objects for the workers, and
  every result of \<open>Ci_deduce_unreachable_parallel\<close> satisfies the specification of \<open>deduce_unreachable\<close>.
\<close>

section \<open>Collecting bits\<close>

text \<open>
  The workers have cleared the collecting bit of the objects they marked; the representation of the two lists asks
  for it on everything not yet processed. \<open>regather\<close> sets it again.
\<close>

definition regather :: "addr list \<Rightarrow> gcheap \<Rightarrow> gcheap" where
  "regather T h = h\<lparr>gc_prev := (\<lambda>a. if a \<in> set T then gc_prev h a OR PREV_MASK_COLLECTING else gc_prev h a)\<rparr>"

lemma or_collecting_word:
  "bit (w OR PREV_MASK_COLLECTING) 0 = bit w 0" "bit (w OR PREV_MASK_COLLECTING) (Suc 0)"
  "drop_bit 2 (w OR PREV_MASK_COLLECTING) = drop_bit 2 w"
  "(w OR PREV_MASK_COLLECTING) AND PREV_MASK = w AND PREV_MASK"
  "bit w (Suc 0) \<Longrightarrow> w OR PREV_MASK_COLLECTING = w"
  by (auto simp: word64_eq_iff gc_bits)

lemma drop_collecting [simp]: "drop_bit 2 PREV_MASK_COLLECTING = 0"
  by (auto simp: word64_eq_iff gc_bits)

lemma regather_obs [simp]:
  "gc_next (regather T h) = gc_next h"
  "gc_finalized (regather T h) a = gc_finalized h a"
  "gc_get_refs (regather T h) a = gc_get_refs h a"
  "GC_PREV (regather T h) = GC_PREV h"
  "gc_is_collecting (regather T h) a \<longleftrightarrow> a \<in> set T \<or> gc_is_collecting h a"
  "a \<notin> set T \<Longrightarrow> gc_prev (regather T h) a = gc_prev h a"
  "a \<in> set T \<Longrightarrow> gc_is_collecting h a \<Longrightarrow> gc_prev (regather T h) a = gc_prev h a"
  "regather [] h = h"
  by (auto simp: regather_def gc_observers or_collecting_word fun_eq_iff)

lemma gcheap_eqI: "gc_prev h = gc_prev h' \<Longrightarrow> gc_next h = gc_next h' \<Longrightarrow> h = (h' :: gcheap)"
  by simp

lemma regather_cong:
  assumes "gc_next h' = gc_next h" "\<And>a. gc_prev h' a = (if a \<in> set T then gc_prev h a OR PREV_MASK_COLLECTING else gc_prev h a)"
  shows "h' = regather T h"
  using assms by (intro gcheap_eqI) (auto simp: regather_def fun_eq_iff)

lemma regather_done:
  assumes "g \<notin> set T" "aligned p"
  shows "gc_clear_collecting (SET_PREV (regather (g # T) h) g p) g = regather T (gc_clear_collecting (SET_PREV h g p) g)"
proof (rule regather_cong)
  fix a
  have "((w OR PREV_MASK_COLLECTING) AND NOT PREV_MASK OR p) AND NOT PREV_MASK_COLLECTING =
      (w AND NOT PREV_MASK OR p) AND NOT PREV_MASK_COLLECTING" for w :: "64 word"
    by (auto simp: word64_eq_iff gc_bits)
  then show "gc_prev (gc_clear_collecting (SET_PREV (regather (g # T) h) g p) g) a =
    (if a \<in> set T then gc_prev (gc_clear_collecting (SET_PREV h g p) g) a OR PREV_MASK_COLLECTING
     else gc_prev (gc_clear_collecting (SET_PREV h g p) g) a)"
    using assms(1) by (cases "a = g") (auto simp: gc_clear_collecting_def SET_PREV_def regather_def)
qed simp

lemma mu_inv_keep:
  assumes I: "mu_inv env h0 young unr Y R D (g # T) U h" and g: "gc_get_refs h g \<noteq> 0"
    and e: "referents env g = []"
    and h': "h' = gc_clear_collecting (SET_PREV h g (last (young # D))) g"
  shows "mu_inv env h0 young unr Y R (D @ [g]) T U h'"
proof -
  have rep: "mu_rep h young unr D (g # T) U" and Y: "set (D @ (g # T) @ U) = Y"
    using I by (simp_all add: mu_inv_def)
  have d: "distinct (young # unr # D @ (g # T) @ U)" using rep by (simp add: mu_rep_def)
  have al: "aligned (last (young # D))"
    using rep last_in_set [of "young # D"] by (auto simp: mu_rep_def)
  have pv: "gc_prev h' a = gc_prev h a" if "a \<noteq> g" for a unfolding h' using that by simp
  have "gc_prev h' t = gc_prev h t" if "t \<in> set T" for t using that d by (intro pv) auto
  from marked_cong [OF this] have "marked h' T = marked h T" .
  then have m: "set (D @ [g]) \<union> marked h' T = set D \<union> marked h (g # T)" using g by (auto simp: marked_def)
  have "same_at h0 h' a" if "a \<notin> Y" "a \<noteq> young" "a \<noteq> unr" for a
  proof -
    have "same_at h h' a" using that Y pv [of a] by (auto simp: same_at_def h')
    moreover have "same_at h0 h a" using I that by (simp add: mu_inv_def)
    ultimately show ?thesis by (rule same_at_trans [rotated])
  qed
  moreover have "gc_finalized h' a = gc_finalized h0 a" if "a \<in> Y" for a using I that al by (simp add: h' mu_inv_def)
  ultimately show ?thesis
    using I Y mu_rep_done [OF rep h'] e unfolding mu_inv_def m by auto
qed

lemma regather_unlink:
  assumes "g \<notin> set T" "unr \<notin> set (g # T)" "gc_is_collecting h g" "aligned (GC_PREV h unr)"
  shows "(let h = put_next (regather (g # T) h) prev (gc_next (regather (g # T) h) g);
              last = GC_PREV h unr;
              h = put_next h last (NEXT_MASK_UNREACHABLE OR g);
              h = SET_PREV h g last;
              h = put_next h g (NEXT_MASK_UNREACHABLE OR unr)
          in put_prev h unr g) =
    regather T (let h = put_next h prev (gc_next h g);
              last = GC_PREV h unr;
              h = put_next h last (NEXT_MASK_UNREACHABLE OR g);
              h = SET_PREV h g last;
              h = put_next h g (NEXT_MASK_UNREACHABLE OR unr)
          in put_prev h unr g)"
proof (rule regather_cong, goal_cases)
  case (2 a)
  have "gc_prev h g OR PREV_MASK_COLLECTING = gc_prev h g"
    using assms(3) or_collecting_word(5) by (simp add: gc_is_collecting_bit)
  then show ?case using assms by (auto simp: Let_def SET_PREV_def regather_def GC_PREV_def)
qed (simp add: Let_def)

section \<open>\<open>Ci_move_unreachable_parallel\<close>\<close>

definition no_refs :: "gcenv \<Rightarrow> gcenv" where
  "no_refs env = env\<lparr>tp_traverse := (\<lambda>_. [])\<rparr>"

lemma referents_no_refs [simp]: "referents (no_refs env) g = []"
  by (simp add: referents_def no_refs_def)

lemma reaches_no_refs [simp]: "reaches (no_refs env) Y R y \<longleftrightarrow> y \<in> R \<and> y \<in> Y"
  by (auto elim: reaches.cases intro: reaches.root)

lemma mu_inv_next:
  assumes "mu_inv env h0 young unr Y R D T U h1"
  shows "GC_NEXT h1 (last (young # D)) = hd (T @ [young])"
proof -
  have "links (gc_next h1) (butlast (young # D) @ last (young # D) # (T @ [young]))"
    using assms by (cases D rule: rev_cases) (auto simp: mu_inv_def mu_rep_def mu_young_def)
  from links_at [OF this] show ?thesis by (simp add: GC_NEXT_def)
qed

definition moved_inv ::
  "gcenv \<Rightarrow> gcheap \<Rightarrow> addr \<Rightarrow> addr \<Rightarrow> addr set \<Rightarrow> addr set \<Rightarrow> addr list \<Rightarrow> gcheap \<Rightarrow> addr \<Rightarrow> bool" where
  "moved_inv env h0 base unr Y R T h prev \<longleftrightarrow>
     (\<exists>D U. mu_inv (no_refs env) h0 base unr Y R D T U (regather T h) \<and> prev = last (base # D)) \<and>
     gc_prev h base = gc_prev h0 base \<and> (\<forall>t\<in>set T. gc_is_collecting h t \<longleftrightarrow> gc_get_refs h t = 0)"

definition move_unreachable_body :: "addr \<Rightarrow> addr \<Rightarrow> gcheap \<times> addr \<Rightarrow> addr \<times> gcheap \<times> addr" where
  "move_unreachable_body unreachable = (\<lambda>gc (h, prev).
             if gc_get_refs h gc = 0
             then let h = SET_NEXT h prev (GC_NEXT h gc);
                      last = GC_PREV h unreachable;
                      h = put_next h last (NEXT_MASK_UNREACHABLE OR gc);
                      h = SET_PREV h gc last;
                      h = put_next h gc (NEXT_MASK_UNREACHABLE OR unreachable);
                      h = put_prev h unreachable gc
                  in (GC_NEXT h prev, h, prev)
             else let h = SET_PREV h gc prev;
                      h = gc_clear_collecting h gc
                  in (GC_NEXT h gc, h, gc))"

lemma moved_step:
  assumes I: "moved_inv env h0 base unr Y R (g # T) h prev"
  shows "\<exists>h' prev'. move_unreachable_body unr g (h, prev) = (hd (T @ [base]), h', prev') \<and>
    moved_inv env h0 base unr Y R T h' prev'"
proof -
  obtain D U where J: "mu_inv (no_refs env) h0 base unr Y R D (g # T) U (regather (g # T) h)"
    and prev: "prev = last (base # D)" using I by (auto simp: moved_inv_def)
  have col: "\<And>t. t \<in> set (g # T) \<Longrightarrow> gc_is_collecting h t \<longleftrightarrow> gc_get_refs h t = 0"
    and pb: "gc_prev h base = gc_prev h0 base" using I by (auto simp: moved_inv_def)
  have rep: "mu_rep (regather (g # T) h) base unr D (g # T) U" using J by (simp add: mu_inv_def)
  have d: "distinct (base # unr # D @ (g # T) @ U)" and al: "\<And>a. a \<in> set (base # unr # D @ (g # T) @ U) \<Longrightarrow> aligned a"
    using rep by (auto simp: mu_rep_def)
  have "GC_PREV h unr = hd (rev U @ [unr])"
    using links_at [of "GC_PREV h" "[]" unr "rev U @ [unr]"] rep by (simp add: mu_rep_def mu_unr_def)
  also have "\<dots> = last (unr # U)" by (cases U rule: rev_cases) auto
  finally have lu: "aligned (GC_PREV h unr)" using al last_in_set [of "unr # U"] by auto
  have ap: "aligned prev" using al last_in_set [of "base # D"] by (auto simp: prev)
  show ?thesis
  proof (cases "gc_get_refs h g = 0")
    case True
    define h' where "h' = (let h = put_next h prev (gc_next h g);
              last = GC_PREV h unr;
              h = put_next h last (NEXT_MASK_UNREACHABLE OR g);
              h = SET_PREV h g last;
              h = put_next h g (NEXT_MASK_UNREACHABLE OR unr)
          in put_prev h unr g)"
    have J': "mu_inv (no_refs env) h0 base unr Y R D T (U @ [g]) (regather T h')"
    proof (rule mu_inv_unlink(1) [OF J])
      show "gc_get_refs (regather (g # T) h) g = 0" using True by simp
    qed (use True col [of g] d lu in \<open>simp only: h'_def prev, subst regather_unlink; simp\<close>)
    have pv: "gc_prev h' a = gc_prev h a" if "a \<noteq> g" "a \<noteq> unr" for a
      using that by (simp add: h'_def Let_def)
    have "gc_is_collecting h' t \<longleftrightarrow> gc_get_refs h' t = 0" if "t \<in> set T" for t
    proof -
      have "gc_prev h' t = gc_prev h t" using that d by (intro pv) auto
      then show ?thesis using gc_obs_cong(1,3) [of h' t h] col [of t] that by simp
    qed
    moreover have "gc_prev h' base = gc_prev h base" using d by (intro pv) auto
    ultimately have "moved_inv env h0 base unr Y R T h' prev"
      using J' pb unfolding moved_inv_def prev by auto
    moreover have "move_unreachable_body unr g (h, prev) = (GC_NEXT h' prev, h', prev)"
      using True by (simp add: move_unreachable_body_def h'_def Let_def SET_NEXT_def GC_NEXT_def)
    moreover have "GC_NEXT h' prev = hd (T @ [base])"
      using mu_inv_next [OF J'] by (simp add: prev GC_NEXT_def)
    ultimately show ?thesis by auto
  next
    case False
    define h' where "h' = gc_clear_collecting (SET_PREV h g prev) g"
    have J': "mu_inv (no_refs env) h0 base unr Y R (D @ [g]) T U (regather T h')"
      using False d ap unfolding h'_def prev
      by (intro mu_inv_keep [OF J]) (simp_all add: regather_done)
    have pv: "gc_prev h' a = gc_prev h a" if "a \<noteq> g" for a
      using that by (simp add: h'_def)
    have "gc_is_collecting h' t \<longleftrightarrow> gc_get_refs h' t = 0" if "t \<in> set T" for t
    proof -
      have "gc_prev h' t = gc_prev h t" using that d by (intro pv) auto
      then show ?thesis using gc_obs_cong(1,3) [of h' t h] col [of t] that by simp
    qed
    moreover have "gc_prev h' base = gc_prev h base" using d by (intro pv) auto
    moreover have "last (base # D @ [g]) = g" by simp
    ultimately have "moved_inv env h0 base unr Y R T h' g"
      using J' pb unfolding moved_inv_def by metis
    moreover have "move_unreachable_body unr g (h, prev) = (GC_NEXT h' g, h', g)"
      using False by (simp add: move_unreachable_body_def h'_def Let_def)
    moreover have "GC_NEXT h' g = hd (T @ [base])"
      using mu_inv_next [OF J'] by (simp add: GC_NEXT_def)
    ultimately show ?thesis by auto
  qed
qed

lemma mu_final_heap:
  assumes I: "mu_inv env h0 base unr Y R D [] U h" and a: "aligned (gc_prev h base)"
  shows "(let h = SET_PREV h base (last (base # D))
      in put_next h unr (gc_next h unr AND NOT NEXT_MASK_UNREACHABLE)) =
    (let h = put_prev h base (last (base # D));
         h = put_next h base (gc_next h base AND PREV_MASK)
     in put_next h unr (gc_next h unr AND PREV_MASK))"
proof -
  have rep: "mu_rep h base unr D [] U" using I by (simp add: mu_inv_def)
  have d: "distinct (base # unr # D @ U)" and al: "\<And>a. a \<in> set (base # unr # D @ U) \<Longrightarrow> aligned a"
    using rep by (auto simp: mu_rep_def)
  have ap: "aligned (last (base # D))" using al last_in_set [of "base # D"] by auto
  have "gc_next h base = hd (D @ [base])"
    using links_at [of "gc_next h" "[]" base "D @ [base]"] rep by (simp add: mu_rep_def mu_young_def)
  moreover have "aligned (hd (D @ [base]))" using al by (cases D) auto
  ultimately have ny: "gc_next h base AND PREV_MASK = gc_next h base" by (simp add: aligned_mask)
  have "uview h unr = hd (U @ [unr])"
    using links_at [of "uview h" "[]" unr "U @ [unr]"] rep by (simp add: mu_rep_def mu_unr_def)
  moreover have "aligned (hd (U @ [unr]))" using al by (cases U) auto
  ultimately have nu: "gc_next h unr AND PREV_MASK = gc_next h unr AND NOT NEXT_MASK_UNREACHABLE"
    using aligned_next_mask(5) by (simp add: uview_def)
  have "SET_PREV h base (last (base # D)) = put_prev h base (last (base # D))"
    using SET_PREV_aligned [OF ap a] by (intro gcheap_eqI) (auto simp: fun_eq_iff SET_PREV_def)
  then show ?thesis unfolding Let_def using ny nu d by (intro gcheap_eqI) auto
qed

theorem move_unreachable_parallel_splits:
  assumes I: "moved_inv env h base unr Y R ys h base" and RY: "R \<subseteq> Y" and a: "aligned (gc_prev h base)"
    and b: "base \<notin> set ys" and l: "GC_NEXT h base = hd (ys @ [base])"
  shows "\<exists>h' D U. Ci_move_unreachable_parallel h base unr = Some h' \<and>
    split_lists h h' base unr Y (\<lambda>y. y \<in> R) D U"
proof -
  let ?Q = "\<lambda>as T (h1, prev). moved_inv env h base unr Y R T h1 prev"
  have "\<exists>st'. gc_while base (move_unreachable_body unr) (hd (ys @ [base])) (h, base) = Some st' \<and> ?Q ([] @ ys) [] st'"
  proof (rule gc_while_walk [where Q = ?Q, OF b])
    show "?Q [] ys (h, base)" using I by simp
    fix as g T st assume "?Q as (g # T) st"
    then show "\<exists>st'. move_unreachable_body unr g st = (hd (T @ [base]), st') \<and> ?Q (as @ [g]) T st'"
      using moved_step by (cases st) fastforce
  qed
  then obtain h1 prev where w: "gc_while base (move_unreachable_body unr) (hd (ys @ [base])) (h, base) = Some (h1, prev)"
    and M: "moved_inv env h base unr Y R [] h1 prev" by auto
  obtain D U where J: "mu_inv (no_refs env) h base unr Y R D [] U h1" and prev: "prev = last (base # D)"
    and a1: "aligned (gc_prev h1 base)" using M a by (auto simp: moved_inv_def)
  let ?h = "let h = put_prev h1 base (last (base # D));
         h = put_next h base (gc_next h base AND PREV_MASK)
     in put_next h unr (gc_next h unr AND PREV_MASK)"
  have "split_lists h ?h base unr Y (reaches (no_refs env) Y R) D U"
    by (rule mu_inv_final [OF J RY]) simp
  moreover have "reaches (no_refs env) Y R = (\<lambda>y. y \<in> R)" using RY by (auto simp: fun_eq_iff)
  moreover have "Ci_move_unreachable_parallel h base unr = Some ?h"
    unfolding Ci_move_unreachable_parallel_def l move_unreachable_body_def [symmetric] w
    using mu_final_heap [OF J a1] by (simp add: prev)
  ultimately show ?thesis by metis
qed

section \<open>\<open>Ci_restore_prev_ptrs\<close>\<close>

theorem restore_prev_ptrs_list:
  assumes s: "gc_seg h base ys []"
  shows "\<exists>h'. Ci_restore_prev_ptrs h base = Some h' \<and> gc_list h' base ys \<and>
    gc_next h' = gc_next h \<and> (\<forall>a. a \<notin> set ys \<longrightarrow> gc_prev h' a = gc_prev h a) \<and>
    (\<forall>y\<in>set ys. \<not> gc_is_collecting h' y) \<and> gc_finalized h' = gc_finalized h"
proof -
  let ?body = "\<lambda>gc (h, prev). let h = SET_PREV h gc prev; h = gc_clear_collecting h gc in (GC_NEXT h gc, h, gc)"
  let ?Q = "\<lambda>as bs (h1, prev). ys = as @ bs \<and> prev = last (base # as) \<and> gc_next h1 = gc_next h \<and>
     (\<forall>a. a \<notin> set as \<longrightarrow> gc_prev h1 a = gc_prev h a) \<and> links (GC_PREV h1) (rev as @ [base]) \<and>
     (\<forall>y\<in>set as. \<not> gc_is_collecting h1 y) \<and> gc_finalized h1 = gc_finalized h"
  have d: "distinct (base # ys)" and al: "\<And>a. a \<in> set (base # ys) \<Longrightarrow> aligned a"
    and ln: "links (gc_next h) (base # ys @ [base])"
    and pb: "GC_PREV h base = last (base # ys)" "aligned (gc_prev h base)" using s by (auto simp: gc_seg_def)
  have "\<exists>st'. gc_while base ?body (hd (ys @ [base])) (h, base) = Some st' \<and> ?Q ([] @ ys) [] st'"
  proof (rule gc_while_walk [where Q = ?Q])
    fix as b bs st assume Q: "?Q as (b # bs) st"
    obtain h1 prev where st: "st = (h1, prev)" by (cases st)
    have ys: "ys = as @ b # bs" and prev: "prev = last (base # as)" and nx: "gc_next h1 = gc_next h"
      and lk: "links (GC_PREV h1) (rev as @ [base])" using Q st by auto
    let ?h = "gc_clear_collecting (SET_PREV h1 b prev) b"
    have ap: "aligned prev" using al last_in_set [of "base # as"] ys by (auto simp: prev)
    have "GC_NEXT ?h b = hd (bs @ [base])"
      using links_at [of "gc_next h" "base # as" b "bs @ [base]"] ln ys nx by (simp add: GC_NEXT_def)
    moreover have "links (GC_PREV ?h) (rev (as @ [b]) @ [base])"
    proof -
      have "links (GC_PREV ?h) (rev as @ [base])" using lk d ys ap by (simp add: butlast_append)
      moreover have "prev = hd (rev as @ [base])" unfolding prev by (cases as rule: rev_cases) auto
      ultimately show ?thesis using ap by (cases "rev as @ [base]") auto
    qed
    ultimately show "\<exists>st'. ?body b st = (hd (bs @ [base]), st') \<and> ?Q (as @ [b]) bs st'"
      using Q ap unfolding st by (auto simp: Let_def)
  qed (use d in auto)
  then obtain h1 prev where w: "gc_while base ?body (hd (ys @ [base])) (h, base) = Some (h1, prev)"
    and Q: "?Q ys [] (h1, prev)" by auto
  have base: "gc_prev h1 base = gc_prev h base" using Q d by auto
  have "GC_PREV h1 base = hd (rev ys @ [base])"
    using gc_obs_cong(4) [OF base] pb by (cases ys rule: rev_cases) auto
  then have "links (GC_PREV h1) (base # rev ys @ [base])" using Q by (cases "rev ys @ [base]") auto
  then have "gc_list h1 base ys" using Q d al ln pb base by (auto simp: gc_list_def)
  moreover have "GC_NEXT h base = hd (ys @ [base])"
    using links_at [of "gc_next h" "[]" base "ys @ [base]"] ln by (simp add: GC_NEXT_def)
  ultimately show ?thesis using Q w unfolding Ci_restore_prev_ptrs_def by auto
qed

section \<open>The parallel collector computes what the serial one does\<close>

lemma copied_setup:
  assumes r: "gc_ready env h perm ps base xs unr" and c: "refs_copied env h base xs perm ps xs [] h1"
    and ys: "ys = collected env xs" and n: "0 < n" "n + 1 < 2 ^ 32" "n \<le> length ys"
  shows "par_setup env (slice_list n base ys) n ys (slice_nodes n ys) h1"
proof -
  have seg: "gc_seg h1 base ys []" using c by (simp add: refs_copied_def ys collected_def)
  have d: "distinct (base # ys)" and l: "links (gc_next h1) (base # ys @ [base])"
    using seg by (simp_all add: gc_seg_def)
  have l': "links (gc_next h1) (ys @ [base])" using l by (cases ys) auto
  have "gc_is_collecting h1 y \<and> unat (gc_get_refs h1 y) = refcnt env y" if "y \<in> set ys" for y
    using c that by (simp add: refs_copied_def ys collected_def refcnt_def)
  moreover have "internal_refs env ys y \<le> refcnt env y" if "y \<in> set ys" for y
    using r that by (simp add: gc_ready_def ys)
  moreover have "\<not> gc_is_collecting h1 a" if "y \<in> set ys" "a \<in> set (referents env y)" "a \<notin> set ys" for y a
  proof -
    have "\<not> gc_is_collecting h a" "a \<noteq> perm" using r that by (auto simp: gc_ready_def ys)
    then show ?thesis using c that(3) by (auto simp: refs_copied_def ys collected_def)
  qed
  ultimately show ?thesis
    using n slice_list_ok [OF n(1,3) _ d l'] slice_nodes_concat [OF n(1)] d by (simp add: par_setup_def)
qed

lemma split_lists_cong:
  assumes s: "split_lists h1 h' base unr Y A D U"
    and "\<And>a. a \<notin> Y \<Longrightarrow> a \<noteq> base \<Longrightarrow> a \<noteq> unr \<Longrightarrow> same_at h2 h1 a"
    and "\<And>a. a \<in> Y \<Longrightarrow> gc_finalized h1 a = gc_finalized h2 a"
  shows "split_lists h2 h' base unr Y A D U"
proof -
  have "same_at h2 h' a" if "a \<notin> Y" "a \<noteq> base" "a \<noteq> unr" for a
    using s that by (intro same_at_trans [OF assms(2)]) (auto simp: split_lists_def)
  then show ?thesis using s assms(3) unfolding split_lists_def by auto
qed

lemma marked_heap_moves:
  assumes r: "gc_ready env h perm ps base xs unr" and c: "refs_copied env h base xs perm ps xs [] h1"
    and sub: "subtracted (set ys) (internal_refs env ys) h1 h2" and ys: "ys = collected env xs"
    and H: "heap_inv env n ys nodes h1 s" and M: "MK ys s = {y \<in> set ys. alive env ys y}"
    and refs: "\<And>y. y \<in> set ys \<Longrightarrow> gc_get_refs (p_heap s) y \<noteq> 0 \<longleftrightarrow> alive env ys y"
  shows "\<exists>h' D U. Ci_move_unreachable_parallel (gc_list_init (p_heap s) unr) base unr = Some h' \<and>
    deduced env h perm ps base xs unr h' D U"
proof -
  let ?R = "{y \<in> set ys. alive env ys y}" and ?h = "gc_list_init (p_heap s) unr"
  have seg: "gc_seg h1 base ys []" using c by (simp add: refs_copied_def ys collected_def)
  have d: "distinct (unr # base # ys)" and au: "aligned unr"
    using r by (auto simp: gc_ready_def ys collected_def)
  have al: "\<And>a. a \<in> set (base # ys) \<Longrightarrow> aligned a" and ln: "links (gc_next h1) (base # ys @ [base])"
    and pb: "GC_PREV h1 base = last (base # ys)" "aligned (gc_prev h1 base)" using seg by (auto simp: gc_seg_def)
  have nx: "gc_next ?h = (gc_next h1)(unr := unr)" and pv: "\<And>a. a \<noteq> unr \<Longrightarrow> gc_prev ?h a = gc_prev (p_heap s) a"
    "gc_prev ?h unr = unr" using H by (auto simp: gc_list_init_def heap_inv_def)
  have base: "gc_prev ?h base = last (base # ys)" "aligned (gc_prev ?h base)"
    using H d pb pv(1) [of base] aligned_mask [OF pb(2)] by (auto simp: heap_inv_def GC_PREV_def)
  have ob: "gc_is_collecting ?h y = gc_is_collecting (p_heap s) y" "gc_get_refs ?h y = gc_get_refs (p_heap s) y"
    "gc_finalized ?h y = gc_finalized (p_heap s) y" if "y \<noteq> unr" for y using gc_obs_cong(1-3) [OF pv(1) [OF that]] by simp_all
  have ln': "links (gc_next ?h) (base # ys @ [base])" unfolding nx using ln d by (simp add: butlast_append)
  have co: "gc_is_collecting ?h y \<longleftrightarrow> gc_get_refs ?h y = 0" if "y \<in> set ys" for y
  proof -
    have "y \<noteq> unr" using that d by auto
    moreover have "gc_is_collecting (p_heap s) y \<longleftrightarrow> \<not> alive env ys y"
      using M that by (auto simp: MK_def)
    ultimately show ?thesis using refs [OF that] ob(1,2) [of y] by metis
  qed
  have mk: "marked (regather ys ?h) ys = ?R"
  proof -
    have "gc_get_refs ?h y \<noteq> 0 \<longleftrightarrow> alive env ys y" if "y \<in> set ys" for y
    proof -
      have "y \<noteq> unr" using that d by auto
      then show ?thesis using refs [OF that] ob(2) [of y] by simp
    qed
    then show ?thesis by (auto simp: marked_def)
  qed
  have "mu_young (regather ys ?h) base [] ys" using ln' base d by (simp add: mu_young_def)
  moreover have "mu_unr (regather ys ?h) unr []"
    using au d pv nx by (simp add: mu_unr_def uview_def aligned_next_mask GC_PREV_def aligned_mask)
  ultimately have "mu_rep (regather ys ?h) base unr [] ys []" using d al au by (auto simp: mu_rep_def)
  moreover have "same_at ?h (regather ys ?h) a" if "a \<notin> set ys" for a using that by (simp add: same_at_def)
  ultimately have "mu_inv (no_refs env) ?h base unr (set ys) ?R [] ys [] (regather ys ?h)"
    unfolding mu_inv_def by (simp add: mk)
  then have I: "moved_inv env ?h base unr (set ys) ?R ys ?h base"
    unfolding moved_inv_def using co by (intro conjI exI [of _ "[]"]) auto
  have "GC_NEXT ?h base = hd (ys @ [base])"
    using links_at [of "gc_next ?h" "[]" base "ys @ [base]"] ln' by (simp add: GC_NEXT_def)
  from move_unreachable_parallel_splits [OF I _ base(2) _ this] d
  obtain h' D U where m: "Ci_move_unreachable_parallel ?h base unr = Some h'"
    and sp: "split_lists ?h h' base unr (set ys) (\<lambda>y. y \<in> ?R) D U" by auto
  have "split_lists ?h h' base unr (set ys) (alive env ys) D U"
    using sp unfolding split_lists_def by auto
  then have "split_lists (gc_list_init h2 unr) h' base unr (set ys) (alive env ys) D U"
  proof (rule split_lists_cong)
    fix a assume "a \<notin> set ys" "a \<noteq> base" "a \<noteq> unr"
    then show "same_at (gc_list_init h2 unr) ?h a"
      using H sub by (simp add: same_at_def gc_list_init_def heap_inv_def subtracted_def)
  next
    fix a assume a: "a \<in> set ys"
    then have "a \<noteq> unr" using d by auto
    moreover from this have "gc_finalized (gc_list_init h2 unr) a = gc_finalized h2 a"
      by (intro gc_obs_cong) (simp add: gc_list_init_def)
    ultimately show "gc_finalized ?h a = gc_finalized (gc_list_init h2 unr) a"
      using H sub a ob(3) [of a] by (simp add: heap_inv_def subtracted_def)
  qed
  then have "deduced env h perm ps base xs unr h' D U"
    using split_deduced [OF r refs_copied_subtracted [OF r c sub [unfolded ys]]] by (simp add: ys)
  then show ?thesis using m by blast
qed

lemma restored_deduces:
  assumes r: "gc_ready env h perm ps base xs unr" and c: "refs_copied env h base xs perm ps xs [] h1"
    and h2: "Ci_restore_prev_ptrs h1 base = Some h2"
  shows "\<exists>h' D U. deduce_unreachable env perm h2 base unr = Some h' \<and> deduced env h perm ps base xs unr h' D U"
proof -
  let ?ys = "collected env xs" and ?ps = "ps @ filter (\<lambda>x. \<not> mortal env x) xs"
  have seg: "gc_seg h1 base ?ys []" using c by (simp add: refs_copied_def collected_def)
  from restore_prev_ptrs_list [OF this] h2
  have l2: "gc_list h2 base ?ys" and nx: "gc_next h2 = gc_next h1"
    and pv: "\<And>a. a \<notin> set ?ys \<Longrightarrow> gc_prev h2 a = gc_prev h1 a"
    and nc: "\<And>y. y \<in> set ?ys \<Longrightarrow> \<not> gc_is_collecting h2 y" and fin: "gc_finalized h2 = gc_finalized h1" by auto
  have d: "distinct (unr # base # xs @ perm # ps)" using r by (simp add: gc_ready_def)
  have cc: "collected env ?ys = ?ys" "filter (\<lambda>x. \<not> mortal env x) ?ys = []"
    by (simp_all add: collected_def filter_empty_conv)
  have "gc_list h2 perm ?ps"
  proof (subst gc_list_cong)
    fix a assume "a \<in> set (perm # ?ps)"
    then have "a \<notin> set ?ys" using d by (auto simp: collected_def)
    then show "gc_prev h2 a = gc_prev h1 a \<and> gc_next h2 a = gc_next h1 a" using pv nx by simp
  qed (use c in \<open>simp add: refs_copied_def\<close>)
  moreover have "distinct (unr # base # ?ys @ perm # ?ps)" using d by (auto simp: collected_def)
  moreover have "\<not> gc_is_collecting h2 a" if "y \<in> set ?ys" "a \<in> set (referents env y)" "a \<notin> set ?ys" for y a
  proof -
    have "\<not> gc_is_collecting h a" "a \<noteq> perm" using r that by (auto simp: gc_ready_def)
    then have "\<not> gc_is_collecting h1 a" using c that(3) by (auto simp: refs_copied_def collected_def)
    then show ?thesis using gc_obs_cong(1) [OF pv [OF that(3)]] by simp
  qed
  ultimately have "gc_ready env h2 perm ?ps base ?ys unr"
    using r l2 unfolding gc_ready_def cc(1) by auto
  from deduce_unreachable_deduces [OF this] obtain h' D U where
    m: "deduce_unreachable env perm h2 base unr = Some h'"
    and dd: "deduced env h2 perm ?ps base ?ys unr h' D U" by blast
  have D: "gc_list h' base D" "gc_masked_list h' unr U" "gc_list h' perm ?ps"
    "set D = {y \<in> set ?ys. alive env ?ys y}" "set U = {y \<in> set ?ys. \<not> alive env ?ys y}"
    "\<forall>d\<in>set D. \<not> gc_is_collecting h' d" "\<forall>u\<in>set U. gc_is_collecting h' u"
    "\<forall>a. a \<notin> {unr, base, perm} \<longrightarrow> gc_finalized h' a = gc_finalized h2 a"
    "\<forall>a. a \<notin> set (unr # base # ?ys @ perm # ?ps) \<longrightarrow> same_at h2 h' a"
    "\<forall>a. a \<notin> set ?ys \<longrightarrow> a \<notin> {unr, base, perm} \<longrightarrow> gc_is_collecting h' a = gc_is_collecting h2 a"
    using dd unfolding deduced_def cc append_Nil2 by blast+
  have "gc_finalized h' a = gc_finalized h a" if a: "a \<notin> {unr, base, perm}" for a
    using c a D(8) fin by (simp add: refs_copied_def)
  moreover have "gc_is_collecting h' a = gc_is_collecting h a" if a: "a \<notin> set ?ys" "a \<notin> {unr, base, perm}" for a
  proof -
    have "gc_is_collecting h' a = gc_is_collecting h1 a" using D(10) a gc_obs_cong(1) [OF pv [OF a(1)]] by simp
    then show ?thesis using c a by (auto simp: refs_copied_def collected_def)
  qed
  moreover have "same_at h h' a" if a: "a \<notin> set (unr # base # xs @ perm # ps)" for a
  proof -
    have "same_at h h1 a" using c a by (auto simp: refs_copied_def)
    moreover have na: "a \<notin> set ?ys" using a by (auto simp: collected_def)
    then have "same_at h1 h2 a" using pv nx by (simp add: same_at_def)
    moreover have "same_at h2 h' a" using D(9) a na by auto
    ultimately show ?thesis by (meson same_at_trans)
  qed
  ultimately have "deduced env h perm ps base xs unr h' D U" unfolding deduced_def using D by blast
  then show ?thesis using m by blast
qed

theorem deduce_parallel_deduces:
  assumes r: "gc_ready env h perm ps base xs unr" and P: "par_idle n s"
    and n: "0 < n" "n + 1 < 2 ^ 32" and m: "length xs < 2 ^ 31" and nz: "0 \<notin> set xs"
    and run: "Ci_deduce_unreachable_parallel env perm n s h base unr s' h'"
  shows "par_idle n s' \<and> (\<exists>D U. deduced env h perm ps base xs unr h' D U)"
proof -
  let ?ys = "collected env xs"
  obtain h1 h2 where u: "update_refs env perm h base = Some (h1, length ?ys)"
    and c: "refs_copied env h base xs perm ps xs [] h1"
    and sub: "subtracted (set ?ys) (internal_refs env ?ys) h1 h2"
    using update_subtract_counts [OF r] by blast
  have "length ?ys \<le> length xs" by (simp add: collected_def)
  then have len: "length ?ys < 2 ^ 31" using m by linarith
  then have cnt: "to_uint (length ?ys) = length ?ys" "to_int (length ?ys) = int (length ?ys)"
    by (simp_all add: to_uint_def to_int_def)
  have nz': "0 \<notin> set ?ys" using nz by (simp add: collected_def)
  have seg: "gc_seg h1 base ?ys []" using c by (simp add: refs_copied_def collected_def)
  have d: "distinct (base # ?ys)" and l: "links (gc_next h1) (base # ?ys @ [base])"
    using seg by (simp_all add: gc_seg_def)
  from run show ?thesis
  proof cases
    case (few h1' seen h2')
    then have "h1' = h1" using u by simp
    then show ?thesis using few P restored_deduces [OF r c] by (metis option.inject)
  next
    case (many h1' seen slices)
    then have e: "h1' = h1" "seen = length ?ys" using u by auto
    then have le: "n \<le> length ?ys" using many(2) cnt by simp
    have sl: "slices = slice_list n base ?ys"
      using many(3) assign_slices [OF n(1) le nz' d l] by (simp add: e cnt)
    have S: "par_setup env (slice_list n base ?ys) n ?ys (slice_nodes n ?ys) h1"
      by (rule copied_setup [OF r c refl n le])
    note M = par_run_marks [OF S P many(4) [unfolded e sl] many(5)]
    show ?thesis
      using marked_heap_moves [OF r c sub refl M(2,1,4)] many(6) M(3) by auto
  qed
qed

end
