(* ===== verification/GC_Progress.thy ===== *)
theory GC_Progress
  imports GC_Parallel_Correct
begin

text \<open>
  The workers make progress: every step but the spinning of the coordinator decreases a well-founded measure, in
  every reachable state some other step is possible, so that every run can be completed, and
  \<open>Ci_deduce_unreachable_parallel\<close> returns.
\<close>

section \<open>A measure for the workers\<close>

definition item_cost :: "gcenv \<Rightarrow> nat \<Rightarrow> addr \<Rightarrow> nat" where
  "item_cost env n op = 2 * length (tp_traverse env op) + n + 3"

definition sub_cost :: "gcenv \<Rightarrow> addr list \<Rightarrow> nat" where
  "sub_cost env nodes = (\<Sum>x\<leftarrow>nodes. 2 * length (tp_traverse env (FROM_GC x)) + 2)"

fun after_cost :: "nat \<Rightarrow> addr list \<Rightarrow> after \<Rightarrow> nat" where
  "after_cost n nodes (AfterSlice gc) = 2 * length (tl (rest nodes gc)) + n + 6"
| "after_cost n nodes AfterQueue = n + 5"

text \<open>
  The steps a worker has still to make, apart from those it makes for objects that it will find in a queue or mark: each
  queued object and each token of the semaphore carries the steps it causes. \<open>X\<close> is the set of objects
  not yet marked; a worker about to mark an object that has been marked meanwhile pays for queueing it again.
\<close>

fun pot :: "gcenv \<Rightarrow> nat \<Rightarrow> addr set \<Rightarrow> addr list \<Rightarrow> pc \<Rightarrow> nat" where
  "pot env n X nodes Start = 3 + sub_cost env nodes"
| "pot env n X nodes (SubSlice gc) = 2 + sub_cost env (rest nodes gc)"
| "pot env n X nodes (SubVisit gc ops) = 3 + 2 * length ops + sub_cost env (tl (rest nodes gc))"
| "pot env n X nodes (SubDec gc x ops) = 4 + 2 * length ops + sub_cost env (tl (rest nodes gc))"
| "pot env n X nodes MarkBarrier = 1"
| "pot env n X nodes (MarkBarrierWait e) = 0"
| "pot env n X nodes (MarkSlice gc) = 2 * length (rest nodes gc) + n + 6"
| "pot env n X nodes (MarkSliceStore gc f) = after_cost n nodes (AfterSlice gc) +
     (if gc \<in> X then 1 else 2 * length (tp_traverse env (FROM_GC gc)) + 2)"
| "pot env n X nodes (Visit k ops) = 2 * length ops + 1 + after_cost n nodes k"
| "pot env n X nodes (VisitStore k op f ops) = 2 * length ops + 1 + after_cost n nodes k +
     (if AS_GC op \<in> X then 1 else item_cost env n op + 2)"
| "pot env n X nodes (VisitPush k op ops) = 2 * length ops + 2 + after_cost n nodes k + item_cost env n op"
| "pot env n X nodes Take = n + 5"
| "pot env n X nodes (Steal vs) = 4 + length vs"
| "pot env n X nodes TryCoord = 3"
| "pot env n X nodes CoordLoad = 2"
| "pot env n X nodes CoordFinish = 1"
| "pot env n X nodes (CoordPostFinal k) = n + 8 + k * (n + 7)"
| "pot env n X nodes (CoordSum i a m) = n + 10 + n * (n + 7) + 2 * (n - i)"
| "pot env n X nodes (CoordSumTop i a m b) = n + 9 + n * (n + 7) + 2 * (n - i) + (if i < n then 0 else 2)"
| "pot env n X nodes (CoordAdd k) = n + 9 + k * (n + 7)"
| "pot env n X nodes (CoordPost k) = n + 8 + k * (n + 7)"
| "pot env n X nodes DropCoord = n + 7"
| "pot env n X nodes WaitDec = 1"
| "pot env n X nodes WaitSema = 0"
| "pot env n X nodes CheckMarking = n + 6"
| "pot env n X nodes DoneBarrier = 3"
| "pot env n X nodes (DoneBarrierWait e) = 2"
| "pot env n X nodes ActiveDec = 1"
| "pot env n X nodes Exit = 0"

definition COL :: "addr list \<Rightarrow> par \<Rightarrow> addr set" where
  "COL ys s = {y \<in> set ys. gc_is_collecting (p_heap s) y}"

definition queue_cost :: "gcenv \<Rightarrow> nat \<Rightarrow> par \<Rightarrow> nat" where
  "queue_cost env n s = (\<Sum>v<n. \<Sum>op\<leftarrow>dq_items (p_deque s v). item_cost env n op)"

definition run_cost :: "gcenv \<Rightarrow> nat \<Rightarrow> addr list \<Rightarrow> (nat \<Rightarrow> addr list) \<Rightarrow> par \<Rightarrow> nat" where
  "run_cost env n ys nodes s =
     (\<Sum>v\<le>n. pot env n (COL ys s) (nodes v) (p_pc s v)) + queue_cost env n s + (n + 7) * p_sema s"

definition early :: "nat \<Rightarrow> par \<Rightarrow> nat set" where
  "early n s = {v. v < n \<and> stage (p_pc s v) \<le> 1}"

definition par_measure :: "gcenv \<Rightarrow> nat \<Rightarrow> addr list \<Rightarrow> (nat \<Rightarrow> addr list) \<Rightarrow> par \<Rightarrow> nat \<times> nat \<times> nat \<times> nat" where
  "par_measure env n ys nodes s = (card (early n s), card (COL ys s), (if p_marking s = 0 then 0 else 1),
     run_cost env n ys nodes s)"

definition measure_less :: "((nat \<times> nat \<times> nat \<times> nat) \<times> (nat \<times> nat \<times> nat \<times> nat)) set" where
  "measure_less = less_than <*lex*> less_than <*lex*> less_than <*lex*> less_than"

lemma wf_measure_less: "wf measure_less"
  unfolding measure_less_def by (intro wf_lex_prod wf_less_than)

lemma queue_cost_upd:
  assumes "v < n" "p_deque s' = (p_deque s)(v := q)"
  shows "queue_cost env n s' + (\<Sum>op\<leftarrow>dq_items (p_deque s v). item_cost env n op) =
    queue_cost env n s + (\<Sum>op\<leftarrow>dq_items q. item_cost env n op)"
proof -
  have "queue_cost env n t = (\<Sum>op\<leftarrow>dq_items (p_deque t v). item_cost env n op) +
      (\<Sum>u\<in>{..<n} - {v}. \<Sum>op\<leftarrow>dq_items (p_deque t u). item_cost env n op)" for t
    using assms(1) unfolding queue_cost_def by (subst sum.remove [of _ v]) auto
  moreover have "(\<Sum>u\<in>{..<n} - {v}. \<Sum>op\<leftarrow>dq_items (p_deque s' u). item_cost env n op) =
      (\<Sum>u\<in>{..<n} - {v}. \<Sum>op\<leftarrow>dq_items (p_deque s u). item_cost env n op)"
    using assms(2) by (intro sum.cong) auto
  ultimately show ?thesis using assms(2) by simp
qed

lemma queue_cost_same: "p_deque s' = p_deque s \<Longrightarrow> queue_cost env n s' = queue_cost env n s"
  by (simp add: queue_cost_def)

lemma pot_sum_upd:
  assumes "w \<le> n" "p_pc s' = (p_pc s)(w := c)"
  shows "(\<Sum>v\<le>n. pot env n X (nodes v) (p_pc s' v)) + pot env n X (nodes w) (p_pc s w) =
    (\<Sum>v\<le>n. pot env n X (nodes v) (p_pc s v)) + pot env n X (nodes w) c"
proof -
  have e: "(\<Sum>v\<le>n. pot env n X (nodes v) (p_pc t v)) = pot env n X (nodes w) (p_pc t w) +
      (\<Sum>v\<in>{..n} - {w}. pot env n X (nodes v) (p_pc t v))" for t
    using assms(1) by (subst sum.remove [of _ w]) auto
  have eo: "(\<Sum>v\<in>{..n} - {w}. pot env n X (nodes v) (p_pc s' v)) =
      (\<Sum>v\<in>{..n} - {w}. pot env n X (nodes v) (p_pc s v))"
    using assms(2) by (intro sum.cong) auto
  have "p_pc s' w = c" using assms(2) by simp
  then show ?thesis using e [of s'] e [of s] eo by simp
qed

lemma sub_cost_simps [simp]:
  "sub_cost env [] = 0"
  "sub_cost env (x # xs) = 2 * length (tp_traverse env (FROM_GC x)) + 2 + sub_cost env xs"
  by (simp_all add: sub_cost_def)

lemma victims_length: "length (victims n start w) \<le> n"
  unfolding victims_def by (rule order_trans [OF length_filter_le]) simp

definition local_cost :: "gcenv \<Rightarrow> nat \<Rightarrow> addr set \<Rightarrow> (nat \<Rightarrow> addr list) \<Rightarrow> nat \<Rightarrow> par \<Rightarrow> nat" where
  "local_cost env n X nodes w s = pot env n X (nodes w) (p_pc s w) + queue_cost env n s + (n + 7) * p_sema s"

lemma sub_local_cost:
  assumes S: "slice_ok h0 (slices ! w) (nodes w)" and h: "gc_next (p_heap s) = gc_next h0"
    and ok: "pc_ok env h0 Y R n (slices ! w) (nodes w) (p_pc s w)"
    and st: "worker_step env slices n start w s = Some s'" and s0: "stage (p_pc s w) = 0" "stage (p_pc s' w) \<le> 1"
  shows "local_cost env n X nodes w s' < local_cost env n X nodes w s"
proof -
  have q: "queue_cost env n s' = queue_cost env n s" and se: "p_sema s' = p_sema s"
    using st s0(1) by (cases "p_pc s w"; auto simp: worker_step_def Let_def queue_cost_def split: option.splits prod.splits if_splits list.splits)+
  have "pot env n X (nodes w) (p_pc s' w) < pot env n X (nodes w) (p_pc s w)"
  proof (cases "p_pc s w")
    case Start
    then show ?thesis using st rest_start [OF S] by (auto simp: worker_step_def Let_def)
  next
    case (SubSlice gc)
    show ?thesis
    proof (cases "gc = slice_end (slices ! w)")
      case False
      then have "gc \<in> set (nodes w)" using ok SubSlice by simp
      from slice_step(1) [OF S this h] obtain r where "rest (nodes w) gc = gc # r" by blast
      then show ?thesis using st SubSlice False by (auto simp: worker_step_def Let_def)
    qed (use st SubSlice in \<open>auto simp: worker_step_def Let_def\<close>)
  next
    case (SubVisit gc ops)
    then have "gc \<in> set (nodes w)" using ok by simp
    from slice_step(1) [OF S this h] have "tl (rest (nodes w) gc) = rest (nodes w) (GC_NEXT (p_heap s) gc)"
      by (metis list.sel(3))
    then show ?thesis using st SubVisit by (cases ops) (auto simp: worker_step_def Let_def)
  next
    case (SubDec gc x ops)
    then show ?thesis using st by (auto simp: worker_step_def Let_def)
  next
    case MarkBarrier
    then show ?thesis using st s0(2) by (auto simp: worker_step_def Let_def split: option.splits prod.splits)
  qed (use s0(1) in auto)
  then show ?thesis using q se by (simp add: local_cost_def)
qed

lemma dq_costs:
  "dq_take q = (Some op, q') \<Longrightarrow> (\<Sum>x\<leftarrow>dq_items q. f x) = (f op :: nat) + (\<Sum>x\<leftarrow>dq_items q'. f x)"
  "dq_steal b q = (Some op, q') \<Longrightarrow> (\<Sum>x\<leftarrow>dq_items q. f x) = f op + (\<Sum>x\<leftarrow>dq_items q'. f x)"
proof -
  show "dq_take q = (Some op, q') \<Longrightarrow> (\<Sum>x\<leftarrow>dq_items q. f x) = (f op :: nat) + (\<Sum>x\<leftarrow>dq_items q'. f x)"
    by (cases "dq_items q" rule: rev_cases) (auto simp: dq_take_def split: if_splits)
  show "dq_steal b q = (Some op, q') \<Longrightarrow> (\<Sum>x\<leftarrow>dq_items q. f x) = f op + (\<Sum>x\<leftarrow>dq_items q'. f x)"
    by (cases "dq_items q") (auto simp: dq_steal_def split: if_splits)
qed

lemma fetch_local_cost:
  assumes v: "v < n" and d: "p_deque s' = (p_deque s)(v := q)" "p_sema s' = p_sema s"
    and c: "p_pc s' w = Visit AfterQueue (tp_traverse env op)" "4 \<le> pot env n X (nodes w) (p_pc s w)"
    and q: "(\<Sum>x\<leftarrow>dq_items (p_deque s v). item_cost env n x) = item_cost env n op + (\<Sum>x\<leftarrow>dq_items q. item_cost env n x)"
  shows "local_cost env n X nodes w s' < local_cost env n X nodes w s"
  using queue_cost_upd [OF v d(1), of env] q c d(2) by (simp add: local_cost_def item_cost_def)

lemma mark_local_cost:
  assumes S: "slice_ok h0 (slices ! w) (nodes w)" and h: "gc_next (p_heap s) = gc_next h0" and w: "w < n"
    and ok: "pc_ok env h0 Y R n (slices ! w) (nodes w) (p_pc s w)" and ns: "set (nodes w) \<subseteq> set ys"
    and st: "worker_step env slices n start w s = Some s'" and s2: "stage (p_pc s w) = 2" "\<not> quiet (p_pc s w)"
    and X: "X = COL ys s" "COL ys s' = X" and out: "\<And>k op ops. p_pc s w = Visit k (op # ops) \<Longrightarrow>
      is_gc env op \<Longrightarrow> gc_is_collecting (p_heap s) (AS_GC op) \<Longrightarrow> AS_GC op \<in> set ys"
    and Y: "Y = set ys"
  shows "local_cost env n X nodes w s' < local_cost env n X nodes w s"
proof -
  let ?P = "\<lambda>c. pot env n X (nodes w) c"
  have simple: ?thesis if "p_deque s' = p_deque s" "p_sema s' = p_sema s" "?P (p_pc s' w) < ?P (p_pc s w)"
    using that queue_cost_same [of s' s] by (simp add: local_cost_def)
  show ?thesis
  proof (cases "p_pc s w")
    case (MarkSlice gc)
    show ?thesis
    proof (cases "gc = slice_end (slices ! w)")
      case False
      then have gc: "gc \<in> set (nodes w)" using ok MarkSlice by simp
      note r = slice_step(1) [OF S gc h]
      then have "length (rest (nodes w) gc) = Suc (length (rest (nodes w) (GC_NEXT (p_heap s) gc)))"
        "tl (rest (nodes w) gc) = rest (nodes w) (GC_NEXT (p_heap s) gc)" by (metis length_Cons, metis list.sel(3))
      moreover have "gc \<in> X" if "fst (Ci_gc_is_collecting_and_reachable_atomic (p_heap s) gc)"
        using that gc ns X(1) by (auto simp: COL_def Ci_gc_is_collecting_and_reachable_atomic_def gc_is_collecting_def)
      ultimately show ?thesis using st MarkSlice False
        by (intro simple) (auto simp: worker_step_def Let_def split: prod.splits if_splits)
    next
      case True
      then show ?thesis using st MarkSlice by (intro simple) (auto simp: worker_step_def Let_def)
    qed
  next
    case (MarkSliceStore gc f)
    have "gc \<notin> X"
      using st MarkSliceStore X(2) mark_obs(3) by (auto simp: worker_step_def Let_def COL_def)
    then show ?thesis using st MarkSliceStore by (intro simple) (auto simp: worker_step_def Let_def)
  next
    case (Visit k ops)
    show ?thesis
    proof (cases ops)
      case Nil
      show ?thesis
      proof (cases k)
        case (AfterSlice gc)
        then have gc: "gc \<in> set (nodes w)" using ok Visit by simp
        have "tl (rest (nodes w) gc) = rest (nodes w) (GC_NEXT (p_heap s) gc)"
          using slice_step(1) [OF S gc h] by (metis list.sel(3))
        then show ?thesis using st Visit Nil AfterSlice
          by (intro simple) (auto simp: worker_step_def Let_def resume_def)
      next
        case AfterQueue
        then show ?thesis using st Visit Nil by (intro simple) (auto simp: worker_step_def Let_def resume_def)
      qed
    next
      case (Cons op ops')
      have "AS_GC op \<in> X" if "is_gc env op" "fst (Ci_gc_get_collecting_and_finalized_atomic (p_heap s) (AS_GC op))"
        using that out [of k op ops'] Visit Cons X(1)
        by (auto simp: COL_def Ci_gc_get_collecting_and_finalized_atomic_def gc_is_collecting_def)
      then show ?thesis using st Visit Cons
        by (intro simple) (auto simp: worker_step_def Let_def split: prod.splits if_splits)
    qed
  next
    case (VisitStore k op f ops)
    have "AS_GC op \<notin> X"
      using st VisitStore X(2) mark_obs(3) by (auto simp: worker_step_def Let_def COL_def)
    then show ?thesis using st VisitStore by (intro simple) (auto simp: worker_step_def Let_def)
  next
    case (VisitPush k op ops)
    then have s': "s' = goto w (Visit k ops) (set_deque w (dq_push op (p_deque s w)) s)"
      using st by (simp add: worker_step_def Let_def)
    have "p_deque s' = (p_deque s)(w := dq_push op (p_deque s w))" by (simp add: s')
    from queue_cost_upd [OF w this, of env] show ?thesis
      using VisitPush by (simp add: local_cost_def s' dq_push_def)
  next
    case Take
    obtain r q where t: "dq_take (p_deque s w) = (r, q)" by force
    show ?thesis
    proof (cases r)
      case None
      then have "q = p_deque s w" using dq_take_items(1) [OF t] by simp
      then show ?thesis using st Take t None victims_length [of n start w]
        by (intro simple) (auto simp: worker_step_def Let_def)
    next
      case (Some op)
      then show ?thesis using st Take t dq_costs(1)
        by (intro fetch_local_cost [OF w, where q = q and op = op]) (auto simp: worker_step_def Let_def)
    qed
  next
    case (Steal vs)
    show ?thesis
    proof (cases vs)
      case Nil
      then show ?thesis using st Steal by (intro simple) (auto simp: worker_step_def Let_def)
    next
      case (Cons v vs')
      then have v: "v < n" using ok Steal by simp
      obtain r q where t: "dq_steal (start \<noteq> 0) (p_deque s v) = (r, q)" by force
      show ?thesis
      proof (cases r)
        case None
        then have "q = p_deque s v" using dq_steal_items(1) [OF t] by simp
        then show ?thesis using st Steal Cons t None
          by (intro simple) (auto simp: worker_step_def Let_def)
      next
        case (Some op)
        then show ?thesis using st Steal Cons t dq_costs(2)
          by (intro fetch_local_cost [OF v, where q = q and op = op]) (auto simp: worker_step_def Let_def)
      qed
    qed
  qed (use s2 in auto)
qed

lemma quiet_local_cost:
  assumes w: "w < n" and st: "worker_step env slices n start w s = Some s'" and q: "quiet (p_pc s w)"
    and spin: "\<not> (p_pc s w = CoordLoad \<and> p_marking s \<noteq> 1)" and fin: "p_pc s w \<noteq> CoordFinish"
    and m: "\<And>i a m. p_pc s w = CoordSum i a m \<Longrightarrow> 0 \<le> m"
  shows "local_cost env n X nodes w s' < local_cost env n X nodes w s"
proof -
  have d: "queue_cost env n s' = queue_cost env n s" using quiet_frame(2) [OF q st] by (simp add: queue_cost_def)
  show ?thesis
  proof (cases "p_pc s w")
    case (CoordSum i a m)
    then have m0: "0 \<le> m" using assms(6) by blast
    show ?thesis
    proof (cases "i < n")
      case True
      then show ?thesis using st CoordSum d by (auto simp: worker_step_def Let_def local_cost_def)
    next
      case False
      have "min a (nat (int n - m)) * (n + 7) < Suc (n * (n + 7))"
        using m0 by (intro le_imp_less_Suc mult_le_mono1) auto
      then show ?thesis using st CoordSum d False by (auto simp: worker_step_def Let_def local_cost_def)
    qed
  next
    case WaitSema
    then obtain t where "p_sema s = Suc t" "p_sema s' = t" "p_pc s' w = CheckMarking"
      using st by (cases "p_sema s") (auto simp: worker_step_def Let_def Ci_Sema_Wait_def)
    then show ?thesis using WaitSema d by (simp add: local_cost_def)
  next
    case (CoordSumTop i a m b)
    then show ?thesis using st d by (cases "i < n") (auto simp: worker_step_def Let_def local_cost_def)
  qed (use st q d spin fin in \<open>auto simp: worker_step_def Let_def local_cost_def Ci_Sema_Post_def Ci_Sema_Wait_def algebra_simps
        split: option.splits prod.splits if_splits\<close>)
qed

section \<open>Every step but one makes progress\<close>

text \<open>The only step that leads back: the coordinator looks again while other workers are marking.\<close>

definition spins :: "par \<Rightarrow> nat \<Rightarrow> bool" where
  "spins s w \<longleftrightarrow> p_pc s w = CoordLoad \<and> p_marking s \<noteq> 1"

lemma step_early:
  assumes "worker_step env slices n start w s = Some s'" "w < n"
  shows "early n s' \<subseteq> early n s"
    and "stage (p_pc s w) \<le> 1 \<Longrightarrow> 1 < stage (p_pc s' w) \<Longrightarrow> card (early n s') < card (early n s)"
proof -
  have pc: "p_pc s' = (p_pc s)(w := p_pc s' w)" by (rule step_coordination(1) [OF assms(1)])
  have le: "stage (p_pc s w) \<le> 1" if "stage (p_pc s' w) \<le> 1"
    using assms(1) that by (cases "p_pc s w"; auto simp: worker_step_def Let_def resume_def
        split: option.splits prod.splits if_splits list.splits after.splits)
  show sub: "early n s' \<subseteq> early n s"
  proof
    fix v assume "v \<in> early n s'"
    then show "v \<in> early n s" using le fun_cong [OF pc, of v] by (cases "v = w") (auto simp: early_def)
  qed
  assume "stage (p_pc s w) \<le> 1" "1 < stage (p_pc s' w)"
  then have "w \<in> early n s" "w \<notin> early n s'" using assms(2) by (auto simp: early_def)
  then have "early n s' \<subset> early n s" using sub by blast
  then show "card (early n s') < card (early n s)" by (intro psubset_card_mono) (auto simp: early_def)
qed

lemma step_COL:
  assumes B: "base_inv env slices n ys nodes h0 e0 s" and w: "w < n"
    and st: "worker_step env slices n start w s = Some s'"
  shows "COL ys s' \<subseteq> COL ys s"
proof (cases "stage (p_pc s w) = 0")
  case True
  then have "\<forall>y\<in>set ys. gc_is_collecting (p_heap s) y"
    using B w unfolding base_inv_def phase_inv_def by fastforce
  then show ?thesis by (auto simp: COL_def)
next
  case False
  have "gc_is_collecting (p_heap s) y" if "gc_is_collecting (p_heap s') y" for y
    using st False that by (cases "p_pc s w"; auto simp: worker_step_def Let_def mark_obs(3)
        split: option.splits prod.splits if_splits list.splits)
  then show ?thesis by (auto simp: COL_def)
qed

lemma run_cost_step:
  assumes st: "worker_step env slices n start w s = Some s'" and w: "w < n" and X: "COL ys s' = COL ys s"
    and l: "local_cost env n (COL ys s) nodes w s' < local_cost env n (COL ys s) nodes w s"
  shows "run_cost env n ys nodes s' < run_cost env n ys nodes s"
proof -
  have "w \<le> n" using w by simp
  from pot_sum_upd [OF this step_coordination(1) [OF st], of env "COL ys s" nodes] show ?thesis
    using l unfolding run_cost_def local_cost_def X by linarith
qed

theorem par_step_decreases:
  assumes S: "par_setup env slices n ys nodes h0" and I: "par_inv env slices n ys nodes h0 e0 d0 s"
    and w: "w < n" and st: "worker_step env slices n start w s = Some s'" and sp: "\<not> spins s w"
  shows "(par_measure env n ys nodes s', par_measure env n ys nodes s) \<in> measure_less"
proof -
  have B: "base_inv env slices n ys nodes h0 e0 s" and M: "mark_inv env n ys nodes s"
    and R: "running n s \<or> finished env n ys s" using I by (simp_all add: par_inv_def)
  have HI: "heap_inv env n ys nodes h0 s" using B by (simp add: base_inv_def)
  have H: "gc_next (p_heap s) = gc_next h0" using B by (simp add: base_inv_def heap_inv_def)
  have ok: "pc_ok env h0 (set ys) (roots env ys) n (slices ! w) (nodes w) (p_pc s w)"
    using B w by (simp add: base_inv_def pcs_inv_def)
  have sl: "slice_ok h0 (slices ! w) (nodes w)" and ns: "set (nodes w) \<subseteq> set ys"
    using S w nodes_in_ys [OF S w] by (simp_all add: par_setup_def)
  have fin: "finite (early n s)" "finite (COL ys s)" by (simp_all add: early_def COL_def)
  have le1: "card (early n s') \<le> card (early n s)" by (rule card_mono [OF fin(1) step_early(1) [OF st w]])
  have sub: "COL ys s' \<subseteq> COL ys s" by (rule step_COL [OF B w st])
  have le2: "card (COL ys s') \<le> card (COL ys s)" by (rule card_mono [OF fin(2) sub])
  have mk: "p_marking s' = 0" if "p_marking s = 0"
  proof -
    have "final (p_pc s w)" using R that w by (auto simp: running_def finished_def)
    then show ?thesis using step_coordination(2) [OF st] that by (cases "p_pc s w") auto
  qed
  consider "stage (p_pc s w) \<le> 1" "1 < stage (p_pc s' w)" | "card (COL ys s') < card (COL ys s)"
    | "p_pc s w = CoordFinish" "COL ys s' = COL ys s"
    | "stage (p_pc s w) \<le> 1 \<longrightarrow> stage (p_pc s' w) \<le> 1" "COL ys s' = COL ys s" "p_pc s w \<noteq> CoordFinish"
    using le2 card_subset_eq [OF fin(2) sub] by (meson leI le_neq_implies_less)
  then show ?thesis
  proof cases
    case 1
    then show ?thesis using step_early(2) [OF st w] by (simp add: par_measure_def measure_less_def)
  next
    case 2
    then show ?thesis using le1 by (auto simp: par_measure_def measure_less_def)
  next
    case 3
    then have "p_marking s = 1" "running n s" using R w by (auto simp: running_def finished_def)
    then have "p_marking s' = 0" using step_coordination(2) [OF st] 3 by simp
    then show ?thesis using le1 3 \<open>p_marking s = 1\<close> by (auto simp: par_measure_def measure_less_def)
  next
    case 4
    have "local_cost env n (COL ys s) nodes w s' < local_cost env n (COL ys s) nodes w s"
    proof -
      consider "stage (p_pc s w) = 0" | "stage (p_pc s w) = 1" | "stage (p_pc s w) = 2" "\<not> quiet (p_pc s w)" | "quiet (p_pc s w)"
        by (cases "p_pc s w") auto
      then show ?thesis
      proof cases
        case 1
        then show ?thesis using 4(1) by (intro sub_local_cost [where nodes = nodes, OF sl H ok st]) auto
      next
        case 2
        then have "1 < stage (p_pc s' w)"
          using st by (cases "p_pc s w") (auto simp: worker_step_def Let_def split: if_splits)
        then show ?thesis using 2 4(1) by simp
      next
        case 3
        show ?thesis
        proof (rule mark_local_cost [where nodes = nodes, OF sl H w ok ns st 3 refl 4(2) _ refl])
          fix k op ops assume c: "p_pc s w = Visit k (op # ops)" "is_gc env op" "gc_is_collecting (p_heap s) (AS_GC op)"
          have "mark_pend env (p_pc s w) \<subseteq> PEND env n s" using w by (auto simp: PEND_def)
          then have "AS_GC op \<in> live_refs env ys" using M c(1,2) by (auto simp: mark_inv_def)
          then show "AS_GC op \<in> set ys" using c(3) collecting_in_ys [OF S HI] by (auto simp: live_refs_def)
        qed
      next
        case 4
        show ?thesis
        proof (rule quiet_local_cost [OF w st 4])
          show "\<not> (p_pc s w = CoordLoad \<and> p_marking s \<noteq> 1)" using sp by (simp add: spins_def)
          show "p_pc s w \<noteq> CoordFinish" by fact
          fix i a m assume c: "p_pc s w = CoordSum i a m"
          then have "running n s" using R w by (auto simp: finished_def)
          then show "0 \<le> m" using c w by (fastforce simp: running_def)
        qed
      qed
    qed
    from run_cost_step [OF st w 4(2) this] show ?thesis
      using le1 4(2) mk by (auto simp: par_measure_def measure_less_def)
  qed
qed

section \<open>No deadlock, and every run can be completed\<close>

fun blocked :: "par \<Rightarrow> pc \<Rightarrow> bool" where
  "blocked s (MarkBarrierWait e) = (\<not> Ci_Barrier_Passed (p_mark_barrier s) e)"
| "blocked s WaitSema = (p_sema s = 0)"
| "blocked s (DoneBarrierWait e) = (\<not> Ci_Barrier_Passed (p_done_barrier s) e)"
| "blocked s Exit = True"
| "blocked s _ = False"

lemma worker_enabled: "\<not> blocked s (p_pc s w) \<Longrightarrow> \<exists>s'. worker_step env slices n start w s = Some s'"
  by (cases "p_pc s w") (auto simp: worker_step_def Let_def Ci_Sema_Wait_def split: option.splits prod.splits list.splits)

definition main_ok :: "nat \<Rightarrow> par \<Rightarrow> bool" where
  "main_ok n s \<longleftrightarrow> p_pc s n = DoneBarrier \<or> p_pc s n = Exit \<or> (\<exists>e. p_pc s n = DoneBarrierWait e)"

lemma main_ok_worker:
  assumes "worker_step env slices n start w s = Some s'" "w < n" "main_ok n s" shows "main_ok n s'"
proof -
  have "p_pc s' = (p_pc s)(w := p_pc s' w)" by (rule step_coordination(1) [OF assms(1)])
  from fun_cong [OF this, of n] show ?thesis using assms(2,3) by (simp add: main_ok_def)
qed

lemma main_ok_main: "main_step n s = Some s' \<Longrightarrow> main_ok n s'"
  by (auto simp: main_step_def main_ok_def split: pc.splits option.splits prod.splits if_splits)

lemma running_progress:
  assumes R: "running n s" and C: "coord_inv n s" and B: "base_inv env slices n ys nodes h0 e0 s"
  shows "\<exists>w<n. \<not> spins s w \<and> \<not> blocked s (p_pc s w)"
proof (rule ccontr)
  assume "\<not> ?thesis"
  then have stuck: "\<And>w. w < n \<Longrightarrow> spins s w \<or> blocked s (p_pc s w)" by blast
  have early: "stage (p_pc s v) \<noteq> 0" if "v < n" for v using stuck [OF that] by (cases "p_pc s v") (auto simp: spins_def)
  then have "at_stage n s 0 = {}" by (auto simp: at_stage_def)
  then have "epoch (p_mark_barrier s) \<noteq> e0" "\<And>w e. w < n \<Longrightarrow> p_pc s w = MarkBarrierWait e \<Longrightarrow> e = e0"
    using B unfolding base_inv_def phase_inv_def by auto
  then have nb: "p_pc s w \<noteq> MarkBarrierWait e" if "w < n" for w e
    using stuck [OF that] that by (auto simp: Ci_Barrier_Passed_def spins_def)
  have cases: "spins s w \<or> p_pc s w = WaitSema \<and> p_sema s = 0" if "w < n" for w
    using stuck [OF that] nb [OF that] R that by (cases "p_pc s w") (auto simp: running_def)
  obtain v where v: "v < n" "p_pc s v \<noteq> WaitSema" using R by (auto simp: running_def)
  then have sp: "spins s v" using cases by blast
  have ws: "p_pc s u = WaitSema" if u: "u < n" "u \<noteq> v" for u
  proof (rule ccontr)
    assume "p_pc s u \<noteq> WaitSema"
    then have "coord (p_pc s u)" "coord (p_pc s v)" using cases [OF u(1)] sp by (auto simp: spins_def)
    then show False using C u v by (auto simp: coord_inv_def)
  qed
  have W: "waiting n s = {..<n} - {v}" using v ws by (auto simp: waiting_def)
  have "credit (p_pc s u) = 0" if "u < n" for u using cases [OF that] by (auto simp: spins_def)
  then have cr: "credits n s = 0" by (simp add: credits_def)
  have "card (waiting n s) = n - 1" unfolding W using v by simp
  then have m: "p_marking s = 1 + int (p_sema s)" using R cr v by (simp add: running_def of_nat_diff)
  show False
  proof (cases "n = 1")
    case True
    then show ?thesis using R sp m by (simp add: running_def spins_def)
  next
    case False
    then obtain u where "u < n" "u \<noteq> v" using v that [of 0] that [of 1] by (cases v) auto
    then have "p_sema s = 0" using cases [of u] ws [of u] by (simp add: spins_def)
    then show ?thesis using m sp by (simp add: spins_def)
  qed
qed

lemma finished_progress:
  assumes F: "finished env n ys s" and D: "done_inv n d0 s" and w: "w < n" "stage (p_pc s w) < 4"
  shows "\<exists>w<n. \<not> spins s w \<and> \<not> blocked s (p_pc s w)"
proof (cases "p_pc s w = WaitSema \<and> p_sema s = 0")
  case False
  then have "\<not> blocked s (p_pc s w)" "\<not> spins s w"
    using F w by (cases "p_pc s w"; auto simp: finished_def spins_def)+
  then show ?thesis using w by blast
next
  case True
  then have "w \<in> waiting n s" using w by (simp add: waiting_def)
  then have "0 < card (waiting n s)" by (auto simp: card_gt_0_iff waiting_def)
  then have "0 < credits n s" using F True by (simp add: finished_def)
  then obtain v where v: "v < n" "credit (p_pc s v) \<noteq> 0" unfolding credits_def by (metis lessThan_iff neq0_conv sum.neutral)
  then have "\<not> blocked s (p_pc s v)" "\<not> spins s v" by (cases "p_pc s v"; auto simp: spins_def)+
  then show ?thesis using v by blast
qed

theorem par_progress:
  assumes S: "par_setup env slices n ys nodes h0" and I: "par_inv env slices n ys nodes h0 e0 d0 s"
    and m: "main_ok n s" "p_pc s n \<noteq> Exit"
  shows "(\<exists>w<n. \<not> spins s w \<and> (\<forall>start. \<exists>s'. worker_step env slices n start w s = Some s')) \<or>
    (\<exists>s'. main_step n s = Some s')"
proof (cases "\<exists>s'. main_step n s = Some s'")
  case no: False
  have D: "done_inv n d0 s" and R: "running n s \<or> finished env n ys s" and C: "coord_inv n s"
    and B: "base_inv env slices n ys nodes h0 e0 s" using I by (simp_all add: par_inv_def)
  obtain e where e: "p_pc s n = DoneBarrierWait e" "\<not> Ci_Barrier_Passed (p_done_barrier s) e"
    using m no by (auto simp: main_ok_def main_step_def split: option.splits prod.splits if_splits)
  have "e = d0" using D e(1) by (auto simp: done_inv_def)
  then have "epoch (p_done_barrier s) = d0" using e(2) by (simp add: Ci_Barrier_Passed_def)
  then have "not_arrived n s \<noteq> {}" using D by (auto simp: done_inv_def)
  then obtain w where w: "w \<le> n" "stage (p_pc s w) < 4" by (auto simp: not_arrived_def)
  then have "w < n" using e(1) by (cases "w = n") auto
  then have "\<exists>w<n. \<not> spins s w \<and> \<not> blocked s (p_pc s w)"
    using R running_progress [OF _ C B] finished_progress [OF _ D _ w(2)] by blast
  then show ?thesis using worker_enabled by blast
qed blast

lemma main_step_decreases:
  assumes "main_step n s = Some s'"
  shows "(par_measure env n ys nodes s', par_measure env n ys nodes s) \<in> measure_less"
proof -
  obtain c where pc: "p_pc s' = (p_pc s)(n := c)" and lt: "pot env n (COL ys s) (nodes n) c < pot env n (COL ys s) (nodes n) (p_pc s n)"
    and fr: "p_heap s' = p_heap s" "p_deque s' = p_deque s" "p_marking s' = p_marking s" "p_sema s' = p_sema s"
    using assms by (auto simp: main_step_def split: pc.splits option.splits prod.splits if_splits)
  have X: "COL ys s' = COL ys s" "early n s' = early n s" using fr pc by (auto simp: COL_def early_def)
  have "run_cost env n ys nodes s' < run_cost env n ys nodes s"
    using pot_sum_upd [OF le_refl pc, of env "COL ys s" nodes] lt fr queue_cost_same [OF fr(2), of env n]
    unfolding run_cost_def X by simp
  then show ?thesis using X fr by (simp add: par_measure_def measure_less_def)
qed

lemma par_run_trans: "par_run env slices n s1 s2 \<Longrightarrow> par_run env slices n s s1 \<Longrightarrow> par_run env slices n s s2"
  by (induction rule: par_run.induct) (auto intro: par_run.intros)

theorem par_can_finish:
  assumes S: "par_setup env slices n ys nodes h0" and I: "par_inv env slices n ys nodes h0 e0 d0 s" and m: "main_ok n s"
  shows "\<exists>s'. par_run env slices n s s' \<and> p_pc s' n = Exit"
  using I m
proof (induction "par_measure env n ys nodes s" arbitrary: s rule: wf_induct_rule [OF wf_measure_less])
  case (1 s)
  show ?case
  proof (cases "p_pc s n = Exit")
    case False
    have "\<exists>s1. par_run env slices n s s1 \<and> (par_measure env n ys nodes s1, par_measure env n ys nodes s) \<in> measure_less \<and>
        par_inv env slices n ys nodes h0 e0 d0 s1 \<and> main_ok n s1"
      using par_progress [OF S 1(2,3) False]
    proof (elim disjE exE conjE)
      fix w assume w: "w < n" "\<not> spins s w" "\<forall>start. \<exists>s'. worker_step env slices n start w s = Some s'"
      then obtain s1 where st: "worker_step env slices n 0 w s = Some s1" by blast
      have "par_run env slices n s s1" by (rule par_run.intros(2) [OF par_run.intros(1) w(1) st])
      then show ?thesis using par_step_decreases [OF S 1(2) w(1) st w(2)] par_inv_worker [OF S 1(2) w(1) st]
          main_ok_worker [OF st w(1) 1(3)] by blast
    next
      fix s1 assume st: "main_step n s = Some s1"
      have "par_run env slices n s s1" by (rule par_run.intros(3) [OF par_run.intros(1) st])
      then show ?thesis using main_step_decreases [OF st] par_inv_main [OF S 1(2) st] main_ok_main [OF st] by blast
    qed
    then obtain s1 where s1: "par_run env slices n s s1" "(par_measure env n ys nodes s1, par_measure env n ys nodes s) \<in> measure_less"
      "par_inv env slices n ys nodes h0 e0 d0 s1" "main_ok n s1" by blast
    from 1(1) [OF s1(2-4)] show ?thesis using par_run_trans [OF _ s1(1)] by blast
  qed (use par_run.intros(1) in blast)
qed

lemma main_ok_run: "par_run env slices n s s' \<Longrightarrow> main_ok n s \<Longrightarrow> main_ok n s'"
  by (induction rule: par_run.induct) (auto intro: main_ok_worker main_ok_main)

lemma main_ok_start: "main_ok n (start_workers n h s)"
  by (simp add: main_ok_def start_workers_def)

theorem par_run_completes:
  assumes S: "par_setup env slices n ys nodes h0" and P: "par_idle n s"
    and r: "par_run env slices n (start_workers n h0 s) s1"
  shows "\<exists>s'. par_run env slices n s1 s' \<and> p_pc s' n = Exit"
  using par_can_finish [OF S par_inv_run [OF S r par_inv_start [OF S P]] main_ok_run [OF r main_ok_start]] .

theorem deduce_parallel_returns:
  assumes r: "gc_ready env h perm ps base xs unr" and P: "par_idle n s"
    and n: "0 < n" "n + 1 < 2 ^ 32" and m: "length xs < 2 ^ 31" and nz: "0 \<notin> set xs"
  shows "\<exists>s' h'. Ci_deduce_unreachable_parallel env perm n s h base unr s' h'"
proof -
  let ?ys = "collected env xs"
  obtain h1 h2 where u: "update_refs env perm h base = Some (h1, length ?ys)"
    and c: "refs_copied env h base xs perm ps xs [] h1"
    and sub: "subtracted (set ?ys) (internal_refs env ?ys) h1 h2"
    using update_subtract_counts [OF r] by blast
  have "length ?ys \<le> length xs" by (simp add: collected_def)
  then have len: "length ?ys < 2 ^ 31" using m by linarith
  then have cnt: "to_uint (length ?ys) = length ?ys" "to_int (length ?ys) = int (length ?ys)"
    by (simp_all add: to_uint_def to_int_def)
  have nz': "0 \<notin> set ?ys" using nz by (simp add: collected_def)
  have seg: "gc_seg h1 base ?ys []" using c by (simp add: refs_copied_def collected_def)
  have d: "distinct (base # ?ys)" and l: "links (gc_next h1) (base # ?ys @ [base])"
    using seg by (simp_all add: gc_seg_def)
  show ?thesis
  proof (cases "length ?ys < n")
    case True
    obtain h2 where "Ci_restore_prev_ptrs h1 base = Some h2" using restore_prev_ptrs_list [OF seg] by blast
    then show ?thesis using u cnt True restored_deduces [OF r c]
      by (metis Ci_deduce_unreachable_parallel.few)
  next
    case False
    then have le: "n \<le> length ?ys" by simp
    note sl = assign_slices [OF n(1) le nz' d l]
    have S: "par_setup env (slice_list n base ?ys) n ?ys (slice_nodes n ?ys) h1"
      by (rule copied_setup [OF r c refl n le])
    obtain s' where run: "par_run env (slice_list n base ?ys) n (start_workers n h1 s) s'" "p_pc s' n = Exit"
      using par_run_completes [OF S P par_run.intros(1)] by blast
    note M = par_run_marks [OF S P run]
    obtain h' where "Ci_move_unreachable_parallel (gc_list_init (p_heap s') unr) base unr = Some h'"
      using marked_heap_moves [OF r c sub refl M(2,1,4)] by blast
    then show ?thesis using u False cnt sl run
      by (metis Ci_deduce_unreachable_parallel.many)
  qed
qed

lemma parallel_start:
  assumes r: "gc_ready env h perm ps base xs unr" and P: "par_idle n s"
    and n: "0 < n" "n + 1 < 2 ^ 32" and m: "length xs < 2 ^ 31" and nz: "0 \<notin> set xs" and le: "n \<le> length (collected env xs)"
  shows "\<exists>h1 seen slices ys nodes. update_refs env perm h base = Some (h1, seen) \<and>
    Ci_assign_worker_slices h1 n base (to_int (to_uint seen)) = Some slices \<and> par_setup env slices n ys nodes h1"
proof -
  let ?ys = "collected env xs"
  obtain h1 where u: "update_refs env perm h base = Some (h1, length ?ys)"
    and c: "refs_copied env h base xs perm ps xs [] h1"
    using update_subtract_counts [OF r] by blast
  have "length ?ys \<le> length xs" by (simp add: collected_def)
  then have len: "length ?ys < 2 ^ 31" using m by linarith
  then have cnt: "to_int (to_uint (length ?ys)) = int (length ?ys)" by (simp add: to_uint_def to_int_def)
  have nz': "0 \<notin> set ?ys" using nz by (simp add: collected_def)
  have seg: "gc_seg h1 base ?ys []" using c by (simp add: refs_copied_def collected_def)
  have d: "distinct (base # ?ys)" and l: "links (gc_next h1) (base # ?ys @ [base])"
    using seg by (simp_all add: gc_seg_def)
  show ?thesis
    using u assign_slices [OF n(1) le nz' d l] copied_setup [OF r c refl n le] by (auto simp: cnt)
qed

theorem no_infinite_run:
  assumes S: "par_setup env slices n ys nodes h0" and P: "par_idle n s"
  shows "\<not> (\<exists>f. f 0 = start_workers n h0 s \<and>
        (\<forall>i. (\<exists>w<n. \<exists>start. \<not> spins (f i) w \<and> worker_step env slices n start w (f i) = Some (f (Suc i))) \<or>
             main_step n (f i) = Some (f (Suc i))))"
proof
  assume "\<exists>f. f 0 = start_workers n h0 s \<and>
        (\<forall>i. (\<exists>w<n. \<exists>start. \<not> spins (f i) w \<and> worker_step env slices n start w (f i) = Some (f (Suc i))) \<or>
             main_step n (f i) = Some (f (Suc i)))"
  then obtain f where f0: "f 0 = start_workers n h0 s"
    and st: "\<And>i. (\<exists>w<n. \<exists>start. \<not> spins (f i) w \<and> worker_step env slices n start w (f i) = Some (f (Suc i))) \<or>
             main_step n (f i) = Some (f (Suc i))" by blast
  let ?I = "par_inv env slices n ys nodes h0 (epoch (p_mark_barrier s)) (epoch (p_done_barrier s))"
  have I: "?I (f i)" for i
  proof (induction i)
    case 0
    then show ?case using par_inv_start [OF S P] f0 by simp
  next
    case (Suc i)
    then show ?case using st [of i] par_inv_worker [OF S Suc] par_inv_main [OF S Suc] by blast
  qed
  have "(par_measure env n ys nodes (f (Suc i)), par_measure env n ys nodes (f i)) \<in> measure_less" for i
    using st [of i] par_step_decreases [OF S I] main_step_decreases by blast
  then have "\<exists>g. \<forall>i. (g (Suc i), g i) \<in> measure_less"
    by (intro exI [of _ "\<lambda>i. par_measure env n ys nodes (f i)"]) simp
  then show False using wf_measure_less unfolding wf_iff_no_infinite_down_chain by blast
qed

end
