(* ===== verification/GC_Generations.thy ===== *)
theory GC_Generations
  imports GC_Collect GC_Progress
begin

text \<open>
  The first half of \<open>gc_collect_main\<close>, up to the point where finalizers run: the younger generations are merged into
  the one that is collected, its unreachable objects are found by the serial or by the parallel collector, what is
  reachable goes to the next older generation, and the objects with a legacy finalizer are set aside.

  The tests for tuples and dictionaries and \<open>_PyTuple_MaybeUntrack\<close> and \<open>_PyDict_MaybeUntrack\<close>, which may take an object
  out of its list, are a parameter. Printing and the time are left out.
\<close>

section \<open>Definitions\<close>

record gcuntrack =
  PyTuple_CheckExact :: "addr \<Rightarrow> bool"
  PyTuple_MaybeUntrack :: "addr \<Rightarrow> gcheap \<Rightarrow> gcheap"
  PyDict_CheckExact :: "addr \<Rightarrow> bool"
  PyDict_MaybeUntrack :: "addr \<Rightarrow> gcheap \<Rightarrow> gcheap"

definition untrack_tuples :: "gcuntrack \<Rightarrow> gcheap \<Rightarrow> addr \<Rightarrow> gcheap option" where
  "untrack_tuples u h head =
     gc_while head
       (\<lambda>gc h. let op = FROM_GC gc; nxt = GC_NEXT h gc
               in (nxt, if PyTuple_CheckExact u op then PyTuple_MaybeUntrack u op h else h))
       (GC_NEXT h head) h"

definition untrack_dicts :: "gcuntrack \<Rightarrow> gcheap \<Rightarrow> addr \<Rightarrow> gcheap option" where
  "untrack_dicts u h head =
     gc_while head
       (\<lambda>gc h. let op = FROM_GC gc; nxt = GC_NEXT h gc
               in (nxt, if PyDict_CheckExact u op then PyDict_MaybeUntrack u op h else h))
       (GC_NEXT h head) h"

definition NUM_GENERATIONS :: nat where
  "NUM_GENERATIONS = 3"

record GCState =
  GEN_HEAD :: "nat \<Rightarrow> addr"
  gen_count :: "nat \<Rightarrow> int"
  long_lived_pending :: nat
  long_lived_total :: nat

text \<open>The parallel collector: the youngest generation it is used for, the number of workers and their shared state.\<close>

type_synonym par_gc = "(nat \<times> nat \<times> par) option"

definition Ci_should_use_par_gc :: "par_gc \<Rightarrow> nat \<Rightarrow> bool" where
  "Ci_should_use_par_gc par_gc gen = (case par_gc of None \<Rightarrow> False | Some (min_gen, _) \<Rightarrow> gen \<ge> min_gen)"

definition collect_merge :: "nat \<Rightarrow> GCState \<times> gcheap \<Rightarrow> GCState \<times> gcheap" where
  "collect_merge generation st =
    (let (gs, h) = st;
         gs = (if generation + 1 < NUM_GENERATIONS
               then gs\<lparr>gen_count := (gen_count gs)(generation + 1 := gen_count gs (generation + 1) + 1)\<rparr> else gs);
         gs = gs\<lparr>gen_count := fold (\<lambda>i c. c(i := 0)) [0..<generation + 1] (gen_count gs)\<rparr>
     in (gs, fold (\<lambda>i h. gc_list_merge h (GEN_HEAD gs i) (GEN_HEAD gs generation)) [0..<generation] h))"

definition old_head :: "GCState \<Rightarrow> nat \<Rightarrow> addr" where
  "old_head gs generation =
    (if generation < NUM_GENERATIONS - 1 then GEN_HEAD gs (generation + 1) else GEN_HEAD gs generation)"

inductive collect_deduce ::
  "gcenv \<Rightarrow> addr \<Rightarrow> par_gc \<Rightarrow> nat \<Rightarrow> gcheap \<Rightarrow> addr \<Rightarrow> addr \<Rightarrow> par_gc \<Rightarrow> gcheap \<Rightarrow> bool" where
  parallel: "Ci_should_use_par_gc (Some (min_gen, n, s)) gen \<Longrightarrow>
    Ci_deduce_unreachable_parallel env permanent n s h young unreachable s' h' \<Longrightarrow>
    collect_deduce env permanent (Some (min_gen, n, s)) gen h young unreachable (Some (min_gen, n, s')) h'"
| serial: "\<not> Ci_should_use_par_gc par_gc gen \<Longrightarrow>
    deduce_unreachable env permanent h young unreachable = Some h' \<Longrightarrow>
    collect_deduce env permanent par_gc gen h young unreachable par_gc h'"

definition collect_promote :: "gcuntrack \<Rightarrow> nat \<Rightarrow> GCState \<times> gcheap \<Rightarrow> (GCState \<times> gcheap) option" where
  "collect_promote u generation st =
    (let (gs, h) = st; young = GEN_HEAD gs generation; old = old_head gs generation in
     Option.bind (untrack_tuples u h young) (\<lambda>h.
       if young \<noteq> old
       then Option.bind
              (if generation = NUM_GENERATIONS - 2
               then map_option (\<lambda>n. gs\<lparr>long_lived_pending := long_lived_pending gs + n\<rparr>) (gc_list_size h young)
               else Some gs)
              (\<lambda>gs. Some (gs, gc_list_merge h young old))
       else Option.bind (untrack_dicts u h young) (\<lambda>h.
            Option.bind (gc_list_size h young) (\<lambda>n.
            Some (gs\<lparr>long_lived_pending := 0, long_lived_total := n\<rparr>, h)))))"

definition collect_legacy :: "gcenv \<Rightarrow> addr \<Rightarrow> addr \<Rightarrow> gcheap \<Rightarrow> gcheap option" where
  "collect_legacy env unreachable finalizers h =
     Option.bind (move_legacy_finalizers env (gc_list_init h finalizers) unreachable finalizers) (\<lambda>h.
     move_legacy_finalizer_reachable env h finalizers)"

inductive gc_collect_find ::
  "gcenv \<Rightarrow> gcuntrack \<Rightarrow> addr \<Rightarrow> addr \<Rightarrow> addr \<Rightarrow> nat \<Rightarrow> par_gc \<times> GCState \<times> gcheap \<Rightarrow> par_gc \<times> GCState \<times> gcheap \<Rightarrow> bool"
  for env u permanent unreachable finalizers generation where
  "collect_merge generation (gs, h) = (gs1, h1) \<Longrightarrow>
   collect_deduce env permanent par_gc generation h1 (GEN_HEAD gs1 generation) unreachable par_gc' h2 \<Longrightarrow>
   collect_promote u generation (gs1, h2) = Some (gs2, h3) \<Longrightarrow>
   collect_legacy env unreachable finalizers h3 = Some h4 \<Longrightarrow>
   gc_collect_find env u permanent unreachable finalizers generation (par_gc, gs, h) (par_gc', gs2, h4)"

section \<open>Untracking\<close>

definition untracks :: "(addr \<Rightarrow> gcheap \<Rightarrow> gcheap) \<Rightarrow> bool" where
  "untracks f \<longleftrightarrow> (\<forall>op h l as bs. gc_list h l (as @ AS_GC op # bs) \<longrightarrow>
     f op h = h \<or>
     gc_list (f op h) l (as @ bs) \<and> (\<forall>a. a \<notin> set (l # as @ AS_GC op # bs) \<longrightarrow> same_at h (f op h) a) \<and>
     (\<forall>a. a \<noteq> l \<longrightarrow> gc_is_collecting (f op h) a \<longrightarrow> gc_is_collecting h a))"

definition untracked :: "(addr \<Rightarrow> bool) \<Rightarrow> gcheap \<Rightarrow> addr \<Rightarrow> addr list \<Rightarrow> gcheap \<Rightarrow> addr list \<Rightarrow> bool" where
  "untracked p h l xs h' ys \<longleftrightarrow> gc_list h' l ys \<and> subseq ys xs \<and> (\<forall>x\<in>set xs - set ys. p (FROM_GC x)) \<and>
     (\<forall>a. a \<notin> set (l # xs) \<longrightarrow> same_at h h' a) \<and> (\<forall>a. a \<noteq> l \<longrightarrow> gc_is_collecting h' a \<longrightarrow> gc_is_collecting h a)"

lemma untrack_walk:
  assumes u: "untracks f" and l: "gc_list h l xs"
  shows "\<exists>h' ys. gc_while l (\<lambda>gc h. let op = FROM_GC gc; nxt = GC_NEXT h gc in (nxt, if p op then f op h else h))
      (GC_NEXT h l) h = Some h' \<and> untracked p h l xs h' ys"
proof -
  let ?body = "\<lambda>gc h. let op = FROM_GC gc; nxt = GC_NEXT h gc in (nxt, if p op then f op h else h)"
  let ?Q = "\<lambda>as bs h'. xs = as @ bs \<and> (\<exists>ys. gc_list h' l (ys @ bs) \<and> subseq ys as \<and> (\<forall>x\<in>set as - set ys. p (FROM_GC x)) \<and>
     (\<forall>a. a \<notin> set (l # xs) \<longrightarrow> same_at h h' a) \<and> (\<forall>a. a \<noteq> l \<longrightarrow> gc_is_collecting h' a \<longrightarrow> gc_is_collecting h a))"
  have "\<exists>h'. gc_while l ?body (hd (xs @ [l])) h = Some h' \<and> ?Q ([] @ xs) [] h'"
  proof (rule gc_while_walk [where Q = ?Q])
    show "l \<notin> set xs" using l by (simp add: gc_list_def)
    show "?Q [] xs h" using l by (intro conjI exI [of _ "[]"]) (simp_all add: same_at_def)
    fix as b bs h1 assume Q: "?Q as (b # bs) h1"
    then obtain ys where x: "xs = as @ b # bs" and y: "gc_list h1 l (ys @ b # bs)" "subseq ys as"
      "\<forall>x\<in>set as - set ys. p (FROM_GC x)" "\<And>a. a \<notin> set (l # xs) \<Longrightarrow> same_at h h1 a"
      "\<And>a. a \<noteq> l \<Longrightarrow> gc_is_collecting h1 a \<Longrightarrow> gc_is_collecting h a" by blast
    have nx: "GC_NEXT h1 b = hd (bs @ [l])" using gc_list_neighbours(2) [OF y(1)] .
    have keep: "?Q (as @ [b]) bs h1"
      using x y(1,4,5) list_emb_append_mono [OF y(2), of "[b]" "[b]"] y(3) by (intro conjI exI [of _ "ys @ [b]"]) auto
    show "\<exists>h'. ?body b h1 = (hd (bs @ [l]), h') \<and> ?Q (as @ [b]) bs h'"
    proof (cases "p (FROM_GC b) \<and> f (FROM_GC b) h1 \<noteq> h1")
      case False
      then have "?body b h1 = (hd (bs @ [l]), h1)" using nx by (auto simp: Let_def)
      then show ?thesis using keep by blast
    next
      case True
      let ?h = "f (FROM_GC b) h1"
      have "gc_list h1 l (ys @ AS_GC (FROM_GC b) # bs)" using y(1) by simp
      from u [unfolded untracks_def, rule_format, OF this] True
      have k: "gc_list ?h l (ys @ bs)" "\<And>a. a \<notin> set (l # ys @ b # bs) \<Longrightarrow> same_at h1 ?h a"
        "\<And>a. a \<noteq> l \<Longrightarrow> gc_is_collecting ?h a \<Longrightarrow> gc_is_collecting h1 a" by simp_all
      have "same_at h ?h a" if a: "a \<notin> set (l # xs)" for a
      proof (rule same_at_trans [OF y(4) [OF a] k(2)])
        show "a \<notin> set (l # ys @ b # bs)" using a x subseq_set [OF y(2)] by auto
      qed
      moreover have "subseq ys (as @ [b])" using list_emb_append_mono [OF y(2), of "[]" "[b]"] by simp
      ultimately have "?Q (as @ [b]) bs ?h"
        using x y(3,5) k True by (intro conjI exI [of _ ys]) auto
      moreover have "?body b h1 = (hd (bs @ [l]), ?h)" using nx True by (simp add: Let_def)
      ultimately show ?thesis by blast
    qed
  qed
  then obtain h' ys where "gc_while l ?body (hd (xs @ [l])) h = Some h'" "untracked p h l xs h' ys"
    unfolding untracked_def by auto
  then show ?thesis using gc_list_GC_NEXT [OF l] by auto
qed

section \<open>Merging the younger generations\<close>

lemma gc_list_merge_collecting:
  assumes f: "gc_list h from xs" and t: "gc_list h to ys" and a: "a \<noteq> from"
  shows "gc_is_collecting (gc_list_merge h from to) a = gc_is_collecting h a"
proof -
  have al: "aligned (GC_PREV h from)" "aligned (GC_PREV h to)"
    using f t by (auto simp: gc_list_GC_PREV gc_list_def)
  have "gc_is_collecting (gc_list_init h' from) a = gc_is_collecting h' a" for h'
    using a by (simp add: gc_list_init_def gc_is_collecting_def)
  then show ?thesis using al by (simp add: gc_list_merge_def Let_def)
qed

definition apart :: "(nat \<Rightarrow> addr) \<Rightarrow> (nat \<Rightarrow> addr list) \<Rightarrow> nat set \<Rightarrow> bool" where
  "apart g xs I \<longleftrightarrow> (\<forall>i\<in>I. \<forall>j\<in>I. i \<noteq> j \<longrightarrow> set (g i # xs i) \<inter> set (g j # xs j) = {})"

lemma apartD: "apart g xs I \<Longrightarrow> i \<in> I \<Longrightarrow> j \<in> I \<Longrightarrow> i \<noteq> j \<Longrightarrow> a \<in> set (g i # xs i) \<Longrightarrow> a \<notin> set (g j # xs j)"
  unfolding apart_def by blast

definition merged :: "(nat \<Rightarrow> addr list) \<Rightarrow> nat \<Rightarrow> nat \<Rightarrow> addr list" where
  "merged xs gen k = xs gen @ concat (map xs [0..<k])"

lemma merged_cases: "a \<in> set (merged xs gen k) \<Longrightarrow> k \<le> gen \<Longrightarrow> \<exists>j. j \<le> gen \<and> (j < k \<or> j = gen) \<and> a \<in> set (xs j)"
  by (auto simp: merged_def) (meson less_imp_le less_le_trans)

lemma merge_young:
  assumes "\<And>i. i \<le> gen \<Longrightarrow> gc_list h (g i) (xs i)" and "apart g xs {..gen}" and "k \<le> gen"
    and "h' = fold (\<lambda>i h. gc_list_merge h (g i) (g gen)) [0..<k] h"
  shows "gc_list h' (g gen) (merged xs gen k) \<and> (\<forall>i<k. gc_list h' (g i) []) \<and>
    (\<forall>a. a \<notin> set (g gen # xs gen) \<longrightarrow> (\<forall>i<k. a \<notin> set (g i # xs i)) \<longrightarrow> same_at h h' a) \<and>
    (\<forall>a. a \<notin> g ` {..<k} \<longrightarrow> gc_is_collecting h' a = gc_is_collecting h a)"
  using assms
proof (induction k arbitrary: h')
  case 0
  then show ?case by (simp add: merged_def same_at_def)
next
  case (Suc k)
  define h1 where "h1 = fold (\<lambda>i h. gc_list_merge h (g i) (g gen)) [0..<k] h"
  have h': "h' = gc_list_merge h1 (g k) (g gen)" using Suc.prems(4) by (simp add: h1_def)
  have k: "k < gen" using Suc.prems(3) by simp
  note ap = apartD [OF Suc.prems(2), simplified atMost_iff]
  have IH: "gc_list h1 (g gen) (merged xs gen k)" "\<And>i. i < k \<Longrightarrow> gc_list h1 (g i) []"
    "\<And>a. a \<notin> set (g gen # xs gen) \<Longrightarrow> (\<forall>i<k. a \<notin> set (g i # xs i)) \<Longrightarrow> same_at h h1 a"
    "\<And>a. a \<notin> g ` {..<k} \<Longrightarrow> gc_is_collecting h1 a = gc_is_collecting h a"
    using Suc.IH [OF Suc.prems(1,2) _ h1_def] k by simp_all
  have lk: "gc_list h1 (g k) (xs k)"
  proof (subst gc_list_same [of _ _ h])
    fix a assume a: "a \<in> set (g k # xs k)"
    have "a \<notin> set (g i # xs i)" if "i \<le> gen" "i \<noteq> k" for i using ap [OF _ that(1) that(2) [symmetric] a] k by simp
    then show "same_at h h1 a" using k by (intro IH(3)) auto
  qed (use Suc.prems(1) k in simp)
  have far: "a \<notin> set (g gen # merged xs gen k)"
    if "\<And>j. j \<le> gen \<Longrightarrow> (j < k \<or> j = gen) \<Longrightarrow> a \<notin> set (xs j)" "a \<noteq> g gen" for a
    using that merged_cases [of a xs gen k] k by auto
  have dis: "set (g k # xs k) \<inter> set (g gen # merged xs gen k) = {}"
  proof -
    have "a \<notin> set (g gen # merged xs gen k)" if a: "a \<in> set (g k # xs k)" for a
    proof (rule far)
      show "a \<notin> set (xs j)" if "j \<le> gen" "j < k \<or> j = gen" for j using ap [OF _ that(1) _ a] that k by auto
      show "a \<noteq> g gen" using ap [OF _ _ _ a, of gen] k by auto
    qed
    then show ?thesis by blast
  qed
  note m = gc_list_merge_lists [OF lk IH(1) dis, folded h']
  have same: "same_at h1 h' a" if "a \<notin> set (g k # xs k)" "a \<notin> set (g gen # merged xs gen k)" for a
    unfolding h' by (rule gc_list_merge_same [OF lk IH(1) that])
  have "gc_list h' (g i) []" if i: "i < Suc k" for i
  proof (cases "i = k")
    case False
    then have ik: "i < k" using i by simp
    have gi: "g i \<in> set (g i # xs i)" "g i \<notin> set (xs i)" using Suc.prems(1) [of i] ik k by (auto simp: gc_list_def)
    have "gc_list h' (g i) [] = gc_list h1 (g i) []"
    proof (rule gc_list_same)
      fix a assume "a \<in> set [g i]"
      moreover have "g i \<notin> set (g k # xs k)" using ap [OF _ _ _ gi(1)] ik k by simp
      moreover have "g i \<notin> set (g gen # merged xs gen k)"
      proof (rule far)
        show "g i \<notin> set (xs j)" if "j \<le> gen" "j < k \<or> j = gen" for j
          using ap [OF _ that(1) _ gi(1)] gi(2) ik k by (cases "j = i") auto
        show "g i \<noteq> g gen" using ap [OF _ _ _ gi(1), of gen] ik k by auto
      qed
      ultimately show "same_at h1 h' a" using same by simp
    qed
    then show ?thesis using IH(2) [OF ik] by simp
  qed (use m(2) in simp)
  moreover have "same_at h h' a" if a: "a \<notin> set (g gen # xs gen)" "\<forall>i<Suc k. a \<notin> set (g i # xs i)" for a
  proof (rule same_at_trans [OF IH(3) same])
    show "a \<notin> set (g gen # merged xs gen k)" using a k by (intro far) auto
  qed (use a in auto)
  moreover have "gc_is_collecting h' a = gc_is_collecting h a" if "a \<notin> g ` {..<Suc k}" for a
    using that IH(4) [of a] gc_list_merge_collecting [OF lk IH(1), of a] by (simp add: h' lessThan_Suc)
  moreover have "merged xs gen (Suc k) = merged xs gen k @ xs k" by (simp add: merged_def)
  ultimately show ?case using m(1) by auto
qed

section \<open>One collection\<close>

definition collect_ready ::
  "gcenv \<Rightarrow> gcheap \<Rightarrow> addr \<Rightarrow> addr list \<Rightarrow> (nat \<Rightarrow> addr) \<Rightarrow> (nat \<Rightarrow> addr list) \<Rightarrow> nat \<Rightarrow> addr \<Rightarrow> addr \<Rightarrow> bool" where
  "collect_ready env h perm ps g xs gen unr fin \<longleftrightarrow>
     gen < 3 \<and> (\<forall>i<3. gc_list h (g i) (xs i)) \<and> apart g xs {..<3} \<and> gc_list h perm ps \<and> aligned unr \<and> aligned fin \<and>
     unr \<noteq> fin \<and> {unr, fin} \<inter> set (perm # ps) = {} \<and> (\<forall>i<3. set (g i # xs i) \<inter> set (unr # fin # perm # ps) = {}) \<and>
     (\<forall>y\<in>set (collected env (merged xs gen gen)).
        internal_refs env (collected env (merged xs gen gen)) y \<le> refcnt env y \<and> refcnt env y < 2 ^ 62 \<and>
        (\<forall>a\<in>set (referents env y). a \<notin> g ` {..<3} \<union> {unr, fin, perm} \<and>
           (a \<notin> set (collected env (merged xs gen gen)) \<longrightarrow> \<not> gc_is_collecting h a)))"

lemma collect_merge_ready:
  assumes r: "collect_ready env h perm ps g xs gen unr fin" and g: "GEN_HEAD gs = g"
    and st: "collect_merge gen (gs, h) = (gs1, h1)"
  shows "gc_ready env h1 perm ps (g gen) (merged xs gen gen) unr" "\<And>i. i < gen \<Longrightarrow> gc_list h1 (g i) []"
    "\<And>i. gen < i \<Longrightarrow> i < 3 \<Longrightarrow> gc_list h1 (g i) (xs i)"
    "\<And>a. a \<notin> g ` {..<gen} \<Longrightarrow> gc_is_collecting h1 a = gc_is_collecting h a" "GEN_HEAD gs1 = g"
proof -
  let ?M = "merged xs gen gen"
  have R: "gen < 3" "\<And>i. i < 3 \<Longrightarrow> gc_list h (g i) (xs i)" "apart g xs {..<3}" "gc_list h perm ps" "aligned unr"
    "{unr, fin} \<inter> set (perm # ps) = {}" "\<And>i. i < 3 \<Longrightarrow> set (g i # xs i) \<inter> set (unr # fin # perm # ps) = {}"
    using r unfolding collect_ready_def by blast+
  have h1: "h1 = fold (\<lambda>i h. gc_list_merge h (g i) (g gen)) [0..<gen] h" and g1: "GEN_HEAD gs1 = g"
    using st g by (auto simp: collect_merge_def Let_def split: if_splits)
  have "apart g xs {..gen}" using R(1,3) unfolding apart_def by (meson atMost_iff le_less_trans lessThan_iff)
  from merge_young [OF _ this _ h1] R(1,2)
  have m: "gc_list h1 (g gen) ?M" "\<And>i. i < gen \<Longrightarrow> gc_list h1 (g i) []"
    "\<And>a. a \<notin> set (g gen # xs gen) \<Longrightarrow> (\<forall>i<gen. a \<notin> set (g i # xs i)) \<Longrightarrow> same_at h h1 a"
    "\<And>a. a \<notin> g ` {..<gen} \<Longrightarrow> gc_is_collecting h1 a = gc_is_collecting h a" by simp_all
  have keep: "gc_list h1 l zs" if "gc_list h l zs" "\<And>i a. i \<le> gen \<Longrightarrow> a \<in> set (l # zs) \<Longrightarrow> a \<notin> set (g i # xs i)" for l zs
  proof (subst gc_list_same [of _ _ h])
    show "same_at h h1 a" if "a \<in> set (l # zs)" for a
      using \<open>\<And>i a. i \<le> gen \<Longrightarrow> a \<in> set (l # zs) \<Longrightarrow> a \<notin> set (g i # xs i)\<close> that by (intro m(3)) auto
  qed (rule that(1))
  have far: "a \<notin> set (g i # xs i)" if "a \<in> set (unr # fin # perm # ps)" "i \<le> gen" for a i
    using R(7) [of i] that R(1) by (meson disjoint_iff le_less_trans)
  have "gc_list h1 perm ps" using far by (intro keep [OF R(4)]) auto
  moreover have "distinct (unr # g gen # ?M @ perm # ps)"
  proof -
    have "\<exists>i\<le>gen. a \<in> set (g i # xs i)" if "a \<in> set (g gen # ?M)" for a using that merged_cases [of a xs gen gen] by auto
    then have "set (g gen # ?M) \<inter> set (unr # perm # ps) = {}" using far by fastforce
    then show ?thesis using m(1) R(4,6) by (auto simp: gc_list_def)
  qed
  moreover have "\<not> gc_is_collecting h1 a" if "a \<notin> g ` {..<3}" "\<not> gc_is_collecting h a" for a
  proof -
    have "g ` {..<gen} \<subseteq> g ` {..<3}" using R(1) by (intro image_mono) auto
    then have "a \<notin> g ` {..<gen}" using that(1) by (meson subsetD)
    from m(4) [OF this] show ?thesis using that(2) by simp
  qed
  moreover have "internal_refs env (collected env ?M) y \<le> refcnt env y \<and> refcnt env y < 2 ^ 62 \<and>
      (\<forall>a\<in>set (referents env y). a \<notin> g ` {..<3} \<union> {unr, fin, perm} \<and>
         (a \<notin> set (collected env ?M) \<longrightarrow> \<not> gc_is_collecting h a))" if "y \<in> set (collected env ?M)" for y
    using r that unfolding collect_ready_def by blast
  moreover have "g gen \<in> g ` {..<3}" using R(1) by simp
  ultimately show "gc_ready env h1 perm ps (g gen) ?M unr"
    using m(1) R(5) unfolding gc_ready_def by blast
  show "\<And>i. i < gen \<Longrightarrow> gc_list h1 (g i) []" "\<And>a. a \<notin> g ` {..<gen} \<Longrightarrow> gc_is_collecting h1 a = gc_is_collecting h a"
    "GEN_HEAD gs1 = g" by (rule m(2), assumption) (rule m(4), assumption, rule g1)
  show "gc_list h1 (g i) (xs i)" if i: "gen < i" "i < 3" for i
  proof (rule keep [OF R(2) [OF i(2)]])
    show "a \<notin> set (g j # xs j)" if "j \<le> gen" "a \<in> set (g i # xs i)" for j a
      using apartD [OF R(3), of i j a] that i by simp
  qed
qed

definition par_ok :: "par_gc \<Rightarrow> addr list \<Rightarrow> bool" where
  "par_ok par_gc xs =
    (case par_gc of None \<Rightarrow> True
     | Some (min_gen, n, s) \<Rightarrow> par_idle n s \<and> 0 < n \<and> n + 1 < 2 ^ 32 \<and> length xs < 2 ^ 31 \<and> 0 \<notin> set xs)"

lemma collect_deduce_deduces:
  assumes r: "gc_ready env h perm ps base xs unr" and p: "par_ok par_gc xs"
  shows "\<exists>par_gc' h'. collect_deduce env perm par_gc gen h base unr par_gc' h'"
    and "collect_deduce env perm par_gc gen h base unr par_gc' h' \<Longrightarrow>
      par_ok par_gc' xs \<and> (\<exists>D U. deduced env h perm ps base xs unr h' D U)"
proof -
  show "\<exists>par_gc' h'. collect_deduce env perm par_gc gen h base unr par_gc' h'"
  proof (cases "Ci_should_use_par_gc par_gc gen")
    case True
    then obtain mg n s where par: "par_gc = Some (mg, n, s)" by (auto simp: Ci_should_use_par_gc_def split: option.splits)
    then have "par_idle n s" "0 < n" "n + 1 < 2 ^ 32" "length xs < 2 ^ 31" "0 \<notin> set xs" using p by (simp_all add: par_ok_def)
    from deduce_parallel_returns [OF r this] show ?thesis using True par collect_deduce.parallel by blast
  next
    case False
    then show ?thesis using deduce_unreachable_deduces [OF r] collect_deduce.serial by blast
  qed
  assume "collect_deduce env perm par_gc gen h base unr par_gc' h'"
  then show "par_ok par_gc' xs \<and> (\<exists>D U. deduced env h perm ps base xs unr h' D U)"
  proof cases
    case (parallel mg n s s')
    then have o: "par_idle n s" "0 < n" "n + 1 < 2 ^ 32" "length xs < 2 ^ 31" "0 \<notin> set xs" using p by (simp_all add: par_ok_def)
    show ?thesis using deduce_parallel_deduces [OF r o parallel(4)] o by (simp add: parallel(2) par_ok_def)
  next
    case serial
    then show ?thesis using deduce_unreachable_deduces [OF r] p by auto
  qed
qed

text \<open>What is reachable stays, less the tuples and dictionaries that are untracked, in the next older generation.\<close>

abbreviation (input) can_untrack :: "gcuntrack \<Rightarrow> addr \<Rightarrow> bool" where
  "can_untrack u op \<equiv> PyTuple_CheckExact u op \<or> PyDict_CheckExact u op"

lemma collect_promote_keeps:
  assumes u: "untracks (PyTuple_MaybeUntrack u)" "untracks (PyDict_MaybeUntrack u)"
    and g: "GEN_HEAD gs = g" "gen < 3" and l: "gc_list h (g gen) D"
    and old0: "gen < 2 \<longrightarrow> gc_list h (g (gen + 1)) os" "gen < 2 \<longrightarrow> set (g gen # D) \<inter> set (g (gen + 1) # os) = {}"
  shows "\<exists>gs' h' D'. collect_promote u gen (gs, h) = Some (gs', h') \<and> subseq D' D \<and>
    (\<forall>x\<in>set D - set D'. can_untrack u (FROM_GC x)) \<and>
    (if gen < 2 then gc_list h' (g gen) [] \<and> gc_list h' (g (gen + 1)) (os @ D') else gc_list h' (g gen) D') \<and>
    (\<forall>a. a \<notin> set (g gen # D) \<longrightarrow> (gen < 2 \<longrightarrow> a \<notin> set (g (gen + 1) # os)) \<longrightarrow> same_at h h' a) \<and>
    (\<forall>a. a \<noteq> g gen \<longrightarrow> gc_is_collecting h' a \<longrightarrow> gc_is_collecting h a)"
proof -
  note old = old0 [rule_format]
  obtain h1 D1 where t: "untrack_tuples u h (g gen) = Some h1" and U1: "untracked (PyTuple_CheckExact u) h (g gen) D h1 D1"
    using untrack_walk [OF u(1) l] unfolding untrack_tuples_def by blast
  have l1: "gc_list h1 (g gen) D1" "subseq D1 D" "\<And>x. x \<in> set D - set D1 \<Longrightarrow> PyTuple_CheckExact u (FROM_GC x)"
    "\<And>a. a \<notin> set (g gen # D) \<Longrightarrow> same_at h h1 a" "\<And>a. a \<noteq> g gen \<Longrightarrow> gc_is_collecting h1 a \<Longrightarrow> gc_is_collecting h a"
    using U1 unfolding untracked_def by blast+
  note sz = gc_list_size_length [OF l1(1)]
  show ?thesis
  proof (cases "gen < 2")
    case True
    have o1: "gc_list h1 (g (gen + 1)) os"
    proof (subst gc_list_same [of _ _ h])
      show "same_at h h1 a" if "a \<in> set (g (gen + 1) # os)" for a using old(2) [OF True] that by (intro l1(4)) blast
    qed (rule old(1) [OF True])
    have dis: "set (g gen # D1) \<inter> set (g (gen + 1) # os) = {}" using old(2) [OF True] subseq_set [OF l1(2)] by auto
    let ?h = "gc_list_merge h1 (g gen) (g (gen + 1))"
    obtain gs' where p: "collect_promote u gen (gs, h) = Some (gs', ?h)"
      using True dis g(1) t sz by (cases "gen = 1") (auto simp: collect_promote_def Let_def old_head_def NUM_GENERATIONS_def)
    have "same_at h ?h a" if "a \<notin> set (g gen # D)" "a \<notin> set (g (gen + 1) # os)" for a
      using that subseq_set [OF l1(2)]
      by (intro same_at_trans [OF l1(4) gc_list_merge_same [OF l1(1) o1]]) auto
    moreover have "gc_is_collecting h a" if "a \<noteq> g gen" "gc_is_collecting ?h a" for a
      using that gc_list_merge_collecting [OF l1(1) o1, of a] l1(5) by simp
    ultimately show ?thesis using gc_list_merge_lists [OF l1(1) o1 dis] l1(2,3) True p
      by (intro exI [of _ gs'] exI [of _ ?h] exI [of _ D1] conjI) auto
  next
    case False
    then have e: "old_head gs gen = g gen" using g by (simp add: old_head_def NUM_GENERATIONS_def)
    obtain h2 D2 where t2: "untrack_dicts u h1 (g gen) = Some h2" and U2: "untracked (PyDict_CheckExact u) h1 (g gen) D1 h2 D2"
      using untrack_walk [OF u(2) l1(1)] unfolding untrack_dicts_def by blast
    have l2: "gc_list h2 (g gen) D2" "subseq D2 D1" "\<And>x. x \<in> set D1 - set D2 \<Longrightarrow> PyDict_CheckExact u (FROM_GC x)"
      "\<And>a. a \<notin> set (g gen # D1) \<Longrightarrow> same_at h1 h2 a" "\<And>a. a \<noteq> g gen \<Longrightarrow> gc_is_collecting h2 a \<Longrightarrow> gc_is_collecting h1 a"
      using U2 unfolding untracked_def by blast+
    obtain gs' where p: "collect_promote u gen (gs, h) = Some (gs', h2)"
      using e g(1) t t2 gc_list_size_length [OF l2(1)] by (simp add: collect_promote_def Let_def)
    have "subseq D2 D" using l2(2) l1(2) by (rule subseq_order.trans)
    moreover have "same_at h h2 a" if "a \<notin> set (g gen # D)" for a
      using that subseq_set [OF l1(2)] by (intro same_at_trans [OF l1(4) l2(4)]) auto
    moreover have "can_untrack u (FROM_GC x)" if "x \<in> set D - set D2" for x using that l1(3) l2(3) by blast
    ultimately show ?thesis using l2(1,5) l1(5) False p
      by (intro exI [of _ gs'] exI [of _ h2] exI [of _ D2] conjI) auto
  qed
qed

definition garbage_found ::
  "gcenv \<Rightarrow> gcuntrack \<Rightarrow> addr \<Rightarrow> addr list \<Rightarrow> (nat \<Rightarrow> addr) \<Rightarrow> (nat \<Rightarrow> addr list) \<Rightarrow> nat \<Rightarrow> addr \<Rightarrow> addr \<Rightarrow> gcheap \<Rightarrow> bool" where
  "garbage_found env u perm ps g xs gen unr fin h' \<longleftrightarrow>
    (\<exists>D F V. let C = collected env (merged xs gen gen); dead = {y \<in> set C. \<not> alive env C y} in
       (\<forall>i<gen. gc_list h' (g i) []) \<and>
       (if gen < 2 then gc_list h' (g gen) [] \<and> gc_list h' (g (gen + 1)) (xs (gen + 1) @ D) else gc_list h' (g gen) D) \<and>
       gc_list h' perm (ps @ filter (\<lambda>x. \<not> mortal env x) (merged xs gen gen)) \<and>
       set D \<subseteq> {y \<in> set C. alive env C y} \<and>
       (\<forall>y\<in>set C. alive env C y \<longrightarrow> y \<in> set D \<or> can_untrack u (FROM_GC y)) \<and>
       gc_list h' fin F \<and> set F = {y \<in> dead. reaches env dead {x \<in> dead. legacy env x} y} \<and>
       gc_list h' unr V \<and> set V = dead - set F \<and> (\<forall>a\<in>dead. gc_is_collecting h' a \<longleftrightarrow> a \<in> set V))"

lemma gc_masked_list_same:
  assumes "\<And>a. a \<in> set (l # U) \<Longrightarrow> same_at h h' a"
  shows "gc_masked_list h' l U = gc_masked_list h l U"
proof -
  have n: "gc_next h' a = gc_next h a" "gc_prev h' a = gc_prev h a" if "a \<in> set (l # U)" for a
    using assms [OF that] by (simp_all add: same_at_def)
  have "links (uview h') (l # U @ [l]) = links (uview h) (l # U @ [l])"
    by (rule links_cong) (use n in \<open>auto simp: butlast_append uview_def\<close>)
  moreover have "links (GC_PREV h') (l # rev U @ [l]) = links (GC_PREV h) (l # rev U @ [l])"
    by (rule links_cong) (use n in \<open>auto simp: butlast_append GC_PREV_def\<close>)
  moreover have "flagged h' a = flagged h a" "gc_is_collecting h' a = gc_is_collecting h a" if "a \<in> set (l # U)" for a
    using n [OF that] by (simp_all add: flagged_def gc_is_collecting_def)
  ultimately show ?thesis using n by (auto simp: gc_masked_list_def mu_unr_def)
qed

lemma collect_legacy_splits:
  assumes m: "gc_masked_list h unr U" and d: "distinct (unr # fin # U)" "aligned fin"
    and refs: "\<forall>y\<in>set U. \<forall>a\<in>set (referents env y). a \<noteq> unr \<and> a \<noteq> fin \<and> (a \<notin> set U \<longrightarrow> \<not> gc_is_collecting h a)"
  shows "\<exists>h' F V. collect_legacy env unr fin h = Some h' \<and> gc_list h' fin F \<and> gc_list h' unr V \<and>
    set F = {y \<in> set U. reaches env (set U) {x \<in> set U. legacy env x} y} \<and> set V = set U - set F \<and>
    (\<forall>a\<in>set U. gc_is_collecting h' a \<longleftrightarrow> a \<in> set V) \<and> (\<forall>a. a \<notin> set (unr # fin # U) \<longrightarrow> same_at h h' a)"
proof -
  let ?h = "gc_list_init h fin"
  have same: "same_at h ?h a" if "a \<noteq> fin" for a using that by (simp add: gc_list_init_def same_at_def)
  have m1: "gc_masked_list ?h unr U"
  proof (subst gc_masked_list_same [of _ _ h])
    show "same_at h ?h a" if "a \<in> set (unr # U)" for a using that d(1) by (intro same) auto
  qed (rule m)
  have "\<not> gc_is_collecting ?h a" if "y \<in> set U" "a \<in> set (referents env y)" "a \<notin> set U" for y a
    using refs that same [of a] by (auto simp: same_at_def gc_is_collecting_def)
  with refs have refs1: "\<forall>y\<in>set U. \<forall>a\<in>set (referents env y). a \<noteq> unr \<and> a \<noteq> fin \<and> (a \<notin> set U \<longrightarrow> \<not> gc_is_collecting ?h a)" by blast
  obtain h1 h2 F V where r: "move_legacy_finalizers env ?h unr fin = Some h1" "move_legacy_finalizer_reachable env h1 fin = Some h2"
    "gc_list h2 fin F" "gc_list h2 unr V" "set F = {y \<in> set U. reaches env (set U) {x \<in> set U. legacy env x} y}"
    "set V = set U - set F" "\<forall>a\<in>set U. gc_is_collecting h2 a \<longleftrightarrow> a \<in> set V"
    "\<forall>a. a \<notin> set (unr # fin # U) \<longrightarrow> same_at ?h h2 a"
    using legacy_splits [OF m1 gc_list_empty [OF d(2)] d(1) refs1] by (elim exE conjE)
  have "same_at h h2 a" if "a \<notin> set (unr # fin # U)" for a
    using that r(8) by (intro same_at_trans [OF same, of a h2]) auto
  moreover have "collect_legacy env unr fin h = Some h2" by (simp add: collect_legacy_def r(1,2))
  ultimately show ?thesis using r(3-7) by blast
qed

lemma deduced_found:
  assumes r: "collect_ready env h perm ps g xs gen unr fin" and g: "GEN_HEAD gs = g"
    and u: "untracks (PyTuple_MaybeUntrack u)" "untracks (PyDict_MaybeUntrack u)"
    and st: "collect_merge gen (gs, h) = (gs1, h1)"
    and dd: "deduced env h1 perm ps (g gen) (merged xs gen gen) unr h2 D U"
  shows "\<exists>gs2 h3 h4. collect_promote u gen (gs1, h2) = Some (gs2, h3) \<and> collect_legacy env unr fin h3 = Some h4 \<and>
    garbage_found env u perm ps g xs gen unr fin h4"
proof -
  let ?M = "merged xs gen gen"
  let ?C = "collected env ?M"
  note R = collect_merge_ready [OF r g st]
  have g3: "gen < 3" and ap: "apart g xs {..<3}" and fin: "aligned fin" "unr \<noteq> fin" "{unr, fin} \<inter> set (perm # ps) = {}"
    and far: "\<And>i. i < 3 \<Longrightarrow> set (g i # xs i) \<inter> set (unr # fin # perm # ps) = {}"
    and l0: "\<And>i. i < 3 \<Longrightarrow> gc_list h (g i) (xs i)"
    and refs: "\<And>y a. y \<in> set ?C \<Longrightarrow> a \<in> set (referents env y) \<Longrightarrow> a \<notin> g ` {..<3} \<union> {unr, fin, perm} \<and>
      (a \<notin> set ?C \<longrightarrow> \<not> gc_is_collecting h a)"
    using r unfolding collect_ready_def by blast+
  have D: "gc_list h2 (g gen) D" "gc_masked_list h2 unr U" "gc_list h2 perm (ps @ filter (\<lambda>x. \<not> mortal env x) ?M)"
    "set D = {y \<in> set ?C. alive env ?C y}" "set U = {y \<in> set ?C. \<not> alive env ?C y}" "\<And>d. d \<in> set D \<Longrightarrow> \<not> gc_is_collecting h2 d"
    "\<And>a. a \<notin> set ?C \<Longrightarrow> a \<notin> {unr, g gen, perm} \<Longrightarrow> gc_is_collecting h2 a = gc_is_collecting h1 a"
    "\<And>a. a \<notin> set (unr # g gen # ?M @ perm # ps) \<Longrightarrow> same_at h1 h2 a"
    using dd unfolding deduced_def by blast+
  have inM: "\<exists>j\<le>gen. a \<in> set (xs j)" if "a \<in> set ?M" for a using merged_cases [OF that] by blast
  have sub: "set D \<subseteq> set ?M" "set U \<subseteq> set ?M" "set D \<inter> set U = {}" using D(4,5) by (auto simp: collected_def)
  have outside: "a \<notin> set (unr # fin # ?M @ perm # ps)" if i: "i < 3" and a: "a \<in> set (g i # xs i)" "a \<notin> set ?M" for i a
    using far [OF i] a by auto
  have notM: "a \<notin> set ?M" if "i < 3" "gen < i" "a \<in> set (g i # xs i)" for i a
    using inM [of a] apartD [OF ap, of i _ a] that by fastforce
  have headM: "g i \<notin> set ?M" if "i < 3" for i
  proof
    assume "g i \<in> set ?M"
    then obtain j where j: "j \<le> gen" "g i \<in> set (xs j)" using inM by blast
    then show False using apartD [OF ap, of i j "g i"] l0 [OF that] g3 that by (cases "j = i") (auto simp: gc_list_def)
  qed
  have heads: "g i \<noteq> g j" if "i < 3" "j < 3" "i \<noteq> j" for i j using apartD [OF ap, of i j "g i"] that by auto
  have keep: "gc_list h2 l zs" if "gc_list h1 l zs" "\<And>a. a \<in> set (l # zs) \<Longrightarrow> a \<notin> set (unr # g gen # ?M @ perm # ps)" for l zs
    using that(1) by (subst gc_list_same [of _ _ h1]) (use that(2) D(8) in blast)+
  have old2: "gc_list h2 (g (gen + 1)) (xs (gen + 1))" if lt: "gen < 2"
  proof (rule keep)
    show "gc_list h1 (g (gen + 1)) (xs (gen + 1))" using R(3) [of "gen + 1"] lt by simp
    fix a assume a: "a \<in> set (g (gen + 1) # xs (gen + 1))"
    have "a \<noteq> g gen" using apartD [OF ap, of "gen + 1" gen a] a lt by auto
    then show "a \<notin> set (unr # g gen # ?M @ perm # ps)"
      using outside [of "gen + 1" a] notM [of "gen + 1" a] a lt by auto
  qed
  have odis: "set (g gen # D) \<inter> set (g (gen + 1) # xs (gen + 1)) = {}" if lt: "gen < 2"
  proof -
    have "a \<notin> set (g gen # D)" if a: "a \<in> set (g (gen + 1) # xs (gen + 1))" for a
      using apartD [OF ap, of "gen + 1" gen a] notM [of "gen + 1" a] a lt sub(1) by auto
    then show ?thesis by blast
  qed
  have old2': "gen < 2 \<longrightarrow> gc_list h2 (g (gen + 1)) (xs (gen + 1))"
    and odis': "gen < 2 \<longrightarrow> set (g gen # D) \<inter> set (g (gen + 1) # xs (gen + 1)) = {}" using old2 odis by blast+
  obtain gs2 h3 D' where p: "collect_promote u gen (gs1, h2) = Some (gs2, h3)" and p1: "subseq D' D"
    "\<forall>x\<in>set D - set D'. can_untrack u (FROM_GC x)"
    "if gen < 2 then gc_list h3 (g gen) [] \<and> gc_list h3 (g (gen + 1)) (xs (gen + 1) @ D') else gc_list h3 (g gen) D'"
    and ps: "\<forall>a. a \<notin> set (g gen # D) \<longrightarrow> (gen < 2 \<longrightarrow> a \<notin> set (g (gen + 1) # xs (gen + 1))) \<longrightarrow> same_at h2 h3 a"
    and pc: "\<forall>a. a \<noteq> g gen \<longrightarrow> gc_is_collecting h3 a \<longrightarrow> gc_is_collecting h2 a"
    using collect_promote_keeps [OF u R(5) g3 D(1) old2' odis'] by (elim exE conjE)
  have D'D: "set D' \<subseteq> set D" by (rule subseq_set [OF p1(1)])
  have far3: "same_at h2 h3 a" if where_a: "a \<in> set (unr # fin # U @ perm # ps @ filter (\<lambda>x. \<not> mortal env x) ?M) \<or> a \<in> g ` {..<gen}" for a
  proof (rule ps [rule_format])
    let ?P = "a \<notin> set D \<and> (\<forall>i. gen \<le> i \<and> i < 3 \<longrightarrow> a \<noteq> g i) \<and> (\<forall>i. gen < i \<and> i < 3 \<longrightarrow> a \<notin> set (xs i))"
    consider (out) "a \<in> set (unr # fin # perm # ps)" | (inside) "a \<in> set ?M" "a \<notin> set D" | (head) j where "a = g j" "j < gen"
      using where_a sub(2,3) D(4) by (auto simp: collected_def)
    then have ?P
    proof cases
      case out
      then have "a \<notin> set (g i # xs i)" if "i < 3" for i using far [OF that] by blast
      moreover from this have "a \<notin> set ?M" using inM [of a] g3 by fastforce
      ultimately show ?thesis using sub(1) by auto
    next
      case inside
      then show ?thesis using headM notM by force
    next
      case head
      have "a \<notin> set ?M" using headM [of j] head g3 by simp
      moreover have "a \<notin> set (g i # xs i)" if "gen \<le> i" "i < 3" for i
        using apartD [OF ap, of j i a] head that by simp
      ultimately show ?thesis using sub(1) by auto
    qed
    then show "a \<notin> set (g gen # D)" "gen < 2 \<Longrightarrow> a \<notin> set (g (gen + 1) # xs (gen + 1))" using g3 by auto
  qed
  have U3: "gc_masked_list h3 unr U"
    by (subst gc_masked_list_same [of _ _ h2]) (use far3 D(2) in auto)
  have perm3: "gc_list h3 perm (ps @ filter (\<lambda>x. \<not> mortal env x) ?M)"
    by (subst gc_list_same [of _ _ h2]) (use far3 D(3) in auto)
  have low3: "gc_list h3 (g i) []" if i: "i < gen" for i
  proof -
    have "g i \<notin> set (unr # g gen # ?M @ perm # ps)" using outside [of i "g i"] headM [of i] heads [of i gen] i g3 by auto
    then have "gc_list h2 (g i) []" using R(2) [OF i] by (intro keep) auto
    then show ?thesis using far3 [of "g i"] i by (subst gc_list_same [of _ _ h2]) auto
  qed
  have outM: "a \<notin> set ?M" if "a \<in> set (unr # fin # perm # ps)" for a
    using inM [of a] far that g3 by (meson disjoint_iff le_less_trans list.set_intros(2))
  have dU: "distinct (unr # fin # U)"
    using outM [of unr] outM [of fin] sub(2) fin(2) D(2) by (auto simp: gc_masked_list_def)
  have refs3: "\<forall>y\<in>set U. \<forall>a\<in>set (referents env y). a \<noteq> unr \<and> a \<noteq> fin \<and> (a \<notin> set U \<longrightarrow> \<not> gc_is_collecting h3 a)"
  proof (intro ballI)
    fix y a assume y: "y \<in> set U" and a: "a \<in> set (referents env y)"
    have "y \<in> set ?C" using y D(5) by simp
    note ra = refs [OF this a]
    have hd: "a \<noteq> g gen" "a \<notin> g ` {..<gen}" using ra g3 by auto
    have "\<not> gc_is_collecting h2 a" if "a \<notin> set U"
    proof (cases "a \<in> set ?C")
      case True
      then show ?thesis using that D(4-6) by auto
    next
      case False
      then show ?thesis using D(7) [OF False] ra hd R(4) [OF hd(2)] by auto
    qed
    then show "a \<noteq> unr \<and> a \<noteq> fin \<and> (a \<notin> set U \<longrightarrow> \<not> gc_is_collecting h3 a)" using ra hd pc by blast
  qed
  obtain h4 F V where q: "collect_legacy env unr fin h3 = Some h4" "gc_list h4 fin F" "gc_list h4 unr V"
    "set F = {y \<in> set U. reaches env (set U) {x \<in> set U. legacy env x} y}" "set V = set U - set F"
    "\<forall>a\<in>set U. gc_is_collecting h4 a \<longleftrightarrow> a \<in> set V" "\<forall>a. a \<notin> set (unr # fin # U) \<longrightarrow> same_at h3 h4 a"
    using collect_legacy_splits [OF U3 dU fin(1) refs3] by (elim exE conjE)
  have keep4: "gc_list h4 l zs" if "gc_list h3 l zs" "set (l # zs) \<inter> set (unr # fin # U) = {}" for l zs
    using that(1) by (subst gc_list_same [of _ _ h3]) (use that(2) q(7) in blast)+
  have "gc_list h4 (g i) []" if "i < gen" for i
    using far [of i] headM [of i] that g3 sub(2) by (intro keep4 [OF low3 [OF that]]) auto
  moreover have "if gen < 2 then gc_list h4 (g gen) [] \<and> gc_list h4 (g (gen + 1)) (xs (gen + 1) @ D') else gc_list h4 (g gen) D'"
  proof -
    have a: "set (g gen # D') \<inter> set (unr # fin # U) = {}"
      using far [OF g3] headM [OF g3] sub D'D outM [of unr] outM [of fin] by auto
    have "set (g (gen + 1) # xs (gen + 1) @ D') \<inter> set (unr # fin # U) = {}" if "gen < 2"
      using a far [of "gen + 1"] notM [of "gen + 1"] sub(2) that by fastforce
    then show ?thesis using p1(3) a keep4 by (cases "gen < 2") auto
  qed
  moreover have "gc_list h4 perm (ps @ filter (\<lambda>x. \<not> mortal env x) ?M)"
    using outM [of unr] outM [of fin] outM sub(2) D(5) fin(3) by (intro keep4 [OF perm3]) (auto simp: collected_def)
  moreover have "set D' \<subseteq> {y \<in> set ?C. alive env ?C y}" using D'D D(4) by blast
  moreover have "y \<in> set D' \<or> can_untrack u (FROM_GC y)" if "y \<in> set ?C" "alive env ?C y" for y
    using p1(2) D(4) that by blast
  ultimately have "garbage_found env u perm ps g xs gen unr fin h4"
    unfolding garbage_found_def Let_def using q(2-6) D(5) by (intro exI [of _ D'] exI [of _ F] exI [of _ V]) simp
  then show ?thesis using p q(1) by blast
qed

lemma fold_reset: "fold (\<lambda>i c. c(i := 0)) [0..<k] c j = (if j < k then 0 else c j :: int)"
  by (induction k) auto

lemma collect_counts:
  assumes "collect_merge gen (gs, h) = (gs1, h1)" "gen < 3"
  shows "\<And>i. i \<le> gen \<Longrightarrow> gen_count gs1 i = 0" "gen < 2 \<Longrightarrow> gen_count gs1 (gen + 1) = gen_count gs (gen + 1) + 1"
  using assms by (auto simp: collect_merge_def Let_def fold_reset NUM_GENERATIONS_def split: if_splits simp del: upt_Suc)

lemma collect_promote_counts: "collect_promote u gen (gs, h) = Some (gs', h') \<Longrightarrow> gen_count gs' = gen_count gs"
  by (auto simp: collect_promote_def Let_def bind_eq_Some_conv split: if_splits)

theorem gc_collect_finds:
  assumes r: "collect_ready env h perm ps g xs gen unr fin" and g: "GEN_HEAD gs = g"
    and u: "untracks (PyTuple_MaybeUntrack u)" "untracks (PyDict_MaybeUntrack u)" and p: "par_ok par_gc (merged xs gen gen)"
  shows "\<exists>st. gc_collect_find env u perm unr fin gen (par_gc, gs, h) st"
    and "gc_collect_find env u perm unr fin gen (par_gc, gs, h) (par_gc', gs', h') \<Longrightarrow>
      par_ok par_gc' (merged xs gen gen) \<and> garbage_found env u perm ps g xs gen unr fin h' \<and>
      (\<forall>i\<le>gen. gen_count gs' i = 0) \<and> (gen < 2 \<longrightarrow> gen_count gs' (gen + 1) = gen_count gs (gen + 1) + 1)"
proof -
  obtain gs1 h1 where st: "collect_merge gen (gs, h) = (gs1, h1)" by force
  note R = collect_merge_ready [OF r g st]
  note dd = collect_deduce_deduces [OF R(1) p]
  show "\<exists>st. gc_collect_find env u perm unr fin gen (par_gc, gs, h) st"
  proof -
    obtain par' h2 where d: "collect_deduce env perm par_gc gen h1 (g gen) unr par' h2" using dd(1) by blast
    obtain D U where D: "deduced env h1 perm ps (g gen) (merged xs gen gen) unr h2 D U" using dd(2) [OF d] by blast
    obtain gs2 h3 h4 where "collect_promote u gen (gs1, h2) = Some (gs2, h3)" "collect_legacy env unr fin h3 = Some h4"
      using deduced_found [OF r g u st D] by (elim exE conjE)
    with st d show ?thesis by (auto simp: R(5) intro!: exI gc_collect_find.intros)
  qed
  assume "gc_collect_find env u perm unr fin gen (par_gc, gs, h) (par_gc', gs', h')"
  then obtain h2 h3 where d: "collect_deduce env perm par_gc gen h1 (g gen) unr par_gc' h2"
    and c: "collect_promote u gen (gs1, h2) = Some (gs', h3)" "collect_legacy env unr fin h3 = Some h'"
    by cases (use st R(5) in auto)
  obtain D U where "deduced env h1 perm ps (g gen) (merged xs gen gen) unr h2 D U" using dd(2) [OF d] by blast
  then have "garbage_found env u perm ps g xs gen unr fin h'" using deduced_found [OF r g u st] c by fastforce
  moreover have "gen < 3" using r by (simp add: collect_ready_def)
  ultimately show "par_ok par_gc' (merged xs gen gen) \<and> garbage_found env u perm ps g xs gen unr fin h' \<and>
      (\<forall>i\<le>gen. gen_count gs' i = 0) \<and> (gen < 2 \<longrightarrow> gen_count gs' (gen + 1) = gen_count gs (gen + 1) + 1)"
    using dd(2) [OF d] collect_counts [OF st] collect_promote_counts [OF c(1)] by auto
qed

end
