(* ===== verification/WS_Deque.thy ===== *)
theory WS_Deque
  imports Cinderx_Prelude
begin

text \<open>
  The work-stealing deque of \<open>ws_deque.h\<close> (Chase and Lev). The owner pushes and takes at \<open>bot\<close>, the other workers steal at
  \<open>top\<close>. Every access to shared memory is a step of its own, in a sequentially consistent interleaving: \<open>own_step\<close> is
  a step of the owner, \<open>thief_step\<close> a step of a thief. What the owner reads of \<open>bot\<close>, of \<open>arr\<close> and of the array it alone
  writes, so these reads are part of its next step; a new array is private until it is stored in \<open>arr\<close>. A
  step that decides the outcome of an operation is labelled with it.

  Indices and sizes are 64-bit words. An array is known by a number; \<open>calloc\<close> succeeds.
\<close>

section \<open>Definitions\<close>

subsection \<open>Arrays\<close>

record Ci_WSArray =
  wa_next :: "nat option"
  wa_size :: "64 word"
  wa_buf :: "64 word list"

definition Ci_WSArray_New :: "64 word \<Rightarrow> Ci_WSArray" where
  "Ci_WSArray_New sz = \<lparr>wa_next = None, wa_size = sz, wa_buf = replicate (unat sz) 0\<rparr>"

text \<open>\<open>Ci_WSArray_Destroy\<close>: the arrays of a list of arrays in the order in which they are freed.\<close>

partial_function (option) Ci_WSArray_Destroy :: "(nat \<Rightarrow> Ci_WSArray) \<Rightarrow> nat \<Rightarrow> nat list option" where
  "Ci_WSArray_Destroy arrays arr =
    (case wa_next (arrays arr) of
       None \<Rightarrow> Some [arr]
     | Some nxt \<Rightarrow> Option.bind (Ci_WSArray_Destroy arrays nxt) (\<lambda>freed. Some (freed @ [arr])))"

definition Ci_WSArray_Get :: "Ci_WSArray \<Rightarrow> 64 word \<Rightarrow> 64 word" where
  "Ci_WSArray_Get arr idx = wa_buf arr ! unat (idx AND (wa_size arr - 1))"

definition Ci_WSArray_Put :: "Ci_WSArray \<Rightarrow> 64 word \<Rightarrow> 64 word \<Rightarrow> Ci_WSArray" where
  "Ci_WSArray_Put arr idx obj = arr\<lparr>wa_buf := (wa_buf arr)[unat (idx AND (wa_size arr - 1)) := obj]\<rparr>"

lemma unat_inc: "i < (b :: 64 word) \<Longrightarrow> unat (i + 1) = unat i + 1"
proof -
  assume "i < b"
  moreover have "unat b < 2 ^ 64" using unsigned_less [of b] by simp
  ultimately have "unat i + 1 < 2 ^ 64" unfolding word_less_nat_alt by linarith
  then show ?thesis by (simp add: unat_word_ariths(1))
qed

text \<open>The loop \<open>for (i = top; i < bot; i++)\<close>.\<close>

function grow_copy :: "Ci_WSArray \<Rightarrow> 64 word \<Rightarrow> 64 word \<Rightarrow> Ci_WSArray \<Rightarrow> Ci_WSArray" where
  "grow_copy arr i bt new_arr =
     (if i < bt then grow_copy arr (i + 1) bt (Ci_WSArray_Put new_arr i (Ci_WSArray_Get arr i)) else new_arr)"
  by auto
termination
proof (relation "measure (\<lambda>(arr, i, bt, new_arr). unat bt - unat i)")
  fix arr new_arr :: Ci_WSArray and i bt :: "64 word"
  assume lt: "i < bt"
  then have "unat (i + 1) = unat i + 1" by (rule unat_inc)
  then show "((arr, i + 1, bt, Ci_WSArray_Put new_arr i (Ci_WSArray_Get arr i)), (arr, i, bt, new_arr))
      \<in> measure (\<lambda>(arr, i, bt, new_arr). unat bt - unat i)"
    using lt by (simp add: word_less_nat_alt)
qed simp

declare grow_copy.simps [simp del]

definition Ci_WSArray_Grow :: "nat \<Rightarrow> Ci_WSArray \<Rightarrow> 64 word \<Rightarrow> 64 word \<Rightarrow> Ci_WSArray" where
  "Ci_WSArray_Grow self arr tp bt =
     grow_copy arr tp bt ((Ci_WSArray_New (push_bit 1 (wa_size arr)))\<lparr>wa_next := Some self\<rparr>)"

definition kCiParGCInitialArrSize :: "64 word" where
  "kCiParGCInitialArrSize = push_bit 12 1"

subsection \<open>The deque\<close>

record Ci_WSDeque =
  ws_top :: "64 word"
  ws_bot :: "64 word"
  ws_arr :: nat
  ws_num_resizes :: int
  ws_mem :: "nat \<Rightarrow> Ci_WSArray"

abbreviation (input) cur_arr :: "Ci_WSDeque \<Rightarrow> Ci_WSArray" where
  "cur_arr d \<equiv> ws_mem d (ws_arr d)"

definition Ci_WSDeque_Init :: Ci_WSDeque where
  "Ci_WSDeque_Init = \<lparr>ws_top = 1, ws_bot = 1, ws_arr = 0, ws_num_resizes = 0,
     ws_mem = (\<lambda>_. Ci_WSArray_New kCiParGCInitialArrSize)\<rparr>"

definition Ci_WSDeque_Fini :: "Ci_WSDeque \<Rightarrow> nat list option" where
  "Ci_WSDeque_Fini d = Ci_WSArray_Destroy (ws_mem d) (ws_arr d)"

datatype event = Silent | Pushed "64 word" | Took "64 word" | TookNone | Stole "64 word" | StoleNone

text \<open>The owner: between operations, in \<open>Ci_WSDeque_Take\<close> or in \<open>Ci_WSDeque_Push\<close>.\<close>

datatype own =
    OIdle
  | TakeTop "64 word"
  | TakeCas "64 word" "64 word" "64 word"
  | TakeRestore "64 word"
  | PushGrow "64 word" "64 word"
  | PushPut "64 word"
  | PushBot "64 word"

definition take_start :: "Ci_WSDeque \<Rightarrow> own \<times> Ci_WSDeque" where
  "take_start d = (let bt = ws_bot d - 1 in (TakeTop bt, d\<lparr>ws_bot := bt\<rparr>))"

definition push_start :: "64 word \<Rightarrow> Ci_WSDeque \<Rightarrow> own \<times> Ci_WSDeque" where
  "push_start obj d =
    (let tp = ws_top d in
     (if ws_bot d - tp > wa_size (cur_arr d) - 1 then PushGrow tp obj else PushPut obj, d))"

fun own_step :: "own \<Rightarrow> Ci_WSDeque \<Rightarrow> event \<times> own \<times> Ci_WSDeque" where
  "own_step (TakeTop bt) d =
    (let tp = ws_top d in
     if tp \<le> bt
     then let res = Ci_WSArray_Get (cur_arr d) bt in
          if tp = bt then (Silent, TakeCas tp bt res, d) else (Took res, OIdle, d)
     else (TookNone, TakeRestore bt, d))"
| "own_step (TakeCas tp bt res) d =
    (if ws_top d = tp then (Took res, TakeRestore bt, d\<lparr>ws_top := tp + 1\<rparr>)
     else (TookNone, TakeRestore bt, d))"
| "own_step (TakeRestore bt) d = (Silent, OIdle, d\<lparr>ws_bot := bt + 1\<rparr>)"
| "own_step (PushGrow tp obj) d =
    (Silent, PushPut obj,
     d\<lparr>ws_mem := (ws_mem d)(Suc (ws_arr d) := Ci_WSArray_Grow (ws_arr d) (cur_arr d) tp (ws_bot d)),
       ws_arr := Suc (ws_arr d), ws_num_resizes := ws_num_resizes d + 1\<rparr>)"
| "own_step (PushPut obj) d =
    (Silent, PushBot obj, d\<lparr>ws_mem := (ws_mem d)(ws_arr d := Ci_WSArray_Put (cur_arr d) (ws_bot d) obj)\<rparr>)"
| "own_step (PushBot obj) d = (Pushed obj, OIdle, d\<lparr>ws_bot := ws_bot d + 1\<rparr>)"
| "own_step OIdle d = (Silent, OIdle, d)"

text \<open>A thief: outside \<open>Ci_WSDeque_Steal\<close>, or in its loop.\<close>

datatype thief =
    TIdle
  | StealTop
  | StealBot "64 word"
  | StealArr "64 word"
  | StealGet "64 word" nat
  | StealCas "64 word" "64 word"

fun thief_step :: "thief \<Rightarrow> Ci_WSDeque \<Rightarrow> event \<times> thief \<times> Ci_WSDeque" where
  "thief_step StealTop d = (Silent, StealBot (ws_top d), d)"
| "thief_step (StealBot tp) d = (if tp < ws_bot d then (Silent, StealArr tp, d) else (StoleNone, TIdle, d))"
| "thief_step (StealArr tp) d = (Silent, StealGet tp (ws_arr d), d)"
| "thief_step (StealGet tp arr) d = (Silent, StealCas tp (Ci_WSArray_Get (ws_mem d arr) tp), d)"
| "thief_step (StealCas tp res) d =
    (if ws_top d = tp then (Stole res, TIdle, d\<lparr>ws_top := tp + 1\<rparr>) else (Silent, StealTop, d))"
| "thief_step TIdle d = (Silent, TIdle, d)"

definition Ci_WSDeque_GetNumResizes :: "Ci_WSDeque \<Rightarrow> int" where
  "Ci_WSDeque_GetNumResizes d = ws_num_resizes d"

definition Ci_WSDeque_Size :: "64 word \<Rightarrow> 64 word \<Rightarrow> 64 word" where
  "Ci_WSDeque_Size bt tp = (if bt < tp then 0 else bt - tp)"

text \<open>All the threads: the owner and the thieves, by number.\<close>

record ws =
  s_deque :: Ci_WSDeque
  s_own :: own
  s_thief :: "nat \<Rightarrow> thief"

inductive ws_step :: "ws \<Rightarrow> event \<Rightarrow> ws \<Rightarrow> bool" where
  take_call: "s_own s = OIdle \<Longrightarrow> take_start (s_deque s) = (c, d) \<Longrightarrow>
    ws_step s Silent (s\<lparr>s_own := c, s_deque := d\<rparr>)"
| push_call: "s_own s = OIdle \<Longrightarrow> push_start obj (s_deque s) = (c, d) \<Longrightarrow>
    ws_step s Silent (s\<lparr>s_own := c, s_deque := d\<rparr>)"
| owner: "s_own s \<noteq> OIdle \<Longrightarrow> own_step (s_own s) (s_deque s) = (e, c, d) \<Longrightarrow>
    ws_step s e (s\<lparr>s_own := c, s_deque := d\<rparr>)"
| steal_call: "s_thief s i = TIdle \<Longrightarrow> ws_step s Silent (s\<lparr>s_thief := (s_thief s)(i := StealTop)\<rparr>)"
| thief: "s_thief s i \<noteq> TIdle \<Longrightarrow> thief_step (s_thief s i) (s_deque s) = (e, c, d) \<Longrightarrow>
    ws_step s e (s\<lparr>s_thief := (s_thief s)(i := c), s_deque := d\<rparr>)"

definition ws_init :: ws where
  "ws_init = \<lparr>s_deque = Ci_WSDeque_Init, s_own = OIdle, s_thief = (\<lambda>_. TIdle)\<rparr>"

text \<open>A run with the list of its labels, the last first.\<close>

inductive ws_run :: "event list \<Rightarrow> ws \<Rightarrow> bool" where
  init: "ws_run [] ws_init"
| step: "ws_run es s \<Longrightarrow> ws_step s e s' \<Longrightarrow> ws_run (e # es) s'"

end
