(* ===== verification/WS_Deque_Correct.thy ===== *)
theory WS_Deque_Correct
  imports WS_Deque GC_Parallel
begin

text \<open>
  The deque of \<open>ws_deque.h\<close> implements the deque of \<open>GC_Parallel\<close>. The invariant \<open>ws_inv\<close> relates \<open>top\<close>, \<open>bot\<close>, the
  arrays and what each thread has read so far; \<open>abs_deque\<close> is the contents. Every step keeps the invariant, and
  its label is an operation of the abstract deque on the contents (\<open>ws_step_ok\<close>): the labels of a run are a history
  of the abstract deque (\<open>ws_run_ok\<close>), in which no object is lost or handed out twice (\<open>history_conserves\<close>). The
  indices do not wrap: a run has less than \<open>2 ^ 62\<close> pushes.
\<close>


section \<open>Arrays by index\<close>

definition arr_ok :: "Ci_WSArray \<Rightarrow> bool" where
  "arr_ok a \<longleftrightarrow> (\<exists>k<64. wa_size a = 2 ^ k \<and> length (wa_buf a) = 2 ^ k)"

definition aget :: "Ci_WSArray \<Rightarrow> nat \<Rightarrow> 64 word" where
  "aget a j = wa_buf a ! (j mod length (wa_buf a))"

lemma unat_and_pow2:
  assumes "k < 64" shows "unat ((i :: 64 word) AND (2 ^ k - 1)) = unat i mod 2 ^ k"
proof -
  have "i AND (2 ^ k - 1) = take_bit k i" by (simp add: take_bit_eq_mask mask_eq_exp_minus_1)
  then have "unat (i AND (2 ^ k - 1)) = unat (take_bit k i)" by simp
  also have "\<dots> = take_bit k (unat i)" by (rule unsigned_take_bit_eq)
  finally show ?thesis by (simp add: take_bit_eq_mod)
qed

lemma arr_ok_slot: "arr_ok a \<Longrightarrow> unat (i AND (wa_size a - 1)) = unat i mod length (wa_buf a)"
  using unat_and_pow2 by (auto simp: arr_ok_def)

lemma arr_ok_length: "arr_ok a \<Longrightarrow> 0 < length (wa_buf a)"
  by (auto simp: arr_ok_def)

lemma Get_aget: "arr_ok a \<Longrightarrow> Ci_WSArray_Get a i = aget a (unat i)"
  by (simp add: Ci_WSArray_Get_def aget_def arr_ok_slot)

lemma mod_neq:
  assumes "i < j" "j < i + (m :: nat)" shows "i mod m \<noteq> j mod m"
proof
  assume "i mod m = j mod m"
  then have "m dvd j - i" using assms mod_eq_dvd_iff_nat [of i j m] by simp
  then show False using assms by (auto dest: dvd_imp_le)
qed

lemma Put_ok:
  assumes "arr_ok a"
  shows "arr_ok (Ci_WSArray_Put a i x)" "length (wa_buf (Ci_WSArray_Put a i x)) = length (wa_buf a)"
    "wa_size (Ci_WSArray_Put a i x) = wa_size a"
    "aget (Ci_WSArray_Put a i x) (unat i) = x"
    "j < unat i \<Longrightarrow> unat i < j + length (wa_buf a) \<Longrightarrow> aget (Ci_WSArray_Put a i x) j = aget a j"
proof -
  note l = arr_ok_length [OF assms]
  show "arr_ok (Ci_WSArray_Put a i x)" "length (wa_buf (Ci_WSArray_Put a i x)) = length (wa_buf a)"
    "wa_size (Ci_WSArray_Put a i x) = wa_size a"
    using assms by (auto simp: arr_ok_def Ci_WSArray_Put_def)
  show "aget (Ci_WSArray_Put a i x) (unat i) = x"
    using l by (simp add: aget_def Ci_WSArray_Put_def arr_ok_slot [OF assms])
  assume "j < unat i" "unat i < j + length (wa_buf a)"
  then have "j mod length (wa_buf a) \<noteq> unat i mod length (wa_buf a)" by (rule mod_neq)
  then show "aget (Ci_WSArray_Put a i x) j = aget a j"
    by (simp add: aget_def Ci_WSArray_Put_def arr_ok_slot [OF assms])
qed

lemma grow_copy_ok:
  assumes "arr_ok arr" "arr_ok new" "unat b - unat i \<le> length (wa_buf new)"
  shows "arr_ok (grow_copy arr i b new)" "length (wa_buf (grow_copy arr i b new)) = length (wa_buf new)"
    "\<And>j. unat i \<le> j \<Longrightarrow> j < unat b \<Longrightarrow> aget (grow_copy arr i b new) j = aget arr j"
    "\<And>j. j < unat i \<Longrightarrow> unat b \<le> j + length (wa_buf new) \<Longrightarrow> aget (grow_copy arr i b new) j = aget new j"
proof -
  have "arr_ok (grow_copy arr i b new) \<and> length (wa_buf (grow_copy arr i b new)) = length (wa_buf new) \<and>
    (\<forall>j. unat i \<le> j \<longrightarrow> j < unat b \<longrightarrow> aget (grow_copy arr i b new) j = aget arr j) \<and>
    (\<forall>j. j < unat i \<longrightarrow> unat b \<le> j + length (wa_buf new) \<longrightarrow> aget (grow_copy arr i b new) j = aget new j)"
    using assms
  proof (induction arr i b new rule: grow_copy.induct)
    case (1 arr i b new)
    show ?case
    proof (cases "i < b")
      case False
      then show ?thesis using 1(3) by (simp add: grow_copy.simps [of arr i b new] word_less_nat_alt)
    next
      case True
      let ?n = "Ci_WSArray_Put new i (Ci_WSArray_Get arr i)"
      have i1: "unat (i + 1) = unat i + 1" by (rule unat_inc [OF True])
      have ib: "unat i < unat b" using True by (simp add: word_less_nat_alt)
      note p = Put_ok [OF 1(3), where i = i and x = "Ci_WSArray_Get arr i"]
      have IH: "arr_ok (grow_copy arr (i + 1) b ?n)" "length (wa_buf (grow_copy arr (i + 1) b ?n)) = length (wa_buf new)"
        "\<And>j. unat i + 1 \<le> j \<Longrightarrow> j < unat b \<Longrightarrow> aget (grow_copy arr (i + 1) b ?n) j = aget arr j"
        "\<And>j. j < unat i + 1 \<Longrightarrow> unat b \<le> j + length (wa_buf new) \<Longrightarrow> aget (grow_copy arr (i + 1) b ?n) j = aget ?n j"
        using 1(1) [OF True 1(2) p(1)] 1(4) p(2) by (simp_all add: i1)
      have "aget (grow_copy arr (i + 1) b ?n) (unat i) = aget arr (unat i)"
        using IH(4) [of "unat i"] 1(4) ib p(4) Get_aget [OF 1(2)] by simp
      then have c: "aget (grow_copy arr (i + 1) b ?n) j = aget arr j" if "unat i \<le> j" "j < unat b" for j
        using that IH(3) by (cases "j = unat i") auto
      have "aget (grow_copy arr (i + 1) b ?n) j = aget new j" if "j < unat i" "unat b \<le> j + length (wa_buf new)" for j
        using that ib IH(4) [of j] p(5) by simp
      then show ?thesis unfolding grow_copy.simps [of arr i b new] using True IH(1,2) c by simp
    qed
  qed
  then show "arr_ok (grow_copy arr i b new)" "length (wa_buf (grow_copy arr i b new)) = length (wa_buf new)"
    "\<And>j. unat i \<le> j \<Longrightarrow> j < unat b \<Longrightarrow> aget (grow_copy arr i b new) j = aget arr j"
    "\<And>j. j < unat i \<Longrightarrow> unat b \<le> j + length (wa_buf new) \<Longrightarrow> aget (grow_copy arr i b new) j = aget new j"
    by blast+
qed

lemma unat_2p: "k < 64 \<Longrightarrow> unat ((2 :: 64 word) ^ k) = 2 ^ k"
proof -
  assume "k < 64"
  then have "(2 :: nat) ^ k < 2 ^ 64" by (intro power_strict_increasing) auto
  moreover have "(2 :: 64 word) ^ k = of_nat (2 ^ k)" by simp
  ultimately show ?thesis by (simp only: unat_of_nat) simp
qed

lemma Grow_ok:
  assumes a: "arr_ok arr" and l: "length (wa_buf arr) \<le> 2 ^ 62" "unat b - unat t \<le> length (wa_buf arr)"
  shows "arr_ok (Ci_WSArray_Grow n arr t b)" "length (wa_buf (Ci_WSArray_Grow n arr t b)) = 2 * length (wa_buf arr)"
    "\<And>j. unat t \<le> j \<Longrightarrow> j < unat b \<Longrightarrow> aget (Ci_WSArray_Grow n arr t b) j = aget arr j"
proof -
  obtain k where k: "wa_size arr = 2 ^ k" "length (wa_buf arr) = 2 ^ k" using a by (auto simp: arr_ok_def)
  then have "(2 :: nat) ^ k \<le> 2 ^ 62" using l(1) by simp
  then have k62: "k \<le> 62" by (rule power_le_imp_le_exp [rotated]) simp
  have s: "push_bit 1 (wa_size arr) = 2 ^ Suc k" by (simp add: k push_bit_eq_mult)
  have u: "unat ((2 :: 64 word) ^ Suc k) = 2 ^ Suc k" using k62 by (intro unat_2p) simp
  let ?n = "(Ci_WSArray_New (push_bit 1 (wa_size arr)))\<lparr>wa_next := Some n\<rparr>"
  have n: "arr_ok ?n" "length (wa_buf ?n) = 2 * length (wa_buf arr)"
    using k62 u k unfolding s by (auto simp: arr_ok_def Ci_WSArray_New_def intro!: exI [of _ "Suc k"])
  have "unat b - unat t \<le> length (wa_buf ?n)" using l(2) n(2) by simp
  from grow_copy_ok [OF a n(1) this] n(2)
  show "arr_ok (Ci_WSArray_Grow n arr t b)" "length (wa_buf (Ci_WSArray_Grow n arr t b)) = 2 * length (wa_buf arr)"
    "\<And>j. unat t \<le> j \<Longrightarrow> j < unat b \<Longrightarrow> aget (Ci_WSArray_Grow n arr t b) j = aget arr j"
    by (simp_all add: Ci_WSArray_Grow_def)
qed

section \<open>The deque as a list\<close>

text \<open>
  The logical bottom: while the owner is taking, \<open>bot\<close> is already lowered, but the last object is still in the deque,
  until the owner has seen that no thief can get it, or one of them has moved \<open>top\<close> over it.
\<close>

fun lbot :: "own \<Rightarrow> Ci_WSDeque \<Rightarrow> nat" where
  "lbot (TakeTop b) d = unat b + 1"
| "lbot (TakeCas t b r) d = unat b + 1"
| "lbot (TakeRestore b) d = unat b + 1"
| "lbot _ d = unat (ws_bot d)"

definition abs_deque :: "own \<Rightarrow> Ci_WSDeque \<Rightarrow> deque" where
  "abs_deque c d = \<lparr>dq_top = unat (ws_top d), dq_items = map (aget (cur_arr d)) [unat (ws_top d)..<lbot c d]\<rparr>"

fun own_ok :: "own \<Rightarrow> Ci_WSDeque \<Rightarrow> bool" where
  "own_ok (TakeTop b) d = (ws_bot d = b)"
| "own_ok (TakeCas t b r) d = (ws_bot d = b \<and> t = b \<and> r = aget (cur_arr d) (unat b) \<and> unat b \<le> unat (ws_top d))"
| "own_ok (TakeRestore b) d = (ws_bot d = b \<and> unat (ws_top d) = unat b + 1)"
| "own_ok (PushGrow t x) d = (unat t \<le> unat (ws_top d) \<and> unat (ws_bot d) - unat t \<le> length (wa_buf (cur_arr d)) \<and>
     length (wa_buf (cur_arr d)) \<le> unat (ws_bot d))"
| "own_ok (PushPut x) d = (unat (ws_bot d) - unat (ws_top d) < length (wa_buf (cur_arr d)))"
| "own_ok (PushBot x) d = (unat (ws_bot d) - unat (ws_top d) < length (wa_buf (cur_arr d)) \<and>
     aget (cur_arr d) (unat (ws_bot d)) = x)"
| "own_ok OIdle d = True"

text \<open>A thief that has read \<open>top\<close> and finds it unchanged later has read the object that \<open>top\<close> denotes.\<close>

fun thief_ok :: "nat \<Rightarrow> Ci_WSDeque \<Rightarrow> thief \<Rightarrow> bool" where
  "thief_ok L d (StealBot t) = (unat t \<le> unat (ws_top d))"
| "thief_ok L d (StealArr t) = (unat t \<le> unat (ws_top d) \<and> (t = ws_top d \<longrightarrow> unat t < L))"
| "thief_ok L d (StealGet t a) = (unat t \<le> unat (ws_top d) \<and> a \<le> ws_arr d \<and>
     (t = ws_top d \<longrightarrow> unat t < L \<and> Ci_WSArray_Get (ws_mem d a) t = aget (cur_arr d) (unat t)))"
| "thief_ok L d (StealCas t x) = (unat t \<le> unat (ws_top d) \<and>
     (t = ws_top d \<longrightarrow> unat t < L \<and> x = aget (cur_arr d) (unat t)))"
| "thief_ok L d _ = True"

definition deque_ok :: "nat \<Rightarrow> own \<Rightarrow> Ci_WSDeque \<Rightarrow> bool" where
  "deque_ok N c d \<longleftrightarrow> 1 \<le> unat (ws_top d) \<and> unat (ws_top d) \<le> lbot c d \<and> lbot c d \<le> N + 1 \<and>
     arr_ok (cur_arr d) \<and> lbot c d - unat (ws_top d) \<le> length (wa_buf (cur_arr d)) \<and> own_ok c d"

definition ws_inv :: "nat \<Rightarrow> ws \<Rightarrow> bool" where
  "ws_inv N s \<longleftrightarrow> N < 2 ^ 62 \<and> deque_ok N (s_own s) (s_deque s) \<and>
     (\<forall>i. thief_ok (lbot (s_own s) (s_deque s)) (s_deque s) (s_thief s i))"

definition matches :: "event \<Rightarrow> deque \<Rightarrow> deque \<Rightarrow> bool" where
  "matches e q q' \<longleftrightarrow>
    (case e of
       Silent \<Rightarrow> q' = q
     | Pushed x \<Rightarrow> q' = dq_push x q
     | Took x \<Rightarrow> dq_take q = (Some x, q')
     | TookNone \<Rightarrow> dq_take q = (None, q')
     | Stole x \<Rightarrow> dq_steal False q = (Some x, q')
     | StoleNone \<Rightarrow> dq_steal True q = (None, q'))"

lemma unat_add1: "unat (w :: 64 word) < 2 ^ 63 \<Longrightarrow> unat (w + 1) = unat w + 1"
  by (simp add: unat_word_ariths(1))

lemma unat_sub1: "1 \<le> unat (w :: 64 word) \<Longrightarrow> unat (w - 1) + 1 = unat w"
  using unat_sub [of 1 w] by (simp add: word_le_nat_alt)

lemma thief_frame:
  assumes "thief_ok L d c" "unat (ws_top d) \<le> unat (ws_top d')" "ws_arr d \<le> ws_arr d'"
    and "ws_top d' = ws_top d \<Longrightarrow> unat (ws_top d) < L \<Longrightarrow> unat (ws_top d) < L' \<and>
      aget (cur_arr d') (unat (ws_top d)) = aget (cur_arr d) (unat (ws_top d)) \<and>
      (\<forall>a\<le>ws_arr d. Ci_WSArray_Get (ws_mem d a) (ws_top d) = aget (cur_arr d) (unat (ws_top d)) \<longrightarrow>
        Ci_WSArray_Get (ws_mem d' a) (ws_top d) = aget (cur_arr d) (unat (ws_top d)))"
  shows "thief_ok L' d' c"
proof -
  have top: "ws_top d' = ws_top d \<and> t = ws_top d" if "unat t \<le> unat (ws_top d)" "t = ws_top d'" for t
    using that assms(2) by (simp add: word_unat_eq_iff)
  note tp = assms(2) and ar = assms(3)
  show ?thesis
  proof (cases c)
    case (StealArr t)
    then have t: "unat t \<le> unat (ws_top d)" and r: "t = ws_top d \<Longrightarrow> unat t < L" using assms(1) by simp_all
    have "unat t < L'" if "t = ws_top d'" using top [OF t that] r assms(4) by blast
    then show ?thesis using StealArr t tp by simp
  next
    case (StealGet t a)
    then have t: "unat t \<le> unat (ws_top d)" and a: "a \<le> ws_arr d"
      and r: "t = ws_top d \<Longrightarrow> unat t < L \<and> Ci_WSArray_Get (ws_mem d a) t = aget (cur_arr d) (unat t)" using assms(1) by simp_all
    have "unat t < L' \<and> Ci_WSArray_Get (ws_mem d' a) t = aget (cur_arr d') (unat t)" if "t = ws_top d'"
      using top [OF t that] r a assms(4) by metis
    then show ?thesis using StealGet t a tp ar by simp
  next
    case (StealCas t x)
    then have t: "unat t \<le> unat (ws_top d)"
      and r: "t = ws_top d \<Longrightarrow> unat t < L \<and> x = aget (cur_arr d) (unat t)" using assms(1) by simp_all
    have "unat t < L' \<and> x = aget (cur_arr d') (unat t)" if "t = ws_top d'"
      using top [OF t that] r assms(4) by metis
    then show ?thesis using StealCas t tp by simp
  qed (use assms(1) tp in auto)
qed

lemma take_call_ok:
  assumes "deque_ok N OIdle d" "take_start d = (c, d')"
  shows "deque_ok N c d'" "lbot c d' = lbot OIdle d" "abs_deque c d' = abs_deque OIdle d"
    "ws_top d' = ws_top d" "ws_arr d' = ws_arr d" "ws_mem d' = ws_mem d"
proof -
  have c: "c = TakeTop (ws_bot d - 1)" "d' = d\<lparr>ws_bot := ws_bot d - 1\<rparr>" using assms(2) by (auto simp: take_start_def Let_def)
  have "1 \<le> unat (ws_bot d)" using assms(1) by (simp add: deque_ok_def)
  then have u: "unat (ws_bot d - 1) + 1 = unat (ws_bot d)" by (rule unat_sub1)
  then show L: "lbot c d' = lbot OIdle d" by (simp add: c)
  show "deque_ok N c d'" using assms(1) u unfolding deque_ok_def L by (simp add: c)
  show "abs_deque c d' = abs_deque OIdle d" unfolding abs_deque_def L by (simp add: c)
  show "ws_top d' = ws_top d" "ws_arr d' = ws_arr d" "ws_mem d' = ws_mem d" by (simp_all add: c)
qed

lemma push_call_ok:
  assumes D: "deque_ok N OIdle d" and st: "push_start x d = (c, d')"
  shows "deque_ok N c d'" "lbot c d' = lbot OIdle d" "abs_deque c d' = abs_deque OIdle d" "d' = d"
proof -
  have d: "d' = d" and c: "c = (if ws_bot d - ws_top d > wa_size (cur_arr d) - 1 then PushGrow (ws_top d) x else PushPut x)"
    using st by (auto simp: push_start_def Let_def)
  have T: "unat (ws_top d) \<le> unat (ws_bot d)" "unat (ws_bot d) - unat (ws_top d) \<le> length (wa_buf (cur_arr d))"
    and a: "arr_ok (cur_arr d)" using D by (simp_all add: deque_ok_def)
  obtain k where k: "k < 64" "wa_size (cur_arr d) = 2 ^ k" "length (wa_buf (cur_arr d)) = 2 ^ k" using a by (auto simp: arr_ok_def)
  have df: "unat (ws_bot d - ws_top d) = unat (ws_bot d) - unat (ws_top d)"
    using unat_sub [of "ws_top d" "ws_bot d"] T(1) by (simp add: word_le_nat_alt)
  have sz: "unat (wa_size (cur_arr d) - 1) = length (wa_buf (cur_arr d)) - 1"
    using unat_sub1 [of "2 ^ k"] unat_2p [OF k(1)] by (simp add: k)
  have len: "0 < length (wa_buf (cur_arr d))" by (rule arr_ok_length [OF a])
  have g: "ws_bot d - ws_top d > wa_size (cur_arr d) - 1 \<longleftrightarrow> length (wa_buf (cur_arr d)) \<le> unat (ws_bot d) - unat (ws_top d)"
    unfolding word_less_nat_alt df sz using len by linarith
  show L: "lbot c d' = lbot OIdle d" by (simp add: c d)
  have "own_ok c d'" unfolding c d using g T len by auto
  then show "deque_ok N c d'" using D unfolding deque_ok_def L by (simp add: d)
  show "abs_deque c d' = abs_deque OIdle d" unfolding abs_deque_def L by (simp add: d)
  show "d' = d" by (rule d)
qed

lemma lbot_bot: "own_ok c d \<Longrightarrow> unat (ws_bot d) \<le> lbot c d \<and> lbot c d \<le> unat (ws_bot d) + 1"
  by (cases c) auto

definition keeps_top :: "nat \<Rightarrow> Ci_WSDeque \<Rightarrow> nat \<Rightarrow> Ci_WSDeque \<Rightarrow> bool" where
  "keeps_top L d L' d' \<longleftrightarrow> unat (ws_top d) \<le> unat (ws_top d') \<and> ws_arr d \<le> ws_arr d' \<and>
    (ws_top d' = ws_top d \<longrightarrow> unat (ws_top d) < L \<longrightarrow> unat (ws_top d) < L' \<and>
      aget (cur_arr d') (unat (ws_top d)) = aget (cur_arr d) (unat (ws_top d)) \<and>
      (\<forall>a\<le>ws_arr d. Ci_WSArray_Get (ws_mem d a) (ws_top d) = aget (cur_arr d) (unat (ws_top d)) \<longrightarrow>
        Ci_WSArray_Get (ws_mem d' a) (ws_top d) = aget (cur_arr d) (unat (ws_top d))))"

definition step_ok :: "nat \<Rightarrow> own \<Rightarrow> Ci_WSDeque \<Rightarrow> event \<Rightarrow> own \<Rightarrow> Ci_WSDeque \<Rightarrow> bool" where
  "step_ok N c d e c' d' \<longleftrightarrow> deque_ok (N + (if \<exists>x. e = Pushed x then 1 else 0)) c' d' \<and>
     matches e (abs_deque c d) (abs_deque c' d') \<and> keeps_top (lbot c d) d (lbot c' d') d'"

lemma take_top_ok:
  assumes D: "deque_ok N (TakeTop b) d" and st: "own_step (TakeTop b) d = (e, c', d')"
  shows "step_ok N (TakeTop b) d e c' d'"
proof -
  have T: "1 \<le> unat (ws_top d)" "unat (ws_top d) \<le> unat b + 1" "unat b \<le> N" "ws_bot d = b" and a: "arr_ok (cur_arr d)"
    and l: "unat b + 1 - unat (ws_top d) \<le> length (wa_buf (cur_arr d))"
    using D by (simp_all add: deque_ok_def)
  consider (one) "ws_top d = b" | (more) "unat (ws_top d) < unat b" | (none) "unat (ws_top d) = unat b + 1"
    using T(2) by (metis add.commute le_Suc_eq linorder_cases not_less plus_1_eq_Suc unsigned_word_eqI word_unat_eq_iff less_le)
  then show ?thesis
  proof cases
    case one
    then have "e = Silent" "c' = TakeCas b b (aget (cur_arr d) (unat b))" "d' = d"
      using st Get_aget [OF a] by (auto simp: Let_def)
    then show ?thesis using T a l one by (simp add: step_ok_def deque_ok_def matches_def abs_deque_def keeps_top_def)
  next
    case more
    then have "ws_top d \<le> b" "ws_top d \<noteq> b" by (auto simp: word_le_nat_alt)
    then have c: "e = Took (aget (cur_arr d) (unat b))" "c' = OIdle" "d' = d" using st Get_aget [OF a] by (auto simp: Let_def)
    have "[unat (ws_top d)..<unat b + 1] = [unat (ws_top d)..<unat b] @ [unat b]" using more by simp
    then show ?thesis using T a l more by (simp add: c step_ok_def deque_ok_def matches_def abs_deque_def keeps_top_def dq_take_def)
  next
    case none
    then have "\<not> ws_top d \<le> b" by (auto simp: word_le_nat_alt)
    then have c: "e = TookNone" "c' = TakeRestore b" "d' = d" using st by (auto simp: Let_def)
    show ?thesis using T a l none by (simp add: c step_ok_def deque_ok_def matches_def abs_deque_def keeps_top_def dq_take_def)
  qed
qed

lemma take_cas_ok:
  assumes D: "deque_ok N (TakeCas t b r) d" and N: "N < 2 ^ 62" and st: "own_step (TakeCas t b r) d = (e, c', d')"
  shows "step_ok N (TakeCas t b r) d e c' d'"
proof -
  have T: "1 \<le> unat (ws_top d)" "unat (ws_top d) \<le> unat b + 1" "unat b \<le> N" "ws_bot d = b" "t = b" "unat b \<le> unat (ws_top d)"
    and r: "r = aget (cur_arr d) (unat b)" and a: "arr_ok (cur_arr d)"
    and l: "unat b + 1 - unat (ws_top d) \<le> length (wa_buf (cur_arr d))"
    using D by (simp_all add: deque_ok_def)
  have u: "unat (b + 1) = unat b + 1" using T(3) N by (intro unat_add1) simp
  show ?thesis
  proof (cases "ws_top d = b")
    case True
    then have c: "e = Took r" "c' = TakeRestore b" "d' = d\<lparr>ws_top := b + 1\<rparr>" using st T(5) by auto
    show ?thesis using T a l True u by (simp add: c r step_ok_def deque_ok_def matches_def abs_deque_def keeps_top_def dq_take_def)
  next
    case False
    then have c: "e = TookNone" "c' = TakeRestore b" "d' = d" using st T(5) by auto
    have "unat (ws_top d) \<noteq> unat b" using False by (simp add: word_unat_eq_iff)
    then have "unat (ws_top d) = unat b + 1" using T(2,6) by simp
    then show ?thesis using T a l by (simp add: c step_ok_def deque_ok_def matches_def abs_deque_def keeps_top_def dq_take_def)
  qed
qed

lemma take_restore_ok:
  assumes D: "deque_ok N (TakeRestore b) d" and N: "N < 2 ^ 62" and st: "own_step (TakeRestore b) d = (e, c', d')"
  shows "step_ok N (TakeRestore b) d e c' d'"
proof -
  have T: "unat b \<le> N" using D by (simp add: deque_ok_def)
  have u: "unat (b + 1) = unat b + 1" using T N by (intro unat_add1) simp
  have c: "e = Silent" "c' = OIdle" "d' = d\<lparr>ws_bot := b + 1\<rparr>" using st by auto
  show ?thesis using D u by (simp add: c step_ok_def deque_ok_def matches_def abs_deque_def keeps_top_def)
qed

lemma push_grow_ok:
  assumes D: "deque_ok N (PushGrow t x) d" and N: "N < 2 ^ 62" and st: "own_step (PushGrow t x) d = (e, c', d')"
  shows "step_ok N (PushGrow t x) d e c' d'"
proof -
  let ?a = "Ci_WSArray_Grow (ws_arr d) (cur_arr d) t (ws_bot d)"
  have a: "arr_ok (cur_arr d)" and B: "unat (ws_bot d) \<le> N + 1" "1 \<le> unat (ws_top d)" "unat (ws_top d) \<le> unat (ws_bot d)"
    and O: "unat t \<le> unat (ws_top d)" "unat (ws_bot d) - unat t \<le> length (wa_buf (cur_arr d))"
      "length (wa_buf (cur_arr d)) \<le> unat (ws_bot d)"
    using D by (simp_all add: deque_ok_def)
  have "length (wa_buf (cur_arr d)) \<le> 2 ^ 62" using O(3) B(1) N by linarith
  note g = Grow_ok [OF a this O(2), where n = "ws_arr d"]
  have c: "e = Silent" "c' = PushPut x" "d' = d\<lparr>ws_mem := (ws_mem d)(Suc (ws_arr d) := ?a),
      ws_arr := Suc (ws_arr d), ws_num_resizes := ws_num_resizes d + 1\<rparr>" using st by auto
  have len: "0 < length (wa_buf (cur_arr d))" by (rule arr_ok_length [OF a])
  have "unat (ws_bot d) - unat (ws_top d) < 2 * length (wa_buf (cur_arr d))" using O(1,2) len by linarith
  then have "deque_ok N c' d'" using B g by (simp add: c deque_ok_def)
  moreover have "map (aget ?a) [unat (ws_top d)..<unat (ws_bot d)] = map (aget (cur_arr d)) [unat (ws_top d)..<unat (ws_bot d)]"
    using g(3) O(1) by simp
  moreover have "aget ?a (unat (ws_top d)) = aget (cur_arr d) (unat (ws_top d))" if "unat (ws_top d) < unat (ws_bot d)"
    using g(3) [OF O(1) that] .
  ultimately show ?thesis by (simp add: c step_ok_def matches_def abs_deque_def keeps_top_def)
qed

lemma push_put_ok:
  assumes D: "deque_ok N (PushPut x) d" and st: "own_step (PushPut x) d = (e, c', d')"
  shows "step_ok N (PushPut x) d e c' d'"
proof -
  let ?a = "Ci_WSArray_Put (cur_arr d) (ws_bot d) x"
  have a: "arr_ok (cur_arr d)" and B: "unat (ws_bot d) \<le> N + 1" "1 \<le> unat (ws_top d)" "unat (ws_top d) \<le> unat (ws_bot d)"
    "unat (ws_bot d) - unat (ws_top d) < length (wa_buf (cur_arr d))"
    using D by (simp_all add: deque_ok_def)
  note p = Put_ok [OF a, where i = "ws_bot d" and x = x]
  have c: "e = Silent" "c' = PushBot x" "d' = d\<lparr>ws_mem := (ws_mem d)(ws_arr d := ?a)\<rparr>" using st by auto
  have "deque_ok N c' d'" using B p(1,2,4) by (simp add: c deque_ok_def)
  moreover have eq: "aget ?a j = aget (cur_arr d) j" if "unat (ws_top d) \<le> j" "j < unat (ws_bot d)" for j
    using that B(4) by (intro p(5)) linarith+
  moreover have "Ci_WSArray_Get ?a (ws_top d) = aget (cur_arr d) (unat (ws_top d))" if "unat (ws_top d) < unat (ws_bot d)"
    using eq [OF _ that] Get_aget [OF p(1)] by simp
  ultimately show ?thesis by (simp add: c step_ok_def matches_def abs_deque_def keeps_top_def)
qed

lemma push_bot_ok:
  assumes D: "deque_ok N (PushBot x) d" and N: "N < 2 ^ 62" and st: "own_step (PushBot x) d = (e, c', d')"
  shows "step_ok N (PushBot x) d e c' d'"
proof -
  have B: "unat (ws_bot d) \<le> N + 1" "unat (ws_top d) \<le> unat (ws_bot d)" and x: "aget (cur_arr d) (unat (ws_bot d)) = x"
    using D by (simp_all add: deque_ok_def)
  have u: "unat (ws_bot d + 1) = unat (ws_bot d) + 1" using B(1) N by (intro unat_add1) simp
  have c: "e = Pushed x" "c' = OIdle" "d' = d\<lparr>ws_bot := ws_bot d + 1\<rparr>" using st by auto
  have "deque_ok (N + 1) c' d'" using D u by (simp add: c deque_ok_def Suc_diff_le)
  then show ?thesis using B(2) u x by (simp add: c step_ok_def matches_def abs_deque_def keeps_top_def dq_push_def)
qed

lemma own_step_ok:
  assumes "deque_ok N c d" "N < 2 ^ 62" "own_step c d = (e, c', d')" "c \<noteq> OIdle"
  shows "step_ok N c d e c' d'"
proof (cases c)
  case (TakeTop b)
  then show ?thesis using assms take_top_ok by blast
next
  case (TakeCas t b r)
  then show ?thesis using assms take_cas_ok by blast
next
  case (TakeRestore b)
  then show ?thesis using assms take_restore_ok by blast
next
  case (PushGrow t x)
  then show ?thesis using assms push_grow_ok by blast
next
  case (PushPut x)
  then show ?thesis using assms push_put_ok by blast
next
  case (PushBot x)
  then show ?thesis using assms push_bot_ok by blast
qed (use assms(4) in blast)

lemma lbot_top [simp]: "lbot c (d\<lparr>ws_top := t\<rparr>) = lbot c d"
  by (cases c) simp_all

lemma own_ok_top: "own_ok c d \<Longrightarrow> unat (ws_top d) < lbot c d \<Longrightarrow> unat t = unat (ws_top d) + 1 \<Longrightarrow> own_ok c (d\<lparr>ws_top := t\<rparr>)"
  by (cases c) auto

lemma steal_cas_ok:
  assumes D: "deque_ok N c d" and N: "N < 2 ^ 62" and x: "unat (ws_top d) < lbot c d" "x = aget (cur_arr d) (unat (ws_top d))"
  shows "step_ok N c d (Stole x) c (d\<lparr>ws_top := ws_top d + 1\<rparr>)"
proof -
  have B: "lbot c d \<le> N + 1" using D by (simp add: deque_ok_def)
  have u: "unat (ws_top d + 1) = unat (ws_top d) + 1" using B x(1) N by (intro unat_add1) simp
  have "own_ok c (d\<lparr>ws_top := ws_top d + 1\<rparr>)" using D x(1) u by (intro own_ok_top) (simp_all add: deque_ok_def)
  then have "deque_ok N c (d\<lparr>ws_top := ws_top d + 1\<rparr>)" using D x(1) u by (auto simp: deque_ok_def)
  moreover have "[unat (ws_top d)..<lbot c d] = unat (ws_top d) # [unat (ws_top d) + 1..<lbot c d]"
    using x(1) by (simp add: upt_conv_Cons)
  ultimately show ?thesis using u x(2) by (simp add: step_ok_def matches_def abs_deque_def keeps_top_def dq_steal_def)
qed

lemma step_ok_same: "deque_ok N c d \<Longrightarrow> step_ok N c d Silent c d"
  by (simp add: step_ok_def matches_def keeps_top_def)

lemma thief_step_ok:
  assumes D: "deque_ok N c d" and N: "N < 2 ^ 62" and H: "thief_ok (lbot c d) d h" and st: "thief_step h d = (e, h', d')"
  shows "step_ok N c d e c d' \<and> thief_ok (lbot c d') d' h'"
proof -
  have bt: "unat (ws_bot d) \<le> lbot c d" "lbot c d \<le> unat (ws_bot d) + 1"
    using D lbot_bot by (auto simp: deque_ok_def)
  have a: "arr_ok (cur_arr d)" using D by (simp add: deque_ok_def)
  note same = step_ok_same [OF D]
  show ?thesis
  proof (cases h)
    case (StealBot t)
    show ?thesis
    proof (cases "t < ws_bot d")
      case True
      then show ?thesis using StealBot st H same bt by (auto simp: word_less_nat_alt)
    next
      case False
      then have c: "e = StoleNone" "h' = TIdle" "d' = d" using StealBot st by auto
      have "lbot c d \<le> unat (ws_top d) + 1" using False StealBot H bt by (simp add: word_less_nat_alt)
      then have "lbot c d = unat (ws_top d) \<or> lbot c d = unat (ws_top d) + 1"
        using D by (auto simp: deque_ok_def)
      then have "matches e (abs_deque c d) (abs_deque c d)" by (auto simp: c matches_def abs_deque_def dq_steal_def)
      then show ?thesis using c same by (simp add: step_ok_def)
    qed
  next
    case (StealArr t)
    then have "e = Silent" "h' = StealGet t (ws_arr d)" "d' = d" using st by auto
    then show ?thesis using StealArr H same Get_aget [OF a] by simp
  next
    case (StealGet t r)
    then have "e = Silent" "h' = StealCas t (Ci_WSArray_Get (ws_mem d r) t)" "d' = d" using st by auto
    then show ?thesis using StealGet H same by simp
  next
    case (StealCas t x)
    show ?thesis
    proof (cases "ws_top d = t")
      case True
      then have c: "e = Stole x" "h' = TIdle" "d' = d\<lparr>ws_top := ws_top d + 1\<rparr>" using StealCas st by auto
      have "step_ok N c d (Stole x) c (d\<lparr>ws_top := ws_top d + 1\<rparr>)"
        using StealCas H True by (intro steal_cas_ok [OF D N]) auto
      then show ?thesis by (simp add: c)
    qed (use StealCas st same in auto)
  qed (use st same in auto)
qed

lemma thief_keeps: "keeps_top L d L' d' \<Longrightarrow> thief_ok L d h \<Longrightarrow> thief_ok L' d' h"
  unfolding keeps_top_def by (rule thief_frame) blast+

definition contents :: "ws \<Rightarrow> deque" where
  "contents s = abs_deque (s_own s) (s_deque s)"

definition pushes :: "event list \<Rightarrow> 64 word list" where
  "pushes es = concat (map (\<lambda>e. case e of Pushed x \<Rightarrow> [x] | _ \<Rightarrow> []) es)"

definition handed_out :: "event list \<Rightarrow> 64 word list" where
  "handed_out es = concat (map (\<lambda>e. case e of Took x \<Rightarrow> [x] | Stole x \<Rightarrow> [x] | _ \<Rightarrow> []) es)"

lemma pushes_simps [simp]: "pushes [] = []" "pushes (e # es) = (case e of Pushed x \<Rightarrow> [x] | _ \<Rightarrow> []) @ pushes es"
  by (simp_all add: pushes_def)

lemma handed_out_simps [simp]:
  "handed_out [] = []"
  "handed_out (e # es) = (case e of Took x \<Rightarrow> [x] | Stole x \<Rightarrow> [x] | _ \<Rightarrow> []) @ handed_out es"
  by (simp_all add: handed_out_def)

lemma pushes_count: "length (pushes (e # es)) = length (pushes es) + (if \<exists>x. e = Pushed x then 1 else 0)"
  by (cases e) auto

lemma owner_moves:
  assumes I: "ws_inv N s" and ok: "step_ok N (s_own s) (s_deque s) e c d"
    and N: "N' = N + (if \<exists>x. e = Pushed x then 1 else 0)" "N' < 2 ^ 62"
  shows "ws_inv N' (s\<lparr>s_own := c, s_deque := d\<rparr>) \<and> matches e (contents s) (contents (s\<lparr>s_own := c, s_deque := d\<rparr>))"
  using I ok N thief_keeps unfolding ws_inv_def step_ok_def contents_def by auto

lemma call_moves:
  assumes I: "ws_inv N s" and c: "s_own s = OIdle" and ok: "deque_ok N c d" "lbot c d = lbot OIdle (s_deque s)"
    "abs_deque c d = abs_deque OIdle (s_deque s)" "ws_top d = ws_top (s_deque s)" "ws_arr d = ws_arr (s_deque s)" "ws_mem d = ws_mem (s_deque s)"
  shows "ws_inv N (s\<lparr>s_own := c, s_deque := d\<rparr>) \<and> matches Silent (contents s) (contents (s\<lparr>s_own := c, s_deque := d\<rparr>))"
proof -
  have "step_ok N (s_own s) (s_deque s) Silent c d"
    using ok unfolding step_ok_def c keeps_top_def matches_def by simp
  then show ?thesis using I by (intro owner_moves) (simp_all add: ws_inv_def)
qed

lemma ws_step_ok:
  assumes st: "ws_step s e s'" and I: "ws_inv N s"
    and N: "N' = N + (if \<exists>x. e = Pushed x then 1 else 0)" "N' < 2 ^ 62"
  shows "ws_inv N' s' \<and> matches e (contents s) (contents s')"
proof -
  have D: "deque_ok N (s_own s) (s_deque s)" and N62: "N < 2 ^ 62"
    and H: "\<And>i. thief_ok (lbot (s_own s) (s_deque s)) (s_deque s) (s_thief s i)"
    using I by (simp_all add: ws_inv_def)
  from st show ?thesis
  proof cases
    case (take_call c d)
    note k = take_call_ok [OF D [unfolded take_call(3)] take_call(4)]
    show ?thesis using call_moves [OF I take_call(3) k] N(1) by (simp add: take_call)
  next
    case (push_call obj c d)
    note k = push_call_ok [OF D [unfolded push_call(3)] push_call(4)]
    show ?thesis using call_moves [OF I push_call(3) k(1-3)] k(4) N(1) by (simp add: push_call)
  next
    case (owner c d)
    show ?thesis unfolding owner(1) using own_step_ok [OF D N62 owner(3,2)] by (rule owner_moves [OF I _ N])
  next
    case (steal_call i)
    then show ?thesis using I N(1) by (auto simp: ws_inv_def matches_def contents_def)
  next
    case (thief i c d)
    have k: "step_ok N (s_own s) (s_deque s) e (s_own s) d" "thief_ok (lbot (s_own s) d) d c"
      using thief_step_ok [OF D N62 H thief(3)] by simp_all
    have m: "ws_inv N' (s\<lparr>s_own := s_own s, s_deque := d\<rparr>) \<and> matches e (contents s) (contents (s\<lparr>s_own := s_own s, s_deque := d\<rparr>))"
      by (rule owner_moves [OF I k(1) N])
    then show ?thesis using k(2) unfolding thief(1) ws_inv_def contents_def by simp
  qed
qed

lemma ws_init_inv: "ws_inv 0 ws_init"
proof -
  have "arr_ok (Ci_WSArray_New kCiParGCInitialArrSize)"
    by (auto simp: arr_ok_def Ci_WSArray_New_def kCiParGCInitialArrSize_def intro!: exI [of _ 12])
  then show ?thesis by (simp add: ws_inv_def ws_init_def Ci_WSDeque_Init_def deque_ok_def)
qed

lemma contents_init: "contents ws_init = dq_new"
  by (simp add: contents_def ws_init_def Ci_WSDeque_Init_def abs_deque_def dq_new_def)

text \<open>A history of operations on the abstract deque, the last first, and what it leaves.\<close>

inductive dq_history :: "event list \<Rightarrow> deque \<Rightarrow> bool" where
  new: "dq_history [] dq_new"
| op: "dq_history es q \<Longrightarrow> matches e q q' \<Longrightarrow> dq_history (e # es) q'"

lemma ws_run_ok:
  assumes "ws_run es s" "length (pushes es) < 2 ^ 62"
  shows "ws_inv (length (pushes es)) s \<and> dq_history es (contents s)"
  using assms
proof (induction rule: ws_run.induct)
  case init
  then show ?case using ws_init_inv contents_init dq_history.new by simp
next
  case (step es s e s')
  have l: "length (pushes es) < 2 ^ 62" using step.prems pushes_count [of e es] by linarith
  then have IH: "ws_inv (length (pushes es)) s" "dq_history es (contents s)" using step.IH by simp_all
  then show ?case using ws_step_ok [OF step.hyps(2) IH(1) pushes_count step.prems] dq_history.op by blast
qed

lemma history_conserves: "dq_history es q \<Longrightarrow> mset (pushes es) = mset (handed_out es) + mset (dq_items q)"
proof (induction rule: dq_history.induct)
  case new
  then show ?case by (simp add: dq_new_def)
next
  case (op es q e q')
  show ?case
  proof (cases e)
    case (Took x)
    then show ?thesis using op by (cases "dq_items q" rule: rev_cases) (auto simp: matches_def dq_take_def split: if_splits)
  next
    case (Stole x)
    then show ?thesis using op by (cases "dq_items q") (auto simp: matches_def dq_steal_def)
  qed (use op in \<open>auto simp: matches_def dq_push_def dq_take_def dq_steal_def split: if_splits\<close>)
qed

text \<open>What \<open>Ci_WSDeque_Size\<close> reads.\<close>

lemma ws_reads:
  assumes "ws_inv N s"
  shows "unat (ws_top (s_deque s)) = dq_top (contents s)"
    "unat (ws_bot (s_deque s)) \<in> {dq_read_bot False (contents s), dq_read_bot True (contents s)}"
proof -
  have "deque_ok N (s_own s) (s_deque s)" using assms by (simp add: ws_inv_def)
  then have "unat (ws_top (s_deque s)) \<le> lbot (s_own s) (s_deque s)" "own_ok (s_own s) (s_deque s)" by (simp_all add: deque_ok_def)
  then show "unat (ws_top (s_deque s)) = dq_top (contents s)"
    "unat (ws_bot (s_deque s)) \<in> {dq_read_bot False (contents s), dq_read_bot True (contents s)}"
    using lbot_bot [of "s_own s" "s_deque s"] by (auto simp: contents_def abs_deque_def dq_read_bot_def dq_bot_def)
qed

lemma ws_size_idle:
  assumes "ws_inv N s" "s_own s = OIdle"
  shows "unat (Ci_WSDeque_Size (ws_bot (s_deque s)) (ws_top (s_deque s))) = length (dq_items (contents s))"
proof -
  have "ws_top (s_deque s) \<le> ws_bot (s_deque s)"
    using assms by (simp add: ws_inv_def deque_ok_def word_le_nat_alt)
  then show ?thesis using assms(2) by (auto simp: Ci_WSDeque_Size_def contents_def abs_deque_def unat_sub)
qed

section \<open>The arrays are freed\<close>

definition chain_ok :: "Ci_WSDeque \<Rightarrow> bool" where
  "chain_ok d \<longleftrightarrow> (\<forall>i\<le>ws_arr d. wa_next (ws_mem d i) = (if i = 0 then None else Some (i - 1))) \<and>
     Ci_WSDeque_GetNumResizes d = int (ws_arr d)"

lemma wa_next_Put [simp]: "wa_next (Ci_WSArray_Put a i x) = wa_next a"
  by (simp add: Ci_WSArray_Put_def)

lemma wa_next_grow_copy: "wa_next (grow_copy arr i b new) = wa_next new"
  by (induction arr i b new rule: grow_copy.induct) (subst grow_copy.simps, simp)

lemma wa_next_Grow [simp]: "wa_next (Ci_WSArray_Grow n arr t b) = Some n"
  by (simp add: Ci_WSArray_Grow_def wa_next_grow_copy)

lemma own_step_chain: "own_step c d = (e, c', d') \<Longrightarrow> chain_ok d \<Longrightarrow> chain_ok d'"
  by (cases c) (auto simp: chain_ok_def Ci_WSDeque_GetNumResizes_def Let_def le_Suc_eq split: if_splits)

lemma thief_step_chain: "thief_step h d = (e, h', d') \<Longrightarrow> chain_ok d \<Longrightarrow> chain_ok d'"
  by (cases h) (auto simp: chain_ok_def Ci_WSDeque_GetNumResizes_def split: if_splits)

lemma call_chain:
  "take_start d = (c, d') \<Longrightarrow> chain_ok d \<Longrightarrow> chain_ok d'"
  "push_start x d = (c, d') \<Longrightarrow> chain_ok d \<Longrightarrow> chain_ok d'"
  by (auto simp: take_start_def push_start_def Let_def chain_ok_def Ci_WSDeque_GetNumResizes_def)

lemma ws_run_chain: "ws_run es s \<Longrightarrow> chain_ok (s_deque s)"
proof (induction rule: ws_run.induct)
  case init
  then show ?case
    by (simp add: chain_ok_def Ci_WSDeque_GetNumResizes_def ws_init_def Ci_WSDeque_Init_def Ci_WSArray_New_def)
next
  case (step es s e s')
  from step.hyps(2) step.IH show ?case
    by cases (auto dest: own_step_chain thief_step_chain call_chain)
qed

lemma destroy_chain:
  "(\<And>i. i \<le> a \<Longrightarrow> wa_next (arrays i) = (if i = 0 then None else Some (i - 1))) \<Longrightarrow>
    Ci_WSArray_Destroy arrays a = Some [0..<Suc a]"
proof (induction a)
  case 0
  then show ?case by (subst Ci_WSArray_Destroy.simps) simp
next
  case (Suc a)
  then have "Ci_WSArray_Destroy arrays a = Some [0..<Suc a]" "wa_next (arrays (Suc a)) = Some a" by simp_all
  then show ?case by (subst Ci_WSArray_Destroy.simps) simp
qed

text \<open>\<open>Ci_WSDeque_Fini\<close> ends and frees every array that was ever allocated, once; the counter tells how many grew.\<close>

lemma ws_fini_frees:
  assumes "ws_run es s"
  shows "Ci_WSDeque_Fini (s_deque s) = Some [0..<Suc (ws_arr (s_deque s))]"
    and "Ci_WSDeque_GetNumResizes (s_deque s) = int (ws_arr (s_deque s))"
  using ws_run_chain [OF assms] destroy_chain unfolding Ci_WSDeque_Fini_def chain_ok_def by blast+

end
