(* ===== verification/Spec2Isabelle.thy ===== *)
theory Spec2Isabelle
  imports Dict_Properties GC_Generations WS_Deque_Correct
begin

text \<open>
  A verification of the Static Python containers and of the parallel garbage collector of CinderX, an extension of
  CPython. All paths are below \<open>src/cinderx\<close>.

  \<^bold>\<open>The program.\<close> \<open>StaticPython\<close> gives Python typed containers: \<open>CheckedList[T]\<close> (\<open>checked_list.c\<close>) and
  \<open>CheckedDict[K, V]\<close> (\<open>checked_dict.c\<close>), each a copy of CPython's container with checks of the types of what is stored.
  The types are instances of generic types, made and cached by \<open>generic_type.c\<close>; the methods are described by typed
  signatures, and \<open>typed_method_def.c\<close> checks and converts their arguments. \<open>ParallelGC\<close> replaces CPython's collector:
  \<open>parallel_gc.c\<close> finds the unreachable objects of a generation, either with one thread or with a pool of workers
  that count and mark together and pass objects on through the work-stealing deques of \<open>ws_deque.h\<close>.

  \<^bold>\<open>Shared vocabulary.\<close> \<open>Cinderx_Prelude\<close> has the error values, the result type \<open>py_error + 'a\<close> of fallible functions, the
  limits of \<open>Py_ssize_t\<close> and \<open>size_t\<close>, block copies and list lemmas.

  \<^bold>\<open>Lists.\<close> \<open>List_Object\<close> is \<open>PyListObject\<close> as a record with \<open>list_resize\<close>, insertion, deletion, slices, repetition
  and concatenation; \<open>List_Methods\<close> has what calls back into the interpreter (search, comparison, \<open>repr\<close>,
  extension by an iterator), subscripts and the iterators. \<open>Sort_Search\<close>, \<open>Sort_Merge\<close> and \<open>List_Sort\<close> are the whole of
  the sort: runs, binary insertion, galloping, merging, the stack of pending runs, the choice of a compare
  function, keys and \<open>reverse\<close>. \<open>Checked_List\<close> adds allocation, the free list and the typed methods. The theories whose
  names end in \<open>_Correct\<close>, and \<open>Sort_Spec\<close>, \<open>Sort_Merge_Lo\<close>, \<open>Sort_Merge_Hi\<close> and \<open>Sort_Stack\<close>, show that the
  operations implement operations on HOL lists, that sorting is stable for a consistent order and loses nothing for
  any, that no assertion of the sort fails, that the pending stack is large enough, and that every state that the
  checked methods can reach has items of the right type only. \<open>List_Properties\<close> states the results.

  \<^bold>\<open>Dictionaries.\<close> \<open>Dict_Probe\<close> shows that the probe sequence reaches every slot. \<open>Dict_Object\<close> is the hash table (its
  lookup functions, insertion, resizing, deletion), \<open>Dict_Merge\<close> updating, copying and comparing, \<open>Checked_Dict\<close> the typed
  operations and the free list, \<open>Dict_Iter\<close> iterators and printing. \<open>Dict_Table\<close>, \<open>Dict_Object_Correct\<close>,
  \<open>Dict_Merge_Correct\<close>, \<open>Checked_Dict_Correct\<close> and \<open>Dict_Iter_Correct\<close> show that searches end, that the table
  implements a list of items in insertion order, and that types and the table's consistency hold in all
  reachable states. \<open>Typed_Methods\<close> and \<open>Generic_Types\<close> model the signatures and the generic types with their lemmas.
  \<open>Dict_Properties\<close> states the results of all of these.

  \<^bold>\<open>The collector.\<close> \<open>GC_Head\<close> has the headers, their flag bits and the circular lists; \<open>GC_Deduce\<close> the serial search
  (\<open>update_refs\<close>, \<open>subtract_refs\<close>, \<open>move_unreachable\<close>, \<open>deduce_unreachable\<close>), the legacy finalizers and
  \<open>handle_resurrected_objects\<close>; \<open>GC_Parallel\<close> the semaphore, the barrier, the slices, the workers as a step function over
  program counters and \<open>Ci_deduce_unreachable_parallel\<close>. \<open>GC_Subtract\<close>, \<open>GC_Move\<close>, \<open>GC_Split\<close> and \<open>GC_Deduce_Correct\<close>
  prove the serial search, \<open>GC_Legacy\<close> and \<open>GC_Resurrect\<close> what follows it. \<open>GC_Collect\<close> has the loops that call into the
  program (\<open>finalize_garbage\<close>, \<open>delete_garbage\<close>, \<open>handle_legacy_finalizers\<close>) and shows that they end and call each object
  once, \<open>GC_Generations\<close> the first half of \<open>gc_collect_main\<close>, which composes merging the generations, either search,
  untracking, promotion and the legacy finalizers. For the parallel search, \<open>GC_Slices\<close>
  shows that the slices divide the generation, \<open>GC_Workers\<close>, \<open>GC_Marking\<close> and \<open>GC_Termination\<close> are the invariants of
  counting, marking and of the detection of the end under every interleaving, \<open>GC_Parallel_Correct\<close> the result, and
  \<open>GC_Progress\<close> that every run can be completed. \<open>WS_Deque\<close> is the deque, every access to shared memory a step;
  \<open>WS_Deque_Correct\<close> shows that its operations have the effects that \<open>GC_Parallel\<close> gives them. The properties of the
  collector are below.

  \<^bold>\<open>Interfaces.\<close> What the code asks of the interpreter is a parameter: comparisons, hashes, keys, iterators, type tests,
  reference counts, \<open>tp_traverse\<close>. Callbacks thread a state that contains the container itself, because they may
  change it. The laws that a property needs are the assumptions of a locale or hypotheses of the property: a consistent order
  for sorting, \<open>quiet_keys\<close> for dictionaries (hashing and comparing neither fail nor change the dictionary),
  \<open>gc_ready\<close> for the collector (well formed lists, and reference counts not below the number of references from
  inside; \<open>collect_ready\<close> says it of all generations; for the parallel collector also less than \<open>2 ^ 31\<close> objects, none at address 0), \<open>finalizers_ok\<close>, \<open>clears_ok\<close> and
  \<open>untracks\<close> for the calls into the program during a collection (they take objects out of the collector's lists and add none).
  The locales are interpreted on the model's own
  definitions and on built-in types of keys and items. \<open>mem n\<close> answers whether the allocator grants \<open>n\<close> bytes.

  \<^bold>\<open>Integers, loops, concurrency.\<close> Machine integers are words, or integers with the bounds written out, for a 64-bit
  build. A loop that a callback or a damaged list could keep running is a partial function with the value \<open>None\<close>
  where it does not return; the properties show that it returns. There is no fuel. Threads interleave single accesses to
  shared memory, sequentially consistent; critical sections of a mutex are single steps. The indices of a deque do
  not wrap within \<open>2 ^ 62\<close> pushes.

  \<^bold>\<open>Not modelled.\<close> Of the containers: reference counts and finalizers of stored objects, the views of dictionaries and
  \<open>__sizeof__\<close>, the free list of keys objects, the type tables, the vectorcall trampolines that macros generate, and
  \<open>gtd_make_heap_type\<close>, which copies type slots. Of the collector: weak references, the statistics and messages of \<open>gc_collect_main\<close>, switching the parallel
  collector on and off, creating and joining threads, the layout of CPython 3.14, and relaxed memory orders. Of the rest: the class loader with its vtables
  and thunks, strict modules, cached properties, the interpreters, the JIT compiler, the sources borrowed from CPython,
  and the compiler and library written in Python; they are glue around calls into the interpreter or programs of their
  own.
\<close>

section \<open>A small heap\<close>

text \<open>
  Four containers in a generation at 256: the first refers to the second and is itself referred to from outside, the
  last two form a cycle. The permanent generation at 512 is empty; 768 and 1024 are unused list heads.
\<close>

definition demo_env :: gcenv where
  "demo_env = \<lparr>ob_refcnt = (\<lambda>_. 1), is_immortal = (\<lambda>_. False), is_gc = (\<lambda>_. True),
     tp_traverse = (\<lambda>op. if op = 4112 then [8208] else if op = 12304 then [16400]
       else if op = 16400 then [12304] else []),
     tp_del = (\<lambda>op. op = 12304)\<rparr>"

definition demo_heap :: gcheap where
  "demo_heap = \<lparr>gc_prev = (\<lambda>_. 0)(256 := 16384, 4096 := 256, 8192 := 4096, 12288 := 8192, 16384 := 12288,
       512 := 512, 1024 := 1024),
     gc_next = (\<lambda>_. 0)(256 := 4096, 4096 := 8192, 8192 := 12288, 12288 := 16384, 16384 := 256,
       512 := 512, 1024 := 1024)\<rparr>"

abbreviation (input) demo_objects :: "addr list" where
  "demo_objects \<equiv> [4096, 8192, 12288, 16384]"

lemma demo_aligned:
  "aligned 256" "aligned 512" "aligned 768" "aligned 1024" "aligned 4096" "aligned 8192" "aligned 12288" "aligned 16384"
  by (simp_all add: aligned_def)

lemma demo_referents:
  "referents demo_env 4096 = [8192]" "referents demo_env 8192 = []" "referents demo_env 12288 = [16384]"
  "referents demo_env 16384 = [12288]"
  by (simp_all add: referents_def demo_env_def FROM_GC_def AS_GC_def)

lemma demo_collected: "collected demo_env xs = xs"
  by (induction xs) (simp_all add: collected_def mortal_def demo_env_def)


lemma demo_refcnt: "refcnt demo_env y = 1"
  by (simp add: refcnt_def demo_env_def)

lemma demo_lists: "gc_list demo_heap 256 demo_objects" "gc_list demo_heap 512 []" "gc_list demo_heap 1024 []"
  using demo_aligned by (simp_all add: gc_list_def demo_heap_def GC_PREV_def aligned_mask)

lemma demo_internal:
  "internal_refs demo_env demo_objects 4096 = 0" "internal_refs demo_env demo_objects 8192 = 1"
  "internal_refs demo_env demo_objects 12288 = 1" "internal_refs demo_env demo_objects 16384 = 1"
  by (simp_all add: internal_refs_def demo_referents)

lemma demo_ready: "gc_ready demo_env demo_heap 512 [] 256 demo_objects 768"
  using demo_lists demo_aligned
  by (simp add: gc_ready_def demo_collected demo_referents demo_refcnt demo_internal)

lemma demo_alive: "{y \<in> set demo_objects. alive demo_env demo_objects y} = {4096, 8192}"
proof -
  have roots: "roots demo_env demo_objects = {4096}" by (auto simp: roots_def demo_refcnt demo_internal)
  have a: "alive demo_env demo_objects 4096" unfolding alive_def roots by (rule reaches.root) auto
  have b: "alive demo_env demo_objects 8192"
    unfolding alive_def by (rule reaches.step [OF a [unfolded alive_def]]) (simp_all add: demo_referents)
  have "y \<in> {4096, 8192}" if "alive demo_env demo_objects y" for y
    using that unfolding alive_def by (rule reaches_least) (auto simp: roots demo_referents)
  then show ?thesis using a b by auto
qed

lemma demo_dead: "{y \<in> set demo_objects. \<not> alive demo_env demo_objects y} = {12288, 16384}"
proof -
  have "{y \<in> set demo_objects. \<not> alive demo_env demo_objects y} =
      set demo_objects - {y \<in> set demo_objects. alive demo_env demo_objects y}" by blast
  then show ?thesis unfolding demo_alive by simp
qed

section \<open>The serial collector\<close>

text \<open>
  C15. The passes \<open>update_refs\<close> and \<open>subtract_refs\<close> end, and leave in the header of every mortal object of the
  generation the number of its references that do not come from the generation; immortal objects have
  been moved to the permanent generation. No count falls below 0 on the way.
\<close>

theorem counting_passes_count:
  assumes "gc_ready env h perm ps base xs unr"
  shows "\<exists>h1 h2. update_refs env perm h base = Some (h1, length (collected env xs)) \<and>
    subtract_refs env h1 base = Some h2 \<and>
    gc_list h2 perm (ps @ filter (\<lambda>x. \<not> mortal env x) xs) \<and>
    (\<forall>y\<in>set (collected env xs). gc_is_collecting h2 y \<and>
       unat (gc_get_refs h2 y) = refcnt env y - internal_refs env (collected env xs) y)"
proof -
  obtain h1 h2 where u: "update_refs env perm h base = Some (h1, length (collected env xs))"
    and s: "subtract_refs env h1 base = Some h2" and c: "refs_counted env h perm ps base xs h2"
    using update_subtract_counts [OF assms] by blast
  have "unat (gc_get_refs h2 y) = refcnt env y - internal_refs env (collected env xs) y"
    if "y \<in> set (collected env xs)" for y
  proof -
    have "unat (gc_get_refs h2 y) + internal_refs env (collected env xs) y = refcnt env y"
      using c that by (simp add: refs_counted_def)
    then show ?thesis by linarith
  qed
  then show ?thesis using u s c by (auto simp: refs_counted_def)
qed

theorem counting_passes_count_witness:
  "\<exists>h1 h2. update_refs demo_env 512 demo_heap 256 = Some (h1, 4) \<and> subtract_refs demo_env h1 256 = Some h2 \<and>
    gc_get_refs h2 4096 = 1 \<and> gc_get_refs h2 8192 = 0 \<and> gc_get_refs h2 12288 = 0 \<and> gc_get_refs h2 16384 = 0"
proof -
  obtain h1 h2 where u: "update_refs demo_env 512 demo_heap 256 = Some (h1, length demo_objects)"
    and s: "subtract_refs demo_env h1 256 = Some h2" and
    r: "\<And>y. y \<in> set demo_objects \<Longrightarrow> unat (gc_get_refs h2 y) = 1 - internal_refs demo_env demo_objects y"
    using counting_passes_count [OF demo_ready] unfolding demo_collected demo_refcnt by blast
  have "unat (gc_get_refs h2 4096) = 1" "unat (gc_get_refs h2 8192) = 0" "unat (gc_get_refs h2 12288) = 0"
    "unat (gc_get_refs h2 16384) = 0"
    using r [of 4096] r [of 8192] r [of 12288] r [of 16384] unfolding demo_internal by simp_all
  then have g: "gc_get_refs h2 4096 = 1" "gc_get_refs h2 8192 = 0" "gc_get_refs h2 12288 = 0" "gc_get_refs h2 16384 = 0"
    unfolding word_unat_eq_iff by simp_all
  have "length demo_objects = 4" by simp
  from u [unfolded this] s g show ?thesis by (intro exI conjI)
qed

text \<open>
  C4. \<open>deduce_unreachable\<close> returns. The list \<open>base\<close> keeps exactly the mortal objects that are reachable from one
  with a reference from outside the generation, and is an ordinary list again with the collecting bit cleared; the
  list \<open>unreachable\<close> holds exactly the others, with the collecting bit set and the flag in \<open>_gc_next\<close>.
  Everything else in memory is unchanged but the heads and the permanent generation, which receives the immortal objects.
\<close>

theorem deduce_unreachable_correct:
  assumes "gc_ready env h perm ps base xs unr"
  shows "\<exists>h' D U. deduce_unreachable env perm h base unr = Some h' \<and>
    gc_list h' base D \<and> gc_masked_list h' unr U \<and> gc_list h' perm (ps @ filter (\<lambda>x. \<not> mortal env x) xs) \<and>
    set D = {y \<in> set (collected env xs). alive env (collected env xs) y} \<and>
    set U = {y \<in> set (collected env xs). \<not> alive env (collected env xs) y} \<and>
    (\<forall>d\<in>set D. \<not> gc_is_collecting h' d) \<and> (\<forall>u\<in>set U. gc_is_collecting h' u) \<and>
    (\<forall>a. a \<notin> set (unr # base # xs @ perm # ps) \<longrightarrow> same_at h h' a)"
  using deduce_unreachable_deduces [OF assms] unfolding deduced_def by blast

theorem deduce_unreachable_correct_witness:
  "\<exists>h' D U. deduce_unreachable demo_env 512 demo_heap 256 768 = Some h' \<and> gc_list h' 256 D \<and> gc_masked_list h' 768 U \<and>
    set D = {4096, 8192} \<and> set U = {12288, 16384}"
proof -
  obtain h' D U where "deduce_unreachable demo_env 512 demo_heap 256 768 = Some h'" "gc_list h' 256 D" "gc_masked_list h' 768 U"
    "set D = {4096, 8192}" "set U = {12288, 16384}"
    using deduce_unreachable_correct [OF demo_ready] unfolding demo_collected demo_alive demo_dead by (elim exE conjE)
  then show ?thesis by (intro exI conjI)
qed

text \<open>
  C8. After \<open>deduce_unreachable\<close>, \<open>move_legacy_finalizers\<close> and \<open>move_legacy_finalizer_reachable\<close> return. They
  leave two ordinary lists: \<open>finalizers\<close> with exactly the unreachable objects that have a \<open>tp_del\<close> slot or are
  reachable from one that has, without the collecting bit, and \<open>unreachable\<close> with the rest.
\<close>

theorem legacy_finalizers_separated:
  assumes "gc_masked_list h unr U" "gc_list h fin []" "distinct (unr # fin # U)"
    and "\<forall>y\<in>set U. \<forall>a\<in>set (referents env y). a \<noteq> unr \<and> a \<noteq> fin \<and> (a \<notin> set U \<longrightarrow> \<not> gc_is_collecting h a)"
  shows "\<exists>h1 h2 F V. move_legacy_finalizers env h unr fin = Some h1 \<and>
    move_legacy_finalizer_reachable env h1 fin = Some h2 \<and> gc_list h2 fin F \<and> gc_list h2 unr V \<and>
    set F = {y \<in> set U. reaches env (set U) {x \<in> set U. legacy env x} y} \<and> set V = set U - set F \<and>
    (\<forall>a\<in>set U. gc_is_collecting h2 a \<longleftrightarrow> a \<in> set V)"
proof -
  obtain h1 h2 F V where "move_legacy_finalizers env h unr fin = Some h1" "move_legacy_finalizer_reachable env h1 fin = Some h2"
    "gc_list h2 fin F" "gc_list h2 unr V" "set F = {y \<in> set U. reaches env (set U) {x \<in> set U. legacy env x} y}"
    "set V = set U - set F" "\<forall>a\<in>set U. gc_is_collecting h2 a \<longleftrightarrow> a \<in> set V"
    using legacy_splits [OF assms] by (elim exE conjE)
  then show ?thesis by (intro exI conjI)
qed

text \<open>The unreachable cycle as \<open>deduce_unreachable\<close> leaves it, at 768.\<close>

definition demo_garbage :: gcheap where
  "demo_garbage = \<lparr>gc_prev = (\<lambda>_. 0)(768 := 16384, 12288 := 768 OR PREV_MASK_COLLECTING,
       16384 := 12288 OR PREV_MASK_COLLECTING, 1024 := 1024),
     gc_next = (\<lambda>_. 0)(768 := 12288, 12288 := NEXT_MASK_UNREACHABLE OR 16384,
       16384 := NEXT_MASK_UNREACHABLE OR 768, 1024 := 1024)\<rparr>"

lemma demo_garbage_lists: "gc_masked_list demo_garbage 768 [12288, 16384]" "gc_list demo_garbage 1024 []"
proof -
  note a = demo_aligned aligned_next_mask aligned_mask or_collecting_word
  show "gc_list demo_garbage 1024 []"
    using demo_aligned by (simp add: gc_list_def demo_garbage_def GC_PREV_def aligned_mask)
  have "links (uview demo_garbage) [768, 12288, 16384, 768]"
    by (simp add: uview_def demo_garbage_def a)
  moreover have "links (GC_PREV demo_garbage) [768, 16384, 12288, 768]"
    by (simp add: GC_PREV_def demo_garbage_def a)
  moreover have "gc_is_collecting demo_garbage u" "flagged demo_garbage u" if "u \<in> {12288, 16384}" for u
    using that by (auto simp: gc_is_collecting_bit flagged_def demo_garbage_def a)
  moreover have "\<not> flagged demo_garbage 768" "aligned (gc_prev demo_garbage 768)"
    by (simp_all add: flagged_def demo_garbage_def a)
  ultimately show "gc_masked_list demo_garbage 768 [12288, 16384]"
    using demo_aligned by (simp add: gc_masked_list_def mu_unr_def)
qed

theorem legacy_finalizers_separated_witness:
  "\<exists>h1 h2 F V. move_legacy_finalizers demo_env demo_garbage 768 1024 = Some h1 \<and>
    move_legacy_finalizer_reachable demo_env h1 1024 = Some h2 \<and> gc_list h2 1024 F \<and> gc_list h2 768 V \<and>
    12288 \<in> set F \<and> 16384 \<in> set F \<and> V = []"
proof -
  let ?U = "[12288, 16384] :: addr list" and ?R = "{x \<in> set [12288, 16384]. legacy demo_env x}"
  have "legacy demo_env 12288" by (simp add: legacy_def has_legacy_finalizer_def demo_env_def FROM_GC_def)
  then have r1: "reaches demo_env (set ?U) ?R 12288" by (intro reaches.root) auto
  have r2: "reaches demo_env (set ?U) ?R 16384" by (rule reaches.step [OF r1]) (simp_all add: demo_referents)
  have "\<forall>y\<in>set ?U. \<forall>a\<in>set (referents demo_env y). a \<noteq> 768 \<and> a \<noteq> 1024 \<and> (a \<notin> set ?U \<longrightarrow> \<not> gc_is_collecting demo_garbage a)"
    by (simp add: demo_referents)
  moreover have "distinct (768 # 1024 # ?U)" by simp
  ultimately
  obtain h1 h2 F V where m: "move_legacy_finalizers demo_env demo_garbage 768 1024 = Some h1"
    "move_legacy_finalizer_reachable demo_env h1 1024 = Some h2" "gc_list h2 1024 F" "gc_list h2 768 V"
    and F: "set F = {y \<in> set ?U. reaches demo_env (set ?U) ?R y}" and V: "set V = set ?U - set F"
    using legacy_finalizers_separated [OF demo_garbage_lists, of demo_env] by blast
  have "set F = set ?U" unfolding F using r1 r2 by auto
  then have "12288 \<in> set F" "16384 \<in> set F" "V = []" using V by auto
  with m show ?thesis by (intro exI conjI)
qed

text \<open>
  C9. \<open>handle_resurrected_objects\<close> returns. Given the reference counts after the finalizers have run, the objects of
  the unreachable list that are reachable again end at the tail of the old generation, those that are not in
  the list \<open>still_unreachable\<close>, and the unreachable list is empty.
\<close>

theorem resurrected_objects_kept:
  assumes "resurrect_ready env h perm ps unr U still old os"
  shows "\<exists>h' D S. handle_resurrected_objects env perm h unr still old = Some h' \<and>
    gc_list h' old (os @ D) \<and> gc_list h' still S \<and> gc_list h' unr [] \<and>
    set D = {y \<in> set (collected env U). alive env (collected env U) y} \<and>
    set S = {y \<in> set (collected env U). \<not> alive env (collected env U) y}"
  by (rule handle_resurrected_splits [OF assms])

theorem resurrected_objects_kept_witness:
  "\<exists>h' D S. handle_resurrected_objects demo_env 512 demo_heap 256 768 1024 = Some h' \<and> gc_list h' 1024 D \<and> gc_list h' 768 S \<and>
    set D = {4096, 8192} \<and> set S = {12288, 16384}"
proof -
  have "\<not> gc_is_collecting demo_heap a" if "a \<in> {4096, 8192, 12288, 16384}" for a
    using that by (auto simp: gc_is_collecting_bit demo_heap_def demo_aligned aligned_mask)
  then have "resurrect_ready demo_env demo_heap 512 [] 256 demo_objects 768 1024 []"
    using demo_lists demo_aligned
    by (simp add: resurrect_ready_def demo_collected demo_referents demo_refcnt demo_internal)
  from resurrected_objects_kept [OF this] obtain h' D S where
    "handle_resurrected_objects demo_env 512 demo_heap 256 768 1024 = Some h'" "gc_list h' 1024 ([] @ D)" "gc_list h' 768 S"
    "set D = {4096, 8192}" "set S = {12288, 16384}"
    unfolding demo_collected demo_alive demo_dead by (elim exE conjE)
  then show ?thesis unfolding append_Nil by (intro exI conjI)
qed

text \<open>
  C17. The lists of the collector behave as lists: moving a node takes it out of its list and appends it to the other,
  merging appends the nodes of one list to the other and empties it, the size is the length, and no header
  outside the two lists is touched.
\<close>

theorem gc_lists_are_lists:
  assumes "gc_list h from (as @ node # bs)" "gc_list h to ys"
    and "set (from # as @ node # bs) \<inter> set (to # ys) = {}"
  shows "gc_list (gc_list_move h node to) from (as @ bs) \<and> gc_list (gc_list_move h node to) to (ys @ [node]) \<and>
    gc_list (gc_list_merge h from to) to (ys @ as @ node # bs) \<and> gc_list (gc_list_merge h from to) from [] \<and>
    gc_list_size h from = Some (length as + 1 + length bs) \<and>
    (\<forall>a. a \<notin> set (from # as @ node # bs) \<longrightarrow> a \<notin> set (to # ys) \<longrightarrow>
      same_at h (gc_list_move h node to) a \<and> same_at h (gc_list_merge h from to) a)"
proof -
  have s: "gc_seg h from [] (as @ node # bs)" using assms(1) by (simp add: gc_list_seg)
  have d: "set (from # [] @ as @ node # bs) \<inter> set (to # ys) = {}" using assms(3) by simp
  have "gc_list (gc_list_move h node to) from (as @ bs)" "gc_list (gc_list_move h node to) to (ys @ [node])"
    using gc_seg_move_from [OF s assms(2) d] gc_seg_move_to [OF s assms(2) d] by (simp_all add: gc_list_seg)
  moreover have "gc_list (gc_list_merge h from to) to (ys @ as @ node # bs)" "gc_list (gc_list_merge h from to) from []"
    using gc_list_merge_lists [OF assms(1,2,3)] by simp_all
  moreover have "gc_list_size h from = Some (length as + 1 + length bs)" using gc_list_size_length [OF assms(1)] by simp
  moreover have "\<forall>a. a \<notin> set (from # as @ node # bs) \<longrightarrow> a \<notin> set (to # ys) \<longrightarrow>
      same_at h (gc_list_move h node to) a \<and> same_at h (gc_list_merge h from to) a"
    using gc_seg_move_same [OF s assms(2) d] gc_list_merge_same [OF assms(1,2)] by simp
  ultimately show ?thesis by blast
qed

theorem gc_lists_are_lists_witness:
  "gc_list (gc_list_move demo_heap 8192 1024) 256 [4096, 12288, 16384] \<and> gc_list (gc_list_move demo_heap 8192 1024) 1024 [8192] \<and>
   gc_list (gc_list_merge demo_heap 256 1024) 1024 demo_objects \<and> gc_list_size demo_heap 256 = Some 4"
proof -
  have l: "gc_list demo_heap 256 ([4096] @ 8192 # [12288, 16384])" using demo_lists(1) by simp
  have d: "set (256 # [4096] @ 8192 # [12288, 16384]) \<inter> set [1024 :: addr] = {}" by simp
  from gc_lists_are_lists [OF l demo_lists(3) d] show ?thesis by simp
qed

section \<open>The work-stealing deque\<close>

text \<open>A run of one owner and one thief that race for the only object.\<close>

definition demo_ws :: "own \<Rightarrow> Ci_WSDeque \<Rightarrow> thief \<Rightarrow> ws" where
  "demo_ws c d h = \<lparr>s_deque = d, s_own = c, s_thief = (\<lambda>_. TIdle)(0 := h)\<rparr>"

lemma demo_ws_moves:
  "ws_run es (demo_ws OIdle d h) \<Longrightarrow> push_start x d = (c, d') \<Longrightarrow> ws_run (Silent # es) (demo_ws c d' h)"
  "ws_run es (demo_ws OIdle d h) \<Longrightarrow> take_start d = (c, d') \<Longrightarrow> ws_run (Silent # es) (demo_ws c d' h)"
  "ws_run es (demo_ws c0 d TIdle) \<Longrightarrow> ws_run (Silent # es) (demo_ws c0 d StealTop)"
  "ws_run es (demo_ws c0 d h) \<Longrightarrow> c0 \<noteq> OIdle \<Longrightarrow> own_step c0 d = (e, c, d') \<Longrightarrow> ws_run (e # es) (demo_ws c d' h)"
  "ws_run es (demo_ws c0 d h) \<Longrightarrow> h \<noteq> TIdle \<Longrightarrow> thief_step h d = (e, h', d') \<Longrightarrow> ws_run (e # es) (demo_ws c0 d' h')"
  using ws_run.step [of es "demo_ws OIdle d h", OF _ ws_step.push_call [of _ x c d']]
    ws_run.step [of es "demo_ws OIdle d h", OF _ ws_step.take_call [of _ c d']]
    ws_run.step [of es "demo_ws c0 d TIdle", OF _ ws_step.steal_call [of _ 0]]
    ws_run.step [of es "demo_ws c0 d h", OF _ ws_step.owner [of _ e c d']]
    ws_run.step [of es "demo_ws c0 d h", OF _ ws_step.thief [of _ 0 e h' d']]
  by (simp_all add: demo_ws_def)

lemma demo_deque_run:
  "\<exists>s. ws_run [Silent, TookNone, Stole 7, Silent, Silent, Silent, Silent, Silent, Silent, Silent, Pushed 7, Silent, Silent] s \<and>
     s_own s = OIdle"
proof -
  let ?a = "Ci_WSArray_New kCiParGCInitialArrSize"
  let ?p = "Ci_WSArray_Put ?a 1 7"
  let ?d = "\<lambda>t b. \<lparr>ws_top = t, ws_bot = b, ws_arr = 0, ws_num_resizes = 0, ws_mem = (\<lambda>_. ?a)(0 := ?p)\<rparr>"
  have a: "arr_ok ?a" using ws_init_inv by (simp add: ws_inv_def deque_ok_def ws_init_def Ci_WSDeque_Init_def)
  have get: "Ci_WSArray_Get ?p 1 = 7"
    using Get_aget [OF Put_ok(1) [OF a], of 1 7 1] Put_ok(4) [OF a, of 1 7] by simp
  have r0: "ws_run [] (demo_ws OIdle Ci_WSDeque_Init TIdle)"
  proof -
    have "(\<lambda>_. TIdle)(0 :: nat := TIdle) = (\<lambda>_. TIdle)" by (rule ext) simp
    then show ?thesis using ws_run.init by (simp add: ws_init_def demo_ws_def)
  qed
  have "push_start 7 Ci_WSDeque_Init = (PushPut 7, Ci_WSDeque_Init)"
    by (simp add: push_start_def Let_def Ci_WSDeque_Init_def Ci_WSArray_New_def kCiParGCInitialArrSize_def)
  note r1 = demo_ws_moves(1) [OF r0 this]
  have "ws_run [Silent, Silent] (demo_ws (PushBot 7) (?d 1 1) TIdle)"
    by (rule demo_ws_moves(4) [OF r1]) (simp_all add: Ci_WSDeque_Init_def)
  from demo_ws_moves(4) [OF this] have r3: "ws_run [Pushed 7, Silent, Silent] (demo_ws OIdle (?d 1 2) TIdle)" by simp
  from demo_ws_moves(5) [OF demo_ws_moves(3) [OF r3]]
  have r5: "ws_run [Silent, Silent, Pushed 7, Silent, Silent] (demo_ws OIdle (?d 1 2) (StealBot 1))" by simp
  from demo_ws_moves(5) [OF r5]
  have r6: "ws_run [Silent, Silent, Silent, Pushed 7, Silent, Silent] (demo_ws OIdle (?d 1 2) (StealArr 1))" by simp
  have "take_start (?d 1 2) = (TakeTop 1, ?d 1 1)" by (simp add: take_start_def Let_def)
  note r7 = demo_ws_moves(2) [OF r6 this]
  from demo_ws_moves(5) [OF r7]
  have r8: "ws_run [Silent, Silent, Silent, Silent, Silent, Pushed 7, Silent, Silent] (demo_ws (TakeTop 1) (?d 1 1) (StealGet 1 0))"
    by simp
  have st: "thief_step (StealGet 1 0) (?d 1 1) = (Silent, StealCas 1 7, ?d 1 1)" using get by simp
  note r9 = demo_ws_moves(5) [OF r8 _ st, simplified]
  have ot: "own_step (TakeTop 1) (?d 1 1) = (Silent, TakeCas 1 1 7, ?d 1 1)" using get by (simp add: Let_def)
  note r10 = demo_ws_moves(4) [OF r9 _ ot, simplified]
  have st: "thief_step (StealCas 1 7) (?d 1 1) = (Stole 7, TIdle, ?d 2 1)" by simp
  note r11 = demo_ws_moves(5) [OF r10 _ st, simplified]
  have ot: "own_step (TakeCas 1 1 7) (?d 2 1) = (TookNone, TakeRestore 1, ?d 2 1)" by simp
  note r12 = demo_ws_moves(4) [OF r11 _ ot, simplified]
  have ot: "own_step (TakeRestore 1) (?d 2 1) = (Silent, OIdle, ?d 2 2)" by simp
  note r13 = demo_ws_moves(4) [OF r12 _ ot, simplified]
  have "s_own (demo_ws OIdle (?d 2 2) TIdle) = OIdle" unfolding demo_ws_def by simp
  with r13 show ?thesis by blast
qed

text \<open>
  C13. The work-stealing deque. Whatever the interleaving of its owner and of the thieves, each single access to shared
  memory being a step, the outcomes of \<open>Ci_WSDeque_Push\<close>, \<open>Ci_WSDeque_Take\<close> and \<open>Ci_WSDeque_Steal\<close> are, in the order in
  which they are decided, a history of operations on an abstract deque, whose contents the run leaves between \<open>top\<close>
  and \<open>bot\<close>; a reader finds \<open>bot\<close> too low by at most one.
\<close>

theorem ws_deque_refines:
  assumes "ws_run es s" "length (pushes es) < 2 ^ 62"
  shows "dq_history es (contents s) \<and> unat (ws_top (s_deque s)) = dq_top (contents s) \<and>
    unat (ws_bot (s_deque s)) \<in> {dq_read_bot False (contents s), dq_read_bot True (contents s)}"
  using ws_run_ok [OF assms] ws_reads by blast

theorem ws_deque_refines_witness:
  "\<exists>es s. ws_run es s \<and> pushes es = [7] \<and> TookNone \<in> set es \<and> Stole 7 \<in> set es \<and> dq_history es (contents s)"
proof -
  let ?es = "[Silent, TookNone, Stole 7, Silent, Silent, Silent, Silent, Silent, Silent, Silent, Pushed 7, Silent, Silent]"
  obtain s where r: "ws_run ?es s" using demo_deque_run by blast
  have p: "pushes ?es = [7]" by simp
  have "dq_history ?es (contents s)" using ws_deque_refines [OF r] by (simp add: p)
  then show ?thesis using r p by (intro exI [of _ ?es] exI [of _ s]) simp
qed

text \<open>
  C14. No object is lost and none is handed out twice: the objects pushed are those taken, those stolen and those
  still in the deque, each as often as it was pushed. When the owner is outside its operations, \<open>Ci_WSDeque_Size\<close> is
  the number of the latter.
\<close>

theorem ws_deque_hands_out_once:
  assumes "ws_run es s" "length (pushes es) < 2 ^ 62"
  shows "mset (pushes es) = mset (handed_out es) + mset (dq_items (contents s)) \<and>
    (s_own s = OIdle \<longrightarrow>
       unat (Ci_WSDeque_Size (ws_bot (s_deque s)) (ws_top (s_deque s))) + length (handed_out es) = length (pushes es))"
proof -
  have m: "mset (pushes es) = mset (handed_out es) + mset (dq_items (contents s))"
    using ws_run_ok [OF assms] history_conserves by blast
  moreover have "unat (Ci_WSDeque_Size (ws_bot (s_deque s)) (ws_top (s_deque s))) = length (dq_items (contents s))"
    if "s_own s = OIdle"
    using ws_size_idle that ws_run_ok [OF assms] by blast
  moreover have "length (pushes es) = length (handed_out es) + length (dq_items (contents s))"
    using arg_cong [OF m, of size] by simp
  ultimately show ?thesis by simp
qed

theorem ws_deque_hands_out_once_witness:
  "\<exists>es s. ws_run es s \<and> pushes es = [7] \<and> handed_out es = [7] \<and> dq_items (contents s) = [] \<and>
     Ci_WSDeque_Size (ws_bot (s_deque s)) (ws_top (s_deque s)) = 0"
proof -
  let ?es = "[Silent, TookNone, Stole 7, Silent, Silent, Silent, Silent, Silent, Silent, Silent, Pushed 7, Silent, Silent]"
  obtain s where r: "ws_run ?es s" and o: "s_own s = OIdle" using demo_deque_run by blast
  have p: "pushes ?es = [7]" "handed_out ?es = [7]" by simp_all
  have "mset (dq_items (contents s)) = {#}" and z: "unat (Ci_WSDeque_Size (ws_bot (s_deque s)) (ws_top (s_deque s))) = 0"
    using ws_deque_hands_out_once [OF r, unfolded p] o by simp_all
  then show ?thesis using r p by (intro exI [of _ ?es] exI [of _ s]) (simp add: unat_eq_zero)
qed

section \<open>The parallel collector\<close>



text \<open>
  C1. Whatever the interleaving of the workers, \<open>Ci_deduce_unreachable_parallel\<close> leaves what
  \<open>deduce_unreachable\<close> promises: \<open>base\<close> holds exactly the reachable objects and \<open>unreachable\<close> the others. It also
  leaves the state that the workers share ready for the next collection. It can return from every such
  state; with fewer objects than workers it collects serially.
\<close>

theorem parallel_collector_correct:
  assumes "gc_ready env h perm ps base xs unr" "par_idle n s" "0 < n" "n + 1 < 2 ^ 32"
    and "length xs < 2 ^ 31" "0 \<notin> set xs"
  shows "(\<exists>s' h'. Ci_deduce_unreachable_parallel env perm n s h base unr s' h') \<and>
    (\<forall>s' h'. Ci_deduce_unreachable_parallel env perm n s h base unr s' h' \<longrightarrow> par_idle n s' \<and>
      (\<exists>D U. gc_list h' base D \<and> gc_masked_list h' unr U \<and> gc_list h' perm (ps @ filter (\<lambda>x. \<not> mortal env x) xs) \<and>
        set D = {y \<in> set (collected env xs). alive env (collected env xs) y} \<and>
        set U = {y \<in> set (collected env xs). \<not> alive env (collected env xs) y} \<and>
        (\<forall>d\<in>set D. \<not> gc_is_collecting h' d) \<and> (\<forall>u\<in>set U. gc_is_collecting h' u)))"
proof (intro conjI allI impI)
  show "\<exists>s' h'. Ci_deduce_unreachable_parallel env perm n s h base unr s' h'" by (rule deduce_parallel_returns [OF assms])
  fix s' h' assume "Ci_deduce_unreachable_parallel env perm n s h base unr s' h'"
  from deduce_parallel_deduces [OF assms this] show "par_idle n s'"
    "\<exists>D U. gc_list h' base D \<and> gc_masked_list h' unr U \<and> gc_list h' perm (ps @ filter (\<lambda>x. \<not> mortal env x) xs) \<and>
        set D = {y \<in> set (collected env xs). alive env (collected env xs) y} \<and>
        set U = {y \<in> set (collected env xs). \<not> alive env (collected env xs) y} \<and>
        (\<forall>d\<in>set D. \<not> gc_is_collecting h' d) \<and> (\<forall>u\<in>set U. gc_is_collecting h' u)"
    unfolding deduced_def by blast+
qed

theorem parallel_collector_correct_witness:
  "\<exists>s' h' D U. Ci_deduce_unreachable_parallel demo_env 512 2 (Ci_ParGCState_New demo_heap 2) demo_heap 256 768 s' h' \<and>
    par_idle 2 s' \<and> gc_list h' 256 D \<and> gc_masked_list h' 768 U \<and> set D = {4096, 8192} \<and> set U = {12288, 16384}"
proof -
  have "(0 :: nat) < 2" "(2 :: nat) + 1 < 2 ^ 32" "length demo_objects < 2 ^ 31" "(0 :: addr) \<notin> set demo_objects" by simp_all
  note c = parallel_collector_correct [OF demo_ready par_idle_new this, of demo_heap]
  obtain s' h' where r: "Ci_deduce_unreachable_parallel demo_env 512 2 (Ci_ParGCState_New demo_heap 2) demo_heap 256 768 s' h'"
    using conjunct1 [OF c] by blast
  with conjunct2 [OF c] obtain D U where "par_idle 2 s'" "gc_list h' 256 D" "gc_masked_list h' 768 U"
    "set D = {4096, 8192}" "set U = {12288, 16384}"
    unfolding demo_collected demo_alive demo_dead by blast
  with r show ?thesis by (intro exI conjI)
qed

text \<open>
  C7. The parallel and the serial collector agree on what is unreachable.
\<close>

theorem parallel_agrees_with_serial:
  assumes "gc_ready env h perm ps base xs unr" "par_idle n s" "0 < n" "n + 1 < 2 ^ 32"
    and "length xs < 2 ^ 31" "0 \<notin> set xs"
    and "Ci_deduce_unreachable_parallel env perm n s h base unr s' hp" "deduce_unreachable env perm h base unr = Some hs"
  shows "\<exists>D U D' U'. gc_list hp base D \<and> gc_masked_list hp unr U \<and> gc_list hs base D' \<and> gc_masked_list hs unr U' \<and>
    mset D = mset D' \<and> mset U = mset U'"
proof -
  obtain D U where p: "gc_list hp base D" "gc_masked_list hp unr U" "set D = {y \<in> set (collected env xs). alive env (collected env xs) y}"
    "set U = {y \<in> set (collected env xs). \<not> alive env (collected env xs) y}"
    using deduce_parallel_deduces [OF assms(1-7)] unfolding deduced_def by blast
  obtain D' U' where q: "gc_list hs base D'" "gc_masked_list hs unr U'" "set D' = {y \<in> set (collected env xs). alive env (collected env xs) y}"
    "set U' = {y \<in> set (collected env xs). \<not> alive env (collected env xs) y}"
    using deduce_unreachable_deduces [OF assms(1)] assms(8) unfolding deduced_def by (metis option.inject)
  have "distinct D" "distinct U" "distinct D'" "distinct U'" using p q by (auto simp: gc_list_def gc_masked_list_def)
  then have "mset D = mset D'" "mset U = mset U'" using p q by (simp_all add: set_eq_iff_mset_eq_distinct [symmetric])
  then show ?thesis using p q by blast
qed

text \<open>
  C5. The workers neither deadlock nor get lost: whatever they have done so far, the collection can still be completed,
  that is, the main thread gets past the last barrier.
\<close>

theorem parallel_runs_complete:
  assumes "gc_ready env h perm ps base xs unr" "par_idle n s" "0 < n" "n + 1 < 2 ^ 32"
    and "length xs < 2 ^ 31" "0 \<notin> set xs" "n \<le> length (collected env xs)"
  shows "\<exists>h1 seen slices. update_refs env perm h base = Some (h1, seen) \<and>
    Ci_assign_worker_slices h1 n base (to_int (to_uint seen)) = Some slices \<and>
    (\<forall>s1. par_run env slices n (start_workers n h1 s) s1 \<longrightarrow> (\<exists>s'. par_run env slices n s1 s' \<and> p_pc s' n = Exit))"
  using parallel_start [OF assms] par_run_completes [OF _ assms(2)] by blast


lemma demo_parallel: "2 \<le> length (collected demo_env demo_objects)"
  by (simp add: demo_collected)

theorem parallel_agrees_with_serial_witness:
  "\<exists>s' hp hs D U D' U'. Ci_deduce_unreachable_parallel demo_env 512 2 (Ci_ParGCState_New demo_heap 2) demo_heap 256 768 s' hp \<and>
    deduce_unreachable demo_env 512 demo_heap 256 768 = Some hs \<and>
    gc_list hp 256 D \<and> gc_masked_list hp 768 U \<and> gc_list hs 256 D' \<and> gc_masked_list hs 768 U' \<and> mset D = mset D' \<and> mset U = mset U'"
proof -
  have z: "(0 :: nat) < 2" "(2 :: nat) + 1 < 2 ^ 32" "length demo_objects < 2 ^ 31" "(0 :: addr) \<notin> set demo_objects" by simp_all
  obtain s' hp where p: "Ci_deduce_unreachable_parallel demo_env 512 2 (Ci_ParGCState_New demo_heap 2) demo_heap 256 768 s' hp"
    using deduce_parallel_returns [OF demo_ready par_idle_new z, of demo_heap] by blast
  obtain hs where q: "deduce_unreachable demo_env 512 demo_heap 256 768 = Some hs"
    using deduce_unreachable_deduces [OF demo_ready] by blast
  from parallel_agrees_with_serial [OF demo_ready par_idle_new z p q] p q show ?thesis by blast
qed

theorem parallel_runs_complete_witness:
  "\<exists>h1 seen slices s'. update_refs demo_env 512 demo_heap 256 = Some (h1, seen) \<and>
    Ci_assign_worker_slices h1 2 256 (to_int (to_uint seen)) = Some slices \<and>
    par_run demo_env slices 2 (start_workers 2 h1 (Ci_ParGCState_New demo_heap 2)) s' \<and> p_pc s' 2 = Exit"
proof -
  have z: "(0 :: nat) < 2" "(2 :: nat) + 1 < 2 ^ 32" "length demo_objects < 2 ^ 31" "(0 :: addr) \<notin> set demo_objects" by simp_all
  from parallel_runs_complete [OF demo_ready par_idle_new z demo_parallel, of demo_heap]
  show ?thesis by (meson par_run.intros(1))
qed


section \<open>A whole collection\<close>




definition demo_unlink :: "addr \<Rightarrow> gcheap \<Rightarrow> gcheap" where
  "demo_unlink a h = (if gc_next h (GC_PREV h a) = a \<and> GC_PREV h (gc_next h a) = a then gc_list_remove h a else h)"


definition demo_calls :: "unit gccalls" where
  "demo_calls = \<lparr>tp_finalize = (\<lambda>op. op \<noteq> 8208), call_finalize = (\<lambda>op (h, s). (demo_unlink 12288 h, s)),
     tp_clear = (\<lambda>_. True), call_clear = (\<lambda>op (h, s). (demo_unlink 12288 h, s)),
     garbage_append = (\<lambda>op (h, s). (True, h, s)), debug_saveall = False\<rparr>"

lemma gc_list_cycle:
  assumes "gc_list h l xs" "p \<in> set (l # xs)"
  shows "gc_next h p \<in> set (l # xs) \<and> GC_PREV h p \<in> set (l # xs)"
proof (cases "p = l")
  case True
  then show ?thesis
    using gc_list_GC_NEXT [OF assms(1)] gc_list_GC_PREV [OF assms(1)] by (cases xs) (simp_all add: GC_NEXT_def)
next
  case False
  then obtain as bs where x: "xs = as @ p # bs" using assms(2) by (auto dest: split_list)
  have "gc_list h l (as @ p # bs)" using assms(1) x by simp
  note n = gc_list_neighbours [OF this]
  have "gc_next h p \<in> set (l # xs)" using n(2) x by (cases bs) (auto simp: GC_NEXT_def)
  moreover have "GC_PREV h p \<in> set (l # xs)" using n(1) x last_in_set [of "l # as"] by auto
  ultimately show ?thesis ..
qed

lemma demo_unlink_flags: "gc_finalized (demo_unlink a h) = gc_finalized h" "gc_is_collecting (demo_unlink a h) = gc_is_collecting h"
proof -
  have "aligned (GC_PREV h a)" by (simp add: aligned_bit GC_PREV_def gc_bits)
  then show "gc_finalized (demo_unlink a h) = gc_finalized h" "gc_is_collecting (demo_unlink a h) = gc_is_collecting h"
    by (simp_all add: demo_unlink_def gc_list_remove_def Let_def)
qed

lemma demo_unlink_member:
  assumes "gc_list h l (as @ a # bs)"
  shows "gc_list (demo_unlink a h) l (as @ bs)" "b \<notin> set (l # as @ bs) \<Longrightarrow> same_at h (demo_unlink a h) b"
proof -
  note n = gc_list_neighbours [OF assms]
  have "gc_next h (GC_PREV h a) = a"
  proof (cases as rule: rev_cases)
    case Nil
    then show ?thesis using n(1) gc_list_GC_NEXT [OF assms] by (simp add: GC_NEXT_def)
  next
    case (snoc as' p)
    then show ?thesis using n(1) gc_list_neighbours(2) [of h l as' p "a # bs"] assms by (simp add: GC_NEXT_def)
  qed
  moreover have "GC_PREV h (gc_next h a) = a"
  proof (cases bs)
    case Nil
    then show ?thesis using n(2) gc_list_GC_PREV [OF assms] by (simp add: GC_NEXT_def)
  next
    case (Cons b bs')
    then show ?thesis using n(2) gc_list_neighbours(1) [of h l "as @ [a]" b bs'] assms by (simp add: GC_NEXT_def)
  qed
  ultimately have "demo_unlink a h = gc_list_remove h a" by (simp add: demo_unlink_def)
  then show "gc_list (demo_unlink a h) l (as @ bs)" "b \<notin> set (l # as @ bs) \<Longrightarrow> same_at h (demo_unlink a h) b"
    using gc_list_remove_list [OF assms] gc_list_remove_same [OF assms] by simp_all
qed

lemma demo_unlink_other:
  assumes l: "gc_list h l xs" and a: "a \<notin> set (l # xs)"
  shows "gc_list (demo_unlink a h) l xs"
proof -
  have "same_at h (demo_unlink a h) b" if "b \<in> set (l # xs)" for b
  proof (cases "gc_next h (GC_PREV h a) = a \<and> GC_PREV h (gc_next h a) = a")
    case True
    then have "b \<noteq> GC_PREV h a" "b \<noteq> gc_next h a" using gc_list_cycle [OF l that] a by auto
    then show ?thesis using True by (simp add: demo_unlink_def gc_list_remove_def same_at_def GC_NEXT_def)
  next
    case False
    then show ?thesis by (auto simp: demo_unlink_def same_at_def)
  qed
  then have "gc_list (demo_unlink a h) l xs = gc_list h l xs" by (rule gc_list_same)
  then show ?thesis using l by simp
qed

lemma demo_unlink_list:
  assumes l: "gc_list h l xs" and a: "a \<noteq> l"
  shows "\<exists>xs'. gc_list (demo_unlink a h) l xs' \<and> subseq xs' xs"
proof (cases "a \<in> set xs")
  case True
  then obtain as bs where x: "xs = as @ a # bs" by (auto dest: split_list)
  have "subseq (as @ bs) xs" unfolding x by (intro list_emb_append_mono) auto
  then show ?thesis using demo_unlink_member(1) [of h l as a bs] l x by blast
qed (use demo_unlink_other [OF l] a in auto)


lemma demo_finalizers_ok: "finalizers_ok demo_calls 256 768"
  unfolding finalizers_ok_def
proof (intro allI impI)
  fix op h and s :: unit and h' s' xs ys
  assume c: "call_finalize demo_calls op (h, s) = (h', s')" and l: "gc_list h 256 xs" "gc_list h 768 ys"
  have h': "h' = demo_unlink 12288 h" using c by (simp add: demo_calls_def)
  have "(12288 :: addr) \<noteq> 256" "(12288 :: addr) \<noteq> 768" by simp_all
  then show "\<exists>xs' ys'. gc_list h' 256 xs' \<and> subseq xs' xs \<and> gc_list h' 768 ys' \<and> subseq ys' ys \<and>
      (\<forall>a\<in>set (xs' @ ys'). gc_finalized h' a = gc_finalized h a)"
    using demo_unlink_list [OF l(1)] demo_unlink_list [OF l(2)] unfolding h' demo_unlink_flags by blast
qed

lemma demo_clears_ok: "clears_ok demo_calls 256 1024"
  unfolding clears_ok_def
proof (intro allI impI)
  fix op h and s :: unit and h' s' xs os
  assume c: "call_clear demo_calls op (h, s) = (h', s') \<or> (\<exists>b. garbage_append demo_calls op (h, s) = (b, h', s'))"
    and l: "gc_list h 256 xs" "gc_list h 1024 os" "set (256 # xs) \<inter> set (1024 # os) = {}"
  have "h' = demo_unlink 12288 h \<or> h' = h" using c by (auto simp: demo_calls_def)
  then show "\<exists>xs' os'. gc_list h' 256 xs' \<and> subseq xs' xs \<and> gc_list h' 1024 os' \<and> set (256 # xs') \<inter> set (1024 # os') = {}"
  proof
    assume h': "h' = demo_unlink 12288 h"
    have n: "(12288 :: addr) \<noteq> 256" "(12288 :: addr) \<noteq> 1024" by simp_all
    obtain xs' os' where r: "gc_list h' 256 xs'" "subseq xs' xs" "gc_list h' 1024 os'" "subseq os' os"
      using demo_unlink_list [OF l(1) n(1)] demo_unlink_list [OF l(2) n(2)] unfolding h' by blast
    moreover have "set (256 # xs') \<inter> set (1024 # os') = {}" using l(3) subseq_set [OF r(2)] subseq_set [OF r(4)] by auto
    ultimately show ?thesis by blast
  next
    assume "h' = h"
    then show ?thesis using l by blast
  qed
qed





text \<open>
  C11. \<open>finalize_garbage\<close> ends although the finalizers it calls may take objects out of its lists. No object is
  finalized twice or that was finalized before; every object that is left has been finalized if its type asks
  for it, and carries the mark; the objects that are left stay in order.
\<close>

theorem finalizers_run_once:
  assumes "finalizers_ok c collectable seen" "gc_list h collectable xs" "aligned seen" "seen \<notin> set (collectable # xs)"
  shows "\<exists>h' s' log ys. finalize_garbage (logged c) seen collectable (h, s, []) = Some (h', s', log) \<and>
    gc_list h' collectable ys \<and> subseq ys xs \<and> distinct log \<and>
    set log \<subseteq> FROM_GC ` {x \<in> set xs. \<not> gc_finalized h x \<and> tp_finalize c (FROM_GC x)} \<and>
    (\<forall>y\<in>set ys. \<not> gc_finalized h y \<and> tp_finalize c (FROM_GC y) \<longrightarrow> FROM_GC y \<in> set log) \<and>
    (\<forall>y\<in>set ys. gc_finalized h' y \<longleftrightarrow> gc_finalized h y \<or> tp_finalize c (FROM_GC y))"
  by (rule finalize_garbage_finalizes [OF assms])

theorem finalizers_run_once_witness:
  "\<exists>h' s' log ys. finalize_garbage (logged demo_calls) 768 256 (demo_heap, (), []) = Some (h', s', log) \<and>
    gc_list h' 256 ys \<and> subseq ys demo_objects \<and> distinct log \<and> 8208 \<notin> set log"
proof -
  have s: "768 \<notin> set (256 # demo_objects)" by simp
  obtain h' s' log ys where f: "finalize_garbage (logged demo_calls) 768 256 (demo_heap, (), []) = Some (h', s', log)"
    "gc_list h' 256 ys" "subseq ys demo_objects" "distinct log"
    "set log \<subseteq> FROM_GC ` {x \<in> set demo_objects. \<not> gc_finalized demo_heap x \<and> tp_finalize demo_calls (FROM_GC x)}"
    using finalizers_run_once [OF demo_finalizers_ok demo_lists(1) demo_aligned(3) s, of "()"] by (elim exE conjE)
  have "8208 \<notin> set log" using f(5) by (auto simp: demo_calls_def)
  with f(1-4) show ?thesis by blast
qed

text \<open>
  C12. \<open>delete_garbage\<close> ends although \<open>tp_clear\<close> may take objects out of the lists: \<open>collectable\<close> is empty at
  the end, \<open>old\<close> is a list again, and no object is cleared (or, with \<open>DEBUG_SAVEALL\<close>, saved) twice. When the calls take
  nothing away, every object is cleared in turn and moved to \<open>old\<close>.
\<close>

theorem garbage_cleared_once:
  assumes "clears_ok c collectable old" "gc_list h collectable xs" "gc_list h old os" "set (collectable # xs) \<inter> set (old # os) = {}"
  shows "\<exists>h' s' log os'. delete_garbage (logged c) collectable old (h, s, []) = Some (h', s', log) \<and>
    gc_list h' collectable [] \<and> gc_list h' old os' \<and> distinct log \<and>
    set log \<subseteq> FROM_GC ` {x \<in> set xs. debug_saveall c \<or> tp_clear c (FROM_GC x)} \<and>
    (calls_quiet c \<longrightarrow> os' = os @ xs \<and> log = map FROM_GC (filter (\<lambda>x. debug_saveall c \<or> tp_clear c (FROM_GC x)) xs))"
  by (rule delete_garbage_clears [OF assms])

theorem garbage_cleared_once_witness:
  "\<exists>h' s' log os'. delete_garbage (logged demo_calls) 256 1024 (demo_heap, (), []) = Some (h', s', log) \<and>
    gc_list h' 256 [] \<and> gc_list h' 1024 os' \<and> distinct log \<and> set log \<subseteq> {4112, 8208, 12304, 16400}"
proof -
  have d: "set (256 # demo_objects) \<inter> set [1024] = {}" by simp
  obtain h' s' log os' where f: "delete_garbage (logged demo_calls) 256 1024 (demo_heap, (), []) = Some (h', s', log)"
    "gc_list h' 256 []" "gc_list h' 1024 os'" "distinct log"
    "set log \<subseteq> FROM_GC ` {x \<in> set demo_objects. debug_saveall demo_calls \<or> tp_clear demo_calls (FROM_GC x)}"
    using garbage_cleared_once [OF demo_clears_ok demo_lists(1,3) d, of "()"] by (elim exE conjE)
  have "set log \<subseteq> {4112, 8208, 12304, 16400}" using f(5) by (auto simp: FROM_GC_def)
  with f(1-4) show ?thesis by blast
qed

end
